(* ===== verification/ApPrelude.thy ===== *)
theory ApPrelude
  imports Main "HOL-Library.Word"
begin

text \<open>
  Prelude of the development: the values that stand for the exits of the C++ code
  (exceptions, failed assertions, reads through a NULL or an uninitialised pointer), the
  collections of rewrite rules the component theories share, and the generic lemmas on
  lists and options they use.
\<close>

section \<open>Exits of the code\<close>

text \<open>
  A C++ function of the program either returns or leaves by one of these exits.
  \<open>EvalError\<close> is \<open>throw(eval_error(..))\<close>, \<open>DecompError\<close> is \<open>throw(decomp_error(..))\<close>;
  the string names the throw site, the values that the message interpolates are left out.
  \<open>AssertFailed\<close> is a failing \<open>assert\<close>. \<open>NullAccess\<close> stands for a read through a NULL
  pointer or of an array cell that was never written (undefined behaviour in C++);
  \<open>NullList\<close> is the return of NULL after the message that a node has no list.
\<close>

datatype ap_error =
    EvalError string
  | DecompError string
  | AssertFailed
  | NullAccess
  | NullList

type_synonym 'a result = "ap_error + 'a"

definition bind_result :: "'a result \<Rightarrow> ('a \<Rightarrow> 'b result) \<Rightarrow> 'b result" where
  "bind_result r k = (case r of Inl e \<Rightarrow> Inl e | Inr a \<Rightarrow> k a)"

definition map_ok :: "('a \<Rightarrow> 'b) \<Rightarrow> 'a result \<Rightarrow> 'b result" where
  "map_ok f r = (case r of Inl e \<Rightarrow> Inl e | Inr a \<Rightarrow> Inr (f a))"

definition is_ok :: "'a result \<Rightarrow> bool" where
  "is_ok r = (case r of Inl _ \<Rightarrow> False | Inr _ \<Rightarrow> True)"

named_theorems ap_result "rewriting of results"
named_theorems tree_simps "structure of the balanced trees"
named_theorems time_simps "arithmetic of the time values"

lemma bind_result_Inl [simp, ap_result]: "bind_result (Inl e) k = Inl e"
  by (simp add: bind_result_def)

lemma bind_result_Inr [simp, ap_result]: "bind_result (Inr a) k = k a"
  by (simp add: bind_result_def)

lemma bind_result_ok [ap_result]:
  "bind_result r k = Inr b \<longleftrightarrow> (\<exists>a. r = Inr a \<and> k a = Inr b)"
  by (cases r) (auto simp: bind_result_def)

lemma map_ok_simps [simp, ap_result]: "map_ok f (Inl e) = Inl e" "map_ok f (Inr a) = Inr (f a)"
  by (simp_all add: map_ok_def)

lemma map_ok_Inr: "map_ok f r = Inr b \<longleftrightarrow> (\<exists>a. r = Inr a \<and> f a = b)"
  by (cases r) auto

lemma is_ok_simps [simp]: "is_ok (Inr a)" "\<not> is_ok (Inl e)"
  by (simp_all add: is_ok_def)

lemma is_ok_iff: "is_ok r \<longleftrightarrow> (\<exists>a. r = Inr a)"
  by (cases r) auto

section \<open>Lists\<close>

text \<open>First and last element as the C++ pointers that are NULL for an empty list.\<close>

definition hd_opt :: "'a list \<Rightarrow> 'a option" where
  "hd_opt xs = (case xs of [] \<Rightarrow> None | x # _ \<Rightarrow> Some x)"

fun last_opt :: "'a list \<Rightarrow> 'a option" where
  "last_opt [] = None"
| "last_opt (x # xs) = (case last_opt xs of None \<Rightarrow> Some x | Some y \<Rightarrow> Some y)"

lemma hd_opt_simps [simp]: "hd_opt [] = None" "hd_opt (x # xs) = Some x"
  by (simp_all add: hd_opt_def)

lemma last_opt_eq: "last_opt xs = (if xs = [] then None else Some (last xs))"
  by (induction xs) auto

lemma last_opt_in_set: "last_opt xs = Some k \<Longrightarrow> k \<in> set xs"
  by (cases xs rule: rev_cases) (auto simp: last_opt_eq)

lemma hd_opt_append: "hd_opt (xs @ ys) = (if xs = [] then hd_opt ys else hd_opt xs)"
  by (cases xs) auto

lemma last_opt_append [simp]:
  "last_opt (xs @ ys) = (case last_opt ys of None \<Rightarrow> last_opt xs | Some y \<Rightarrow> Some y)"
  by (simp add: last_opt_eq)

lemma last_opt_None [simp]: "last_opt xs = None \<longleftrightarrow> xs = []"
  by (simp add: last_opt_eq)

lemma hd_opt_None [simp]: "hd_opt xs = None \<longleftrightarrow> xs = []"
  by (cases xs) auto

lemma case_option_id: "(case x of None \<Rightarrow> None | Some b \<Rightarrow> Some b) = x"
  by (cases x) simp_all

lemma takeWhile_append_split:
  assumes "\<forall>a\<in>set xs. P a" and "\<forall>a\<in>set ys. \<not> P a"
  shows "takeWhile P (xs @ ys) = xs" and "dropWhile P (xs @ ys) = ys"
proof -
  show "takeWhile P (xs @ ys) = xs"
    using assms by (cases ys) (auto simp: takeWhile_append)
  show "dropWhile P (xs @ ys) = ys"
    using assms by (cases ys) (auto simp: dropWhile_append)
qed

lemma sorted_wrt_append_Cons:
  "sorted_wrt R (xs @ x # ys) \<longleftrightarrow>
     sorted_wrt R xs \<and> sorted_wrt R ys \<and> (\<forall>a\<in>set xs. R a x) \<and> (\<forall>b\<in>set ys. R x b)
     \<and> (\<forall>a\<in>set xs. \<forall>b\<in>set ys. R a b)"
  by (auto simp: sorted_wrt_append)

section \<open>Chains of nodes\<close>

text \<open>The insertion of a node behind another one, or in front, in a chain of \<open>next\<close> pointers:
  \<open>insert_first_node_after_second\<close> of \<open>List\<close> and of \<open>slist\<close>.\<close>

fun insert_after :: "'a option \<Rightarrow> 'a \<Rightarrow> 'a list \<Rightarrow> 'a list" where
  "insert_after None x ys = x # ys"
| "insert_after (Some k) x [] = []"
| "insert_after (Some k) x (y # ys) =
     (if y = k then y # x # ys else y # insert_after (Some k) x ys)"

lemma insert_after_last:
  "distinct (A @ B) \<Longrightarrow> insert_after (last_opt A) N (A @ B) = A @ N # B"
proof (induction A)
  case (Cons a A)
  show ?case
  proof (cases "last_opt A")
    case None
    then show ?thesis by simp
  next
    case (Some k)
    then have "k \<in> set A" by (rule last_opt_in_set)
    with Cons Some show ?thesis by auto
  qed
qed simp

end
