(* ===== verification/NodeOrder.thy ===== *)
theory NodeOrder
  imports ApPrelude
begin

text \<open>
  The comparison functions of \<open>src/src/apcore/templates/C_list.C\<close> and the contract the
  balanced lists need of them. A \<open>blist\<close> carries a \<open>compare_function\<close>: a pointer to one of
  these functions. The locale \<open>comparer\<close> is that interface; each comparison function of the
  code is an interpretation of it.
\<close>

section \<open>The interface\<close>

locale comparer =
  fixes cmp :: "'a \<Rightarrow> 'a \<Rightarrow> int"
  assumes cmp_anti: "cmp a b < 0 \<longleftrightarrow> 0 < cmp b a"
    and cmp_trans: "cmp a b \<le> 0 \<Longrightarrow> cmp b c \<le> 0 \<Longrightarrow> cmp a c \<le> 0"
begin

lemma cmp_refl: "cmp a a = 0"
  using cmp_anti [of a a] by linarith

lemma cmp_zero_sym: "cmp a b = 0 \<longleftrightarrow> cmp b a = 0"
  using cmp_anti [of a b] cmp_anti [of b a] by linarith

lemma cmp_le_iff: "cmp a b \<le> 0 \<longleftrightarrow> 0 \<le> cmp b a"
  using cmp_anti [of b a] by linarith

lemma cmp_less_le_trans: "cmp a b < 0 \<Longrightarrow> cmp b c \<le> 0 \<Longrightarrow> cmp a c < 0"
  using cmp_trans [of b c a] cmp_anti [of a b] cmp_anti [of a c] cmp_anti [of c a]
  by linarith

lemma cmp_le_less_trans: "cmp a b \<le> 0 \<Longrightarrow> cmp b c < 0 \<Longrightarrow> cmp a c < 0"
  using cmp_trans [of c a b] cmp_anti [of b c] cmp_anti [of a c] cmp_anti [of c a]
  by linarith

lemma cmp_less_trans: "cmp a b < 0 \<Longrightarrow> cmp b c < 0 \<Longrightarrow> cmp a c < 0"
  using cmp_less_le_trans [of a b c] by linarith

lemma cmp_gt_trans: "0 < cmp a b \<Longrightarrow> 0 < cmp b c \<Longrightarrow> 0 < cmp a c"
  using cmp_less_trans [of c b a] cmp_anti by blast

lemma cmp_gt_less: "0 < cmp x b \<Longrightarrow> cmp a b < 0 \<Longrightarrow> 0 < cmp x a"
  using cmp_gt_trans [of x b a] cmp_anti by blast

end

section \<open>The nodes and their comparison functions\<close>

text \<open>
  What an \<open>int_node\<close> or a \<open>Time_node\<close> of \<open>C_list.H\<close> holds beside its links: \<open>node_key\<close> is
  \<open>_i\<close> or \<open>actual_time.theTime\<close>, \<open>node_official\<close> the value of the virtual \<open>getetime()\<close> (time
  nodes only), \<open>node_secondary\<close> the \<open>secondary_key\<close> and \<open>node_list\<close> the number of the list that
  \<open>list\<close> points to.
\<close>

record list_node =
  node_key :: int
  node_official :: int
  node_secondary :: int
  node_list :: "nat option"

definition has_a_list :: "list_node \<Rightarrow> bool" where
  "has_a_list n = (node_list n \<noteq> None)"

text \<open>\<open>compare_int_nodes\<close>: by key; at equal keys a node that is in no list is the greater,
  then the secondary key decides.\<close>

definition compare_int_nodes :: "list_node \<Rightarrow> list_node \<Rightarrow> int" where
  "compare_int_nodes t1 t2 =
     (if node_key t1 < node_key t2 then -1
      else if node_key t1 = node_key t2 then
        (if \<not> has_a_list t1 \<and> has_a_list t2 then 1
         else if \<not> has_a_list t2 \<and> has_a_list t1 then -1
         else if node_secondary t1 > node_secondary t2 then 1
         else if node_secondary t1 < node_secondary t2 then -1
         else 0)
      else 1)"

definition compare_Time_nodes :: "list_node \<Rightarrow> list_node \<Rightarrow> int" where
  "compare_Time_nodes t1 t2 =
     (let b1 = node_key t1; b2 = node_key t2 in
      if b1 < b2 then -1
      else if b1 = b2 then
        (if \<not> has_a_list t1 \<and> has_a_list t2 then 1
         else if \<not> has_a_list t2 \<and> has_a_list t1 then -1
         else if node_secondary t1 > node_secondary t2 then 1
         else if node_secondary t1 < node_secondary t2 then -1
         else 0)
      else 1)"

text \<open>\<open>strcmp\<close> on the bytes of the keys, of which the code uses only the sign; a proper prefix
  is the smaller, which is what the terminating zero byte gives.\<close>

fun strcmp :: "string \<Rightarrow> string \<Rightarrow> int" where
  "strcmp [] [] = 0"
| "strcmp [] (b # bs) = -1"
| "strcmp (a # as) [] = 1"
| "strcmp (a # as) (b # bs) =
     (if a = b then strcmp as bs
      else if (of_char a :: nat) < of_char b then -1 else 1)"

definition compare_bstringnodes :: "string \<Rightarrow> string \<Rightarrow> int" where
  "compare_bstringnodes a b = strcmp a b"

definition compare_bpointernodes :: "64 word \<Rightarrow> 64 word \<Rightarrow> int" where
  "compare_bpointernodes i j = (if i > j then 1 else if i = j then 0 else -1)"

section \<open>The comparison functions satisfy the interface\<close>

lemma of_char_neq_less: "a \<noteq> b \<Longrightarrow> \<not> (of_char a :: nat) < of_char b \<Longrightarrow> (of_char b :: nat) < of_char a"
  by (metis linorder_less_linear of_char_eq_iff)

lemma strcmp_anti: "strcmp a b < 0 \<longleftrightarrow> 0 < strcmp b a"
  by (induction a b rule: strcmp.induct) (auto dest: of_char_neq_less)

lemma strcmp_trans: "strcmp a b \<le> 0 \<Longrightarrow> strcmp b c \<le> 0 \<Longrightarrow> strcmp a c \<le> 0"
proof (induction a b arbitrary: c rule: strcmp.induct)
  case (4 a as b bs)
  then show ?case by (cases c) (auto split: if_splits)
next
  case 1
  then show ?case by simp
next
  case (2 b bs)
  then show ?case by (cases c) auto
next
  case (3 a as)
  then show ?case by simp
qed

lemma strcmp_zero: "strcmp a b = 0 \<longleftrightarrow> a = b"
  by (induction a b rule: strcmp.induct) auto

interpretation int_nodes: comparer compare_int_nodes
  by unfold_locales (auto simp: compare_int_nodes_def split: if_splits)

interpretation Time_nodes: comparer compare_Time_nodes
  by unfold_locales (auto simp: compare_Time_nodes_def Let_def split: if_splits)

text \<open>Nodes are reached through pointers; reading them through a store keeps the laws.\<close>

lemma comparer_image:
  assumes "comparer cmp"
  shows "comparer (\<lambda>a b. cmp (f a) (f b))"
  using assms unfolding comparer_def by blast

interpretation bstringnodes: comparer compare_bstringnodes
  by unfold_locales (auto simp: compare_bstringnodes_def strcmp_anti intro: strcmp_trans)

interpretation bpointernodes: comparer compare_bpointernodes
  by unfold_locales (auto simp: compare_bpointernodes_def split: if_splits)

end
