(* ===== verification/AvlTree.thy ===== *)
theory AvlTree
  imports NodeOrder
begin

text \<open>
  The AVL tree behind \<open>blist\<close> (\<open>src/src/apcore/templates/blist.C\<close>, \<open>src/src/apgenlib/C_list.H\<close>
  and \<open>treeDir.H\<close>): the node links and indicators, the path arrays \<open>path[]\<close> and
  \<open>p_direction[]\<close> of the algorithms as a list of frames, \<open>attach\<close>, \<open>get_link\<close>, the check
  \<open>get_pathlength\<close> and the searches. Insertion and removal are in \<open>AvlInsert\<close> and
  \<open>AvlRemove\<close>.
\<close>

section \<open>Data\<close>

text \<open>\<open>TreeDir::Dir\<close>: \<open>LEFT_DIR = 0\<close>, \<open>RIGHT_DIR = 1\<close>; an indicator is the heavy direction or
  \<open>BALANCED\<close>.\<close>

datatype dir = LEFT_DIR | RIGHT_DIR

datatype indicator = Heavy dir | BALANCED

text \<open>A node with its two links and its indicator; \<open>Tip\<close> is the NULL link.\<close>

datatype 'a btree =
    Tip
  | Node "'a btree" 'a indicator "'a btree"

text \<open>\<open>1 - d\<close> on directions.\<close>

fun op_dir :: "dir \<Rightarrow> dir" where
  "op_dir LEFT_DIR = RIGHT_DIR"
| "op_dir RIGHT_DIR = LEFT_DIR"

fun get_link :: "dir \<Rightarrow> 'a btree \<Rightarrow> 'a btree" where
  "get_link d Tip = Tip"
| "get_link LEFT_DIR (Node l a i r) = l"
| "get_link RIGHT_DIR (Node l a i r) = r"

text \<open>\<open>N->attach(d, t)\<close> for a node whose other link is \<open>s\<close>.\<close>

definition attach :: "dir \<Rightarrow> 'a \<Rightarrow> indicator \<Rightarrow> 'a btree \<Rightarrow> 'a btree \<Rightarrow> 'a btree" where
  "attach d a i s t = (case d of LEFT_DIR \<Rightarrow> Node t a i s | RIGHT_DIR \<Rightarrow> Node s a i t)"

text \<open>
  The search paths: a frame is one entry of \<open>path[]\<close> with its entry of \<open>p_direction[]\<close>: the
  direction taken, the node, its indicator and its link in the other direction. Paths are
  lists of frames, innermost (highest index) first; \<open>zip_up\<close> reads the tree off a path and
  the subtree that hangs from its last entry.
\<close>

type_synonym 'a frame = "dir \<times> 'a \<times> indicator \<times> 'a btree"

fun zip_up :: "'a frame list \<Rightarrow> 'a btree \<Rightarrow> 'a btree" where
  "zip_up [] t = t"
| "zip_up ((d, a, i, s) # up) t = zip_up up (attach d a i s t)"

fun inorder :: "'a btree \<Rightarrow> 'a list" where
  "inorder Tip = []"
| "inorder (Node l a i r) = inorder l @ a # inorder r"

fun height :: "'a btree \<Rightarrow> nat" where
  "height Tip = 0"
| "height (Node l a i r) = Suc (max (height l) (height r))"

section \<open>The check of the code and the invariant\<close>

text \<open>\<open>Node::get_pathlength\<close>: the length of the longest path below a node, if every indicator
  on the way agrees with the lengths of the two branches; 0 (here \<open>None\<close>) otherwise.\<close>

fun get_pathlength :: "'a btree \<Rightarrow> nat option" where
  "get_pathlength Tip = Some 0"
| "get_pathlength (Node l a i r) =
     (case get_pathlength l of
        None \<Rightarrow> None
      | Some L \<Rightarrow>
        (case get_pathlength r of
           None \<Rightarrow> None
         | Some R \<Rightarrow>
           (if R > L then (if i \<noteq> Heavy RIGHT_DIR then None else Some (R + 1))
            else if L > R then (if i \<noteq> Heavy LEFT_DIR then None else Some (L + 1))
            else if i \<noteq> BALANCED then None else Some (L + 1))))"

definition validate :: "'a btree \<Rightarrow> bool" where
  "validate root = (case root of Tip \<Rightarrow> True | _ \<Rightarrow> get_pathlength root \<noteq> None)"

text \<open>The balance invariant: the indicator says by exactly one which branch is longer.\<close>

fun balance :: "dir \<Rightarrow> indicator \<Rightarrow> nat \<Rightarrow> nat \<Rightarrow> bool" where
  "balance d BALANCED ht hs = (ht = hs)"
| "balance d (Heavy e) ht hs = (if e = d then ht = Suc hs else hs = Suc ht)"

fun avl :: "'a btree \<Rightarrow> bool" where
  "avl Tip = True"
| "avl (Node l a i r) = (avl l \<and> avl r \<and> balance LEFT_DIR i (height l) (height r))"

section \<open>Searches\<close>

text \<open>\<open>has_list\<close> is \<open>N->list != NULL\<close>.\<close>

fun find :: "('a \<Rightarrow> bool) \<Rightarrow> ('a \<Rightarrow> 'a \<Rightarrow> int) \<Rightarrow> 'a \<Rightarrow> 'a btree \<Rightarrow> 'a option" where
  "find has_list cmp new_node Tip = None"
| "find has_list cmp new_node (Node l a i r) =
     (if \<not> has_list a then None
      else let f = cmp new_node a in
        if f < 0 then find has_list cmp new_node l
        else if f = 0 then Some a
        else find has_list cmp new_node r)"

fun find_latest_before_loop ::
  "('a \<Rightarrow> 'a \<Rightarrow> int) \<Rightarrow> 'a \<Rightarrow> 'a btree \<Rightarrow> 'a option \<Rightarrow> 'a option" where
  "find_latest_before_loop cmp new_node Tip last_earlier_node = last_earlier_node"
| "find_latest_before_loop cmp new_node (Node l a i r) last_earlier_node =
     (let f = cmp new_node a in
      if f < 0 then find_latest_before_loop cmp new_node l last_earlier_node
      else if f = 0 then
        (if a \<noteq> new_node then Some a
         else find_latest_before_loop cmp new_node l last_earlier_node)
      else find_latest_before_loop cmp new_node r (Some a))"

definition find_latest_before :: "('a \<Rightarrow> 'a \<Rightarrow> int) \<Rightarrow> 'a \<Rightarrow> 'a btree \<Rightarrow> 'a option" where
  "find_latest_before cmp new_node root = find_latest_before_loop cmp new_node root None"

fun find_earliest_after_loop ::
  "('a \<Rightarrow> bool) \<Rightarrow> ('a \<Rightarrow> 'a \<Rightarrow> int) \<Rightarrow> 'a \<Rightarrow> 'a btree \<Rightarrow> 'a option \<Rightarrow> 'a option" where
  "find_earliest_after_loop has_list cmp new_node Tip last_later_node = last_later_node"
| "find_earliest_after_loop has_list cmp new_node (Node l a i r) last_later_node =
     (if \<not> has_list a then None
      else let f = cmp new_node a in
        if f < 0 then find_earliest_after_loop has_list cmp new_node l (Some a)
        else if f = 0 then
          (if a \<noteq> new_node then Some a
           else find_earliest_after_loop has_list cmp new_node r last_later_node)
        else find_earliest_after_loop has_list cmp new_node r last_later_node)"

definition find_earliest_after ::
  "('a \<Rightarrow> bool) \<Rightarrow> ('a \<Rightarrow> 'a \<Rightarrow> int) \<Rightarrow> 'a \<Rightarrow> 'a btree \<Rightarrow> 'a option" where
  "find_earliest_after has_list cmp new_node root =
     find_earliest_after_loop has_list cmp new_node root None"

fun earliest_node :: "'a btree \<Rightarrow> 'a option" where
  "earliest_node Tip = None"
| "earliest_node (Node l a i r) = (case l of Tip \<Rightarrow> Some a | _ \<Rightarrow> earliest_node l)"

fun latest_node :: "'a btree \<Rightarrow> 'a option" where
  "latest_node Tip = None"
| "latest_node (Node l a i r) = (case r of Tip \<Rightarrow> Some a | _ \<Rightarrow> latest_node r)"

text \<open>\<open>blist::order(Node*)\<close>: the nodes in the order in which it inserts them in the linked
  list, appended to what the list holds already.\<close>

fun order_from :: "'a btree \<Rightarrow> 'a list \<Rightarrow> 'a list" where
  "order_from Tip acc = acc"
| "order_from (Node l a i r) acc =
     order_from r (order_from l acc @ [a])"

section \<open>Structure lemmas\<close>

lemma op_dir_op_dir [simp]: "op_dir (op_dir d) = d"
  by (cases d) auto

lemma op_dir_neq [simp]: "op_dir d \<noteq> d" "d \<noteq> op_dir d"
  by (cases d, auto)+

lemma neq_dir_iff: "e \<noteq> LEFT_DIR \<longleftrightarrow> e = RIGHT_DIR" "e \<noteq> RIGHT_DIR \<longleftrightarrow> e = LEFT_DIR"
  by (cases e; simp)+

lemma neq_op_iff: "e \<noteq> d \<longleftrightarrow> e = op_dir d"
  by (cases d; cases e) auto

lemma indicator_cases [case_names left right balanced]:
  obtains "i = Heavy LEFT_DIR" | "i = Heavy RIGHT_DIR" | "i = BALANCED"
  by (metis dir.exhaust indicator.exhaust)

lemma attach_simps [tree_simps]:
  "attach LEFT_DIR a i s t = Node t a i s"
  "attach RIGHT_DIR a i s t = Node s a i t"
  by (simp_all add: attach_def)

lemma attach_neq_Tip [simp]: "attach d a i s t \<noteq> Tip" "Tip \<noteq> attach d a i s t"
  by (cases d; simp add: attach_def)+

lemma height_attach [simp]: "height (attach d a i s t) = Suc (max (height t) (height s))"
  by (cases d) (auto simp: tree_simps)

lemma get_link_attach [simp]:
  "get_link d (attach d a i s t) = t" "get_link (op_dir d) (attach d a i s t) = s"
  by (cases d; simp add: tree_simps)+

lemma height_Tip_iff [simp]: "height t = 0 \<longleftrightarrow> t = Tip"
  by (cases t) auto

lemma Tip_height_iff [simp]: "0 = height t \<longleftrightarrow> t = Tip"
  by (cases t) auto

lemma balance_sym: "balance (op_dir d) i ht hs \<longleftrightarrow> balance d i hs ht"
  by (cases i) (auto simp: neq_op_iff)

lemma avl_attach [simp]:
  "avl (attach d a i s t) \<longleftrightarrow> avl s \<and> avl t \<and> balance d i (height t) (height s)"
proof (cases d)
  case LEFT_DIR
  then show ?thesis by (auto simp: tree_simps)
next
  case RIGHT_DIR
  with balance_sym [of LEFT_DIR i "height t" "height s"] show ?thesis
    by (auto simp: tree_simps)
qed

text \<open>Every node can be read as an \<open>attach\<close> in either direction; proofs by cases on the
  direction alone are avoided this way.\<close>

lemma attach_exhaust:
  obtains "t = Tip" | a i s u where "t = attach d a i s u"
proof (cases t)
  case Tip
  then show ?thesis by (rule that(1))
next
  case (Node l a i r)
  then show ?thesis
    by (cases d) (auto simp: tree_simps intro!: that(2) [of a i])
qed

text \<open>Left and right contents of a path.\<close>

fun path_before :: "'a frame list \<Rightarrow> 'a list" where
  "path_before [] = []"
| "path_before ((d, a, i, s) # up) =
     path_before up @ (case d of LEFT_DIR \<Rightarrow> [] | RIGHT_DIR \<Rightarrow> inorder s @ [a])"

fun path_after :: "'a frame list \<Rightarrow> 'a list" where
  "path_after [] = []"
| "path_after ((d, a, i, s) # up) =
     (case d of LEFT_DIR \<Rightarrow> a # inorder s | RIGHT_DIR \<Rightarrow> []) @ path_after up"

definition around :: "dir \<Rightarrow> 'a list \<Rightarrow> 'a list \<Rightarrow> 'a list" where
  "around d near far = (case d of LEFT_DIR \<Rightarrow> near @ far | RIGHT_DIR \<Rightarrow> far @ near)"

lemma inorder_attach:
  "inorder (attach d a i s t) = around d (inorder t) (around d [a] (inorder s))"
  by (cases d) (auto simp: tree_simps around_def)

lemma around_assoc: "around d (around d x y) z = around d x (around d y z)"
  by (cases d) (auto simp: around_def)

lemma around_op: "around (op_dir d) x y = around d y x"
  by (cases d) (auto simp: around_def)

lemma around_Nil [simp]: "around d [] x = x" "around d x [] = x"
  by (cases d; simp add: around_def)+

lemmas inorder_around = inorder_attach around_assoc around_op

lemma inorder_zip_up:
  "inorder (zip_up p t) = path_before p @ inorder t @ path_after p"
  by (induction p t rule: zip_up.induct) (auto simp: inorder_attach around_def split: dir.splits)

lemma zip_up_append: "zip_up (p @ q) t = zip_up q (zip_up p t)"
  by (induction p t rule: zip_up.induct) auto

text \<open>A path is fit for a subtree of height \<open>h\<close>.\<close>

fun avl_path :: "'a frame list \<Rightarrow> nat \<Rightarrow> bool" where
  "avl_path [] h = True"
| "avl_path ((d, a, i, s) # up) h =
     (avl s \<and> balance d i h (height s) \<and> avl_path up (Suc (max h (height s))))"

lemma avl_zip_up: "avl (zip_up p t) \<longleftrightarrow> avl t \<and> avl_path p (height t)"
  by (induction p t rule: zip_up.induct) auto

fun path_height :: "'a frame list \<Rightarrow> nat \<Rightarrow> nat" where
  "path_height [] h = h"
| "path_height ((d, a, i, s) # up) h = path_height up (Suc (max h (height s)))"

lemma height_zip_up: "height (zip_up p t) = path_height p (height t)"
  by (induction p t rule: zip_up.induct) auto

lemma avl_path_append:
  "avl_path (p @ q) h \<longleftrightarrow> avl_path p h \<and> avl_path q (path_height p h)"
  by (induction p h rule: avl_path.induct) auto

lemma height_zip_up_ge: "height (zip_up p t) \<ge> height t + length p"
proof (induction p t rule: zip_up.induct)
  case (2 d a i s up t)
  have "height t + length ((d, a, i, s) # up) \<le> height (attach d a i s t) + length up"
    by simp
  also have "\<dots> \<le> height (zip_up up (attach d a i s t))" by (rule 2)
  finally show ?case by simp
qed simp

section \<open>The check accepts the invariant\<close>

lemma get_pathlength_avl: "avl t \<Longrightarrow> get_pathlength t = Some (height t)"
proof (induction t)
  case (Node l a i r)
  then have "get_pathlength l = Some (height l)" "get_pathlength r = Some (height r)"
    and "balance LEFT_DIR i (height l) (height r)"
    by simp_all
  then show ?case
    by (cases i rule: indicator_cases) simp_all
qed simp

lemma get_pathlength_cases: "get_pathlength t = None \<or> get_pathlength t = Some (height t)"
proof (induction t)
  case (Node l a i r)
  show ?case
  proof (cases "get_pathlength l = None \<or> get_pathlength r = None")
    case True
    then show ?thesis by (auto split: option.splits)
  next
    case False
    with Node.IH have "get_pathlength l = Some (height l)" "get_pathlength r = Some (height r)"
      by blast+
    then show ?thesis by (simp add: max_def)
  qed
qed simp

section \<open>Depth\<close>

text \<open>The fewest nodes an AVL tree of a given height has.\<close>

fun min_nodes :: "nat \<Rightarrow> nat" where
  "min_nodes 0 = 0"
| "min_nodes (Suc 0) = 1"
| "min_nodes (Suc (Suc n)) = Suc (min_nodes (Suc n) + min_nodes n)"

lemma min_nodes_step: "min_nodes n \<le> min_nodes (Suc n)"
  by (induction n rule: min_nodes.induct) auto

lemma min_nodes_mono: "m \<le> n \<Longrightarrow> min_nodes m \<le> min_nodes n"
  by (rule lift_Suc_mono_le [of min_nodes]) (rule min_nodes_step)

lemma min_nodes_max:
  assumes "min_nodes m \<le> x" and "min_nodes n \<le> y" and "m = n \<or> m = Suc n \<or> n = Suc m"
  shows "min_nodes (Suc (max m n)) \<le> Suc (x + y)"
proof (cases "m = n")
  case True
  with assms min_nodes_step [of "m - 1"] show ?thesis by (cases n) auto
next
  case False
  with assms show ?thesis by auto
qed

lemma avl_min_nodes: "avl t \<Longrightarrow> min_nodes (height t) \<le> length (inorder t)"
proof (induction t)
  case Tip
  then show ?case by simp
next
  case (Node l a i r)
  from Node.prems have "height l = height r \<or> height l = Suc (height r) \<or> height r = Suc (height l)"
    by (cases i) (auto split: if_splits)
  with Node.prems Node.IH min_nodes_max [of "height l" "length (inorder l)" "height r" "length (inorder r)"]
  show ?case by simp
qed

section \<open>Correctness of the searches\<close>

lemma earliest_node_hd: "earliest_node t = hd_opt (inorder t)"
proof (induction t)
  case (Node l a i r)
  then show ?case by (cases l) (simp_all add: hd_opt_append)
qed simp

lemma latest_node_last: "latest_node t = last_opt (inorder t)"
proof (induction t)
  case (Node l a i r)
  then show ?case by (cases r) (simp_all split: option.splits)
qed simp

lemma order_from_inorder: "order_from t acc = acc @ inorder t"
  by (induction t arbitrary: acc) auto

end
