(* ===== verification/AvlInsert.thy ===== *)
theory AvlInsert
  imports AvlTree
begin

text \<open>
  \<open>blist::insert_binary_node\<close> of \<open>src/src/apcore/templates/blist.C\<close>: the search that builds the
  path, and the cases 1, 2, 3, "modified 4 and 5", 4 and 5 of the rebalancing. The consumption
  bookkeeping (\<open>get_i_cons\<close>, \<open>set_i_cons\<close>, \<open>add_cons_to_ancestors\<close>, \<open>UPDATE_CONS\<close>) is that of
  \<open>Node\<close> itself, whose methods do nothing.
  The lemmas show that the AVL invariant is kept and that the in-order sequence of the result
  is the old one with the new node at the place the comparison function gives it.
\<close>

section \<open>The code\<close>

text \<open>The search loop. It returns the path to the leaf and the last node found to be earlier
  than the new one (the value left in the reference argument \<open>N\<close>); it returns NULL at a node
  without a list, and throws at a node that compares equal.\<close>

fun insert_search ::
  "('a \<Rightarrow> bool) \<Rightarrow> ('a \<Rightarrow> 'a \<Rightarrow> int) \<Rightarrow> 'a \<Rightarrow> 'a btree \<Rightarrow> 'a frame list \<Rightarrow> 'a option
     \<Rightarrow> ('a frame list \<times> 'a option) result" where
  "insert_search has_list cmp new_node Tip path last_earlier_node =
     Inr (path, last_earlier_node)"
| "insert_search has_list cmp new_node (Node l a i r) path last_earlier_node =
     (if \<not> has_list a then Inl NullList
      else let f = cmp new_node a in
        if f < 0 then
          insert_search has_list cmp new_node l ((LEFT_DIR, a, i, r) # path) last_earlier_node
        else if f = 0 then
          Inl (EvalError ''attempting to insert node into a spot already taken'')
        else
          insert_search has_list cmp new_node r ((RIGHT_DIR, a, i, l) # path) (Some a))"

text \<open>\<open>path[i]->indicator = p_direction[i]\<close>.\<close>

fun lean :: "'a frame \<Rightarrow> 'a frame" where
  "lean (d, a, i, s) = (d, a, Heavy d, s)"

text \<open>
  CASE 3: the focal point \<open>path[f]\<close> (node \<open>a\<close>, other link \<open>A\<close>) and \<open>path[f + 1]\<close> (node \<open>b\<close>,
  other link \<open>B\<close>) have the same direction \<open>d\<close>; \<open>X\<close> is what hangs from \<open>path[f + 1]\<close> in that
  direction. The result is the subtree that replaces the one at \<open>path[f]\<close>.
\<close>

definition insert_case3 ::
  "dir \<Rightarrow> 'a \<Rightarrow> 'a btree \<Rightarrow> 'a \<Rightarrow> indicator \<Rightarrow> 'a btree \<Rightarrow> 'a btree \<Rightarrow> 'a btree" where
  "insert_case3 d a A b bi B X = attach d b bi (attach d a BALANCED A B) X"

text \<open>MODIFIED CASES 4 AND 5: \<open>path[f + 2]\<close> is the new node \<open>x\<close>; both links towards it are
  replaced by NULL.\<close>

definition insert_case45 ::
  "dir \<Rightarrow> 'a \<Rightarrow> 'a btree \<Rightarrow> 'a \<Rightarrow> indicator \<Rightarrow> 'a btree \<Rightarrow> 'a \<Rightarrow> 'a btree" where
  "insert_case45 d a A b bi B x =
     attach d x BALANCED (attach d a BALANCED A Tip) (attach (op_dir d) b bi B Tip)"

text \<open>CASE 4: \<open>path[f + 2]\<close> (node \<open>c\<close>, other link \<open>C\<close>) continues in direction \<open>d\<close> with \<open>X\<close>.\<close>

definition insert_case4 ::
  "dir \<Rightarrow> 'a \<Rightarrow> 'a btree \<Rightarrow> 'a \<Rightarrow> indicator \<Rightarrow> 'a btree \<Rightarrow> 'a \<Rightarrow> indicator \<Rightarrow> 'a btree \<Rightarrow> 'a btree
     \<Rightarrow> 'a btree" where
  "insert_case4 d a A b bi B c ci C X =
     attach d c ci (attach d a (Heavy (op_dir d)) A C) (attach (op_dir d) b bi B X)"

text \<open>CASE 5: \<open>path[f + 2]\<close> continues in the other direction.\<close>

definition insert_case5 ::
  "dir \<Rightarrow> 'a \<Rightarrow> 'a btree \<Rightarrow> 'a \<Rightarrow> 'a btree \<Rightarrow> 'a \<Rightarrow> indicator \<Rightarrow> 'a btree \<Rightarrow> 'a btree
     \<Rightarrow> 'a btree" where
  "insert_case5 d a A b B c ci C X =
     attach d c ci (attach d a BALANCED A X) (attach (op_dir d) b (Heavy d) B C)"

text \<open>
  The choice among the cases. \<open>below\<close> is the part of the path under the focal point in the
  order from the focal point down, so that its head is \<open>path[f + 1]\<close>; an empty \<open>below\<close> with a
  heavy focal point would make the code read \<open>p_direction[n - 1]\<close>, which was never written.
\<close>

definition insert_focal ::
  "dir \<Rightarrow> 'a \<Rightarrow> indicator \<Rightarrow> 'a btree \<Rightarrow> 'a frame list \<Rightarrow> 'a \<Rightarrow> 'a btree result" where
  "insert_focal d a i A below x =
     (let leaf = Node Tip x BALANCED Tip;
          hang = (\<lambda>rest. zip_up (rev (map lean rest)) leaf) in
      if i \<noteq> Heavy d then Inr (attach d a BALANCED A (hang below))
      else case below of
        [] \<Rightarrow> Inl NullAccess
      | (d1, b, bi, B) # rest \<Rightarrow>
          (if d1 = d then Inr (insert_case3 d a A b bi B (hang rest))
           else case rest of
             [] \<Rightarrow> Inr (insert_case45 d a A b bi B x)
           | (d2, c, ci, C) # rest2 \<Rightarrow>
               (if d2 = d then Inr (insert_case4 d a A b bi B c ci C (hang rest2))
                else Inr (insert_case5 d a A b B c ci C (hang rest2)))))"

text \<open>From the path to the new tree: look for the focal point, then apply its case. CASE 1 is
  the focal point above the root.\<close>

definition is_balanced_frame :: "'a frame \<Rightarrow> bool" where
  "is_balanced_frame fr = (case fr of (d, a, i, s) \<Rightarrow> i = BALANCED)"

definition insert_rebalance :: "'a frame list \<Rightarrow> 'a \<Rightarrow> 'a btree result" where
  "insert_rebalance path x =
     (let below = takeWhile is_balanced_frame path in
      case dropWhile is_balanced_frame path of
        [] \<Rightarrow> Inr (zip_up (map lean below) (Node Tip x BALANCED Tip))
      | (d, a, i, A) # up \<Rightarrow>
          bind_result (insert_focal d a i A (rev below) x) (\<lambda>t. Inr (zip_up up t)))"

text \<open>The whole method: the new root and the new value of \<open>N\<close>.\<close>

definition insert_binary_node ::
  "('a \<Rightarrow> bool) \<Rightarrow> ('a \<Rightarrow> 'a \<Rightarrow> int) \<Rightarrow> 'a \<Rightarrow> 'a btree \<Rightarrow> ('a btree \<times> 'a option) result" where
  "insert_binary_node has_list cmp N root =
     (case root of
        Tip \<Rightarrow> Inr (Node Tip N BALANCED Tip, None)
      | _ \<Rightarrow>
        bind_result (insert_search has_list cmp N root [] None)
          (\<lambda>(path, last_earlier_node).
             bind_result (insert_rebalance path N)
               (\<lambda>root'. Inr (root', last_earlier_node))))"

section \<open>Balance\<close>

lemma height_leaf [simp]: "height (Node Tip x BALANCED Tip) = 1"
  by simp

lemma path_height_balanced:
  "\<forall>fr\<in>set p. is_balanced_frame fr \<Longrightarrow> avl_path p h \<Longrightarrow> path_height p h = h + length p"
proof (induction p h rule: avl_path.induct)
  case (2 d a i s up h)
  then show ?case by (auto simp: is_balanced_frame_def)
qed simp

text \<open>Leaning the balanced part of a path makes room for a subtree that grew by one.\<close>

lemma avl_path_lean:
  "\<forall>fr\<in>set p. is_balanced_frame fr \<Longrightarrow> avl_path p h \<Longrightarrow>
     avl_path (map lean p) (Suc h) \<and> path_height (map lean p) (Suc h) = Suc (h + length p)"
proof (induction p h rule: avl_path.induct)
  case (2 d a i s up h)
  then show ?case by (auto simp: is_balanced_frame_def)
qed simp

lemma avl_hang:
  assumes "\<forall>fr\<in>set p. is_balanced_frame fr" and "avl_path p 0"
  shows "avl (zip_up (map lean p) (Node Tip x BALANCED Tip))"
    and "height (zip_up (map lean p) (Node Tip x BALANCED Tip)) = Suc (length p)"
  using avl_path_lean [OF assms] by (simp_all add: avl_zip_up height_zip_up)

lemma avl_hang_rev:
  assumes "\<forall>fr\<in>set p. is_balanced_frame fr" and "avl_path (rev p) 0"
  shows "avl (zip_up (rev (map lean p)) (Node Tip x BALANCED Tip))"
    and "height (zip_up (rev (map lean p)) (Node Tip x BALANCED Tip)) = Suc (length p)"
  using avl_hang [of "rev p"] assms by (simp_all add: rev_map)

lemma insert_focal_avl:
  assumes bal: "\<forall>fr\<in>set below. is_balanced_frame fr"
    and path: "avl_path (rev below @ [(d, a, i, A)]) 0" and heavy: "i \<noteq> BALANCED"
  shows "\<exists>t. insert_focal d a i A below x = Inr t \<and> avl t
           \<and> height t = Suc (max (length below) (height A))"
proof (cases "i = Heavy d")
  case False
  with heavy have i: "i = Heavy (op_dir d)" by (cases i) (auto simp: neq_op_iff)
  from bal path have "path_height (rev below) 0 = length below"
    by (simp add: avl_path_append path_height_balanced)
  with i path avl_hang_rev [of below] bal show ?thesis
    by (auto simp: insert_focal_def Let_def avl_path_append)
next
  case True
  from bal path have len: "path_height (rev below) 0 = length below"
    by (simp add: avl_path_append path_height_balanced)
  with True path have A: "length below = Suc (height A)" "avl A"
    by (auto simp: avl_path_append)
  then obtain d1 b bi B rest where below: "below = (d1, b, bi, B) # rest"
    by (cases below) auto
  with bal path have bi: "bi = BALANCED" and B: "avl B" "height B = length rest"
    and rest: "avl_path (rev rest) 0" "\<forall>fr\<in>set rest. is_balanced_frame fr"
    by (auto simp: avl_path_append is_balanced_frame_def path_height_balanced)
  note hang = avl_hang_rev [of rest]
  show ?thesis
  proof (cases "d1 = d")
    case True
    with A B rest below bi hang \<open>i = Heavy d\<close> show ?thesis
      by (auto simp: insert_focal_def insert_case3_def Let_def)
  next
    case False
    then have d1: "d1 = op_dir d" by (simp add: neq_op_iff)
    show ?thesis
    proof (cases rest)
      case Nil
      with A B d1 below bi \<open>i = Heavy d\<close> show ?thesis
        by (auto simp: insert_focal_def insert_case45_def Let_def)
    next
      case (Cons fr rest2)
      obtain d2 c ci C where fr: "fr = (d2, c, ci, C)" by (cases fr)
      with Cons rest have C: "avl C" "height C = length rest2" "ci = BALANCED"
        and rest2: "avl_path (rev rest2) 0" "\<forall>fr\<in>set rest2. is_balanced_frame fr"
        by (auto simp: avl_path_append is_balanced_frame_def path_height_balanced)
      from C rest2 avl_hang_rev [of rest2] A B d1 below bi Cons fr \<open>i = Heavy d\<close>
      show ?thesis
        by (auto simp: insert_focal_def insert_case4_def insert_case5_def Let_def)
    qed
  qed
qed

lemma avl_path_cong_height:
  "avl_path ((d, a, i, A) # up) h \<Longrightarrow> n = Suc (max h (height A)) \<Longrightarrow> avl_path up n"
  by simp

lemma takeWhile_balanced: "\<forall>fr\<in>set (takeWhile is_balanced_frame p). is_balanced_frame fr"
  by (auto dest: set_takeWhileD)

lemma insert_rebalance_avl:
  assumes "avl_path path 0"
  shows "\<exists>t. insert_rebalance path x = Inr t \<and> avl t"
proof -
  let ?below = "takeWhile is_balanced_frame path"
  let ?rest = "dropWhile is_balanced_frame path"
  have "avl_path (?below @ ?rest) 0" using assms by simp
  then have below: "avl_path ?below 0" and rest: "avl_path ?rest (length ?below)"
    unfolding avl_path_append using path_height_balanced [OF takeWhile_balanced, of path 0]
    by simp_all
  show ?thesis
  proof (cases ?rest)
    case Nil
    then have "insert_rebalance path x =
      Inr (zip_up (map lean ?below) (Node Tip x BALANCED Tip))"
      unfolding insert_rebalance_def Let_def by (simp only: list.case)
    with avl_hang(1) [OF takeWhile_balanced below, of x] show ?thesis by (intro exI conjI)
  next
    case (Cons fr up)
    obtain d a i A where fr: "fr = (d, a, i, A)" by (cases fr)
    have "\<not> is_balanced_frame (hd ?rest)"
      using hd_dropWhile [of is_balanced_frame path] Cons by simp
    with Cons fr have i: "i \<noteq> BALANCED" by (simp add: is_balanced_frame_def)
    from rest Cons fr below have "avl_path (rev (rev ?below) @ [(d, a, i, A)]) 0"
      using path_height_balanced [OF takeWhile_balanced below] by (simp add: avl_path_append)
    from insert_focal_avl [OF _ this i, of x] takeWhile_balanced
    obtain t where t: "insert_focal d a i A (rev ?below) x = Inr t" "avl t"
      "height t = Suc (max (length ?below) (height A))"
      by (metis length_rev set_rev)
    have "insert_rebalance path x = Inr (zip_up up t)"
      unfolding insert_rebalance_def Let_def Cons fr by (simp only: list.case prod.case t(1) bind_result_Inr)
    moreover have "avl_path up (height t)"
      using rest unfolding Cons fr avl_path.simps t(3) by blast
    moreover have "avl (zip_up up t)" unfolding avl_zip_up using t(2) calculation(2) by blast
    ultimately show ?thesis by blast
  qed
qed

section \<open>Order\<close>

lemma path_lean [simp]:
  "path_before (map lean p) = path_before p" "path_after (map lean p) = path_after p"
  by (induction p rule: path_before.induct) auto

lemma inorder_zip_up_lean: "inorder (zip_up (map lean p) t) = inorder (zip_up p t)"
  by (simp add: inorder_zip_up)

lemma inorder_zip_up_lean_rev: "inorder (zip_up (rev (map lean p)) t) = inorder (zip_up (rev p) t)"
  by (simp add: rev_map inorder_zip_up_lean)

lemma inorder_zip_up_cong: "inorder t = inorder u \<Longrightarrow> inorder (zip_up p t) = inorder (zip_up p u)"
  by (simp add: inorder_zip_up)

lemma insert_focal_inorder:
  assumes "insert_focal d a i A below x = Inr t"
  shows "inorder t = inorder (zip_up (rev below @ [(d, a, i, A)]) (Node Tip x BALANCED Tip))"
  using assms
  by (auto simp: insert_focal_def Let_def insert_case3_def insert_case45_def insert_case4_def
      insert_case5_def inorder_zip_up_lean_rev zip_up_append inorder_around neq_op_iff
      simp del: map_map split: list.splits if_splits)

lemma insert_rebalance_inorder:
  assumes "insert_rebalance path x = Inr t"
  shows "inorder t = path_before path @ x # path_after path"
proof -
  let ?below = "takeWhile is_balanced_frame path"
  let ?rest = "dropWhile is_balanced_frame path"
  have "inorder t = inorder (zip_up (?below @ ?rest) (Node Tip x BALANCED Tip))"
  proof (cases ?rest)
    case Nil
    then have "insert_rebalance path x = Inr (zip_up (map lean ?below) (Node Tip x BALANCED Tip))"
      unfolding insert_rebalance_def Let_def by (simp only: list.case)
    with assms have "t = zip_up (map lean ?below) (Node Tip x BALANCED Tip)" by simp
    then show ?thesis unfolding Nil by (simp only: inorder_zip_up_lean append_Nil2)
  next
    case (Cons fr up)
    obtain d a i A where fr: "fr = (d, a, i, A)" by (cases fr)
    with assms Cons obtain u where u: "insert_focal d a i A (rev ?below) x = Inr u"
      "t = zip_up up u"
      by (auto simp: insert_rebalance_def Let_def bind_result_ok)
    from insert_focal_inorder [OF u(1)] u(2) Cons fr show ?thesis
      by (simp add: zip_up_append inorder_zip_up)
  qed
  then show ?thesis by (simp add: inorder_zip_up)
qed

text \<open>The search splits the in-order sequence at the place of the new node.\<close>

lemma insert_search_zip:
  "insert_search has_list cmp x t path le = Inr (path', le') \<Longrightarrow> zip_up path' Tip = zip_up path t"
  by (induction t arbitrary: path le)
    (auto simp: Let_def tree_simps split: if_splits)

lemma insert_search_last:
  "insert_search has_list cmp x t path (last_opt (path_before path)) = Inr (path', le') \<Longrightarrow>
     le' = last_opt (path_before path')"
proof (induction t arbitrary: path)
  case (Node l a i r)
  show ?case
  proof (cases "0 < cmp x a")
    case True
    with Node.prems have "insert_search has_list cmp x r ((RIGHT_DIR, a, i, l) # path)
        (last_opt (path_before ((RIGHT_DIR, a, i, l) # path))) = Inr (path', le')"
      by (auto simp: Let_def split: if_splits)
    then show ?thesis by (rule Node.IH(2))
  next
    case False
    with Node.prems have "insert_search has_list cmp x l ((LEFT_DIR, a, i, r) # path)
        (last_opt (path_before ((LEFT_DIR, a, i, r) # path))) = Inr (path', le')"
      by (auto simp: Let_def split: if_splits)
    then show ?thesis by (rule Node.IH(1))
  qed
qed simp

text \<open>The abstract insertion: in front of the first element that is not smaller.\<close>

definition ins_sorted :: "('a \<Rightarrow> 'a \<Rightarrow> int) \<Rightarrow> 'a \<Rightarrow> 'a list \<Rightarrow> 'a list" where
  "ins_sorted cmp x xs = takeWhile (\<lambda>a. 0 < cmp x a) xs @ x # dropWhile (\<lambda>a. 0 < cmp x a) xs"

definition latest_smaller :: "('a \<Rightarrow> 'a \<Rightarrow> int) \<Rightarrow> 'a \<Rightarrow> 'a list \<Rightarrow> 'a option" where
  "latest_smaller cmp x xs = last_opt (takeWhile (\<lambda>a. 0 < cmp x a) xs)"

definition in_order :: "('a \<Rightarrow> 'a \<Rightarrow> int) \<Rightarrow> 'a list \<Rightarrow> bool" where
  "in_order cmp xs = sorted_wrt (\<lambda>a b. cmp a b < 0) xs"

context comparer
begin

lemma insert_search_split:
  assumes "insert_search has_list cmp x t path le = Inr (path', le')"
    and "in_order cmp (path_before path @ inorder t @ path_after path)"
    and "\<forall>a\<in>set (path_before path). 0 < cmp x a" and "\<forall>a\<in>set (path_after path). cmp x a < 0"
  shows "(\<forall>a\<in>set (path_before path'). 0 < cmp x a) \<and> (\<forall>a\<in>set (path_after path'). cmp x a < 0)"
  using assms
proof (induction t arbitrary: path le)
  case (Node l a i r)
  from Node.prems(1) have ne: "cmp x a \<noteq> 0" by (auto simp: Let_def split: if_splits)
  show ?case
  proof (cases "0 < cmp x a")
    case True
    have "insert_search has_list cmp x r ((RIGHT_DIR, a, i, l) # path) (Some a) = Inr (path', le')"
      using Node.prems(1) True by (auto simp: Let_def split: if_splits)
    then show ?thesis
      by (rule Node.IH(2))
        (use Node.prems True in \<open>auto simp: in_order_def sorted_wrt_append intro: cmp_gt_less\<close>)
  next
    case False
    with ne have neg: "cmp x a < 0" by simp
    have "insert_search has_list cmp x l ((LEFT_DIR, a, i, r) # path) le = Inr (path', le')"
      using Node.prems(1) neg by (auto simp: Let_def split: if_splits)
    then show ?thesis
      by (rule Node.IH(1))
        (use Node.prems neg in \<open>auto simp: in_order_def sorted_wrt_append intro: cmp_less_trans\<close>)
  qed
qed simp

lemma insert_search_ok:
  "\<forall>a\<in>set (inorder t). has_list a \<and> cmp x a \<noteq> 0 \<Longrightarrow>
     \<exists>path' le'. insert_search has_list cmp x t path le = Inr (path', le')"
proof (induction t arbitrary: path le)
  case (Node l a i r)
  then show ?case by (simp add: Let_def)
qed simp

lemma insert_search_dup:
  "\<forall>a\<in>set (inorder t). has_list a \<Longrightarrow> in_order cmp (inorder t) \<Longrightarrow> e \<in> set (inorder t) \<Longrightarrow>
     cmp x e = 0 \<Longrightarrow> \<exists>m. insert_search has_list cmp x t path le = Inl (EvalError m)"
proof (induction t arbitrary: path le)
  case (Node l a i r)
  consider "e = a" | "e \<in> set (inorder l)" | "e \<in> set (inorder r)"
    using Node.prems(3) by auto
  then show ?case
  proof cases
    case 1
    with Node.prems show ?thesis by (simp add: Let_def)
  next
    case 2
    with Node.prems have "cmp e a < 0" by (auto simp: in_order_def sorted_wrt_append)
    with Node.prems(4) have "cmp x a < 0" using cmp_le_less_trans [of x e a] by simp
    with 2 Node show ?thesis by (simp add: Let_def in_order_def sorted_wrt_append)
  next
    case 3
    with Node.prems have "cmp a e < 0" by (auto simp: in_order_def sorted_wrt_append)
    with Node.prems(4) have "0 < cmp x a"
      using cmp_less_le_trans [of a e x] cmp_zero_sym [of x e] cmp_anti [of a x] by simp
    with 3 Node show ?thesis by (simp add: Let_def in_order_def sorted_wrt_append)
  qed
qed simp

text \<open>The contract of the method on a tree that satisfies the invariants.\<close>

lemma insert_binary_node_ok:
  assumes avl: "avl t" and ord: "in_order cmp (inorder t)"
    and new: "\<forall>a\<in>set (inorder t). has_list a \<and> cmp x a \<noteq> 0"
  shows "\<exists>t'. insert_binary_node has_list cmp x t = Inr (t', latest_smaller cmp x (inorder t))
           \<and> avl t' \<and> inorder t' = ins_sorted cmp x (inorder t)"
proof (cases "t = Tip")
  case True
  then show ?thesis
    by (simp add: insert_binary_node_def latest_smaller_def ins_sorted_def)
next
  case False
  from insert_search_ok [OF new] obtain path le where
    s: "insert_search has_list cmp x t [] None = Inr (path, le)" by blast
  have zip: "zip_up path Tip = t" using insert_search_zip [OF s] by simp
  then have cut: "inorder t = path_before path @ path_after path"
    by (auto simp: inorder_zip_up [of path Tip])
  have le: "le = last_opt (path_before path)"
    using insert_search_last [of has_list cmp x t "[]"] s by simp
  have "\<forall>a\<in>set (path_before path). 0 < cmp x a" "\<forall>a\<in>set (path_after path). \<not> 0 < cmp x a"
    using insert_search_split [OF s] ord by force+
  note tw = takeWhile_append_split [of _ "\<lambda>a. 0 < cmp x a", OF this]
  have path: "avl_path path 0" using avl avl_zip_up [of path Tip] unfolding zip by simp
  from insert_rebalance_avl [OF path, of x]
  obtain t' where t': "insert_rebalance path x = Inr t'" "avl t'" by (elim exE conjE)
  from False s t'(1) have "insert_binary_node has_list cmp x t = Inr (t', le)"
    by (cases t) (simp_all add: insert_binary_node_def del: insert_search.simps)
  moreover have "le = latest_smaller cmp x (inorder t)"
    unfolding le latest_smaller_def cut tw(1) by (rule refl)
  moreover have "inorder t' = ins_sorted cmp x (inorder t)"
    unfolding ins_sorted_def cut tw insert_rebalance_inorder [OF t'(1)] by (rule refl)
  ultimately show ?thesis using t'(2) by blast
qed

lemma insert_binary_node_dup:
  assumes "in_order cmp (inorder t)" and "\<forall>a\<in>set (inorder t). has_list a"
    and "e \<in> set (inorder t)" and "cmp x e = 0"
  shows "\<exists>m. insert_binary_node has_list cmp x t = Inl (EvalError m)"
  using insert_search_dup [OF assms(2,1,3,4), of "[]" None] assms(3)
  by (auto simp: insert_binary_node_def split: btree.splits)

lemma dropWhile_greater:
  "in_order cmp xs \<Longrightarrow> \<forall>a\<in>set xs. cmp x a \<noteq> 0 \<Longrightarrow> b \<in> set (dropWhile (\<lambda>a. 0 < cmp x a) xs) \<Longrightarrow>
     cmp x b < 0"
proof (induction xs)
  case (Cons a xs)
  show ?case
  proof (cases "0 < cmp x a")
    case True
    with Cons show ?thesis by (simp add: in_order_def)
  next
    case False
    with Cons.prems(2) have "cmp x a < 0" by auto
    with False Cons.prems show ?thesis by (auto simp: in_order_def intro: cmp_less_trans)
  qed
qed simp

lemma ins_sorted_in_order:
  assumes "in_order cmp xs" and "\<forall>a\<in>set xs. cmp x a \<noteq> 0"
  shows "in_order cmp (ins_sorted cmp x xs)"
proof -
  let ?P = "\<lambda>a. 0 < cmp x a"
  have "in_order cmp (takeWhile ?P xs @ dropWhile ?P xs)" using assms(1) by simp
  moreover have "\<forall>a\<in>set (takeWhile ?P xs). cmp a x < 0"
    using cmp_anti by (auto dest: set_takeWhileD)
  moreover have "\<forall>b\<in>set (dropWhile ?P xs). cmp x b < 0"
    using dropWhile_greater [OF assms] by blast
  ultimately show ?thesis
    unfolding in_order_def ins_sorted_def
    by (auto simp: sorted_wrt_append intro: cmp_less_trans [of _ x])
qed

end

lemma set_ins_sorted [simp]: "set (ins_sorted cmp x xs) = insert x (set xs)"
proof -
  have "set (takeWhile P xs) \<union> set (dropWhile P xs) = set xs" for P
    unfolding set_append [symmetric] by simp
  then show ?thesis unfolding ins_sorted_def set_append list.set(2) by blast
qed

end
