(* ===== verification/AvlRemove.thy ===== *)
theory AvlRemove
  imports AvlInsert
begin

text \<open>
  \<open>blist::remove_node\<close> and \<open>Node::rotate\<close> of \<open>src/src/apcore/templates/blist.C\<close>: the search
  for the node, the swap with a leaf in its sub-cases, the initial adjustment and the loop
  that looks for a prime position. The path is a list of frames as in \<open>AvlInsert\<close>; what hangs
  from its innermost frame in the direction of that frame is the \<open>hole\<close> the removal leaves.
  The lemmas show that the AVL invariant is kept and that the in-order sequence loses exactly
  the removed node.
\<close>

section \<open>The code\<close>

text \<open>PHASE 1: the path to the node and the subtree at the node. A node that compares equal
  and is another one, or the end of a branch, throws.\<close>

fun remove_search ::
  "('a \<Rightarrow> bool) \<Rightarrow> ('a \<Rightarrow> 'a \<Rightarrow> int) \<Rightarrow> 'a \<Rightarrow> 'a btree \<Rightarrow> 'a frame list
     \<Rightarrow> ('a frame list \<times> 'a btree) result" where
  "remove_search has_list cmp old_node Tip path =
     Inl (EvalError ''can't seem to remove node from binary tree'')"
| "remove_search has_list cmp old_node (Node l a i r) path =
     (if \<not> has_list a then Inl NullList
      else let f = cmp old_node a in
        if f < 0 then remove_search has_list cmp old_node l ((LEFT_DIR, a, i, r) # path)
        else if f = 0 then
          (if a \<noteq> old_node then Inl (EvalError ''can't seem to remove node from binary tree'')
           else Inr (path, Node l a i r))
        else remove_search has_list cmp old_node r ((RIGHT_DIR, a, i, l) # path))"

text \<open>Swap sub-case (1): follow direction \<open>s\<close> to the last node; the result is that node, its
  link in the other direction and the frames passed on the way.\<close>

lemma size_get_link [termination_simp]: "size (get_link d (Node l a i r)) < Suc (size l + size r)"
  by (cases d) auto

fun swap_walk ::
  "dir \<Rightarrow> 'a btree \<Rightarrow> 'a frame list \<Rightarrow> ('a \<times> 'a btree \<times> 'a frame list) result" where
  "swap_walk s Tip path = Inl NullAccess"
| "swap_walk s (Node l a i r) path =
     (let other = get_link (op_dir s) (Node l a i r) in
      if get_link s (Node l a i r) = Tip then Inr (a, other, path)
      else swap_walk s (get_link s (Node l a i r)) ((s, a, i, other) # path))"

text \<open>PHASE 2, for a node that is not a leaf, at the end of \<open>path\<close>: its indicator is \<open>i\<close>, its
  links are \<open>heavy_link\<close> in \<open>heavy_direction\<close> and \<open>search_link\<close> in the other direction. The result
  is the path \<open>path[0..n]\<close> after the swap and the hole.\<close>

definition swap_heavy ::
  "dir \<Rightarrow> 'a frame list \<Rightarrow> 'a btree \<Rightarrow> indicator \<Rightarrow> 'a btree \<Rightarrow> ('a frame list \<times> 'a btree) result" where
  "swap_heavy heavy_direction path heavy_link i search_link =
     (let search_dir = op_dir heavy_direction in
      case heavy_link of
        Tip \<Rightarrow> Inl NullAccess
      | Node _ a ai _ \<Rightarrow>
          (if get_link search_dir heavy_link \<noteq> Tip then
             \<comment> \<open>swap sub-case (1)\<close>
             bind_result
               (swap_walk search_dir (get_link search_dir heavy_link)
                  [(search_dir, a, ai, get_link heavy_direction heavy_link)])
               (\<lambda>(end_node, rest, walked).
                  let swapped = walked @ (heavy_direction, end_node, i, search_link) # path
                  in Inr (case rest of
                       Tip \<Rightarrow> (swapped, Tip)
                     | Node _ b bi _ \<Rightarrow>
                         ((search_dir, b, Heavy search_dir, get_link heavy_direction rest)
                            # swapped,
                          get_link search_dir rest)))
           else
             case get_link heavy_direction heavy_link of
               Node _ other oi _ \<Rightarrow>
                 \<comment> \<open>swap sub-case (2)\<close>
                 (let other_tree = get_link heavy_direction heavy_link in
                  Inr ((search_dir, other, Heavy search_dir, get_link heavy_direction other_tree)
                         # (heavy_direction, a, i, search_link) # path,
                       get_link search_dir other_tree))
             | Tip \<Rightarrow>
                 (if search_link \<noteq> Tip then
                    \<comment> \<open>swap sub-case (3)\<close>
                    Inr ((heavy_direction, a, ai, search_link) # path,
                         get_link heavy_direction heavy_link)
                  else
                    \<comment> \<open>swap sub-case (4)\<close>
                    Inr ((search_dir, a, Heavy search_dir, get_link heavy_direction heavy_link)
                           # path,
                         get_link search_dir heavy_link))))"

text \<open>All of PHASE 2; a leaf is just disconnected.\<close>

definition remove_swap ::
  "'a frame list \<Rightarrow> 'a btree \<Rightarrow> indicator \<Rightarrow> 'a btree \<Rightarrow> ('a frame list \<times> 'a btree) result" where
  "remove_swap path l i r =
     (if l = Tip \<and> r = Tip then Inr (path, Tip)
      else if i = BALANCED \<or> i = Heavy LEFT_DIR then swap_heavy LEFT_DIR path l i r
      else swap_heavy RIGHT_DIR path r i l)"

text \<open>\<open>Node::rotate\<close> on a node whose links, label and indicator are given by the tree. It
  returns NULL (\<open>Tip\<close>) for a balanced node. \<open>rotate_root\<close> is the part after the recursive call:
  \<open>this\<close> is \<open>a\<close>, heavy in direction \<open>t\<close>, with the other link \<open>s\<close>.\<close>

definition rotate_root :: "dir \<Rightarrow> 'a \<Rightarrow> 'a btree \<Rightarrow> 'a btree \<Rightarrow> 'a btree result" where
  "rotate_root t a s new_root =
     (case new_root of
        Tip \<Rightarrow> Inl NullAccess
      | Node _ b j _ \<Rightarrow>
          (let u = op_dir t;
               this = attach t a (if j = BALANCED then BALANCED else Heavy u) s
                        (get_link u new_root)
           in Inr (attach u b (Heavy u) (get_link t new_root) this)))"

definition root_indicator :: "'a btree \<Rightarrow> indicator option" where
  "root_indicator t = (case t of Tip \<Rightarrow> None | Node _ _ i _ \<Rightarrow> Some i)"

fun rotate :: "'a btree \<Rightarrow> 'a btree result" where
  "rotate Tip = Inl NullAccess"
| "rotate (Node l a BALANCED r) = Inr Tip"
| "rotate (Node l a (Heavy t) r) =
     (let new_root = get_link t (Node l a (Heavy t) r);
          s = get_link (op_dir t) (Node l a (Heavy t) r)
      in if root_indicator new_root = Some (Heavy (op_dir t))
         then (case rotate new_root of Inl e \<Rightarrow> Inl e | Inr nr \<Rightarrow> rotate_root t a s nr)
         else rotate_root t a s new_root)"

lemma root_indicator_simps [simp]:
  "root_indicator Tip = None" "root_indicator (Node l a i r) = Some i"
  "root_indicator (attach d a i s t) = Some i"
  by (cases d; simp add: root_indicator_def attach_def)+

lemma rotate_root_indicator:
  "rotate_root t a s nr = Inr t' \<Longrightarrow> root_indicator t' = Some (Heavy (op_dir t))"
  by (auto simp: rotate_root_def Let_def split: btree.splits)

lemma rotate_flips:
  assumes "rotate t = Inr t'" and "root_indicator t = Some (Heavy d)"
  shows "root_indicator t' = Some (Heavy (op_dir d))"
proof (cases t)
  case (Node l a i r)
  with assms obtain s nr where "rotate_root d a s nr = Inr t'"
    by (simp add: Let_def split: if_splits sum.splits)
  then show ?thesis by (rule rotate_root_indicator)
qed (use assms in simp)

text \<open>Step 2, the search for a prime position, and step 3: the loop on \<open>f\<close>. \<open>t\<close> hangs from
  \<open>path[f]\<close> and is one level shorter than before the removal. The loop runs again with the
  same \<open>f\<close> after a rotation of the other branch.\<close>

definition leans_to :: "'a frame list \<Rightarrow> nat" where
  "leans_to path =
     (case path of
        [] \<Rightarrow> 0
      | (d, a, i, s) # _ \<Rightarrow> (if root_indicator s = Some (Heavy d) then 1 else 0))"

function remove_loop :: "'a frame list \<Rightarrow> 'a btree \<Rightarrow> 'a btree result" where
  "remove_loop [] t = Inr t"
| "remove_loop ((d, a, i, s) # up) t =
     (if i = BALANCED then Inr (zip_up up (attach d a (Heavy (op_dir d)) s t))
      else if i = Heavy d then remove_loop up (attach d a BALANCED s t)
      else case s of
        Tip \<Rightarrow> Inl NullAccess
      | Node _ q qi _ \<Rightarrow>
          (if qi = Heavy d then
             (case rotate s of
                Inl e \<Rightarrow> Inl e
              | Inr s' \<Rightarrow> remove_loop ((d, a, i, s') # up) t)
           else
             let z = get_link d s in
             if qi \<noteq> BALANCED then
               remove_loop up
                 (attach d q BALANCED (get_link (op_dir d) s)
                    (attach (op_dir d) a BALANCED t z))
             else
               Inr (zip_up up
                 (attach d q (Heavy d) (get_link (op_dir d) s)
                    (attach (op_dir d) a (Heavy (op_dir d)) t z)))))"
  by pat_completeness auto

termination
proof (relation "measure (\<lambda>(path, t). 2 * length path + leans_to path)", goal_cases)
  case (3 d a i s up t l q qi r t')
  then have "root_indicator t' = Some (Heavy (op_dir d))"
    by (intro rotate_flips [of s]) (auto simp: root_indicator_def)
  with 3 show ?case by (simp add: leans_to_def root_indicator_def)
qed (auto simp: leans_to_def split: list.split)

text \<open>Step 1, the initial adjustment at \<open>path[n]\<close>, and what follows it.\<close>

definition remove_adjust :: "'a frame list \<Rightarrow> 'a btree \<Rightarrow> 'a btree result" where
  "remove_adjust path hole =
     (case path of
        [] \<Rightarrow> Inr hole
      | (P, n, i, s) # up \<Rightarrow>
          (if i = BALANCED then Inr (zip_up up (attach P n (Heavy (op_dir P)) s hole))
           else if i = Heavy P then remove_loop up (attach P n BALANCED s hole)
           else
             let Q = op_dir P; n' = attach P n BALANCED Tip hole in
             case s of
               Tip \<Rightarrow> Inl NullAccess
             | Node _ a ai _ \<Rightarrow>
                 (if ai = Heavy P then
                    \<comment> \<open>situation A\<close>
                    (case get_link P s of
                       Tip \<Rightarrow> Inl NullAccess
                     | Node _ newnode ni _ \<Rightarrow>
                         remove_loop up
                           (attach P newnode ni (attach P a BALANCED (get_link Q s) Tip) n'))
                  else if ai = Heavy Q then
                    \<comment> \<open>situation B\<close>
                    remove_loop up (attach P a BALANCED (get_link Q s) n')
                  else
                    \<comment> \<open>situation C\<close>
                    (case get_link P s of
                       Tip \<Rightarrow> Inl NullAccess
                     | Node _ b bi _ \<Rightarrow>
                         Inr (zip_up up
                           (attach P a (Heavy P) (get_link Q s)
                              (attach P b (Heavy P) (get_link Q (get_link P s)) n')))))))"

text \<open>The tree part of \<open>blist::remove_node\<close> for an enabled list: the new root, and the returned
  node (\<open>None\<close> for the NULL returned on an empty tree).\<close>

definition remove_node ::
  "('a \<Rightarrow> bool) \<Rightarrow> ('a \<Rightarrow> 'a \<Rightarrow> int) \<Rightarrow> 'a \<Rightarrow> 'a btree \<Rightarrow> ('a btree \<times> 'a option) result" where
  "remove_node has_list cmp N root =
     (case root of
        Tip \<Rightarrow> Inr (Tip, None)
      | _ \<Rightarrow>
        bind_result (remove_search has_list cmp N root [])
          (\<lambda>(path, found).
             case found of
               Tip \<Rightarrow> Inl NullAccess
             | Node l a i r \<Rightarrow>
                 bind_result (remove_swap path l i r)
                   (\<lambda>(path', hole).
                      bind_result (remove_adjust path' hole)
                        (\<lambda>root'. Inr (root', Some a)))))"

section \<open>Rotation\<close>

lemma case_attach [simp]:
  "(case attach d a i s t of Tip \<Rightarrow> u | Node _ b j _ \<Rightarrow> f b j) = f a i"
  by (cases d) (simp_all add: tree_simps)

lemma attach_get_link:
  "Node l a i r = attach d a i (get_link (op_dir d) (Node l a i r)) (get_link d (Node l a i r))"
  by (cases d) (simp_all add: tree_simps)

lemma rotate_root_ok:
  assumes "avl nr" "avl s" "height nr = Suc (height s)"
    and "root_indicator nr \<noteq> Some (Heavy (op_dir t))"
  shows "\<exists>t'. rotate_root t a s nr = Inr t' \<and> avl t' \<and> height t' = Suc (Suc (height s))
           \<and> inorder t' = inorder (attach t a i s nr)"
proof (cases nr rule: attach_exhaust [where d = t])
  case 1
  with assms(3) show ?thesis by simp
next
  case (2 b j x y)
  with assms have "j = Heavy t \<or> j = BALANCED"
    by (cases j) (auto simp: neq_op_iff)
  with 2 assms show ?thesis
    by (auto simp: rotate_root_def Let_def inorder_around)
qed

lemma rotate_ok:
  "avl t \<Longrightarrow> root_indicator t = Some (Heavy d) \<Longrightarrow>
     \<exists>t'. rotate t = Inr t' \<and> avl t' \<and> height t' = height t \<and> inorder t' = inorder t"
proof (induction t arbitrary: d rule: rotate.induct)
  case (3 l a e r)
  let ?t = "Node l a (Heavy e) r"
  let ?nr = "get_link e ?t" and ?s = "get_link (op_dir e) ?t"
  have t: "?t = attach e a (Heavy e) ?s ?nr" by (rule attach_get_link)
  then have "avl (attach e a (Heavy e) ?s ?nr)" using "3.prems"(1) by simp
  then have avl: "avl ?nr" "avl ?s" "height ?nr = Suc (height ?s)" by simp_all
  have ht: "height ?t = Suc (Suc (height ?s))" using avl(3) by (subst t) simp
  show ?case
  proof (cases "root_indicator ?nr = Some (Heavy (op_dir e))")
    case True
    from "3.IH" [OF refl refl True avl(1) True]
    obtain nr where nr: "rotate ?nr = Inr nr" "avl nr" "height nr = height ?nr"
      "inorder nr = inorder ?nr" by blast
    have "root_indicator nr = Some (Heavy e)" using rotate_flips [OF nr(1) True] by simp
    then obtain t' where t': "rotate_root e a ?s nr = Inr t'" "avl t'"
      "height t' = Suc (Suc (height ?s))" "inorder t' = inorder (attach e a (Heavy e) ?s nr)"
      using rotate_root_ok [of nr ?s e a "Heavy e"] nr avl by auto
    have "rotate ?t = Inr t'" using True nr(1) t'(1) by (simp add: Let_def)
    moreover have "inorder t' = inorder ?t"
      unfolding t'(4) by (subst t) (simp only: inorder_attach nr(4))
    ultimately show ?thesis using t'(2,3) ht by metis
  next
    case False
    with rotate_root_ok [OF avl False, of a "Heavy e"]
    obtain t' where t': "rotate_root e a ?s ?nr = Inr t'" "avl t'"
      "height t' = Suc (Suc (height ?s))" "inorder t' = inorder (attach e a (Heavy e) ?s ?nr)"
      by blast
    have "rotate ?t = Inr t'" using False t'(1) by (simp add: Let_def)
    moreover have "inorder t' = inorder ?t" using t'(4) by (simp only: t [symmetric])
    ultimately show ?thesis using t'(2,3) ht by metis
  qed
qed simp_all

section \<open>The adjustment\<close>

text \<open>\<open>fits up t u\<close>: the tree \<open>u\<close> is balanced and holds the nodes of the path \<open>up\<close> with those
  of \<open>t\<close> at its end.\<close>

definition fits :: "'a frame list \<Rightarrow> 'a list \<Rightarrow> 'a btree result \<Rightarrow> bool" where
  "fits up xs res \<longleftrightarrow>
     (\<exists>u. res = Inr u \<and> avl u \<and> inorder u = path_before up @ xs @ path_after up)"

lemma fits_zip_up: "avl t \<Longrightarrow> avl_path up (height t) \<Longrightarrow> fits up (inorder t) (Inr (zip_up up t))"
  by (simp add: fits_def avl_zip_up inorder_zip_up)

lemma fits_frame:
  "fits up (inorder (attach d a i s t)) res = fits ((d, a, j, s) # up) (inorder t) res"
  by (cases d) (simp_all add: fits_def inorder_attach around_def)

lemma fits_eqI: "fits up xs res \<Longrightarrow> xs = ys \<Longrightarrow> fits up ys res"
  by simp

lemma remove_loop_fits:
  "avl_path path (Suc (height t)) \<Longrightarrow> avl t \<Longrightarrow> fits path (inorder t) (remove_loop path t)"
proof (induction path t rule: remove_loop.induct)
  case (1 t)
  then show ?case by (simp add: fits_def)
next
  case (2 d a i s up t)
  note prem = "2.prems"
  consider (bal) "i = BALANCED" | (same) "i = Heavy d" | (other) "i = Heavy (op_dir d)"
    by (metis indicator.exhaust neq_op_iff)
  then show ?case
  proof cases
    case bal
    with prem have "fits up (inorder (attach d a (Heavy (op_dir d)) s t))
        (remove_loop ((d, a, i, s) # up) t)"
      by (auto intro!: fits_zip_up)
    then show ?thesis by (rule fits_frame [THEN iffD1])
  next
    case same
    with prem have "fits up (inorder (attach d a BALANCED s t)) (remove_loop up (attach d a BALANCED s t))"
      using "2.IH"(1) by (auto simp: max_def)
    then have "fits ((d, a, i, s) # up) (inorder t) (remove_loop up (attach d a BALANCED s t))"
      by (rule fits_frame [THEN iffD1])
    with same show ?thesis by simp
  next
    case other
    with prem have hs: "height s = Suc (Suc (height t))" and avls: "avl s"
      and up: "avl_path up (Suc (height s))"
      by (auto simp: max_def)
    obtain l q qi r where s: "s = Node l q qi r" using hs by (cases s) auto
    define z y where zy: "z = get_link d s" "y = get_link (op_dir d) s"
    have att: "s = attach d q qi y z" unfolding zy s by (rule attach_get_link)
    show ?thesis
    proof (cases "qi = Heavy d")
      case True
      then obtain s' where s': "rotate s = Inr s'" "avl s'" "height s' = height s"
        "inorder s' = inorder s"
        using rotate_ok [OF avls, of d] s by auto
      have "fits ((d, a, i, s') # up) (inorder t) (remove_loop ((d, a, i, s') # up) t)"
        by (rule "2.IH"(2) [OF _ _ s True s'(1)]) (use other prem s' up hs in auto)
      moreover have "remove_loop ((d, a, i, s) # up) t = remove_loop ((d, a, i, s') # up) t"
        using other True s s'(1) by simp
      moreover have "fits ((d, a, i, s') # up) = fits ((d, a, i, s) # up)"
        using s'(4) by (intro ext) (cases d; simp add: fits_def)
      ultimately show ?thesis by simp
    next
      case qd: False
      let ?a = "\<lambda>j. attach (op_dir d) a j t z"
      have eq: "inorder (attach d q j y (?a k)) = inorder (attach d a m s t)" for j k m
        unfolding att by (simp add: inorder_around)
      show ?thesis
      proof (cases "qi = BALANCED")
        case True
        with hs avls have h: "height z = Suc (height t)" "height y = Suc (height t)" "avl z" "avl y"
          unfolding att by auto
        have "fits up (inorder (attach d q (Heavy d) y (?a (Heavy (op_dir d)))))
            (Inr (zip_up up (attach d q (Heavy d) y (?a (Heavy (op_dir d))))))"
          by (rule fits_zip_up) (use h prem hs up in auto)
        moreover have "remove_loop ((d, a, i, s) # up) t =
            Inr (zip_up up (attach d q (Heavy d) y (?a (Heavy (op_dir d)))))"
          using other True s zy by simp
        ultimately show ?thesis unfolding eq [of _ _ i] by (simp add: fits_frame [THEN iffD1])
      next
        case False
        with qd have "qi = Heavy (op_dir d)" by (cases qi) (auto simp: neq_op_iff)
        with hs avls have h: "height z = height t" "height y = Suc (height t)" "avl z" "avl y"
          unfolding att by auto
        have "fits up (inorder (attach d q BALANCED y (?a BALANCED)))
            (remove_loop up (attach d q BALANCED y (?a BALANCED)))"
          unfolding zy
          by (rule "2.IH"(3) [OF _ _ s qd refl False])
            (use h prem hs up other in \<open>auto simp: zy\<close>)
        moreover have "remove_loop ((d, a, i, s) # up) t =
            remove_loop up (attach d q BALANCED y (?a BALANCED))"
          using other qd False s zy by simp
        ultimately show ?thesis unfolding eq [of _ _ i] by (simp add: fits_frame [THEN iffD1])
      qed
    qed
  qed
qed

text \<open>Step 1 starts with the deleted node at the place of the hole, which is why the path fits a
  subtree of height one.\<close>

lemma remove_adjust_fits:
  assumes path: "avl_path path (Suc 0)"
  shows "fits path [] (remove_adjust path Tip)"
proof (cases path)
  case Nil
  then show ?thesis by (simp add: fits_def remove_adjust_def)
next
  case (Cons fr up)
  obtain d a i s where fr: "fr = (d, a, i, s)" by (cases fr)
  with path Cons have p: "avl s" "balance d i (Suc 0) (height s)"
    "avl_path up (Suc (max (Suc 0) (height s)))"
    by simp_all
  have Tip: "fits ((d, a, i, s) # up) (inorder Tip) = fits up (inorder (attach d a i s Tip))"
    by (rule ext) (simp only: fits_frame [of _ d a _ _ _ _ i])
  have loop: "fits up (inorder t) (remove_loop up t)"
    if "avl t" "Suc (height t) = Suc (max (Suc 0) (height s))" for t
    by (rule remove_loop_fits) (use p(3) that in auto)
  have goal: "fits up (inorder (attach d a i s Tip)) (remove_adjust ((d, a, i, s) # up) Tip)"
  proof (cases i)
    case BALANCED
    have "fits up (inorder (attach d a (Heavy (op_dir d)) s Tip))
        (Inr (zip_up up (attach d a (Heavy (op_dir d)) s Tip)))"
      by (rule fits_zip_up) (use p BALANCED in auto)
    then show ?thesis using BALANCED by (simp add: remove_adjust_def inorder_attach)
  next
    case (Heavy e)
    show ?thesis
    proof (cases "e = d")
      case True
      with p Heavy have "s = Tip" by simp
      with loop [of "attach d a BALANCED Tip Tip"] True Heavy show ?thesis
        by (simp add: remove_adjust_def inorder_attach)
    next
      case False
      then have e: "e = op_dir d" by (simp add: neq_op_iff)
      with p Heavy have hs: "height s = Suc (Suc 0)" by simp
      then obtain q qi y z where s: "s = attach d q qi y z"
        by (cases s rule: attach_exhaust [where d = d]) auto
      show ?thesis
      proof (cases z rule: attach_exhaust [where d = d])
        case 1
        with hs p s have qi: "qi = Heavy (op_dir d)" "height y = Suc 0" "avl y"
          by (cases qi, auto simp: neq_op_iff max_def split: if_splits)
        have "fits up (inorder (attach d q BALANCED y (attach d a BALANCED Tip Tip)))
            (remove_loop up (attach d q BALANCED y (attach d a BALANCED Tip Tip)))"
          by (rule loop) (use qi hs in auto)
        with qi 1 s e Heavy show ?thesis
          by (simp add: remove_adjust_def Let_def inorder_around)
      next
        case (2 b bi x w)
        from 2 hs p s have qi: "qi = Heavy d \<and> y = Tip \<or> qi = BALANCED \<and> height y = Suc 0"
          and leaf: "x = Tip" "w = Tip" "bi = BALANCED" and y: "avl y"
          by (cases qi; cases bi; auto simp: neq_op_iff max_def split: if_splits)+
        from qi show ?thesis
        proof
          assume A: "qi = Heavy d \<and> y = Tip"
          have "fits up (inorder (attach d b BALANCED (attach d q BALANCED Tip Tip) (attach d a BALANCED Tip Tip)))
              (remove_loop up (attach d b BALANCED (attach d q BALANCED Tip Tip) (attach d a BALANCED Tip Tip)))"
            by (rule loop) (use hs in auto)
          with A 2 leaf s e Heavy show ?thesis
            by (simp add: remove_adjust_def Let_def inorder_around)
        next
          assume C: "qi = BALANCED \<and> height y = Suc 0"
          let ?t = "attach d q (Heavy d) y (attach d b (Heavy d) Tip (attach d a BALANCED Tip Tip))"
          have "fits up (inorder ?t) (Inr (zip_up up ?t))"
            by (rule fits_zip_up) (use C y hs p(3) in auto)
          with C 2 leaf s e Heavy show ?thesis
            by (simp add: remove_adjust_def Let_def inorder_around)
        qed
      qed
    qed
  qed
  then show ?thesis unfolding Cons fr using Tip by simp
qed

section \<open>The swap\<close>

definition content :: "'a frame list \<Rightarrow> 'a list \<Rightarrow> 'a list" where
  "content p xs = path_before p @ xs @ path_after p"

lemma inorder_zip_up_content: "inorder (zip_up p t) = content p (inorder t)"
  by (simp add: content_def inorder_zip_up)

lemma content_Nil [simp]: "content [] xs = xs"
  by (simp add: content_def)

lemma content_frame [simp]:
  "content ((d, a, i, s) # p) xs = content p (around d xs (around d [a] (inorder s)))"
  by (cases d) (simp_all add: content_def around_def)

lemma content_append: "content (p @ q) xs = content q (content p xs)"
  by (induction p arbitrary: xs) auto

lemma content_same_dir:
  "\<forall>fr\<in>set w. fst fr = s \<Longrightarrow> content w xs = around s xs (content w [])"
proof (induction w arbitrary: xs)
  case (Cons fr w)
  obtain a i u where "fr = (s, a, i, u)" using Cons.prems by (cases fr) auto
  then show ?case
    using Cons.IH [of "around s xs (around s [a] (inorder u))"]
      Cons.IH [of "around s [a] (inorder u)"] Cons.prems
    by (simp add: around_assoc)
qed simp

lemma swap_walk_ok:
  "t \<noteq> Tip \<Longrightarrow> \<forall>fr\<in>set path. fst fr = s \<Longrightarrow>
     \<exists>e i rest w. swap_walk s t path = Inr (e, rest, w) \<and> zip_up w (attach s e i rest Tip) = zip_up path t
       \<and> (\<forall>fr\<in>set w. fst fr = s)"
proof (induction s t path rule: swap_walk.induct)
  case (2 s l a i r path)
  let ?o = "get_link (op_dir s) (Node l a i r)" and ?n = "get_link s (Node l a i r)"
  have t: "Node l a i r = attach s a i ?o ?n" by (rule attach_get_link)
  show ?case
  proof (cases "?n = Tip")
    case True
    then have "zip_up path (attach s a i ?o Tip) = zip_up path (Node l a i r)" by (subst t) simp
    with True "2.prems" show ?thesis by (auto simp: Let_def)
  next
    case False
    have "zip_up ((s, a, i, ?o) # path) ?n = zip_up path (Node l a i r)" by (subst (3) t) simp
    with "2.IH" [OF refl False False] "2.prems" False show ?thesis by (simp add: Let_def)
  qed
qed simp

lemma path_height_append: "path_height (p @ q) h = path_height q (path_height p h)"
  by (induction p h rule: path_height.induct) auto

lemma swap_heavy_ok:
  assumes H: "avl H" "H \<noteq> Tip" and S: "avl S" "balance h i (height H) (height S)"
    and i: "i \<noteq> Heavy (op_dir h)"
    and path: "avl_path path (Suc (max (height H) (height S)))"
  shows "\<exists>p. swap_heavy h path H i S = Inr (p, Tip) \<and> avl_path p (Suc 0)
           \<and> content p [] = content path (around h (inorder H) (inorder S))"
proof -
  let ?s = "op_dir h"
  obtain a ai x y where att: "H = attach ?s a ai x y"
    using H(2) by (cases H rule: attach_exhaust [where d = ?s]) auto
  have att': "get_link h H = x" using get_link_attach(2) [of ?s] unfolding att by simp
  show ?thesis
  proof (cases "y = Tip")
    case False
    then obtain e ei rest w where w: "swap_walk ?s y [(?s, a, ai, x)] = Inr (e, rest, w)"
      "zip_up w (attach ?s e ei rest Tip) = H" "\<forall>fr\<in>set w. fst fr = ?s"
      using swap_walk_ok [of y "[(?s, a, ai, x)]" ?s] att by auto
    from H(1) have avl: "avl rest" "balance ?s ei 0 (height rest)" "avl_path w (Suc (height rest))"
      unfolding w(2) [symmetric] by (simp_all add: avl_zip_up)
    have hw: "path_height w (Suc (height rest)) = height H"
      unfolding w(2) [symmetric] by (simp add: height_zip_up)
    have ord: "inorder H = around ?s (around ?s [e] (inorder rest)) (content w [])"
      unfolding w(2) [symmetric] inorder_zip_up_content
      by (subst content_same_dir [OF w(3)]) (simp add: inorder_attach)
    have cw: "content w xs = around ?s xs (content w [])" for xs
      by (rule content_same_dir [OF w(3)])
    have sw: "avl_path (w @ (h, e, i, S) # path) (Suc (height rest))"
      using avl(3) hw S path by (simp add: avl_path_append)
    have red: "swap_heavy h path H i S = Inr (case rest of
                       Tip \<Rightarrow> (w @ (h, e, i, S) # path, Tip)
                     | Node _ b bi _ \<Rightarrow>
                         ((?s, b, Heavy ?s, get_link h rest) # w @ (h, e, i, S) # path,
                          get_link ?s rest))"
      using w(1) False att' unfolding att by (simp add: swap_heavy_def Let_def)
    show ?thesis
    proof (cases rest rule: attach_exhaust [where d = ?s])
      case 1
      with red sw ord show ?thesis
        by (simp add: content_append around_assoc around_op)
    next
      case (2 b bi u v)
      have "height rest \<le> 1" using avl(2) by (cases ei) (auto split: if_splits)
      with 2 have leaf: "u = Tip" "v = Tip" by auto
      have "get_link h rest = Tip" using get_link_attach(2) [of ?s] unfolding 2 leaf by simp
      with red sw ord 2 leaf show ?thesis
        by (simp add: content_append cw [of "[b]"] around_assoc around_op inorder_attach)
    qed
  next
    case y: True
    have hx: "height x \<le> 1" using H(1) y att by (cases ai) (auto split: if_splits)
    have case_H: "(case H of Tip \<Rightarrow> u | Node _ b j _ \<Rightarrow> f b j) = f a ai" for u f
      unfolding att by (rule case_attach)
    have link: "get_link ?s H = Tip" unfolding att y by (rule get_link_attach(1))
    note red = swap_heavy_def Let_def case_H link att' not_True_eq_False simp_thms if_True if_False
    have ordH: "inorder H = around ?s [a] (inorder x)" unfolding att y by (simp add: inorder_attach)
    have hH: "height H = Suc (height x)" unfolding att y by simp
    show ?thesis
    proof (cases x rule: attach_exhaust [where d = ?s])
      case (2 b bi u v)
      with hx have leaf: "u = Tip" "v = Tip" by auto
      have "get_link h x = Tip" using get_link_attach(2) [of ?s] unfolding 2 leaf by simp
      then have eq: "swap_heavy h path H i S = Inr ((?s, b, Heavy ?s, Tip) # (h, a, i, S) # path, Tip)"
        unfolding red 2 case_attach leaf by (simp only: get_link_attach)
      have "height H = 2" unfolding hH 2 leaf by simp
      with eq S path ordH show ?thesis
        by (auto simp: 2 leaf around_assoc around_op inorder_attach numeral_2_eq_2)
    next
      case 1
      have ai: "ai = BALANCED" using H(1) y att 1 by (cases ai) (auto split: if_splits)
      have h1: "height H = 1" unfolding hH 1 by simp
      show ?thesis
      proof (cases "S = Tip")
        case True
        have "swap_heavy h path H i S = Inr ((?s, a, Heavy ?s, Tip) # path, Tip)"
          unfolding red 1 True by simp
        with True h1 S path ordH 1 show ?thesis
          by (simp add: around_assoc around_op)
      next
        case False
        with i S h1 have ib: "i = BALANCED" by (cases i) (auto simp: neq_op_iff)
        have "swap_heavy h path H i S = Inr ((h, a, BALANCED, S) # path, Tip)"
          unfolding red 1 ai using False by simp
        with ib h1 S path ordH 1 show ?thesis
          by (simp add: around_assoc around_op)
      qed
    qed
  qed
qed

lemma around_LEFT_RIGHT:
  "around LEFT_DIR xs ys = xs @ ys" "around RIGHT_DIR xs ys = ys @ xs"
  by (simp_all add: around_def)

lemma remove_swap_ok:
  assumes "avl l" "avl r" "balance LEFT_DIR i (height l) (height r)"
    and path: "avl_path path (Suc (max (height l) (height r)))"
  shows "\<exists>p. remove_swap path l i r = Inr (p, Tip) \<and> avl_path p (Suc 0)
           \<and> content p [] = content path (inorder l @ inorder r)"
proof (cases "l = Tip \<and> r = Tip")
  case True
  with path show ?thesis by (simp add: remove_swap_def)
next
  case False
  show ?thesis
  proof (cases "i = Heavy RIGHT_DIR")
    case True
    with assms(3) have r: "r \<noteq> Tip" by auto
    have "balance RIGHT_DIR i (height r) (height l)"
      using assms(3) balance_sym [of LEFT_DIR i "height r" "height l"] by simp
    from swap_heavy_ok [OF assms(2) r assms(1) this, of path] path True r show ?thesis
      by (simp add: remove_swap_def around_LEFT_RIGHT max.commute)
  next
    case i: False
    with assms(3) False have l: "l \<noteq> Tip" by (cases i rule: indicator_cases) auto
    from swap_heavy_ok [OF assms(1) l assms(2,3), of path] path False i l show ?thesis
      by (cases i rule: indicator_cases) (simp_all add: remove_swap_def around_LEFT_RIGHT)
  qed
qed

section \<open>The search\<close>

lemma remove_search_zip:
  "remove_search has_list cmp x t path = Inr (path', u) \<Longrightarrow>
     zip_up path' u = zip_up path t \<and> (\<exists>l i r. u = Node l x i r)"
  by (induction t arbitrary: path) (auto simp: Let_def tree_simps split: if_splits)

context comparer
begin

lemma remove_search_ok:
  "\<forall>a\<in>set (inorder t). has_list a \<Longrightarrow> in_order cmp (inorder t) \<Longrightarrow> x \<in> set (inorder t) \<Longrightarrow>
     \<exists>path' u. remove_search has_list cmp x t path = Inr (path', u)"
proof (induction t arbitrary: path)
  case (Node l a i r)
  consider "x = a" | "x \<in> set (inorder l)" | "x \<in> set (inorder r)"
    using Node.prems(3) by auto
  then show ?case
  proof cases
    case 1
    with Node.prems show ?thesis by (simp add: Let_def cmp_refl)
  next
    case 2
    with Node.prems have "cmp x a < 0" by (auto simp: in_order_def sorted_wrt_append)
    with 2 Node show ?thesis by (simp add: Let_def in_order_def sorted_wrt_append)
  next
    case 3
    with Node.prems have "0 < cmp x a"
      using cmp_anti [of a x] by (auto simp: in_order_def sorted_wrt_append)
    with 3 Node show ?thesis by (simp add: Let_def in_order_def sorted_wrt_append)
  qed
qed simp

lemma in_order_distinct: "in_order cmp xs \<Longrightarrow> distinct xs"
  unfolding in_order_def by (induction xs) (auto simp: cmp_refl)

lemma in_order_remove1: "in_order cmp xs \<Longrightarrow> in_order cmp (remove1 x xs)"
  unfolding in_order_def by (induction xs) (auto dest: in_set_remove1 simp: notin_set_remove1
      intro: ballI dest: set_remove1_subset [THEN subsetD])

lemma remove_search_foreign:
  "\<forall>a\<in>set (inorder t). has_list a \<Longrightarrow> x \<notin> set (inorder t) \<Longrightarrow>
     \<exists>m. remove_search has_list cmp x t path = Inl (EvalError m)"
  by (induction t arbitrary: path) (auto simp: Let_def)

text \<open>The contract of the removal.\<close>

lemma remove_node_ok:
  assumes avl: "avl t" and ord: "in_order cmp (inorder t)"
    and lists: "\<forall>a\<in>set (inorder t). has_list a" and x: "x \<in> set (inorder t)"
  shows "\<exists>t'. remove_node has_list cmp x t = Inr (t', Some x) \<and> avl t'
           \<and> inorder t' = remove1 x (inorder t)"
proof -
  from remove_search_ok [OF lists ord x]
  obtain path u where s: "remove_search has_list cmp x t [] = Inr (path, u)" by blast
  from remove_search_zip [OF s] obtain l i r where
    zip: "zip_up path (Node l x i r) = t" and u: "u = Node l x i r" by auto
  from avl have parts: "avl l" "avl r" "balance LEFT_DIR i (height l) (height r)"
    "avl_path path (Suc (max (height l) (height r)))"
    unfolding zip [symmetric] by (simp_all add: avl_zip_up)
  from remove_swap_ok [OF this] obtain p where p: "remove_swap path l i r = Inr (p, Tip)"
    "avl_path p (Suc 0)" "content p [] = content path (inorder l @ inorder r)" by blast
  from remove_adjust_fits [OF p(2)] obtain t' where t': "remove_adjust p Tip = Inr t'" "avl t'"
    "inorder t' = content p []"
    by (auto simp: fits_def content_def)
  have whole: "inorder t = content path (inorder l @ x # inorder r)"
    unfolding zip [symmetric] inorder_zip_up_content by simp
  have "distinct (inorder t)" using in_order_distinct [OF ord] .
  then have "remove1 x (inorder t) = content path (inorder l @ inorder r)"
    unfolding whole content_def by (simp add: remove1_append)
  moreover have "remove_node has_list cmp x t = Inr (t', Some x)"
    using x s u p(1) t'(1)
    by (cases t) (simp_all add: remove_node_def del: remove_search.simps)
  ultimately show ?thesis using t' p(3) by metis
qed

lemma remove_node_foreign:
  assumes "\<forall>a\<in>set (inorder t). has_list a" and "x \<notin> set (inorder t)" and "t \<noteq> Tip"
  shows "\<exists>m. remove_node has_list cmp x t = Inl (EvalError m)"
proof -
  from remove_search_foreign [OF assms(1,2), of "[]"]
  obtain m where "remove_search has_list cmp x t [] = Inl (EvalError m)" by blast
  with assms(3) show ?thesis
    by (cases t) (simp_all add: remove_node_def del: remove_search.simps)
qed

end

end
