(* ===== verification/BList.thy ===== *)
theory BList
  imports AvlRemove
begin

text \<open>
  The lists \<open>List\<close>, \<open>blist\<close> and \<open>clist\<close> of \<open>src/src/apgenlib/C_list.H\<close>, \<open>src/src/apcore/templates\<close>:
  a linked list of nodes, with a balanced tree on the side for a \<open>blist\<close>, and with the linked
  list kept in the order of the tree for a \<open>clist\<close>. Nodes and lists are shared objects, reached
  by numbers in a \<open>world\<close>; the chain of \<open>next\<close> pointers is the list of its nodes here, the
  pointer surgery behind it is not modelled.
\<close>

section \<open>State\<close>

datatype list_class = LIST | BLIST | CLIST

text \<open>\<open>compare_function\<close>: \<open>compfunc\<close> and whether it compares times.\<close>

datatype compare_function = INT_NODES | TIME_NODES

record blist =
  list_type :: list_class
  compare :: compare_function
  root :: "nat btree"
  linked :: "nat list"
  enabled :: bool

record world =
  nodes :: "nat \<Rightarrow> list_node"
  blists :: "nat \<Rightarrow> blist"

type_synonym 'a outcome = "world \<times> 'a result"

definition and_then :: "'a outcome \<Rightarrow> (world \<Rightarrow> 'a \<Rightarrow> 'b outcome) \<Rightarrow> 'b outcome" where
  "and_then m k = (case m of (w, Inl e) \<Rightarrow> (w, Inl e) | (w, Inr a) \<Rightarrow> k w a)"

text \<open>Loops over the nodes of a list that fetch the successor before they touch a node.\<close>

fun for_nodes :: "(world \<Rightarrow> nat \<Rightarrow> 'a outcome) \<Rightarrow> nat list \<Rightarrow> world \<Rightarrow> unit outcome" where
  "for_nodes body [] w = (w, Inr ())"
| "for_nodes body (N # Ns) w = and_then (body w N) (\<lambda>w' _. for_nodes body Ns w')"

definition node_cmp :: "compare_function \<Rightarrow> (nat \<Rightarrow> list_node) \<Rightarrow> nat \<Rightarrow> nat \<Rightarrow> int" where
  "node_cmp c ns a b =
     (case c of INT_NODES \<Rightarrow> compare_int_nodes (ns a) (ns b)
      | TIME_NODES \<Rightarrow> compare_Time_nodes (ns a) (ns b))"

definition attached :: "(nat \<Rightarrow> list_node) \<Rightarrow> nat \<Rightarrow> bool" where
  "attached ns a = has_a_list (ns a)"

definition put_node :: "nat \<Rightarrow> list_node \<Rightarrow> world \<Rightarrow> world" where
  "put_node N n w = w\<lparr>nodes := (nodes w)(N := n)\<rparr>"

definition put_list :: "nat \<Rightarrow> blist \<Rightarrow> world \<Rightarrow> world" where
  "put_list l L w = w\<lparr>blists := (blists w)(l := L)\<rparr>"

section \<open>The linked list\<close>

text \<open>\<open>List::remove_node\<close>; NULL with a message for a node of another list.\<close>

definition List_remove_node :: "world \<Rightarrow> nat \<Rightarrow> nat \<Rightarrow> nat option outcome" where
  "List_remove_node w l N =
     (if node_list (nodes w N) \<noteq> Some l then (w, Inr None)
      else (put_node N ((nodes w N)\<lparr>node_list := None\<rparr>)
              (put_list l ((blists w l)\<lparr>linked := remove1 N (linked (blists w l))\<rparr>) w),
            Inr (Some N)))"

section \<open>Removal\<close>

text \<open>\<open>Node::reset_links\<close> of a node that still hangs in the tree (lists that are not enabled).\<close>

fun reset_links :: "nat \<Rightarrow> nat btree \<Rightarrow> nat btree" where
  "reset_links N Tip = Tip"
| "reset_links N (Node l a i r) =
     (if a = N then Node Tip a BALANCED Tip
      else Node (reset_links N l) a i (reset_links N r))"

text \<open>\<open>blist::remove_node\<close>. The destructor of \<open>node_remover\<close> takes the node off the linked list on
  every exit, exceptions included.\<close>

definition blist_remove_node :: "world \<Rightarrow> nat \<Rightarrow> nat \<Rightarrow> nat option outcome" where
  "blist_remove_node w l N =
     (let L = blists w l in
      if \<not> enabled L then
        and_then (List_remove_node w l N)
          (\<lambda>w' current_node.
             let L' = blists w' l;
                 root' = (case current_node of None \<Rightarrow> root L' | Some _ \<Rightarrow> reset_links N (root L'))
             in (put_list l (L'\<lparr>root := (if linked L' = [] then Tip else root')\<rparr>) w',
                 Inr current_node))
      else
        (case remove_node (attached (nodes w)) (node_cmp (compare L) (nodes w)) N (root L) of
           Inl NullList \<Rightarrow> (fst (List_remove_node w l N), Inr None)
         | Inl e \<Rightarrow> (fst (List_remove_node w l N), Inl e)
         | Inr (root', old_node) \<Rightarrow>
             (fst (List_remove_node (put_list l (L\<lparr>root := root'\<rparr>) w) l N), Inr old_node)))"

text \<open>The virtual \<open>remove_node\<close>, and the call \<open>N->list->remove_node(N)\<close> with which every
  insertion starts.\<close>

definition list_remove_node :: "world \<Rightarrow> nat \<Rightarrow> nat \<Rightarrow> nat option outcome" where
  "list_remove_node w l N =
     (case list_type (blists w l) of
        LIST \<Rightarrow> List_remove_node w l N
      | BLIST \<Rightarrow> blist_remove_node w l N
      | CLIST \<Rightarrow> blist_remove_node w l N)"

definition detach_node :: "world \<Rightarrow> nat \<Rightarrow> nat option outcome" where
  "detach_node w N =
     (case node_list (nodes w N) of
        None \<Rightarrow> (w, Inr None)
      | Some l \<Rightarrow> list_remove_node w l N)"

section \<open>Insertion\<close>

definition List_insert_node :: "world \<Rightarrow> nat \<Rightarrow> nat \<Rightarrow> nat option outcome" where
  "List_insert_node w l N =
     and_then (detach_node w N)
       (\<lambda>w' _.
          (put_node N ((nodes w' N)\<lparr>node_list := Some l\<rparr>)
             (put_list l ((blists w' l)\<lparr>linked := linked (blists w' l) @ [N]\<rparr>) w'),
           Inr (Some N)))"

definition List_insert_first_node_after_second ::
  "world \<Rightarrow> nat \<Rightarrow> nat \<Rightarrow> nat option \<Rightarrow> nat option outcome" where
  "List_insert_first_node_after_second w l new_node old_node =
     (if old_node = Some new_node then (w, Inr (Some new_node))
      else if (case old_node of None \<Rightarrow> False | Some k \<Rightarrow> node_list (nodes w k) \<noteq> Some l)
      then (w, Inr None)
      else
        and_then (detach_node w new_node)
          (\<lambda>w' _.
             (put_node new_node ((nodes w' new_node)\<lparr>node_list := Some l\<rparr>)
                (put_list l
                   ((blists w' l)\<lparr>linked := insert_after old_node new_node (linked (blists w' l))\<rparr>)
                   w'),
              Inr (Some new_node))))"

text \<open>\<open>blist::insert_binary_node\<close>: the outer option is the returned node (\<open>None\<close> for NULL), the
  inner one the new value of the reference argument.\<close>

definition blist_insert_binary_node :: "world \<Rightarrow> nat \<Rightarrow> nat \<Rightarrow> nat option option outcome" where
  "blist_insert_binary_node w l N =
     and_then (detach_node w N)
       (\<lambda>w1 _.
          let L = blists w1 l;
              n = nodes w1 N;
              w2 = (case compare L of
                      TIME_NODES \<Rightarrow> put_node N (n\<lparr>node_key := node_official n\<rparr>) w1
                    | INT_NODES \<Rightarrow> w1)
          in case insert_binary_node (attached (nodes w2)) (node_cmp (compare L) (nodes w2)) N
                    (root L) of
               Inl NullList \<Rightarrow> (w2, Inr None)
             | Inl e \<Rightarrow> (w2, Inl e)
             | Inr (root', K) \<Rightarrow> (put_list l (L\<lparr>root := root'\<rparr>) w2, Inr (Some K)))"

text \<open>The secondary key of a node inserted after \<open>K\<close>.\<close>

definition secondary_after :: "(nat \<Rightarrow> list_node) \<Rightarrow> nat option \<Rightarrow> nat \<Rightarrow> int" where
  "secondary_after ns K N =
     (case K of
        None \<Rightarrow> 0
      | Some k \<Rightarrow> (if node_key (ns k) = node_key (ns N) then node_secondary (ns k) + 1 else 0))"

definition set_secondary :: "nat \<Rightarrow> int \<Rightarrow> world \<Rightarrow> world" where
  "set_secondary N s w = put_node N ((nodes w N)\<lparr>node_secondary := s\<rparr>) w"

definition clist_insert_node :: "world \<Rightarrow> nat \<Rightarrow> nat \<Rightarrow> nat option outcome" where
  "clist_insert_node w l N =
     and_then (blist_insert_binary_node w l N)
       (\<lambda>w' r. case r of
          None \<Rightarrow> (w', Inr None)
        | Some K \<Rightarrow>
            List_insert_first_node_after_second
              (set_secondary N (secondary_after (nodes w') K N) w') l N K)"

text \<open>\<open>blist::insert_node(Node*)\<close> reads both times of its comparison from \<open>K\<close>, so that for times
  the secondary key is that of \<open>K\<close> plus one whatever the time of \<open>K\<close>.\<close>

definition blist_secondary_after ::
  "compare_function \<Rightarrow> (nat \<Rightarrow> list_node) \<Rightarrow> nat option \<Rightarrow> nat \<Rightarrow> int" where
  "blist_secondary_after c ns K N =
     (case c of
        INT_NODES \<Rightarrow> secondary_after ns K N
      | TIME_NODES \<Rightarrow> (case K of None \<Rightarrow> 0 | Some k \<Rightarrow> node_secondary (ns k) + 1))"

definition blist_insert_node :: "world \<Rightarrow> nat \<Rightarrow> nat \<Rightarrow> nat option outcome" where
  "blist_insert_node w l N =
     and_then (blist_insert_binary_node w l N)
       (\<lambda>w' r. case r of
          None \<Rightarrow> (w', Inr None)
        | Some K \<Rightarrow>
            List_insert_node
              (set_secondary N (blist_secondary_after (compare (blists w' l)) (nodes w') K N) w')
              l N)"

definition blist_insert_node_before :: "world \<Rightarrow> nat \<Rightarrow> nat \<Rightarrow> nat option \<Rightarrow> nat option outcome" where
  "blist_insert_node_before w l N before_this_one =
     and_then (blist_insert_binary_node w l N)
       (\<lambda>w' r. case r of
          None \<Rightarrow> (w', Inr None)
        | Some K \<Rightarrow>
            List_insert_first_node_after_second
              (set_secondary N (secondary_after (nodes w') K N) w') l N before_this_one)"

text \<open>The virtual \<open>insert_node\<close>.\<close>

definition list_insert_node :: "world \<Rightarrow> nat \<Rightarrow> nat \<Rightarrow> nat option outcome" where
  "list_insert_node w l N =
     (case list_type (blists w l) of
        LIST \<Rightarrow> List_insert_node w l N
      | BLIST \<Rightarrow> blist_insert_node w l N
      | CLIST \<Rightarrow> clist_insert_node w l N)"

section \<open>Whole lists\<close>

text \<open>\<open>blist::order\<close>: unlink every node, then append the nodes in tree order.\<close>

definition blist_order :: "world \<Rightarrow> nat \<Rightarrow> unit outcome" where
  "blist_order w l =
     (if root (blists w l) = Tip then (w, Inr ())
      else
        and_then (for_nodes (\<lambda>w N. List_remove_node w l N) (linked (blists w l)) w)
          (\<lambda>w' _. for_nodes (\<lambda>w N. List_insert_node w l N) (order_from (root (blists w' l)) []) w'))"

text \<open>\<open>blist::clear\<close>: with the list disabled, \<open>List::clear\<close> deletes the nodes, whose destructors
  remove them.\<close>

definition blist_clear :: "world \<Rightarrow> nat \<Rightarrow> unit outcome" where
  "blist_clear w l =
     and_then
       (for_nodes (\<lambda>w N. blist_remove_node w l N) (linked (blists w l))
         (put_list l ((blists w l)\<lparr>enabled := False\<rparr>) w))
       (\<lambda>w' _. (put_list l ((blists w' l)\<lparr>linked := [], root := Tip, enabled := True\<rparr>) w', Inr ()))"

text \<open>\<open>clist::synchronize_all\<close>, with \<open>tmp\<close> the number of the local \<open>List l\<close>: nodes whose actual
  time is not their official time go to the local list and come back.\<close>

definition synchronize_all :: "world \<Rightarrow> nat \<Rightarrow> nat \<Rightarrow> unit outcome" where
  "synchronize_all w l tmp =
     and_then
       (for_nodes
         (\<lambda>w N.
            if node_key (nodes w N) \<noteq> node_official (nodes w N) then
              and_then (list_remove_node w l N)
                (\<lambda>w' _.
                   List_insert_node
                     (put_node N ((nodes w' N)\<lparr>node_key := node_official (nodes w' N)\<rparr>) w') tmp N)
            else (w, Inr None))
         (linked (blists w l)) w)
       (\<lambda>w' _.
          for_nodes
            (\<lambda>w N. and_then (List_remove_node w tmp N) (\<lambda>w'' _. list_insert_node w'' l N))
            (linked (blists w' tmp)) w')"

section \<open>Searches\<close>

definition blist_find :: "world \<Rightarrow> nat \<Rightarrow> nat \<Rightarrow> nat option" where
  "blist_find w l N =
     find (attached (nodes w)) (node_cmp (compare (blists w l)) (nodes w)) N (root (blists w l))"

text \<open>\<open>blist::find(int)\<close> searches with a node on the stack, which is in no list.\<close>

definition blist_find_int :: "world \<Rightarrow> nat \<Rightarrow> int \<Rightarrow> nat option" where
  "blist_find_int w l I =
     (let Inn = \<lparr>node_key = I, node_official = 0, node_secondary = 0, node_list = None\<rparr> in
      case compare (blists w l) of
        INT_NODES \<Rightarrow>
          find (attached (nodes w)) (\<lambda>_ a. compare_int_nodes Inn (nodes w a)) 0 (root (blists w l))
      | TIME_NODES \<Rightarrow> None)"

definition blist_find_latest_before :: "world \<Rightarrow> nat \<Rightarrow> nat \<Rightarrow> nat option" where
  "blist_find_latest_before w l N =
     find_latest_before (node_cmp (compare (blists w l)) (nodes w)) N (root (blists w l))"

definition blist_find_earliest_after :: "world \<Rightarrow> nat \<Rightarrow> nat \<Rightarrow> nat option" where
  "blist_find_earliest_after w l N =
     find_earliest_after (attached (nodes w)) (node_cmp (compare (blists w l)) (nodes w)) N
       (root (blists w l))"

fun next_in :: "'a \<Rightarrow> 'a list \<Rightarrow> 'a option" where
  "next_in x [] = None"
| "next_in x (y # ys) = (if y = x then hd_opt ys else next_in x ys)"

definition previous_in :: "'a \<Rightarrow> 'a list \<Rightarrow> 'a option" where
  "previous_in x xs = last_opt (takeWhile (\<lambda>y. y \<noteq> x) xs)"

definition clist_find_latest_before :: "world \<Rightarrow> nat \<Rightarrow> nat \<Rightarrow> nat option" where
  "clist_find_latest_before w l N =
     (if node_list (nodes w N) = Some l then previous_in N (linked (blists w l))
      else blist_find_latest_before w l N)"

definition clist_find_earliest_after :: "world \<Rightarrow> nat \<Rightarrow> nat \<Rightarrow> nat option" where
  "clist_find_earliest_after w l N =
     (if node_list (nodes w N) = Some l then next_in N (linked (blists w l))
      else blist_find_earliest_after w l N)"

section \<open>The invariant\<close>

interpretation node_order: comparer "node_cmp c ns" for c ns
  by unfold_locales
    (auto simp: node_cmp_def compare_int_nodes_def compare_Time_nodes_def Let_def
      split: compare_function.splits if_splits)

definition node_less :: "(nat \<Rightarrow> list_node) \<Rightarrow> nat \<Rightarrow> nat \<Rightarrow> bool" where
  "node_less ns a b =
     (node_key (ns a) < node_key (ns b) \<or>
      node_key (ns a) = node_key (ns b) \<and> node_secondary (ns a) < node_secondary (ns b))"

text \<open>The nodes of a list are those that point to it; the tree is balanced, holds the same nodes
  and is strictly ordered by key and secondary key; a \<open>clist\<close> is linked in tree order.\<close>

definition list_ok :: "(nat \<Rightarrow> list_node) \<Rightarrow> nat \<Rightarrow> blist \<Rightarrow> bool" where
  "list_ok ns l L \<longleftrightarrow>
     distinct (linked L) \<and> (\<forall>a. node_list (ns a) = Some l \<longleftrightarrow> a \<in> set (linked L)) \<and> enabled L \<and>
     (list_type L \<noteq> LIST \<longrightarrow>
        avl (root L) \<and> sorted_wrt (node_less ns) (inorder (root L))
        \<and> set (inorder (root L)) = set (linked L)) \<and>
     (list_type L = CLIST \<longrightarrow> linked L = inorder (root L))"

definition world_ok :: "world \<Rightarrow> bool" where
  "world_ok w \<longleftrightarrow> (\<forall>l. list_ok (nodes w) l (blists w l))"

lemma node_cmp_attached:
  "attached ns a \<Longrightarrow> attached ns b \<Longrightarrow> node_cmp c ns a b < 0 \<longleftrightarrow> node_less ns a b"
  by (cases c)
    (auto simp: node_cmp_def compare_int_nodes_def compare_Time_nodes_def node_less_def
      attached_def Let_def)

lemma node_cmp_detached:
  assumes "attached ns a" and "\<not> attached ns N"
  shows "0 < node_cmp c ns N a \<longleftrightarrow> node_key (ns a) \<le> node_key (ns N)"
    and "node_cmp c ns N a \<noteq> 0"
  using assms
  by (cases c; auto simp: node_cmp_def compare_int_nodes_def compare_Time_nodes_def attached_def
      Let_def)+

lemma in_order_attached:
  "\<forall>a\<in>set xs. attached ns a \<Longrightarrow>
     in_order (node_cmp c ns) xs \<longleftrightarrow> sorted_wrt (node_less ns) xs"
  unfolding in_order_def by (induction xs) (auto simp: node_cmp_attached)

lemma list_ok_cong:
  assumes "\<And>a. node_list (ns' a) = Some l \<longleftrightarrow> node_list (ns a) = Some l"
    and "\<And>a. node_list (ns a) = Some l \<Longrightarrow>
      node_key (ns' a) = node_key (ns a) \<and> node_secondary (ns' a) = node_secondary (ns a)"
  shows "list_ok ns' l L \<longleftrightarrow> list_ok ns l L"
proof -
  have sorted: "sorted_wrt (node_less ns') xs \<longleftrightarrow> sorted_wrt (node_less ns) xs"
    if "\<forall>a\<in>set xs. node_list (ns a) = Some l" for xs
    using that assms(2) by (induction xs) (auto simp: node_less_def)
  have "sorted_wrt (node_less ns') (inorder (root L)) \<longleftrightarrow> sorted_wrt (node_less ns) (inorder (root L))"
    if "\<forall>a. node_list (ns a) = Some l \<longleftrightarrow> a \<in> set (linked L)"
      and "set (inorder (root L)) = set (linked L)"
    by (rule sorted) (use that in blast)
  then show ?thesis unfolding list_ok_def assms(1) by blast
qed

lemma sorted_nodes_distinct: "sorted_wrt (node_less ns) xs \<Longrightarrow> distinct xs"
  by (induction xs) (auto simp: node_less_def)

lemma list_ok_mem: "list_ok ns l L \<Longrightarrow> node_list (ns a) = Some l \<longleftrightarrow> a \<in> set (linked L)"
  unfolding list_ok_def by blast

lemma list_ok_distinct: "list_ok ns l L \<Longrightarrow> distinct (linked L)"
  unfolding list_ok_def by blast

lemma list_ok_clist: "list_ok ns l L \<Longrightarrow> list_type L = CLIST \<Longrightarrow> linked L = inorder (root L)"
  unfolding list_ok_def by blast

lemma list_ok_attached:
  "list_ok ns l L \<Longrightarrow> a \<in> set (linked L) \<Longrightarrow> attached ns a"
  using list_ok_mem [of ns l L a] by (simp add: attached_def has_a_list_def)

lemma world_ok_list: "world_ok w \<Longrightarrow> list_ok (nodes w) l (blists w l)"
  by (simp add: world_ok_def)

section \<open>Removal keeps the invariant\<close>

text \<open>What a removal does to the world.\<close>

definition removed :: "world \<Rightarrow> nat \<Rightarrow> world \<Rightarrow> bool" where
  "removed w N w' \<longleftrightarrow>
     world_ok w' \<and> nodes w' = (nodes w)(N := (nodes w N)\<lparr>node_list := None\<rparr>)
     \<and> (\<forall>k. linked (blists w' k) = remove1 N (linked (blists w k))
            \<and> list_type (blists w' k) = list_type (blists w k)
            \<and> compare (blists w' k) = compare (blists w k))"

lemma removedI:
  assumes ok: "world_ok w" and N: "node_list (nodes w N) = Some l"
    and L: "distinct (linked L')" "linked L' = remove1 N (linked (blists w l))" "enabled L'"
      "list_type L' = list_type (blists w l)" "compare L' = compare (blists w l)"
    and tree: "list_type L' \<noteq> LIST \<Longrightarrow> avl (root L') \<and>
      inorder (root L') = remove1 N (inorder (root (blists w l)))"
    and w': "w' = put_node N ((nodes w N)\<lparr>node_list := None\<rparr>) (put_list l L' w)"
  shows "removed w N w'"
proof -
  let ?ns = "nodes w'"
  have ns: "?ns = (nodes w)(N := (nodes w N)\<lparr>node_list := None\<rparr>)"
    unfolding w' put_node_def put_list_def by simp
  have lists: "blists w' = (blists w)(l := L')" unfolding w' put_node_def put_list_def by simp
  have okl: "list_ok (nodes w) k (blists w k)" for k using ok by (rule world_ok_list)
  have other: "list_ok ?ns k (blists w k)" if "k \<noteq> l" for k
    using okl [of k] N that by (subst list_ok_cong [of ?ns k "nodes w"]) (auto simp: ns)
  have mem: "node_list (?ns a) = Some l \<longleftrightarrow> a \<in> set (linked L')" for a
    using okl [of l] N L(2) unfolding list_ok_def by (auto simp: ns)
  have sorted: "sorted_wrt (node_less ?ns) (remove1 N xs)"
    if "sorted_wrt (node_less (nodes w)) xs" for xs
  proof -
    have "node_less ?ns = node_less (nodes w)" unfolding ns node_less_def by (intro ext) auto
    with that show ?thesis by (induction xs) (auto dest: set_remove1_subset [THEN subsetD])
  qed
  have "avl (root L') \<and> sorted_wrt (node_less ?ns) (inorder (root L'))
      \<and> set (inorder (root L')) = set (linked L')" if "list_type L' \<noteq> LIST"
    using tree [OF that] okl [of l] that L(2,4) sorted
      sorted_nodes_distinct [of "nodes w" "inorder (root (blists w l))"]
    unfolding list_ok_def by (simp add: set_remove1_eq)
  moreover have "linked L' = inorder (root L')" if "list_type L' = CLIST"
    using tree okl [of l] that L(2,4) unfolding list_ok_def by simp
  ultimately have "list_ok ?ns l L'" unfolding list_ok_def using mem L(1,3) by blast
  then have "world_ok w'" unfolding world_ok_def lists using other by simp
  moreover have "remove1 N (linked (blists w k)) = linked (blists w k)" if "k \<noteq> l" for k
    using list_ok_mem [OF okl [of k], of N] N that by (simp add: remove1_idem)
  ultimately show ?thesis unfolding removed_def lists using ns L by simp
qed

lemma List_remove_node_removed:
  assumes "world_ok w" and "node_list (nodes w N) = Some l" and "list_type (blists w l) = LIST"
  shows "removed w N (fst (List_remove_node w l N)) \<and> snd (List_remove_node w l N) = Inr (Some N)"
proof -
  let ?L' = "(blists w l)\<lparr>linked := remove1 N (linked (blists w l))\<rparr>"
  have "distinct (linked (blists w l)) \<and> enabled (blists w l)"
    using world_ok_list [OF assms(1), of l] unfolding list_ok_def by blast
  then have "removed w N (put_node N ((nodes w N)\<lparr>node_list := None\<rparr>) (put_list l ?L' w))"
    by (intro removedI [OF assms(1,2), where L' = ?L']) (use assms(3) in auto)
  then show ?thesis using assms(2) by (simp add: List_remove_node_def)
qed

lemma blist_remove_node_removed:
  assumes ok: "world_ok w" and N: "node_list (nodes w N) = Some l"
    and t: "list_type (blists w l) \<noteq> LIST"
  shows "removed w N (fst (blist_remove_node w l N)) \<and> snd (blist_remove_node w l N) = Inr (Some N)"
proof -
  let ?L = "blists w l"
  have okl: "list_ok (nodes w) l ?L" using ok by (rule world_ok_list)
  then have tree: "avl (root ?L)" "sorted_wrt (node_less (nodes w)) (inorder (root ?L))"
    "set (inorder (root ?L)) = set (linked ?L)" "distinct (linked ?L)" "enabled ?L"
    using t unfolding list_ok_def by blast+
  have att: "\<forall>a\<in>set (inorder (root ?L)). attached (nodes w) a"
    using tree(3) list_ok_attached [OF okl] by simp
  have ord: "in_order (node_cmp (compare ?L) (nodes w)) (inorder (root ?L))"
    using tree(2) in_order_attached [OF att] by blast
  have x: "N \<in> set (inorder (root ?L))" using tree(3) list_ok_mem [OF okl] N by simp
  from node_order.remove_node_ok [OF tree(1) ord att x] obtain t' where
    t': "remove_node (attached (nodes w)) (node_cmp (compare ?L) (nodes w)) N (root ?L)
        = Inr (t', Some N)" "avl t'" "inorder t' = remove1 N (inorder (root ?L))" by blast
  let ?L' = "?L\<lparr>root := t', linked := remove1 N (linked ?L)\<rparr>"
  have "blist_remove_node w l N =
      (put_node N ((nodes w N)\<lparr>node_list := None\<rparr>) (put_list l ?L' w), Inr (Some N))"
    using t'(1) tree(5) N
    by (simp add: blist_remove_node_def Let_def List_remove_node_def put_list_def put_node_def)
  moreover have "removed w N (put_node N ((nodes w N)\<lparr>node_list := None\<rparr>) (put_list l ?L' w))"
    by (rule removedI [OF ok N, where L' = ?L']) (use tree t' in auto)
  ultimately show ?thesis by simp
qed

lemma list_remove_node_removed:
  "world_ok w \<Longrightarrow> node_list (nodes w N) = Some l \<Longrightarrow>
     removed w N (fst (list_remove_node w l N)) \<and> snd (list_remove_node w l N) = Inr (Some N)"
  using List_remove_node_removed blist_remove_node_removed
  by (auto simp: list_remove_node_def split: list_class.splits)

lemma removed_refl:
  assumes "world_ok w" and "node_list (nodes w N) = None"
  shows "removed w N w"
proof -
  have "(nodes w)(N := (nodes w N)\<lparr>node_list := None\<rparr>) = nodes w"
    using assms(2) by (intro ext) simp
  moreover have "remove1 N (linked (blists w k)) = linked (blists w k)" for k
    using list_ok_mem [OF world_ok_list [OF assms(1)], of N k] assms(2) by (simp add: remove1_idem)
  ultimately show ?thesis using assms(1) by (simp add: removed_def)
qed

lemma detach_node_removed:
  "world_ok w \<Longrightarrow> \<exists>w' r. detach_node w N = (w', Inr r) \<and> removed w N w'"
  using list_remove_node_removed [of w N] removed_refl [of w N]
  by (auto simp: detach_node_def split: option.splits)
    (metis prod.collapse)

section \<open>Insertion keeps the invariant\<close>

text \<open>The place of a node: after all those that are not later.\<close>

definition insert_by_key :: "(nat \<Rightarrow> list_node) \<Rightarrow> nat \<Rightarrow> nat list \<Rightarrow> nat list" where
  "insert_by_key ns N xs =
     takeWhile (\<lambda>a. node_key (ns a) \<le> node_key (ns N)) xs
     @ N # dropWhile (\<lambda>a. node_key (ns a) \<le> node_key (ns N)) xs"

lemma set_insert_by_key [simp]: "set (insert_by_key ns N xs) = insert N (set xs)"
proof -
  have "set (takeWhile P xs) \<union> set (dropWhile P xs) = set xs" for P
    unfolding set_append [symmetric] by simp
  then show ?thesis unfolding insert_by_key_def set_append list.set(2) by blast
qed

lemma later_nodes:
  "sorted_wrt (node_less ns) xs \<Longrightarrow> b \<in> set (dropWhile (\<lambda>a. node_key (ns a) \<le> k) xs) \<Longrightarrow>
     k < node_key (ns b)"
  by (induction xs) (fastforce simp: node_less_def split: if_splits)+

text \<open>The secondary key the code computes puts the node behind those with its key.\<close>

lemma insert_by_key_sorted:
  assumes xs: "sorted_wrt (node_less ns) xs" and N: "N \<notin> set xs"
    and key: "node_key n = node_key (ns N)"
    and sec: "\<And>k. last_opt (takeWhile (\<lambda>a. node_key (ns a) \<le> node_key (ns N)) xs) = Some k \<Longrightarrow>
      node_key (ns k) = node_key (ns N) \<Longrightarrow> node_secondary (ns k) < node_secondary n"
  shows "sorted_wrt (node_less (ns(N := n))) (insert_by_key ns N xs)"
proof -
  let ?A = "takeWhile (\<lambda>a. node_key (ns a) \<le> node_key (ns N)) xs"
  let ?B = "dropWhile (\<lambda>a. node_key (ns a) \<le> node_key (ns N)) xs"
  have "sorted_wrt (node_less ns) (?A @ ?B)" using xs by simp
  then have AB: "sorted_wrt (node_less ns) ?A" "sorted_wrt (node_less ns) ?B"
    "\<forall>a\<in>set ?A. \<forall>b\<in>set ?B. node_less ns a b"
    unfolding sorted_wrt_append by blast+
  have notin: "N \<notin> set ?A" "N \<notin> set ?B" using N by (auto dest: set_takeWhileD set_dropWhileD)
  have same: "node_less (ns(N := n)) a b = node_less ns a b" if "a \<noteq> N" "b \<noteq> N" for a b
    using that by (simp add: node_less_def)
  have sorted: "sorted_wrt (node_less (ns(N := n))) ys" if "sorted_wrt (node_less ns) ys" "N \<notin> set ys" for ys
    using that
  proof (induction ys)
    case (Cons a ys)
    then have "node_less (ns(N := n)) a x" if "x \<in> set ys" for x
      using that same [of a x] by auto
    moreover have "sorted_wrt (node_less (ns(N := n))) ys"
      by (rule Cons.IH) (use Cons.prems in auto)
    ultimately show ?case unfolding sorted_wrt.simps by blast
  qed simp
  have before: "node_less (ns(N := n)) a N" if a: "a \<in> set ?A" for a
  proof -
    from a have k_le: "node_key (ns a) \<le> node_key (ns N)" by (auto dest: set_takeWhileD)
    from a obtain k where k: "last_opt ?A = Some k" by (cases "last_opt ?A") auto
    then have "k \<in> set ?A" and snoc: "?A = butlast ?A @ [k]"
      by (rule last_opt_in_set, auto simp: last_opt_eq split: if_splits)
    have "k = a \<or> node_less ns a k"
    proof -
      have "sorted_wrt (node_less ns) (butlast ?A @ [k])" using AB(1) snoc by simp
      moreover have "a \<in> set (butlast ?A @ [k])" using a snoc by simp
      ultimately show ?thesis by (auto simp: sorted_wrt_append)
    qed
    moreover have "node_key (ns k) \<le> node_key (ns N)"
      using \<open>k \<in> set ?A\<close> by (auto dest: set_takeWhileD)
    moreover have "a \<noteq> N" using a notin by auto
    ultimately show ?thesis using sec [OF k] k_le key by (auto simp: node_less_def)
  qed
  have after: "node_less (ns(N := n)) N b" if "b \<in> set ?B" for b
    using later_nodes [OF xs that] key that notin by (auto simp: node_less_def)
  show ?thesis
    unfolding insert_by_key_def sorted_wrt_append_Cons
    using sorted AB notin before after same by metis
qed

text \<open>The world after an insertion: \<open>N\<close> has joined the list \<open>l\<close>.\<close>

lemma joined_ok:
  assumes ok: "world_ok w" and N: "node_list (nodes w N) = None" and n: "node_list n = Some l"
    and L: "distinct (linked L')" "set (linked L') = insert N (set (linked (blists w l)))"
      "enabled L'" "list_type L' = list_type (blists w l)"
    and tree: "list_type L' \<noteq> LIST \<Longrightarrow>
      avl (root L') \<and> sorted_wrt (node_less ((nodes w)(N := n))) (inorder (root L'))
      \<and> set (inorder (root L')) = set (linked L')"
    and clist: "list_type L' = CLIST \<Longrightarrow> linked L' = inorder (root L')"
  shows "world_ok (put_node N n (put_list l L' w))"
proof -
  let ?w = "put_node N n (put_list l L' w)"
  have ns: "nodes ?w = (nodes w)(N := n)" and blists: "blists ?w = (blists w)(l := L')"
    by (simp_all add: put_node_def put_list_def)
  note okl = world_ok_list [OF ok]
  have "list_ok (nodes ?w) k (blists w k)" if "k \<noteq> l" for k
    using okl [of k] N n that by (subst list_ok_cong [of "nodes ?w" k "nodes w"]) (auto simp: ns)
  moreover have "node_list (nodes ?w a) = Some l \<longleftrightarrow> a \<in> set (linked L')" for a
    using list_ok_mem [OF okl, of a l] L(2) n by (simp add: ns)
  then have "list_ok (nodes ?w) l L'"
    unfolding list_ok_def using L(1,3) tree clist by (simp add: ns)
  ultimately show ?thesis unfolding world_ok_def blists by simp
qed

lemma world_ok_put_detached:
  assumes "world_ok w" and "node_list (nodes w N) = None" and "node_list n = None"
  shows "world_ok (put_node N n w)"
  unfolding world_ok_def
proof
  fix l
  show "list_ok (nodes (put_node N n w)) l (blists (put_node N n w) l)"
    using world_ok_list [OF assms(1), of l] assms(2,3)
    by (subst list_ok_cong [of _ l "nodes w"]) (auto simp: put_node_def)
qed

text \<open>The key an insertion gives to the node: the official time for time lists.\<close>

definition new_key :: "world \<Rightarrow> nat \<Rightarrow> nat \<Rightarrow> int" where
  "new_key w l N =
     (case compare (blists w l) of
        TIME_NODES \<Rightarrow> node_official (nodes w N)
      | INT_NODES \<Rightarrow> node_key (nodes w N))"

lemma tree_insertion:
  assumes ok: "list_ok ns l L" and t: "list_type L \<noteq> LIST" and N: "node_list (ns N) = None"
  shows "\<exists>root'. insert_binary_node (attached ns) (node_cmp (compare L) ns) N (root L)
      = Inr (root', last_opt (takeWhile (\<lambda>a. node_key (ns a) \<le> node_key (ns N)) (inorder (root L))))
    \<and> avl root' \<and> inorder root' = insert_by_key ns N (inorder (root L))"
proof -
  from ok t have tree: "avl (root L)" "sorted_wrt (node_less ns) (inorder (root L))"
    "set (inorder (root L)) = set (linked L)"
    unfolding list_ok_def by blast+
  have att: "\<forall>a\<in>set (inorder (root L)). attached ns a"
    using tree(3) list_ok_attached [OF ok] by simp
  have ord: "in_order (node_cmp (compare L) ns) (inorder (root L))"
    using tree(2) in_order_attached [OF att] by blast
  have det: "\<not> attached ns N" using N by (simp add: attached_def has_a_list_def)
  have new: "\<forall>a\<in>set (inorder (root L)). attached ns a \<and> node_cmp (compare L) ns N a \<noteq> 0"
    using att node_cmp_detached(2) [OF _ det] by blast
  have cut: "takeWhile (\<lambda>a. 0 < node_cmp (compare L) ns N a) (inorder (root L)) =
      takeWhile (\<lambda>a. node_key (ns a) \<le> node_key (ns N)) (inorder (root L))"
    "dropWhile (\<lambda>a. 0 < node_cmp (compare L) ns N a) (inorder (root L)) =
      dropWhile (\<lambda>a. node_key (ns a) \<le> node_key (ns N)) (inorder (root L))"
    using att node_cmp_detached(1) [OF _ det]
    by (auto intro!: takeWhile_cong dropWhile_cong)
  from node_order.insert_binary_node_ok [OF tree(1) ord new] show ?thesis
    unfolding latest_smaller_def ins_sorted_def insert_by_key_def cut by blast
qed

lemma insert_by_key_cong:
  "(\<And>a. node_key (ns a) = node_key (ns' a)) \<Longrightarrow> insert_by_key ns N xs = insert_by_key ns' N xs"
  by (simp add: insert_by_key_def)

text \<open>The node on its way into the list: detached and with its new key.\<close>

definition incoming :: "world \<Rightarrow> nat \<Rightarrow> nat \<Rightarrow> list_node" where
  "incoming w l N = (nodes w N)\<lparr>node_list := None, node_key := new_key w l N\<rparr>"

lemma binary_insertion:
  assumes ok: "world_ok w" and t: "list_type (blists w l) \<noteq> LIST"
  obtains w1 wb root' where "removed w N w1" and "wb = put_node N (incoming w l N) w1"
    and "world_ok wb" and "nodes wb = (nodes w)(N := incoming w l N)"
    and "avl root'" and "inorder root' = insert_by_key (nodes wb) N (inorder (root (blists w1 l)))"
    and "blist_insert_binary_node w l N =
      (put_list l ((blists w1 l)\<lparr>root := root'\<rparr>) wb,
       Inr (Some (last_opt (takeWhile (\<lambda>a. node_key (nodes wb a) \<le> node_key (nodes wb N))
         (inorder (root (blists w1 l)))))))"
proof -
  from detach_node_removed [OF ok, of N] obtain w1 r where
    w1: "detach_node w N = (w1, Inr r)" "removed w N w1" by blast
  define wb where "wb = put_node N (incoming w l N) w1"
  have ns1: "nodes w1 = (nodes w)(N := (nodes w N)\<lparr>node_list := None\<rparr>)"
    and ok1: "world_ok w1" and t1: "list_type (blists w1 l) \<noteq> LIST"
    and c1: "compare (blists w1 l) = compare (blists w l)"
    using w1(2) t unfolding removed_def by simp_all
  have blists: "blists wb = blists w1" and nsb: "nodes wb = (nodes w)(N := incoming w l N)"
    unfolding wb_def put_node_def ns1 by simp_all
  have okb: "world_ok wb"
    unfolding wb_def by (rule world_ok_put_detached [OF ok1]) (simp_all add: ns1 incoming_def)
  have N: "node_list (nodes wb N) = None" unfolding nsb incoming_def by simp
  from tree_insertion [OF world_ok_list [OF okb, of l] _ N] t1 obtain root' where
    r: "insert_binary_node (attached (nodes wb)) (node_cmp (compare (blists w1 l)) (nodes wb)) N
          (root (blists w1 l))
        = Inr (root', last_opt (takeWhile (\<lambda>a. node_key (nodes wb a) \<le> node_key (nodes wb N))
            (inorder (root (blists w1 l)))))"
      "avl root'" "inorder root' = insert_by_key (nodes wb) N (inorder (root (blists w1 l)))"
    unfolding blists by blast
  have w2: "(case compare (blists w1 l) of
        TIME_NODES \<Rightarrow> put_node N ((nodes w1 N)\<lparr>node_key := node_official (nodes w1 N)\<rparr>) w1
      | INT_NODES \<Rightarrow> w1) = wb"
    unfolding wb_def c1 incoming_def new_key_def ns1
    by (cases "compare (blists w l)") (simp_all add: put_node_def ns1)
  have "blist_insert_binary_node w l N =
      (put_list l ((blists w1 l)\<lparr>root := root'\<rparr>) wb,
       Inr (Some (last_opt (takeWhile (\<lambda>a. node_key (nodes wb a) \<le> node_key (nodes wb N))
         (inorder (root (blists w1 l)))))))"
    unfolding blist_insert_binary_node_def w1(1) and_then_def Let_def prod.case sum.case w2 r(1)
    by simp
  then show thesis using that w1(2) wb_def okb nsb r(2,3) by blast
qed

text \<open>What an insertion promises.\<close>

definition inserted :: "world \<Rightarrow> nat \<Rightarrow> nat \<Rightarrow> world \<Rightarrow> bool" where
  "inserted w l N w' \<longleftrightarrow>
     world_ok w' \<and> node_key (nodes w' N) = new_key w l N
     \<and> node_official (nodes w' N) = node_official (nodes w N)
     \<and> (\<forall>a. a \<noteq> N \<longrightarrow> nodes w' a = nodes w a)
     \<and> (\<forall>k. k \<noteq> l \<longrightarrow> linked (blists w' k) = remove1 N (linked (blists w k)))
     \<and> (\<forall>k. list_type (blists w' k) = list_type (blists w k)
            \<and> compare (blists w' k) = compare (blists w k))"

lemma secondary_after_later:
  assumes "last_opt xs = Some k" "node_key (ns k) = node_key (ns N)"
  shows "node_secondary (ns k) < secondary_after ns (last_opt xs) N"
    and "node_secondary (ns k) < blist_secondary_after c ns (last_opt xs) N"
  using assms by (auto simp: secondary_after_def blist_secondary_after_def split: compare_function.splits)

text \<open>One lemma for the three insertions: they differ in the secondary key and in the place in
  the linked list.\<close>

lemma insertion_ok:
  assumes ok: "world_ok w" and t: "list_type (blists w l) \<noteq> LIST"
    and w1: "removed w N w1" and wb: "wb = put_node N (incoming w l N) w1" "world_ok wb"
      "nodes wb = (nodes w)(N := incoming w l N)"
    and root': "avl root'" "inorder root' = insert_by_key (nodes wb) N (inorder (root (blists w1 l)))"
    and sec: "\<And>k. last_opt (takeWhile (\<lambda>a. node_key (nodes wb a) \<le> node_key (nodes wb N))
        (inorder (root (blists w1 l)))) = Some k \<Longrightarrow>
      node_key (nodes wb k) = node_key (nodes wb N) \<Longrightarrow> node_secondary (nodes wb k) < s"
    and ys: "distinct ys" "set ys = insert N (set (linked (blists w1 l)))"
      "list_type (blists w l) = CLIST \<Longrightarrow> ys = inorder root'"
    and w': "w' = put_node N ((incoming w l N)\<lparr>node_secondary := s, node_list := Some l\<rparr>)
      (put_list l ((blists w1 l)\<lparr>root := root', linked := ys\<rparr>) wb)"
  shows "inserted w l N w' \<and> linked (blists w' l) = ys"
proof -
  let ?n = "(incoming w l N)\<lparr>node_secondary := s, node_list := Some l\<rparr>"
  let ?L' = "(blists w1 l)\<lparr>root := root', linked := ys\<rparr>"
  have blists: "blists wb = blists w1" unfolding wb(1) put_node_def by simp
  have t1: "list_type (blists w1 k) = list_type (blists w k)"
    "compare (blists w1 k) = compare (blists w k)"
    "linked (blists w1 k) = remove1 N (linked (blists w k))" for k
    using w1 unfolding removed_def by simp_all
  have N: "node_list (nodes wb N) = None" unfolding wb(3) incoming_def by simp
  have okl: "list_ok (nodes wb) l (blists w1 l)" using world_ok_list [OF wb(2), of l] blists by simp
  then have tree: "sorted_wrt (node_less (nodes wb)) (inorder (root (blists w1 l)))"
    "set (inorder (root (blists w1 l))) = set (linked (blists w1 l))" "enabled (blists w1 l)"
    using t t1 unfolding list_ok_def by simp_all
  have notin: "N \<notin> set (inorder (root (blists w1 l)))"
    using list_ok_mem [OF okl, of N] N tree(2) by simp
  have key: "node_key ?n = node_key (nodes wb N)" unfolding wb(3) by simp
  have sorted: "sorted_wrt (node_less ((nodes wb)(N := ?n))) (inorder root')"
    unfolding root'(2) by (rule insert_by_key_sorted [OF tree(1) notin key]) (use sec in simp)
  have "world_ok w'"
    unfolding w'
    by (rule joined_ok [OF wb(2) N])
      (use ys root' tree t1 sorted in \<open>simp_all add: blists\<close>)
  then show ?thesis
    unfolding inserted_def w' by (auto simp: put_node_def put_list_def wb(3) blists t1 incoming_def)
qed

lemma insert_by_key_distinct: "distinct xs \<Longrightarrow> N \<notin> set xs \<Longrightarrow> distinct (insert_by_key ns N xs)"
proof -
  assume a: "distinct xs" "N \<notin> set xs"
  let ?A = "takeWhile (\<lambda>a. node_key (ns a) \<le> node_key (ns N)) xs"
  let ?B = "dropWhile (\<lambda>a. node_key (ns a) \<le> node_key (ns N)) xs"
  have "distinct (?A @ ?B)" using a by simp
  moreover have "N \<notin> set ?A" "N \<notin> set ?B" using a by (auto dest: set_takeWhileD set_dropWhileD)
  ultimately show ?thesis unfolding insert_by_key_def by (auto simp del: takeWhile_dropWhile_id)
qed

lemma put_put:
  "put_node N x (put_list l L (put_node N y (put_list l L0 w))) = put_node N x (put_list l L w)"
  by (simp add: put_node_def put_list_def)

lemma put_sel [simp]:
  "nodes (put_list l L w) = nodes w" "blists (put_node N n w) = blists w"
  "blists (put_list l L w) = (blists w)(l := L)" "nodes (put_node N n w) = (nodes w)(N := n)"
  by (simp_all add: put_node_def put_list_def)

text \<open>Linking a node that carries its secondary key already.\<close>

lemma link_after:
  assumes N: "node_list (nodes wb N) = None"
    and K: "\<And>k. K = Some k \<Longrightarrow> node_list (nodes wb k) = Some l"
  shows "List_insert_first_node_after_second (set_secondary N s (put_list l L wb)) l N K =
    (put_node N ((nodes wb N)\<lparr>node_secondary := s, node_list := Some l\<rparr>)
       (put_list l (L\<lparr>linked := insert_after K N (linked L)\<rparr>) wb), Inr (Some N))"
proof -
  have "K \<noteq> Some N" using K N by force
  with K N show ?thesis
    by (cases K)
      (simp_all add: List_insert_first_node_after_second_def set_secondary_def detach_node_def
        and_then_def put_put)
qed

lemma link_last:
  assumes N: "node_list (nodes wb N) = None"
  shows "List_insert_node (set_secondary N s (put_list l L wb)) l N =
    (put_node N ((nodes wb N)\<lparr>node_secondary := s, node_list := Some l\<rparr>)
       (put_list l (L\<lparr>linked := linked L @ [N]\<rparr>) wb), Inr (Some N))"
  using N by (simp add: List_insert_node_def set_secondary_def detach_node_def and_then_def put_put)

lemma removed_facts:
  assumes "removed w N w1" and "nodes wb = (nodes w)(N := incoming w l N)"
    and "wb = put_node N (incoming w l N) w1" and "world_ok wb"
  shows "list_type (blists w1 k) = list_type (blists w k)"
    and "compare (blists w1 k) = compare (blists w k)"
    and "linked (blists w1 k) = remove1 N (linked (blists w k))"
    and "list_ok (nodes wb) k (blists w1 k)" and "node_list (nodes wb N) = None"
  using assms(1,2) world_ok_list [OF assms(4), of k] assms(3)
  by (simp_all add: removed_def incoming_def)

lemma clist_insertion:
  assumes ok: "world_ok w" and t: "list_type (blists w l) = CLIST"
  shows "\<exists>w'. clist_insert_node w l N = (w', Inr (Some N)) \<and> inserted w l N w'
           \<and> linked (blists w' l) = insert_by_key (nodes w') N (remove1 N (linked (blists w l)))"
proof -
  from t have t': "list_type (blists w l) \<noteq> LIST" by simp
  from binary_insertion [OF ok this, of N] obtain w1 wb root' where
    w1: "removed w N w1" and wb: "wb = put_node N (incoming w l N) w1" "world_ok wb"
      "nodes wb = (nodes w)(N := incoming w l N)"
    and root': "avl root'" "inorder root' = insert_by_key (nodes wb) N (inorder (root (blists w1 l)))"
    and bin: "blist_insert_binary_node w l N =
      (put_list l ((blists w1 l)\<lparr>root := root'\<rparr>) wb,
       Inr (Some (last_opt (takeWhile (\<lambda>a. node_key (nodes wb a) \<le> node_key (nodes wb N))
         (inorder (root (blists w1 l)))))))" .
  note f = removed_facts [OF w1 wb(3,1,2)]
  let ?xs = "inorder (root (blists w1 l))"
  let ?A = "takeWhile (\<lambda>a. node_key (nodes wb a) \<le> node_key (nodes wb N)) ?xs"
  let ?s = "secondary_after (nodes wb) (last_opt ?A) N"
  have lx: "linked (blists w1 l) = ?xs"
    using list_ok_clist [OF f(4) [of l]] f(1) [of l] t by simp
  have d: "distinct (linked (blists w1 l))" by (rule list_ok_distinct [OF f(4)])
  from d have xs: "linked (blists w1 l) = ?xs" "distinct ?xs" unfolding lx by simp_all
  have notin: "N \<notin> set ?xs" using list_ok_mem [OF f(4) [of l], of N] f(5) unfolding xs(1) by simp
  have K: "node_list (nodes wb k) = Some l" if "last_opt ?A = Some k" for k
    using list_ok_mem [OF f(4) [of l], of k] last_opt_in_set [OF that] unfolding xs(1)
    by (auto dest: set_takeWhileD)
  define w' where "w' = put_node N ((incoming w l N)\<lparr>node_secondary := ?s, node_list := Some l\<rparr>)
      (put_list l ((blists w1 l)\<lparr>root := root', linked := inorder root'\<rparr>) wb)"
  have place: "insert_after (last_opt ?A) N ?xs = inorder root'"
    using insert_after_last [of ?A "dropWhile (\<lambda>a. node_key (nodes wb a) \<le> node_key (nodes wb N)) ?xs" N]
      xs(2) unfolding root'(2) insert_by_key_def by simp
  have "clist_insert_node w l N = (w', Inr (Some N))"
    using link_after [OF f(5) K, where s = ?s and L = "(blists w1 l)\<lparr>root := root'\<rparr>"] place
    unfolding clist_insert_node_def bin and_then_def w'_def
    by (simp add: xs wb(3))
  moreover have "inserted w l N w' \<and> linked (blists w' l) = inorder root'"
    by (rule insertion_ok [OF ok t' w1 wb root' _ _ _ _ w'_def])
      (use secondary_after_later(1) xs root' notin in \<open>auto simp: insert_by_key_distinct\<close>)
  moreover have "inorder root' = insert_by_key (nodes w') N (remove1 N (linked (blists w l)))"
    using xs f(3) [of l] unfolding root'(2)
    by (auto simp: w'_def wb(3) intro: insert_by_key_cong)
  ultimately show ?thesis by metis
qed

lemma blist_insertion:
  assumes ok: "world_ok w" and t: "list_type (blists w l) = BLIST"
  shows "\<exists>w'. blist_insert_node w l N = (w', Inr (Some N)) \<and> inserted w l N w'
           \<and> linked (blists w' l) = remove1 N (linked (blists w l)) @ [N]"
proof -
  from t have t': "list_type (blists w l) \<noteq> LIST" by simp
  from binary_insertion [OF ok this, of N] obtain w1 wb root' where
    w1: "removed w N w1" and wb: "wb = put_node N (incoming w l N) w1" "world_ok wb"
      "nodes wb = (nodes w)(N := incoming w l N)"
    and root': "avl root'" "inorder root' = insert_by_key (nodes wb) N (inorder (root (blists w1 l)))"
    and bin: "blist_insert_binary_node w l N =
      (put_list l ((blists w1 l)\<lparr>root := root'\<rparr>) wb,
       Inr (Some (last_opt (takeWhile (\<lambda>a. node_key (nodes wb a) \<le> node_key (nodes wb N))
         (inorder (root (blists w1 l)))))))" .
  note f = removed_facts [OF w1 wb(3,1,2)]
  let ?xs = "inorder (root (blists w1 l))"
  let ?A = "takeWhile (\<lambda>a. node_key (nodes wb a) \<le> node_key (nodes wb N)) ?xs"
  let ?s = "blist_secondary_after (compare (blists w1 l)) (nodes wb) (last_opt ?A) N"
  have d: "distinct (linked (blists w1 l))" by (rule list_ok_distinct [OF f(4)])
  have notin: "N \<notin> set (linked (blists w1 l))" using list_ok_mem [OF f(4), of N] f(5) by simp
  define w' where "w' = put_node N ((incoming w l N)\<lparr>node_secondary := ?s, node_list := Some l\<rparr>)
      (put_list l ((blists w1 l)\<lparr>root := root', linked := linked (blists w1 l) @ [N]\<rparr>) wb)"
  have "blist_insert_node w l N = (w', Inr (Some N))"
    using link_last [OF f(5), where s = ?s and l = l and L = "(blists w1 l)\<lparr>root := root'\<rparr>"]
    unfolding blist_insert_node_def bin and_then_def w'_def
    by (simp add: wb(3))
  moreover have "inserted w l N w' \<and> linked (blists w' l) = linked (blists w1 l) @ [N]"
    by (rule insertion_ok [OF ok t' w1 wb root' _ _ _ _ w'_def])
      (use secondary_after_later(2) t d notin in auto)
  ultimately show ?thesis using f(3) by metis
qed

end
