(* ===== verification/BListOps.thy ===== *)
theory BListOps
  imports BList
begin

text \<open>
  The operations of \<open>BList\<close> on whole lists (\<open>order\<close>, \<open>clear\<close>, \<open>synchronize_all\<close>), its searches and
  the bound on the depth of the search paths: lemmas only, the operations are in \<open>BList\<close>.
\<close>

section \<open>order\<close>

definition relink :: "nat option \<Rightarrow> nat set \<Rightarrow> (nat \<Rightarrow> list_node) \<Rightarrow> nat \<Rightarrow> list_node" where
  "relink l S ns a = (if a \<in> S then (ns a)\<lparr>node_list := l\<rparr> else ns a)"

definition relinked :: "nat \<Rightarrow> nat option \<Rightarrow> nat set \<Rightarrow> blist \<Rightarrow> world \<Rightarrow> world" where
  "relinked l lo S L w = put_list l L (w\<lparr>nodes := relink lo S (nodes w)\<rparr>)"

lemma relinked_sel [simp]:
  "nodes (relinked l lo S L w) = relink lo S (nodes w)"
  "blists (relinked l lo S L w) = (blists w)(l := L)"
  by (simp_all add: relinked_def put_list_def)

lemma relink_empty [simp]: "relink lo {} ns = ns"
  by (simp add: relink_def fun_eq_iff)

lemma put_list_same [simp]: "put_list l (blists w l) w = w"
  by (simp add: put_list_def)

lemma relinked_empty [simp]: "relinked l lo {} (blists w l) w = w"
  by (simp add: relinked_def)

lemma relinked_step:
  "N \<notin> S \<Longrightarrow>
     relinked l lo S L (put_node N ((nodes w N)\<lparr>node_list := lo\<rparr>) (put_list l L' w)) =
     relinked l lo (insert N S) L w"
  by (rule world.equality) (auto simp: relink_def relinked_def put_node_def put_list_def fun_eq_iff)

lemma unlink_all:
  "distinct xs \<Longrightarrow> linked (blists w l) = xs \<Longrightarrow> \<forall>a\<in>set xs. node_list (nodes w a) = Some l \<Longrightarrow>
     for_nodes (\<lambda>w N. List_remove_node w l N) xs w =
       (relinked l None (set xs) ((blists w l)\<lparr>linked := []\<rparr>) w, Inr ())"
proof (induction xs arbitrary: w)
  case Nil
  then have "(blists w l)\<lparr>linked := []\<rparr> = blists w l" by simp
  then show ?case by simp
next
  case (Cons N Ns)
  let ?w = "put_node N ((nodes w N)\<lparr>node_list := None\<rparr>)
    (put_list l ((blists w l)\<lparr>linked := Ns\<rparr>) w)"
  have "List_remove_node w l N = (?w, Inr (Some N))"
    using Cons.prems by (simp add: List_remove_node_def)
  moreover have "for_nodes (\<lambda>w N. List_remove_node w l N) Ns ?w =
       (relinked l None (set Ns) ((blists ?w l)\<lparr>linked := []\<rparr>) ?w, Inr ())"
    by (rule Cons.IH) (use Cons.prems in auto)
  ultimately show ?case using Cons.prems(1) by (simp add: and_then_def relinked_step)
qed

lemma link_all:
  "distinct ys \<Longrightarrow> \<forall>a\<in>set ys. node_list (nodes w a) = None \<Longrightarrow>
     for_nodes (\<lambda>w N. List_insert_node w l N) ys w =
       (relinked l (Some l) (set ys) ((blists w l)\<lparr>linked := linked (blists w l) @ ys\<rparr>) w, Inr ())"
proof (induction ys arbitrary: w)
  case Nil
  then show ?case by simp
next
  case (Cons N Ns)
  let ?w = "put_node N ((nodes w N)\<lparr>node_list := Some l\<rparr>)
    (put_list l ((blists w l)\<lparr>linked := linked (blists w l) @ [N]\<rparr>) w)"
  have "List_insert_node w l N = (?w, Inr (Some N))"
    using Cons.prems by (simp add: List_insert_node_def detach_node_def and_then_def)
  moreover have "for_nodes (\<lambda>w N. List_insert_node w l N) Ns ?w =
       (relinked l (Some l) (set Ns)
          ((blists ?w l)\<lparr>linked := linked (blists ?w l) @ Ns\<rparr>) ?w, Inr ())"
    by (rule Cons.IH) (use Cons.prems in auto)
  ultimately show ?case using Cons.prems(1) by (simp add: and_then_def relinked_step)
qed

lemma list_ok_tree:
  "list_ok ns l L \<Longrightarrow> list_type L \<noteq> LIST \<Longrightarrow>
     avl (root L) \<and> sorted_wrt (node_less ns) (inorder (root L))
     \<and> set (inorder (root L)) = set (linked L) \<and> distinct (inorder (root L))"
  unfolding list_ok_def using sorted_nodes_distinct by blast

lemma blist_order_result:
  assumes ok: "world_ok w" and t: "list_type (blists w l) \<noteq> LIST"
  shows "blist_order w l =
    (put_list l ((blists w l)\<lparr>linked := inorder (root (blists w l))\<rparr>) w, Inr ())"
proof -
  let ?L = "blists w l"
  note okl = world_ok_list [OF ok, of l]
  note tree = list_ok_tree [OF okl t]
  show ?thesis
  proof (cases "root ?L = Tip")
    case True
    with tree have "linked ?L = []" by simp
    with True have "?L\<lparr>linked := inorder (root ?L)\<rparr> = ?L" by simp
    with True show ?thesis by (simp add: blist_order_def)
  next
    case False
    let ?S = "set (linked ?L)"
    have mem: "\<forall>a\<in>?S. node_list (nodes w a) = Some l"
      using list_ok_mem [OF okl] by simp
    let ?w1 = "relinked l None ?S (?L\<lparr>linked := []\<rparr>) w"
    have step1: "for_nodes (\<lambda>w N. List_remove_node w l N) (linked ?L) w = (?w1, Inr ())"
      by (rule unlink_all [OF list_ok_distinct [OF okl] refl mem])
    have step2: "for_nodes (\<lambda>w N. List_insert_node w l N) (inorder (root ?L)) ?w1 =
        (relinked l (Some l) (set (inorder (root ?L)))
           ((blists ?w1 l)\<lparr>linked := linked (blists ?w1 l) @ inorder (root ?L)\<rparr>) ?w1, Inr ())"
      by (rule link_all) (use tree in \<open>auto simp: relink_def\<close>)
    have "relink (Some l) ?S (relink None ?S (nodes w)) = nodes w"
      using mem by (auto simp: relink_def fun_eq_iff)
    then have "relinked l (Some l) ?S (?L\<lparr>linked := inorder (root ?L)\<rparr>) ?w1 =
        put_list l (?L\<lparr>linked := inorder (root ?L)\<rparr>) w"
      by (intro world.equality) (simp_all add: relinked_def put_list_def)
    with False step1 step2 tree show ?thesis
      by (simp add: blist_order_def order_from_inorder and_then_def)
  qed
qed

section \<open>clear\<close>

lemma clear_loop:
  "distinct xs \<Longrightarrow> linked (blists w l) = xs \<Longrightarrow> \<not> enabled (blists w l) \<Longrightarrow>
     \<forall>a\<in>set xs. node_list (nodes w a) = Some l \<Longrightarrow>
     \<exists>t. for_nodes (\<lambda>w N. blist_remove_node w l N) xs w =
       (relinked l None (set xs) ((blists w l)\<lparr>linked := [], root := t\<rparr>) w, Inr ())"
proof (induction xs arbitrary: w)
  case Nil
  then have "(blists w l)\<lparr>linked := [], root := root (blists w l)\<rparr> = blists w l" by simp
  then show ?case by (intro exI [of _ "root (blists w l)"]) simp
next
  case (Cons N Ns)
  let ?r = "if Ns = [] then Tip else reset_links N (root (blists w l))"
  let ?w = "put_node N ((nodes w N)\<lparr>node_list := None\<rparr>)
    (put_list l ((blists w l)\<lparr>linked := Ns, root := ?r\<rparr>) w)"
  have "blist_remove_node w l N = (?w, Inr (Some N))"
    using Cons.prems
    by (simp add: blist_remove_node_def List_remove_node_def and_then_def Let_def
        put_node_def put_list_def)
  moreover have "\<exists>t. for_nodes (\<lambda>w N. blist_remove_node w l N) Ns ?w =
       (relinked l None (set Ns) ((blists ?w l)\<lparr>linked := [], root := t\<rparr>) ?w, Inr ())"
    by (rule Cons.IH) (use Cons.prems in auto)
  ultimately show ?case using Cons.prems(1) by (auto simp: and_then_def relinked_step)
qed

lemma blist_clear_result:
  assumes ok: "world_ok w"
  shows "blist_clear w l =
    (relinked l None (set (linked (blists w l)))
       ((blists w l)\<lparr>linked := [], root := Tip, enabled := True\<rparr>) w, Inr ())"
proof -
  let ?L = "blists w l" and ?w = "put_list l ((blists w l)\<lparr>enabled := False\<rparr>) w"
  note okl = world_ok_list [OF ok, of l]
  have "\<exists>t. for_nodes (\<lambda>w N. blist_remove_node w l N) (linked ?L) ?w =
       (relinked l None (set (linked ?L)) ((blists ?w l)\<lparr>linked := [], root := t\<rparr>) ?w, Inr ())"
    by (rule clear_loop) (use list_ok_distinct [OF okl] list_ok_mem [OF okl] in auto)
  then show ?thesis
    by (auto simp: blist_clear_def and_then_def relinked_def put_list_def)
qed

lemma cleared_ok:
  assumes ok: "world_ok w"
  shows "world_ok (fst (blist_clear w l))"
  unfolding world_ok_def
proof
  fix k
  let ?ns = "relink None (set (linked (blists w l))) (nodes w)"
  note mem = list_ok_mem [OF world_ok_list [OF ok]]
  have ns: "node_list (?ns a) = Some k \<longleftrightarrow> k \<noteq> l \<and> node_list (nodes w a) = Some k" for a k
    using mem [of a l] by (auto simp: relink_def)
  show "list_ok (nodes (fst (blist_clear w l))) k (blists (fst (blist_clear w l)) k)"
  proof (cases "k = l")
    case True
    then show ?thesis using ns [of _ l]
      by (auto simp: blist_clear_result [OF ok] list_ok_def)
  next
    case False
    then have "list_ok ?ns k (blists w k)"
      using world_ok_list [OF ok, of k] mem ns
      by (subst list_ok_cong [of ?ns k "nodes w"]) (auto simp: relink_def)
    with False show ?thesis by (simp add: blist_clear_result [OF ok])
  qed
qed

section \<open>synchronize_all\<close>

text \<open>What stays the same while nodes travel between the list and the local list.\<close>

definition sync_state :: "nat \<Rightarrow> nat \<Rightarrow> nat set \<Rightarrow> (nat \<Rightarrow> int) \<Rightarrow> world \<Rightarrow> bool" where
  "sync_state l tmp S off w \<longleftrightarrow>
     world_ok w \<and> list_type (blists w l) = CLIST \<and> compare (blists w l) = TIME_NODES
     \<and> list_type (blists w tmp) = LIST \<and> (\<forall>a. node_official (nodes w a) = off a)
     \<and> set (linked (blists w l)) \<union> set (linked (blists w tmp)) = S"

lemma plain_insertion:
  assumes ok: "world_ok w" and N: "node_list (nodes w N) = None" and t: "list_type (blists w l) = LIST"
  shows "List_insert_node w l N =
      (put_node N ((nodes w N)\<lparr>node_list := Some l\<rparr>)
         (put_list l ((blists w l)\<lparr>linked := linked (blists w l) @ [N]\<rparr>) w), Inr (Some N))"
    and "world_ok (fst (List_insert_node w l N))"
proof -
  note okl = world_ok_list [OF ok, of l]
  show eq: "List_insert_node w l N =
      (put_node N ((nodes w N)\<lparr>node_list := Some l\<rparr>)
         (put_list l ((blists w l)\<lparr>linked := linked (blists w l) @ [N]\<rparr>) w), Inr (Some N))"
    using N by (simp add: List_insert_node_def detach_node_def and_then_def)
  have "N \<notin> set (linked (blists w l))" "enabled (blists w l)" "distinct (linked (blists w l))"
    using list_ok_mem [OF okl, of N] N okl by (simp_all add: list_ok_def)
  with t show "world_ok (fst (List_insert_node w l N))"
    unfolding eq fst_conv by (intro joined_ok [OF ok N]) auto
qed

lemma sync_out_step:
  assumes st: "sync_state l tmp S off w" and N: "N \<in> set (linked (blists w l))" and ne: "tmp \<noteq> l"
  shows "\<exists>w' r.
      and_then (list_remove_node w l N)
        (\<lambda>w' _. List_insert_node
           (put_node N ((nodes w' N)\<lparr>node_key := node_official (nodes w' N)\<rparr>) w') tmp N)
      = (w', Inr r) \<and> sync_state l tmp S off w' \<and> node_key (nodes w' N) = off N
      \<and> (\<forall>a. a \<noteq> N \<longrightarrow> nodes w' a = nodes w a)
      \<and> linked (blists w' l) = remove1 N (linked (blists w l))"
proof -
  from st have ok: "world_ok w" unfolding sync_state_def by blast
  have "node_list (nodes w N) = Some l" using list_ok_mem [OF world_ok_list [OF ok]] N by simp
  from list_remove_node_removed [OF ok this] obtain w1 where
    w1: "list_remove_node w l N = (w1, Inr (Some N))" "removed w N w1"
    by (metis prod.collapse)
  note r = w1(2) [unfolded removed_def]
  let ?w2 = "put_node N ((nodes w1 N)\<lparr>node_key := node_official (nodes w1 N)\<rparr>) w1"
  have N1: "node_list (nodes w1 N) = None" using r by simp
  have ok2: "world_ok ?w2" by (rule world_ok_put_detached) (use r N1 in auto)
  have t2: "list_type (blists ?w2 tmp) = LIST" using st r unfolding sync_state_def by simp
  have N2: "node_list (nodes ?w2 N) = None" using N1 by simp
  note ins = plain_insertion [OF ok2 N2 t2]
  define w3 where "w3 = fst (List_insert_node ?w2 tmp N)"
  have eq3: "List_insert_node ?w2 tmp N = (w3, Inr (Some N))" unfolding w3_def ins(1) by simp
  have rest: "set (linked (blists w3 l)) \<union> set (linked (blists w3 tmp)) = S"
  proof -
    have "set (linked (blists w l)) \<union> set (linked (blists w tmp)) = S"
      using st unfolding sync_state_def by blast
    moreover have "distinct (linked (blists w l))"
      using list_ok_distinct [OF world_ok_list [OF ok]] .
    moreover have "N \<notin> set (linked (blists w tmp))"
      using \<open>node_list (nodes w N) = Some l\<close> list_ok_mem [OF world_ok_list [OF ok], of N tmp] ne by simp
    ultimately show ?thesis
      unfolding w3_def ins(1) using r ne N by (auto simp: remove1_idem)
  qed
  have "sync_state l tmp S off w3"
    using st r ne rest ins(2) unfolding sync_state_def w3_def ins(1) by auto
  moreover have "node_key (nodes w3 N) = off N"
    using st r unfolding sync_state_def w3_def ins(1) by simp
  moreover have "\<forall>a. a \<noteq> N \<longrightarrow> nodes w3 a = nodes w a"
    using r unfolding w3_def ins(1) by simp
  moreover have "linked (blists w3 l) = remove1 N (linked (blists w l))"
    using r ne unfolding w3_def ins(1) by simp
  ultimately show ?thesis
    unfolding w1(1) and_then_def using eq3 by (intro exI [of _ w3] exI [of _ "Some N"]) simp
qed

lemma sync_out:
  assumes ne: "tmp \<noteq> l"
  shows "sync_state l tmp S off w \<Longrightarrow> distinct Ns \<Longrightarrow> set Ns \<subseteq> set (linked (blists w l)) \<Longrightarrow>
     \<forall>a\<in>S - set Ns. node_key (nodes w a) = off a \<Longrightarrow>
     \<exists>w'. for_nodes (\<lambda>w N.
            if node_key (nodes w N) \<noteq> node_official (nodes w N) then
              and_then (list_remove_node w l N)
                (\<lambda>w' _.
                   List_insert_node
                     (put_node N ((nodes w' N)\<lparr>node_key := node_official (nodes w' N)\<rparr>) w') tmp N)
            else (w, Inr None)) Ns w = (w', Inr ())
       \<and> sync_state l tmp S off w' \<and> (\<forall>a\<in>S. node_key (nodes w' a) = off a)"
proof (induction Ns arbitrary: w)
  case Nil
  then show ?case by simp
next
  case (Cons N Ns)
  have off: "node_official (nodes w N) = off N" using Cons.prems(1) by (simp add: sync_state_def)
  show ?case
  proof (cases "node_key (nodes w N) = off N")
    case True
    with Cons.prems have "\<forall>a\<in>S - set Ns. node_key (nodes w a) = off a" by auto
    with Cons.IH [OF Cons.prems(1)] Cons.prems(2,3) True off show ?thesis by (simp add: and_then_def)
  next
    case False
    from sync_out_step [OF Cons.prems(1) _ ne, of N] Cons.prems(3) obtain w1 r where
      w1: "and_then (list_remove_node w l N)
        (\<lambda>w' _. List_insert_node
           (put_node N ((nodes w' N)\<lparr>node_key := node_official (nodes w' N)\<rparr>) w') tmp N)
      = (w1, Inr r)" "sync_state l tmp S off w1" "node_key (nodes w1 N) = off N"
      "\<forall>a. a \<noteq> N \<longrightarrow> nodes w1 a = nodes w a"
      "linked (blists w1 l) = remove1 N (linked (blists w l))" by auto
    have sub: "set Ns \<subseteq> set (linked (blists w1 l))"
    proof
      fix x
      assume x: "x \<in> set Ns"
      with Cons.prems(2) have "x \<noteq> N" by auto
      with x Cons.prems(3) show "x \<in> set (linked (blists w1 l))" unfolding w1(5) by auto
    qed
    have rest: "\<forall>a\<in>S - set Ns. node_key (nodes w1 a) = off a"
    proof
      fix a
      assume "a \<in> S - set Ns"
      with Cons.prems(4) w1(3,4) show "node_key (nodes w1 a) = off a"
        by (cases "a = N") auto
    qed
    from Cons.IH [OF w1(2) _ sub rest] Cons.prems(2) obtain w2 where
      w2: "for_nodes (\<lambda>w N.
            if node_key (nodes w N) \<noteq> node_official (nodes w N) then
              and_then (list_remove_node w l N)
                (\<lambda>w' _.
                   List_insert_node
                     (put_node N ((nodes w' N)\<lparr>node_key := node_official (nodes w' N)\<rparr>) w') tmp N)
            else (w, Inr None)) Ns w1 = (w2, Inr ())"
      "sync_state l tmp S off w2" "\<forall>a\<in>S. node_key (nodes w2 a) = off a" by auto
    have "node_key (nodes w N) \<noteq> node_official (nodes w N)" using False off by simp
    then show ?thesis
      using w2(2,3) by (intro exI [of _ w2]) (simp add: w1(1) w2(1) and_then_def [of "(w1, _)"])
  qed
qed

lemma sync_back_step:
  assumes st: "sync_state l tmp S off w" and N: "N \<in> set (linked (blists w tmp))" and ne: "tmp \<noteq> l"
    and key: "\<forall>a\<in>S. node_key (nodes w a) = off a"
  shows "\<exists>w'.
      and_then (List_remove_node w tmp N) (\<lambda>w'' _. list_insert_node w'' l N) = (w', Inr (Some N))
      \<and> sync_state l tmp S off w' \<and> (\<forall>a\<in>S. node_key (nodes w' a) = off a)
      \<and> linked (blists w' tmp) = remove1 N (linked (blists w tmp))"
proof -
  from st have ok: "world_ok w" and t: "list_type (blists w tmp) = LIST" "list_type (blists w l) = CLIST"
    "compare (blists w l) = TIME_NODES" "\<forall>a. node_official (nodes w a) = off a"
    unfolding sync_state_def by blast+
  have Nl: "node_list (nodes w N) = Some tmp" using list_ok_mem [OF world_ok_list [OF ok]] N by simp
  from List_remove_node_removed [OF ok Nl t(1)] obtain w1 where
    w1: "List_remove_node w tmp N = (w1, Inr (Some N))" "removed w N w1"
    by (metis prod.collapse)
  note r = w1(2) [unfolded removed_def]
  have t1: "list_type (blists w1 l) = CLIST" using r t by simp
  from clist_insertion [OF _ t1, of N] r obtain w2 where
    w2: "clist_insert_node w1 l N = (w2, Inr (Some N))" "inserted w1 l N w2"
      "linked (blists w2 l) = insert_by_key (nodes w2) N (remove1 N (linked (blists w1 l)))" by blast
  note i = w2(2) [unfolded inserted_def]
  have gone: "N \<notin> set (linked (blists w1 k))" for k
    using list_ok_mem [OF world_ok_list, of w1 N k] r by auto
  have tmp: "linked (blists w2 tmp) = remove1 N (linked (blists w tmp))"
  proof -
    have "linked (blists w2 tmp) = remove1 N (linked (blists w1 tmp))" using i ne by simp
    also have "\<dots> = linked (blists w1 tmp)" by (rule remove1_idem [OF gone])
    also have "\<dots> = remove1 N (linked (blists w tmp))" using r by simp
    finally show ?thesis .
  qed
  have l: "set (linked (blists w2 l)) = insert N (set (linked (blists w l)))"
  proof -
    have "N \<notin> set (linked (blists w l))"
      using Nl list_ok_mem [OF world_ok_list [OF ok], of N l] ne by simp
    moreover have "remove1 N (linked (blists w1 l)) = linked (blists w1 l)" by (rule remove1_idem [OF gone])
    ultimately show ?thesis using w2(3) r by (simp add: remove1_idem)
  qed
  have off: "node_official (nodes w2 a) = off a" for a
    using i r t(4) by (cases "a = N") simp_all
  have "sync_state l tmp S off w2"
    unfolding sync_state_def
  proof (intro conjI allI)
    have "set (linked (blists w l)) \<union> set (linked (blists w tmp)) = S"
      using st unfolding sync_state_def by blast
    moreover have "set (remove1 N (linked (blists w tmp))) = set (linked (blists w tmp)) - {N}"
      using list_ok_distinct [OF world_ok_list [OF ok]] by (rule set_remove1_eq)
    ultimately show "set (linked (blists w2 l)) \<union> set (linked (blists w2 tmp)) = S"
      unfolding tmp l using N by auto
  qed (use i r t off in auto)
  moreover have "\<forall>a\<in>S. node_key (nodes w2 a) = off a"
  proof
    fix a
    assume "a \<in> S"
    with key i r t show "node_key (nodes w2 a) = off a"
      by (cases "a = N") (simp_all add: new_key_def)
  qed
  moreover have "and_then (List_remove_node w tmp N) (\<lambda>w'' _. list_insert_node w'' l N) = (w2, Inr (Some N))"
    unfolding w1(1) and_then_def using w2(1) t1 by (simp add: list_insert_node_def)
  ultimately show ?thesis using tmp by blast
qed

lemma sync_back:
  assumes ne: "tmp \<noteq> l"
  shows "sync_state l tmp S off w \<Longrightarrow> linked (blists w tmp) = Ns \<Longrightarrow>
     \<forall>a\<in>S. node_key (nodes w a) = off a \<Longrightarrow>
     \<exists>w'. for_nodes (\<lambda>w N. and_then (List_remove_node w tmp N) (\<lambda>w'' _. list_insert_node w'' l N)) Ns w
           = (w', Inr ()) \<and> sync_state l tmp S off w' \<and> (\<forall>a\<in>S. node_key (nodes w' a) = off a)
       \<and> linked (blists w' tmp) = []"
proof (induction Ns arbitrary: w)
  case Nil
  then show ?case by simp
next
  case (Cons N Ns)
  then have "N \<in> set (linked (blists w tmp))" by simp
  from sync_back_step [OF Cons.prems(1) this ne Cons.prems(3)] Cons.prems(2) obtain w1 where
    w1: "and_then (List_remove_node w tmp N) (\<lambda>w'' _. list_insert_node w'' l N) = (w1, Inr (Some N))"
      "sync_state l tmp S off w1" "\<forall>a\<in>S. node_key (nodes w1 a) = off a"
      "linked (blists w1 tmp) = Ns" by auto
  from Cons.IH [OF w1(2,4,3)] show ?case by (simp add: w1(1) and_then_def [of "(w1, _)"])
qed

lemma synchronize_all_ok:
  assumes ok: "world_ok w" and l: "list_type (blists w l) = CLIST" "compare (blists w l) = TIME_NODES"
    and tmp: "tmp \<noteq> l" "list_type (blists w tmp) = LIST" "linked (blists w tmp) = []"
  shows "\<exists>w'. synchronize_all w l tmp = (w', Inr ()) \<and> world_ok w' \<and> linked (blists w' tmp) = []
      \<and> set (linked (blists w' l)) = set (linked (blists w l))
      \<and> (\<forall>a. node_official (nodes w' a) = node_official (nodes w a))
      \<and> (\<forall>a\<in>set (linked (blists w l)). node_key (nodes w' a) = node_official (nodes w a))"
proof -
  let ?S = "set (linked (blists w l))" and ?off = "\<lambda>a. node_official (nodes w a)"
  have st: "sync_state l tmp ?S ?off w" unfolding sync_state_def using assms by simp
  from sync_out [OF tmp(1) st list_ok_distinct [OF world_ok_list [OF ok]]] obtain w1 where
    w1: "for_nodes (\<lambda>w N.
            if node_key (nodes w N) \<noteq> node_official (nodes w N) then
              and_then (list_remove_node w l N)
                (\<lambda>w' _.
                   List_insert_node
                     (put_node N ((nodes w' N)\<lparr>node_key := node_official (nodes w' N)\<rparr>) w') tmp N)
            else (w, Inr None)) (linked (blists w l)) w = (w1, Inr ())"
      "sync_state l tmp ?S ?off w1" "\<forall>a\<in>?S. node_key (nodes w1 a) = ?off a" by auto
  from sync_back [OF tmp(1) w1(2) refl w1(3)] obtain w2 where
    w2: "for_nodes (\<lambda>w N. and_then (List_remove_node w tmp N) (\<lambda>w'' _. list_insert_node w'' l N))
          (linked (blists w1 tmp)) w1 = (w2, Inr ())"
      "sync_state l tmp ?S ?off w2" "\<forall>a\<in>?S. node_key (nodes w2 a) = ?off a"
      "linked (blists w2 tmp) = []" by blast
  have "synchronize_all w l tmp = (w2, Inr ())"
    unfolding synchronize_all_def w1(1) by (simp add: and_then_def [of "(w1, _)"] w2(1))
  then show ?thesis using w2(2,3,4) unfolding sync_state_def by auto
qed

section \<open>Searches\<close>

lemma hd_opt_or:
  "hd_opt (if ds = [] then a # ys else ds @ a # ys) =
     (case hd_opt ds of None \<Rightarrow> Some a | Some b \<Rightarrow> Some b)"
  by (cases ds) simp_all

context comparer
begin

lemma find_hit:
  "in_order cmp (inorder t) \<Longrightarrow> \<forall>a\<in>set (inorder t). has_list a \<Longrightarrow> e \<in> set (inorder t) \<Longrightarrow>
     cmp x e = 0 \<Longrightarrow> find has_list cmp x t = Some e"
proof (induction t)
  case (Node l a i r)
  consider "e = a" | "e \<in> set (inorder l)" | "e \<in> set (inorder r)"
    using Node.prems(3) by auto
  then show ?case
  proof cases
    case 1
    with Node.prems show ?thesis by (simp add: Let_def)
  next
    case 2
    with Node.prems have "cmp e a < 0" by (auto simp: in_order_def sorted_wrt_append)
    with Node.prems(4) have "cmp x a < 0" using cmp_le_less_trans [of x e a] by simp
    with 2 Node show ?thesis by (simp add: Let_def in_order_def sorted_wrt_append)
  next
    case 3
    with Node.prems have "cmp a e < 0" by (auto simp: in_order_def sorted_wrt_append)
    with Node.prems(4) have "0 < cmp x a"
      using cmp_less_le_trans [of a e x] cmp_zero_sym [of x e] cmp_anti [of a x] by simp
    with 3 Node show ?thesis by (simp add: Let_def in_order_def sorted_wrt_append)
  qed
qed simp

text \<open>The nodes around a node in the tree.\<close>

lemma cut_before:
  assumes "in_order cmp (xs @ a # ys)"
  shows "cmp x a \<le> 0 \<Longrightarrow> takeWhile (\<lambda>b. 0 < cmp x b) (xs @ a # ys) = takeWhile (\<lambda>b. 0 < cmp x b) xs"
    and "0 < cmp x a \<Longrightarrow> takeWhile (\<lambda>b. 0 < cmp x b) (xs @ a # ys) =
      xs @ a # takeWhile (\<lambda>b. 0 < cmp x b) ys"
proof -
  assume "0 < cmp x a"
  with assms have "\<forall>b\<in>set xs. 0 < cmp x b"
    by (auto simp: in_order_def sorted_wrt_append intro: cmp_gt_less)
  with \<open>0 < cmp x a\<close> show "takeWhile (\<lambda>b. 0 < cmp x b) (xs @ a # ys) =
      xs @ a # takeWhile (\<lambda>b. 0 < cmp x b) ys"
    by (simp add: takeWhile_append)
qed (auto simp: takeWhile_append takeWhile_eq_all_conv [THEN iffD2])

lemma find_latest_before_loop_eq:
  "in_order cmp (inorder t) \<Longrightarrow> \<forall>a\<in>set (inorder t). cmp x a = 0 \<longrightarrow> a = x \<Longrightarrow>
     find_latest_before_loop cmp x t le =
       (case last_opt (takeWhile (\<lambda>b. 0 < cmp x b) (inorder t)) of None \<Rightarrow> le | Some b \<Rightarrow> Some b)"
proof (induction t arbitrary: le)
  case (Node l a i r)
  have ord: "in_order cmp (inorder l)" "in_order cmp (inorder r)" "in_order cmp (inorder l @ a # inorder r)"
    using Node.prems(1) by (auto simp: in_order_def sorted_wrt_append)
  show ?case
  proof (cases "0 < cmp x a")
    case True
    with Node ord cut_before(2) [OF ord(3), of x] show ?thesis
      by (auto simp: Let_def split: option.splits)
  next
    case False
    with Node ord cut_before(1) [OF ord(3), of x] show ?thesis
      by (auto simp: Let_def split: option.splits)
  qed
qed simp

lemma find_latest_before_eq:
  "in_order cmp (inorder t) \<Longrightarrow> \<forall>a\<in>set (inorder t). cmp x a = 0 \<longrightarrow> a = x \<Longrightarrow>
     find_latest_before cmp x t = last_opt (takeWhile (\<lambda>b. 0 < cmp x b) (inorder t))"
  by (simp only: find_latest_before_def find_latest_before_loop_eq case_option_id)

lemma cut_after:
  assumes "in_order cmp (xs @ a # ys)"
  shows "cmp x a < 0 \<Longrightarrow> hd_opt (dropWhile (\<lambda>b. \<not> cmp x b < 0) (xs @ a # ys)) =
      (case hd_opt (dropWhile (\<lambda>b. \<not> cmp x b < 0) xs) of None \<Rightarrow> Some a | Some b \<Rightarrow> Some b)"
    and "\<not> cmp x a < 0 \<Longrightarrow> dropWhile (\<lambda>b. \<not> cmp x b < 0) (xs @ a # ys) =
      dropWhile (\<lambda>b. \<not> cmp x b < 0) ys"
proof -
  assume "\<not> cmp x a < 0"
  have "\<not> cmp x b < 0" if "b \<in> set xs" for b
  proof
    assume "cmp x b < 0"
    moreover have "cmp b a < 0" using assms that by (auto simp: in_order_def sorted_wrt_append)
    ultimately show False using cmp_less_trans [of x b a] \<open>\<not> cmp x a < 0\<close> by simp
  qed
  with \<open>\<not> cmp x a < 0\<close> show "dropWhile (\<lambda>b. \<not> cmp x b < 0) (xs @ a # ys) =
      dropWhile (\<lambda>b. \<not> cmp x b < 0) ys"
    by (simp add: dropWhile_append)
next
  assume "cmp x a < 0"
  let ?D = "dropWhile (\<lambda>b. \<not> cmp x b < 0) xs"
  have "dropWhile (\<lambda>b. \<not> cmp x b < 0) (xs @ a # ys) = (if ?D = [] then a # ys else ?D @ a # ys)"
    using \<open>cmp x a < 0\<close> by (auto simp: dropWhile_append)
  then show "hd_opt (dropWhile (\<lambda>b. \<not> cmp x b < 0) (xs @ a # ys)) =
      (case hd_opt ?D of None \<Rightarrow> Some a | Some b \<Rightarrow> Some b)"
    by (simp only: hd_opt_or)
qed

lemma find_earliest_after_loop_eq:
  "in_order cmp (inorder t) \<Longrightarrow> \<forall>a\<in>set (inorder t). has_list a \<and> (cmp x a = 0 \<longrightarrow> a = x) \<Longrightarrow>
     find_earliest_after_loop has_list cmp x t le =
       (case hd_opt (dropWhile (\<lambda>b. \<not> cmp x b < 0) (inorder t)) of None \<Rightarrow> le | Some b \<Rightarrow> Some b)"
proof (induction t arbitrary: le)
  case (Node l a i r)
  have ord: "in_order cmp (inorder l)" "in_order cmp (inorder r)" "in_order cmp (inorder l @ a # inorder r)"
    using Node.prems(1) by (auto simp: in_order_def sorted_wrt_append)
  show ?case
  proof (cases "cmp x a < 0")
    case True
    with Node ord cut_after(1) [OF ord(3), of x] show ?thesis
      by (auto simp: Let_def split: option.splits)
  next
    case False
    with Node ord cut_after(2) [OF ord(3), of x] show ?thesis
      by (auto simp: Let_def split: option.splits)
  qed
qed simp

lemma find_earliest_after_eq:
  "in_order cmp (inorder t) \<Longrightarrow> \<forall>a\<in>set (inorder t). has_list a \<and> (cmp x a = 0 \<longrightarrow> a = x) \<Longrightarrow>
     find_earliest_after has_list cmp x t = hd_opt (dropWhile (\<lambda>b. \<not> cmp x b < 0) (inorder t))"
  by (simp only: find_earliest_after_def find_earliest_after_loop_eq case_option_id)

lemma in_order_neighbours:
  assumes "in_order cmp xs" and "x \<in> set xs"
  shows "takeWhile (\<lambda>b. 0 < cmp x b) xs = takeWhile (\<lambda>b. b \<noteq> x) xs"
    and "hd_opt (dropWhile (\<lambda>b. \<not> cmp x b < 0) xs) = next_in x xs"
    and "\<forall>a\<in>set xs. cmp x a = 0 \<longrightarrow> a = x"
proof -
  have t: "takeWhile (\<lambda>b. 0 < cmp x b) xs = takeWhile (\<lambda>b. b \<noteq> x) xs
     \<and> hd_opt (dropWhile (\<lambda>b. \<not> cmp x b < 0) xs) = next_in x xs
     \<and> (\<forall>a\<in>set xs. cmp x a = 0 \<longrightarrow> a = x)"
    using assms
  proof (induction xs)
    case (Cons a xs)
    show ?case
    proof (cases "a = x")
      case True
      with Cons.prems(1) have "\<forall>b\<in>set xs. cmp x b < 0" by (simp add: in_order_def)
      with True show ?thesis by (cases xs) (auto simp: cmp_refl)
    next
      case False
      with Cons.prems have "cmp a x < 0" "x \<in> set xs" by (auto simp: in_order_def)
      with Cons False show ?thesis
        using cmp_anti [of a x] by (auto simp: in_order_def)
    qed
  qed simp
  from t show "takeWhile (\<lambda>b. 0 < cmp x b) xs = takeWhile (\<lambda>b. b \<noteq> x) xs" by blast
  from t show "hd_opt (dropWhile (\<lambda>b. \<not> cmp x b < 0) xs) = next_in x xs" by blast
  from t show "\<forall>a\<in>set xs. cmp x a = 0 \<longrightarrow> a = x" by blast
qed

end

lemma find_miss: "\<forall>a\<in>set (inorder t). cmp x a \<noteq> 0 \<Longrightarrow> find has_list cmp x t = None"
  by (induction t) (auto simp: Let_def)

text \<open>The tree of a list in terms of the interface.\<close>

lemma list_ok_in_order:
  assumes ok: "list_ok ns l L" and t: "list_type L \<noteq> LIST"
  shows "in_order (node_cmp (compare L) ns) (inorder (root L))"
    and "\<forall>a\<in>set (inorder (root L)). attached ns a"
proof -
  note tree = list_ok_tree [OF ok t]
  show att: "\<forall>a\<in>set (inorder (root L)). attached ns a"
    using tree list_ok_attached [OF ok] by simp
  show "in_order (node_cmp (compare L) ns) (inorder (root L))"
    using tree in_order_attached [OF att] by blast
qed

lemma neighbours:
  assumes ok: "world_ok w" and t: "list_type (blists w l) \<noteq> LIST" and N: "node_list (nodes w N) = Some l"
  shows "blist_find_latest_before w l N = previous_in N (inorder (root (blists w l)))"
    and "blist_find_earliest_after w l N = next_in N (inorder (root (blists w l)))"
    and "blist_find w l N = Some N"
proof -
  note okl = world_ok_list [OF ok, of l]
  note ord = list_ok_in_order [OF okl t]
  have x: "N \<in> set (inorder (root (blists w l)))"
    using list_ok_tree [OF okl t] list_ok_mem [OF okl] N by simp
  note nb = node_order.in_order_neighbours [OF ord(1) x]
  show "blist_find_latest_before w l N = previous_in N (inorder (root (blists w l)))"
    unfolding blist_find_latest_before_def previous_in_def
    using node_order.find_latest_before_eq [OF ord(1) nb(3)] nb(1) by simp
  show "blist_find_earliest_after w l N = next_in N (inorder (root (blists w l)))"
    unfolding blist_find_earliest_after_def
    using node_order.find_earliest_after_eq [OF ord(1), of "attached (nodes w)" N] ord(2) nb(2,3) by simp
  show "blist_find w l N = Some N"
    unfolding blist_find_def
    by (rule node_order.find_hit [OF ord x]) (simp add: node_order.cmp_refl)
qed

lemma detached_search:
  assumes ok: "world_ok w" and t: "list_type (blists w l) \<noteq> LIST" and N: "node_list (nodes w N) = None"
  shows "blist_find_latest_before w l N =
      last_opt (takeWhile (\<lambda>a. node_key (nodes w a) \<le> node_key (nodes w N)) (inorder (root (blists w l))))"
    and "blist_find_earliest_after w l N =
      hd_opt (dropWhile (\<lambda>a. node_key (nodes w a) \<le> node_key (nodes w N)) (inorder (root (blists w l))))"
    and "blist_find w l N = None"
proof -
  let ?L = "blists w l" and ?cmp = "node_cmp (compare (blists w l)) (nodes w)"
  note okl = world_ok_list [OF ok, of l]
  note ord = list_ok_in_order [OF okl t]
  have det: "\<not> attached (nodes w) N" using N by (simp add: attached_def has_a_list_def)
  have ne: "\<forall>a\<in>set (inorder (root ?L)). ?cmp N a \<noteq> 0"
    using ord(2) node_cmp_detached(2) [OF _ det] by blast
  have pos: "0 < ?cmp N a \<longleftrightarrow> node_key (nodes w a) \<le> node_key (nodes w N)"
    if "a \<in> set (inorder (root ?L))" for a
    using ord(2) node_cmp_detached(1) [OF _ det] that by blast
  have neg: "\<not> ?cmp N a < 0 \<longleftrightarrow> node_key (nodes w a) \<le> node_key (nodes w N)"
    if "a \<in> set (inorder (root ?L))" for a
    using pos [OF that] ne that by (metis linorder_neqE not_less_iff_gr_or_eq)
  have cut: "takeWhile (\<lambda>a. 0 < ?cmp N a) (inorder (root ?L)) =
      takeWhile (\<lambda>a. node_key (nodes w a) \<le> node_key (nodes w N)) (inorder (root ?L))"
    "dropWhile (\<lambda>a. \<not> ?cmp N a < 0) (inorder (root ?L)) =
      dropWhile (\<lambda>a. node_key (nodes w a) \<le> node_key (nodes w N)) (inorder (root ?L))"
    using pos neg by (auto intro!: takeWhile_cong dropWhile_cong)
  show "blist_find_latest_before w l N =
      last_opt (takeWhile (\<lambda>a. node_key (nodes w a) \<le> node_key (nodes w N)) (inorder (root (blists w l))))"
    unfolding blist_find_latest_before_def cut(1) [symmetric]
    using node_order.find_latest_before_eq [OF ord(1), of N] ne by blast
  show "blist_find_earliest_after w l N =
      hd_opt (dropWhile (\<lambda>a. node_key (nodes w a) \<le> node_key (nodes w N)) (inorder (root (blists w l))))"
    unfolding blist_find_earliest_after_def cut(2) [symmetric]
    using node_order.find_earliest_after_eq [OF ord(1), of "attached (nodes w)" N] ne ord(2) by blast
  show "blist_find w l N = None"
    unfolding blist_find_def using ne by (rule find_miss)
qed

lemma find_int_miss:
  assumes ok: "world_ok w" and t: "list_type (blists w l) \<noteq> LIST"
  shows "blist_find_int w l I = None"
proof -
  have att: "\<forall>a\<in>set (inorder (root (blists w l))). has_a_list (nodes w a)"
    using list_ok_in_order(2) [OF world_ok_list [OF ok] t] by (simp add: attached_def)
  have "find (attached (nodes w)) (\<lambda>_ a. compare_int_nodes
        \<lparr>node_key = I, node_official = 0, node_secondary = 0, node_list = None\<rparr> (nodes w a)) 0
        (root (blists w l)) = None"
    by (rule find_miss) (use att in \<open>auto simp: compare_int_nodes_def has_a_list_def\<close>)
  then show ?thesis
    by (simp add: blist_find_int_def Let_def split: compare_function.splits)
qed

section \<open>Depth of the paths\<close>

text \<open>\<open>MAXDEPTH\<close> entries are enough for every path while a list has fewer nodes than the smallest
  AVL tree of that height.\<close>

lemma insert_search_length:
  "insert_search has_list cmp x t path le = Inr (path', le') \<Longrightarrow> length path' \<le> length path + height t"
proof (induction t arbitrary: path le)
  case (Node l a i r)
  show ?case
  proof (cases "cmp x a < 0")
    case True
    with Node.prems have "insert_search has_list cmp x l ((LEFT_DIR, a, i, r) # path) le = Inr (path', le')"
      by (auto simp: Let_def split: if_splits)
    from Node.IH(1) [OF this] show ?thesis by simp
  next
    case False
    with Node.prems have "insert_search has_list cmp x r ((RIGHT_DIR, a, i, l) # path) (Some a) = Inr (path', le')"
      by (auto simp: Let_def split: if_splits)
    from Node.IH(2) [OF this] show ?thesis by simp
  qed
qed simp

definition MAXDEPTH :: nat where
  "MAXDEPTH = 40"

definition min_pair :: "nat \<times> nat \<Rightarrow> nat \<times> nat" where
  "min_pair p = (snd p, snd p + fst p + 1)"

lemma min_pair_pair: "min_pair (a, b) = (b, b + a + 1)"
  by (simp add: min_pair_def)

lemma min_pair_iter: "(min_pair ^^ n) (0, 1) = (min_nodes n, min_nodes (Suc n))"
  by (induction n) (simp_all add: min_pair_def)

lemma funpow_numeral_step: "(f ^^ numeral k) p = (f ^^ pred_numeral k) (f p)"
  by (simp only: numeral_eq_Suc funpow_Suc_right comp_apply)

lemma min_nodes_40: "min_nodes 40 = 267914295"
proof -
  have "(min_pair ^^ 40) (0, 1) = (267914295, 433494436)"
    by (simp only: funpow_numeral_step min_pair_pair pred_numeral_simps BitM.simps funpow_0
        add_0_right arith_simps numeral_One [symmetric] arith_special)
  then show ?thesis unfolding min_pair_iter by simp
qed

lemma height_bound:
  assumes "avl t" and "length (inorder t) < min_nodes n"
  shows "height t < n"
proof (rule ccontr)
  assume "\<not> height t < n"
  then have "min_nodes n \<le> min_nodes (height t)" by (intro min_nodes_mono) simp
  with avl_min_nodes [OF assms(1)] assms(2) show False by linarith
qed

end
