(* ===== verification/ListProperties.thy ===== *)
theory ListProperties
  imports BListOps
begin

text \<open>
  The properties of the balanced lists: the contracts of insertion, removal, reordering,
  synchronization and search, and the bound on the depth of the trees. Each one is followed by
  its instance on a small world (\<open>sample\<close>) or tree.
\<close>

section \<open>A sample world\<close>

definition plain_node :: "int \<Rightarrow> int \<Rightarrow> int \<Rightarrow> nat option \<Rightarrow> list_node" where
  "plain_node k official s l =
     \<lparr>node_key = k, node_official = official, node_secondary = s, node_list = l\<rparr>"

definition sample :: world where
  "sample =
     \<lparr>nodes = (\<lambda>_. plain_node 0 0 0 None)
        (1 := plain_node 10 10 0 (Some 0), 2 := plain_node 10 5 1 (Some 0), 3 := plain_node 0 10 0 None,
         4 := plain_node 7 7 0 (Some 1)),
      blists = (\<lambda>_. \<lparr>list_type = LIST, compare = INT_NODES, root = Tip, linked = [], enabled = True\<rparr>)
        (0 := \<lparr>list_type = CLIST, compare = TIME_NODES,
               root = Node Tip 1 (Heavy RIGHT_DIR) (Node Tip 2 BALANCED Tip), linked = [1, 2],
               enabled = True\<rparr>,
         1 := \<lparr>list_type = BLIST, compare = INT_NODES, root = Node Tip 4 BALANCED Tip, linked = [4],
               enabled = True\<rparr>)\<rparr>"

lemma sample_sel [simp]:
  "blists sample 0 = \<lparr>list_type = CLIST, compare = TIME_NODES,
     root = Node Tip 1 (Heavy RIGHT_DIR) (Node Tip 2 BALANCED Tip), linked = [1, 2], enabled = True\<rparr>"
  "blists sample (Suc 0) = \<lparr>list_type = BLIST, compare = INT_NODES, root = Node Tip 4 BALANCED Tip,
     linked = [4], enabled = True\<rparr>"
  "blists sample 2 = \<lparr>list_type = LIST, compare = INT_NODES, root = Tip, linked = [], enabled = True\<rparr>"
  "nodes sample (Suc 0) = plain_node 10 10 0 (Some 0)" "nodes sample 2 = plain_node 10 5 1 (Some 0)"
  "nodes sample 3 = plain_node 0 10 0 None" "nodes sample 4 = plain_node 7 7 0 (Some (Suc 0))"
  by (simp_all add: sample_def)

lemma sample_ok: "world_ok sample"
  by (auto simp: world_ok_def list_ok_def sample_def plain_node_def node_less_def)

section \<open>Insertion\<close>

text \<open>C7: \<open>clist::insert_node\<close> on lists that satisfy the invariant returns the node, takes it off
  the list it was in, gives it the key of its class and puts it behind all nodes of the list that
  are not later: the list stays sorted and nodes with equal times keep their order of insertion.\<close>

theorem clist_insert_node_correct:
  assumes "world_ok w" and "list_type (blists w l) = CLIST"
  shows "\<exists>w'. clist_insert_node w l N = (w', Inr (Some N)) \<and> inserted w l N w'
           \<and> linked (blists w' l) = insert_by_key (nodes w') N (remove1 N (linked (blists w l)))"
  using assms by (rule clist_insertion)

lemma clist_insert_node_witness:
  "\<exists>w'. clist_insert_node sample 0 4 = (w', Inr (Some 4)) \<and> inserted sample 0 4 w'
     \<and> linked (blists w' 0) = insert_by_key (nodes w') 4 [1, 2]"
  using clist_insert_node_correct [OF sample_ok, of 0 4] by simp

text \<open>C10: \<open>blist::remove_node\<close> on a node of the list returns it, unlinks it from the linked list
  and from the tree, leaves every other node and list alone and keeps the invariant.\<close>

theorem blist_remove_node_correct:
  assumes "world_ok w" and "node_list (nodes w N) = Some l" and "list_type (blists w l) \<noteq> LIST"
  shows "\<exists>w'. blist_remove_node w l N = (w', Inr (Some N)) \<and> removed w N w'"
  using blist_remove_node_removed [OF assms] by (metis prod.collapse)

lemma blist_remove_node_witness: "\<exists>w'. blist_remove_node sample 0 1 = (w', Inr (Some 1)) \<and> removed sample 1 w'"
  using blist_remove_node_correct [OF sample_ok, of 1 0] by (simp add: plain_node_def)

text \<open>C14: the tree algorithm of \<open>blist::insert_binary_node\<close>, for any comparison function that
  satisfies the interface: on a balanced ordered tree without an equal node it yields a balanced
  ordered tree with the node at its place, and reports the greatest smaller node.\<close>

theorem avl_insert_correct:
  assumes "comparer cmp" and "avl t" and "in_order cmp (inorder t)"
    and "\<forall>a\<in>set (inorder t). has_list a \<and> cmp x a \<noteq> 0"
  shows "\<exists>t'. insert_binary_node has_list cmp x t = Inr (t', latest_smaller cmp x (inorder t))
           \<and> avl t' \<and> inorder t' = ins_sorted cmp x (inorder t) \<and> in_order cmp (inorder t')"
  using comparer.insert_binary_node_ok [OF assms] comparer.ins_sorted_in_order [OF assms(1,3), of x]
    assms(4) by metis

lemma avl_insert_witness:
  "\<exists>t'. insert_binary_node (\<lambda>_. True) compare_bstringnodes ''c''
       (Node Tip ''a'' (Heavy RIGHT_DIR) (Node Tip ''b'' BALANCED Tip)) = Inr (t', Some ''b'')
     \<and> avl t' \<and> inorder t' = [''a'', ''b'', ''c''] \<and> in_order compare_bstringnodes (inorder t')"
  using avl_insert_correct [OF bstringnodes.comparer_axioms,
      of "Node Tip ''a'' (Heavy RIGHT_DIR) (Node Tip ''b'' BALANCED Tip)" "\<lambda>_. True" "''c''"]
  by (simp add: in_order_def compare_bstringnodes_def latest_smaller_def ins_sorted_def)

text \<open>C15: the tree algorithm of \<open>blist::remove_node\<close>, for any comparison function that satisfies
  the interface: it returns the node, the tree stays balanced and loses exactly that node.\<close>

theorem avl_remove_correct:
  assumes "comparer cmp" and "avl t" and "in_order cmp (inorder t)"
    and "\<forall>a\<in>set (inorder t). has_list a" and "x \<in> set (inorder t)"
  shows "\<exists>t'. remove_node has_list cmp x t = Inr (t', Some x) \<and> avl t'
           \<and> inorder t' = remove1 x (inorder t)"
  using assms by (rule comparer.remove_node_ok)

lemma avl_remove_witness:
  "\<exists>t'. remove_node (\<lambda>_. True) compare_bstringnodes ''a''
       (Node (Node Tip ''a'' BALANCED Tip) ''b'' (Heavy RIGHT_DIR)
         (Node Tip ''c'' (Heavy RIGHT_DIR) (Node Tip ''d'' BALANCED Tip))) = Inr (t', Some ''a'')
     \<and> avl t' \<and> inorder t' = [''b'', ''c'', ''d'']"
  using avl_remove_correct [OF bstringnodes.comparer_axioms,
      of "Node (Node Tip ''a'' BALANCED Tip) ''b'' (Heavy RIGHT_DIR)
         (Node Tip ''c'' (Heavy RIGHT_DIR) (Node Tip ''d'' BALANCED Tip))" "\<lambda>_. True" "''a''"]
  by (simp add: in_order_def compare_bstringnodes_def)

text \<open>\<open>clist::synchronize_all\<close> on a list of time nodes: afterwards the actual time of every
  node is its official time, the list holds the same nodes and satisfies the invariant again (it is
  sorted by the new times), and the local list is empty.\<close>

theorem synchronize_all_correct:
  assumes "world_ok w" and "list_type (blists w l) = CLIST" and "compare (blists w l) = TIME_NODES"
    and "tmp \<noteq> l" and "list_type (blists w tmp) = LIST" and "linked (blists w tmp) = []"
  shows "\<exists>w'. synchronize_all w l tmp = (w', Inr ()) \<and> world_ok w' \<and> linked (blists w' tmp) = []
      \<and> set (linked (blists w' l)) = set (linked (blists w l))
      \<and> (\<forall>a. node_official (nodes w' a) = node_official (nodes w a))
      \<and> (\<forall>a\<in>set (linked (blists w l)). node_key (nodes w' a) = node_official (nodes w a))"
  using assms by (rule synchronize_all_ok)

lemma synchronize_all_witness:
  "\<exists>w'. synchronize_all sample 0 2 = (w', Inr ()) \<and> world_ok w'
     \<and> set (linked (blists w' 0)) = {1, 2} \<and> node_key (nodes w' 2) = 5"
  using synchronize_all_correct [OF sample_ok, of 0 2] by (auto simp: plain_node_def)

text \<open>\<open>blist::insert_node\<close> appends the node to the linked list, whatever its key, puts it at
  its place in the tree and keeps the invariant.\<close>

theorem blist_insert_node_correct:
  assumes "world_ok w" and "list_type (blists w l) = BLIST"
  shows "\<exists>w'. blist_insert_node w l N = (w', Inr (Some N)) \<and> inserted w l N w'
           \<and> linked (blists w' l) = remove1 N (linked (blists w l)) @ [N]"
  using assms by (rule blist_insertion)

lemma blist_insert_node_witness:
  "\<exists>w'. blist_insert_node sample 1 3 = (w', Inr (Some 3)) \<and> inserted sample 1 3 w'
     \<and> linked (blists w' 1) = [4, 3]"
  using blist_insert_node_correct [OF sample_ok, of 1 3] by simp

text \<open>\<open>blist::order\<close> relinks the nodes in tree order and changes nothing else; the result
  satisfies the invariant.\<close>

theorem blist_order_correct:
  assumes "world_ok w" and "list_type (blists w l) \<noteq> LIST"
  shows "\<exists>w'. blist_order w l = (w', Inr ()) \<and> world_ok w' \<and> nodes w' = nodes w
    \<and> linked (blists w' l) = inorder (root (blists w l))
    \<and> sorted_wrt (node_less (nodes w')) (linked (blists w' l))
    \<and> set (linked (blists w' l)) = set (linked (blists w l))"
proof -
  note tree = list_ok_tree [OF world_ok_list [OF assms(1)] assms(2)]
  let ?w = "put_list l ((blists w l)\<lparr>linked := inorder (root (blists w l))\<rparr>) w"
  have "list_ok (nodes w) l (blists ?w l)"
    using tree world_ok_list [OF assms(1), of l] by (simp add: list_ok_def)
  then have "world_ok ?w" using assms(1) by (simp add: world_ok_def)
  with tree show ?thesis unfolding blist_order_result [OF assms] by simp
qed

lemma blist_order_witness:
  "\<exists>w'. blist_order sample 1 = (w', Inr ()) \<and> world_ok w' \<and> linked (blists w' 1) = [4]"
  using blist_order_correct [OF sample_ok, of 1] by auto

text \<open>in a \<open>clist\<close> the neighbours of a node of the list by the links (what
  \<open>clist::find_latest_before\<close> and \<open>clist::find_earliest_after\<close> return) are those the tree search of
  \<open>blist\<close> finds.\<close>

theorem clist_searches_agree:
  assumes "world_ok w" and "list_type (blists w l) = CLIST"
  shows "clist_find_latest_before w l N = blist_find_latest_before w l N
    \<and> clist_find_earliest_after w l N = blist_find_earliest_after w l N"
  using neighbours [OF assms(1), of l N] list_ok_clist [OF world_ok_list [OF assms(1)] assms(2)] assms(2)
  by (auto simp: clist_find_latest_before_def clist_find_earliest_after_def)

lemma clist_searches_agree_witness:
  "clist_find_latest_before sample 0 2 = blist_find_latest_before sample 0 2
     \<and> clist_find_earliest_after sample 0 2 = blist_find_earliest_after sample 0 2"
  using clist_searches_agree [OF sample_ok, of 0 2] by simp

text \<open>The tree searches with a node that is in no list return the last node that is not later
  than it and the first one that is later; \<open>find\<close> returns nothing.\<close>

theorem detached_search_correct:
  assumes "world_ok w" and "list_type (blists w l) \<noteq> LIST" and "node_list (nodes w N) = None"
  shows "blist_find_latest_before w l N =
      last_opt (takeWhile (\<lambda>a. node_key (nodes w a) \<le> node_key (nodes w N)) (inorder (root (blists w l))))
    \<and> blist_find_earliest_after w l N =
      hd_opt (dropWhile (\<lambda>a. node_key (nodes w a) \<le> node_key (nodes w N)) (inorder (root (blists w l))))
    \<and> blist_find w l N = None"
  using detached_search [OF assms] by blast

lemma detached_search_witness:
  "blist_find_earliest_after sample 0 3 = Some 1 \<and> blist_find sample 0 3 = None"
  using detached_search_correct [OF sample_ok, of 0 3] by (simp add: plain_node_def)

text \<open>\<open>blist::find(int)\<close> finds nothing in a list that satisfies the invariant, whatever it
  holds: its search node is in no list and so never compares equal to one that is.\<close>

theorem blist_find_int_misses:
  assumes "world_ok w" and "list_type (blists w l) \<noteq> LIST"
  shows "blist_find_int w l I = None"
  using assms by (rule find_int_miss)

lemma blist_find_int_witness:
  "blist_find_int sample 1 7 = None \<and> 4 \<in> set (linked (blists sample 1)) \<and> node_key (nodes sample 4) = 7"
  using blist_find_int_misses [OF sample_ok, of 1 7] by (simp add: plain_node_def)

text \<open>C30: the path of an insertion stays below \<open>MAXDEPTH\<close> in every list of fewer than 267914295
  nodes, so that the arrays \<open>path\<close> and \<open>p_direction\<close> are not overrun.\<close>

theorem path_within_MAXDEPTH:
  assumes "world_ok w" and "list_type (blists w l) \<noteq> LIST"
    and "length (linked (blists w l)) < 267914295"
    and "insert_search (attached ns) (node_cmp (compare (blists w l)) ns) N (root (blists w l)) [] None
      = Inr (path, K)"
  shows "length path < MAXDEPTH"
proof -
  note okl = world_ok_list [OF assms(1), of l]
  note tree = list_ok_tree [OF okl assms(2)]
  have "length (inorder (root (blists w l))) = length (linked (blists w l))"
    using tree list_ok_distinct [OF okl] by (metis distinct_card)
  with tree assms(3) have "height (root (blists w l)) < 40"
    by (intro height_bound) (simp_all add: min_nodes_40)
  with insert_search_length [OF assms(4)] show ?thesis by (simp add: MAXDEPTH_def)
qed

lemma path_within_MAXDEPTH_witness:
  "\<exists>path K. insert_search (attached (nodes sample)) (node_cmp TIME_NODES (nodes sample)) 3
      (root (blists sample 0)) [] None = Inr (path, K) \<and> length path < MAXDEPTH"
proof -
  have "insert_search (attached (nodes sample)) (node_cmp (compare (blists sample 0)) (nodes sample)) 3
      (root (blists sample 0)) [] None
    = Inr ([(LEFT_DIR, 1, Heavy RIGHT_DIR, Node Tip 2 BALANCED Tip)], None)"
    by (simp add: attached_def has_a_list_def node_cmp_def compare_Time_nodes_def plain_node_def)
  from path_within_MAXDEPTH [OF sample_ok _ _ this] this show ?thesis by auto
qed

text \<open>the error exits of the trees: a node that compares equal to one of the tree cannot be
  inserted, a node that is not in the tree cannot be removed; both throw.\<close>

theorem avl_errors:
  assumes "comparer cmp" and "in_order cmp (inorder t)" and "\<forall>a\<in>set (inorder t). has_list a"
    and "e \<in> set (inorder t)" and "cmp x e = 0" and "y \<notin> set (inorder t)"
  shows "(\<exists>m. insert_binary_node has_list cmp x t = Inl (EvalError m))
    \<and> (\<exists>m. remove_node has_list cmp y t = Inl (EvalError m))"
  using comparer.insert_binary_node_dup [OF assms(1-5)]
    comparer.remove_node_foreign [OF assms(1,3,6)] assms(4)
  by (cases t) auto

lemma avl_errors_witness:
  "(\<exists>m. insert_binary_node (\<lambda>_. True) compare_bstringnodes ''a'' (Node Tip ''a'' BALANCED Tip) = Inl (EvalError m))
   \<and> (\<exists>m. remove_node (\<lambda>_. True) compare_bstringnodes ''b'' (Node Tip ''a'' BALANCED Tip) = Inl (EvalError m))"
  using avl_errors [OF bstringnodes.comparer_axioms,
      of "Node Tip ''a'' BALANCED Tip" "\<lambda>_. True" "''a''" "''a''" "''b''"]
  by (simp add: in_order_def compare_bstringnodes_def)

text \<open>\<open>Node::rotate\<close> on a balanced subtree that leans in direction \<open>d\<close> returns one with the same
  nodes in the same order and the same height that leans in the other direction.\<close>

theorem rotate_correct:
  assumes "avl t" and "root_indicator t = Some (Heavy d)"
  shows "\<exists>t'. rotate t = Inr t' \<and> avl t' \<and> height t' = height t \<and> inorder t' = inorder t
    \<and> root_indicator t' = Some (Heavy (op_dir d))"
  using rotate_ok [OF assms] rotate_flips [OF _ assms(2)] by blast

lemma rotate_witness:
  "\<exists>t'. rotate (Node (Node Tip (1::int) BALANCED Tip) 2 (Heavy LEFT_DIR) Tip) = Inr t'
     \<and> inorder t' = [1, 2] \<and> root_indicator t' = Some (Heavy RIGHT_DIR)"
  using rotate_correct [of "Node (Node Tip (1::int) BALANCED Tip) 2 (Heavy LEFT_DIR) Tip" LEFT_DIR]
  by (auto simp: root_indicator_def)

text \<open>\<open>blist::clear\<close> empties the list and its tree, detaches its nodes, leaves the other lists
  alone and keeps the invariant.\<close>

theorem blist_clear_correct:
  assumes "world_ok w"
  shows "\<exists>w'. blist_clear w l = (w', Inr ()) \<and> world_ok w' \<and> linked (blists w' l) = []
    \<and> root (blists w' l) = Tip \<and> (\<forall>a. node_list (nodes w' a) \<noteq> Some l)
    \<and> (\<forall>k. k \<noteq> l \<longrightarrow> blists w' k = blists w k)"
proof -
  have ok: "world_ok (fst (blist_clear w l))" using assms by (rule cleared_ok)
  have empty: "linked (blists (fst (blist_clear w l)) l) = []"
    by (simp add: blist_clear_result [OF assms])
  have "node_list (nodes (fst (blist_clear w l)) a) \<noteq> Some l" for a
    using list_ok_mem [OF world_ok_list [OF ok], of a l] empty by simp
  with ok empty show ?thesis by (simp add: blist_clear_result [OF assms])
qed

lemma blist_clear_witness:
  "\<exists>w'. blist_clear sample 0 = (w', Inr ()) \<and> world_ok w' \<and> linked (blists w' 0) = []"
  using blist_clear_correct [OF sample_ok, of 0] by blast

text \<open>\<open>blist::validate\<close> accepts every tree that satisfies the balance invariant.\<close>

theorem validate_accepts:
  assumes "avl t"
  shows "validate t"
  using get_pathlength_avl [OF assms] by (cases t) (simp_all add: validate_def del: get_pathlength.simps)

lemma validate_accepts_witness: "validate (Node Tip (1::int) (Heavy RIGHT_DIR) (Node Tip 2 BALANCED Tip))"
  by (rule validate_accepts) simp

end
