(* ===== verification/TreeKeys.thy ===== *)
theory TreeKeys
  imports NodeOrder
begin

text \<open>
  The key classes of the template \<open>tlist\<close> (\<open>src/src/apgenlib/alphatime.H\<close> and
  \<open>alphastring.H\<close>). The template parameter \<open>keyClass\<close> is a record of the operations the template
  calls; the locale \<open>tree_key\<close> states what the search trees need of them, and every key class
  modelled here is an interpretation of it: \<open>prio_time\<close>, the key of the resource histories, and
  \<open>alpha_string\<close> and \<open>ualpha_string\<close>, the keys of the symbol tables, one with and one without
  disambiguation.
\<close>

section \<open>The interface\<close>

text \<open>\<open>compare_to(that, ignoreSecKey)\<close>, \<open>disambiguates()\<close>, \<open>get_2nd_key()\<close> read and written, and
  \<open>operator ==\<close>. \<open>disambiguate(count)\<close> increments the counter of the list and writes it.\<close>

record 'k keyClass =
  compare_to :: "'k \<Rightarrow> 'k \<Rightarrow> bool \<Rightarrow> int"
  disambiguates :: bool
  get_2nd_key :: "'k \<Rightarrow> nat"
  set_2nd_key :: "nat \<Rightarrow> 'k \<Rightarrow> 'k"
  key_equal :: "'k \<Rightarrow> 'k \<Rightarrow> bool"

locale tree_key =
  fixes K :: "'k keyClass"
  assumes full_anti: "compare_to K a b False < 0 \<longleftrightarrow> 0 < compare_to K b a False"
    and full_trans: "compare_to K a b False \<le> 0 \<Longrightarrow> compare_to K b c False \<le> 0 \<Longrightarrow>
          compare_to K a c False \<le> 0"
    and coarse_anti: "compare_to K a b True < 0 \<longleftrightarrow> 0 < compare_to K b a True"
    and coarse_trans: "compare_to K a b True \<le> 0 \<Longrightarrow> compare_to K b c True \<le> 0 \<Longrightarrow>
          compare_to K a c True \<le> 0"
    and refines: "compare_to K a b True < 0 \<Longrightarrow> compare_to K a b False < 0"
    and tie: "disambiguates K \<Longrightarrow> compare_to K a b True = 0 \<Longrightarrow> get_2nd_key K b < get_2nd_key K a \<Longrightarrow>
          0 < compare_to K a b False"
    and no_tie: "\<not> disambiguates K \<Longrightarrow> compare_to K a b True = 0 \<Longrightarrow> compare_to K a b False = 0"
    and set_coarse: "compare_to K (set_2nd_key K n a) b True = compare_to K a b True"
    and get_set: "disambiguates K \<Longrightarrow> get_2nd_key K (set_2nd_key K n a) = n"
    and equal_iff: "key_equal K a b \<longleftrightarrow> compare_to K a b False = 0"
begin

text \<open>The interface of the balanced trees, in both readings of the comparison.\<close>

lemma full: "comparer (\<lambda>a b. compare_to K a b False)"
  by unfold_locales (rule full_anti, rule full_trans)

lemma coarse: "comparer (\<lambda>a b. compare_to K a b True)"
  by unfold_locales (rule coarse_anti, rule coarse_trans)

lemma refines_gt: "0 < compare_to K a b True \<Longrightarrow> 0 < compare_to K a b False"
  using refines [of b a] full_anti [of b a] coarse_anti [of b a] by blast

lemma full_le_coarse: "compare_to K a b False \<le> 0 \<Longrightarrow> compare_to K a b True \<le> 0"
  using refines_gt [of a b] by linarith

lemma set_coarse_refl: "compare_to K (set_2nd_key K n a) a True = 0"
  unfolding set_coarse using coarse_anti [of a a] by linarith

lemma set_coarse_right: "compare_to K b (set_2nd_key K n a) True = 0 \<longleftrightarrow> compare_to K b a True = 0"
proof -
  have "compare_to K x y True = 0 \<longleftrightarrow> compare_to K y x True = 0" for x y
    using coarse_anti [of x y] coarse_anti [of y x] by linarith
  then show ?thesis by (metis set_coarse)
qed

end

section \<open>Times with an event identification\<close>

text \<open>The milliseconds of \<open>etime\<close>, the \<open>event_id\<close> and the \<open>secondaryKey\<close>.\<close>

record prio_time =
  etime :: int
  event_id :: int
  secondaryKey :: nat

definition prio_time_compare_to :: "prio_time \<Rightarrow> prio_time \<Rightarrow> bool \<Rightarrow> int" where
  "prio_time_compare_to this that ignoreSecKey =
     (if etime this > etime that then 1
      else if etime this = etime that then
        (if event_id this > event_id that then 1
         else if event_id this = event_id that then
           (if ignoreSecKey then 0
            else if secondaryKey this > secondaryKey that then 1
            else if secondaryKey this = secondaryKey that then 0
            else -1)
         else -1)
      else -1)"

text \<open>The operators of the class.\<close>

definition prio_time_greater :: "prio_time \<Rightarrow> prio_time \<Rightarrow> bool" where
  "prio_time_greater this as =
     (if etime this > etime as then True
      else if etime this = etime as then
        (if event_id this > event_id as then True
         else if secondaryKey this > secondaryKey as then True else False)
      else False)"

definition prio_time_less :: "prio_time \<Rightarrow> prio_time \<Rightarrow> bool" where
  "prio_time_less this as =
     (if etime this < etime as then True
      else if etime this = etime as then
        (if event_id this < event_id as then True
         else if secondaryKey this < secondaryKey as then True else False)
      else False)"

definition prio_time_equal :: "prio_time \<Rightarrow> prio_time \<Rightarrow> bool" where
  "prio_time_equal this as =
     (if etime this \<noteq> etime as then False
      else if event_id this \<noteq> event_id as then False
      else if secondaryKey this = secondaryKey as then True else False)"

definition prio_time_class :: "prio_time keyClass" where
  "prio_time_class =
     \<lparr>compare_to = prio_time_compare_to, disambiguates = True, get_2nd_key = secondaryKey,
      set_2nd_key = (\<lambda>n k. k\<lparr>secondaryKey := n\<rparr>), key_equal = prio_time_equal\<rparr>"

interpretation prio: tree_key prio_time_class
  by unfold_locales
    (auto simp: prio_time_class_def prio_time_compare_to_def prio_time_equal_def split: if_splits)

text \<open>The operators are not the order of \<open>compare_to\<close>: at the same time, the secondary keys are
  compared even when the event identifications differ.\<close>

lemma prio_time_operators_conflict:
  "\<exists>a b. prio_time_greater a b \<and> prio_time_less a b \<and> prio_time_compare_to a b False < 0"
proof (intro exI conjI)
  let ?a = "\<lparr>etime = 0, event_id = 1, secondaryKey = 1\<rparr>"
  let ?b = "\<lparr>etime = 0, event_id = 2, secondaryKey = 0\<rparr>"
  show "prio_time_greater ?a ?b" by (simp add: prio_time_greater_def)
  show "prio_time_less ?a ?b" by (simp add: prio_time_less_def)
  show "prio_time_compare_to ?a ?b False < 0" by (simp add: prio_time_compare_to_def)
qed

section \<open>Strings\<close>

record alpha_string =
  str :: string
  str_2nd_key :: nat

definition alpha_string_compare_to :: "alpha_string \<Rightarrow> alpha_string \<Rightarrow> bool \<Rightarrow> int" where
  "alpha_string_compare_to this that ignoreSecKey =
     (let f = strcmp (str this) (str that) in
      if f = 0 then
        (if \<not> ignoreSecKey then
           (if str_2nd_key this > str_2nd_key that then 1
            else if str_2nd_key this < str_2nd_key that then -1
            else 0)
         else 0)
      else f)"

definition alpha_string_equal :: "alpha_string \<Rightarrow> alpha_string \<Rightarrow> bool" where
  "alpha_string_equal this as =
     (let f = strcmp (str this) (str as) in
      if f = 0 then str_2nd_key this = str_2nd_key as else f = 0)"

definition alpha_string_class :: "alpha_string keyClass" where
  "alpha_string_class =
     \<lparr>compare_to = alpha_string_compare_to, disambiguates = True, get_2nd_key = str_2nd_key,
      set_2nd_key = (\<lambda>n k. k\<lparr>str_2nd_key := n\<rparr>), key_equal = alpha_string_equal\<rparr>"

lemma strcmp_zero_sym: "strcmp a b = 0 \<longleftrightarrow> strcmp b a = 0"
  by (auto simp: strcmp_zero)

interpretation alpha: tree_key alpha_string_class
proof unfold_locales
  fix a b c :: alpha_string
  note defs = alpha_string_class_def alpha_string_compare_to_def Let_def
  show "compare_to alpha_string_class a b False < 0 \<longleftrightarrow> 0 < compare_to alpha_string_class b a False"
    "compare_to alpha_string_class a b True < 0 \<longleftrightarrow> 0 < compare_to alpha_string_class b a True"
    using strcmp_anti [of "str a" "str b"] by (auto simp: defs strcmp_zero split: if_splits)
  show "compare_to alpha_string_class a c False \<le> 0"
    if "compare_to alpha_string_class a b False \<le> 0" "compare_to alpha_string_class b c False \<le> 0"
    using that strcmp_trans [of "str a" "str b" "str c"] strcmp_anti [of "str b" "str a"]
    by (auto simp: defs strcmp_zero split: if_splits)
  show "compare_to alpha_string_class a c True \<le> 0"
    if "compare_to alpha_string_class a b True \<le> 0" "compare_to alpha_string_class b c True \<le> 0"
    using that strcmp_trans [of "str a" "str b" "str c"]
    by (auto simp: defs split: if_splits)
qed (auto simp: alpha_string_class_def alpha_string_compare_to_def alpha_string_equal_def Let_def
      split: if_splits)

text \<open>\<open>ualpha_string\<close>, without disambiguation. Its \<open>get_2nd_key\<close> is a static dummy.\<close>

definition ualpha_string_compare_to :: "string \<Rightarrow> string \<Rightarrow> bool \<Rightarrow> int" where
  "ualpha_string_compare_to this that ignored =
     (if strcmp this that > 0 then 1 else if strcmp this that = 0 then 0 else -1)"

definition ualpha_string_class :: "string keyClass" where
  "ualpha_string_class =
     \<lparr>compare_to = ualpha_string_compare_to, disambiguates = False, get_2nd_key = (\<lambda>_. 0),
      set_2nd_key = (\<lambda>n k. k), key_equal = (\<lambda>a b. strcmp a b = 0)\<rparr>"

lemma ualpha_string_anti:
  "ualpha_string_compare_to a b i < 0 \<longleftrightarrow> 0 < ualpha_string_compare_to b a j"
  using strcmp_anti [of a b] by (auto simp: ualpha_string_compare_to_def strcmp_zero split: if_splits)

lemma ualpha_string_trans:
  "ualpha_string_compare_to a b i \<le> 0 \<Longrightarrow> ualpha_string_compare_to b c j \<le> 0 \<Longrightarrow>
     ualpha_string_compare_to a c k \<le> 0"
  using strcmp_trans [of a b c] by (auto simp: ualpha_string_compare_to_def split: if_splits)

interpretation ualpha: tree_key ualpha_string_class
  by unfold_locales
    (auto simp: ualpha_string_class_def ualpha_string_anti intro: ualpha_string_trans,
     auto simp: ualpha_string_compare_to_def split: if_splits)

end
