(* ===== verification/TList.thy ===== *)
theory TList
  imports AvlRemove TreeKeys
begin

text \<open>
  The template \<open>tlist\<close> of \<open>src/src/apgenlib/templates.H\<close> with the linkers of \<open>linkers.H\<close>: the
  search trees of the program's tables, and the resource histories, whose nodes carry an
  increment of a consumption and, in an \<open>intLinker\<close>, the sum of the increments of either
  subtree. The tree, the rebalancing and the removal are those of \<open>blist\<close> (\<open>AvlTree\<close>,
  \<open>AvlInsert\<close>, \<open>AvlRemove\<close>), written out again with the adjustment of the sums that each
  \<open>attach\<close> asks for. Every node of a list has its \<open>list\<close> pointer set.
\<close>

section \<open>Nodes and their linkers\<close>

text \<open>\<open>true_long\<close>, and a node: its key, its address, and the three counters of its
  \<open>intLinker\<close>. The links, the indicator and \<open>avlParent\<close> are the tree around it.\<close>

type_synonym true_long = "64 word"

record 'k lnode =
  Key :: 'k
  ident :: nat
  myCount :: true_long
  nCount_left :: true_long
  nCount_right :: true_long

datatype cons_adjust = UPDATE_CONS | DO_NOT_UPDATE_CONS

fun get_cons :: "dir \<Rightarrow> 'k lnode \<Rightarrow> true_long" where
  "get_cons LEFT_DIR a = nCount_left a"
| "get_cons RIGHT_DIR a = nCount_right a"

fun set_cons :: "dir \<Rightarrow> true_long \<Rightarrow> 'k lnode \<Rightarrow> 'k lnode" where
  "set_cons LEFT_DIR v a = a\<lparr>nCount_left := v\<rparr>"
| "set_cons RIGHT_DIR v a = a\<lparr>nCount_right := v\<rparr>"

definition init_cons :: "'k lnode \<Rightarrow> 'k lnode" where
  "init_cons a = a\<lparr>nCount_left := 0, nCount_right := 0\<rparr>"

definition add_cons :: "dir \<Rightarrow> true_long \<Rightarrow> 'k lnode \<Rightarrow> 'k lnode" where
  "add_cons which_dir the_amount a = set_cons which_dir (get_cons which_dir a + the_amount) a"

text \<open>What \<open>attach\<close> adds up for a node that it attaches; 0 for NULL.\<close>

definition node_cons :: "'k lnode \<Rightarrow> true_long" where
  "node_cons N = myCount N + nCount_left N + nCount_right N"

fun link_cons :: "'k lnode btree \<Rightarrow> true_long" where
  "link_cons Tip = 0"
| "link_cons (Node l a i r) = node_cons a"

text \<open>\<open>a->attach(d, t, CA)\<close>, where \<open>s\<close> is the other link and \<open>i\<close> the indicator of \<open>a\<close>.\<close>

definition attach_cons ::
  "cons_adjust \<Rightarrow> dir \<Rightarrow> 'k lnode \<Rightarrow> indicator \<Rightarrow> 'k lnode btree \<Rightarrow> 'k lnode btree \<Rightarrow> 'k lnode btree" where
  "attach_cons CA d a i s t =
     attach d (if CA = UPDATE_CONS then set_cons d (link_cons t) a else a) i s t"

text \<open>The same on a path: \<open>path[i]->attach(p_direction[i], N, CA)\<close>.\<close>

fun attach_to_path :: "cons_adjust \<Rightarrow> true_long \<Rightarrow> 'k lnode frame list \<Rightarrow> 'k lnode frame list" where
  "attach_to_path CA v [] = []"
| "attach_to_path CA v ((d, a, i, s) # up) =
     (d, if CA = UPDATE_CONS then set_cons d v a else a, i, s) # up"

text \<open>The chain of \<open>avlParent\<close> pointers from a node, as the path that leads to it.\<close>

fun parents :: "nat \<Rightarrow> 'k lnode btree \<Rightarrow> 'k lnode frame list
    \<Rightarrow> ('k lnode frame list \<times> 'k lnode btree) option" where
  "parents N Tip path = None"
| "parents N (Node l a i r) path =
     (if ident a = N then Some (path, Node l a i r)
      else case parents N l ((LEFT_DIR, a, i, r) # path) of
        Some found \<Rightarrow> Some found
      | None \<Rightarrow> parents N r ((RIGHT_DIR, a, i, l) # path))"

text \<open>One step of \<open>add_cons_to_ancestors\<close> and \<open>subtract_cons_from_ancestors\<close>.\<close>

fun add_cons_frame :: "true_long \<Rightarrow> 'k lnode frame \<Rightarrow> 'k lnode frame" where
  "add_cons_frame v (d, a, i, s) = (d, add_cons d v a, i, s)"

text \<open>\<open>N->set_i_cons(v); N->add_cons_to_ancestors()\<close>.\<close>

definition account :: "nat \<Rightarrow> true_long \<Rightarrow> 'k lnode btree \<Rightarrow> 'k lnode btree" where
  "account N v root =
     (case parents N root [] of
        Some (path, Node l a i r) \<Rightarrow>
          zip_up (map (add_cons_frame v) path) (Node l (a\<lparr>myCount := v\<rparr>) i r)
      | _ \<Rightarrow> root)"

text \<open>\<open>get_int_consumption\<close>: climb from the node, adding up what is to the left.\<close>

fun climb :: "'k lnode frame list \<Rightarrow> true_long \<Rightarrow> true_long" where
  "climb [] val = val"
| "climb ((d, p, i, s) # up) val =
     climb up (if d = RIGHT_DIR then val + (myCount p + nCount_left p) else val)"

definition get_int_consumption :: "nat \<Rightarrow> 'k lnode btree \<Rightarrow> true_long option" where
  "get_int_consumption N root =
     (case parents N root [] of
        Some (path, Node l a i r) \<Rightarrow> Some (climb path (myCount a + nCount_left a))
      | _ \<Rightarrow> None)"

section \<open>Insertion\<close>

text \<open>
  The search loop of \<open>insert_binary_node\<close>. The secondary key is ignored until the first node
  whose key is equal; there the new node gets the next secondary key of the list, and the
  search goes on to the right with full comparisons. The result is the path, the last earlier
  node, the final key and the counter \<open>ambiguityCount\<close>.
\<close>

fun tlist_search ::
  "'k keyClass \<Rightarrow> 'k lnode btree \<Rightarrow> 'k \<Rightarrow> bool \<Rightarrow> nat \<Rightarrow> 'k lnode frame list \<Rightarrow> nat option
     \<Rightarrow> ('k lnode frame list \<times> nat option \<times> 'k \<times> nat) result" where
  "tlist_search K Tip key ignore_secondary_key ambiguityCount path last_earlier_node =
     Inr (path, last_earlier_node, key, ambiguityCount)"
| "tlist_search K (Node l a i r) key ignore_secondary_key ambiguityCount path last_earlier_node =
     (let f = compare_to K key (Key a) ignore_secondary_key in
      if f = 0 then
        (if disambiguates K then
           tlist_search K r (set_2nd_key K (ambiguityCount + 1) key) False (ambiguityCount + 1)
             ((RIGHT_DIR, a, i, l) # path) (Some (ident a))
         else Inl (EvalError ''attempting to insert node into a spot already taken''))
      else if f < 0 then
        tlist_search K l key ignore_secondary_key ambiguityCount
          ((LEFT_DIR, a, i, r) # path) last_earlier_node
      else
        tlist_search K r key ignore_secondary_key ambiguityCount
          ((RIGHT_DIR, a, i, l) # path) (Some (ident a)))"

text \<open>The cases of the rebalancing, named as in \<open>AvlInsert\<close>; the new node counts 0 meanwhile. Each
  gives the subtree that replaces the one at the focal point \<open>path[f]\<close>.\<close>

definition tlist_case3 ::
  "dir \<Rightarrow> 'k lnode \<Rightarrow> 'k lnode btree \<Rightarrow> 'k lnode \<Rightarrow> indicator \<Rightarrow> 'k lnode btree \<Rightarrow> 'k lnode btree
     \<Rightarrow> 'k lnode btree" where
  "tlist_case3 d a A b bi B X =
     attach_cons UPDATE_CONS (op_dir d) b bi X (attach_cons UPDATE_CONS d a BALANCED A B)"

text \<open>\<open>N->attach(d, t, UPDATE_CONS); N->attach(op_dir, s, UPDATE_CONS)\<close>.\<close>

definition attach_both ::
  "dir \<Rightarrow> 'k lnode \<Rightarrow> indicator \<Rightarrow> 'k lnode btree \<Rightarrow> 'k lnode btree \<Rightarrow> 'k lnode btree" where
  "attach_both d N i s t =
     attach d (set_cons (op_dir d) (link_cons s) (set_cons d (link_cons t) N)) i s t"

definition tlist_case45 ::
  "dir \<Rightarrow> 'k lnode \<Rightarrow> 'k lnode btree \<Rightarrow> 'k lnode \<Rightarrow> indicator \<Rightarrow> 'k lnode btree \<Rightarrow> 'k lnode
     \<Rightarrow> 'k lnode btree" where
  "tlist_case45 d a A b bi B x =
     attach_both d x BALANCED (attach_cons UPDATE_CONS d a BALANCED A Tip)
       (attach_cons UPDATE_CONS (op_dir d) b bi B Tip)"

definition tlist_case4 ::
  "dir \<Rightarrow> 'k lnode \<Rightarrow> 'k lnode btree \<Rightarrow> 'k lnode \<Rightarrow> indicator \<Rightarrow> 'k lnode btree \<Rightarrow> 'k lnode
     \<Rightarrow> indicator \<Rightarrow> 'k lnode btree \<Rightarrow> 'k lnode btree \<Rightarrow> 'k lnode btree" where
  "tlist_case4 d a A b bi B c ci C X =
     attach_both d c ci (attach_cons UPDATE_CONS d a (Heavy (op_dir d)) A C)
       (attach_cons UPDATE_CONS (op_dir d) b bi B X)"

definition tlist_case5 ::
  "dir \<Rightarrow> 'k lnode \<Rightarrow> 'k lnode btree \<Rightarrow> 'k lnode \<Rightarrow> 'k lnode btree \<Rightarrow> 'k lnode
     \<Rightarrow> indicator \<Rightarrow> 'k lnode btree \<Rightarrow> 'k lnode btree \<Rightarrow> 'k lnode btree" where
  "tlist_case5 d a A b B c ci C X =
     attach_both d c ci (attach_cons UPDATE_CONS d a BALANCED A X)
       (attach_cons UPDATE_CONS (op_dir d) b (Heavy d) B C)"

text \<open>The choice of the case, with the flag of the last \<open>attach\<close>, to \<open>path[f - 1]\<close>.\<close>

definition tlist_focal ::
  "dir \<Rightarrow> 'k lnode \<Rightarrow> indicator \<Rightarrow> 'k lnode btree \<Rightarrow> 'k lnode frame list \<Rightarrow> 'k lnode
     \<Rightarrow> (cons_adjust \<times> 'k lnode btree) result" where
  "tlist_focal d a i A below x =
     (let leaf = Node Tip x BALANCED Tip;
          hang = (\<lambda>rest. zip_up (rev (map lean rest)) leaf) in
      if i \<noteq> Heavy d then Inr (DO_NOT_UPDATE_CONS, attach d a BALANCED A (hang below))
      else case below of
        [] \<Rightarrow> Inl NullAccess
      | (d1, b, bi, B) # rest \<Rightarrow>
          (if d1 = d then Inr (DO_NOT_UPDATE_CONS, tlist_case3 d a A b bi B (hang rest))
           else case rest of
             [] \<Rightarrow> Inr (UPDATE_CONS, tlist_case45 d a A b bi B x)
           | (d2, c, ci, C) # rest2 \<Rightarrow>
               (if d2 = d
                then Inr (UPDATE_CONS, tlist_case4 d a A b bi B c ci C (hang rest2))
                else Inr (UPDATE_CONS, tlist_case5 d a A b B c ci C (hang rest2)))))"

definition tlist_rebalance :: "'k lnode frame list \<Rightarrow> 'k lnode \<Rightarrow> 'k lnode btree result" where
  "tlist_rebalance path x =
     (let below = takeWhile is_balanced_frame path in
      case dropWhile is_balanced_frame path of
        [] \<Rightarrow> Inr (zip_up (map lean below) (Node Tip x BALANCED Tip))
      | (d, a, i, A) # up \<Rightarrow>
          bind_result (tlist_focal d a i A (rev below) x)
            (\<lambda>(CA, t). Inr (zip_up (attach_to_path CA (link_cons t) up) t)))"

text \<open>\<open>insert_binary_node\<close> for a node that is in no list: the new root, the value left in \<open>N\<close>
  and the new counter.\<close>

definition tlist_insert_binary_node ::
  "'k keyClass \<Rightarrow> 'k lnode btree \<Rightarrow> nat \<Rightarrow> 'k lnode \<Rightarrow> ('k lnode btree \<times> nat option \<times> nat) result" where
  "tlist_insert_binary_node K root ambiguityCount N =
     (let key = if disambiguates K then set_2nd_key K 0 (Key N) else Key N in
      case root of
        Tip \<Rightarrow> Inr (Node Tip (init_cons (N\<lparr>Key := key\<rparr>)) BALANCED Tip, None, ambiguityCount)
      | _ \<Rightarrow>
        bind_result (tlist_search K root key True ambiguityCount [] None)
          (\<lambda>(path, last_earlier_node, key', ambiguityCount').
             bind_result (tlist_rebalance path (init_cons (N\<lparr>Key := key', myCount := 0\<rparr>)))
               (\<lambda>root'. Inr (account (ident N) (myCount N) root', last_earlier_node, ambiguityCount'))))"

section \<open>Removal\<close>

text \<open>PHASE 1. A node with an equal key that is another one, or the end of a branch, throws.\<close>

fun tlist_remove_search ::
  "'k keyClass \<Rightarrow> 'k lnode \<Rightarrow> 'k lnode btree \<Rightarrow> 'k lnode frame list
     \<Rightarrow> ('k lnode frame list \<times> 'k lnode btree) result" where
  "tlist_remove_search K old_node Tip path =
     Inl (EvalError ''can't seem to remove node from binary tree'')"
| "tlist_remove_search K old_node (Node l a i r) path =
     (let f = compare_to K (Key old_node) (Key a) False in
      if f < 0 then tlist_remove_search K old_node l ((LEFT_DIR, a, i, r) # path)
      else if f = 0 then
        (if ident a \<noteq> ident old_node
         then Inl (EvalError ''can't seem to remove node from binary tree'')
         else Inr (path, Node l a i r))
      else tlist_remove_search K old_node r ((RIGHT_DIR, a, i, l) # path))"

text \<open>PHASE 2 for a node that is not a leaf, as \<open>swap_heavy\<close> of \<open>AvlRemove\<close>. In sub-case (1) the
  node at the end of the walk takes its increment off the nodes walked through, and gets
  the sums of the links of the removed node; in sub-cases (2) and (3) only \<open>a\<close> gets a new sum.\<close>

definition tlist_swap_heavy ::
  "dir \<Rightarrow> 'k lnode frame list \<Rightarrow> 'k lnode btree \<Rightarrow> indicator \<Rightarrow> 'k lnode btree
     \<Rightarrow> ('k lnode frame list \<times> 'k lnode btree) result" where
  "tlist_swap_heavy heavy_direction path heavy_link i search_link =
     (let search_dir = op_dir heavy_direction in
      case heavy_link of
        Tip \<Rightarrow> Inl NullAccess
      | Node _ a ai _ \<Rightarrow>
          (if get_link search_dir heavy_link \<noteq> Tip then
             \<comment> \<open>swap sub-case (1)\<close>
             bind_result
               (swap_walk search_dir (get_link search_dir heavy_link)
                  [(search_dir, a, ai, get_link heavy_direction heavy_link)])
               (\<lambda>(end_node, rest, walked).
                  let walked' = map (add_cons_frame (- myCount end_node)) walked;
                      end_node' = set_cons search_dir (link_cons search_link)
                        (set_cons heavy_direction (link_cons (zip_up walked' rest)) end_node);
                      swapped = walked' @ (heavy_direction, end_node', i, search_link)
                        # attach_to_path UPDATE_CONS (node_cons end_node') path
                  in Inr (case rest of
                       Tip \<Rightarrow> (swapped, Tip)
                     | Node _ b bi _ \<Rightarrow>
                         ((search_dir, b, Heavy search_dir, get_link heavy_direction rest)
                            # swapped,
                          get_link search_dir rest)))
           else
             let a' = set_cons search_dir (link_cons search_link) a in
             case get_link heavy_direction heavy_link of
               Node _ other oi _ \<Rightarrow>
                 \<comment> \<open>swap sub-case (2)\<close>
                 (let other_tree = get_link heavy_direction heavy_link in
                  Inr ((search_dir, other, Heavy search_dir, get_link heavy_direction other_tree)
                         # (heavy_direction, a', i, search_link)
                         # attach_to_path UPDATE_CONS (node_cons a') path,
                       get_link search_dir other_tree))
             | Tip \<Rightarrow>
                 (if search_link \<noteq> Tip then
                    \<comment> \<open>swap sub-case (3)\<close>
                    Inr ((heavy_direction, a', ai, search_link)
                           # attach_to_path UPDATE_CONS (node_cons a') path,
                         get_link heavy_direction heavy_link)
                  else
                    \<comment> \<open>swap sub-case (4)\<close>
                    Inr ((search_dir, a, Heavy search_dir, get_link heavy_direction heavy_link)
                           # attach_to_path UPDATE_CONS (node_cons a) path,
                         get_link search_dir heavy_link))))"

definition tlist_remove_swap ::
  "'k lnode frame list \<Rightarrow> 'k lnode btree \<Rightarrow> indicator \<Rightarrow> 'k lnode btree
     \<Rightarrow> ('k lnode frame list \<times> 'k lnode btree) result" where
  "tlist_remove_swap path l i r =
     (if l = Tip \<and> r = Tip then Inr (path, Tip)
      else if i = BALANCED \<or> i = Heavy LEFT_DIR then tlist_swap_heavy LEFT_DIR path l i r
      else tlist_swap_heavy RIGHT_DIR path r i l)"

text \<open>\<open>baseC::rotate\<close>.\<close>

definition tlist_rotate_root :: "dir \<Rightarrow> 'k lnode \<Rightarrow> 'k lnode btree \<Rightarrow> 'k lnode btree \<Rightarrow> 'k lnode btree result" where
  "tlist_rotate_root t a s new_root =
     (case new_root of
        Tip \<Rightarrow> Inl NullAccess
      | Node _ b j _ \<Rightarrow>
          (let u = op_dir t;
               this = attach_cons UPDATE_CONS t a (if j = BALANCED then BALANCED else Heavy u) s
                        (get_link u new_root)
           in Inr (attach_cons UPDATE_CONS u b (Heavy u) (get_link t new_root) this)))"

fun tlist_rotate :: "'k lnode btree \<Rightarrow> 'k lnode btree result" where
  "tlist_rotate Tip = Inl NullAccess"
| "tlist_rotate (Node l a BALANCED r) = Inr Tip"
| "tlist_rotate (Node l a (Heavy t) r) =
     (let new_root = get_link t (Node l a (Heavy t) r);
          s = get_link (op_dir t) (Node l a (Heavy t) r)
      in if root_indicator new_root = Some (Heavy (op_dir t))
         then (case tlist_rotate new_root of
                 Inl e \<Rightarrow> Inl e
               | Inr nr \<Rightarrow> tlist_rotate_root t (set_cons t (link_cons nr) a) s nr)
         else tlist_rotate_root t a s new_root)"

lemma tlist_rotate_root_indicator:
  "tlist_rotate_root t a s nr = Inr t' \<Longrightarrow> root_indicator t' = Some (Heavy (op_dir t))"
  by (auto simp: tlist_rotate_root_def Let_def attach_cons_def split: btree.splits)

lemma tlist_rotate_flips:
  assumes "tlist_rotate t = Inr t'" and "root_indicator t = Some (Heavy d)"
  shows "root_indicator t' = Some (Heavy (op_dir d))"
proof (cases t)
  case (Node l a i r)
  with assms obtain a' s nr where "tlist_rotate_root d a' s nr = Inr t'"
    by (auto simp: Let_def split: if_splits sum.splits)
  then show ?thesis by (rule tlist_rotate_root_indicator)
qed (use assms in simp)

text \<open>Steps 2 and 3.\<close>

function tlist_remove_loop :: "'k lnode frame list \<Rightarrow> 'k lnode btree \<Rightarrow> 'k lnode btree result" where
  "tlist_remove_loop [] t = Inr t"
| "tlist_remove_loop ((d, a, i, s) # up) t =
     (if i = BALANCED then Inr (zip_up up (attach d a (Heavy (op_dir d)) s t))
      else if i = Heavy d then tlist_remove_loop up (attach d a BALANCED s t)
      else case s of
        Tip \<Rightarrow> Inl NullAccess
      | Node _ q qi _ \<Rightarrow>
          (if qi = Heavy d then
             (case tlist_rotate s of
                Inl e \<Rightarrow> Inl e
              | Inr s' \<Rightarrow> tlist_remove_loop ((d, a, i, s') # up) t)
           else
             let z = get_link d s in
             if qi \<noteq> BALANCED then
               tlist_remove_loop up
                 (attach_cons UPDATE_CONS d q BALANCED (get_link (op_dir d) s)
                    (attach_cons UPDATE_CONS (op_dir d) a BALANCED t z))
             else
               Inr (zip_up up
                 (attach_cons UPDATE_CONS d q (Heavy d) (get_link (op_dir d) s)
                    (attach_cons UPDATE_CONS (op_dir d) a (Heavy (op_dir d)) t z)))))"
  by pat_completeness auto

termination
proof (relation "measure (\<lambda>(path, t). 2 * length path + leans_to path)", goal_cases)
  case (3 d a i s up t l q qi r t')
  then have "root_indicator t' = Some (Heavy (op_dir d))"
    by (intro tlist_rotate_flips [of s]) (auto simp: root_indicator_def)
  with 3 show ?case by (simp add: leans_to_def root_indicator_def)
qed (auto simp: leans_to_def split: list.split)

text \<open>Step 1.\<close>

definition tlist_remove_adjust ::
  "'k lnode frame list \<Rightarrow> 'k lnode btree \<Rightarrow> 'k lnode btree result" where
  "tlist_remove_adjust path hole =
     (case path of
        [] \<Rightarrow> Inr hole
      | (P, n, i, s) # up \<Rightarrow>
          (if i = BALANCED then Inr (zip_up up (attach P n (Heavy (op_dir P)) s hole))
           else if i = Heavy P then tlist_remove_loop up (attach P n BALANCED s hole)
           else
             let Q = op_dir P; n' = attach_cons UPDATE_CONS Q n BALANCED hole Tip in
             case s of
               Tip \<Rightarrow> Inl NullAccess
             | Node _ a ai _ \<Rightarrow>
                 (if ai = Heavy P then
                    \<comment> \<open>situation A\<close>
                    (case get_link P s of
                       Tip \<Rightarrow> Inl NullAccess
                     | Node _ newnode ni _ \<Rightarrow>
                         tlist_remove_loop up
                           (attach_both P newnode ni
                              (attach_cons UPDATE_CONS P a BALANCED (get_link Q s) Tip) n'))
                  else if ai = Heavy Q then
                    \<comment> \<open>situation B\<close>
                    tlist_remove_loop up
                      (attach_cons UPDATE_CONS P a BALANCED (get_link Q s) n')
                  else
                    \<comment> \<open>situation C\<close>
                    (case get_link P s of
                       Tip \<Rightarrow> Inl NullAccess
                     | Node _ b bi _ \<Rightarrow>
                         Inr (zip_up up
                           (attach_cons UPDATE_CONS P a (Heavy P) (get_link Q s)
                              (attach_cons UPDATE_CONS P b (Heavy P)
                                 (get_link Q (get_link P s)) n')))))))"

text \<open>The tree part of \<open>remove_node\<close>: the increment of the node is taken off its ancestors and
  set to 0 (\<open>set_i_cons(NULL)\<close>) before the swap. The result is the new root and the node.\<close>

definition tlist_remove_binary_node ::
  "'k keyClass \<Rightarrow> 'k lnode \<Rightarrow> 'k lnode btree \<Rightarrow> ('k lnode btree \<times> 'k lnode) result" where
  "tlist_remove_binary_node K old_node root =
     bind_result (tlist_remove_search K old_node root [])
       (\<lambda>(path, found).
          case found of
            Tip \<Rightarrow> Inl NullAccess
          | Node l a i r \<Rightarrow>
              bind_result
                (tlist_remove_swap (map (add_cons_frame (- myCount a)) path) l i r)
                (\<lambda>(path', hole).
                   bind_result (tlist_remove_adjust path' hole)
                     (\<lambda>root'. Inr (root', a\<lparr>myCount := 0\<rparr>))))"

section \<open>The list\<close>

text \<open>\<open>linked\<close> is the chain of \<open>next\<close> pointers. An enabled list; \<open>enabled\<close> is false only inside
  \<open>clear\<close>. The notification of the iterators is the subject of \<open>Miterator\<close>.\<close>

record 'k tree_list =
  tree :: "'k lnode btree"
  chain :: "nat list"
  ambiguityCount :: nat
  synchronize_orders :: bool

text \<open>\<open>remove_node\<close>: NULL for an empty tree; the destructor of \<open>ap_node_remover\<close> takes the node
  off the chain if it is in it.\<close>

definition tlist_remove_node :: "'k keyClass \<Rightarrow> 'k tree_list \<Rightarrow> 'k lnode \<Rightarrow> ('k tree_list \<times> 'k lnode option) result" where
  "tlist_remove_node K T N =
     (if tree T = Tip then Inr (T\<lparr>chain := remove1 (ident N) (chain T)\<rparr>, None)
      else
        bind_result (tlist_remove_binary_node K N (tree T))
          (\<lambda>(root', old_node).
             Inr (T\<lparr>tree := root', chain := remove1 (ident N) (chain T)\<rparr>, Some old_node)))"

text \<open>\<open>insert_node(N)\<close>: a node that is in the list already is removed first, and the node as the
  removal leaves it is inserted. For a node of another list the removal is one of that list.\<close>

definition tlist_insert :: "'k keyClass \<Rightarrow> 'k tree_list \<Rightarrow> 'k lnode \<Rightarrow> 'k tree_list result" where
  "tlist_insert K T N =
     bind_result
       (if ident N \<in> set (chain T)
        then bind_result (tlist_remove_node K T N)
               (\<lambda>(T', old_node). Inr (T', case old_node of None \<Rightarrow> N | Some a \<Rightarrow> a))
        else Inr (T, N))
       (\<lambda>(T', N').
          bind_result (tlist_insert_binary_node K (tree T') (ambiguityCount T') N')
            (\<lambda>(root', last_earlier_node, count).
               Inr (T'\<lparr>tree := root', ambiguityCount := count,
                       chain := if synchronize_orders T'
                                then insert_after last_earlier_node (ident N) (chain T')
                                else chain T' @ [ident N]\<rparr>)))"

definition tlist_clear :: "'k tree_list \<Rightarrow> 'k tree_list" where
  "tlist_clear T = T\<lparr>tree := Tip, chain := [], ambiguityCount := 0\<rparr>"

text \<open>\<open>order()\<close>: the chain is emptied and filled from the tree.\<close>

fun tlist_order_from :: "'k lnode btree \<Rightarrow> nat list \<Rightarrow> nat list" where
  "tlist_order_from Tip acc = acc"
| "tlist_order_from (Node l a i r) acc =
     tlist_order_from r (tlist_order_from l acc @ [ident a])"

definition tlist_order :: "'k tree_list \<Rightarrow> 'k tree_list" where
  "tlist_order T =
     (if tree T = Tip then T else T\<lparr>chain := tlist_order_from (tree T) []\<rparr>)"

section \<open>Searches\<close>

fun tlist_find :: "'k keyClass \<Rightarrow> 'k \<Rightarrow> 'k lnode btree \<Rightarrow> 'k lnode option" where
  "tlist_find K ref Tip = None"
| "tlist_find K ref (Node l a i r) =
     (let f = compare_to K ref (Key a) False in
      if f < 0 then tlist_find K ref l
      else if f = 0 then Some a
      else tlist_find K ref r)"

text \<open>The inner loops of \<open>find_at_or_before\<close> and \<open>find_at_or_after\<close>.\<close>

fun equal_right :: "'k keyClass \<Rightarrow> 'k \<Rightarrow> 'k lnode \<Rightarrow> 'k lnode btree \<Rightarrow> 'k lnode" where
  "equal_right K compval current Tip = current"
| "equal_right K compval current (Node l tempnode i r) =
     (if key_equal K compval (Key tempnode) then equal_right K compval tempnode r else current)"

fun equal_left :: "'k keyClass \<Rightarrow> 'k \<Rightarrow> 'k lnode \<Rightarrow> 'k lnode btree \<Rightarrow> 'k lnode" where
  "equal_left K compval current Tip = current"
| "equal_left K compval current (Node l tempnode i r) =
     (if key_equal K compval (Key tempnode) then equal_left K compval tempnode l else current)"

fun find_at_or_before_loop ::
  "'k keyClass \<Rightarrow> 'k \<Rightarrow> 'k lnode btree \<Rightarrow> 'k lnode option \<Rightarrow> 'k lnode option" where
  "find_at_or_before_loop K compval Tip last_earlier_node = last_earlier_node"
| "find_at_or_before_loop K compval (Node l a i r) last_earlier_node =
     (let f = compare_to K compval (Key a) False in
      if f < 0 then find_at_or_before_loop K compval l last_earlier_node
      else if f = 0 then Some (equal_right K compval a r)
      else find_at_or_before_loop K compval r (Some a))"

definition find_at_or_before :: "'k keyClass \<Rightarrow> 'k \<Rightarrow> 'k lnode btree \<Rightarrow> 'k lnode option" where
  "find_at_or_before K compval root = find_at_or_before_loop K compval root None"

fun find_at_or_after_loop ::
  "'k keyClass \<Rightarrow> 'k \<Rightarrow> 'k lnode btree \<Rightarrow> 'k lnode option \<Rightarrow> 'k lnode option" where
  "find_at_or_after_loop K compval Tip last_later_node = last_later_node"
| "find_at_or_after_loop K compval (Node l a i r) last_later_node =
     (let f = compare_to K compval (Key a) False in
      if f < 0 then find_at_or_after_loop K compval l (Some a)
      else if f = 0 then Some (equal_left K compval a l)
      else find_at_or_after_loop K compval r last_later_node)"

definition find_at_or_after :: "'k keyClass \<Rightarrow> 'k \<Rightarrow> 'k lnode btree \<Rightarrow> 'k lnode option" where
  "find_at_or_after K compval root = find_at_or_after_loop K compval root None"

fun find_adjacent_left_loop ::
  "'k keyClass \<Rightarrow> 'k lnode \<Rightarrow> 'k lnode btree \<Rightarrow> 'k lnode option \<Rightarrow> 'k lnode option" where
  "find_adjacent_left_loop K new_node Tip last_earlier_node = last_earlier_node"
| "find_adjacent_left_loop K new_node (Node l a i r) last_earlier_node =
     (let f = compare_to K (Key new_node) (Key a) False in
      if f < 0 then find_adjacent_left_loop K new_node l last_earlier_node
      else if f = 0 then
        (if ident a \<noteq> ident new_node then Some a
         else find_adjacent_left_loop K new_node l last_earlier_node)
      else find_adjacent_left_loop K new_node r (Some a))"

fun find_adjacent_right_loop ::
  "'k keyClass \<Rightarrow> 'k lnode \<Rightarrow> 'k lnode btree \<Rightarrow> 'k lnode option \<Rightarrow> 'k lnode option" where
  "find_adjacent_right_loop K new_node Tip earliest_later_node = earliest_later_node"
| "find_adjacent_right_loop K new_node (Node l a i r) earliest_later_node =
     (let f = compare_to K (Key new_node) (Key a) False in
      if f < 0 then find_adjacent_right_loop K new_node l (Some a)
      else if f = 0 then
        (if ident a \<noteq> ident new_node then Some a
         else find_adjacent_right_loop K new_node r earliest_later_node)
      else find_adjacent_right_loop K new_node r earliest_later_node)"

text \<open>\<open>preceding_node\<close> and \<open>following_node\<close>.\<close>

definition preceding_node :: "'k keyClass \<Rightarrow> 'k lnode \<Rightarrow> 'k lnode btree \<Rightarrow> 'k lnode option" where
  "preceding_node K N root = find_adjacent_left_loop K N root None"

definition following_node :: "'k keyClass \<Rightarrow> 'k lnode \<Rightarrow> 'k lnode btree \<Rightarrow> 'k lnode option" where
  "following_node K N root = find_adjacent_right_loop K N root None"

definition find_before :: "'k keyClass \<Rightarrow> 'k \<Rightarrow> 'k lnode btree \<Rightarrow> 'k lnode option" where
  "find_before K compval root =
     (case find_at_or_before K compval root of
        None \<Rightarrow> None
      | Some node \<Rightarrow>
          (if key_equal K (Key node) compval then preceding_node K node root else Some node))"

definition find_after :: "'k keyClass \<Rightarrow> 'k \<Rightarrow> 'k lnode btree \<Rightarrow> 'k lnode option" where
  "find_after K compval root =
     (case find_at_or_after K compval root of
        None \<Rightarrow> None
      | Some node \<Rightarrow>
          (if key_equal K (Key node) compval then following_node K node root else Some node))"

end
