(* ===== verification/TListShape.thy ===== *)
theory TListShape
  imports TList
begin

text \<open>
  The tree of a \<open>tlist\<close> without its sums. Forgetting the counters of the linkers turns the
  insertion, the removal and the rotation of \<open>TList\<close> into those of \<open>blist\<close>, so that balance
  and order are inherited from \<open>AvlInsert\<close> and \<open>AvlRemove\<close>.
\<close>

section \<open>What is left of a node\<close>

type_synonym 'k core = "'k \<times> nat \<times> true_long"

definition core :: "'k lnode \<Rightarrow> 'k core" where
  "core a = (Key a, ident a, myCount a)"

abbreviation shape :: "'k lnode btree \<Rightarrow> 'k core btree" where
  "shape \<equiv> map_btree core"

fun frame_shape :: "'k lnode frame \<Rightarrow> 'k core frame" where
  "frame_shape (d, a, i, s) = (d, core a, i, shape s)"

abbreviation path_shape :: "'k lnode frame list \<Rightarrow> 'k core frame list" where
  "path_shape \<equiv> map frame_shape"

named_theorems shape_simps "forgetting the counters"

lemma core_simps [simp]:
  "core (set_cons d v a) = core a" "core (add_cons d v a) = core a" "core (init_cons a) = core a"
  "fst (core a) = Key a" "fst (snd (core a)) = ident a" "snd (snd (core a)) = myCount a"
  by (cases d; simp add: core_def add_cons_def init_cons_def)+

lemma set_cons_sel [simp]:
  "Key (set_cons d v a) = Key a" "ident (set_cons d v a) = ident a"
  "myCount (set_cons d v a) = myCount a" "get_cons d (set_cons d v a) = v"
  "get_cons (op_dir d) (set_cons d v a) = get_cons (op_dir d) a"
  "get_cons d (set_cons (op_dir d) v a) = get_cons d a"
  by (cases d; simp)+

lemma shape_Tip_iff [simp]: "shape t = Tip \<longleftrightarrow> t = Tip" "Tip = shape t \<longleftrightarrow> t = Tip"
  by (cases t; simp)+

lemma shape_attach [simp]: "shape (attach d a i s t) = attach d (core a) i (shape s) (shape t)"
  by (cases d) (simp_all add: attach_def)

lemma shape_attach_cons [simp]:
  "shape (attach_cons CA d a i s t) = attach d (core a) i (shape s) (shape t)"
  by (simp add: attach_cons_def)

lemma shape_attach_both [simp]:
  "shape (attach_both d a i s t) = attach d (core a) i (shape s) (shape t)"
  by (simp add: attach_both_def)

lemma shape_get_link [simp]: "shape (get_link d t) = get_link d (shape t)"
  by (cases t; cases d) simp_all

lemma frame_shape_simps [simp]:
  "frame_shape (add_cons_frame v fr) = frame_shape fr"
  "frame_shape (lean fr) = lean (frame_shape fr)"
  "is_balanced_frame (frame_shape fr) = is_balanced_frame fr"
  by (cases fr; simp add: is_balanced_frame_def)+

lemma path_shape_attach [simp]: "path_shape (attach_to_path CA v p) = path_shape p"
  by (cases "(CA, v, p)" rule: attach_to_path.cases) simp_all

lemma path_shape_add [simp]: "path_shape (map (add_cons_frame v) p) = path_shape p"
  by simp

lemma path_shape_lean: "path_shape (map lean p) = map lean (path_shape p)"
  by simp

lemma shape_zip_up [simp]: "shape (zip_up p t) = zip_up (path_shape p) (shape t)"
  by (induction p t rule: zip_up.induct) simp_all

lemma inorder_shape: "inorder (shape t) = map core (inorder t)"
  by (induction t) simp_all

lemma root_indicator_shape [simp]: "root_indicator (shape t) = root_indicator t"
  by (cases t) simp_all

lemma case_shape:
  "(case shape t of Tip \<Rightarrow> u | Node l a i r \<Rightarrow> f l a i r) =
     (case t of Tip \<Rightarrow> u | Node l a i r \<Rightarrow> f (shape l) (core a) i (shape r))"
  by (cases t) simp_all

section \<open>Insertion\<close>

lemma tlist_focal_shape:
  "map_ok (shape \<circ> snd) (tlist_focal d a i A below x) =
     insert_focal d (core a) i (shape A) (path_shape below) (core x)"
proof -
  note defs = tlist_focal_def insert_focal_def Let_def tlist_case3_def tlist_case45_def
    tlist_case4_def tlist_case5_def insert_case3_def insert_case45_def insert_case4_def
    insert_case5_def o_def
  have op: "attach (op_dir e) b j u v = attach e b j v u" for e b j and u v :: "'a core btree"
    by (cases e) (simp_all add: attach_def)
  consider "below = []" | d1 b bi B where "below = [(d1, b, bi, B)]"
    | d1 b bi B d2 c ci C rest where "below = (d1, b, bi, B) # (d2, c, ci, C) # rest"
    by (metis list.exhaust prod_cases4)
  then show ?thesis
    by cases (simp_all add: defs op rev_map)
qed

lemma tlist_rebalance_shape:
  "map_ok shape (tlist_rebalance path x) = insert_rebalance (path_shape path) (core x)"
proof -
  have tw: "takeWhile is_balanced_frame (path_shape path) = path_shape (takeWhile is_balanced_frame path)"
    "dropWhile is_balanced_frame (path_shape path) = path_shape (dropWhile is_balanced_frame path)"
    by (simp_all add: takeWhile_map dropWhile_map o_def)
  show ?thesis
  proof (cases "dropWhile is_balanced_frame path")
    case Nil
    show ?thesis
      unfolding insert_rebalance_def tlist_rebalance_def Let_def tw Nil list.map list.case
        map_ok_simps shape_zip_up path_shape_lean btree.map by (rule refl)
  next
    case (Cons fr up)
    obtain d a i A where fr: "fr = (d, a, i, A)" by (cases fr)
    show ?thesis
      unfolding insert_rebalance_def tlist_rebalance_def Let_def tw Cons fr
      using tlist_focal_shape [of d a i A "rev (takeWhile is_balanced_frame path)" x, symmetric]
      by (cases "tlist_focal d a i A (rev (takeWhile is_balanced_frame path)) x")
        (auto simp: rev_map split: prod.split)
  qed
qed

section \<open>Rotation and removal\<close>

lemma tlist_rotate_root_shape:
  "map_ok shape (tlist_rotate_root t a s nr) = rotate_root t (core a) (shape s) (shape nr)"
  unfolding tlist_rotate_root_def rotate_root_def case_shape
  by (simp add: Let_def split: btree.split)

lemma tlist_rotate_shape: "map_ok shape (tlist_rotate t) = rotate (shape t)"
proof (induction t rule: tlist_rotate.induct)
  case (3 l a t r)
  let ?t = "Node l a (Heavy t) r"
  let ?nr = "get_link t ?t"
  have links: "get_link d (Node (shape l) (core a) (Heavy t) (shape r)) = shape (get_link d ?t)" for d
    by (cases d) simp_all
  show ?case
  proof (cases "root_indicator ?nr = Some (Heavy (op_dir t))")
    case True
    note IH = "3.IH" [OF refl refl True, symmetric]
    show ?thesis
      using True
      by (cases "tlist_rotate ?nr")
        (simp_all add: Let_def links IH tlist_rotate_root_shape del: shape_get_link)
  next
    case False
    then show ?thesis
      by (simp add: Let_def links tlist_rotate_root_shape del: shape_get_link)
  qed
qed simp_all

lemma tlist_remove_loop_shape:
  "map_ok shape (tlist_remove_loop p t) = remove_loop (path_shape p) (shape t)"
proof (induction p t rule: tlist_remove_loop.induct)
  case (1 t)
  then show ?case by simp
next
  case (2 d a i s up t)
  show ?case
  proof (cases s)
    case Tip
    with 2 show ?thesis by simp
  next
    case (Node l q qi r)
    have links: "get_link e (Node (shape l) (core q) qi (shape r)) = shape (get_link e s)" for e
      unfolding Node by (cases e) simp_all
    consider "i = BALANCED \<or> i = Heavy d" | "i \<noteq> BALANCED" "i \<noteq> Heavy d" "qi = Heavy d"
      | "i \<noteq> BALANCED" "i \<noteq> Heavy d" "qi \<noteq> Heavy d" by blast
    then show ?thesis
    proof cases
      case 1
      with 2 show ?thesis by auto
    next
      case c: 2
      have "tlist_remove_loop ((d, a, i, s) # up) t =
          (case tlist_rotate s of Inl e \<Rightarrow> Inl e
           | Inr s' \<Rightarrow> tlist_remove_loop ((d, a, i, s') # up) t)"
        by (subst tlist_remove_loop.simps(2), subst (1) Node)
          (simp add: c del: tlist_remove_loop.simps tlist_rotate.simps)
      moreover have "remove_loop (path_shape ((d, a, i, s) # up)) (shape t) =
          (case rotate (shape s) of Inl e \<Rightarrow> Inl e
           | Inr s' \<Rightarrow> remove_loop ((d, core a, i, s') # path_shape up) (shape t))"
        unfolding list.map frame_shape.simps
        by (subst remove_loop.simps(2), unfold case_shape, subst (1) Node)
          (simp add: c del: remove_loop.simps rotate.simps)
      ultimately show ?thesis
        using "2.IH"(2) [OF c(1,2) Node c(3)] tlist_rotate_shape [of s, symmetric]
        by (cases "tlist_rotate s") (simp_all del: remove_loop.simps tlist_remove_loop.simps)
    next
      case c: 3
      with "2.IH"(3) [OF c(1,2) Node c(3) refl] show ?thesis
        by (simp add: Node links Let_def del: shape_get_link) (simp add: Node)
    qed
  qed
qed

lemma tlist_remove_adjust_shape:
  "map_ok shape (tlist_remove_adjust p hole) = remove_adjust (path_shape p) (shape hole)"
proof (cases p)
  case Nil
  then show ?thesis by (simp add: tlist_remove_adjust_def remove_adjust_def)
next
  case (Cons fr up)
  obtain P n i s where fr: "fr = (P, n, i, s)" by (cases fr)
  have other: "attach_cons UPDATE_CONS (op_dir P) n BALANCED hole Tip =
      attach P (set_cons (op_dir P) 0 n) BALANCED Tip hole"
    by (cases P) (simp_all add: attach_cons_def attach_def)
  show ?thesis
  proof (cases s)
    case Tip
    then show ?thesis
      by (simp add: Cons fr tlist_remove_adjust_def remove_adjust_def Let_def tlist_remove_loop_shape)
  next
    case (Node l a ai r)
    consider "i = BALANCED \<or> i = Heavy P" | "i \<noteq> BALANCED" "i \<noteq> Heavy P" by blast
    then show ?thesis
    proof cases
      case 1
      then show ?thesis
        by (auto simp: Cons fr tlist_remove_adjust_def remove_adjust_def tlist_remove_loop_shape)
    next
      case c: 2
      have s: "(case s of Tip \<Rightarrow> u | Node l a ai r \<Rightarrow> f l a ai r) = f l a ai r" for u f
        by (simp add: Node)
      have red: "tlist_remove_adjust p hole =
          (if ai = Heavy P then
             (case get_link P s of Tip \<Rightarrow> Inl NullAccess
              | Node _ newnode ni _ \<Rightarrow>
                  tlist_remove_loop up
                    (attach_both P newnode ni
                       (attach_cons UPDATE_CONS P a BALANCED (get_link (op_dir P) s) Tip)
                       (attach P (set_cons (op_dir P) 0 n) BALANCED Tip hole)))
           else if ai = Heavy (op_dir P) then
             tlist_remove_loop up
               (attach_cons UPDATE_CONS P a BALANCED (get_link (op_dir P) s)
                  (attach P (set_cons (op_dir P) 0 n) BALANCED Tip hole))
           else
             (case get_link P s of Tip \<Rightarrow> Inl NullAccess
              | Node _ b bi _ \<Rightarrow>
                  Inr (zip_up up
                    (attach_cons UPDATE_CONS P a (Heavy P) (get_link (op_dir P) s)
                       (attach_cons UPDATE_CONS P b (Heavy P) (get_link (op_dir P) (get_link P s))
                          (attach P (set_cons (op_dir P) 0 n) BALANCED Tip hole))))))"
        unfolding Cons fr tlist_remove_adjust_def list.case prod.case if_not_P [OF c(1)]
          if_not_P [OF c(2)] Let_def other s by (rule refl)
      have red': "remove_adjust (path_shape p) (shape hole) =
          (if ai = Heavy P then
             (case get_link P s of Tip \<Rightarrow> Inl NullAccess
              | Node _ newnode ni _ \<Rightarrow>
                  remove_loop (path_shape up)
                    (attach P (core newnode) ni
                       (attach P (core a) BALANCED (shape (get_link (op_dir P) s)) Tip)
                       (attach P (core n) BALANCED Tip (shape hole))))
           else if ai = Heavy (op_dir P) then
             remove_loop (path_shape up)
               (attach P (core a) BALANCED (shape (get_link (op_dir P) s))
                  (attach P (core n) BALANCED Tip (shape hole)))
           else
             (case get_link P s of Tip \<Rightarrow> Inl NullAccess
              | Node _ b bi _ \<Rightarrow>
                  Inr (zip_up (path_shape up)
                    (attach P (core a) (Heavy P) (shape (get_link (op_dir P) s))
                       (attach P (core b) (Heavy P)
                          (shape (get_link (op_dir P) (get_link P s)))
                          (attach P (core n) BALANCED Tip (shape hole)))))))"
        unfolding Cons fr remove_adjust_def list.map frame_shape.simps list.case prod.case
          if_not_P [OF c(1)] if_not_P [OF c(2)] Let_def shape_get_link [symmetric] case_shape s by (rule refl)
      show ?thesis
        unfolding red red'
        by (cases "get_link P s") (simp_all add: tlist_remove_loop_shape)
    qed
  qed
qed

definition walk_shape :: "'k lnode \<times> 'k lnode btree \<times> 'k lnode frame list
    \<Rightarrow> 'k core \<times> 'k core btree \<times> 'k core frame list" where
  "walk_shape w = (case w of (e, rest, p) \<Rightarrow> (core e, shape rest, path_shape p))"

lemma swap_walk_shape:
  "map_ok walk_shape (swap_walk s t p) = swap_walk s (shape t) (path_shape p)"
proof (induction s t p rule: swap_walk.induct)
  case (2 s l a i r p)
  have links: "get_link e (Node (shape l) (core a) i (shape r)) = shape (get_link e (Node l a i r))" for e
    by (cases e) simp_all
  show ?case
  proof (cases "get_link s (Node l a i r) = Tip")
    case True
    then show ?thesis by (simp add: Let_def links walk_shape_def del: shape_get_link)
  next
    case False
    with "2.IH" [OF refl False] show ?thesis by (simp add: Let_def links del: shape_get_link)
  qed
qed simp

definition swap_shape :: "'k lnode frame list \<times> 'k lnode btree \<Rightarrow> 'k core frame list \<times> 'k core btree" where
  "swap_shape w = (case w of (p, hole) \<Rightarrow> (path_shape p, shape hole))"

lemma tlist_swap_heavy_shape:
  "map_ok swap_shape (tlist_swap_heavy h p H i S) =
     swap_heavy h (path_shape p) (shape H) i (shape S)"
proof (cases H)
  case Tip
  then show ?thesis by (simp add: tlist_swap_heavy_def swap_heavy_def)
next
  case (Node l a ai r)
  have links: "get_link e (Node (shape l) (core a) ai (shape r)) = shape (get_link e H)" for e
    unfolding Node by (cases e) simp_all
  let ?w = "swap_walk (op_dir h) (get_link (op_dir h) H) [(op_dir h, a, ai, get_link h H)]"
  have walk: "swap_walk (op_dir h) (shape (get_link (op_dir h) H))
      [(op_dir h, core a, ai, shape (get_link h H))] = map_ok walk_shape ?w"
    unfolding swap_walk_shape by simp
  show ?thesis
  proof (cases "get_link (op_dir h) H = Tip")
    case True
    then show ?thesis
      by (cases "get_link h H")
        (simp_all add: tlist_swap_heavy_def swap_heavy_def Node links [unfolded Node] Let_def
          swap_shape_def del: shape_get_link, simp_all)
  next
    case False
    have "map_ok swap_shape (tlist_swap_heavy h p H i S) =
      map_ok swap_shape (bind_result ?w
               (\<lambda>(end_node, rest, walked).
                  let walked' = map (add_cons_frame (- myCount end_node)) walked;
                      end_node' = set_cons (op_dir h) (link_cons S)
                        (set_cons h (link_cons (zip_up walked' rest)) end_node);
                      swapped = walked' @ (h, end_node', i, S)
                        # attach_to_path UPDATE_CONS (node_cons end_node') p
                  in Inr (case rest of
                       Tip \<Rightarrow> (swapped, Tip)
                     | Node _ b bi _ \<Rightarrow>
                         ((op_dir h, b, Heavy (op_dir h), get_link h rest) # swapped,
                          get_link (op_dir h) rest))))"
      using False unfolding Node by (simp add: tlist_swap_heavy_def Let_def)
    also have "\<dots> = bind_result (map_ok walk_shape ?w)
               (\<lambda>(end_node, rest, walked).
                  let swapped = walked @ (h, end_node, i, shape S) # path_shape p
                  in Inr (case rest of
                       Tip \<Rightarrow> (swapped, Tip)
                     | Node _ b bi _ \<Rightarrow>
                         ((op_dir h, b, Heavy (op_dir h), get_link h rest) # swapped,
                          get_link (op_dir h) rest)))"
      by (cases ?w) (auto simp: Let_def walk_shape_def swap_shape_def case_shape o_def
          split: btree.split)
    also have "\<dots> = swap_heavy h (path_shape p) (shape H) i (shape S)"
      using False unfolding Node
      by (simp add: swap_heavy_def Let_def links [unfolded Node] walk [unfolded Node]
          del: shape_get_link)
    finally show ?thesis .
  qed
qed

lemma tlist_remove_swap_shape:
  "map_ok swap_shape (tlist_remove_swap p l i r) =
     remove_swap (path_shape p) (shape l) i (shape r)"
  by (simp add: tlist_remove_swap_def remove_swap_def tlist_swap_heavy_shape)
    (simp add: swap_shape_def)

end
