(* ===== verification/TListCons.thy ===== *)
theory TListCons
  imports TListShape
begin

text \<open>
  The sums kept by the linkers of a \<open>tlist\<close>: in every node the counter of a side is the sum of
  the increments below it on that side (\<open>cons_ok\<close>). Every \<open>attach\<close> of the insertion and the
  removal, with or without the flag \<open>UPDATE_CONS\<close>, keeps it, and climbing from a node
  (\<open>get_int_consumption\<close>) adds up the increments of the nodes up to it.
\<close>

section \<open>The invariant of the sums\<close>

fun tsum :: "'k lnode btree \<Rightarrow> true_long" where
  "tsum Tip = 0"
| "tsum (Node l a i r) = tsum l + myCount a + tsum r"

fun cons_ok :: "'k lnode btree \<Rightarrow> bool" where
  "cons_ok Tip = True"
| "cons_ok (Node l a i r) =
     (cons_ok l \<and> cons_ok r \<and> nCount_left a = tsum l \<and> nCount_right a = tsum r)"

text \<open>A path is fit for a subtree whose increments add up to \<open>v\<close>.\<close>

fun cons_path :: "'k lnode frame list \<Rightarrow> true_long \<Rightarrow> bool" where
  "cons_path [] v = True"
| "cons_path ((d, a, i, s) # up) v =
     (cons_ok s \<and> get_cons d a = v \<and> get_cons (op_dir d) a = tsum s
      \<and> cons_path up (v + myCount a + tsum s))"

fun path_sum :: "'k lnode frame list \<Rightarrow> true_long \<Rightarrow> true_long" where
  "path_sum [] v = v"
| "path_sum ((d, a, i, s) # up) v = path_sum up (v + myCount a + tsum s)"

lemma tsum_inorder: "tsum t = sum_list (map myCount (inorder t))"
  by (induction t) (simp_all add: ac_simps)

lemma link_cons_ok [simp]: "cons_ok t \<Longrightarrow> link_cons t = tsum t"
  by (cases t) (simp_all add: node_cons_def ac_simps)

lemma tsum_attach [simp]: "tsum (attach d a i s t) = tsum t + myCount a + tsum s"
  by (cases d) (simp_all add: attach_def ac_simps)

lemma cons_ok_attach [simp]:
  "cons_ok (attach d a i s t) \<longleftrightarrow>
     cons_ok s \<and> cons_ok t \<and> get_cons d a = tsum t \<and> get_cons (op_dir d) a = tsum s"
  by (cases d) (auto simp: attach_def)

lemma tsum_attach_cons [simp]: "tsum (attach_cons CA d a i s t) = tsum t + myCount a + tsum s"
  by (simp add: attach_cons_def)

lemma cons_ok_attach_cons [simp]:
  "cons_ok t \<Longrightarrow> cons_ok (attach_cons UPDATE_CONS d a i s t) \<longleftrightarrow>
     cons_ok s \<and> get_cons (op_dir d) a = tsum s"
  by (simp add: attach_cons_def)

lemma tsum_attach_both [simp]: "tsum (attach_both d a i s t) = tsum t + myCount a + tsum s"
  by (simp add: attach_both_def)

lemma cons_ok_attach_both [simp]:
  "cons_ok s \<Longrightarrow> cons_ok t \<Longrightarrow> cons_ok (attach_both d a i s t)"
  by (simp add: attach_both_def)

lemma tsum_get_link:
  "tsum (Node l a i r) =
     tsum (get_link d (Node l a i r)) + myCount a + tsum (get_link (op_dir d) (Node l a i r))"
  by (cases d) (simp_all add: ac_simps)

lemma cons_ok_get_link:
  "cons_ok (Node l a i r) \<longleftrightarrow>
     cons_ok (get_link d (Node l a i r)) \<and> cons_ok (get_link (op_dir d) (Node l a i r))
     \<and> get_cons d a = tsum (get_link d (Node l a i r))
     \<and> get_cons (op_dir d) a = tsum (get_link (op_dir d) (Node l a i r))"
  by (cases d) auto

lemma cons_ok_link: "cons_ok t \<Longrightarrow> cons_ok (get_link d t)"
  by (cases t; cases d) simp_all

lemma cons_ok_zip_up: "cons_ok (zip_up p t) \<longleftrightarrow> cons_ok t \<and> cons_path p (tsum t)"
  by (induction p t rule: zip_up.induct) auto

lemma tsum_zip_up [simp]: "tsum (zip_up p t) = path_sum p (tsum t)"
  by (induction p t rule: zip_up.induct) simp_all

lemma cons_path_append:
  "cons_path (p @ q) v \<longleftrightarrow> cons_path p v \<and> cons_path q (path_sum p v)"
  by (induction p v rule: cons_path.induct) simp_all

lemma path_sum_append: "path_sum (p @ q) v = path_sum q (path_sum p v)"
  by (induction p v rule: path_sum.induct) simp_all

lemma path_sum_add: "path_sum p (v + w) = path_sum p v + w"
proof (induction p v rule: path_sum.induct)
  case (2 d a i s up v)
  have eq: "v + w + myCount a + tsum s = v + myCount a + tsum s + w" by (simp add: ac_simps)
  show ?case unfolding path_sum.simps eq by (rule 2)
qed simp

lemma cons_path_lean [simp]:
  "cons_path (map lean p) v = cons_path p v" "path_sum (map lean p) v = path_sum p v"
  by (induction p v rule: cons_path.induct) simp_all

text \<open>An \<open>attach\<close> to the path with the sum that is there already changes nothing.\<close>

lemma set_cons_same: "get_cons d a = v \<Longrightarrow> set_cons d v a = a"
  by (cases d) auto

lemma attach_to_path_same [simp]: "cons_path p v \<Longrightarrow> attach_to_path CA v p = p"
  by (cases "(CA, v, p)" rule: attach_to_path.cases) (auto simp: set_cons_same)

lemma add_cons_sel [simp]:
  "get_cons d (add_cons d v a) = get_cons d a + v"
  "get_cons (op_dir d) (add_cons d v a) = get_cons (op_dir d) a"
  "myCount (add_cons d v a) = myCount a"
  by (cases d; simp add: add_cons_def)+

lemma path_sum_add_frames [simp]: "path_sum (map (add_cons_frame v) p) w = path_sum p w"
  by (induction p w rule: path_sum.induct) simp_all

lemma cons_path_add_frames:
  "cons_path p w \<Longrightarrow> w' = w + v \<Longrightarrow> cons_path (map (add_cons_frame v) p) w'"
  by (induction p w arbitrary: w' rule: cons_path.induct) (simp_all add: ac_simps)

section \<open>Insertion\<close>

definition counts_nothing :: "'k lnode \<Rightarrow> bool" where
  "counts_nothing x \<longleftrightarrow> myCount x = 0 \<and> nCount_left x = 0 \<and> nCount_right x = 0"

lemma hang_cons:
  assumes "counts_nothing x" and "cons_path (rev p) 0"
  shows "cons_ok (zip_up (rev (map lean p)) (Node Tip x BALANCED Tip))"
    and "tsum (zip_up (rev (map lean p)) (Node Tip x BALANCED Tip)) = path_sum (rev p) 0"
  using assms by (simp_all add: cons_ok_zip_up counts_nothing_def rev_map del: map_map)

lemma tlist_focal_cons:
  assumes x: "counts_nothing x" and path: "cons_path (rev below @ [(d, a, i, A)]) 0"
    and res: "tlist_focal d a i A below x = Inr (CA, t)"
  shows "cons_ok t \<and> tsum t = path_sum (rev below @ [(d, a, i, A)]) 0"
proof -
  have x0: "myCount x = 0" "get_cons e x = 0" for e
    using x by (cases e; simp add: counts_nothing_def)+
  note defs = tlist_focal_def Let_def tlist_case3_def tlist_case45_def tlist_case4_def
    tlist_case5_def
  consider (heavy) "i \<noteq> Heavy d" | (one) d1 b bi B rest where "below = (d1, b, bi, B) # rest" "i = Heavy d"
    using res by (cases below) (auto simp: defs split: if_splits)
  then show ?thesis
  proof cases
    case heavy
    with res path hang_cons [OF x, of below] show ?thesis
      by (auto simp: defs cons_path_append path_sum_append)
  next
    case one
    show ?thesis
    proof (cases "d1 = d")
      case True
      with one res path hang_cons [OF x, of rest] show ?thesis
        by (auto simp: defs cons_path_append path_sum_append ac_simps)
    next
      case False
      then have d1: "d1 = op_dir d" by (simp add: neq_op_iff)
      show ?thesis
      proof (cases rest)
        case Nil
        with one res path d1 show ?thesis
          by (auto simp: defs cons_path_append path_sum_append x0 ac_simps)
      next
        case (Cons fr rest2)
        obtain d2 c ci C where fr: "fr = (d2, c, ci, C)" by (cases fr)
        with Cons one res path d1 hang_cons [OF x, of rest2] show ?thesis
          by (auto simp: defs cons_path_append path_sum_append ac_simps neq_op_iff
              simp del: map_map split: if_splits)
      qed
    qed
  qed
qed

lemma tlist_rebalance_cons:
  assumes x: "counts_nothing x" and path: "cons_path path 0" and res: "tlist_rebalance path x = Inr t"
  shows "cons_ok t"
proof -
  let ?below = "takeWhile is_balanced_frame path"
  let ?rest = "dropWhile is_balanced_frame path"
  have split: "cons_path (?below @ ?rest) 0" using path by simp
  show ?thesis
  proof (cases ?rest)
    case Nil
    with res have "t = zip_up (map lean ?below) (Node Tip x BALANCED Tip)"
      unfolding tlist_rebalance_def Let_def Nil by (simp only: list.case sum.inject)
    with split x show ?thesis
      unfolding Nil by (simp add: cons_ok_zip_up counts_nothing_def)
  next
    case (Cons fr up)
    obtain d a i A where fr: "fr = (d, a, i, A)" by (cases fr)
    from res obtain CA u where
      u: "tlist_focal d a i A (rev ?below) x = Inr (CA, u)"
         "t = zip_up (attach_to_path CA (link_cons u) up) u"
      unfolding tlist_rebalance_def Let_def Cons fr list.case prod.case
      by (auto simp: bind_result_ok)
    have p: "cons_path (rev (rev ?below) @ [(d, a, i, A)]) 0"
      "cons_path up (path_sum (rev (rev ?below) @ [(d, a, i, A)]) 0)"
      using split unfolding Cons fr by (simp_all add: cons_path_append path_sum_append)
    with tlist_focal_cons [OF x p(1) u(1)] have "cons_ok u" "cons_path up (tsum u)" by simp_all
    with u(2) show ?thesis by (simp add: cons_ok_zip_up)
  qed
qed

section \<open>The chain of parents\<close>

lemma parents_zip:
  "parents N t path = Some (path', u) \<Longrightarrow>
     zip_up path' u = zip_up path t \<and> (\<exists>l a i r. u = Node l a i r \<and> ident a = N)"
proof (induction t arbitrary: path)
  case (Node l a i r)
  then show ?case
    by (fastforce simp: attach_def split: if_splits option.splits)
qed simp

lemma parents_found:
  "N \<in> ident ` set (inorder t) \<Longrightarrow> parents N t path \<noteq> None"
  by (induction t arbitrary: path) (auto split: option.split, metis option.distinct(1))

lemma account_cons:
  assumes ok: "cons_ok t" and x: "N \<in> ident ` set (inorder t)"
    and zero: "\<forall>a\<in>set (inorder t). ident a = N \<longrightarrow> myCount a = 0"
  shows "cons_ok (account N v t)"
proof -
  from parents_found [OF x] obtain path u where pu: "parents N t [] = Some (path, u)"
    by (metis not_None_eq surj_pair)
  from parents_zip [OF pu] obtain l a i r where
    u: "u = Node l a i r" "ident a = N" and zip: "zip_up path (Node l a i r) = t" by auto
  have "a \<in> set (inorder t)" unfolding zip [symmetric] by (simp add: inorder_zip_up)
  with zero u(2) have a: "myCount a = 0" by blast
  from ok have "cons_ok (Node l a i r)" "cons_path path (tsum l + tsum r)"
    unfolding zip [symmetric] cons_ok_zip_up by (simp_all add: a)
  then show ?thesis
    using cons_path_add_frames [of path "tsum l + tsum r" "tsum l + v + tsum r" v]
    by (simp add: account_def pu u(1) cons_ok_zip_up ac_simps)
qed

text \<open>\<open>account\<close> writes one increment.\<close>

definition put_count :: "nat \<Rightarrow> true_long \<Rightarrow> 'k core \<Rightarrow> 'k core" where
  "put_count N v e = (if fst (snd e) = N then (fst e, N, v) else e)"

lemma put_count_other: "ident b \<noteq> N \<Longrightarrow> put_count N v (core b) = core b"
  by (simp add: put_count_def)

lemma shape_account:
  assumes dist: "distinct (map ident (inorder t))"
  shows "shape (account N v t) = map_btree (put_count N v) (shape t)"
proof (cases "parents N t []")
  case None
  then have "N \<notin> ident ` set (inorder t)" using parents_found by blast
  then have "map_btree (put_count N v) (shape t) = shape t"
    by (induction t) (auto simp: put_count_def)
  with None show ?thesis by (simp add: account_def)
next
  case (Some z)
  obtain path u where z: "z = (path, u)" by (cases z)
  with Some have pu: "parents N t [] = Some (path, u)" by simp
  from parents_zip [OF pu] obtain l a i r where
    u: "u = Node l a i r" "ident a = N" and zip: "zip_up path (Node l a i r) = t" by auto
  have others: "map_btree (put_count N v) (shape w) = shape w" if "N \<notin> ident ` set (inorder w)" for w :: "'a lnode btree"
    using that by (induction w) (auto simp: put_count_def)
  have frames: "N \<notin> ident ` set (path_before path)" "N \<notin> ident ` set (path_after path)"
    "N \<notin> ident ` set (inorder l)" "N \<notin> ident ` set (inorder r)"
    using dist u(2) unfolding zip [symmetric] inorder_zip_up by auto
  have zips: "map_btree (put_count N v) (zip_up (path_shape p) w) =
      zip_up (path_shape p) (map_btree (put_count N v) w)"
    if "N \<notin> ident ` set (path_before p)" "N \<notin> ident ` set (path_after p)"
    for p :: "'a lnode frame list" and w
    using that
  proof (induction p arbitrary: w)
    case (Cons fr p)
    obtain d b j s where fr: "fr = (d, b, j, s)" by (cases fr)
    with Cons.prems have "N \<notin> ident ` set (inorder s)" "ident b \<noteq> N"
      "N \<notin> ident ` set (path_before p)" "N \<notin> ident ` set (path_after p)"
      by (cases d; auto)+
    with Cons.IH others [of s] fr show ?case
      by (cases d) (simp_all add: attach_def put_count_other)
  qed simp
  have "map_btree (put_count N v) (shape t) =
      zip_up (path_shape path) (map_btree (put_count N v) (shape (Node l a i r)))"
    unfolding zip [symmetric] shape_zip_up by (rule zips [OF frames(1,2)])
  also have "\<dots> = shape (account N v t)"
    using others frames(3,4) u(2)
    by (simp add: account_def pu u(1) put_count_def core_def o_def)
  finally show ?thesis by simp
qed

section \<open>Rotation and removal\<close>

lemma tlist_rotate_root_cons:
  assumes "tlist_rotate_root t a s nr = Inr t'" and "cons_ok nr" and "cons_ok s"
    and "get_cons (op_dir t) a = tsum s"
  shows "cons_ok t' \<and> tsum t' = tsum nr + myCount a + tsum s"
proof -
  from assms(1) obtain l b j r where nr: "nr = Node l b j r"
    by (cases nr) (auto simp: tlist_rotate_root_def)
  from cons_ok_get_link [of l b j r "op_dir t"] assms(2) have
    "cons_ok (get_link t nr)" "cons_ok (get_link (op_dir t) nr)" "get_cons t b = tsum (get_link t nr)"
    unfolding nr by simp_all
  with assms nr tsum_get_link [of l b j r t] show ?thesis
    by (auto simp: tlist_rotate_root_def Let_def ac_simps)
qed

lemma tlist_rotate_cons:
  "tlist_rotate t = Inr t' \<Longrightarrow> root_indicator t = Some (Heavy d) \<Longrightarrow> cons_ok t \<Longrightarrow>
     cons_ok t' \<and> tsum t' = tsum t"
proof (induction t arbitrary: d t' rule: tlist_rotate.induct)
  case (3 l a e r)
  let ?t = "Node l a (Heavy e) r"
  let ?nr = "get_link e ?t" and ?s = "get_link (op_dir e) ?t"
  from "3.prems"(3) cons_ok_get_link [of l a "Heavy e" r e]
  have ok: "cons_ok ?nr" "cons_ok ?s" "get_cons (op_dir e) a = tsum ?s" by simp_all
  show ?case
  proof (cases "root_indicator ?nr = Some (Heavy (op_dir e))")
    case True
    with "3.prems"(1) obtain nr where nr: "tlist_rotate ?nr = Inr nr"
      and res: "tlist_rotate_root e (set_cons e (link_cons nr) a) ?s nr = Inr t'"
      by (simp add: Let_def split: sum.splits)
    from "3.IH" [OF refl refl True nr True ok(1)] have "cons_ok nr" "tsum nr = tsum ?nr" by simp_all
    with tlist_rotate_root_cons [OF res] ok tsum_get_link [of l a "Heavy e" r e] show ?thesis by simp
  next
    case False
    with "3.prems"(1) have "tlist_rotate_root e a ?s ?nr = Inr t'" by (simp add: Let_def)
    from tlist_rotate_root_cons [OF this ok] tsum_get_link [of l a "Heavy e" r e] show ?thesis by simp
  qed
qed simp_all

lemma tlist_remove_loop_cons:
  "tlist_remove_loop p t = Inr t' \<Longrightarrow> cons_ok t \<Longrightarrow> cons_path p (tsum t) \<Longrightarrow> cons_ok t'"
proof (induction p t rule: tlist_remove_loop.induct)
  case (1 t)
  then show ?case by simp
next
  case (2 d a i s up t)
  note path = "2.prems"(2,3)
  consider "i = BALANCED" | "i = Heavy d" | (other) "i \<noteq> BALANCED" "i \<noteq> Heavy d" by blast
  then show ?case
  proof cases
    case 1
    with "2.prems" show ?thesis by (auto simp: cons_ok_zip_up)
  next
    case c: 2
    with "2.prems" show ?thesis using "2.IH"(1) by auto
  next
    case other
    with "2.prems"(1) obtain l q qi r where s: "s = Node l q qi r"
      by (cases s) auto
    have sc: "cons_ok s" "get_cons d a = tsum t" "get_cons (op_dir d) a = tsum s"
      "cons_path up (tsum t + myCount a + tsum s)"
      using path by simp_all
    with cons_ok_get_link [of l q qi r d] have links:
      "cons_ok (get_link d s)" "cons_ok (get_link (op_dir d) s)"
      "get_cons (op_dir d) q = tsum (get_link (op_dir d) s)"
      unfolding s by simp_all
    have sum: "tsum s = tsum (get_link d s) + myCount q + tsum (get_link (op_dir d) s)"
      unfolding s by (rule tsum_get_link)
    show ?thesis
    proof (cases "qi = Heavy d")
      case True
      have step: "tlist_remove_loop ((d, a, i, s) # up) t =
          (case tlist_rotate s of Inl e \<Rightarrow> Inl e
           | Inr s' \<Rightarrow> tlist_remove_loop ((d, a, i, s') # up) t)"
        by (subst tlist_remove_loop.simps(2), subst (1) s)
          (simp add: other True del: tlist_remove_loop.simps tlist_rotate.simps)
      with "2.prems"(1) obtain s' where s': "tlist_rotate s = Inr s'"
        and res: "tlist_remove_loop ((d, a, i, s') # up) t = Inr t'"
        by (cases "tlist_rotate s") (simp_all del: tlist_remove_loop.simps)
      have "cons_ok s' \<and> tsum s' = tsum s"
        by (rule tlist_rotate_cons [OF s' _ sc(1)]) (simp add: s True)
      with path sc show ?thesis
        using "2.IH"(2) [OF other s True s' res] by simp
    next
      case False
      let ?inner = "\<lambda>j. attach_cons UPDATE_CONS (op_dir d) a j t (get_link d s)"
      let ?u = "\<lambda>k j. attach_cons UPDATE_CONS d q k (get_link (op_dir d) s) (?inner j)"
      have u: "cons_ok (?u k j)" "tsum (?u k j) = tsum t + myCount a + tsum s" for k j
        using links path sc(2) by (simp_all add: sum ac_simps)
      have up: "cons_path up (tsum (?u k j))" for k j
        unfolding u(2) by (rule sc(4))
      show ?thesis
      proof (cases "qi = BALANCED")
        case True
        with "2.prems"(1) other False have
          "t' = zip_up up (?u (Heavy d) (Heavy (op_dir d)))"
          by (auto simp: s Let_def)
        then show ?thesis using u(1) up by (simp only: cons_ok_zip_up)
      next
        case nb: False
        with "2.prems"(1) other False have "tlist_remove_loop up (?u BALANCED BALANCED) = Inr t'"
          by (simp add: s Let_def)
        from "2.IH"(3) [OF other s False refl nb this u(1) up] show ?thesis .
      qed
    qed
  qed
qed

text \<open>The adjustment overwrites links that are NULL in a balanced tree.\<close>

lemma avl_shape [simp]: "height (shape t) = height t" "avl (shape t) = avl t"
  by (induction t) simp_all

lemma avl_path_shape [simp]: "avl_path (path_shape p) h = avl_path p h"
  by (induction p h rule: avl_path.induct) simp_all

lemma height_one: "height t = Suc 0 \<Longrightarrow> \<exists>b i. t = Node Tip b i Tip"
  by (cases t) (auto simp: max_def split: if_splits)

lemma heavy_side:
  assumes "avl s" and "height s = Suc (Suc 0)"
  obtains (A) a b bi where "s = attach P a (Heavy P) Tip (Node Tip b bi Tip)"
    | (B) a y where "s = attach P a (Heavy (op_dir P)) y Tip"
    | (C) a y b bi where "s = attach P a BALANCED y (Node Tip b bi Tip)"
proof (cases s rule: attach_exhaust [where d = P])
  case 1
  with assms show ?thesis by simp
next
  case (2 a i y z)
  consider "i = Heavy P" | "i = Heavy (op_dir P)" | "i = BALANCED"
    by (metis indicator.exhaust neq_op_iff)
  then show ?thesis
  proof cases
    case 1
    with 2 assms have "y = Tip" "height z = Suc 0" by auto
    with 1 2 A height_one [of z] show ?thesis by auto
  next
    case 2
    with \<open>s = attach P a i y z\<close> assms have "z = Tip" by auto
    with 2 \<open>s = attach P a i y z\<close> B show ?thesis by auto
  next
    case 3
    with 2 assms have "height z = Suc 0" by auto
    with 3 2 C height_one [of z] show ?thesis by auto
  qed
qed

lemma get_link_leaf [simp]: "get_link d (Node Tip b i Tip) = Tip"
  by (cases d) simp_all

lemma tlist_remove_adjust_cons:
  assumes res: "tlist_remove_adjust p Tip = Inr t'" and avl: "avl_path p (Suc 0)"
    and path: "cons_path p 0"
  shows "cons_ok t'"
proof (cases p)
  case Nil
  with res show ?thesis by (simp add: tlist_remove_adjust_def)
next
  case (Cons fr up)
  obtain P n i s where fr: "fr = (P, n, i, s)" by (cases fr)
  from path have sc: "cons_ok s" "get_cons P n = 0" "get_cons (op_dir P) n = tsum s"
    "cons_path up (myCount n + tsum s)"
    by (simp_all add: Cons fr)
  have n_sum: "get_cons (op_dir P) (set_cons (op_dir P) 0 n) = 0" by simp
  consider (c1) "i = BALANCED" | (c2) "i = Heavy P" | (c3) "i = Heavy (op_dir P)"
    by (metis indicator.exhaust neq_op_iff)
  then show ?thesis
  proof cases
    case c1
    with res sc show ?thesis
      by (auto simp: Cons fr tlist_remove_adjust_def cons_ok_zip_up)
  next
    case c2
    with res sc tlist_remove_loop_cons [of up "attach P n BALANCED s Tip" t'] show ?thesis
      by (simp add: Cons fr tlist_remove_adjust_def)
  next
    case c3
    let ?n = "attach_cons UPDATE_CONS (op_dir P) n BALANCED Tip Tip"
    have n: "cons_ok ?n" "tsum ?n = myCount n" using sc(2) by simp_all
    from avl c3 have "avl s" "height s = Suc (Suc 0)" by (simp_all add: Cons fr)
    then show ?thesis
    proof (cases rule: heavy_side [where P = P])
      case (A a b bi)
      let ?u = "attach_both P b bi (attach_cons UPDATE_CONS P a BALANCED Tip Tip) ?n"
      have loop: "tlist_remove_loop up ?u = Inr t'"
        using res A c3 by (simp add: Cons fr tlist_remove_adjust_def Let_def)
      show ?thesis
        by (rule tlist_remove_loop_cons [OF loop]) (use n sc A in \<open>simp_all add: ac_simps\<close>)
    next
      case (B a y)
      let ?u = "attach_cons UPDATE_CONS P a BALANCED y ?n"
      have loop: "tlist_remove_loop up ?u = Inr t'"
        using res B c3 by (simp add: Cons fr tlist_remove_adjust_def Let_def)
      show ?thesis
        by (rule tlist_remove_loop_cons [OF loop]) (use n sc B in \<open>simp_all add: ac_simps\<close>)
    next
      case (C a y b bi)
      have "t' = zip_up up (attach_cons UPDATE_CONS P a (Heavy P) y
          (attach_cons UPDATE_CONS P b (Heavy P) Tip ?n))"
        using res C c3 by (auto simp: Cons fr tlist_remove_adjust_def Let_def)
      moreover have "get_cons (op_dir P) b = 0"
        using sc(1) C by (cases P) simp_all
      ultimately show ?thesis using n sc C by (simp add: cons_ok_zip_up ac_simps)
    qed
  qed
qed

text \<open>The swap: after it, the path fits a hole that counts nothing.\<close>

lemma tlist_swap_heavy_cons:
  assumes res: "tlist_swap_heavy h p H i S = Inr (p', Tip)" and H: "cons_ok H" and S: "cons_ok S"
    and path: "cons_path p (tsum H + tsum S)"
  shows "cons_path p' 0"
proof (cases H)
  case Tip
  with res show ?thesis by (simp add: tlist_swap_heavy_def)
next
  case (Node l a ai r)
  let ?s = "op_dir h"
  have links: "cons_ok (get_link h H)" "cons_ok (get_link ?s H)" "get_cons h a = tsum (get_link h H)"
    "get_cons ?s a = tsum (get_link ?s H)" "tsum H = tsum (get_link h H) + myCount a + tsum (get_link ?s H)"
    using H cons_ok_get_link [of l a ai r h] tsum_get_link [of l a ai r h] unfolding Node by simp_all
  have case_H: "(case H of Tip \<Rightarrow> u | Node l a ai r \<Rightarrow> f l a ai r) = f l a ai r" for u f
    by (simp add: Node)
  note red = res [unfolded tlist_swap_heavy_def Let_def case_H]
  show ?thesis
  proof (cases "get_link ?s H = Tip")
    case True
    have a: "node_cons (set_cons ?s (link_cons S) a) = tsum H + tsum S"
      using links True S by (cases h) (simp_all add: node_cons_def ac_simps)
    show ?thesis
    proof (cases "get_link h H")
      case Tip
      with red True links S path show ?thesis
        by (auto simp: node_cons_def a ac_simps split: if_splits) (cases h; simp add: node_cons_def)+
    next
      case x: (Node l' b bi r')
      have b: "cons_ok (get_link h (get_link h H))" "cons_ok (get_link ?s (get_link h H))"
        "get_cons ?s b = tsum (get_link ?s (get_link h H))"
        "get_cons h b = tsum (get_link h (get_link h H))"
        using links(1) cons_ok_get_link [of l' b bi r' h] unfolding x by simp_all
      have sum: "tsum (get_link h H) = tsum (get_link h (get_link h H)) + myCount b
          + tsum (get_link ?s (get_link h H))"
        unfolding x by (rule tsum_get_link)
      from red True x have p': "p' = (?s, b, Heavy ?s, get_link h (get_link h H))
          # (h, set_cons ?s (link_cons S) a, i, S) # attach_to_path UPDATE_CONS (tsum H + tsum S) p"
        and hole: "get_link ?s (get_link h H) = Tip"
        by (simp_all add: a)
      show ?thesis
        unfolding p' using path links b sum S hole True by (simp add: ac_simps)
    qed
  next
    case False
    let ?walk = "swap_walk ?s (get_link ?s H) [(?s, a, ai, get_link h H)]"
    obtain e ei rest w where w: "?walk = Inr (e, rest, w)"
      "zip_up w (attach ?s e ei rest Tip) = zip_up [(?s, a, ai, get_link h H)] (get_link ?s H)"
      using swap_walk_ok [OF False, of "[(?s, a, ai, get_link h H)]"] by auto
    have zip: "zip_up w (attach ?s e ei rest Tip) = H"
      unfolding w(2) by (cases h) (simp_all add: Node attach_def)
    have we: "cons_ok rest" "cons_path w (myCount e + tsum rest)" "path_sum w (myCount e + tsum rest) = tsum H"
      using H unfolding zip [symmetric] by (simp_all add: cons_ok_zip_up)
    let ?w = "map (add_cons_frame (- myCount e)) w"
    have w': "cons_path ?w (tsum rest)"
      by (rule cons_path_add_frames [OF we(2)]) simp
    have H': "path_sum w (tsum rest) + myCount e = tsum H"
      using path_sum_add [of w "tsum rest" "myCount e"] we(3) by (simp add: ac_simps)
    define e' where "e' = set_cons ?s (link_cons S) (set_cons h (link_cons (zip_up ?w rest)) e)"
    have hang: "cons_ok (zip_up ?w rest)" using w' we(1) by (simp add: cons_ok_zip_up)
    have e': "get_cons h e' = path_sum w (tsum rest)" "get_cons ?s e' = tsum S" "myCount e' = myCount e"
      using S hang by (simp_all add: e'_def)
    have ne: "node_cons e' = tsum H + tsum S"
      using e' H' by (cases h) (simp_all add: node_cons_def ac_simps)
    let ?swapped = "?w @ (h, e', i, S) # attach_to_path UPDATE_CONS (node_cons e') p"
    have swapped: "cons_path ?swapped (tsum rest)"
      using w' e' S path H' by (simp add: cons_path_append ne ac_simps)
    have p': "(case rest of
                 Tip \<Rightarrow> (?swapped, Tip)
               | Node _ b bi _ \<Rightarrow>
                   ((?s, b, Heavy ?s, get_link h rest) # ?swapped, get_link ?s rest)) = (p', Tip)"
      using red False w(1) unfolding e'_def by simp
    show ?thesis
    proof (cases rest)
      case Tip
      with p' swapped show ?thesis by simp
    next
      case rest: (Node l' b bi r')
      have b: "cons_ok (get_link h rest)" "get_cons ?s b = tsum (get_link ?s rest)"
        "get_cons h b = tsum (get_link h rest)"
        "tsum rest = tsum (get_link h rest) + myCount b + tsum (get_link ?s rest)"
        using we(1) cons_ok_get_link [of l' b bi r' h] tsum_get_link [of l' b bi r' h]
        unfolding rest by simp_all
      from p' have "p' = (?s, b, Heavy ?s, get_link h rest) # ?swapped" "get_link ?s rest = Tip"
        by (simp_all add: rest)
      with b swapped show ?thesis by (simp add: ac_simps)
    qed
  qed
qed

lemma tlist_remove_swap_cons:
  assumes "tlist_remove_swap p l i r = Inr (p', Tip)" and "cons_ok l" "cons_ok r"
    and "cons_path p (tsum l + tsum r)"
  shows "cons_path p' 0"
proof -
  have "cons_path p (tsum r + tsum l)" using assms(4) by (simp add: ac_simps)
  with assms show ?thesis
    by (auto simp: tlist_remove_swap_def split: if_splits dest: tlist_swap_heavy_cons)
qed

end
