(* ===== verification/TListCorrect.thy ===== *)
theory TListCorrect
  imports TListCons
begin

text \<open>
  The operations of a \<open>tlist\<close> over any key class that satisfies the interface \<open>tree_key\<close>: the
  invariant \<open>tlist_ok\<close>, the contract of the insertion with its disambiguation of equal keys,
  of the removal and of the searches, in terms of the contents of the list: the nodes in
  order, each with its key, its address and its increment.
\<close>

section \<open>Contents and invariant\<close>

definition contents :: "'k tree_list \<Rightarrow> 'k core list" where
  "contents T = map core (inorder (tree T))"

definition core_cmp :: "'k keyClass \<Rightarrow> 'k core \<Rightarrow> 'k core \<Rightarrow> int" where
  "core_cmp K a b = compare_to K (fst a) (fst b) False"

definition core_id :: "'k core \<Rightarrow> nat" where
  "core_id e = fst (snd e)"

definition core_count :: "'k core \<Rightarrow> true_long" where
  "core_count e = snd (snd e)"

definition tlist_ok :: "'k keyClass \<Rightarrow> 'k tree_list \<Rightarrow> bool" where
  "tlist_ok K T \<longleftrightarrow>
     avl (tree T) \<and> cons_ok (tree T) \<and> in_order (core_cmp K) (contents T)
     \<and> distinct (map core_id (contents T))
     \<and> (disambiguates K \<longrightarrow> (\<forall>e\<in>set (contents T). get_2nd_key K (fst e) \<le> ambiguityCount T))
     \<and> distinct (chain T) \<and> set (chain T) = core_id ` set (contents T)
     \<and> (synchronize_orders T \<longrightarrow> chain T = map core_id (contents T))"

lemma core_sel [simp]:
  "core_id (core a) = ident a" "core_count (core a) = myCount a" "core_id (k, n, v) = n"
  "core_count (k, n, v) = v"
  by (simp_all add: core_id_def core_count_def core_def)

lemma path_before_shape [simp]:
  "path_before (path_shape p) = map core (path_before p)"
  "path_after (path_shape p) = map core (path_after p)"
proof (induction p)
  case (Cons fr p)
  obtain d a i s where "fr = (d, a, i, s)" by (cases fr)
  with Cons show "path_before (path_shape (fr # p)) = map core (path_before (fr # p))"
    "path_after (path_shape (fr # p)) = map core (path_after (fr # p))"
    by (cases d; simp add: inorder_shape)+
qed simp_all

lemma map_btree_avl: "avl (map_btree f t) = avl t" "inorder (map_btree f t) = map f (inorder t)"
proof -
  have "height (map_btree f t) = height t" for t by (induction t) simp_all
  then show "avl (map_btree f t) = avl t" by (induction t) simp_all
  show "inorder (map_btree f t) = map f (inorder t)" by (induction t) simp_all
qed

lemma contents_split:
  "zip_up path t = tree T \<Longrightarrow>
     contents T = map core (path_before path) @ map core (inorder t) @ map core (path_after path)"
  unfolding contents_def map_append [symmetric] inorder_zip_up [symmetric] by simp

lemma in_order_core:
  "in_order (core_cmp K) (map core xs) \<longleftrightarrow>
     sorted_wrt (\<lambda>a b. compare_to K (Key a) (Key b) False < 0) xs"
  by (simp add: in_order_def core_cmp_def sorted_wrt_map)

lemma same_place:
  assumes "distinct (map f (xs @ x # ys))" and "xs @ x # ys = xs' @ x' # ys'" and "f x = f x'"
  shows "x = x' \<and> xs = xs' \<and> ys = ys'"
proof -
  have "x' \<in> set (xs @ x # ys)" unfolding assms(2) by simp
  with assms(1,3) have eq: "x = x'" by (auto simp: image_iff)
  have "x \<notin> set xs" "x \<notin> set ys" using assms(1) by auto
  with append_Cons_eq_iff [of x xs ys xs' ys'] assms(2) eq show ?thesis by simp
qed

section \<open>The consumption at a node\<close>

lemma climb_sum:
  "cons_path p v \<Longrightarrow> climb p w = w + sum_list (map myCount (path_before p))"
proof (induction p v arbitrary: w rule: cons_path.induct)
  case (2 d a i s up v)
  then show ?case
    by (cases d) (simp_all add: tsum_inorder ac_simps)
qed simp

theorem get_int_consumption_sum:
  assumes "cons_ok t" and "distinct (map ident (inorder t))"
    and "map core (inorder t) = before @ (k, N, v) # after"
  shows "get_int_consumption N t = Some (sum_list (map core_count before) + v)"
proof -
  have "N \<in> set (map core_id (map core (inorder t)))" unfolding assms(3) by simp
  then have "N \<in> ident ` set (inorder t)" by auto
  then obtain path u where pu: "parents N t [] = Some (path, u)"
    using parents_found [of N t "[]"] by (cases "parents N t []") auto
  from parents_zip [OF pu] obtain l a i r where
    u: "u = Node l a i r" "ident a = N" and zip: "zip_up path (Node l a i r) = t" by auto
  from assms(1) have ok: "cons_path path (tsum (Node l a i r))" "nCount_left a = tsum l"
    unfolding zip [symmetric] cons_ok_zip_up by simp_all
  let ?L = "path_before path @ inorder l" and ?R = "inorder r @ path_after path"
  have t: "inorder t = ?L @ a # ?R" unfolding zip [symmetric] by (simp add: inorder_zip_up)
  have eq: "map core ?L @ core a # map core ?R = before @ (k, N, v) # after"
    using assms(3) unfolding t by simp
  have "distinct (map core_id (map core ?L @ core a # map core ?R))"
    using assms(2) unfolding t by (simp add: o_def)
  from same_place [OF this eq] u(2) have "core a = (k, N, v) \<and> map core ?L = before" by simp
  then have "myCount a = v" "sum_list (map core_count before) = sum_list (map myCount ?L)"
    by (auto simp: core_def o_def)
  then show ?thesis
    using climb_sum [OF ok(1)] u ok(2)
    by (simp add: get_int_consumption_def pu tsum_inorder ac_simps)
qed

section \<open>The search of the insertion\<close>

context tree_key
begin

definition placed :: "'k lnode frame list \<Rightarrow> 'k \<Rightarrow> bool \<Rightarrow> bool" where
  "placed path key ign \<longleftrightarrow>
     (\<forall>a\<in>set (path_before path). 0 < compare_to K key (Key a) ign)
     \<and> (\<forall>a\<in>set (path_after path). compare_to K key (Key a) ign < 0)"

lemma placed_coarse: "placed path key True \<Longrightarrow> placed path key False"
  using refines refines_gt unfolding placed_def by blast

lemma full_tie_2nd:
  "disambiguates K \<Longrightarrow> get_2nd_key K b < get_2nd_key K a \<Longrightarrow> compare_to K a b False \<le> 0 \<Longrightarrow>
     compare_to K a b True < 0"
  using tie [of a b] full_le_coarse [of a b] by linarith

text \<open>After the first equal key: the new key is different from all keys, and equal ones of the
  coarse order are before it.\<close>

lemma tlist_search_full:
  assumes "disambiguates K"
  shows "sorted_wrt (\<lambda>a b. compare_to K (Key a) (Key b) False < 0)
       (path_before path @ inorder t @ path_after path) \<Longrightarrow>
     \<forall>a\<in>set (inorder t). get_2nd_key K (Key a) < get_2nd_key K key \<Longrightarrow>
     placed path key False \<Longrightarrow> \<forall>a\<in>set (path_after path). compare_to K key (Key a) True < 0 \<Longrightarrow>
     le = map_option ident (last_opt (path_before path)) \<Longrightarrow>
     \<exists>path'. tlist_search K t key False amb path le =
         Inr (path', map_option ident (last_opt (path_before path')), key, amb)
       \<and> zip_up path' Tip = zip_up path t \<and> placed path' key False
       \<and> (\<forall>a\<in>set (path_after path'). compare_to K key (Key a) True < 0)"
proof (induction t arbitrary: path le)
  case Tip
  then show ?case by simp
next
  case (Node l a i r)
  have full: "comparer (\<lambda>a b. compare_to K a b False)" by (rule full)
  have sorted: "\<forall>b\<in>set (inorder l). compare_to K (Key b) (Key a) False < 0"
    "\<forall>b\<in>set (inorder r). compare_to K (Key a) (Key b) False < 0"
    using Node.prems(1) by (auto simp: sorted_wrt_append)
  have 2: "get_2nd_key K (Key a) < get_2nd_key K key" using Node.prems(2) by simp
  show ?case
  proof (cases "0 < compare_to K key (Key a) False")
    case True
    have "placed ((RIGHT_DIR, a, i, l) # path) key False"
      using Node.prems(3) True sorted(1) comparer.cmp_gt_less [OF full]
      by (auto simp: placed_def)
    from Node.IH(2) [OF _ _ this, of "Some (ident a)"] Node.prems True show ?thesis
      by (simp add: attach_def)
  next
    case False
    with full_tie_2nd [OF assms 2] have c: "compare_to K key (Key a) True < 0" by simp
    then have neg: "compare_to K key (Key a) False < 0" by (rule refines)
    have "compare_to K key (Key b) True < 0" if b: "b \<in> set (inorder r)" for b
    proof -
      have "compare_to K key (Key b) False < 0"
        using comparer.cmp_less_trans [OF full neg] sorted(2) b by blast
      with full_tie_2nd [OF assms] Node.prems(2) b show ?thesis by force
    qed
    moreover from this have "placed ((LEFT_DIR, a, i, r) # path) key False"
      using Node.prems(3) neg refines by (auto simp: placed_def)
    ultimately show ?thesis
      using Node.IH(1) [of "(LEFT_DIR, a, i, r) # path" le] Node.prems neg c
      by (auto simp: attach_def)
  qed
qed

definition final_key :: "'k \<Rightarrow> 'k \<Rightarrow> nat \<Rightarrow> nat \<Rightarrow> bool" where
  "final_key key key' amb amb' \<longleftrightarrow>
     (\<forall>b. compare_to K key' b True = compare_to K key b True) \<and> amb \<le> amb'
     \<and> (disambiguates K \<longrightarrow> get_2nd_key K key' \<le> amb')
     \<and> (key' = key \<and> amb' = amb \<or> key' = set_2nd_key K (Suc amb) key \<and> amb' = Suc amb)"

text \<open>Up to the first equal key the secondary keys are ignored.\<close>

lemma tlist_search_ok:
  assumes key: "disambiguates K \<Longrightarrow> get_2nd_key K key \<le> amb"
  shows "sorted_wrt (\<lambda>a b. compare_to K (Key a) (Key b) False < 0)
       (path_before path @ inorder t @ path_after path) \<Longrightarrow>
     (disambiguates K \<and> (\<forall>a\<in>set (inorder t). get_2nd_key K (Key a) \<le> amb))
       \<or> (\<forall>a\<in>set (inorder t). compare_to K key (Key a) True \<noteq> 0) \<Longrightarrow>
     placed path key True \<Longrightarrow> le = map_option ident (last_opt (path_before path)) \<Longrightarrow>
     \<exists>path' key' amb'. tlist_search K t key True amb path le =
         Inr (path', map_option ident (last_opt (path_before path')), key', amb')
       \<and> zip_up path' Tip = zip_up path t \<and> placed path' key' False \<and> final_key key key' amb amb'
       \<and> (\<forall>a\<in>set (path_after path'). compare_to K key (Key a) True < 0)"
proof (induction t arbitrary: path le)
  case Tip
  then show ?case
    using placed_coarse [of path key] key by (simp add: final_key_def) (simp add: placed_def)
next
  case (Node l a i r)
  have coarse: "comparer (\<lambda>a b. compare_to K a b True)" by (rule coarse)
  have full: "comparer (\<lambda>a b. compare_to K a b False)" by (rule full)
  have sorted: "\<forall>b\<in>set (inorder l). compare_to K (Key b) (Key a) False < 0"
    "\<forall>b\<in>set (inorder r). compare_to K (Key a) (Key b) False < 0"
    using Node.prems(1) by (auto simp: sorted_wrt_append)
  have sorted': "\<forall>b\<in>set (inorder l). compare_to K (Key b) (Key a) True \<le> 0"
    "\<forall>b\<in>set (inorder r). compare_to K (Key a) (Key b) True \<le> 0"
    using sorted full_le_coarse by fastforce+
  consider (less) "compare_to K key (Key a) True < 0" | (tie) "compare_to K key (Key a) True = 0"
    | (greater) "0 < compare_to K key (Key a) True" by linarith
  then show ?case
  proof cases
    case less
    have "placed ((LEFT_DIR, a, i, r) # path) key True"
      using Node.prems(3) less sorted'(2) comparer.cmp_less_le_trans [OF coarse less]
      by (auto simp: placed_def)
    from Node.IH(1) [OF _ _ this, of le] Node.prems less show ?thesis by (auto simp: attach_def)
  next
    case greater
    have "0 < compare_to K key (Key b) True" if "b \<in> set (inorder l)" for b
    proof -
      from that sorted'(1) have "compare_to K (Key b) (Key a) True \<le> 0" by blast
      moreover have "compare_to K (Key a) key True < 0" using greater coarse_anti by blast
      ultimately have "compare_to K (Key b) key True < 0" by (rule comparer.cmp_le_less_trans [OF coarse])
      then show ?thesis using coarse_anti by blast
    qed
    then have "placed ((RIGHT_DIR, a, i, l) # path) key True"
      using Node.prems(3) greater by (auto simp: placed_def)
    from Node.IH(2) [OF _ _ this, of "Some (ident a)"] Node.prems greater show ?thesis
      by (auto simp: attach_def)
  next
    case tie
    with Node.prems(2) have dis: "disambiguates K"
      and 2: "\<forall>b\<in>set (inorder (Node l a i r)). get_2nd_key K (Key b) \<le> amb" by auto
    let ?key = "set_2nd_key K (Suc amb) key"
    let ?path = "(RIGHT_DIR, a, i, l) # path"
    have k: "compare_to K ?key b True = compare_to K key b True" for b by (rule set_coarse)
    have k2: "get_2nd_key K ?key = Suc amb" using get_set [OF dis] by simp
    have a: "0 < compare_to K ?key (Key a) False"
      by (rule tree_key.tie [OF tree_key_axioms dis]) (use tie k k2 2 in auto)
    have l: "0 < compare_to K ?key (Key b) False" if "b \<in> set (inorder l)" for b
      using comparer.cmp_gt_less [OF full a] sorted(1) that by blast
    have after: "\<forall>b\<in>set (path_after ?path). compare_to K ?key (Key b) True < 0"
      using Node.prems(3) by (simp add: placed_def k)
    have placed: "placed ?path ?key False"
      using Node.prems(3) a l after refines refines_gt by (auto simp: placed_def k)
    have fk: "final_key key ?key amb (Suc amb)"
      using k k2 by (simp add: final_key_def)
    have r: "\<forall>b\<in>set (inorder r). get_2nd_key K (Key b) < get_2nd_key K ?key"
      using 2 k2 by (auto simp: less_Suc_eq_le)
    from tlist_search_full [OF dis _ r placed after, of "Some (ident a)" "Suc amb"] Node.prems(1)
    obtain path' where "tlist_search K r ?key False (Suc amb) ?path (Some (ident a)) =
        Inr (path', map_option ident (last_opt (path_before path')), ?key, Suc amb)"
      "zip_up path' Tip = zip_up ?path r" "placed path' ?key False"
      "\<forall>b\<in>set (path_after path'). compare_to K ?key (Key b) True < 0" by auto
    then show ?thesis using tie dis fk by (auto simp: attach_def k)
  qed
qed

end

end
