(* ===== verification/TListContract.thy ===== *)
theory TListContract
  imports TListCorrect
begin

text \<open>
  The contracts of the insertion and the removal of a \<open>tlist\<close>: shape, sums, search and
  rebalancing together.
\<close>

section \<open>The abstract insertion\<close>

text \<open>A new node goes behind all nodes whose key is not greater when secondary keys are ignored.\<close>

definition behind_equals :: "'k keyClass \<Rightarrow> 'k \<Rightarrow> 'k core \<Rightarrow> 'k core list \<Rightarrow> 'k core list" where
  "behind_equals K key e xs =
     takeWhile (\<lambda>b. 0 \<le> compare_to K key (fst b) True) xs
       @ e # dropWhile (\<lambda>b. 0 \<le> compare_to K key (fst b) True) xs"

lemma last_opt_map [simp]: "last_opt (map f xs) = map_option f (last_opt xs)"
  by (simp add: last_opt_eq last_map)

lemma map_ok_eq_Inr: "map_ok f r = Inr b \<Longrightarrow> (\<And>a. r = Inr a \<Longrightarrow> f a = b \<Longrightarrow> P) \<Longrightarrow> P"
  by (cases r) auto

lemma map_put_count_fresh:
  "\<forall>e\<in>set xs. core_id e \<noteq> N \<Longrightarrow> map (put_count N v) xs = xs"
  by (induction xs) (auto simp: put_count_def core_id_def)

context tree_key
begin

lemma tlist_insert_binary_ok:
  fixes t amb N
  defines "start \<equiv> if disambiguates K then set_2nd_key K 0 (Key N) else Key N"
  assumes avl: "avl t" and cons: "cons_ok t" and order: "in_order (core_cmp K) (map core (inorder t))"
    and ids: "distinct (map ident (inorder t))" "ident N \<notin> ident ` set (inorder t)"
    and free: "disambiguates K \<and> (\<forall>a\<in>set (inorder t). get_2nd_key K (Key a) \<le> amb)
       \<or> (\<forall>a\<in>set (inorder t). compare_to K (Key N) (Key a) True \<noteq> 0)"
  shows "\<exists>t' key' amb' before after.
     tlist_insert_binary_node K t amb N = Inr (t', map_option core_id (last_opt before), amb')
     \<and> avl t' \<and> cons_ok t' \<and> map core (inorder t) = before @ after
     \<and> map core (inorder t') = before @ (key', ident N, myCount N) # after
     \<and> final_key start key' amb amb'
     \<and> (\<forall>e\<in>set before. 0 < compare_to K key' (fst e) False)
     \<and> (\<forall>e\<in>set after. compare_to K key' (fst e) False < 0 \<and> compare_to K (Key N) (fst e) True < 0)"
proof -
  have start: "compare_to K start b True = compare_to K (Key N) b True" for b
    by (simp add: start_def set_coarse)
  have start2: "get_2nd_key K start \<le> amb" if "disambiguates K"
    using get_set [OF that] that by (simp add: start_def)
  show ?thesis
  proof (cases t)
    case Tip
    have "final_key start start amb amb" using start2 by (simp add: final_key_def)
    with Tip show ?thesis
      by (intro exI [of _ "Node Tip (init_cons (N\<lparr>Key := start\<rparr>)) BALANCED Tip"] exI [of _ start]
          exI [of _ amb] exI [of _ "[]"])
        (simp add: tlist_insert_binary_node_def Let_def start_def [symmetric] init_cons_def core_def)
  next
    case (Node tl ta ti tr)
    obtain path key' amb' where
      s: "tlist_search K t start True amb [] None =
            Inr (path, map_option ident (last_opt (path_before path)), key', amb')"
      and zip: "zip_up path Tip = t" and placed: "placed path key' False"
      and fk: "final_key start key' amb amb'"
      and after: "\<forall>a\<in>set (path_after path). compare_to K start (Key a) True < 0"
      using tlist_search_ok [of start amb "[]" t None] start2 order free
      by (auto simp: in_order_core placed_def start)
    define x where "x = init_cons (N\<lparr>Key := key', myCount := 0\<rparr>)"
    have x: "counts_nothing x" "core x = (key', ident N, 0)"
      by (simp_all add: x_def init_cons_def counts_nothing_def core_def)
    have "avl_path path 0" "cons_path path 0"
      using avl cons unfolding zip [symmetric] by (simp_all add: avl_zip_up cons_ok_zip_up)
    then have "avl_path (path_shape path) 0" by simp
    from insert_rebalance_avl [OF this, of "core x"]
    obtain u where u: "insert_rebalance (path_shape path) (core x) = Inr u" "avl u" by blast
    from u(1) [folded tlist_rebalance_shape] obtain t0 where
      t0: "tlist_rebalance path x = Inr t0" "shape t0 = u"
      by (rule map_ok_eq_Inr)
    have cons0: "cons_ok t0" by (rule tlist_rebalance_cons [OF x(1) \<open>cons_path path 0\<close> t0(1)])
    let ?B = "map core (path_before path)" and ?A = "map core (path_after path)"
    have inorder0: "map core (inorder t0) = ?B @ core x # ?A"
      using insert_rebalance_inorder [OF u(1)] t0(2) inorder_shape [of t0] by simp
    have t: "map core (inorder t) = ?B @ ?A"
      unfolding zip [symmetric] inorder_zip_up by simp
    have fresh: "\<forall>e\<in>set (?B @ ?A). core_id e \<noteq> ident N"
    proof -
      have "core_id ` set (map core (inorder t)) = ident ` set (inorder t)" by (simp add: image_image)
      then show ?thesis unfolding t [symmetric] using ids(2) by (metis imageI)
    qed
    have "map core_id (map core (inorder t0)) = map core_id ?B @ ident N # map core_id ?A"
      unfolding inorder0 by (simp add: x(2))
    moreover have "distinct (map core_id (?B @ ?A))"
      unfolding t [symmetric] using ids(1) by (simp add: o_def)
    moreover have "ident N \<notin> set (map core_id (?B @ ?A))"
    proof
      assume "ident N \<in> set (map core_id (?B @ ?A))"
      then obtain e where e: "e \<in> set (?B @ ?A)" "ident N = core_id e"
        unfolding set_map by (rule imageE)
      from bspec [OF fresh e(1)] e(2) show False by simp
    qed
    ultimately have "distinct (map core_id (map core (inorder t0)))" by auto
    then have dist0: "distinct (map ident (inorder t0))" by (simp add: o_def)
    have fr: "\<forall>e\<in>set ?B. core_id e \<noteq> ident N" "\<forall>e\<in>set ?A. core_id e \<noteq> ident N"
      using fresh by simp_all
    let ?t = "account (ident N) (myCount N) t0"
    have members: "ident N \<in> ident ` set (inorder t0)"
      "\<forall>a\<in>set (inorder t0). ident a = ident N \<longrightarrow> myCount a = 0"
    proof -
      have elems: "set (map core (inorder t0)) = insert (key', ident N, 0) (set (?B @ ?A))"
        unfolding inorder0 x(2) by simp
      then have "(key', ident N, 0) \<in> set (map core (inorder t0))" by simp
      then obtain a where a: "a \<in> set (inorder t0)" "core a = (key', ident N, 0)"
        unfolding set_map by (metis imageE)
      then show "ident N \<in> ident ` set (inorder t0)"
        by (intro image_eqI [of _ _ a]) (simp_all add: core_def)
      show "\<forall>a\<in>set (inorder t0). ident a = ident N \<longrightarrow> myCount a = 0"
      proof (intro ballI impI)
        fix b
        assume b: "b \<in> set (inorder t0)" "ident b = ident N"
        then have "core b \<in> set (map core (inorder t0))" by simp
        then consider "core b = (key', ident N, 0)" | "core b \<in> set (?B @ ?A)"
          unfolding elems by (rule insertE)
        then show "myCount b = 0"
        proof cases
          case 1
          then show ?thesis by (simp add: core_def)
        next
          case 2
          from bspec [OF fresh 2] b(2) show ?thesis by simp
        qed
      qed
    qed
    have shape: "shape ?t = map_btree (put_count (ident N) (myCount N)) u"
      unfolding shape_account [OF dist0] t0(2) by (rule refl)
    have "avl ?t" using u(2) shape map_btree_avl(1) avl_shape(2) by metis
    moreover have "cons_ok ?t" by (rule account_cons [OF cons0 members])
    moreover have "map core (inorder ?t) = ?B @ (key', ident N, myCount N) # ?A"
    proof -
      have "map core (inorder ?t) = map (put_count (ident N) (myCount N)) (map core (inorder t0))"
        unfolding inorder_shape [symmetric] shape t0(2) map_btree_avl(2) by (rule refl)
      also have "\<dots> = ?B @ (key', ident N, myCount N) # ?A"
        unfolding inorder0 map_append list.map(2) x(2) map_put_count_fresh [OF fr(1)]
          map_put_count_fresh [OF fr(2)]
        by (simp add: put_count_def)
      finally show ?thesis .
    qed
    moreover have "tlist_insert_binary_node K t amb N =
        Inr (?t, map_option core_id (last_opt ?B), amb')"
    proof -
      have "map_option core_id (last_opt ?B) = map_option ident (last_opt (path_before path))"
        by (simp add: option.map_comp o_def)
      with s t0(1) Node show ?thesis
        by (simp add: tlist_insert_binary_node_def Let_def start_def [symmetric] x_def [symmetric]
            del: tlist_search.simps)
    qed
    ultimately show ?thesis
      using t fk placed after start
      by (intro exI [of _ ?t] exI [of _ key'] exI [of _ amb'] exI [of _ ?B] exI [of _ ?A])
        (auto simp: placed_def)
  qed
qed

text \<open>The contract of the insertion.\<close>

lemma in_order_insert:
  assumes "in_order (core_cmp K) (before @ after)"
    and "\<forall>e\<in>set before. 0 < compare_to K (fst x) (fst e) False"
    and "\<forall>e\<in>set after. compare_to K (fst x) (fst e) False < 0"
  shows "in_order (core_cmp K) (before @ x # after)"
  using assms full_anti by (auto simp: in_order_def core_cmp_def sorted_wrt_append)

lemma tlist_insert_new_ok:
  assumes ok: "tlist_ok K T" and fresh: "ident N \<notin> set (chain T)"
    and free: "disambiguates K \<or> (\<forall>e\<in>set (contents T). compare_to K (Key N) (fst e) True \<noteq> 0)"
  shows "\<exists>T' key'. tlist_insert K T N = Inr T' \<and> tlist_ok K T'
           \<and> contents T' = behind_equals K (Key N) (key', ident N, myCount N) (contents T)
           \<and> (\<forall>b. compare_to K key' b True = compare_to K (Key N) b True)
           \<and> synchronize_orders T' = synchronize_orders T
           \<and> (\<not> synchronize_orders T \<longrightarrow> chain T' = chain T @ [ident N])"
proof -
  let ?t = "tree T" and ?amb = "ambiguityCount T"
  have ids: "map core_id (contents T) = map ident (inorder ?t)"
    by (simp add: contents_def o_def)
  have chain: "set (chain T) = ident ` set (inorder ?t)"
    using ok unfolding tlist_ok_def contents_def by (auto simp: image_image)
  have free': "disambiguates K \<and> (\<forall>a\<in>set (inorder ?t). get_2nd_key K (Key a) \<le> ?amb)
       \<or> (\<forall>a\<in>set (inorder ?t). compare_to K (Key N) (Key a) True \<noteq> 0)"
    using ok free by (auto simp: tlist_ok_def contents_def)
  have parts: "avl ?t" "cons_ok ?t" "in_order (core_cmp K) (map core (inorder ?t))"
    "distinct (map ident (inorder ?t))" "ident N \<notin> ident ` set (inorder ?t)"
    using ok fresh unfolding ids [symmetric] chain [symmetric]
    by (simp_all add: tlist_ok_def contents_def)
  from tlist_insert_binary_ok [OF parts free'] obtain t' key' amb' before after where
    ins: "tlist_insert_binary_node K ?t ?amb N = Inr (t', map_option core_id (last_opt before), amb')"
    and t': "avl t'" "cons_ok t'" and cut: "contents T = before @ after"
    and new: "map core (inorder t') = before @ (key', ident N, myCount N) # after"
    and fk: "final_key (if disambiguates K then set_2nd_key K 0 (Key N) else Key N) key' ?amb amb'"
    and bef: "\<forall>e\<in>set before. 0 < compare_to K key' (fst e) False"
    and aft: "\<forall>e\<in>set after. compare_to K key' (fst e) False < 0 \<and> compare_to K (Key N) (fst e) True < 0"
    unfolding contents_def by blast
  have coarse: "compare_to K key' b True = compare_to K (Key N) b True" for b
    using fk by (simp add: final_key_def set_coarse split: if_splits)
  have "\<forall>e\<in>set before. 0 \<le> compare_to K (Key N) (fst e) True"
    using bef refines unfolding coarse [symmetric] by (meson linorder_not_less order_less_asym)
  moreover have "\<forall>e\<in>set after. \<not> 0 \<le> compare_to K (Key N) (fst e) True" using aft by auto
  ultimately have spec: "before @ (key', ident N, myCount N) # after =
      behind_equals K (Key N) (key', ident N, myCount N) (contents T)"
    unfolding behind_equals_def cut by (simp only: takeWhile_append_split)
  let ?chain = "if synchronize_orders T then insert_after (map_option core_id (last_opt before)) (ident N) (chain T)
      else chain T @ [ident N]"
  let ?T = "T\<lparr>tree := t', ambiguityCount := amb', chain := ?chain\<rparr>"
  have run: "tlist_insert K T N = Inr ?T"
    using fresh ins by (simp add: tlist_insert_def)
  have contents: "contents ?T = before @ (key', ident N, myCount N) # after"
    using new by (simp add: contents_def)
  have dist: "distinct (map core_id (before @ after))" "ident N \<notin> core_id ` set (before @ after)"
    using ok fresh unfolding tlist_ok_def cut by auto
  have chain': "distinct ?chain \<and> set ?chain = insert (ident N) (set (chain T))
      \<and> (synchronize_orders T \<longrightarrow> ?chain = map core_id before @ ident N # map core_id after)"
  proof (cases "synchronize_orders T")
    case True
    then have c: "chain T = map core_id before @ map core_id after"
      using ok by (simp add: tlist_ok_def cut)
    have "insert_after (last_opt (map core_id before)) (ident N) (map core_id before @ map core_id after)
        = map core_id before @ ident N # map core_id after"
      by (rule insert_after_last) (use dist(1) in simp)
    with True c dist show ?thesis by auto
  next
    case False
    with ok fresh show ?thesis by (simp add: tlist_ok_def)
  qed
  have "in_order (core_cmp K) (before @ (key', ident N, myCount N) # after)"
    by (rule in_order_insert) (use ok cut bef aft in \<open>auto simp: tlist_ok_def\<close>)
  moreover have "\<forall>e\<in>set (before @ after). get_2nd_key K (fst e) \<le> amb'"
    "get_2nd_key K key' \<le> amb'" if "disambiguates K"
    using ok fk that cut by (auto simp: tlist_ok_def final_key_def intro: le_trans)
  moreover have "set (chain T) = core_id ` set (before @ after)"
    using ok unfolding tlist_ok_def cut by blast
  ultimately have "tlist_ok K ?T"
    unfolding tlist_ok_def contents using t' chain' dist by auto
  then show ?thesis
    using run coarse contents spec by (intro exI [of _ ?T] exI [of _ key']) simp
qed

text \<open>Without disambiguation an equal key is refused.\<close>

lemma tlist_search_dup:
  assumes "\<not> disambiguates K"
  shows "sorted_wrt (\<lambda>a b. compare_to K (Key a) (Key b) False < 0) (inorder t) \<Longrightarrow> e \<in> set (inorder t) \<Longrightarrow>
     compare_to K key (Key e) True = 0 \<Longrightarrow> \<exists>m. tlist_search K t key True amb path le = Inl (EvalError m)"
proof (induction t arbitrary: path le)
  case (Node l a i r)
  have coarse: "comparer (\<lambda>a b. compare_to K a b True)" by (rule coarse)
  have strict: "compare_to K x y True < 0" if "compare_to K x y False < 0" for x y
  proof -
    have "compare_to K x y True \<noteq> 0" using no_tie [OF assms, of x y] that by auto
    moreover have "compare_to K x y True \<le> 0" using that by (intro full_le_coarse) simp
    ultimately show ?thesis by simp
  qed
  consider "e = a" | "e \<in> set (inorder l)" | "e \<in> set (inorder r)" using Node.prems(2) by auto
  then show ?case
  proof cases
    case 1
    with Node.prems assms show ?thesis by simp
  next
    case 2
    with Node.prems(1) strict have "compare_to K (Key e) (Key a) True < 0"
      by (auto simp: sorted_wrt_append)
    from comparer.cmp_le_less_trans [OF coarse _ this, of key] Node.prems(3)
    have "compare_to K key (Key a) True < 0" by simp
    with 2 Node show ?thesis by (simp add: sorted_wrt_append)
  next
    case 3
    with Node.prems(1) strict have "compare_to K (Key a) (Key e) True < 0"
      by (auto simp: sorted_wrt_append)
    from comparer.cmp_less_le_trans [OF coarse this, of key] Node.prems(3)
      comparer.cmp_zero_sym [OF coarse, of key "Key e"]
    have "compare_to K (Key a) key True < 0" by simp
    then have "0 < compare_to K key (Key a) True" using coarse_anti by blast
    with 3 Node show ?thesis by (simp add: sorted_wrt_append)
  qed
qed simp

lemma tlist_insert_duplicate:
  assumes "tlist_ok K T" and "ident N \<notin> set (chain T)" and dis: "\<not> disambiguates K"
    and e: "e \<in> set (contents T)" "compare_to K (Key N) (fst e) True = 0"
  shows "\<exists>m. tlist_insert K T N = Inl (EvalError m)"
proof -
  from e obtain a where a: "a \<in> set (inorder (tree T))" "compare_to K (Key N) (Key a) True = 0"
    by (auto simp: contents_def)
  have "sorted_wrt (\<lambda>a b. compare_to K (Key a) (Key b) False < 0) (inorder (tree T))"
    using assms(1) by (simp add: tlist_ok_def contents_def in_order_core)
  from tlist_search_dup [OF dis this a, of "ambiguityCount T" "[]" None] a(1) show ?thesis
    using assms(2) dis
    by (cases "tree T") (auto simp: tlist_insert_def tlist_insert_binary_node_def Let_def
        simp del: tlist_search.simps)
qed

section \<open>The removal\<close>

lemma tlist_remove_search_zip:
  "tlist_remove_search K x t path = Inr (path', u) \<Longrightarrow>
     zip_up path' u = zip_up path t \<and> (\<exists>l a i r. u = Node l a i r \<and> ident a = ident x)"
  by (induction t arbitrary: path) (auto simp: Let_def attach_def split: if_splits)

lemma tlist_remove_search_ok:
  "sorted_wrt (\<lambda>a b. compare_to K (Key a) (Key b) False < 0) (inorder t) \<Longrightarrow> e \<in> set (inorder t) \<Longrightarrow>
     Key e = Key x \<Longrightarrow> ident e = ident x \<Longrightarrow>
     \<exists>path' u. tlist_remove_search K x t path = Inr (path', u)"
proof (induction t arbitrary: path)
  case (Node l a i r)
  consider "e = a" | "e \<in> set (inorder l)" | "e \<in> set (inorder r)" using Node.prems(2) by auto
  then show ?case
  proof cases
    case 1
    with Node.prems comparer.cmp_refl [OF full] show ?thesis by simp
  next
    case 2
    with Node.prems have "compare_to K (Key x) (Key a) False < 0"
      by (auto simp: sorted_wrt_append)
    with 2 Node show ?thesis by (simp add: sorted_wrt_append)
  next
    case 3
    with Node.prems have "compare_to K (Key a) (Key x) False < 0"
      by (auto simp: sorted_wrt_append)
    then have "0 < compare_to K (Key x) (Key a) False" using full_anti by blast
    with 3 Node show ?thesis by (simp add: sorted_wrt_append)
  qed
qed simp

lemma tlist_remove_binary_ok:
  assumes avl: "avl t" and cons: "cons_ok t" and order: "in_order (core_cmp K) (map core (inorder t))"
    and ids: "distinct (map ident (inorder t))"
    and here: "map core (inorder t) = before @ (Key N, ident N, v) # after"
  shows "\<exists>t' old. tlist_remove_binary_node K N t = Inr (t', old) \<and> avl t' \<and> cons_ok t'
     \<and> map core (inorder t') = before @ after \<and> core old = (Key N, ident N, 0)"
proof -
  have "(Key N, ident N, v) \<in> set (map core (inorder t))" unfolding here by simp
  then obtain e where e: "e \<in> set (inorder t)" "core e = (Key N, ident N, v)"
    by (auto simp: image_iff)
  then have eN: "Key e = Key N" "ident e = ident N" by (simp_all add: core_def)
  from tlist_remove_search_ok [OF order [unfolded in_order_core] e(1) eN, of "[]"]
  obtain path u where s: "tlist_remove_search K N t [] = Inr (path, u)" by blast
  from tlist_remove_search_zip [OF s] obtain l a i r where
    u: "u = Node l a i r" "ident a = ident N" and zip: "zip_up path (Node l a i r) = t" by auto
  let ?p = "map (add_cons_frame (- myCount a)) path"
  have parts: "avl l" "avl r" "balance LEFT_DIR i (height l) (height r)"
    "avl_path path (Suc (max (height l) (height r)))"
    using avl unfolding zip [symmetric] by (simp_all add: avl_zip_up)
  have sums: "cons_ok l" "cons_ok r" "cons_path path (tsum l + myCount a + tsum r)"
    using cons unfolding zip [symmetric] by (simp_all add: cons_ok_zip_up)
  have path': "cons_path ?p (tsum l + tsum r)"
    by (rule cons_path_add_frames [OF sums(3)]) simp
  have shp: "path_shape ?p = path_shape path" by simp
  have "avl_path (path_shape ?p) (Suc (max (height (shape l)) (height (shape r))))"
    unfolding shp avl_path_shape avl_shape(1) by (rule parts(4))
  from remove_swap_ok [of "shape l" "shape r" i, OF _ _ _ this] parts
  obtain p where p: "remove_swap (path_shape ?p) (shape l) i (shape r) = Inr (p, Tip)"
    "avl_path p (Suc 0)" "content p [] = content (path_shape path) (inorder (shape l) @ inorder (shape r))"
    by (auto simp: shp simp del: map_map)
  from p(1) [folded tlist_remove_swap_shape] obtain q where
    q: "tlist_remove_swap ?p l i r = Inr (q, Tip)" "p = path_shape q"
    by (rule map_ok_eq_Inr) (auto simp: swap_shape_def split: prod.splits)
  have qs: "cons_path q 0" by (rule tlist_remove_swap_cons [OF q(1) sums(1,2) path'])
  have qa: "avl_path q (Suc 0)" using p(2) q(2) by simp
  from remove_adjust_fits [OF p(2)] obtain w where w: "remove_adjust p Tip = Inr w" "avl w"
    "inorder w = content p []"
    by (auto simp: fits_def content_def)
  have "map_ok shape (tlist_remove_adjust q Tip) = Inr w"
    using w(1) unfolding tlist_remove_adjust_shape q(2) by simp
  then obtain t' where t': "tlist_remove_adjust q Tip = Inr t'" "shape t' = w"
    by (rule map_ok_eq_Inr)
  have cons': "cons_ok t'" by (rule tlist_remove_adjust_cons [OF t'(1) qa qs])
  let ?L = "map core (path_before path @ inorder l)" and ?R = "map core (inorder r @ path_after path)"
  have t: "map core (inorder t) = ?L @ core a # ?R"
    unfolding zip [symmetric] inorder_zip_up by simp
  have "distinct (map core_id (?L @ core a # ?R))"
    unfolding t [symmetric] using ids by (simp add: o_def)
  from same_place [OF this t [symmetric, unfolded here]] u(2)
  have same: "core a = (Key N, ident N, v)" "?L = before" "?R = after" by simp_all
  have "map core (inorder t') = ?L @ ?R"
    unfolding inorder_shape [symmetric] t'(2) w(3) p(3)
    by (simp add: content_def inorder_shape)
  moreover have "avl t'" using w(2) t'(2) avl_shape(2) by metis
  moreover have "tlist_remove_binary_node K N t = Inr (t', a\<lparr>myCount := 0\<rparr>)"
    by (simp add: tlist_remove_binary_node_def s u(1) q(1) t'(1))
  moreover have "core (a\<lparr>myCount := 0\<rparr>) = (Key N, ident N, 0)"
    using same(1) by (simp add: core_def)
  ultimately show ?thesis using cons' same(2,3) by blast
qed

lemma tlist_remove_ok:
  assumes ok: "tlist_ok K T" and here: "contents T = before @ (Key N, ident N, v) # after"
  shows "\<exists>T' old. tlist_remove_node K T N = Inr (T', Some old) \<and> tlist_ok K T'
     \<and> contents T' = before @ after \<and> core old = (Key N, ident N, 0)
     \<and> chain T' = remove1 (ident N) (chain T)
     \<and> synchronize_orders T' = synchronize_orders T"
proof -
  have tip: "tree T \<noteq> Tip" using here by (auto simp: contents_def)
  have "distinct (map ident (inorder (tree T)))"
    using ok by (simp add: tlist_ok_def contents_def o_def)
  from tlist_remove_binary_ok [OF _ _ _ this here [unfolded contents_def]] ok
  obtain t' old where t': "tlist_remove_binary_node K N (tree T) = Inr (t', old)" "avl t'"
    "cons_ok t'" "map core (inorder t') = before @ after" "core old = (Key N, ident N, 0)"
    by (auto simp: tlist_ok_def contents_def)
  let ?T = "T\<lparr>tree := t', chain := remove1 (ident N) (chain T)\<rparr>"
  have contents: "contents ?T = before @ after" using t'(4) by (simp add: contents_def)
  have dist: "distinct (map core_id (before @ (Key N, ident N, v) # after))"
    using ok unfolding tlist_ok_def here by blast
  have out: "ident N \<notin> core_id ` set (before @ after)" using dist by auto
  have "set (chain T) = insert (ident N) (core_id ` set (before @ after))" "distinct (chain T)"
    using ok unfolding tlist_ok_def here by auto
  with out have "set (remove1 (ident N) (chain T)) = core_id ` set (before @ after)"
    "distinct (remove1 (ident N) (chain T))" by (auto simp: set_remove1_eq)
  moreover have "remove1 (ident N) (map core_id before @ ident N # map core_id after) =
      map core_id (before @ after)"
    using out by (auto simp: remove1_append)
  ultimately have "tlist_ok K ?T"
    using ok t'(2,3) dist unfolding tlist_ok_def contents here
    by (simp add: in_order_def sorted_wrt_append)
  then show ?thesis
    using tip t'(1,5) contents by (intro exI [of _ ?T] exI [of _ old]) (simp add: tlist_remove_node_def)
qed

text \<open>A node that is inserted again is removed first, and the removal clears its increment.\<close>

lemma tlist_insert_again_ok:
  assumes ok: "tlist_ok K T" and dis: "disambiguates K"
    and here: "contents T = before @ (Key N, ident N, v) # after"
  shows "\<exists>T' key'. tlist_insert K T N = Inr T' \<and> tlist_ok K T'
     \<and> contents T' = behind_equals K (Key N) (key', ident N, 0) (before @ after)"
proof -
  have inT: "ident N \<in> set (chain T)" using ok by (simp add: tlist_ok_def here)
  from tlist_remove_ok [OF ok here] obtain T1 old where
    rem: "tlist_remove_node K T N = Inr (T1, Some old)" "tlist_ok K T1" "contents T1 = before @ after"
    and old: "Key old = Key N" "ident old = ident N" "myCount old = 0"
    and chain: "chain T1 = remove1 (ident N) (chain T)"
    by (auto simp: core_def)
  have fresh: "ident old \<notin> set (chain T1)"
    using ok by (simp add: chain old tlist_ok_def set_remove1_eq)
  from tlist_insert_new_ok [OF rem(2) fresh] dis obtain T' key' where
    ins: "tlist_insert K T1 old = Inr T'" "tlist_ok K T'"
    "contents T' = behind_equals K (Key N) (key', ident N, 0) (before @ after)"
    by (auto simp: rem(3) old)
  have "tlist_insert K T N = tlist_insert K T1 old"
    using inT rem(1) fresh unfolding tlist_insert_def old(2) by simp
  with ins show ?thesis by (intro exI [of _ T'] exI [of _ key']) simp
qed

end

end
