(* ===== verification/TListSearch.thy ===== *)
theory TListSearch
  imports TListContract
begin

text \<open>
  The searches of a \<open>tlist\<close> give the neighbours of a key in the order of the contents.
\<close>

section \<open>The searches\<close>

context tree_key
begin

definition sorted_keys :: "'k lnode list \<Rightarrow> bool" where
  "sorted_keys xs = sorted_wrt (\<lambda>a b. compare_to K (Key a) (Key b) False < 0) xs"

lemma sorted_keys_Node:
  assumes "sorted_keys (inorder (Node l a i r))"
  shows "sorted_keys (inorder l)" "sorted_keys (inorder r)"
    "\<forall>b\<in>set (inorder l). compare_to K (Key b) (Key a) False < 0"
    "\<forall>b\<in>set (inorder r). compare_to K (Key a) (Key b) False < 0"
  using assms by (auto simp: sorted_keys_def sorted_wrt_append)

lemma filter_after:
  assumes "\<forall>b\<in>set xs. compare_to K (Key a) (Key b) False < 0" and "compare_to K c (Key a) False \<le> 0"
  shows "\<forall>b\<in>set xs. compare_to K c (Key b) False < 0"
  using assms comparer.cmp_le_less_trans [OF full] by blast

lemma filter_before:
  assumes "\<forall>b\<in>set xs. compare_to K (Key b) (Key a) False < 0" and "0 \<le> compare_to K c (Key a) False"
  shows "\<forall>b\<in>set xs. 0 < compare_to K c (Key b) False"
proof
  fix b assume "b \<in> set xs"
  with assms(1) have "compare_to K (Key b) (Key a) False < 0" by blast
  moreover have "compare_to K (Key a) c False \<le> 0"
    using assms(2) comparer.cmp_le_iff [OF full] by blast
  ultimately have "compare_to K (Key b) c False < 0" by (rule comparer.cmp_less_le_trans [OF full])
  then show "0 < compare_to K c (Key b) False" using full_anti by blast
qed

lemma equal_right_self:
  "\<forall>b\<in>set (inorder r). compare_to K c (Key b) False < 0 \<Longrightarrow> equal_right K c a r = a"
  by (cases r) (auto simp: equal_iff)

lemma equal_left_self:
  "\<forall>b\<in>set (inorder l). 0 < compare_to K c (Key b) False \<Longrightarrow> equal_left K c a l = a"
  by (cases l) (auto simp: equal_iff)

lemma find_at_or_before_loop_ok:
  "sorted_keys (inorder t) \<Longrightarrow> find_at_or_before_loop K c t le =
     (case last_opt (filter (\<lambda>a. 0 \<le> compare_to K c (Key a) False) (inorder t)) of
        None \<Rightarrow> le | Some a \<Rightarrow> Some a)"
proof (induction t arbitrary: le)
  case (Node l a i r)
  note s = sorted_keys_Node [OF Node.prems]
  consider "compare_to K c (Key a) False < 0" | "compare_to K c (Key a) False = 0"
    | "0 < compare_to K c (Key a) False" by linarith
  then show ?case
  proof cases
    case 1
    with filter_after [OF s(4), of c] have "filter (\<lambda>a. 0 \<le> compare_to K c (Key a) False) (inorder r) = []"
      by (auto simp: filter_empty_conv)
    with 1 Node.IH(1) [OF s(1)] show ?thesis by simp
  next
    case 2
    with filter_after [OF s(4), of c] have "\<forall>b\<in>set (inorder r). compare_to K c (Key b) False < 0" by simp
    moreover from this have "filter (\<lambda>a. 0 \<le> compare_to K c (Key a) False) (inorder r) = []"
      by (auto simp: filter_empty_conv)
    ultimately show ?thesis using 2 equal_right_self by simp
  next
    case 3
    with Node.IH(2) [OF s(2)] show ?thesis by (simp split: option.split)
  qed
qed simp

lemma find_at_or_after_loop_ok:
  "sorted_keys (inorder t) \<Longrightarrow> find_at_or_after_loop K c t le =
     (case hd_opt (filter (\<lambda>a. compare_to K c (Key a) False \<le> 0) (inorder t)) of
        None \<Rightarrow> le | Some a \<Rightarrow> Some a)"
proof (induction t arbitrary: le)
  case (Node l a i r)
  note s = sorted_keys_Node [OF Node.prems]
  consider "compare_to K c (Key a) False < 0" | "compare_to K c (Key a) False = 0"
    | "0 < compare_to K c (Key a) False" by linarith
  then show ?case
  proof cases
    case 1
    with Node.IH(1) [OF s(1)] show ?thesis by (simp add: hd_opt_append split: option.split)
  next
    case 2
    with filter_before [OF s(3), of c] have "\<forall>b\<in>set (inorder l). 0 < compare_to K c (Key b) False" by simp
    moreover from this have "filter (\<lambda>a. compare_to K c (Key a) False \<le> 0) (inorder l) = []"
      by (auto simp: filter_empty_conv)
    ultimately show ?thesis using 2 equal_left_self by simp
  next
    case 3
    with filter_before [OF s(3), of c] have "filter (\<lambda>a. compare_to K c (Key a) False \<le> 0) (inorder l) = []"
      by (auto simp: filter_empty_conv)
    with 3 Node.IH(2) [OF s(2)] show ?thesis by simp
  qed
qed simp

lemma find_adjacent_left_loop_ok:
  "sorted_keys (inorder t) \<Longrightarrow> \<forall>a\<in>set (inorder t). compare_to K (Key N) (Key a) False = 0 \<longrightarrow> ident a = ident N \<Longrightarrow>
     find_adjacent_left_loop K N t le =
     (case last_opt (filter (\<lambda>a. 0 < compare_to K (Key N) (Key a) False) (inorder t)) of
        None \<Rightarrow> le | Some a \<Rightarrow> Some a)"
proof (induction t arbitrary: le)
  case (Node l a i r)
  note s = sorted_keys_Node [OF Node.prems(1)]
  show ?case
  proof (cases "0 < compare_to K (Key N) (Key a) False")
    case True
    with Node.IH(2) [OF s(2)] Node.prems(2) show ?thesis by (simp split: option.split)
  next
    case False
    with filter_after [OF s(4), of "Key N"]
    have "filter (\<lambda>a. 0 < compare_to K (Key N) (Key a) False) (inorder r) = []"
      by (auto simp: filter_empty_conv dest: order_less_asym)
    with False Node.IH(1) [OF s(1)] Node.prems(2) show ?thesis by (auto simp: Let_def)
  qed
qed simp

lemma find_adjacent_right_loop_ok:
  "sorted_keys (inorder t) \<Longrightarrow> \<forall>a\<in>set (inorder t). compare_to K (Key N) (Key a) False = 0 \<longrightarrow> ident a = ident N \<Longrightarrow>
     find_adjacent_right_loop K N t le =
     (case hd_opt (filter (\<lambda>a. compare_to K (Key N) (Key a) False < 0) (inorder t)) of
        None \<Rightarrow> le | Some a \<Rightarrow> Some a)"
proof (induction t arbitrary: le)
  case (Node l a i r)
  note s = sorted_keys_Node [OF Node.prems(1)]
  show ?case
  proof (cases "compare_to K (Key N) (Key a) False < 0")
    case True
    with Node.IH(1) [OF s(1)] Node.prems(2) show ?thesis by (simp add: hd_opt_append split: option.split)
  next
    case False
    with filter_before [OF s(3), of "Key N"]
    have "filter (\<lambda>a. compare_to K (Key N) (Key a) False < 0) (inorder l) = []"
      by (auto simp: filter_empty_conv dest: order_less_asym)
    with False Node.IH(2) [OF s(2)] Node.prems(2) show ?thesis by (auto simp: Let_def)
  qed
qed simp

lemma last_opt_filterD: "last_opt (filter P xs) = Some a \<Longrightarrow> a \<in> set xs \<and> P a"
  using last_opt_in_set [of "filter P xs" a] by auto

lemma hd_opt_filterD: "hd_opt (filter P xs) = Some a \<Longrightarrow> a \<in> set xs \<and> P a"
proof (induction xs)
  case (Cons x xs)
  then show ?case by (cases "P x") auto
qed simp

lemma same_key_ident:
  assumes "sorted_keys xs" and "a \<in> set xs" "b \<in> set xs" and "compare_to K (Key a) (Key b) False = 0"
  shows "a = b"
  using assms
proof (induction xs)
  case (Cons x xs)
  have "compare_to K (Key x) (Key c) False \<noteq> 0" "compare_to K (Key c) (Key x) False \<noteq> 0"
    if "c \<in> set xs" for c
    using Cons.prems(1) that full_anti [of "Key x" "Key c"] by (auto simp: sorted_keys_def)
  with Cons show ?case by (auto simp: sorted_keys_def)
qed simp

lemma equal_compares:
  assumes "compare_to K a c False = 0"
  shows "compare_to K a b False = 0 \<longleftrightarrow> compare_to K c b False = 0"
    "0 < compare_to K a b False \<longleftrightarrow> 0 < compare_to K c b False"
    "compare_to K a b False < 0 \<longleftrightarrow> compare_to K c b False < 0"
proof -
  have "compare_to K c a False = 0" using assms comparer.cmp_zero_sym [OF full] by blast
  then show 3: "compare_to K a b False < 0 \<longleftrightarrow> compare_to K c b False < 0"
    using assms comparer.cmp_le_less_trans [OF full] by (metis order.refl)
  have "compare_to K b a False < 0 \<longleftrightarrow> compare_to K b c False < 0"
    using assms \<open>compare_to K c a False = 0\<close> comparer.cmp_less_le_trans [OF full]
    by (metis order.refl)
  then show 2: "0 < compare_to K a b False \<longleftrightarrow> 0 < compare_to K c b False"
    using full_anti by blast
  from 2 3 show "compare_to K a b False = 0 \<longleftrightarrow> compare_to K c b False = 0" by linarith
qed

lemma find_before_ok:
  assumes s: "sorted_keys (inorder t)"
  shows "find_before K c t = last_opt (filter (\<lambda>a. 0 < compare_to K c (Key a) False) (inorder t))"
proof -
  let ?le = "\<lambda>a. 0 \<le> compare_to K c (Key a) False" and ?lt = "\<lambda>a. 0 < compare_to K c (Key a) False"
  have at: "find_at_or_before K c t = last_opt (filter ?le (inorder t))"
    unfolding find_at_or_before_def find_at_or_before_loop_ok [OF s] by (rule case_option_id)
  show ?thesis
  proof (cases "last_opt (filter ?le (inorder t))")
    case None
    then have "\<forall>a\<in>set (inorder t). \<not> ?le a" by (simp add: filter_empty_conv)
    then have "filter ?lt (inorder t) = []" by (auto simp: filter_empty_conv dest: order_less_imp_le)
    with None at show ?thesis by (simp add: find_before_def)
  next
    case (Some a)
    note a = last_opt_filterD [OF Some]
    show ?thesis
    proof (cases "compare_to K (Key a) c False = 0")
      case True
      note eq = equal_compares [OF True]
      have "\<forall>b\<in>set (inorder t). compare_to K (Key a) (Key b) False = 0 \<longrightarrow> ident b = ident a"
        using same_key_ident [OF s] a by blast
      from find_adjacent_left_loop_ok [OF s this, of None]
      have "preceding_node K a t = last_opt (filter ?lt (inorder t))"
        unfolding preceding_node_def eq by (simp only: case_option_id)
      with Some at True show ?thesis by (simp add: find_before_def equal_iff)
    next
      case False
      with a comparer.cmp_zero_sym [OF full, of "Key a" c] have lt: "?lt a" by simp
      have "last_opt (filter ?lt (inorder t)) = Some a"
      proof -
        from Some obtain ys where ys: "filter ?le (inorder t) = ys @ [a]"
          by (cases "filter ?le (inorder t)" rule: rev_cases) (auto simp: last_opt_eq split: if_splits)
        have "filter ?lt (inorder t) = filter ?lt (filter ?le (inorder t))"
          by (auto intro: filter_cong)
        then show ?thesis unfolding ys using lt by simp
      qed
      with Some at False show ?thesis by (simp add: find_before_def equal_iff)
    qed
  qed
qed

lemma find_after_ok:
  assumes s: "sorted_keys (inorder t)"
  shows "find_after K c t = hd_opt (filter (\<lambda>a. compare_to K c (Key a) False < 0) (inorder t))"
proof -
  let ?ge = "\<lambda>a. compare_to K c (Key a) False \<le> 0" and ?gt = "\<lambda>a. compare_to K c (Key a) False < 0"
  have at: "find_at_or_after K c t = hd_opt (filter ?ge (inorder t))"
    unfolding find_at_or_after_def find_at_or_after_loop_ok [OF s] by (rule case_option_id)
  show ?thesis
  proof (cases "hd_opt (filter ?ge (inorder t))")
    case None
    then have "\<forall>a\<in>set (inorder t). \<not> ?ge a" by (simp add: filter_empty_conv)
    then have "filter ?gt (inorder t) = []" by (auto simp: filter_empty_conv dest: order_less_imp_le)
    with None at show ?thesis by (simp add: find_after_def)
  next
    case (Some a)
    note a = hd_opt_filterD [OF Some]
    show ?thesis
    proof (cases "compare_to K (Key a) c False = 0")
      case True
      note eq = equal_compares [OF True]
      have "\<forall>b\<in>set (inorder t). compare_to K (Key a) (Key b) False = 0 \<longrightarrow> ident b = ident a"
        using same_key_ident [OF s] a by blast
      from find_adjacent_right_loop_ok [OF s this, of None]
      have "following_node K a t = hd_opt (filter ?gt (inorder t))"
        unfolding following_node_def eq by (simp only: case_option_id)
      with Some at True show ?thesis by (simp add: find_after_def equal_iff)
    next
      case False
      with a comparer.cmp_zero_sym [OF full, of "Key a" c] have gt: "?gt a" by auto
      have "hd_opt (filter ?gt (inorder t)) = Some a"
      proof -
        from Some obtain ys where ys: "filter ?ge (inorder t) = a # ys"
          by (cases "filter ?ge (inorder t)") auto
        have "filter ?gt (inorder t) = filter ?gt (filter ?ge (inorder t))"
          by (auto intro: filter_cong)
        then show ?thesis unfolding ys using gt by simp
      qed
      with Some at False show ?thesis by (simp add: find_after_def equal_iff)
    qed
  qed
qed

text \<open>The searches in terms of the contents.\<close>

lemma filter_core: "filter P (map core xs) = map core (filter (\<lambda>a. P (core a)) xs)"
  by (simp add: filter_map o_def)

lemma hd_opt_map: "hd_opt (map f xs) = map_option f (hd_opt xs)"
  by (cases xs) simp_all

lemma tlist_searches_ok:
  assumes "tlist_ok K T"
  shows "map_option core (find_at_or_before K c (tree T)) =
      last_opt (filter (\<lambda>e. 0 \<le> compare_to K c (fst e) False) (contents T))"
    and "map_option core (find_before K c (tree T)) =
      last_opt (filter (\<lambda>e. 0 < compare_to K c (fst e) False) (contents T))"
    and "map_option core (find_at_or_after K c (tree T)) =
      hd_opt (filter (\<lambda>e. compare_to K c (fst e) False \<le> 0) (contents T))"
    and "map_option core (find_after K c (tree T)) =
      hd_opt (filter (\<lambda>e. compare_to K c (fst e) False < 0) (contents T))"
proof -
  have s: "sorted_keys (inorder (tree T))"
    using assms by (simp add: tlist_ok_def contents_def in_order_core sorted_keys_def)
  show "map_option core (find_at_or_before K c (tree T)) =
      last_opt (filter (\<lambda>e. 0 \<le> compare_to K c (fst e) False) (contents T))"
    unfolding find_at_or_before_def find_at_or_before_loop_ok [OF s] case_option_id contents_def
      filter_core last_opt_map by simp
  show "map_option core (find_before K c (tree T)) =
      last_opt (filter (\<lambda>e. 0 < compare_to K c (fst e) False) (contents T))"
    unfolding find_before_ok [OF s] contents_def filter_core last_opt_map by simp
  show "map_option core (find_at_or_after K c (tree T)) =
      hd_opt (filter (\<lambda>e. compare_to K c (fst e) False \<le> 0) (contents T))"
    unfolding find_at_or_after_def find_at_or_after_loop_ok [OF s] case_option_id contents_def
      filter_core hd_opt_map by simp
  show "map_option core (find_after K c (tree T)) =
      hd_opt (filter (\<lambda>e. compare_to K c (fst e) False < 0) (contents T))"
    unfolding find_after_ok [OF s] contents_def filter_core hd_opt_map by simp
qed

end

end
