(* ===== verification/HistoryProperties.thy ===== *)
theory HistoryProperties
  imports TListSearch
begin

text \<open>
  The properties of the template \<open>tlist\<close> at its key classes: the resource histories, keyed by
  \<open>prio_time\<close>, whose nodes carry the increments of the consumption of a resource, and the symbol
  tables keyed by \<open>ualpha_string\<close>. Each is a fact of the interface \<open>tree_key\<close> at its
  interpretation.
\<close>

section \<open>Vocabulary\<close>

text \<open>\<open>at_or_before k t p\<close>: the key \<open>k\<close> is at time \<open>t\<close> with identification \<open>p\<close> or earlier, the
  secondary key left aside.\<close>

definition at_or_before :: "prio_time \<Rightarrow> int \<Rightarrow> int \<Rightarrow> bool" where
  "at_or_before k t p \<longleftrightarrow> etime k < t \<or> etime k = t \<and> event_id k \<le> p"

definition history_insert :: "prio_time tree_list \<Rightarrow> prio_time lnode \<Rightarrow> prio_time tree_list result" where
  "history_insert = tlist_insert prio_time_class"

lemma coarse_at_or_before:
  "0 \<le> compare_to prio_time_class key k True \<longleftrightarrow> at_or_before k (etime key) (event_id key)"
  by (auto simp: prio_time_class_def prio_time_compare_to_def at_or_before_def)

lemma coarse_equal:
  "\<forall>b. compare_to prio_time_class key' b True = compare_to prio_time_class key b True \<Longrightarrow>
     etime key' = etime key \<and> event_id key' = event_id key"
  by (drule spec [of _ key])
    (simp add: prio_time_class_def prio_time_compare_to_def split: if_splits)

section \<open>A sample history\<close>

definition history_node :: "nat \<Rightarrow> int \<Rightarrow> int \<Rightarrow> true_long \<Rightarrow> prio_time lnode" where
  "history_node n t p v =
     \<lparr>Key = \<lparr>etime = t, event_id = p, secondaryKey = 0\<rparr>, ident = n, myCount = v,
      nCount_left = 0, nCount_right = 0\<rparr>"

definition empty_history :: "prio_time tree_list" where
  "empty_history = \<lparr>tree = Tip, chain = [], ambiguityCount = 0, synchronize_orders = True\<rparr>"

fun insert_all :: "'k keyClass \<Rightarrow> 'k tree_list \<Rightarrow> 'k lnode list \<Rightarrow> 'k tree_list" where
  "insert_all K T [] = T"
| "insert_all K T (N # Ns) =
     insert_all K (case tlist_insert K T N of Inl _ \<Rightarrow> T | Inr T' \<Rightarrow> T') Ns"

text \<open>Six nodes, three of them at the same time, with consumptions and releases.\<close>

definition sample_history :: "prio_time tree_list" where
  "sample_history =
     insert_all prio_time_class empty_history
       [history_node 1 10 0 5, history_node 2 20 0 (-2), history_node 3 15 0 7,
        history_node 4 10 0 1, history_node 5 10 0 (-3), history_node 6 12 4 9]"

lemma sample_history_ok: "tlist_ok prio_time_class sample_history"
  unfolding tlist_ok_def by code_simp

definition sample_key :: "int \<Rightarrow> int \<Rightarrow> nat \<Rightarrow> prio_time" where
  "sample_key t p n = \<lparr>etime = t, event_id = p, secondaryKey = n\<rparr>"

definition sample_contents :: "prio_time core list" where
  "sample_contents =
     [(sample_key 10 0 0, 1, 5), (sample_key 10 0 1, 4, 1), (sample_key 10 0 2, 5, - 3),
      (sample_key 12 4 0, 6, 9), (sample_key 15 0 0, 3, 7), (sample_key 20 0 0, 2, - 2)]"

lemma contents_sample_history: "contents sample_history = sample_contents"
  by code_simp

lemma sample_key_sel [simp]:
  "etime (sample_key t p n) = t" "event_id (sample_key t p n) = p" "secondaryKey (sample_key t p n) = n"
  by (simp_all add: sample_key_def)

section \<open>Properties\<close>

text \<open>C8: The insertion in a resource history: a new node gets a place behind all nodes that are
  not later than it in time and event identification, whatever number of nodes share its
  time, keeps its increment, and gets a key that differs from all others in its secondary
  key only. The tree stays balanced, the sums of the linkers stay right, and the chain of the
  list keeps the order of the tree.\<close>

theorem history_insert_correct:
  assumes "tlist_ok prio_time_class T" and "ident N \<notin> set (chain T)"
  shows "\<exists>T' key'. history_insert T N = Inr T' \<and> tlist_ok prio_time_class T'
           \<and> etime key' = etime (Key N) \<and> event_id key' = event_id (Key N)
           \<and> contents T' =
               takeWhile (\<lambda>e. at_or_before (fst e) (etime (Key N)) (event_id (Key N))) (contents T)
               @ (key', ident N, myCount N)
               # dropWhile (\<lambda>e. at_or_before (fst e) (etime (Key N)) (event_id (Key N))) (contents T)
           \<and> (synchronize_orders T \<longrightarrow> chain T' = map core_id (contents T'))"
proof -
  have "disambiguates prio_time_class" by (simp add: prio_time_class_def)
  with prio.tlist_insert_new_ok [OF assms] obtain T' key' where
    T': "tlist_insert prio_time_class T N = Inr T'" "tlist_ok prio_time_class T'"
    "contents T' = behind_equals prio_time_class (Key N) (key', ident N, myCount N) (contents T)"
    "synchronize_orders T' = synchronize_orders T"
    and key': "\<forall>b. compare_to prio_time_class key' b True = compare_to prio_time_class (Key N) b True"
    by blast
  show ?thesis
    using T' coarse_equal [OF key']
    by (intro exI [of _ T'] exI [of _ key'])
      (simp add: history_insert_def behind_equals_def coarse_at_or_before tlist_ok_def)
qed

lemma history_insert_witness:
  "\<exists>T' key'. history_insert sample_history (history_node 7 10 0 4) = Inr T'
     \<and> contents T' = take 3 sample_contents @ (key', 7, 4) # drop 3 sample_contents"
proof -
  have "ident (history_node 7 10 0 4) \<notin> set (chain sample_history)" by code_simp
  from history_insert_correct [OF sample_history_ok this] show ?thesis
    unfolding contents_sample_history
    by (auto simp: history_node_def sample_contents_def at_or_before_def)
qed

text \<open>C16: The removal from a resource history takes exactly the node off the tree and the
  chain, keeps balance, order and sums, and leaves the removed node without its increment.\<close>

theorem history_remove_correct:
  assumes "tlist_ok prio_time_class T"
    and "contents T = before @ (Key N, ident N, v) # after"
  shows "\<exists>T' old. tlist_remove_node prio_time_class T N = Inr (T', Some old)
           \<and> tlist_ok prio_time_class T' \<and> contents T' = before @ after
           \<and> core old = (Key N, ident N, 0) \<and> chain T' = remove1 (ident N) (chain T)"
  using prio.tlist_remove_ok [OF assms] by blast

definition sample_member :: "prio_time lnode" where
  "sample_member = (history_node 4 10 0 1)\<lparr>Key := sample_key 10 0 1\<rparr>"

lemma sample_member_sel [simp]:
  "Key sample_member = sample_key 10 0 1" "ident sample_member = 4"
  by (simp_all add: sample_member_def history_node_def)

lemma sample_member_place:
  "contents sample_history =
     take 1 sample_contents @ (Key sample_member, ident sample_member, 1) # drop 2 sample_contents"
  by (simp add: contents_sample_history sample_contents_def)

lemma history_remove_witness:
  "\<exists>T' old. tlist_remove_node prio_time_class sample_history sample_member = Inr (T', Some old)
     \<and> contents T' = take 1 sample_contents @ drop 2 sample_contents \<and> myCount old = 0"
  using history_remove_correct [OF sample_history_ok sample_member_place]
  by (auto simp: core_def)

text \<open>C17: The consumption reported at a node of a history is the sum of the increments of all
  nodes up to it, in the arithmetic of the machine.\<close>

theorem history_consumption:
  assumes "tlist_ok prio_time_class T" and "contents T = before @ (k, N, v) # after"
  shows "get_int_consumption N (tree T) = Some (sum_list (map core_count before) + v)"
proof -
  have "cons_ok (tree T)" "distinct (map ident (inorder (tree T)))"
    using assms(1) by (simp_all add: tlist_ok_def contents_def o_def)
  from get_int_consumption_sum [OF this assms(2) [unfolded contents_def]] show ?thesis .
qed

lemma history_consumption_witness:
  "get_int_consumption 6 (tree sample_history) = Some (5 + 1 + (- 3) + 9)"
proof -
  have "contents sample_history =
      take 3 sample_contents @ (sample_key 12 4 0, 6, 9) # drop 4 sample_contents"
    by (simp add: contents_sample_history sample_contents_def)
  from history_consumption [OF sample_history_ok this] show ?thesis
    by (simp add: sample_contents_def)
qed

text \<open>The searches of a history by a key give its neighbours: the latest node at or before
  it, the latest before it, the earliest at or after it and the earliest after it.\<close>

theorem history_searches:
  assumes "tlist_ok prio_time_class T"
  shows "map_option core (find_at_or_before prio_time_class c (tree T)) =
      last_opt (filter (\<lambda>e. 0 \<le> prio_time_compare_to c (fst e) False) (contents T))
    \<and> map_option core (find_before prio_time_class c (tree T)) =
      last_opt (filter (\<lambda>e. 0 < prio_time_compare_to c (fst e) False) (contents T))
    \<and> map_option core (find_at_or_after prio_time_class c (tree T)) =
      hd_opt (filter (\<lambda>e. prio_time_compare_to c (fst e) False \<le> 0) (contents T))
    \<and> map_option core (find_after prio_time_class c (tree T)) =
      hd_opt (filter (\<lambda>e. prio_time_compare_to c (fst e) False < 0) (contents T))"
proof -
  have c: "compare_to prio_time_class = prio_time_compare_to" by (simp add: prio_time_class_def)
  show ?thesis using prio.tlist_searches_ok [OF assms, of c] unfolding c by blast
qed

lemma history_searches_witness:
  "map_option core (find_before prio_time_class (sample_key 12 4 0) (tree sample_history)) =
     Some (sample_key 10 0 2, 5, - 3)"
  using history_searches [OF sample_history_ok, of "sample_key 12 4 0"]
  unfolding contents_sample_history
  by (simp add: sample_contents_def prio_time_compare_to_def)

text \<open>A node that is inserted in the history it is in already, as after a change of its time,
  is placed again but counts for nothing from then on: the removal that precedes the
  insertion clears its increment before the insertion saves it.\<close>

theorem history_insert_again:
  assumes "tlist_ok prio_time_class T"
    and "contents T = before @ (Key N, ident N, v) # after"
  shows "\<exists>T' key'. history_insert T N = Inr T' \<and> tlist_ok prio_time_class T'
           \<and> contents T' =
               takeWhile (\<lambda>e. at_or_before (fst e) (etime (Key N)) (event_id (Key N))) (before @ after)
               @ (key', ident N, 0)
               # dropWhile (\<lambda>e. at_or_before (fst e) (etime (Key N)) (event_id (Key N))) (before @ after)"
proof -
  have "disambiguates prio_time_class" by (simp add: prio_time_class_def)
  from prio.tlist_insert_again_ok [OF assms(1) this assms(2)] show ?thesis
    by (simp add: history_insert_def behind_equals_def coarse_at_or_before)
qed

lemma history_insert_again_witness:
  "\<exists>T' key'. history_insert sample_history sample_member = Inr T'
     \<and> contents T' = [(sample_key 10 0 0, 1, 5), (sample_key 10 0 2, 5, - 3), (key', 4, 0),
         (sample_key 12 4 0, 6, 9), (sample_key 15 0 0, 3, 7), (sample_key 20 0 0, 2, - 2)]"
  using history_insert_again [OF sample_history_ok sample_member_place]
  by (auto simp: sample_contents_def at_or_before_def)

text \<open>In a symbol table without disambiguation a new name is inserted at its place, and a name
  that is in the table already is refused with an error.\<close>

theorem symbol_table_insert:
  assumes "tlist_ok ualpha_string_class T" and "ident N \<notin> set (chain T)"
  shows "(if \<exists>e\<in>set (contents T). fst e = Key N
          then \<exists>m. tlist_insert ualpha_string_class T N = Inl (EvalError m)
          else \<exists>T'. tlist_insert ualpha_string_class T N = Inr T'
                 \<and> tlist_ok ualpha_string_class T'
                 \<and> set (contents T') = insert (Key N, ident N, myCount N) (set (contents T)))"
proof -
  have dis: "\<not> disambiguates ualpha_string_class" by (simp add: ualpha_string_class_def)
  have cmp: "compare_to ualpha_string_class a b True = 0 \<longleftrightarrow> a = b" for a b
    using strcmp_zero [of a b] by (auto simp: ualpha_string_class_def ualpha_string_compare_to_def)
  show ?thesis
  proof (cases "\<exists>e\<in>set (contents T). fst e = Key N")
    case True
    then obtain e where "e \<in> set (contents T)" "compare_to ualpha_string_class (Key N) (fst e) True = 0"
      unfolding cmp by metis
    from ualpha.tlist_insert_duplicate [OF assms dis this] True show ?thesis by simp
  next
    case False
    then have "\<forall>e\<in>set (contents T). compare_to ualpha_string_class (Key N) (fst e) True \<noteq> 0"
      unfolding cmp by metis
    with ualpha.tlist_insert_new_ok [OF assms] obtain T' key' where
      T': "tlist_insert ualpha_string_class T N = Inr T'" "tlist_ok ualpha_string_class T'"
      "contents T' = behind_equals ualpha_string_class (Key N) (key', ident N, myCount N) (contents T)"
      and key': "compare_to ualpha_string_class key' (Key N) True =
        compare_to ualpha_string_class (Key N) (Key N) True"
      by blast
    from key' have "key' = Key N" by (metis cmp)
    moreover have "set (behind_equals K k e xs) = insert e (set xs)" for K k and e :: "'b core" and xs
      unfolding behind_equals_def by (metis list.set(2) set_append Un_insert_right takeWhile_dropWhile_id)
    ultimately show ?thesis using False T' by simp
  qed
qed

definition sample_table :: "string tree_list" where
  "sample_table =
     insert_all ualpha_string_class
       \<lparr>tree = Tip, chain = [], ambiguityCount = 0, synchronize_orders = False\<rparr>
       [\<lparr>Key = ''power'', ident = 1, myCount = 1, nCount_left = 0, nCount_right = 0\<rparr>,
        \<lparr>Key = ''data'', ident = 2, myCount = 1, nCount_left = 0, nCount_right = 0\<rparr>]"

lemma symbol_table_insert_witness:
  "\<exists>m. tlist_insert ualpha_string_class sample_table
     \<lparr>Key = ''data'', ident = 3, myCount = 1, nCount_left = 0, nCount_right = 0\<rparr> = Inl (EvalError m)"
proof -
  let ?N = "\<lparr>Key = ''data'', ident = 3, myCount = 1, nCount_left = 0, nCount_right = 0\<rparr>"
  have ok: "tlist_ok ualpha_string_class sample_table" unfolding tlist_ok_def by code_simp
  have fresh: "ident ?N \<notin> set (chain sample_table)" by code_simp
  have "\<exists>e\<in>set (contents sample_table). fst e = Key ?N" by code_simp
  with symbol_table_insert [OF ok fresh] show ?thesis by (simp only: if_True)
qed

end
