(* ===== verification/TimeBase.thy ===== *)
theory TimeBase
  imports ApPrelude "HOL-Library.Signed_Division"
begin

text \<open>
  \<open>CTime_base\<close> (\<open>src/src/apcore/templates/UTL_time.C\<close>, \<open>src/src/apgenlib/UTL_time_base.H\<close>): the
  single \<open>long\<close> that holds a time or a duration in milliseconds, its arithmetic, the parser
  \<open>to_pseudo_milliseconds\<close>, the calendar in \<open>zone_time\<close> and the printers. A \<open>long\<close> is an \<open>int\<close> here
  (values stay below \<open>2 ^ 63\<close>, the code does not rely on wrapping); the conversions to
  \<open>unsigned\<close> and \<open>int\<close>, which do wrap, are written out. Division is the one of C.
\<close>

section \<open>The representation\<close>

definition TIME_BIT :: int where
  "TIME_BIT = 2 ^ 62"

definition SECS_PER_DAY :: int where
  "SECS_PER_DAY = 86400"

text \<open>\<open>(int) x\<close> and \<open>(unsigned) x\<close>.\<close>

definition to_int32 :: "int \<Rightarrow> int" where
  "to_int32 x = signed_take_bit 31 x"

definition to_unsigned :: "int \<Rightarrow> int" where
  "to_unsigned x = x mod 2 ^ 32"

definition pseudo_milliseconds :: "int \<Rightarrow> int \<Rightarrow> bool \<Rightarrow> int" where
  "pseudo_milliseconds sec millisec is_dur =
     (let pseudo = 1000 * sec + millisec in if is_dur then pseudo else pseudo + TIME_BIT)"

text \<open>The constructors assert \<open>pseudo_millisec >= 0 || pseudo_millisec & TIME_BIT\<close>.\<close>

definition has_time_bit :: "int \<Rightarrow> bool" where
  "has_time_bit p = bit p 62"

definition mk_time :: "int \<Rightarrow> int result" where
  "mk_time p = (if p \<ge> 0 \<or> has_time_bit p then Inr p else Inl AssertFailed)"

definition CTime_base :: "int \<Rightarrow> int \<Rightarrow> bool \<Rightarrow> int result" where
  "CTime_base a b d = mk_time (pseudo_milliseconds a b d)"

definition get_seconds :: "int \<Rightarrow> int result" where
  "get_seconds p =
     (if p < 0 then (if has_time_bit p then Inr (p sdiv 1000) else Inl AssertFailed)
      else if has_time_bit p then Inr ((p - TIME_BIT) sdiv 1000)
      else Inr (p sdiv 1000))"

definition get_milliseconds :: "int \<Rightarrow> int result" where
  "get_milliseconds p =
     (if p < 0 then (if has_time_bit p then Inr (p smod 1000) else Inl AssertFailed)
      else if has_time_bit p then Inr ((p - TIME_BIT) smod 1000)
      else Inr (p smod 1000))"

definition to_milliseconds :: "int \<Rightarrow> int result" where
  "to_milliseconds p =
     (if p < 0 then (if has_time_bit p then Inr p else Inl AssertFailed)
      else if has_time_bit p then Inr (p - TIME_BIT)
      else Inr p)"

definition is_duration :: "int \<Rightarrow> bool" where
  "is_duration p = (p < 0 \<or> p < TIME_BIT)"

definition is_negative :: "int \<Rightarrow> bool result" where
  "is_negative p =
     (if p < 0 then (if has_time_bit p then Inr True else Inl AssertFailed) else Inr False)"

lemma has_time_bit_cases:
  "0 \<le> p \<Longrightarrow> p < TIME_BIT \<Longrightarrow> \<not> has_time_bit p"
  "- TIME_BIT \<le> p \<Longrightarrow> p < 0 \<Longrightarrow> has_time_bit p"
  "TIME_BIT \<le> p \<Longrightarrow> p < 2 * TIME_BIT \<Longrightarrow> has_time_bit p"
proof -
  assume "0 \<le> p" "p < TIME_BIT"
  then have "p div 2 ^ 62 = 0" unfolding TIME_BIT_def by simp
  then show "\<not> has_time_bit p" by (simp add: has_time_bit_def bit_iff_odd)
next
  assume "- TIME_BIT \<le> p" "p < 0"
  then have "p div 2 ^ 62 = -1" unfolding TIME_BIT_def by (intro int_div_pos_eq [where r = "p + 2 ^ 62"]) simp_all
  then show "has_time_bit p" by (simp add: has_time_bit_def bit_iff_odd)
next
  assume "TIME_BIT \<le> p" "p < 2 * TIME_BIT"
  then have "p div 2 ^ 62 = 1" unfolding TIME_BIT_def by (intro int_div_pos_eq [where r = "p - 2 ^ 62"]) simp_all
  then show "has_time_bit p" by (simp add: has_time_bit_def bit_iff_odd)
qed

section \<open>Arithmetic\<close>

definition time_add :: "int \<Rightarrow> int \<Rightarrow> int" where
  "time_add p d = p + d"

definition time_sub :: "int \<Rightarrow> int \<Rightarrow> int result" where
  "time_sub p d =
     (let isDuration = (is_duration p = is_duration d); r = p - d in
      if \<not> isDuration \<and> r < TIME_BIT
      then Inl (EvalError ''Subtraction leads to a negative time value.'')
      else Inr r)"

definition time_neg :: "int \<Rightarrow> int result" where
  "time_neg p = (if is_duration p then Inr (- p) else Inl AssertFailed)"

definition time_mod :: "int \<Rightarrow> int \<Rightarrow> int result" where
  "time_mod s t =
     bind_result (to_milliseconds t) (\<lambda>c.
       if c = 0 then Inl (EvalError ''second argument in modulo expression is zero'')
       else bind_result (to_milliseconds s) (\<lambda>m.
         let d = m smod c in CTime_base (d sdiv 1000) (d smod 1000) True))"

definition time_abs :: "int \<Rightarrow> int result" where
  "time_abs s =
     bind_result (get_seconds s) (\<lambda>sec.
       bind_result (get_milliseconds s) (\<lambda>ms. CTime_base \<bar>sec\<bar> \<bar>ms\<bar> True))"

definition time_within_window :: "int \<Rightarrow> int \<Rightarrow> int \<Rightarrow> bool" where
  "time_within_window t s e = (t \<ge> s \<and> t < e)"

definition window_within_window :: "int \<Rightarrow> int \<Rightarrow> int \<Rightarrow> int \<Rightarrow> bool" where
  "window_within_window ts te s e = (ts \<ge> s \<and> te \<le> e)"

definition windows_overlap :: "int \<Rightarrow> int \<Rightarrow> int \<Rightarrow> int \<Rightarrow> bool" where
  "windows_overlap ts te s e =
     ((ts \<ge> s \<and> ts < e) \<or> (te > s \<and> te \<le> e) \<or> (ts < s \<and> te > e))"

section \<open>Characters and numbers\<close>

definition isdigit :: "char \<Rightarrow> bool" where
  "isdigit c = (48 \<le> (of_char c :: nat) \<and> (of_char c :: nat) \<le> 57)"

definition isspace :: "char \<Rightarrow> bool" where
  "isspace c = ((of_char c :: nat) = 32 \<or> 9 \<le> (of_char c :: nat) \<and> (of_char c :: nat) \<le> 13)"

definition digit_val :: "char \<Rightarrow> int" where
  "digit_val c = of_char c - 48"

definition digit_char :: "nat \<Rightarrow> char" where
  "digit_char n = char_of (48 + n)"

text \<open>\<open>strtol\<close> in base 10: blanks, a sign, digits. Without digits the value is 0 and nothing is
  consumed; the value saturates at the bounds of \<open>long\<close>.\<close>

fun read_digits :: "int \<Rightarrow> string \<Rightarrow> int \<times> string" where
  "read_digits acc [] = (acc, [])"
| "read_digits acc (c # cs) =
     (if isdigit c then read_digits (10 * acc + digit_val c) cs else (acc, c # cs))"

definition saturate :: "int \<Rightarrow> int" where
  "saturate x = max (- (2 ^ 63)) (min (2 ^ 63 - 1) x)"

definition strtol :: "string \<Rightarrow> int \<times> string" where
  "strtol s =
     (let s1 = dropWhile isspace s;
          neg = (case s1 of c # _ \<Rightarrow> c = CHR ''-'' | [] \<Rightarrow> False);
          s2 = (case s1 of c # cs \<Rightarrow> if c = CHR ''-'' \<or> c = CHR ''+'' then cs else s1 | [] \<Rightarrow> [])
      in case s2 of
           [] \<Rightarrow> (0, s)
         | c # _ \<Rightarrow>
             (if isdigit c then
                let (v, rest) = read_digits 0 s2 in (saturate (if neg then - v else v), rest)
              else (0, s)))"

section \<open>Parsing\<close>

definition yearadj :: "int \<Rightarrow> int" where
  "yearadj yr =
     (if 70 \<le> yr \<and> yr < 170 then yr + 1900
      else if 0 \<le> yr \<and> yr < 70 then yr + 2000
      else if yr < 1970 \<or> yr \<ge> 2070 then 1970
      else yr)"

text \<open>The loop that stacks up to \<open>n\<close> integers (5 at the start), separated by any character but
  a point.\<close>

primrec stack_ints :: "nat \<Rightarrow> int list \<Rightarrow> string \<Rightarrow> int list \<times> string" where
  "stack_ints 0 stack endp = (stack, endp)"
| "stack_ints (Suc n) stack endp =
     (let (acc, rest) = strtol endp; stack' = to_unsigned acc # stack in
      case rest of
        [] \<Rightarrow> (stack', rest)
      | c # cs \<Rightarrow> (if n > 0 \<and> c \<noteq> CHR ''.'' then stack_ints n stack' cs else (stack', rest)))"

text \<open>Three digits of milliseconds, and a fourth one for rounding.\<close>

fun read_millis :: "int \<Rightarrow> int \<Rightarrow> string \<Rightarrow> int" where
  "read_millis mult acc [] = acc"
| "read_millis mult acc (c # cs) =
     (if isdigit c \<and> mult > 1 then
        read_millis (mult div 10) (acc + mult div 10 * digit_val c) cs
      else if isdigit c \<and> digit_val c \<ge> 5 then acc + mult
      else acc)"

definition stack_top :: "int list \<Rightarrow> int" where
  "stack_top stack = (case stack of [] \<Rightarrow> 0 | x # _ \<Rightarrow> x)"

definition stack_pop :: "int list \<Rightarrow> int list" where
  "stack_pop stack = (case stack of [] \<Rightarrow> [] | _ # xs \<Rightarrow> xs)"

definition parse_pseudo_milliseconds :: "string \<Rightarrow> int" where
  "parse_pseudo_milliseconds S =
     (let neg = (case S of c # _ \<Rightarrow> c = CHR ''-'' | [] \<Rightarrow> False);
          endp = (if neg then tl S else S);
          (stack, rest) = stack_ints 5 [] endp;
          theMilliseconds =
            (case rest of
               c # d # cs \<Rightarrow> (if c = CHR ''.'' then read_millis 1000 0 (d # cs) else 0)
             | _ \<Rightarrow> 0);
          s1 = stack_pop stack; s2 = stack_pop s1; s3 = stack_pop s2; s4 = stack_pop s3;
          theSeconds = stack_top stack + stack_top s1 * 60 + stack_top s2 * 3600;
          days = stack_top s3;
          is_dur = (s4 = []);
          total_days =
            (if is_dur then days
             else days + ((yearadj (stack_top s4) - 1970) * 365 + (yearadj (stack_top s4) - 1969) sdiv 4 - 1));
          secs = theSeconds + total_days * SECS_PER_DAY
      in if neg then pseudo_milliseconds (- secs) (- theMilliseconds) is_dur
         else pseudo_milliseconds secs theMilliseconds is_dur)"

definition CTime_base_of_string :: "string \<Rightarrow> int result" where
  "CTime_base_of_string str = mk_time (parse_pseudo_milliseconds str)"

section \<open>The calendar\<close>

datatype ZONE =
    TIMEZONE_UTC | TIMEZONE_EDT | TIMEZONE_EST | TIMEZONE_CDT | TIMEZONE_CST
  | TIMEZONE_MDT | TIMEZONE_MST | TIMEZONE_PDT | TIMEZONE_PST

fun zone_value :: "ZONE \<Rightarrow> int" where
  "zone_value TIMEZONE_UTC = 0"
| "zone_value TIMEZONE_EDT = -14401"
| "zone_value TIMEZONE_EST = -18000"
| "zone_value TIMEZONE_CDT = -18001"
| "zone_value TIMEZONE_CST = -21600"
| "zone_value TIMEZONE_MDT = -21601"
| "zone_value TIMEZONE_MST = -25200"
| "zone_value TIMEZONE_PDT = -25201"
| "zone_value TIMEZONE_PST = -28800"

fun timezone_to_abbrev_string :: "ZONE \<Rightarrow> string" where
  "timezone_to_abbrev_string TIMEZONE_UTC = ''UTC''"
| "timezone_to_abbrev_string TIMEZONE_EDT = ''EDT''"
| "timezone_to_abbrev_string TIMEZONE_EST = ''EST''"
| "timezone_to_abbrev_string TIMEZONE_CDT = ''CDT''"
| "timezone_to_abbrev_string TIMEZONE_CST = ''CST''"
| "timezone_to_abbrev_string TIMEZONE_MDT = ''MDT''"
| "timezone_to_abbrev_string TIMEZONE_MST = ''MST''"
| "timezone_to_abbrev_string TIMEZONE_PDT = ''PDT''"
| "timezone_to_abbrev_string TIMEZONE_PST = ''PST''"

record tim =
  tim_year :: int
  tim_yday :: int
  tim_hour :: int
  tim_min :: int
  tim_sec :: int
  tim_ms :: int

definition leap_year :: "int \<Rightarrow> bool" where
  "leap_year yr = ((yr smod 4 = 0 \<and> yr smod 100 \<noteq> 0) \<or> yr smod 400 = 0)"

definition zone_offset :: "ZONE \<Rightarrow> int" where
  "zone_offset z =
     (let offset = 60 * ((\<bar>zone_value z\<bar> + 30) sdiv 60) in if zone_value z < 0 then - offset else offset)"

definition zone_time :: "int \<Rightarrow> ZONE \<Rightarrow> bool \<Rightarrow> tim result" where
  "zone_time p z keep_ms =
     bind_result (get_seconds p) (\<lambda>secs.
     bind_result (get_milliseconds p) (\<lambda>millis.
       let sec_round = secs + zone_offset z;
           dys = to_int32 (sec_round sdiv SECS_PER_DAY);
           sec_day = sec_round - dys * SECS_PER_DAY;
           yr0 = dys sdiv 365;
           lpdays = (yr0 + 1) sdiv 4;
           d0 = dys - (yr0 * 365 + lpdays);
           yr = (if d0 < 0 then yr0 - 1 else yr0);
           dayofyr = (if d0 < 0 then d0 + 365 + (if leap_year (yr + 1970) then 1 else 0) else d0)
       in Inr \<lparr>tim_year = yr + 70, tim_yday = dayofyr,
               tim_hour = sec_day sdiv 60 sdiv 60,
               tim_min = sec_day sdiv 60 smod 60,
               tim_sec = sec_day smod 60,
               tim_ms = (if keep_ms then millis else 0)\<rparr>))"

definition daytab :: "bool \<Rightarrow> int list" where
  "daytab leap =
     [31, if leap then 29 else 28, 31, 30, 31, 30, 31, 31, 30, 31, 30, 31]"

text \<open>The loop over the months; running off the table is a read out of bounds.\<close>

fun month_loop :: "int list \<Rightarrow> int \<Rightarrow> int \<Rightarrow> (int \<times> int) result" where
  "month_loop [] i yearday = Inl NullAccess"
| "month_loop (m # ms) i yearday =
     (if yearday \<ge> m then month_loop ms (i + 1) (yearday - m) else Inr (i, yearday))"

definition compute_month_day :: "tim \<Rightarrow> (int \<times> int) result" where
  "compute_month_day time = month_loop (daytab (leap_year (1900 + tim_year time))) 0 (tim_yday time)"

definition compute_dayofweek :: "tim \<Rightarrow> int" where
  "compute_dayofweek time =
     (let years_since_1970 = tim_year time - 70;
          nleap_since_1970 = (years_since_1970 + 1) sdiv 4
      in (4 + years_since_1970 + nleap_since_1970 + tim_yday time) smod 7)"

section \<open>Printing\<close>

fun show_nat :: "nat \<Rightarrow> string" where
  "show_nat n = (if n < 10 then [digit_char n] else show_nat (n div 10) @ [digit_char (n mod 10)])"

declare show_nat.simps [simp del]

text \<open>\<open>printf\<close> of an \<open>int\<close> with \<open>%0wd\<close>, and with \<open>%wd\<close>.\<close>

definition pad :: "char \<Rightarrow> nat \<Rightarrow> string \<Rightarrow> string" where
  "pad c w s = replicate (w - length s) c @ s"

definition fmt0 :: "nat \<Rightarrow> int \<Rightarrow> string" where
  "fmt0 w x =
     (if x < 0 then CHR ''-'' # pad (CHR ''0'') (w - 1) (show_nat (nat (- x)))
      else pad (CHR ''0'') w (show_nat (nat x)))"

definition fmt_blank :: "nat \<Rightarrow> int \<Rightarrow> string" where
  "fmt_blank w x =
     pad (CHR '' '') w (if x < 0 then CHR ''-'' # show_nat (nat (- x)) else show_nat (nat x))"

text \<open>\<open>time_to_SCET_string\<close> for the time zones that are not epochs.\<close>

definition time_to_SCET_string :: "int \<Rightarrow> ZONE \<Rightarrow> bool \<Rightarrow> bool \<Rightarrow> bool \<Rightarrow> string result" where
  "time_to_SCET_string p z keep_ms keep_century use_tee =
     (if is_duration p then Inl AssertFailed
      else bind_result (zone_time p z keep_ms) (\<lambda>tmp.
        Inr ((if keep_century then fmt0 2 ((1900 + tim_year tmp) sdiv 100) else [])
          @ fmt0 2 (tim_year tmp smod 100) @ ''-'' @ fmt0 3 (tim_yday tmp + 1)
          @ (if use_tee then ''T'' else ''/'')
          @ fmt0 2 (tim_hour tmp) @ '':'' @ fmt0 2 (tim_min tmp) @ '':'' @ fmt0 2 (tim_sec tmp)
          @ (if keep_ms then ''.'' @ fmt0 3 (tim_ms tmp) else []))))"

definition time_as_duration_string :: "int \<Rightarrow> bool \<Rightarrow> string result" where
  "time_as_duration_string p keep_ms =
     bind_result (get_seconds p) (\<lambda>sec0.
     bind_result (get_milliseconds p) (\<lambda>ms0.
       if \<not> is_duration p then Inl AssertFailed
       else
         let minus = (sec0 < 0 \<or> sec0 = 0 \<and> ms0 < 0);
             sec_round = (if minus then - sec0 else sec0);
             millisec_round = (if minus then - ms0 else ms0);
             days = to_int32 (sec_round sdiv SECS_PER_DAY);
             secs = to_int32 (sec_round - days * SECS_PER_DAY);
             ms = (if keep_ms then millisec_round else 0);
             rsec = secs smod 60;
             rmin = secs sdiv 60 smod 60;
             rhour = secs sdiv 60 sdiv 60 smod 24
         in Inr ((if minus then ''-'' else [])
              @ (if days \<noteq> 0 then fmt0 3 days @ ''T'' else [])
              @ fmt0 2 rhour @ '':'' @ fmt0 2 rmin @ '':'' @ fmt0 2 rsec
              @ (if ms \<noteq> 0 then ''.'' @ fmt0 3 ms else []))))"

definition month_names :: "string list" where
  "month_names =
     [''January  '', ''February '', ''March    '', ''April    '', ''May      '', ''June     '',
      ''July     '', ''August   '', ''September'', ''October  '', ''November '', ''December '']"

definition day_names :: "string list" where
  "day_names =
     [''Sunday   '', ''Monday   '', ''Tuesday  '', ''Wednesday'', ''Thursday '', ''Friday   '',
      ''Saturday '']"

text \<open>A read of a name table: an index out of range is an access out of bounds.\<close>

definition table_read :: "'a list \<Rightarrow> int \<Rightarrow> 'a result" where
  "table_read xs i = (if 0 \<le> i \<and> i < int (length xs) then Inr (xs ! nat i) else Inl NullAccess)"

definition time_to_word_date_SCET_string :: "int \<Rightarrow> ZONE \<Rightarrow> string result" where
  "time_to_word_date_SCET_string p z =
     bind_result (zone_time p z False) (\<lambda>tmp.
     bind_result (compute_month_day tmp) (\<lambda>(month, day).
     bind_result (table_read day_names (compute_dayofweek tmp)) (\<lambda>dn.
     bind_result (table_read month_names month) (\<lambda>mn.
       Inr (take 3 dn @ '', '' @ take 3 mn @ '' '' @ fmt_blank 2 (day + 1) @ '', ''
            @ fmt0 4 (1900 + tim_year tmp))))))"

definition time_to_complete_SCET_string :: "int \<Rightarrow> ZONE \<Rightarrow> bool \<Rightarrow> bool \<Rightarrow> bool \<Rightarrow> string result" where
  "time_to_complete_SCET_string p z keep_ms keep_century use_tee =
     bind_result (time_to_word_date_SCET_string p z) (\<lambda>str.
     bind_result (time_to_SCET_string p z keep_ms keep_century use_tee) (\<lambda>temp.
       Inr (take (length str - 4) str @ temp @ '' '' @ timezone_to_abbrev_string z)))"

end
