(* ===== verification/ResHistory.thy ===== *)
theory ResHistory
  imports HistoryProperties TimeBase
begin

text \<open>
  Resource histories and the numeric resources: \<open>RES_history\<close>, \<open>RES_consumable\<close>,
  \<open>RES_nonconsumable\<close> and \<open>RES_numeric\<close> of \<open>src/src/apcore/resources/ResourceValue.C\<close> and
  \<open>ResourceUsage.C\<close>, \<open>src/src/apgenlib/Rsource.H\<close>. A history is a list of \<open>TList\<close>; a usage adds
  nodes with increments to it, and a value is a profile minus the consumption at the latest
  node that is not later than the time asked for. Resources of type integer, time and
  duration, whose histories use the integer linker; profiles are programs of the adaptation
  and are arguments.
\<close>

section \<open>Histories\<close>

text \<open>\<open>RES_history\<close>: the list, the flags \<open>Frozen\<close> and \<open>Imported\<close>, the version, and the address of
  the next node that is created.\<close>

record res_history =
  historyList :: "prio_time tree_list"
  Frozen :: bool
  Imported :: bool
  version :: nat
  next_node_address :: nat

text \<open>\<open>numericIntFactory\<close>, with \<open>prio_time(t, modelOrder)\<close>.\<close>

definition prio_key :: "int \<Rightarrow> int \<Rightarrow> prio_time" where
  "prio_key t p = \<lparr>etime = t, event_id = p, secondaryKey = 0\<rparr>"

definition numericIntFactory :: "nat \<Rightarrow> int \<Rightarrow> true_long \<Rightarrow> int \<Rightarrow> prio_time lnode" where
  "numericIntFactory address t new_consumption modelOrder =
     \<lparr>Key = prio_key t modelOrder, ident = address, myCount = new_consumption,
      nCount_left = 0, nCount_right = 0\<rparr>"

text \<open>\<open>RES_history::Add\<close>. An \<open>eval_error\<close> of the insertion is reported and swallowed.\<close>

definition history_Add :: "int \<Rightarrow> true_long \<Rightarrow> int \<Rightarrow> res_history \<Rightarrow> res_history result" where
  "history_Add t v modelOrder h =
     (let vn = numericIntFactory (next_node_address h) t v modelOrder;
          h' = h\<lparr>next_node_address := next_node_address h + 1\<rparr> in
      if Frozen h then Inl (EvalError ''history.Add(): Resource is frozen.'')
      else case tlist_insert prio_time_class (historyList h) vn of
        Inl (EvalError m) \<Rightarrow> Inr (h'\<lparr>version := version h + 1\<rparr>)
      | Inl e \<Rightarrow> Inl e
      | Inr L \<Rightarrow> Inr (h'\<lparr>historyList := L, version := version h + 1\<rparr>))"

definition history_clear :: "res_history \<Rightarrow> res_history" where
  "history_clear h = h\<lparr>historyList := tlist_clear (historyList h), version := version h + 1\<rparr>"

text \<open>\<open>latestHistNodeAtOrBefore\<close> and \<open>latestHistNodeBefore\<close>; the first takes the last event
  identification given out, \<open>mEvent::currentEventID\<close>.\<close>

definition latestHistNodeAtOrBefore :: "int \<Rightarrow> int \<Rightarrow> res_history \<Rightarrow> prio_time lnode option" where
  "latestHistNodeAtOrBefore event_time currentEventID h =
     find_at_or_before prio_time_class (prio_key event_time (currentEventID + 1)) (tree (historyList h))"

definition latestHistNodeBefore :: "int \<Rightarrow> res_history \<Rightarrow> prio_time lnode option" where
  "latestHistNodeBefore event_time h =
     find_before prio_time_class (prio_key event_time 0) (tree (historyList h))"

section \<open>Consumable and nonconsumable resources\<close>

text \<open>\<open>RES_consumable::append_to_history\<close>; an amount is an integer or the milliseconds of a
  duration.\<close>

definition consumable_append :: "true_long \<Rightarrow> int \<Rightarrow> int \<Rightarrow> res_history \<Rightarrow> res_history result" where
  "consumable_append amountconsumed start_event_time start_event_id h =
     history_Add start_event_time amountconsumed start_event_id h"

text \<open>\<open>immediately_append_to_history\<close> takes a new event identification.\<close>

definition consumable_immediately_append ::
  "true_long \<Rightarrow> int \<Rightarrow> int \<Rightarrow> res_history \<Rightarrow> (int \<times> res_history) result" where
  "consumable_immediately_append amountconsumed now currentEventID h =
     bind_result (consumable_append amountconsumed now (currentEventID + 1) h)
       (\<lambda>h'. Inr (currentEventID + 1, h'))"

definition nonconsumable_append ::
  "true_long \<Rightarrow> int \<Rightarrow> int \<Rightarrow> int \<Rightarrow> int \<Rightarrow> res_history \<Rightarrow> res_history result" where
  "nonconsumable_append amountconsumed start_event_time end_event_time start_event_id end_event_id h =
     bind_result (history_Add start_event_time amountconsumed start_event_id h)
       (\<lambda>h'. if end_event_time > TIME_BIT
             then history_Add end_event_time (- amountconsumed) end_event_id h'
             else Inr h')"

text \<open>\<open>execute_use_clause\<close> of the two classes: the event has a time, an identification and, for a
  nonconsumable resource, the end of the usage.\<close>

definition consumable_use ::
  "true_long \<Rightarrow> int \<Rightarrow> int \<Rightarrow> bool \<Rightarrow> int \<Rightarrow> int \<Rightarrow> res_history \<Rightarrow> (int \<times> res_history) result" where
  "consumable_use amountconsumed E_etime E_id immed now currentEventID h =
     (if immed then consumable_immediately_append amountconsumed now currentEventID h
      else bind_result (consumable_append amountconsumed E_etime E_id h)
             (\<lambda>h'. Inr (currentEventID, h')))"

definition nonconsumable_use ::
  "true_long \<Rightarrow> int \<Rightarrow> int \<Rightarrow> int \<Rightarrow> bool \<Rightarrow> res_history \<Rightarrow> res_history result" where
  "nonconsumable_use amountconsumed E_etime to_time E_id immed h =
     (if immed then Inl (EvalError ''nonconsumable resource cannot be used immediately'')
      else nonconsumable_append amountconsumed E_etime to_time E_id (E_id + 1) h)"

text \<open>\<open>initialize_value\<close> of both classes, at the start of a modelling pass and for a history read
  from a file.\<close>

definition initialize_value :: "bool \<Rightarrow> int \<Rightarrow> int \<Rightarrow> res_history \<Rightarrow> res_history result" where
  "initialize_value second_scheduling_pass source_time source_id h =
     (if Frozen h then Inl (EvalError ''initialize_value: Resource is frozen.'')
      else if Imported h then Inr (h\<lparr>Imported := False\<rparr>)
      else history_Add source_time 0 source_id
             (if second_scheduling_pass then h else history_clear h))"

definition initialize_imported :: "int \<Rightarrow> res_history \<Rightarrow> res_history result" where
  "initialize_imported T h =
     history_Add T 0 0 (history_clear (h\<lparr>Frozen := False, Imported := True\<rparr>))"

section \<open>Values\<close>

text \<open>\<open>EvalTiming::Strategy\<close> without interpolation, and the values of a numeric resource: an
  integer, or the milliseconds of a time or a duration.\<close>

datatype strategy = NORMAL | BEFORE

datatype num_value = INTEGER true_long | TIME_OR_DURATION int

text \<open>The value of the profile minus that of a history node (\<open>num_value_node_i::get_value\<close>
  reads the consumption as a duration for the types time and duration).\<close>

fun subtract_node_value :: "num_value \<Rightarrow> true_long \<Rightarrow> num_value result" where
  "subtract_node_value (INTEGER v) c = Inr (INTEGER (v - c))"
| "subtract_node_value (TIME_OR_DURATION p) c =
     bind_result (time_sub p (sint c)) (\<lambda>r. Inr (TIME_OR_DURATION r))"

text \<open>The end of both versions of \<open>RES_numeric::eval_val_within_thread\<close>, behind the search of the
  node \<open>found\<close>; \<open>profile\<close> stands for \<open>evaluate_profile\<close> and the cast to the type of the
  resource.\<close>

definition naming_resource :: "string \<Rightarrow> 'a result \<Rightarrow> 'a result" where
  "naming_resource message r = (case r of Inl (EvalError m) \<Rightarrow> Inl (EvalError message) | _ \<Rightarrow> r)"

definition value_from ::
  "(int \<Rightarrow> num_value result) \<Rightarrow> int \<Rightarrow> prio_time lnode option \<Rightarrow> res_history \<Rightarrow> num_value result" where
  "value_from profile eval_time found h =
     (case found of
        None \<Rightarrow> naming_resource '': evaluate present value: error computing profile'' (profile eval_time)
      | Some node \<Rightarrow>
          bind_result (naming_resource '': error evaluating profile'' (profile eval_time)) (\<lambda>returned_value.
            case get_int_consumption (ident node) (tree (historyList h)) of
              None \<Rightarrow> Inl NullAccess
            | Some c \<Rightarrow> subtract_node_value returned_value c))"

text \<open>\<open>RES_numeric::eval_val_within_thread(value, time)\<close>.\<close>

definition numeric_value ::
  "(int \<Rightarrow> num_value result) \<Rightarrow> strategy \<Rightarrow> int \<Rightarrow> int \<Rightarrow> res_history \<Rightarrow> num_value result" where
  "numeric_value profile strategy eval_time currentEventID h =
     value_from profile eval_time
       (case strategy of
          NORMAL \<Rightarrow> latestHistNodeAtOrBefore eval_time currentEventID h
        | BEFORE \<Rightarrow> latestHistNodeBefore eval_time h) h"

section \<open>The invariant of a history\<close>

text \<open>Event identifications are between 0 and the last one given out.\<close>

definition history_ok :: "int \<Rightarrow> res_history \<Rightarrow> bool" where
  "history_ok cur h \<longleftrightarrow>
     tlist_ok prio_time_class (historyList h) \<and> synchronize_orders (historyList h)
     \<and> (\<forall>e\<in>set (contents (historyList h)).
          0 \<le> event_id (fst e) \<and> event_id (fst e) \<le> cur \<and> core_id e < next_node_address h)"

definition events_of :: "res_history \<Rightarrow> prio_time core list" where
  "events_of h = contents (historyList h)"

text \<open>The insertion as the order sees it.\<close>

definition add_event :: "int \<Rightarrow> int \<Rightarrow> prio_time core \<Rightarrow> prio_time core list \<Rightarrow> prio_time core list" where
  "add_event t p e xs =
     takeWhile (\<lambda>e. at_or_before (fst e) t p) xs @ e # dropWhile (\<lambda>e. at_or_before (fst e) t p) xs"

lemma set_add_event: "set (add_event t p e xs) = insert e (set xs)"
  unfolding add_event_def by (metis list.set(2) set_append Un_insert_right takeWhile_dropWhile_id)

lemma history_Add_ok:
  assumes ok: "history_ok cur h" and frozen: "\<not> Frozen h" and p: "0 \<le> p" "p \<le> cur"
  shows "\<exists>h' k. history_Add t v p h = Inr h' \<and> history_ok cur h' \<and> \<not> Frozen h'
           \<and> etime k = t \<and> event_id k = p
           \<and> events_of h' = add_event t p (k, next_node_address h, v) (events_of h)
           \<and> next_node_address h' = next_node_address h + 1"
proof -
  let ?N = "numericIntFactory (next_node_address h) t v p"
  have T: "tlist_ok prio_time_class (historyList h)" using ok by (simp add: history_ok_def)
  have "set (chain (historyList h)) = core_id ` set (contents (historyList h))"
    using T by (simp add: tlist_ok_def)
  moreover have "next_node_address h \<notin> core_id ` set (contents (historyList h))"
    using ok by (auto simp: history_ok_def)
  ultimately have fresh: "ident ?N \<notin> set (chain (historyList h))"
    by (simp add: numericIntFactory_def)
  have dis: "disambiguates prio_time_class" by (simp add: prio_time_class_def)
  from prio.tlist_insert_new_ok [OF T fresh] dis obtain L k where
    L: "tlist_insert prio_time_class (historyList h) ?N = Inr L" "tlist_ok prio_time_class L"
    "contents L = behind_equals prio_time_class (Key ?N) (k, ident ?N, myCount ?N) (contents (historyList h))"
    "synchronize_orders L = synchronize_orders (historyList h)"
    and k: "\<forall>b. compare_to prio_time_class k b True = compare_to prio_time_class (Key ?N) b True"
    by blast
  have keys: "etime k = t" "event_id k = p"
    using coarse_equal [OF k] by (simp_all add: numericIntFactory_def prio_key_def)
  have contents: "contents L = add_event t p (k, next_node_address h, v) (events_of h)"
    using L(3) by (simp add: behind_equals_def coarse_at_or_before add_event_def events_of_def
        numericIntFactory_def prio_key_def)
  let ?h = "h\<lparr>historyList := L, version := version h + 1, next_node_address := next_node_address h + 1\<rparr>"
  have "history_Add t v p h = Inr ?h"
    using L(1) frozen by (simp add: history_Add_def Let_def)
  moreover have "history_ok cur ?h"
    using ok L(2,4) p keys unfolding history_ok_def
    by (auto simp: contents set_add_event events_of_def less_SucI)
  ultimately show ?thesis
    using keys contents frozen by (intro exI [of _ ?h] exI [of _ k]) (simp add: events_of_def)
qed

end
