(* ===== verification/ResHistoryProperties.thy ===== *)
theory ResHistoryProperties
  imports ResHistory
begin

text \<open>
  The values of numeric resources: the value at a time is the profile minus what the usages up
  to that time amount to, whatever the order in which the usages were stored.
\<close>

section \<open>The consumption up to a time\<close>

definition history_total :: "(int \<Rightarrow> bool) \<Rightarrow> res_history \<Rightarrow> true_long" where
  "history_total P h = sum_list (map core_count (filter (\<lambda>e. P (etime (fst e))) (events_of h)))"

lemma sum_list_filter_split:
  "sum_list (map f (filter P (takeWhile Q xs))) + sum_list (map f (filter P (dropWhile Q xs))) =
     (sum_list (map f (filter P xs)) :: 'a :: comm_monoid_add)"
  by (metis filter_append map_append sum_list_append takeWhile_dropWhile_id)

lemma total_add_event:
  "sum_list (map core_count (filter (\<lambda>e. P (etime (fst e))) (add_event t p (k, n, v) xs))) =
     sum_list (map core_count (filter (\<lambda>e. P (etime (fst e))) xs)) + (if P (etime k) then v else 0)"
  unfolding add_event_def
  by (simp add: sum_list_filter_split [of core_count _ "\<lambda>e. at_or_before (fst e) t p" xs, symmetric]
      algebra_simps)

lemma history_Add_total:
  assumes "history_ok cur h" and "\<not> Frozen h" and "0 \<le> p" "p \<le> cur"
  shows "\<exists>h'. history_Add t v p h = Inr h' \<and> history_ok cur h' \<and> \<not> Frozen h'
           \<and> history_total P h' = history_total P h + (if P t then v else 0)"
proof -
  from history_Add_ok [OF assms] obtain h' k where
    h': "history_Add t v p h = Inr h'" "history_ok cur h'" "\<not> Frozen h'" "etime k = t"
    "events_of h' = add_event t p (k, next_node_address h, v) (events_of h)" by blast
  then show ?thesis by (auto simp: history_total_def total_add_event)
qed

section \<open>Values\<close>

text \<open>The events of a history in order of time.\<close>

lemma history_sorted:
  assumes "history_ok cur h"
  shows "sorted_wrt (\<lambda>a b. etime (fst a) \<le> etime (fst b)) (events_of h)"
proof -
  have "in_order (core_cmp prio_time_class) (contents (historyList h))"
    using assms by (simp add: history_ok_def tlist_ok_def)
  then show ?thesis
    unfolding in_order_def events_of_def
    by (rule sorted_wrt_mono_rel [rotated])
      (auto simp: core_cmp_def prio_time_class_def prio_time_compare_to_def split: if_splits)
qed

lemma filter_prefix:
  assumes "sorted_wrt (\<lambda>a b. f a \<le> f b) xs" and "\<And>a b. f a \<le> f b \<Longrightarrow> P (f b) \<Longrightarrow> P (f a)"
  shows "\<exists>ys. xs = filter (\<lambda>e. P (f e)) xs @ ys"
  using assms(1)
proof (induction xs)
  case (Cons x xs)
  show ?case
  proof (cases "P (f x)")
    case True
    with Cons show ?thesis by auto
  next
    case False
    have "filter (\<lambda>e. P (f e)) xs = []"
      using Cons.prems False assms(2) by (auto simp: filter_empty_conv)
    with False show ?thesis by simp
  qed
qed simp

lemma None_last_opt [simp]: "None = last_opt xs \<longleftrightarrow> xs = []"
  by (simp_all add: last_opt_eq)

lemma last_opt_Some: "last_opt xs = Some x \<Longrightarrow> \<exists>ys. xs = ys @ [x]"
  by (cases xs rule: rev_cases) (auto simp: last_opt_eq)

text \<open>The consumption at the node that is found, and the sum of the increments before it.\<close>

lemma consumption_at_last:
  assumes ok: "history_ok cur h"
    and found: "map_option core found = last_opt (filter (\<lambda>e. P (etime (fst e))) (events_of h))"
    and down: "\<And>a b. a \<le> b \<Longrightarrow> P b \<Longrightarrow> P a"
  shows "(case found of None \<Rightarrow> filter (\<lambda>e. P (etime (fst e))) (events_of h) = []
      | Some node \<Rightarrow> filter (\<lambda>e. P (etime (fst e))) (events_of h) \<noteq> []
          \<and> get_int_consumption (ident node) (tree (historyList h)) = Some (history_total P h))"
proof (cases found)
  case None
  with found have "last_opt (filter (\<lambda>e. P (etime (fst e))) (events_of h)) = None" by simp
  with None show ?thesis by simp
next
  case (Some node)
  with found have "last_opt (filter (\<lambda>e. P (etime (fst e))) (events_of h)) = Some (core node)" by simp
  from last_opt_Some [OF this] obtain ys where
    ys: "filter (\<lambda>e. P (etime (fst e))) (events_of h) = ys @ [core node]" by blast
  from filter_prefix [where f = "\<lambda>e. etime (fst e)" and P = P, OF history_sorted [OF ok]] down
  obtain zs where "events_of h = filter (\<lambda>e. P (etime (fst e))) (events_of h) @ zs" by blast
  then have "events_of h = ys @ core node # zs" unfolding ys by simp
  then have "map core (inorder (tree (historyList h))) = ys @ (Key node, ident node, myCount node) # zs"
    by (simp add: events_of_def contents_def core_def)
  moreover have "cons_ok (tree (historyList h))" "distinct (map ident (inorder (tree (historyList h))))"
    using ok by (simp_all add: history_ok_def tlist_ok_def contents_def o_def)
  ultimately have "get_int_consumption (ident node) (tree (historyList h)) =
      Some (sum_list (map core_count ys) + myCount node)"
    by (intro get_int_consumption_sum)
  with Some show ?thesis by (simp add: history_total_def ys core_def)
qed

text \<open>Which events count at a time.\<close>

fun counts_at :: "strategy \<Rightarrow> int \<Rightarrow> int \<Rightarrow> bool" where
  "counts_at NORMAL t s = (s \<le> t)"
| "counts_at BEFORE t s = (s < t)"

definition found_node :: "strategy \<Rightarrow> int \<Rightarrow> int \<Rightarrow> res_history \<Rightarrow> prio_time lnode option" where
  "found_node strategy t cur h =
     (case strategy of NORMAL \<Rightarrow> latestHistNodeAtOrBefore t cur h | BEFORE \<Rightarrow> latestHistNodeBefore t h)"

lemma found_node_ok:
  assumes ok: "history_ok cur h" and cur: "0 \<le> cur"
  shows "map_option core (found_node strategy t cur h) =
    last_opt (filter (\<lambda>e. counts_at strategy t (etime (fst e))) (events_of h))"
proof -
  have T: "tlist_ok prio_time_class (historyList h)" using ok by (simp add: history_ok_def)
  have ids: "0 \<le> event_id (fst e) \<and> event_id (fst e) \<le> cur" if "e \<in> set (events_of h)" for e
    using ok that by (auto simp: history_ok_def events_of_def)
  have after: "filter (\<lambda>e. 0 \<le> compare_to prio_time_class (prio_key t (cur + 1)) (fst e) False) (events_of h)
    = filter (\<lambda>e. counts_at NORMAL t (etime (fst e))) (events_of h)"
    by (rule filter_cong)
      (use ids in \<open>force simp: prio_time_class_def prio_time_compare_to_def prio_key_def\<close>)+
  have before: "filter (\<lambda>e. 0 < compare_to prio_time_class (prio_key t 0) (fst e) False) (events_of h)
    = filter (\<lambda>e. counts_at BEFORE t (etime (fst e))) (events_of h)"
    by (rule filter_cong)
      (use ids in \<open>force simp: prio_time_class_def prio_time_compare_to_def prio_key_def\<close>)+
  note s = prio.tlist_searches_ok [OF T, folded events_of_def]
  show ?thesis
    using s(1) [of "prio_key t (cur + 1)"] s(2) [of "prio_key t 0"] after before
    by (cases strategy)
      (simp_all add: found_node_def latestHistNodeAtOrBefore_def latestHistNodeBefore_def)
qed

lemma counts_at_down: "a \<le> b \<Longrightarrow> counts_at strategy t b \<Longrightarrow> counts_at strategy t a"
  by (cases strategy) auto

lemma numeric_value_ok:
  assumes ok: "history_ok cur h" and cur: "0 \<le> cur" and profile: "profile t = Inr v"
  shows "numeric_value profile strategy t cur h =
    (if filter (\<lambda>e. counts_at strategy t (etime (fst e))) (events_of h) = [] then Inr v
     else subtract_node_value v (history_total (counts_at strategy t) h))"
proof -
  have "case found_node strategy t cur h of
      None \<Rightarrow> filter (\<lambda>e. counts_at strategy t (etime (fst e))) (events_of h) = []
    | Some node \<Rightarrow> filter (\<lambda>e. counts_at strategy t (etime (fst e))) (events_of h) \<noteq> []
        \<and> get_int_consumption (ident node) (tree (historyList h)) =
            Some (history_total (counts_at strategy t) h)"
    by (rule consumption_at_last [OF ok found_node_ok [OF ok cur]]) (rule counts_at_down)
  then show ?thesis
    unfolding numeric_value_def found_node_def [symmetric] value_from_def profile
    by (cases "found_node strategy t cur h") (simp_all add: naming_resource_def)
qed

lemma subtract_nothing: "subtract_node_value v 0 = Inr v"
  by (cases v) (auto simp: time_sub_def is_duration_def TIME_BIT_def Let_def)

theorem numeric_value_total:
  assumes "history_ok cur h" and "0 \<le> cur" and "profile t = Inr v"
  shows "numeric_value profile strategy t cur h =
    subtract_node_value v (history_total (counts_at strategy t) h)"
  using numeric_value_ok [where profile = profile, OF assms, of strategy]
  by (auto simp: history_total_def subtract_nothing)

section \<open>Sequences of usages\<close>

datatype consumable_usage =
  Use true_long int int
| UseImmediately true_long int

fun consumable_step :: "int \<Rightarrow> res_history \<Rightarrow> consumable_usage \<Rightarrow> (int \<times> res_history) result" where
  "consumable_step cur h (Use a s p) = consumable_use a s p False s cur h"
| "consumable_step cur h (UseImmediately a now) = consumable_use a now 0 True now cur h"

fun consumable_steps :: "consumable_usage list \<Rightarrow> int \<Rightarrow> res_history \<Rightarrow> (int \<times> res_history) result" where
  "consumable_steps [] cur h = Inr (cur, h)"
| "consumable_steps (u # us) cur h =
     bind_result (consumable_step cur h u) (\<lambda>(cur', h'). consumable_steps us cur' h')"

fun consumed :: "(int \<Rightarrow> bool) \<Rightarrow> consumable_usage \<Rightarrow> true_long" where
  "consumed P (Use a s p) = (if P s then a else 0)"
| "consumed P (UseImmediately a now) = (if P now then a else 0)"

fun usage_known :: "int \<Rightarrow> consumable_usage \<Rightarrow> bool" where
  "usage_known cur (Use a s p) = (0 \<le> p \<and> p \<le> cur)"
| "usage_known cur (UseImmediately a now) = True"

lemma history_ok_mono: "history_ok cur h \<Longrightarrow> cur \<le> cur' \<Longrightarrow> history_ok cur' h"
  unfolding history_ok_def by force

lemma usage_known_mono: "usage_known cur u \<Longrightarrow> cur \<le> cur' \<Longrightarrow> usage_known cur' u"
  by (cases u) auto

lemma consumable_step_ok:
  assumes ok: "history_ok cur h" "0 \<le> cur" "\<not> Frozen h" and u: "usage_known cur u"
  shows "\<exists>cur' h'. consumable_step cur h u = Inr (cur', h') \<and> cur \<le> cur' \<and> history_ok cur' h'
           \<and> \<not> Frozen h' \<and> history_total P h' = history_total P h + consumed P u"
proof (cases u)
  case (Use a s p)
  with u history_Add_total [OF ok(1,3), of p s a P] show ?thesis
    by (auto simp: consumable_use_def consumable_append_def)
next
  case (UseImmediately a now)
  have "history_ok (cur + 1) h" using history_ok_mono [OF ok(1)] by simp
  from history_Add_total [OF this ok(3), of "cur + 1" now a P] ok(2) UseImmediately show ?thesis
    by (auto simp: consumable_use_def consumable_append_def consumable_immediately_append_def)
qed

lemma consumable_steps_ok:
  "history_ok cur h \<Longrightarrow> 0 \<le> cur \<Longrightarrow> \<not> Frozen h \<Longrightarrow> \<forall>u\<in>set us. usage_known cur u \<Longrightarrow>
     \<exists>cur' h'. consumable_steps us cur h = Inr (cur', h') \<and> cur \<le> cur' \<and> history_ok cur' h'
       \<and> \<not> Frozen h' \<and> history_total P h' = history_total P h + sum_list (map (consumed P) us)"
proof (induction us arbitrary: cur h)
  case (Cons u us)
  from consumable_step_ok [of cur h u P] Cons.prems obtain cur1 h1 where
    1: "consumable_step cur h u = Inr (cur1, h1)" "cur \<le> cur1" "history_ok cur1 h1" "\<not> Frozen h1"
    "history_total P h1 = history_total P h + consumed P u" by auto
  have "\<forall>u\<in>set us. usage_known cur1 u" using Cons.prems(4) 1(2) usage_known_mono by auto
  with Cons.IH [OF 1(3) _ 1(4)] 1(2) Cons.prems(2) obtain cur2 h2 where
    "consumable_steps us cur1 h1 = Inr (cur2, h2)" "cur1 \<le> cur2" "history_ok cur2 h2" "\<not> Frozen h2"
    "history_total P h2 = history_total P h1 + sum_list (map (consumed P) us)" by auto
  with 1 show ?case by (auto simp: add.assoc)
qed auto

text \<open>Nonconsumable resources: an amount, the start, the end and the identification of the
  event.\<close>

type_synonym usage = "true_long \<times> int \<times> int \<times> int"

fun nonconsumable_uses :: "usage list \<Rightarrow> res_history \<Rightarrow> res_history result" where
  "nonconsumable_uses [] h = Inr h"
| "nonconsumable_uses ((a, s, e, p) # us) h =
     bind_result (nonconsumable_use a s e p False h) (nonconsumable_uses us)"

text \<open>The usages that hold an amount at a time.\<close>

fun in_use :: "strategy \<Rightarrow> int \<Rightarrow> usage \<Rightarrow> bool" where
  "in_use strategy t (a, s, e, p) = (counts_at strategy t s \<and> \<not> counts_at strategy t e)"

fun proper_use :: "int \<Rightarrow> usage \<Rightarrow> bool" where
  "proper_use cur (a, s, e, p) = (0 \<le> p \<and> p + 1 \<le> cur \<and> s \<le> e \<and> TIME_BIT < e)"

lemma nonconsumable_use_ok:
  assumes ok: "history_ok cur h" "\<not> Frozen h" and u: "proper_use cur (a, s, e, p)"
  shows "\<exists>h'. nonconsumable_use a s e p False h = Inr h' \<and> history_ok cur h' \<and> \<not> Frozen h'
           \<and> history_total (counts_at strategy t) h' = history_total (counts_at strategy t) h
               + (if in_use strategy t (a, s, e, p) then a else 0)"
proof -
  let ?P = "counts_at strategy t"
  from history_Add_total [OF ok, of p s a ?P] u obtain h1 where
    1: "history_Add s a p h = Inr h1" "history_ok cur h1" "\<not> Frozen h1"
    "history_total ?P h1 = history_total ?P h + (if ?P s then a else 0)" by auto
  from history_Add_total [OF 1(2,3), of "p + 1" e "- a" ?P] u obtain h2 where
    2: "history_Add e (- a) (p + 1) h1 = Inr h2" "history_ok cur h2" "\<not> Frozen h2"
    "history_total ?P h2 = history_total ?P h1 + (if ?P e then - a else 0)" by auto
  have "?P e \<Longrightarrow> ?P s" using u by (intro counts_at_down [of s e]) auto
  with 1 2 u show ?thesis by (auto simp: nonconsumable_use_def nonconsumable_append_def)
qed

lemma nonconsumable_uses_ok:
  "history_ok cur h \<Longrightarrow> \<not> Frozen h \<Longrightarrow> \<forall>u\<in>set us. proper_use cur u \<Longrightarrow>
     \<exists>h'. nonconsumable_uses us h = Inr h' \<and> history_ok cur h' \<and> \<not> Frozen h'
       \<and> history_total (counts_at strategy t) h' = history_total (counts_at strategy t) h
           + sum_list (map fst (filter (in_use strategy t) us))"
proof (induction us arbitrary: h)
  case (Cons u us)
  obtain a s e p where u: "u = (a, s, e, p)" by (cases u)
  with nonconsumable_use_ok [of cur h a s e p strategy t] Cons.prems obtain h1 where
    1: "nonconsumable_use a s e p False h = Inr h1" "history_ok cur h1" "\<not> Frozen h1"
    "history_total (counts_at strategy t) h1 = history_total (counts_at strategy t) h
       + (if in_use strategy t u then a else 0)" by auto
  from Cons.IH [OF 1(2,3)] Cons.prems(3) obtain h2 where
    "nonconsumable_uses us h1 = Inr h2" "history_ok cur h2" "\<not> Frozen h2"
    "history_total (counts_at strategy t) h2 = history_total (counts_at strategy t) h1
       + sum_list (map fst (filter (in_use strategy t) us))" by auto
  with 1 show ?case by (auto simp: u add.assoc simp del: in_use.simps)
qed auto

text \<open>The history at the start of a modelling pass.\<close>

lemma initialize_value_ok:
  assumes h: "\<not> Frozen h" "\<not> Imported h" "synchronize_orders (historyList h)"
    and p: "0 \<le> p" "p \<le> cur"
  shows "\<exists>h'. initialize_value False T p h = Inr h' \<and> history_ok cur h' \<and> \<not> Frozen h'
           \<and> history_total P h' = 0"
proof -
  have "history_ok cur (history_clear h)"
    using h by (simp add: history_ok_def history_clear_def tlist_clear_def tlist_ok_def contents_def
        in_order_def)
  moreover have "\<not> Frozen (history_clear h)" "history_total P (history_clear h) = 0"
    using h by (simp_all add: history_clear_def history_total_def events_of_def tlist_clear_def
        contents_def)
  ultimately show ?thesis
    using history_Add_total [of cur "history_clear h" p T 0 P] h p
    by (auto simp: initialize_value_def)
qed

section \<open>Properties\<close>

text \<open>C18: A consumable resource: after the initialisation of a modelling pass and any sequence of
  usages, immediate or at the times of their events and stored in any order of time, the
  value at a time is the value of the profile less the amounts used up to that time, in the
  arithmetic of the machine; the strategy BEFORE leaves out what is used at that time.\<close>

theorem consumable_value_correct:
  assumes "\<not> Frozen h" and "\<not> Imported h" and "synchronize_orders (historyList h)"
    and "0 \<le> source_id" and "source_id \<le> cur" and "\<forall>u\<in>set us. usage_known cur u"
    and "profile t = Inr v"
  shows "\<exists>h0 cur' h'. initialize_value False source_time source_id h = Inr h0
           \<and> consumable_steps us cur h0 = Inr (cur', h') \<and> cur \<le> cur'
           \<and> numeric_value profile strategy t cur' h' =
               subtract_node_value v (sum_list (map (consumed (counts_at strategy t)) us))"
proof -
  let ?P = "counts_at strategy t"
  from initialize_value_ok [OF assms(1-5), of source_time ?P] obtain h0 where
    0: "initialize_value False source_time source_id h = Inr h0" "history_ok cur h0" "\<not> Frozen h0"
    "history_total ?P h0 = 0" by blast
  have "0 \<le> cur" using assms(4,5) by simp
  from consumable_steps_ok [OF 0(2) this 0(3) assms(6), of ?P] obtain cur' h' where
    1: "consumable_steps us cur h0 = Inr (cur', h')" "cur \<le> cur'" "history_ok cur' h'"
    "history_total ?P h' = sum_list (map (consumed ?P) us)" by (auto simp: 0(4))
  moreover have "0 \<le> cur'" using \<open>0 \<le> cur\<close> 1(2) by simp
  ultimately show ?thesis
    using 0(1) numeric_value_total [where profile = profile, OF 1(3) _ assms(7)] by auto
qed

definition new_history :: res_history where
  "new_history = \<lparr>historyList = empty_history, Frozen = False, Imported = False, version = 0,
     next_node_address = 0\<rparr>"

lemma new_history_sel [simp]:
  "\<not> Frozen new_history" "\<not> Imported new_history" "synchronize_orders (historyList new_history)"
  by (simp_all add: new_history_def empty_history_def)

lemma consumable_value_witness:
  "\<exists>h0 cur' h'. initialize_value False 10 1 new_history = Inr h0
     \<and> consumable_steps [Use 5 30 2, Use 7 20 3, UseImmediately (- 1) 20] 3 h0 = Inr (cur', h')
     \<and> numeric_value (\<lambda>t. Inr (INTEGER 100)) NORMAL 20 cur' h' = Inr (INTEGER (100 - 6))"
  using consumable_value_correct [of new_history 1 3
      "[Use 5 30 2, Use 7 20 3, UseImmediately (- 1) 20]" "\<lambda>t. Inr (INTEGER 100)" 20 "INTEGER 100" 10 NORMAL]
  by auto

text \<open>C19: A nonconsumable resource: after the initialisation of a modelling pass and any sequence
  of usages, overlapping or not and stored in any order of time, the value at a time is the
  value of the profile less the amounts of the usages that have started and not ended.\<close>

theorem nonconsumable_value_correct:
  assumes "\<not> Frozen h" and "\<not> Imported h" and "synchronize_orders (historyList h)"
    and "0 \<le> source_id" and "source_id \<le> cur" and "\<forall>u\<in>set us. proper_use cur u"
    and "profile t = Inr v"
  shows "\<exists>h0 h'. initialize_value False source_time source_id h = Inr h0
           \<and> nonconsumable_uses us h0 = Inr h'
           \<and> numeric_value profile strategy t cur h' =
               subtract_node_value v (sum_list (map fst (filter (in_use strategy t) us)))"
proof -
  let ?P = "counts_at strategy t"
  from initialize_value_ok [OF assms(1-5), of source_time ?P] obtain h0 where
    0: "initialize_value False source_time source_id h = Inr h0" "history_ok cur h0" "\<not> Frozen h0"
    "history_total ?P h0 = 0" by blast
  from nonconsumable_uses_ok [OF 0(2,3) assms(6), of strategy t] obtain h' where
    1: "nonconsumable_uses us h0 = Inr h'" "history_ok cur h'"
    "history_total ?P h' = sum_list (map fst (filter (in_use strategy t) us))" by (auto simp: 0(4))
  moreover have "0 \<le> cur" using assms(4,5) by simp
  ultimately show ?thesis
    using 0(1) numeric_value_total [where profile = profile, OF 1(2) _ assms(7)] by auto
qed

lemma nonconsumable_value_witness:
  "\<exists>h0 h'. initialize_value False (TIME_BIT + 10) 1 new_history = Inr h0
     \<and> nonconsumable_uses [(5, TIME_BIT + 20, TIME_BIT + 40, 2), (3, TIME_BIT + 10, TIME_BIT + 30, 4)] h0 = Inr h'
     \<and> numeric_value (\<lambda>t. Inr (INTEGER 100)) BEFORE (TIME_BIT + 30) 5 h' = Inr (INTEGER (100 - 8))"
proof -
  have "\<forall>u\<in>set [(5, TIME_BIT + 20, TIME_BIT + 40, 2), (3, TIME_BIT + 10, TIME_BIT + 30, 4)]. proper_use 5 u"
    by simp
  from nonconsumable_value_correct [where profile = "\<lambda>t. Inr (INTEGER 100)" and h = new_history
      and source_id = 1 and strategy = BEFORE and t = "TIME_BIT + 30" and v = "INTEGER 100"
      and source_time = "TIME_BIT + 10", OF _ _ _ _ _ this]
  show ?thesis by auto
qed

end
