(* ===== verification/StateRes.thy ===== *)
theory StateRes
  imports ResHistory
begin

text \<open>
  State resources: \<open>RES_state\<close> of \<open>src/src/apcore/resources/ResourceValue.C\<close> and
  \<open>ResourceUsage.C\<close>, with \<open>st_value_node\<close> of \<open>ValueNode.H\<close>. The history is one of \<open>ResHistory\<close>,
  whose nodes count nothing; each node has a payload: a value, a type, the depth of the usages
  that are pending after it, and the other end of its usage. A value is that of the latest
  usage that has started and not ended, else of the last SET, else the profile.
\<close>

section \<open>Nodes and their payloads\<close>

datatype RES_VAL_TYPE = DON_T_CARE | START_USING | END_USING | SET | RESET

datatype USAGE_TYPE = USAGE_RESET | USAGE_SET | USAGE_USE

record 'v st_value_node =
  val :: 'v
  res_val_type :: RES_VAL_TYPE
  usage_depth :: int
  an_Other :: "nat option"

record 'v res_state =
  resHistory :: res_history
  payload :: "nat \<Rightarrow> 'v st_value_node option"

text \<open>The nodes in the order of their \<open>next\<close> pointers; those that a loop over \<open>previous_node()\<close>
  visits from a node on, the node included, and those that a loop over \<open>next_node()\<close> visits.\<close>

definition chain_nodes :: "res_history \<Rightarrow> prio_time lnode list" where
  "chain_nodes h =
     List.map_filter (\<lambda>n. List.find (\<lambda>a. ident a = n) (inorder (tree (historyList h))))
       (chain (historyList h))"

definition backward :: "nat \<Rightarrow> res_history \<Rightarrow> prio_time lnode list" where
  "backward n h =
     (case dropWhile (\<lambda>a. ident a \<noteq> n) (chain_nodes h) of
        [] \<Rightarrow> []
      | a # _ \<Rightarrow> a # rev (takeWhile (\<lambda>a. ident a \<noteq> n) (chain_nodes h)))"

definition forward :: "nat \<Rightarrow> res_history \<Rightarrow> prio_time lnode list" where
  "forward n h = dropWhile (\<lambda>a. ident a \<noteq> n) (chain_nodes h)"

text \<open>A loop over \<open>following_node()\<close>, which goes by the tree, up to the node \<open>stop\<close>.\<close>

fun following_until :: "nat \<Rightarrow> nat \<Rightarrow> prio_time lnode option \<Rightarrow> prio_time lnode btree \<Rightarrow> nat list" where
  "following_until stop 0 vn root = []"
| "following_until stop (Suc fuel) None root = []"
| "following_until stop (Suc fuel) (Some a) root =
     (if ident a = stop then []
      else ident a # following_until stop fuel (following_node prio_time_class a root) root)"

section \<open>The search from an iterator\<close>

text \<open>The position of the iterator of a \<open>Miterator\<close>: \<open>iterNode\<close> and \<open>getPrev()\<close>, NULL as None.\<close>

record hist_iter =
  iterNode :: "nat option"
  getPrev :: "nat option"

fun walk_forward :: "int \<Rightarrow> prio_time lnode \<Rightarrow> prio_time lnode list \<Rightarrow> prio_time lnode" where
  "walk_forward t N [] = N"
| "walk_forward t N (M # Ms) = (if etime (Key M) \<le> t then walk_forward t M Ms else N)"

text \<open>The loop stops at the first node of the list, even if it is late.\<close>

fun walk_backward :: "int \<Rightarrow> prio_time lnode \<Rightarrow> prio_time lnode list \<Rightarrow> prio_time lnode" where
  "walk_backward t N [] = N"
| "walk_backward t N (M # Ms) = (if etime (Key M) > t then walk_backward t M Ms else M)"

text \<open>\<open>latestHistNodeAtOrBeforeModelTime\<close>, in the modelling thread and in a trailing thread.\<close>

definition latestHistNodeAtOrBeforeModelTime ::
  "bool \<Rightarrow> int \<Rightarrow> int \<Rightarrow> hist_iter option \<Rightarrow> res_history \<Rightarrow> prio_time lnode option result" where
  "latestHistNodeAtOrBeforeModelTime model_thread event_time currentEventID iter_at_model_time h =
     (case iter_at_model_time of
        None \<Rightarrow> Inl (EvalError ''Resource '')
      | Some iter \<Rightarrow>
        (case getPrev iter of
           None \<Rightarrow> Inr (latestHistNodeAtOrBefore event_time currentEventID h)
         | Some safe \<Rightarrow>
           (if model_thread then
              (case (case iterNode iter of None \<Rightarrow> last_opt (chain (historyList h)) | Some n \<Rightarrow> Some n) of
                 None \<Rightarrow> Inl AssertFailed
               | Some n \<Rightarrow>
                 (case forward n h of
                    [] \<Rightarrow> Inl NullAccess
                  | N # later \<Rightarrow>
                    (if etime (Key N) \<le> event_time
                     then Inr (Some (walk_forward event_time N later))
                     else Inr (Some (walk_backward event_time N (tl (backward n h)))))))
            else
              (case forward safe h of
                 [] \<Rightarrow> Inl NullAccess
               | N # later \<Rightarrow> Inr (Some (walk_forward event_time N later))))))"

section \<open>Usages\<close>

text \<open>\<open>Add(stateFactory(...))\<close>: the address of the new node, and the state.\<close>

definition state_Add ::
  "int \<Rightarrow> int \<Rightarrow> 'v st_value_node \<Rightarrow> 'v res_state \<Rightarrow> (nat \<times> 'v res_state) result" where
  "state_Add t modelOrder p s =
     (let n = next_node_address (resHistory s) in
      map_ok (\<lambda>h. (n, s\<lparr>resHistory := h, payload := (payload s)(n \<mapsto> p)\<rparr>))
        (history_Add t 0 modelOrder (resHistory s)))"

definition put_payload ::
  "('v st_value_node \<Rightarrow> 'v st_value_node) \<Rightarrow> nat \<Rightarrow> 'v res_state \<Rightarrow> 'v res_state" where
  "put_payload f n s = s\<lparr>payload := (payload s)(n := map_option f (payload s n))\<rparr>"

definition depth_at :: "'v res_state \<Rightarrow> prio_time lnode \<Rightarrow> int result" where
  "depth_at s a = (case payload s (ident a) of None \<Rightarrow> Inl NullAccess | Some p \<Rightarrow> Inr (usage_depth p))"

definition increment_depth :: "'v st_value_node \<Rightarrow> 'v st_value_node" where
  "increment_depth p = p\<lparr>usage_depth := usage_depth p + 1\<rparr>"

text \<open>The three branches of \<open>append_to_history\<close>, behind the search of \<open>closest_node\<close>. The value of
  an END node is never set: \<open>no_value\<close>.\<close>

definition append_use ::
  "'v \<Rightarrow> 'v \<Rightarrow> int \<Rightarrow> int \<Rightarrow> int \<Rightarrow> int \<Rightarrow> int \<Rightarrow> 'v res_state \<Rightarrow> 'v res_state result" where
  "append_use no_value new_value start_event_time end_event_time start_event_id end_event_id
     depth_at_first s =
     bind_result
       (state_Add start_event_time start_event_id
          \<lparr>val = new_value, res_val_type = START_USING, usage_depth = depth_at_first, an_Other = None\<rparr> s)
       (\<lambda>(vn, s1).
          let closest_node = latestHistNodeBefore end_event_time (resHistory s1) in
          bind_result
            (case closest_node of
               None \<Rightarrow> Inr depth_at_first
             | Some a \<Rightarrow> if ident a \<noteq> vn then depth_at s1 a else Inr depth_at_first)
            (\<lambda>depth_at_end.
               let end_use = next_node_address (resHistory s1);
                   s2 = put_payload (\<lambda>p. p\<lparr>an_Other := Some end_use\<rparr>) vn s1 in
               bind_result
                 (state_Add end_event_time end_event_id
                    \<lparr>val = no_value, res_val_type = END_USING, usage_depth = depth_at_end,
                     an_Other = Some vn\<rparr> s2)
                 (\<lambda>(_, s3).
                    let T = historyList (resHistory s3);
                        passed = following_until end_use (length (chain T) + 1)
                          (List.find (\<lambda>a. ident a = vn) (inorder (tree T))) (tree T) in
                    Inr (fold (put_payload increment_depth) passed s3))))"

definition append_set ::
  "bool \<Rightarrow> 'v \<Rightarrow> int \<Rightarrow> int \<Rightarrow> int \<Rightarrow> prio_time lnode option \<Rightarrow> 'v res_state \<Rightarrow> 'v res_state result" where
  "append_set has_nofiltering new_value start_event_time start_event_id depth_at_first closest_node s =
     bind_result
       (case closest_node of
          None \<Rightarrow> Inr False
        | Some a \<Rightarrow>
          (case payload s (ident a) of
             None \<Rightarrow> Inl NullAccess
           | Some p \<Rightarrow> Inr (\<not> has_nofiltering \<and> res_val_type p = SET \<and> val p = new_value)))
       (\<lambda>skip.
          if skip then Inr s
          else map_ok snd
            (state_Add start_event_time start_event_id
               \<lparr>val = new_value, res_val_type = SET, usage_depth = depth_at_first, an_Other = None\<rparr> s))"

definition append_reset ::
  "'v \<Rightarrow> int \<Rightarrow> int \<Rightarrow> int \<Rightarrow> 'v res_state \<Rightarrow> 'v res_state result" where
  "append_reset new_value start_event_time start_event_id depth_at_first s =
     map_ok snd
       (state_Add start_event_time start_event_id
          \<lparr>val = new_value, res_val_type = RESET, usage_depth = depth_at_first, an_Other = None\<rparr> s)"

text \<open>Where a usage is made from: the global time, the time of the thread, the thread and the data
  of the iterator that the resource is evaluated with, if there are any.\<close>

record eval_context =
  get_now :: int
  thread_time :: int
  in_model_thread :: bool
  last_event_id :: int
  res_miter_data :: "hist_iter option option"
  the_strategy :: strategy

definition find_closest :: "eval_context \<Rightarrow> int \<Rightarrow> res_history \<Rightarrow> prio_time lnode option result" where
  "find_closest c start_event_time h =
     (case res_miter_data c of
        Some iter \<Rightarrow>
          (if start_event_time = thread_time c then
             (if get_now c = start_event_time
              then latestHistNodeAtOrBeforeModelTime (in_model_thread c) start_event_time
                     (last_event_id c) iter h
              else Inl AssertFailed)
           else Inr (latestHistNodeBefore (get_now c) h))
      | None \<Rightarrow> Inr (latestHistNodeBefore (get_now c) h))"

definition state_append ::
  "'v \<Rightarrow> bool \<Rightarrow> eval_context \<Rightarrow> 'v \<Rightarrow> int \<Rightarrow> int \<Rightarrow> int \<Rightarrow> int \<Rightarrow> USAGE_TYPE \<Rightarrow> 'v res_state \<Rightarrow>
     'v res_state result" where
  "state_append no_value has_nofiltering c new_value start_event_time end_event_time
     start_event_id end_event_id uType s =
     bind_result (find_closest c start_event_time (resHistory s)) (\<lambda>closest_node.
       bind_result (case closest_node of None \<Rightarrow> Inr 0 | Some a \<Rightarrow> depth_at s a) (\<lambda>depth_at_first.
         case uType of
           USAGE_USE \<Rightarrow> append_use no_value new_value start_event_time end_event_time
                          start_event_id end_event_id depth_at_first s
         | USAGE_SET \<Rightarrow> append_set has_nofiltering new_value start_event_time start_event_id
                          depth_at_first closest_node s
         | USAGE_RESET \<Rightarrow> append_reset new_value start_event_time start_event_id depth_at_first s))"

definition state_immediately_append ::
  "'v \<Rightarrow> bool \<Rightarrow> eval_context \<Rightarrow> 'v \<Rightarrow> USAGE_TYPE \<Rightarrow> 'v res_state \<Rightarrow> (int \<times> 'v res_state) result" where
  "state_immediately_append no_value has_nofiltering c new_value uType s =
     (if uType = USAGE_USE then Inl (EvalError ''State resource '')
      else map_ok (Pair (last_event_id c + 1))
        (state_append no_value has_nofiltering (c\<lparr>last_event_id := last_event_id c + 1\<rparr>) new_value
           (get_now c) TIME_BIT (last_event_id c + 1) 0 uType s))"

text \<open>The usage clauses. \<open>rangemap\<close> holds the possible states; a RESET stores the profile.\<close>

definition state_execute_set ::
  "'v \<Rightarrow> bool \<Rightarrow> ('v \<Rightarrow> bool) \<Rightarrow> eval_context \<Rightarrow> 'v \<Rightarrow> int \<Rightarrow> int \<Rightarrow> bool \<Rightarrow> 'v res_state \<Rightarrow>
     (int \<times> 'v res_state) result" where
  "state_execute_set no_value has_nofiltering rangemap c evaluated_value E_etime E_id immed s =
     (if \<not> rangemap evaluated_value then Inl (EvalError ''Resource '')
      else if immed then state_immediately_append no_value has_nofiltering c evaluated_value USAGE_SET s
      else map_ok (Pair (last_event_id c))
        (state_append no_value has_nofiltering c evaluated_value E_etime E_etime E_id 0 USAGE_SET s))"

definition state_execute_reset ::
  "'v \<Rightarrow> bool \<Rightarrow> (int \<Rightarrow> 'v result) \<Rightarrow> eval_context \<Rightarrow> int \<Rightarrow> int \<Rightarrow> bool \<Rightarrow> 'v res_state \<Rightarrow>
     (int \<times> 'v res_state) result" where
  "state_execute_reset no_value has_nofiltering profile c E_etime E_id immed s =
     (case profile (get_now c) of
        Inl (EvalError m) \<Rightarrow> Inl (EvalError ''; this error occurred while executing reset clause '')
      | Inl e \<Rightarrow> Inl e
      | Inr evaluated_value \<Rightarrow>
          (if immed then state_immediately_append no_value has_nofiltering c evaluated_value USAGE_RESET s
           else map_ok (Pair (last_event_id c))
             (state_append no_value has_nofiltering c evaluated_value E_etime E_etime E_id 0 USAGE_RESET s)))"

definition state_execute_use ::
  "'v \<Rightarrow> bool \<Rightarrow> ('v \<Rightarrow> bool) \<Rightarrow> eval_context \<Rightarrow> 'v \<Rightarrow> int \<Rightarrow> int \<Rightarrow> int \<Rightarrow> bool \<Rightarrow> 'v res_state \<Rightarrow>
     'v res_state result" where
  "state_execute_use no_value has_nofiltering rangemap c v E_etime to_time E_id immed s =
     (if immed then Inl (EvalError ''state resource cannot be used immediately'')
      else if \<not> rangemap v then Inl (EvalError ''Resource '')
      else state_append no_value has_nofiltering c v E_etime to_time E_id (E_id + 1) USAGE_USE s)"

text \<open>\<open>initialize_value\<close> at the start of a pass.\<close>

definition state_initialize ::
  "bool \<Rightarrow> (int \<Rightarrow> 'v result) \<Rightarrow> int \<Rightarrow> int \<Rightarrow> int \<Rightarrow> 'v res_state \<Rightarrow> 'v res_state result" where
  "state_initialize second_scheduling_pass profile time_now source_time source_id s =
     (let h = resHistory s in
      if Frozen h then Inl (EvalError ''initialize_value: Resource '')
      else if Imported h then Inr (s\<lparr>resHistory := h\<lparr>Imported := False\<rparr>\<rparr>)
      else case profile time_now of
        Inl (EvalError m) \<Rightarrow> Inl (EvalError ''RES_state::initialize_value ERROR:'')
      | Inl e \<Rightarrow> Inl e
      | Inr v \<Rightarrow>
          map_ok snd
            (state_Add source_time source_id
               \<lparr>val = v, res_val_type = RESET, usage_depth = 0, an_Other = None\<rparr>
               (if second_scheduling_pass then s else s\<lparr>resHistory := history_clear h\<rparr>)))"

section \<open>Values\<close>

text \<open>Step 2: the node before the time, if there is one.\<close>

fun back_off :: "int \<Rightarrow> prio_time lnode \<Rightarrow> prio_time lnode list \<Rightarrow> prio_time lnode" where
  "back_off t a [] = a"
| "back_off t a (b # bs) = (if etime (Key b) < t then b else back_off t b bs)"

text \<open>Step 6: the loop over the earlier nodes. The result is \<open>found\<close> and \<open>last_set\<close>.\<close>

fun scan_usages ::
  "(nat \<Rightarrow> 'v st_value_node option) \<Rightarrow> nat list \<Rightarrow> nat list \<Rightarrow> 'v st_value_node option \<Rightarrow>
     ('v st_value_node option \<times> 'v st_value_node option) result" where
  "scan_usages pay [] old_usages last_set = Inr (None, last_set)"
| "scan_usages pay (n # ns) old_usages last_set =
     (case pay n of
        None \<Rightarrow> Inl NullAccess
      | Some found \<Rightarrow>
        (if res_val_type found = END_USING then
           (case an_Other found of
              None \<Rightarrow> Inl (EvalError ''st_value_node error'')
            | Some start \<Rightarrow>
              (if start \<in> set old_usages
               then Inl (EvalError ''->evaluate_present_value: end node at '')
               else scan_usages pay ns (start # old_usages) last_set))
         else if res_val_type found = START_USING \<and> n \<notin> set old_usages then Inr (Some found, last_set)
         else if last_set = None \<and> (res_val_type found = SET \<or> res_val_type found = RESET) then
           (if usage_depth found = 0 then Inr (Some found, Some found)
            else scan_usages pay ns old_usages (Some found))
         else scan_usages pay ns old_usages last_set))"

text \<open>Steps 3 to 9, the same in both versions of \<open>eval_val_within_thread\<close>: \<open>found\<close> comes with the
  nodes before it.\<close>

definition state_value_at ::
  "(int \<Rightarrow> 'v result) \<Rightarrow> int \<Rightarrow> nat list \<Rightarrow> (nat \<Rightarrow> 'v st_value_node option) \<Rightarrow> 'v result" where
  "state_value_at profile eval_time ns pay =
     (case ns of
        [] \<Rightarrow> profile eval_time
      | n # _ \<Rightarrow>
        (case pay n of
           None \<Rightarrow> Inl NullAccess
         | Some found \<Rightarrow>
           (if res_val_type found \<noteq> END_USING \<and> usage_depth found = 0 then
              (if res_val_type found = RESET \<or> res_val_type found = DON_T_CARE then profile eval_time
               else Inr (val found))
            else
              bind_result (scan_usages pay ns [] None) (\<lambda>(found, last_set).
                case found of
                  Some p \<Rightarrow>
                    (if res_val_type p = START_USING \<or> res_val_type p = SET then Inr (val p)
                     else (case last_set of
                             Some q \<Rightarrow> if res_val_type q = SET then Inr (val q) else profile eval_time
                           | None \<Rightarrow> profile eval_time))
                | None \<Rightarrow>
                    (case last_set of
                       Some q \<Rightarrow> if res_val_type q = SET then Inr (val q) else profile eval_time
                     | None \<Rightarrow> profile eval_time)))))"

definition backed_off :: "strategy \<Rightarrow> int \<Rightarrow> prio_time lnode option \<Rightarrow> res_history \<Rightarrow> nat list" where
  "backed_off strategy eval_time found h =
     (case found of
        None \<Rightarrow> []
      | Some a \<Rightarrow>
          (let b = (if strategy = BEFORE \<and> etime (Key a) = eval_time
                    then back_off eval_time a (tl (backward (ident a) h)) else a)
           in map ident (backward (ident b) h)))"

text \<open>\<open>eval_val_within_thread(value, time)\<close> and \<open>eval_val_within_thread(value)\<close>.\<close>

definition state_eval_at :: "(int \<Rightarrow> 'v result) \<Rightarrow> eval_context \<Rightarrow> int \<Rightarrow> 'v res_state \<Rightarrow> 'v result" where
  "state_eval_at profile c eval_time s =
     (let h = resHistory s; found = latestHistNodeAtOrBefore eval_time (last_event_id c) h;
          strategy = (case res_miter_data c of None \<Rightarrow> NORMAL | Some _ \<Rightarrow> the_strategy c)
      in state_value_at profile eval_time (backed_off strategy eval_time found h) (payload s))"

definition state_eval :: "(int \<Rightarrow> 'v result) \<Rightarrow> eval_context \<Rightarrow> 'v res_state \<Rightarrow> 'v result" where
  "state_eval profile c s =
     (let h = resHistory s;
          strategy = (case res_miter_data c of None \<Rightarrow> NORMAL | Some _ \<Rightarrow> the_strategy c);
          eval_time = (if in_model_thread c then get_now c else thread_time c);
          use_miterator = (if in_model_thread c
                           then res_miter_data c \<noteq> None \<and> eval_time = thread_time c else True)
      in bind_result
           (if use_miterator then
              (case res_miter_data c of
                 None \<Rightarrow> Inl NullAccess
               | Some iter \<Rightarrow> latestHistNodeAtOrBeforeModelTime (in_model_thread c) eval_time
                                (last_event_id c) iter h)
            else Inr (latestHistNodeAtOrBefore eval_time (last_event_id c) h))
           (\<lambda>found. state_value_at profile eval_time (backed_off strategy eval_time found h) (payload s)))"

section \<open>The state of a resource\<close>

datatype STATE_STATE = STATE_RESET | STATE_SET | USE_SET_PENDING | USE_RESET_PENDING

text \<open>\<open>state_state\<close>; \<open>end_uses\<close> in the order of insertion, each with its key, the time of the END
  node, and the identification and the value of the START node.\<close>

record 'v state_state =
  currently :: STATE_STATE
  currentval :: 'v
  setval :: "'v option"
  end_uses :: "(int \<times> int \<times> 'v) list"

text \<open>The variables of the loop of \<open>get_resource_state_at\<close>; \<open>active\<close> is the value of the active
  node, None while it is looked for.\<close>

record 'v query =
  looking_for_unexpired_usages :: bool
  old_usages :: "nat list"
  active :: "'v option"
  pending :: "(int \<times> int \<times> 'v) list"
  last_set_or_reset :: "'v st_value_node option"

definition query_usage ::
  "(nat \<Rightarrow> int option) \<Rightarrow> prio_time lnode \<Rightarrow> 'v st_value_node \<Rightarrow> 'v query \<Rightarrow> 'v query result" where
  "query_usage time_of a p q =
     (if usage_depth p = 0 then Inr (q\<lparr>looking_for_unexpired_usages := False\<rparr>)
      else if res_val_type p = END_USING then
        (case an_Other p of
           None \<Rightarrow> Inl AssertFailed
         | Some start \<Rightarrow>
             if start \<in> set (old_usages q) then Inl AssertFailed
             else Inr (q\<lparr>old_usages := start # old_usages q\<rparr>))
      else if res_val_type p = START_USING \<and> ident a \<notin> set (old_usages q) then
        (case an_Other p of
           None \<Rightarrow> Inl AssertFailed
         | Some stop \<Rightarrow>
           (case time_of stop of
              None \<Rightarrow> Inl NullAccess
            | Some t \<Rightarrow>
                Inr (q\<lparr>active := (case active q of None \<Rightarrow> Some (val p) | Some v \<Rightarrow> Some v),
                       pending := pending q @ [(t, event_id (Key a), val p)]\<rparr>)))
      else Inr q)"

definition query_set :: "'v st_value_node \<Rightarrow> 'v query \<Rightarrow> 'v query" where
  "query_set p q =
     (if last_set_or_reset q = None \<and> (res_val_type p = SET \<or> res_val_type p = RESET)
      then q\<lparr>last_set_or_reset := Some p\<rparr> else q)"

fun query_loop ::
  "(nat \<Rightarrow> int option) \<Rightarrow> (nat \<Rightarrow> 'v st_value_node option) \<Rightarrow> prio_time lnode list \<Rightarrow> 'v query \<Rightarrow>
     'v query result" where
  "query_loop time_of pay [] q = Inr q"
| "query_loop time_of pay (a # as) q =
     (case pay (ident a) of
        None \<Rightarrow> Inl NullAccess
      | Some p \<Rightarrow>
          bind_result (if looking_for_unexpired_usages q then query_usage time_of a p q else Inr q)
            (\<lambda>q1. let q2 = query_set p q1 in
               if last_set_or_reset q2 \<noteq> None \<and> \<not> looking_for_unexpired_usages q2 then Inr q2
               else query_loop time_of pay as q2))"

definition get_resource_state_at ::
  "(int \<Rightarrow> 'v result) \<Rightarrow> int \<Rightarrow> int \<Rightarrow> 'v res_state \<Rightarrow> 'v state_state result" where
  "get_resource_state_at profile currentEventID given_time s =
     (let h = resHistory s;
          ns = (case latestHistNodeAtOrBefore given_time currentEventID h of
                  None \<Rightarrow> [] | Some a \<Rightarrow> backward (ident a) h);
          time_of = (\<lambda>n. map_option (\<lambda>a. etime (Key a)) (List.find (\<lambda>a. ident a = n) (chain_nodes h)))
      in bind_result (case ns of [] \<Rightarrow> Inr 0 | a # _ \<Rightarrow> depth_at s a) (\<lambda>depth.
         bind_result
           (query_loop time_of (payload s) ns
              \<lparr>looking_for_unexpired_usages = (depth > 0), old_usages = [], active = None,
               pending = [], last_set_or_reset = None\<rparr>)
           (\<lambda>q.
              let set_value = (case last_set_or_reset q of
                                 Some p \<Rightarrow> if res_val_type p = SET then Some (val p) else None
                               | None \<Rightarrow> None)
              in bind_result
                   (case active q of
                      Some v \<Rightarrow> Inr v
                    | None \<Rightarrow> (case set_value of Some v \<Rightarrow> Inr v | None \<Rightarrow> profile given_time))
                   (\<lambda>v. Inr \<lparr>currently =
                          (if set_value \<noteq> None
                           then (if pending q \<noteq> [] then USE_SET_PENDING else STATE_SET)
                           else (if pending q \<noteq> [] then USE_RESET_PENDING else STATE_RESET)),
                        currentval = v, setval = set_value, end_uses = pending q\<rparr>))))"

end
