(* ===== verification/StateUses.thy ===== *)
theory StateUses
  imports StateRes
begin

text \<open>
  What the history of a state resource means, on the list of its nodes: the usages that are open
  after a list of nodes, the value they give, the invariant on the depths that the code relies
  on, and the correctness of the search for the node that decides.
\<close>

section \<open>Open usages\<close>

type_synonym 'v snode = "nat \<times> 'v st_value_node"

definition is_start :: "'v snode \<Rightarrow> bool" where
  "is_start x \<longleftrightarrow> res_val_type (snd x) = START_USING"

definition is_end :: "'v snode \<Rightarrow> bool" where
  "is_end x \<longleftrightarrow> res_val_type (snd x) = END_USING"

definition is_set :: "'v snode \<Rightarrow> bool" where
  "is_set x \<longleftrightarrow> res_val_type (snd x) = SET \<or> res_val_type (snd x) = RESET"

definition closed_by :: "'v snode list \<Rightarrow> nat set" where
  "closed_by xs = {n. \<exists>x\<in>set xs. is_end x \<and> an_Other (snd x) = Some n}"

definition opens :: "'v snode list \<Rightarrow> 'v snode list" where
  "opens xs = filter (\<lambda>x. is_start x \<and> fst x \<notin> closed_by xs) xs"

text \<open>The value after the nodes \<open>bs\<close>, the latest first.\<close>

definition set_value :: "'v result \<Rightarrow> 'v snode list \<Rightarrow> 'v result" where
  "set_value profile_value bs =
     (case List.find is_set bs of
        Some x \<Rightarrow> if res_val_type (snd x) = SET then Inr (val (snd x)) else profile_value
      | None \<Rightarrow> profile_value)"

definition state_value :: "'v result \<Rightarrow> 'v snode list \<Rightarrow> 'v result" where
  "state_value profile_value bs =
     (case opens bs of x # _ \<Rightarrow> Inr (val (snd x)) | [] \<Rightarrow> set_value profile_value bs)"

text \<open>The invariant: an END node closes a usage that is open, and the depth of a node is not less
  than the number of the usages that are open after it.\<close>

definition node_ok :: "'v snode list \<Rightarrow> 'v snode \<Rightarrow> bool" where
  "node_ok bs x \<longleftrightarrow>
     res_val_type (snd x) \<noteq> DON_T_CARE \<and> fst x \<notin> fst ` set bs
     \<and> int (length (opens (x # bs))) \<le> usage_depth (snd x)
     \<and> (is_end x \<longrightarrow> (\<exists>n. an_Other (snd x) = Some n \<and> n \<in> fst ` set (opens bs)))"

fun uses_ok :: "'v snode list \<Rightarrow> bool" where
  "uses_ok [] = True"
| "uses_ok (x # bs) = (node_ok bs x \<and> uses_ok bs)"

section \<open>The search\<close>

lemma node_kinds:
  "is_start x \<Longrightarrow> \<not> is_end x" "is_start x \<Longrightarrow> \<not> is_set x" "is_set x \<Longrightarrow> \<not> is_end x"
  by (auto simp: is_start_def is_end_def is_set_def)

lemma closed_by_simps [simp]:
  "closed_by [] = {}" "closed_by (xs @ ys) = closed_by xs \<union> closed_by ys"
  "is_end x \<Longrightarrow> an_Other (snd x) = Some n \<Longrightarrow> closed_by (x # xs) = insert n (closed_by xs)"
  "\<not> is_end x \<Longrightarrow> closed_by (x # xs) = closed_by xs"
  by (auto simp: closed_by_def)

lemma opens_subset: "fst ` set (opens xs) \<subseteq> fst ` set xs" "fst ` set (opens xs) \<inter> closed_by xs = {}"
  by (auto simp: opens_def)

lemma uses_ok_append: "uses_ok (new @ bs) \<Longrightarrow> uses_ok bs"
  by (induction new) auto

lemma uses_ok_distinct: "uses_ok xs \<Longrightarrow> distinct (map fst xs)"
  by (induction xs) (auto simp: node_ok_def)

lemma closed_known: "uses_ok xs \<Longrightarrow> closed_by xs \<subseteq> fst ` set xs"
proof (induction xs)
  case (Cons x xs)
  show ?case
  proof (cases "is_end x")
    case True
    with Cons.prems obtain n where n: "an_Other (snd x) = Some n" "n \<in> fst ` set (opens xs)"
      by (auto simp: node_ok_def)
    then have "n \<in> fst ` set xs" using opens_subset(1) [of xs] by blast
    with True n(1) Cons show ?thesis by auto
  next
    case False
    with Cons show ?thesis by auto
  qed
qed simp

lemma closed_once:
  "uses_ok (new @ x # bs) \<Longrightarrow> is_end x \<Longrightarrow> an_Other (snd x) = Some n \<Longrightarrow> n \<notin> closed_by new"
proof (induction new)
  case (Cons y new)
  have n: "n \<in> closed_by (new @ x # bs)" using Cons.prems by simp
  show ?case
  proof (cases "is_end y")
    case True
    with Cons.prems(1) obtain k where k: "an_Other (snd y) = Some k" "k \<in> fst ` set (opens (new @ x # bs))"
      by (auto simp: node_ok_def)
    with opens_subset(2) [of "new @ x # bs"] n have "k \<noteq> n" by blast
    with Cons True k show ?thesis by auto
  qed (use Cons in auto)
qed simp

lemma opens_split:
  assumes ok: "uses_ok (new @ bs)" and new: "\<forall>x\<in>set new. is_start x \<longrightarrow> fst x \<in> closed_by new"
  shows "opens (new @ bs) = filter (\<lambda>x. fst x \<notin> closed_by new) (opens bs)"
proof -
  have "filter (\<lambda>x. is_start x \<and> fst x \<notin> closed_by (new @ bs)) new = []"
    using new by (auto simp: filter_empty_conv)
  then show ?thesis by (simp add: opens_def conj_commute conj_left_commute)
qed

text \<open>What steps 7 to 9 make of the result of the loop.\<close>

definition decide ::
  "'v result \<Rightarrow> 'v st_value_node option \<times> 'v st_value_node option \<Rightarrow> 'v result" where
  "decide profile_value r =
     (case r of (found, last_set) \<Rightarrow>
       (case found of
          Some p \<Rightarrow>
            (if res_val_type p = START_USING \<or> res_val_type p = SET then Inr (val p)
             else (case last_set of
                     Some q \<Rightarrow> if res_val_type q = SET then Inr (val q) else profile_value
                   | None \<Rightarrow> profile_value))
        | None \<Rightarrow>
            (case last_set of
               Some q \<Rightarrow> if res_val_type q = SET then Inr (val q) else profile_value
             | None \<Rightarrow> profile_value)))"

lemma find_append: "List.find P (xs @ ys) = (case List.find P xs of None \<Rightarrow> List.find P ys | Some x \<Rightarrow> Some x)"
  by (induction xs) auto

lemma scan_usages_ok:
  "uses_ok (new @ bs) \<Longrightarrow> \<forall>x\<in>set new. is_start x \<longrightarrow> fst x \<in> closed_by new \<Longrightarrow>
     set old = closed_by new \<Longrightarrow> last_set = map_option snd (List.find is_set new) \<Longrightarrow>
     \<forall>x\<in>set bs. pay (fst x) = Some (snd x) \<Longrightarrow>
     \<exists>r. scan_usages pay (map fst bs) old last_set = Inr r
       \<and> decide profile_value r = state_value profile_value (new @ bs)"
proof (induction bs arbitrary: new old last_set)
  case Nil
  have "opens new = []" using Nil.prems(2) by (auto simp: opens_def filter_empty_conv)
  then show ?case
    using Nil by (auto simp: decide_def state_value_def set_value_def split: option.splits)
next
  case (Cons x bs)
  have pay: "pay (fst x) = Some (snd x)" "\<forall>x\<in>set bs. pay (fst x) = Some (snd x)"
    using Cons.prems(5) by auto
  have ok: "uses_ok ((new @ [x]) @ bs)" using Cons.prems(1) by simp
  have ok': "uses_ok (x # bs)" using uses_ok_append [OF Cons.prems(1)] .
  note split = opens_split [OF Cons.prems(1,2)]
  have starts: "\<forall>y\<in>set (new @ [x]). is_start y \<longrightarrow> fst y \<in> closed_by (new @ [x])"
    if "is_start x \<Longrightarrow> fst x \<in> closed_by new"
    using Cons.prems(2) that by (auto simp del: closed_by_simps(3,4))
  show ?case
  proof (cases "is_end x")
    case True
    with ok' obtain n where n: "an_Other (snd x) = Some n" by (auto simp: node_ok_def)
    have "n \<notin> set old" using closed_once [OF Cons.prems(1) True n] Cons.prems(3) by simp
    moreover have "List.find is_set (new @ [x]) = List.find is_set new"
      using True node_kinds(3) [of x] by (auto simp: find_append split: option.splits)
    ultimately show ?thesis
      using Cons.IH [OF ok starts _ _ pay(2), of "n # old" last_set] True n Cons.prems(3,4) pay(1)
        node_kinds(1) [of x]
      by (auto simp: is_end_def)
  next
    case no_end: False
    show ?thesis
    proof (cases "is_start x \<and> fst x \<notin> set old")
      case True
      have "fst x \<notin> closed_by bs"
        using closed_known [of bs] ok' by (auto simp: node_ok_def)
      with True no_end have "opens (x # bs) = x # filter (\<lambda>y. is_start y \<and> fst y \<notin> closed_by bs) bs"
        by (simp add: opens_def)
      then have "opens (new @ x # bs) = x # filter (\<lambda>y. fst y \<notin> closed_by new)
          (filter (\<lambda>y. is_start y \<and> fst y \<notin> closed_by bs) bs)"
        using True Cons.prems(3) by (simp add: split)
      with True no_end pay show ?thesis
        by (simp add: decide_def state_value_def is_start_def)
    next
      case no_start: False
      then have s: "is_start x \<Longrightarrow> fst x \<in> closed_by new" using Cons.prems(3) by simp
      have closed: "set old = closed_by (new @ [x])" using no_end Cons.prems(3) by simp
      have starts': "\<forall>y\<in>set (new @ [x]). is_start y \<longrightarrow> fst y \<in> closed_by (new @ [x])"
        by (rule starts) (rule s)
      note IH = Cons.IH [OF ok starts' closed _ pay(2)]
      have skip: ?thesis
        if "scan_usages pay (map fst (x # bs)) old last_set = scan_usages pay (map fst bs) old ls"
          "ls = map_option snd (List.find is_set (new @ [x]))" for ls
        using IH [OF that(2)] that(1) by simp
      show ?thesis
      proof (cases "last_set = None \<and> is_set x")
        case set: True
        then have find: "List.find is_set (new @ x # ys) = Some x" for ys
          using Cons.prems(4) by (simp add: find_append)
        show ?thesis
        proof (cases "usage_depth (snd x) = 0")
          case True
          with ok' have "opens (x # bs) = []" by (simp add: node_ok_def)
          with split have "opens (new @ x # bs) = []" by simp
          moreover have "scan_usages pay (map fst (x # bs)) old last_set = Inr (Some (snd x), Some (snd x))"
            using True set no_end no_start pay by (auto simp: is_set_def is_end_def is_start_def)
          ultimately show ?thesis
            using set find [of bs]
            by (auto simp: decide_def state_value_def set_value_def is_set_def)
        next
          case False
          show ?thesis
            by (rule skip [of "Some (snd x)"])
              (use False set no_end no_start pay find [of "[]"]
                in \<open>auto simp: is_set_def is_end_def is_start_def\<close>)
        qed
      next
        case False
        then have "last_set = map_option snd (List.find is_set (new @ [x]))"
          using Cons.prems(4) by (cases "List.find is_set new") (auto simp: find_append)
        moreover have "scan_usages pay (map fst (x # bs)) old last_set = scan_usages pay (map fst bs) old last_set"
          using False no_end no_start pay unfolding is_set_def is_end_def is_start_def by auto
        ultimately show ?thesis by (intro skip [of last_set])
      qed
    qed
  qed
qed

lemma state_value_at_ok:
  assumes ok: "uses_ok bs" and pay: "\<forall>x\<in>set bs. pay (fst x) = Some (snd x)"
  shows "state_value_at profile t (map fst bs) pay = state_value (profile t) bs"
proof (cases bs)
  case Nil
  then show ?thesis by (simp add: state_value_at_def state_value_def set_value_def opens_def)
next
  case (Cons x bs')
  have p: "pay (fst x) = Some (snd x)" using pay Cons by simp
  show ?thesis
  proof (cases "\<not> is_end x \<and> usage_depth (snd x) = 0")
    case True
    with ok Cons have o: "opens bs = []" by (simp add: node_ok_def)
    have "fst x \<notin> closed_by bs'" using closed_known [of bs'] ok Cons by (auto simp: node_ok_def)
    with o True Cons have "\<not> is_start x" by (auto simp: opens_def)
    then have "is_set x"
      using True ok Cons by (cases "res_val_type (snd x)") (auto simp: is_set_def is_start_def is_end_def node_ok_def)
    with True o p Cons show ?thesis
      by (auto simp: state_value_at_def state_value_def set_value_def is_set_def is_end_def)
  next
    case False
    from scan_usages_ok [of "[]" bs "[]" None pay "profile t"] ok pay obtain r where
      r: "scan_usages pay (map fst bs) [] None = Inr r" "decide (profile t) r = state_value (profile t) bs"
      by auto
    have c: "\<not> (res_val_type (snd x) \<noteq> END_USING \<and> usage_depth (snd x) = 0)"
      using False by (simp add: is_end_def)
    have "state_value_at profile t (map fst bs) pay = decide (profile t) r"
      unfolding state_value_at_def r(1)
      unfolding Cons list.map list.case p option.case if_not_P [OF c]
      by (simp add: decide_def split: prod.splits)
    with r(2) show ?thesis by simp
  qed
qed

section \<open>A new usage\<close>

definition bump :: "'v snode \<Rightarrow> 'v snode" where
  "bump x = (fst x, increment_depth (snd x))"

lemma bump_simps [simp]:
  "fst (bump x) = fst x" "is_start (bump x) = is_start x" "is_end (bump x) = is_end x"
  "is_set (bump x) = is_set x" "an_Other (snd (bump x)) = an_Other (snd x)"
  "res_val_type (snd (bump x)) = res_val_type (snd x)" "val (snd (bump x)) = val (snd x)"
  "usage_depth (snd (bump x)) = usage_depth (snd x) + 1"
  by (simp_all add: bump_def increment_depth_def is_start_def is_end_def is_set_def)

lemma closed_by_bump [simp]: "closed_by (map bump xs) = closed_by xs"
  by (auto simp: closed_by_def)

lemma filter_bump: "(\<And>x. P (bump x) = Q x) \<Longrightarrow> filter P (map bump xs) = map bump (filter Q xs)"
  by (induction xs) auto

text \<open>The latest first: \<open>S\<close> between \<open>B\<close> and \<open>A\<close>.\<close>

lemma opens_start:
  assumes "is_start S" and "fst S \<notin> closed_by (B @ A)"
  shows "opens (map bump B @ S # A) =
     map bump (filter (\<lambda>x. is_start x \<and> fst x \<notin> closed_by (B @ A)) B) @ S
     # filter (\<lambda>x. is_start x \<and> fst x \<notin> closed_by (B @ A)) A"
  using assms node_kinds(1) [OF assms(1)] by (simp add: opens_def filter_bump)

lemma opens_start_sizes:
  assumes "is_start S" and "fst S \<notin> closed_by (B @ A)"
  shows "length (opens (map bump B @ S # A)) = Suc (length (opens (B @ A)))"
    "fst ` set (opens (map bump B @ S # A)) = insert (fst S) (fst ` set (opens (B @ A)))"
  unfolding opens_start [OF assms] by (auto simp: opens_def image_Un image_image)

lemma opens_end:
  assumes S: "is_start S" and E: "is_end E" "an_Other (snd E) = Some (fst S)"
    and fresh: "fst S \<notin> fst ` set (C @ B @ A)"
  shows "opens (C @ E # map bump B @ S # A) =
     filter (\<lambda>x. is_start x \<and> fst x \<notin> closed_by (C @ B @ A)) C
     @ map bump (filter (\<lambda>x. is_start x \<and> fst x \<notin> closed_by (C @ B @ A)) B)
     @ filter (\<lambda>x. is_start x \<and> fst x \<notin> closed_by (C @ B @ A)) A"
proof -
  have c: "closed_by (C @ E # map bump B @ S # A) = insert (fst S) (closed_by (C @ B @ A))"
    using E node_kinds(1) [OF S] by auto
  have "\<not> is_start E" using E node_kinds(1) [of E] by blast
  have f: "filter (\<lambda>x. is_start x \<and> fst x \<notin> insert (fst S) (closed_by (C @ B @ A))) xs =
      filter (\<lambda>x. is_start x \<and> fst x \<notin> closed_by (C @ B @ A)) xs"
    if "set xs \<subseteq> set (C @ B @ A)" for xs
  proof (rule filter_cong)
    fix x assume "x \<in> set xs"
    then have "fst x \<in> fst ` set (C @ B @ A)" using that by blast
    with fresh have "fst x \<noteq> fst S" by metis
    then show "(is_start x \<and> fst x \<notin> insert (fst S) (closed_by (C @ B @ A))) =
        (is_start x \<and> fst x \<notin> closed_by (C @ B @ A))" by simp
  qed simp
  have "set A \<subseteq> set (C @ B @ A)" "set B \<subseteq> set (C @ B @ A)" "set C \<subseteq> set (C @ B @ A)" by auto
  note f = this [THEN f]
  show ?thesis
    unfolding opens_def c using f \<open>\<not> is_start E\<close>
    by (simp add: filter_bump [of _ "\<lambda>x. is_start x \<and> fst x \<notin> insert (fst S) (closed_by (C @ B @ A))"])
qed

lemma opens_end_sizes:
  assumes "is_start S" and "is_end E" "an_Other (snd E) = Some (fst S)"
    and "fst S \<notin> fst ` set (C @ B @ A)"
  shows "length (opens (C @ E # map bump B @ S # A)) = length (opens (C @ B @ A))"
    "fst ` set (opens (C @ E # map bump B @ S # A)) = fst ` set (opens (C @ B @ A))"
  unfolding opens_end [OF assms] by (auto simp: opens_def image_Un image_image)

lemma uses_ok_start:
  assumes S: "is_start S" and depth: "int (length (opens A)) + 1 \<le> usage_depth (snd S)"
  shows "uses_ok (B @ A) \<Longrightarrow> fst S \<notin> fst ` set (B @ A) \<Longrightarrow> uses_ok (map bump B @ S # A)"
proof (induction B)
  case Nil
  have "fst S \<notin> closed_by A" using closed_known [of A] Nil by auto
  with opens_start_sizes [OF S, of "[]" A] depth S node_kinds(1) [OF S] Nil
  show ?case by (auto simp: node_ok_def is_start_def)
next
  case (Cons x B)
  then have ok: "uses_ok (B @ A)" "node_ok (B @ A) x" and fresh: "fst S \<notin> fst ` set (x # B @ A)" by auto
  have "fst S \<notin> closed_by (x # B @ A)" using closed_known [of "x # B @ A"] Cons.prems(1) fresh by auto
  with opens_start_sizes [OF S, of "x # B" A]
  have 1: "length (opens (bump x # map bump B @ S # A)) = Suc (length (opens (x # B @ A)))" by simp
  have "fst S \<notin> closed_by (B @ A)" using closed_known [OF ok(1)] fresh by auto
  from opens_start_sizes(2) [OF S this]
  have 2: "fst ` set (opens (map bump B @ S # A)) = insert (fst S) (fst ` set (opens (B @ A)))" .
  have "node_ok (map bump B @ S # A) (bump x)"
    using ok(2) fresh 1 2 by (auto simp: node_ok_def image_Un image_image)
  with Cons ok show ?case by simp
qed

lemma uses_ok_end:
  assumes S: "is_start S" and E: "is_end E" "an_Other (snd E) = Some (fst S)"
    and depth: "int (length (opens A)) + 1 \<le> usage_depth (snd S)"
      "int (length (opens (B @ A))) \<le> usage_depth (snd E)"
  shows "uses_ok (C @ B @ A) \<Longrightarrow> fst S \<notin> fst ` set (C @ B @ A) \<Longrightarrow> fst E \<notin> fst ` set (C @ B @ A) \<Longrightarrow>
     fst S \<noteq> fst E \<Longrightarrow> uses_ok (C @ E # map bump B @ S # A)"
proof (induction C)
  case Nil
  then have fresh: "fst S \<notin> fst ` set (B @ A)" and ok: "uses_ok (B @ A)" by auto
  have "fst S \<notin> closed_by (B @ A)" using closed_known [OF ok] fresh by auto
  from opens_start_sizes(2) [OF S this]
  have "fst S \<in> fst ` set (opens (map bump B @ S # A))" by simp
  moreover have "length (opens (E # map bump B @ S # A)) = length (opens (B @ A))"
    using opens_end_sizes(1) [OF S E, of "[]"] fresh by simp
  ultimately have "node_ok (map bump B @ S # A) E"
    using E depth Nil by (auto simp: node_ok_def is_end_def image_Un image_image)
  with uses_ok_start [OF S depth(1) ok fresh] show ?case by simp
next
  case (Cons x C)
  from opens_end_sizes(1) [OF S E Cons.prems(2)]
  have 1: "length (opens (x # C @ E # map bump B @ S # A)) = length (opens (x # C @ B @ A))" by simp
  have "fst S \<notin> fst ` set (C @ B @ A)" using Cons.prems(2) by simp
  note 2 = opens_end_sizes(2) [OF S E this]
  have "node_ok (C @ E # map bump B @ S # A) x"
    using Cons.prems 1 2 by (auto simp: node_ok_def image_Un image_image)
  with Cons show ?case by simp
qed

text \<open>A SET or a RESET.\<close>

lemma opens_set: "is_set x \<Longrightarrow> opens (B @ x # A) = opens (B @ A)"
  using node_kinds(2,3) [of x] by (auto simp: opens_def)

lemma uses_ok_set:
  assumes x: "is_set x" and depth: "int (length (opens A)) \<le> usage_depth (snd x)"
  shows "uses_ok (B @ A) \<Longrightarrow> fst x \<notin> fst ` set (B @ A) \<Longrightarrow> uses_ok (B @ x # A)"
proof (induction B)
  case Nil
  then show ?case
    using x depth opens_set [OF x, of "[]" A] node_kinds(3) [OF x]
    by (auto simp: node_ok_def is_set_def)
next
  case (Cons y B)
  then show ?case
    using opens_set [OF x, of "y # B" A] opens_set [OF x, of B A]
    by (auto simp: node_ok_def)
qed

text \<open>The values with a new node.\<close>

lemma find_bump: "List.find is_set (map bump xs) = map_option bump (List.find is_set xs)"
  by (induction xs) auto

lemma state_value_start:
  assumes "is_start S" and "fst S \<notin> closed_by (B @ A)" and "\<forall>x\<in>set B. \<not> is_start x"
  shows "state_value pv (map bump B @ S # A) = Inr (val (snd S))"
proof -
  have "filter (\<lambda>x. is_start x \<and> fst x \<notin> closed_by (B @ A)) B = []"
    using assms(3) by (auto simp: filter_empty_conv)
  then show ?thesis by (simp add: state_value_def opens_start [OF assms(1,2)])
qed

lemma state_value_end:
  assumes S: "is_start S" and E: "is_end E" "an_Other (snd E) = Some (fst S)"
    and fresh: "fst S \<notin> fst ` set (C @ B @ A)"
  shows "state_value pv (C @ E # map bump B @ S # A) = state_value pv (C @ B @ A)"
proof -
  have "\<not> is_set S" "\<not> is_set E" using node_kinds(2) [OF S] node_kinds(3) [of E] E(1) by blast+
  then have "set_value pv (C @ E # map bump B @ S # A) = set_value pv (C @ B @ A)"
    by (cases "List.find is_set C"; cases "List.find is_set B")
      (simp_all add: set_value_def find_append find_bump)
  moreover have "opens (C @ B @ A) = filter (\<lambda>x. is_start x \<and> fst x \<notin> closed_by (C @ B @ A)) C
     @ filter (\<lambda>x. is_start x \<and> fst x \<notin> closed_by (C @ B @ A)) B
     @ filter (\<lambda>x. is_start x \<and> fst x \<notin> closed_by (C @ B @ A)) A"
    by (simp add: opens_def)
  ultimately show ?thesis
    unfolding state_value_def opens_end [OF assms] \<open>set_value pv (C @ E # map bump B @ S # A) = set_value pv (C @ B @ A)\<close>
    by (cases "filter (\<lambda>x. is_start x \<and> fst x \<notin> closed_by (C @ B @ A)) C";
        cases "filter (\<lambda>x. is_start x \<and> fst x \<notin> closed_by (C @ B @ A)) B"; simp)
qed

lemma state_value_set:
  assumes "is_set x" and "\<forall>y\<in>set B. \<not> is_set y"
  shows "state_value pv (B @ x # A) =
     (if opens (B @ A) \<noteq> [] then state_value pv (B @ A)
      else if res_val_type (snd x) = SET then Inr (val (snd x)) else pv)"
proof -
  have "List.find is_set B = None" using assms(2) by (simp add: find_None_iff)
  then have "set_value pv (B @ x # A) = (if res_val_type (snd x) = SET then Inr (val (snd x)) else pv)"
    using assms(1) by (simp add: set_value_def find_append)
  then show ?thesis by (simp add: state_value_def opens_set [OF assms(1)] split: list.split)
qed

end
