(* ===== verification/StateValues.thy ===== *)
theory StateValues
  imports StateUses ResHistoryProperties
begin

text \<open>
  The evaluation of a state resource over a history: the nodes that the searches give, the
  invariant of a state resource, and its values at a time.
\<close>

section \<open>The nodes of a history\<close>

definition hist_nodes :: "res_history \<Rightarrow> prio_time lnode list" where
  "hist_nodes h = inorder (tree (historyList h))"

definition node_time :: "prio_time lnode \<Rightarrow> int" where
  "node_time a = etime (Key a)"

lemma find_ident: "distinct (map ident xs) \<Longrightarrow> a \<in> set xs \<Longrightarrow> List.find (\<lambda>b. ident b = ident a) xs = Some a"
  by (induction xs) (auto simp: image_iff)

lemma map_filter_find:
  assumes "distinct (map ident xs)"
  shows "set ys \<subseteq> set xs \<Longrightarrow> List.map_filter (\<lambda>n. List.find (\<lambda>a. ident a = n) xs) (map ident ys) = ys"
  by (induction ys) (auto simp: List.map_filter_def find_ident [OF assms])

lemma hist_facts:
  assumes "history_ok cur h"
  shows "prio.sorted_keys (hist_nodes h)" "distinct (map ident (hist_nodes h))"
    "chain_nodes h = hist_nodes h" "events_of h = map core (hist_nodes h)"
    "chain (historyList h) = map ident (hist_nodes h)"
    "sorted_wrt (\<lambda>a b. node_time a \<le> node_time b) (hist_nodes h)"
proof -
  let ?T = "historyList h"
  have T: "tlist_ok prio_time_class ?T" "synchronize_orders ?T" using assms by (simp_all add: history_ok_def)
  show d: "distinct (map ident (hist_nodes h))"
    using T(1) by (simp add: tlist_ok_def contents_def hist_nodes_def o_def)
  show c: "chain ?T = map ident (hist_nodes h)"
    using T by (simp add: tlist_ok_def contents_def hist_nodes_def o_def)
  show "chain_nodes h = hist_nodes h"
    unfolding chain_nodes_def c hist_nodes_def [symmetric] by (rule map_filter_find [OF d]) simp
  show "prio.sorted_keys (hist_nodes h)"
    using T(1) by (simp add: tlist_ok_def contents_def hist_nodes_def in_order_core prio.sorted_keys_def)
  show e: "events_of h = map core (hist_nodes h)"
    by (simp add: events_of_def contents_def hist_nodes_def)
  have "(\<lambda>a b. etime (fst (core a)) \<le> etime (fst (core b))) = (\<lambda>a b. node_time a \<le> node_time b)"
    by (simp add: core_def node_time_def)
  with history_sorted [OF assms] show "sorted_wrt (\<lambda>a b. node_time a \<le> node_time b) (hist_nodes h)"
    unfolding e sorted_wrt_map by simp
qed

lemma found_nodes:
  assumes ok: "history_ok cur h" and cur: "0 \<le> cur"
  shows "latestHistNodeAtOrBefore t cur h = last_opt (filter (\<lambda>a. node_time a \<le> t) (hist_nodes h))"
    "latestHistNodeBefore t h = last_opt (filter (\<lambda>a. node_time a < t) (hist_nodes h))"
proof -
  note s = hist_facts(1) [OF ok, unfolded hist_nodes_def]
  have ids: "0 \<le> event_id (Key a) \<and> event_id (Key a) \<le> cur" if "a \<in> set (hist_nodes h)" for a
    using ok hist_facts(4) [OF ok] that by (auto simp: history_ok_def events_of_def core_def)
  have "filter (\<lambda>a. 0 \<le> compare_to prio_time_class (prio_key t (cur + 1)) (Key a) False) (hist_nodes h)
    = filter (\<lambda>a. node_time a \<le> t) (hist_nodes h)"
    by (rule filter_cong)
      (use ids in \<open>force simp: prio_time_class_def prio_time_compare_to_def prio_key_def node_time_def\<close>)+
  moreover have "filter (\<lambda>a. 0 < compare_to prio_time_class (prio_key t 0) (Key a) False) (hist_nodes h)
    = filter (\<lambda>a. node_time a < t) (hist_nodes h)"
    by (rule filter_cong)
      (use ids in \<open>force simp: prio_time_class_def prio_time_compare_to_def prio_key_def node_time_def\<close>)+
  ultimately show "latestHistNodeAtOrBefore t cur h = last_opt (filter (\<lambda>a. node_time a \<le> t) (hist_nodes h))"
    "latestHistNodeBefore t h = last_opt (filter (\<lambda>a. node_time a < t) (hist_nodes h))"
    using prio.find_at_or_before_loop_ok [OF s, of _ None] prio.find_before_ok [OF s]
    by (simp_all add: latestHistNodeAtOrBefore_def latestHistNodeBefore_def find_at_or_before_def
        hist_nodes_def split: option.split)
qed

lemma around_node:
  assumes ok: "history_ok cur h" and h: "hist_nodes h = xs @ a # ys"
  shows "backward (ident a) h = a # rev xs" "forward (ident a) h = a # ys"
proof -
  have "\<forall>x\<in>set xs. ident x \<noteq> ident a" using hist_facts(2) [OF ok] by (simp add: h) (metis imageI)
  then have "takeWhile (\<lambda>b. ident b \<noteq> ident a) (xs @ a # ys) = xs"
    "dropWhile (\<lambda>b. ident b \<noteq> ident a) (xs @ a # ys) = a # ys"
    by (auto simp: takeWhile_append dropWhile_append)
  then show "backward (ident a) h = a # rev xs" "forward (ident a) h = a # ys"
    unfolding backward_def forward_def hist_facts(3) [OF ok] h by simp_all
qed

section \<open>The node that decides\<close>

text \<open>The nodes up to a time, the latest first.\<close>

definition nodes_upto :: "strategy \<Rightarrow> int \<Rightarrow> res_history \<Rightarrow> prio_time lnode list" where
  "nodes_upto strategy t h = rev (filter (\<lambda>a. counts_at strategy t (node_time a)) (hist_nodes h))"

lemma nodes_prefix:
  assumes "history_ok cur h"
  shows "\<exists>zs. hist_nodes h = rev (nodes_upto strategy t h) @ zs"
  unfolding nodes_upto_def
  using filter_prefix [where f = node_time and P = "counts_at strategy t", OF hist_facts(6) [OF assms]]
    counts_at_down by auto

lemma backward_upto:
  assumes ok: "history_ok cur h" and a: "nodes_upto strategy t h = a # bs"
  shows "backward (ident a) h = a # bs"
proof -
  from nodes_prefix [OF ok, of strategy t] a obtain zs where "hist_nodes h = rev bs @ a # zs" by auto
  from around_node(1) [OF ok this] show ?thesis by simp
qed

lemma back_off_find:
  "back_off t a bs = (case List.find (\<lambda>b. node_time b < t) bs of Some b \<Rightarrow> b | None \<Rightarrow> last (a # bs))"
proof (induction bs arbitrary: a)
  case (Cons b bs)
  have "last (a # b # bs) = last (b # bs)" by simp
  then show ?case by (simp only: back_off.simps List.find.simps Cons.IH node_time_def) simp
qed simp

lemma upto_before:
  assumes ok: "history_ok cur h"
  shows "nodes_upto BEFORE t h = filter (\<lambda>a. node_time a < t) (nodes_upto NORMAL t h)"
  unfolding nodes_upto_def rev_filter by (auto intro: filter_cong)

lemma find_hd: "List.find P xs = hd_opt (filter P xs)"
  by (induction xs) auto

lemma last_opt_rev: "last_opt xs = hd_opt (rev xs)"
  by (cases xs rule: rev_cases) (auto simp: last_opt_eq)

lemma backed_off_ok:
  assumes ok: "history_ok cur h" and cur: "0 \<le> cur"
    and before: "strategy = BEFORE \<Longrightarrow> nodes_upto BEFORE t h \<noteq> [] \<or> nodes_upto NORMAL t h = []"
  shows "backed_off strategy t (latestHistNodeAtOrBefore t cur h) h = map ident (nodes_upto strategy t h)"
proof -
  have found: "latestHistNodeAtOrBefore t cur h = hd_opt (nodes_upto NORMAL t h)"
    by (simp add: found_nodes [OF ok cur] nodes_upto_def last_opt_rev)
  show ?thesis
  proof (cases "nodes_upto NORMAL t h")
    case Nil
    with upto_before [OF ok, of t] found show ?thesis by (cases strategy) (simp_all add: backed_off_def)
  next
    case (Cons a bs)
    note a = backward_upto [OF ok Cons]
    have "a \<in> set (nodes_upto NORMAL t h)" using Cons by simp
    then have le: "node_time a \<le> t" by (simp add: nodes_upto_def)
    show ?thesis
    proof (cases "strategy = BEFORE \<and> node_time a = t")
      case True
      then have upto: "nodes_upto BEFORE t h = filter (\<lambda>b. node_time b < t) bs"
        using upto_before [OF ok, of t] Cons by simp
      have "nodes_upto BEFORE t h \<noteq> []" using before True Cons by simp
      then obtain b bs' where b: "nodes_upto BEFORE t h = b # bs'"
        by (metis neq_Nil_conv)
      have "hd_opt (filter (\<lambda>b. node_time b < t) bs) = Some b" unfolding upto [symmetric] b by simp
      then have "back_off t a bs = b" by (simp add: back_off_find find_hd)
      with True found Cons a b backward_upto [OF ok b] show ?thesis
        by (simp add: backed_off_def node_time_def)
    next
      case False
      have "nodes_upto strategy t h = a # bs"
      proof (cases strategy)
        case BEFORE
        with False le have "node_time a < t" by simp
        moreover have "\<forall>b\<in>set bs. node_time b \<le> node_time a"
        proof -
          from nodes_prefix [OF ok, of NORMAL t] Cons obtain zs where "hist_nodes h = rev bs @ a # zs"
            by auto
          with hist_facts(6) [OF ok] show ?thesis by (auto simp: sorted_wrt_append)
        qed
        ultimately have "filter (\<lambda>b. node_time b < t) bs = bs" by (auto simp: filter_id_conv)
        with upto_before [OF ok, of t] Cons BEFORE \<open>node_time a < t\<close> show ?thesis by simp
      qed (use Cons in simp)
      with False found Cons a show ?thesis by (auto simp: backed_off_def node_time_def)
    qed
  qed
qed

section \<open>The invariant of a state resource, and its values\<close>

definition the_payload :: "'v res_state \<Rightarrow> prio_time lnode \<Rightarrow> 'v snode" where
  "the_payload s a = (ident a, the (payload s (ident a)))"

definition state_ok :: "int \<Rightarrow> 'v res_state \<Rightarrow> bool" where
  "state_ok cur s \<longleftrightarrow>
     history_ok cur (resHistory s) \<and> 0 \<le> cur
     \<and> (\<forall>a\<in>set (hist_nodes (resHistory s)). payload s (ident a) \<noteq> None)
     \<and> uses_ok (map (the_payload s) (rev (hist_nodes (resHistory s))))"

definition nodes_at :: "strategy \<Rightarrow> int \<Rightarrow> 'v res_state \<Rightarrow> 'v snode list" where
  "nodes_at strategy t s = map (the_payload s) (nodes_upto strategy t (resHistory s))"

lemma state_ok_nodes:
  assumes "state_ok cur s"
  shows "uses_ok (nodes_at strategy t s)"
    "\<forall>x\<in>set (nodes_at strategy t s). payload s (fst x) = Some (snd x)"
proof -
  from assms nodes_prefix [of cur "resHistory s" strategy t] obtain zs where
    zs: "hist_nodes (resHistory s) = rev (nodes_upto strategy t (resHistory s)) @ zs"
    by (auto simp: state_ok_def)
  have "uses_ok (map (the_payload s) (rev (hist_nodes (resHistory s))))"
    using assms by (simp add: state_ok_def)
  then show "uses_ok (nodes_at strategy t s)"
    unfolding zs by (simp add: uses_ok_append nodes_at_def)
  have "set (nodes_upto strategy t (resHistory s)) \<subseteq> set (hist_nodes (resHistory s))"
    by (auto simp: nodes_upto_def)
  then show "\<forall>x\<in>set (nodes_at strategy t s). payload s (fst x) = Some (snd x)"
    using assms by (auto simp: state_ok_def nodes_at_def the_payload_def)
qed

lemma map_fst_nodes [simp]: "map fst (nodes_at strategy t s) = map ident (nodes_upto strategy t (resHistory s))"
  by (simp add: nodes_at_def the_payload_def o_def)

lemma state_value_at_nodes:
  assumes "state_ok cur s"
  shows "state_value_at profile t (map ident (nodes_upto strategy t (resHistory s))) (payload s) =
    state_value (profile t) (nodes_at strategy t s)"
  using state_value_at_ok [OF state_ok_nodes [OF assms], of profile t] by simp

text \<open>The strategy in force, and when it finds a node before the time.\<close>

definition strategy_of :: "eval_context \<Rightarrow> strategy" where
  "strategy_of c = (case res_miter_data c of None \<Rightarrow> NORMAL | Some _ \<Rightarrow> the_strategy c)"

definition evaluable_at :: "strategy \<Rightarrow> int \<Rightarrow> 'v res_state \<Rightarrow> bool" where
  "evaluable_at strategy t s \<longleftrightarrow>
     (strategy = BEFORE \<longrightarrow> nodes_at BEFORE t s \<noteq> [] \<or> nodes_at NORMAL t s = [])"

theorem state_eval_at_ok:
  assumes ok: "state_ok (last_event_id c) s" and "evaluable_at (strategy_of c) t s"
  shows "state_eval_at profile c t s = state_value (profile t) (nodes_at (strategy_of c) t s)"
proof -
  have "backed_off (strategy_of c) t (latestHistNodeAtOrBefore t (last_event_id c) (resHistory s)) (resHistory s)
    = map ident (nodes_upto (strategy_of c) t (resHistory s))"
    by (rule backed_off_ok) (use assms in \<open>auto simp: state_ok_def evaluable_at_def nodes_at_def\<close>)
  with state_value_at_nodes [OF ok] show ?thesis
    by (simp add: state_eval_at_def Let_def strategy_of_def)
qed

section \<open>The search from an iterator\<close>

text \<open>The nodes an iterator points to are in the list.\<close>

definition iter_ok :: "hist_iter \<Rightarrow> res_history \<Rightarrow> bool" where
  "iter_ok it h \<longleftrightarrow>
     (case iterNode it of None \<Rightarrow> True | Some n \<Rightarrow> n \<in> set (chain (historyList h)))
     \<and> (case getPrev it of None \<Rightarrow> True | Some n \<Rightarrow> n \<in> set (chain (historyList h)))"

lemma iter_ok_iff:
  "iter_ok it h \<longleftrightarrow>
     (\<forall>n. iterNode it = Some n \<longrightarrow> n \<in> set (chain (historyList h)))
     \<and> (\<forall>n. getPrev it = Some n \<longrightarrow> n \<in> set (chain (historyList h)))"
  by (simp add: iter_ok_def split: option.split)

lemma node_in_list:
  assumes "history_ok cur h" and "n \<in> set (chain (historyList h))"
  obtains xs a ys where "hist_nodes h = xs @ a # ys" "ident a = n"
  using assms(2) split_list unfolding hist_facts(5) [OF assms(1)] by (metis image_iff list.set_map)

lemma walk_forward_ok:
  "sorted_wrt (\<lambda>a b. node_time a \<le> node_time b) (N # Ms) \<Longrightarrow> node_time N \<le> t \<Longrightarrow>
     last_opt (filter (\<lambda>a. node_time a \<le> t) (N # Ms)) = Some (walk_forward t N Ms)"
proof (induction Ms arbitrary: N)
  case (Cons M Ms)
  show ?case
  proof (cases "node_time M \<le> t")
    case True
    with Cons.IH [of M] Cons.prems show ?thesis by (simp add: node_time_def)
  next
    case False
    then have "filter (\<lambda>a. node_time a \<le> t) (M # Ms) = []" using Cons.prems by (auto simp: filter_empty_conv)
    with False Cons.prems(2) show ?thesis by (simp add: node_time_def)
  qed
qed simp

lemma walk_backward_ok:
  "\<exists>b\<in>set bs. node_time b \<le> t \<Longrightarrow> hd_opt (filter (\<lambda>a. node_time a \<le> t) bs) = Some (walk_backward t N bs)"
  by (induction bs arbitrary: N) (auto simp: node_time_def)

theorem model_time_search:
  assumes ok: "history_ok cur h" and cur: "0 \<le> cur" and it: "iter_ok it h" "getPrev it = Some safe"
    and early: "if model_thread then \<exists>a\<in>set (hist_nodes h). node_time a \<le> t
      else \<exists>a\<in>set (hist_nodes h). ident a = safe \<and> node_time a \<le> t"
  shows "latestHistNodeAtOrBeforeModelTime model_thread t cur (Some it) h =
    Inr (latestHistNodeAtOrBefore t cur h)"
proof -
  note found = found_nodes(1) [OF ok cur]
  have fwd: "last_opt (filter (\<lambda>a. node_time a \<le> t) (hist_nodes h)) = Some (walk_forward t a ys)"
    if "hist_nodes h = xs @ a # ys" "node_time a \<le> t" for xs a ys
    using walk_forward_ok [of a ys t] that hist_facts(6) [OF ok] by (simp add: sorted_wrt_append)
  show ?thesis
  proof (cases model_thread)
    case True
    let ?n = "case iterNode it of None \<Rightarrow> last_opt (chain (historyList h)) | Some n \<Rightarrow> Some n"
    from early True have ne: "hist_nodes h \<noteq> []" by auto
    have "\<exists>n. ?n = Some n \<and> n \<in> set (chain (historyList h))"
    proof (cases "iterNode it")
      case None
      with ne show ?thesis by (simp add: hist_facts(5) [OF ok] last_opt_eq last_map)
    next
      case (Some n)
      with it show ?thesis by (auto simp: iter_ok_iff)
    qed
    then obtain n where n: "?n = Some n" "n \<in> set (chain (historyList h))" by blast
    from node_in_list [OF ok n(2)] obtain xs a ys where h: "hist_nodes h = xs @ a # ys" "ident a = n" .
    note around = around_node [OF ok h(1), unfolded h(2)]
    show ?thesis
    proof (cases "node_time a \<le> t")
      case True
      with fwd [OF h(1)] \<open>model_thread\<close> n(1) around it(2) found show ?thesis
        by (simp add: latestHistNodeAtOrBeforeModelTime_def node_time_def)
    next
      case False
      then have late: "filter (\<lambda>a. node_time a \<le> t) (a # ys) = []"
        using hist_facts(6) [OF ok] unfolding h(1) by (auto simp: filter_empty_conv sorted_wrt_append)
      then have "\<forall>b\<in>set (a # ys). \<not> node_time b \<le> t" unfolding filter_empty_conv .
      with early \<open>model_thread\<close> have "\<exists>b\<in>set (rev xs). node_time b \<le> t"
        unfolding h(1) by auto
      from walk_backward_ok [OF this, of a]
      have "last_opt (filter (\<lambda>a. node_time a \<le> t) (hist_nodes h)) = Some (walk_backward t a (rev xs))"
        unfolding h(1) filter_append late by (simp add: last_opt_rev rev_filter)
      with False \<open>model_thread\<close> n(1) around it(2) found show ?thesis
        by (simp add: latestHistNodeAtOrBeforeModelTime_def node_time_def)
    qed
  next
    case False
    have "safe \<in> set (chain (historyList h))" using it by (simp add: iter_ok_iff)
    from node_in_list [OF ok this] obtain xs a ys where h: "hist_nodes h = xs @ a # ys" "ident a = safe" .
    from early False obtain b where b: "b \<in> set (hist_nodes h)" "ident b = safe" "node_time b \<le> t" by auto
    have "b = a"
      using b h hist_facts(2) [OF ok] by (metis distinct_map inj_onD in_set_conv_decomp)
    with b(3) fwd [OF h(1)] False around_node(2) [OF ok h(1), unfolded h(2)] it(2) found show ?thesis
      by (simp add: latestHistNodeAtOrBeforeModelTime_def)
  qed
qed

text \<open>The modelling thread at the time of the usage, with an iterator over the history.\<close>

definition in_sync :: "eval_context \<Rightarrow> int \<Rightarrow> res_history \<Rightarrow> bool" where
  "in_sync c t h \<longleftrightarrow>
     in_model_thread c \<and> get_now c = t \<and> thread_time c = t
     \<and> (case res_miter_data c of Some (Some it) \<Rightarrow> iter_ok it h | _ \<Rightarrow> False)
     \<and> (\<exists>e\<in>set (events_of h). etime (fst e) \<le> t)"

lemma find_closest_in_sync:
  assumes hist: "history_ok (last_event_id c) h" "0 \<le> last_event_id c" and sync: "in_sync c t h"
  shows "find_closest c t h = Inr (latestHistNodeAtOrBefore t (last_event_id c) h)"
proof -
  from sync obtain it where it: "res_miter_data c = Some (Some it)" "iter_ok it h"
    by (auto simp: in_sync_def split: option.splits)
  show ?thesis
  proof (cases "getPrev it")
    case None
    with sync it show ?thesis
      by (simp add: find_closest_def in_sync_def latestHistNodeAtOrBeforeModelTime_def)
  next
    case (Some safe)
    have "\<exists>a\<in>set (hist_nodes h). node_time a \<le> t"
      using sync unfolding in_sync_def hist_facts(4) [OF hist(1)]
      by (simp add: node_time_def core_def)
    with model_time_search [OF hist it(2) Some, of True t] sync it(1) show ?thesis
      by (simp add: find_closest_def in_sync_def)
  qed
qed

end
