(* ===== verification/StateAppend.thy ===== *)
theory StateAppend
  imports StateValues
begin

text \<open>
  The operations that add to the history of a state resource keep its invariant, and what they
  make of its values.
\<close>

section \<open>The events of a state resource\<close>

definition snode_of :: "'v res_state \<Rightarrow> prio_time core \<Rightarrow> 'v snode" where
  "snode_of s e = (core_id e, the (payload s (core_id e)))"

definition events :: "'v res_state \<Rightarrow> prio_time core list" where
  "events s = events_of (resHistory s)"

lemma fst_snode_of [simp]: "fst (snode_of s e) = core_id e"
  by (simp add: snode_of_def)

lemma the_payload_core: "the_payload s a = snode_of s (core a)"
  by (simp add: the_payload_def snode_of_def)

lemma nodes_at_events:
  assumes "history_ok cur (resHistory s)"
  shows "nodes_at strategy t s =
    map (snode_of s) (rev (filter (\<lambda>e. counts_at strategy t (etime (fst e))) (events s)))"
  unfolding nodes_at_def nodes_upto_def events_def hist_facts(4) [OF assms]
  by (simp add: filter_map rev_map the_payload_core o_def node_time_def core_def)

lemma state_ok_events:
  "state_ok cur s \<longleftrightarrow>
     history_ok cur (resHistory s) \<and> 0 \<le> cur
     \<and> (\<forall>e\<in>set (events s). payload s (core_id e) \<noteq> None)
     \<and> uses_ok (map (snode_of s) (rev (events s)))"
proof (cases "history_ok cur (resHistory s)")
  case True
  have "map (the_payload s) (rev (hist_nodes (resHistory s))) = map (snode_of s) (rev (events s))"
    unfolding events_def hist_facts(4) [OF True] by (simp add: rev_map the_payload_core o_def)
  then show ?thesis
    using True by (simp add: state_ok_def events_def hist_facts(4) [OF True])
qed (simp add: state_ok_def)

text \<open>Every START node has its END node in the list.\<close>

definition links_ok :: "'v res_state \<Rightarrow> bool" where
  "links_ok s \<longleftrightarrow>
     (\<forall>e\<in>set (events s). is_start (snode_of s e) \<longrightarrow>
        (\<exists>m. an_Other (snd (snode_of s e)) = Some m \<and> m \<in> core_id ` set (events s)))"

lemma links_ok_mono:
  assumes links: "links_ok s" and sub: "set (events s) \<subseteq> set (events s')"
    and old: "\<And>e. e \<in> set (events s) \<Longrightarrow> is_start (snode_of s' e) = is_start (snode_of s e)
      \<and> an_Other (snd (snode_of s' e)) = an_Other (snd (snode_of s e))"
    and new: "\<And>e. e \<in> set (events s') \<Longrightarrow> e \<notin> set (events s) \<Longrightarrow> is_start (snode_of s' e) \<Longrightarrow>
      \<exists>m. an_Other (snd (snode_of s' e)) = Some m \<and> m \<in> core_id ` set (events s')"
  shows "links_ok s'"
  unfolding links_ok_def
proof (intro ballI impI)
  fix e assume e: "e \<in> set (events s')" "is_start (snode_of s' e)"
  show "\<exists>m. an_Other (snd (snode_of s' e)) = Some m \<and> m \<in> core_id ` set (events s')"
  proof (cases "e \<in> set (events s)")
    case True
    with old [OF True] e(2) links obtain m where
      m: "an_Other (snd (snode_of s e)) = Some m" "m \<in> core_id ` set (events s)"
      unfolding links_ok_def by metis
    have "m \<in> core_id ` set (events s')" using m(2) sub by blast
    with m(1) old [OF True] show ?thesis by simp
  qed (use new e in blast)
qed

section \<open>Adding a node\<close>

lemma state_Add_ok:
  assumes ok: "history_ok cur (resHistory s)" and "\<not> Frozen (resHistory s)" and "0 \<le> p" "p \<le> cur"
  shows "\<exists>s' k. state_Add t p pl s = Inr (next_node_address (resHistory s), s')
     \<and> history_ok cur (resHistory s') \<and> \<not> Frozen (resHistory s') \<and> etime k = t \<and> event_id k = p
     \<and> events s' = add_event t p (k, next_node_address (resHistory s), 0) (events s)
     \<and> payload s' = (payload s)(next_node_address (resHistory s) \<mapsto> pl)
     \<and> next_node_address (resHistory s') = next_node_address (resHistory s) + 1"
proof -
  from history_Add_ok [OF assms, of t 0] obtain h' k where
    h': "history_Add t 0 p (resHistory s) = Inr h'" "history_ok cur h'" "\<not> Frozen h'"
    "etime k = t" "event_id k = p"
    "events_of h' = add_event t p (k, next_node_address (resHistory s), 0) (events_of (resHistory s))"
    "next_node_address h' = next_node_address (resHistory s) + 1" by blast
  let ?s = "s\<lparr>resHistory := h', payload := (payload s)(next_node_address (resHistory s) \<mapsto> pl)\<rparr>"
  show ?thesis
    by (intro exI [of _ ?s] exI [of _ k])
      (use h' in \<open>simp add: state_Add_def Let_def map_ok_def events_def\<close>)
qed

lemma fresh_address:
  "history_ok cur (resHistory s) \<Longrightarrow> e \<in> set (events s) \<Longrightarrow> core_id e < next_node_address (resHistory s)"
  by (auto simp: history_ok_def events_def events_of_def)

lemma put_payloads:
  "distinct ns \<Longrightarrow> payload (fold (put_payload f) ns s) n =
     (if n \<in> set ns then map_option f (payload s n) else payload s n)"
  by (induction ns arbitrary: s) (auto simp: put_payload_def)

lemma put_payloads_history [simp]: "resHistory (fold (put_payload f) ns s) = resHistory s"
  by (induction ns arbitrary: s) (auto simp: put_payload_def)

section \<open>The loop over the following nodes\<close>

lemma following_node_ok:
  assumes ok: "history_ok cur h" and h: "hist_nodes h = xs @ a # ys"
  shows "following_node prio_time_class a (tree (historyList h)) = hd_opt ys"
proof -
  note s = hist_facts(1) [OF ok]
  have same: "\<forall>b\<in>set (hist_nodes h). compare_to prio_time_class (Key a) (Key b) False = 0 \<longrightarrow> ident b = ident a"
    using prio.same_key_ident [OF s] h by auto
  have "compare_to prio_time_class (Key b) (Key a) False < 0" if "b \<in> set xs" for b
    using s that unfolding h prio.sorted_keys_def by (simp add: sorted_wrt_append)
  then have "\<not> compare_to prio_time_class (Key a) (Key b) False < 0" if "b \<in> set (xs @ [a])" for b
    using that prio.full_anti by (auto dest: order_less_asym)
  then have f1: "filter (\<lambda>b. compare_to prio_time_class (Key a) (Key b) False < 0) (xs @ [a]) = []"
    unfolding filter_empty_conv by blast
  have f2: "filter (\<lambda>b. compare_to prio_time_class (Key a) (Key b) False < 0) ys = ys"
    using s unfolding h prio.sorted_keys_def by (simp add: sorted_wrt_append filter_id_conv)
  have h': "hist_nodes h = (xs @ [a]) @ ys" using h by simp
  have "filter (\<lambda>b. compare_to prio_time_class (Key a) (Key b) False < 0) (hist_nodes h) = ys"
    unfolding h' filter_append [of _ "xs @ [a]" ys] f1 f2 by simp
  with prio.find_adjacent_right_loop_ok [of "tree (historyList h)" a None] s same
  show ?thesis by (simp add: following_node_def hist_nodes_def split: option.split)
qed

lemma following_until_ok:
  assumes ok: "history_ok cur h"
  shows "hist_nodes h = xs @ a # ys \<Longrightarrow> length ys < fuel \<Longrightarrow>
     following_until stop fuel (Some a) (tree (historyList h)) =
     map ident (takeWhile (\<lambda>b. ident b \<noteq> stop) (a # ys))"
proof (induction ys arbitrary: xs a fuel)
  case Nil
  then obtain f where "fuel = Suc f" by (cases fuel) auto
  then show ?case using following_node_ok [OF ok Nil(1)] by (cases f) auto
next
  case (Cons b ys)
  then obtain f where "fuel = Suc f" "length ys < f" by (cases fuel) auto
  with Cons.IH [of "xs @ [a]" b f] Cons.prems(1) following_node_ok [OF ok Cons.prems(1)]
  show ?case by simp
qed

section \<open>A usage\<close>

text \<open>What the insertions do to the list of the events.\<close>

definition not_after :: "int \<Rightarrow> int \<Rightarrow> prio_time core \<Rightarrow> bool" where
  "not_after t p e = at_or_before (fst e) t p"

lemma add_event_split:
  "add_event t p x xs = takeWhile (not_after t p) xs @ x # dropWhile (not_after t p) xs"
  unfolding add_event_def by (simp add: not_after_def [abs_def])

lemma not_after_mono:
  "not_after t p e \<Longrightarrow> t < t' \<or> t = t' \<and> p \<le> p' \<Longrightarrow> not_after t' p' e"
  by (auto simp: not_after_def at_or_before_def)

lemma add_event_twice:
  assumes "t < t'" and k: "etime k = t" "event_id k = p"
  shows "add_event t' p' y (add_event t p (k, m, v) xs) =
     takeWhile (not_after t p) xs @ (k, m, v)
     # takeWhile (not_after t' p') (dropWhile (not_after t p) xs) @ y
     # dropWhile (not_after t' p') (dropWhile (not_after t p) xs)"
proof -
  have 1: "\<forall>e\<in>set (takeWhile (not_after t p) xs). not_after t' p' e"
    using assms(1) not_after_mono by (metis set_takeWhileD)
  have 2: "not_after t' p' (k, m, v)" using assms by (simp add: not_after_def at_or_before_def)
  show ?thesis
    unfolding add_event_split using 1 2 by (simp add: takeWhile_append2 dropWhile_append2)
qed

lemma opens_no_start:
  assumes "\<forall>x\<in>set B. \<not> is_start x"
  shows "length (opens (B @ A)) \<le> length (opens A)"
proof -
  have "filter (\<lambda>x. is_start x \<and> fst x \<notin> closed_by (B @ A)) B = []"
    using assms by (auto simp: filter_empty_conv)
  then have "opens (B @ A) = filter (\<lambda>x. fst x \<notin> closed_by B) (opens A)"
    by (simp add: opens_def conj_commute conj_left_commute)
  then show ?thesis by simp
qed

lemma closed_by_mono: "set xs \<subseteq> set ys \<Longrightarrow> closed_by xs \<subseteq> closed_by ys"
  unfolding closed_by_def by blast

lemma fresh_nodes:
  assumes "\<forall>e\<in>set xs. core_id e \<noteq> m" and "set ys \<subseteq> set xs"
  shows "m \<notin> fst ` set (map (snode_of s) ys)"
proof
  assume "m \<in> fst ` set (map (snode_of s) ys)"
  then obtain e where "e \<in> set ys" "core_id e = m" by (fastforce simp: snode_of_def)
  with assms show False by blast
qed

text \<open>The state after a usage: the nodes before it, the START node, the nodes in between, one
  deeper, the END node, and the nodes after it.\<close>

lemma used_state_ok:
  assumes ok: "state_ok cur s"
    and hist: "history_ok cur (resHistory s')"
    and ev: "events s = A @ B @ C" "events s' = A @ (k, m, 0) # B @ (k', m', 0) # C"
    and times: "etime k = t" "etime k' = t'" "t < t'" "\<forall>e\<in>set A. etime (fst e) \<le> t"
      "\<forall>e\<in>set B. t < etime (fst e) \<and> etime (fst e) \<le> t'" "\<forall>e\<in>set C. t' \<le> etime (fst e)"
    and fresh: "\<forall>e\<in>set (events s). core_id e \<noteq> m \<and> core_id e \<noteq> m'" "m \<noteq> m'"
    and pay: "\<forall>e\<in>set A. payload s' (core_id e) = payload s (core_id e)"
      "\<forall>e\<in>set C. payload s' (core_id e) = payload s (core_id e)"
      "\<forall>e\<in>set B. payload s' (core_id e) = map_option increment_depth (payload s (core_id e))"
      "payload s' m = Some \<lparr>val = v, res_val_type = START_USING, usage_depth = d + 1, an_Other = Some m'\<rparr>"
      "payload s' m' = Some \<lparr>val = v', res_val_type = END_USING, usage_depth = d', an_Other = Some m\<rparr>"
    and starts: "\<forall>e\<in>set B. \<not> is_start (snode_of s e)"
    and depth: "int (length (opens (map (snode_of s) (rev A)))) \<le> d"
      "int (length (opens (map (snode_of s) (rev (A @ B))))) \<le> d'"
  shows "state_ok cur s'"
    and "state_value pv (nodes_at strategy u s') =
      (if counts_at strategy u t \<and> \<not> counts_at strategy u t' then Inr v
       else state_value pv (nodes_at strategy u s))"
proof -
  have hist0: "history_ok cur (resHistory s)" using ok by (simp add: state_ok_def)
  let ?S = "snode_of s' (k, m, 0 :: true_long)" and ?E = "snode_of s' (k', m', 0 :: true_long)"
  have nA: "map (snode_of s') (rev A) = map (snode_of s) (rev A)"
    using pay(1) by (simp add: snode_of_def)
  have nC: "map (snode_of s') (rev C') = map (snode_of s) (rev C')" if "set C' \<subseteq> set C" for C'
  proof -
    have "payload s' (core_id e) = payload s (core_id e)" if "e \<in> set C'" for e
      using bspec [OF pay(2) subsetD [OF \<open>set C' \<subseteq> set C\<close> that]] .
    then show ?thesis by (simp add: snode_of_def)
  qed
  have nB: "map (snode_of s') (rev B') = map bump (map (snode_of s) (rev B'))" if "set B' \<subseteq> set B" for B'
  proof -
    have "snode_of s' e = bump (snode_of s e)" if "e \<in> set B" for e
    proof -
      have "payload s (core_id e) \<noteq> None" using ok that ev(1) by (auto simp: state_ok_events)
      then show ?thesis using pay(3) that by (auto simp: snode_of_def bump_def)
    qed
    with that show ?thesis by auto
  qed
  have S: "is_start ?S" "fst ?S = m" "usage_depth (snd ?S) = d + 1" "val (snd ?S) = v"
    using pay(4) by (simp_all add: snode_of_def is_start_def)
  have E: "is_end ?E" "fst ?E = m'" "usage_depth (snd ?E) = d'" "an_Other (snd ?E) = Some (fst ?S)"
    using pay(5) by (simp_all add: snode_of_def is_end_def)
  let ?n = "\<lambda>xs. map (snode_of s) (rev xs)"
  have ids: "fst ` set (?n xs) = core_id ` set xs" for xs by (auto simp: snode_of_def image_image)
  have ok0: "uses_ok (?n C @ ?n B @ ?n A)" using ok unfolding state_ok_events ev(1) by simp
  have freshes: "\<forall>e\<in>set (events s). core_id e \<noteq> m" "\<forall>e\<in>set (events s). core_id e \<noteq> m'"
    using fresh(1) by blast+
  have fresh': "m \<notin> fst ` set (?n C @ ?n B @ ?n A)" "m' \<notin> fst ` set (?n C @ ?n B @ ?n A)"
  proof -
    have sub: "set (rev (A @ B @ C)) \<subseteq> set (events s)" unfolding ev(1) by auto
    show "m \<notin> fst ` set (?n C @ ?n B @ ?n A)" "m' \<notin> fst ` set (?n C @ ?n B @ ?n A)"
      using fresh_nodes [OF freshes(1) sub, of s] fresh_nodes [OF freshes(2) sub, of s] by simp_all
  qed
  have all: "?n C @ ?E # map bump (?n B) @ ?S # ?n A = map (snode_of s') (rev (events s'))"
    unfolding ev(2) using nA nB [of B] nC [of C] by simp
  have "uses_ok (?n C @ ?E # map bump (?n B) @ ?S # ?n A)"
    by (rule uses_ok_end [OF S(1) E(1,4) _ _ ok0]) (use S E depth fresh' fresh(2) in auto)
  moreover have "payload s' (core_id e) \<noteq> None" if e: "e \<in> set (events s')" for e
  proof -
    have old: "\<forall>e\<in>set A \<union> set B \<union> set C. payload s (core_id e) \<noteq> None"
      using ok unfolding state_ok_events ev(1) by (simp add: ball_Un)
    from e consider "e \<in> set A" | "e \<in> set B" | "e \<in> set C" | "e = (k, m, 0)" | "e = (k', m', 0)"
      unfolding ev(2) by auto
    then show ?thesis
      using bspec [OF old, of e] bspec [OF pay(1), of e] bspec [OF pay(2), of e] bspec [OF pay(3), of e]
        pay(4,5)
      by cases simp_all
  qed
  ultimately show "state_ok cur s'"
    using hist ok unfolding state_ok_events all by blast
  let ?P = "counts_at strategy u"
  let ?f = "filter (\<lambda>e. ?P (etime (fst e)))"
  have at: "nodes_at strategy u s = ?n (?f A @ ?f B @ ?f C)"
    unfolding nodes_at_events [OF hist0] ev(1) by simp
  show "state_value pv (nodes_at strategy u s') =
      (if ?P t \<and> \<not> ?P t' then Inr v else state_value pv (nodes_at strategy u s))"
  proof (cases "?P t")
    case False
    have "\<not> ?P x" if "t \<le> x" for x using counts_at_down [OF that] False by blast
    then have "?f B = []" "?f C = []" "\<not> ?P t'" using times by (auto simp: filter_empty_conv)
    then have "nodes_at strategy u s' = map (snode_of s') (rev (?f A))"
      "nodes_at strategy u s = ?n (?f A)"
      using False at times by (simp_all add: nodes_at_events [OF hist] ev(2))
    moreover have "map (snode_of s') (rev (?f A)) = map (snode_of s) (rev (?f A))"
      using pay(1) by (simp add: snode_of_def)
    ultimately show ?thesis using False by simp
  next
    case start: True
    then have fA: "?f A = A" using counts_at_down times(4) by (auto simp: filter_id_conv)
    show ?thesis
    proof (cases "?P t'")
      case True
      then have fB: "?f B = B" using counts_at_down times(5) by (auto simp: filter_id_conv)
      have n': "nodes_at strategy u s' = ?n (?f C) @ ?E # map bump (?n B) @ ?S # ?n A"
        using start True fA fB times nA nB [of B] nC [of "?f C"] by (simp add: nodes_at_events [OF hist] ev(2))
      have n: "nodes_at strategy u s = ?n (?f C) @ ?n B @ ?n A" using at fA fB by simp
      have sub: "set (rev (A @ B @ ?f C)) \<subseteq> set (events s)" unfolding ev(1) by auto
      have "fst ?S \<notin> fst ` set (?n (?f C) @ ?n B @ ?n A)"
        using fresh_nodes [OF freshes(1) sub, of s] S(2) by simp
      from state_value_end [OF S(1) E(1,4) this] show ?thesis unfolding n' n using True by simp
    next
      case False
      have "\<not> ?P x" if "t' \<le> x" for x using counts_at_down [OF that] False by blast
      then have "?f C = []" using times by (auto simp: filter_empty_conv)
      then have n': "nodes_at strategy u s' = map bump (?n (?f B)) @ ?S # ?n A"
        using start False fA times nA nB [of "?f B"] by (simp add: nodes_at_events [OF hist] ev(2))
      have "set (?n (?f B) @ ?n A) \<subseteq> set (?n C @ ?n B @ ?n A)" by auto
      from closed_by_mono [OF this] closed_known [OF ok0] fresh'(1)
      have open_S: "fst ?S \<notin> closed_by (?n (?f B) @ ?n A)" unfolding S(2) by blast
      have "\<forall>x\<in>set (?n (?f B)). \<not> is_start x" using starts by simp
      from state_value_start [OF S(1) open_S this] show ?thesis unfolding n' using S(4) start False by simp
    qed
  qed
qed

section \<open>The code of a usage\<close>

lemma passed_ok:
  assumes ok: "history_ok cur h" and ev: "events_of h = A @ (k, m, v) # B @ (k', m', v') # C"
  shows "following_until m' (length (chain (historyList h)) + 1)
      (List.find (\<lambda>a. ident a = m) (inorder (tree (historyList h)))) (tree (historyList h)) =
    m # map core_id B"
proof -
  note facts = hist_facts [OF ok]
  have ev': "map core (hist_nodes h) = A @ (k, m, v) # B @ (k', m', v') # C" using facts(4) ev by simp
  define xs r where "xs = take (length A) (hist_nodes h)" and "r = drop (length A) (hist_nodes h)"
  then have h': "hist_nodes h = xs @ r" and r: "map core r = (k, m, v) # B @ (k', m', v') # C"
    using ev' by (simp_all add: drop_map [symmetric])
  from r obtain a ys where a': "r = a # ys" by (cases r) auto
  have h: "hist_nodes h = xs @ a # ys" and a: "core a = (k, m, v)"
    and ys: "map core ys = B @ (k', m', v') # C" using h' r unfolding a' by simp_all
  have m: "ident a = m" using a by (simp add: core_def)
  have ids: "map ident ys = map core_id B @ m' # map core_id C"
  proof -
    have "map ident ys = map core_id (map core ys)" by simp
    then show ?thesis unfolding ys by simp
  qed
  have "distinct (m # map ident ys)" using facts(2) h m by auto
  then have d: "m \<noteq> m'" "m' \<notin> set (map core_id B)" unfolding ids by auto
  have "map ident (takeWhile (\<lambda>b. ident b \<noteq> m') ys) = takeWhile (\<lambda>n. n \<noteq> m') (map ident ys)"
    by (simp add: takeWhile_map o_def)
  also have "\<dots> = map core_id B"
  proof -
    have "\<forall>n\<in>set (map core_id B). n \<noteq> m'" using d(2) by blast
    then have "takeWhile (\<lambda>n. n \<noteq> m') (map core_id B @ m' # map core_id C) =
        map core_id B @ takeWhile (\<lambda>n. n \<noteq> m') (m' # map core_id C)" by (intro takeWhile_append2) blast
    then show ?thesis unfolding ids by simp
  qed
  finally have "following_until m' (length (chain (historyList h)) + 1) (Some a) (tree (historyList h)) =
      m # map core_id B"
    using following_until_ok [OF ok h, of "length (chain (historyList h)) + 1" m'] m d(1) facts(5) h by simp
  moreover have "List.find (\<lambda>a. ident a = m) (inorder (tree (historyList h))) = Some a"
    using find_ident [OF facts(2), of a] h m unfolding hist_nodes_def by simp
  ultimately show ?thesis by simp
qed

lemma depth_of_node:
  assumes "state_ok cur s" and "events s = xs @ e # ys"
  shows "int (length (opens (map (snode_of s) (rev (xs @ [e]))))) \<le> usage_depth (snd (snode_of s e))"
proof -
  have "uses_ok (map (snode_of s) (rev ys) @ snode_of s e # map (snode_of s) (rev xs))"
    using assms by (simp add: state_ok_events)
  from uses_ok_append [OF this] show ?thesis by (simp add: node_ok_def)
qed

lemma found_events:
  assumes "history_ok cur (resHistory s)" and "0 \<le> cur"
  shows "map_option core (latestHistNodeAtOrBefore t cur (resHistory s)) =
      last_opt (filter (\<lambda>e. etime (fst e) \<le> t) (events s))"
    "map_option core (latestHistNodeBefore t (resHistory s)) =
      last_opt (filter (\<lambda>e. etime (fst e) < t) (events s))"
  unfolding events_def hist_facts(4) [OF assms(1)] found_nodes [OF assms]
  by (simp_all add: filter_map o_def node_time_def core_def)

definition usage_in_order :: "int \<Rightarrow> int \<Rightarrow> 'v res_state \<Rightarrow> bool" where
  "usage_in_order t p s \<longleftrightarrow>
     (\<forall>e\<in>set (events s). \<not> (etime (fst e) = t \<and> p < event_id (fst e))
        \<and> (is_start (snode_of s e) \<longrightarrow> etime (fst e) \<le> t))"

lemma events_sorted:
  "history_ok cur (resHistory s) \<Longrightarrow> sorted_wrt (\<lambda>a b. etime (fst a) \<le> etime (fst b)) (events s)"
  unfolding events_def by (rule history_sorted)

lemma sorted_take_drop:
  assumes "sorted_wrt (\<lambda>a b. f a \<le> (f b :: int)) xs" and "\<And>e. e \<in> set xs \<Longrightarrow> P e \<longleftrightarrow> f e \<le> t"
  shows "takeWhile P xs = filter (\<lambda>e. f e \<le> t) xs" "\<forall>e\<in>set (dropWhile P xs). t < f e"
proof -
  have "takeWhile P xs = filter (\<lambda>e. f e \<le> t) xs \<and> (\<forall>e\<in>set (dropWhile P xs). t < f e)"
    using assms
  proof (induction xs)
    case (Cons x xs)
    show ?case
    proof (cases "f x \<le> t")
      case True
      with Cons show ?thesis by simp
    next
      case False
      then have "\<forall>e\<in>set (x # xs). t < f e" using Cons.prems(1) by auto
      moreover from this have "filter (\<lambda>e. f e \<le> t) (x # xs) = []" by (auto simp: filter_empty_conv)
      ultimately show ?thesis using Cons.prems(2) [of x] False by simp
    qed
  qed simp
  then show "takeWhile P xs = filter (\<lambda>e. f e \<le> t) xs" "\<forall>e\<in>set (dropWhile P xs). t < f e" by blast+
qed

lemma events_up_to:
  assumes ok: "history_ok cur (resHistory s)" and "usage_in_order t p s"
  shows "takeWhile (not_after t p) (events s) = filter (\<lambda>e. etime (fst e) \<le> t) (events s)"
    "\<forall>e\<in>set (dropWhile (not_after t p) (events s)). t < etime (fst e)"
proof -
  have "not_after t p e \<longleftrightarrow> etime (fst e) \<le> t" if "e \<in> set (events s)" for e
    using assms(2) that by (auto simp: usage_in_order_def not_after_def at_or_before_def)
  note * = sorted_take_drop [of "\<lambda>e. etime (fst e)", OF events_sorted [OF ok] this]
  show "takeWhile (not_after t p) (events s) = filter (\<lambda>e. etime (fst e) \<le> t) (events s)"
    "\<forall>e\<in>set (dropWhile (not_after t p) (events s)). t < etime (fst e)"
    using * by blast+
qed

end
