(* ===== verification/StateOperations.thy ===== *)
theory StateOperations
  imports StateAppend
begin

text \<open>
  The operations of a state resource: what \<open>append_to_history\<close> does in its three branches, for
  usages that are stored in order of time, and what it makes of the values of the resource.
\<close>

section \<open>Depths\<close>

definition depth_found :: "'v res_state \<Rightarrow> prio_time lnode option \<Rightarrow> int" where
  "depth_found s found = (case found of None \<Rightarrow> 0 | Some a \<Rightarrow> usage_depth (the (payload s (ident a))))"

lemma payload_known: "state_ok cur s \<Longrightarrow> e \<in> set (events s) \<Longrightarrow> payload s (core_id e) \<noteq> None"
  unfolding state_ok_events by (elim conjE) (erule (1) bspec)

lemma depth_found_ok:
  assumes ok: "state_ok cur s" and found: "map_option core found = last_opt A" and ev: "events s = A @ R"
  shows "int (length (opens (map (snode_of s) (rev A)))) \<le> depth_found s found"
proof (cases found)
  case None
  with found have "A = []" by simp
  with None show ?thesis by (simp add: depth_found_def opens_def)
next
  case (Some a)
  with found obtain xs where A: "A = xs @ [core a]" using last_opt_Some [of A "core a"] by auto
  with ev have "events s = xs @ core a # R" by simp
  from depth_of_node [OF ok this] Some A show ?thesis by (simp add: depth_found_def snode_of_def)
qed

lemma found_payload:
  assumes ok: "state_ok cur s" and "map_option core found = last_opt A" and "set A \<subseteq> set (events s)"
    and "found = Some a"
  shows "payload s (ident a) \<noteq> None"
proof -
  have "last_opt A = Some (core a)" using assms(2,4) by simp
  from last_opt_in_set [OF this] assms(3) have "core a \<in> set (events s)" by (rule rev_subsetD)
  from payload_known [OF ok this] show ?thesis by simp
qed

lemma depth_at_found:
  assumes "state_ok cur s" and "map_option core found = last_opt A" and "set A \<subseteq> set (events s)"
  shows "(case found of None \<Rightarrow> Inr 0 | Some a \<Rightarrow> depth_at s a) = Inr (depth_found s found)"
proof (cases found)
  case (Some a)
  with found_payload [OF assms Some] show ?thesis by (auto simp: depth_at_def depth_found_def)
qed (simp add: depth_found_def)

section \<open>USE\<close>

lemma in_order_no_start:
  assumes "usage_in_order t p s" and "e \<in> set (events s)" and "t < etime (fst e)"
  shows "\<not> is_start (snode_of s e)"
  using assms by (auto simp: usage_in_order_def)

lemma append_use_end_depth:
  fixes s :: "'v res_state"
  assumes ok: "state_ok cur s" and ord: "usage_in_order t p s" and t: "t < t'"
    and ev: "events s = A @ R" "events s1 = A @ (k, m, 0) # R"
    and A: "\<forall>e\<in>set A. etime (fst e) \<le> t" and R: "\<forall>e\<in>set R. t < etime (fst e)" and k: "etime k = t"
    and pay: "payload s1 = (payload s)(m \<mapsto> pl)" and fresh: "\<forall>e\<in>set (events s). core_id e \<noteq> m"
    and d: "int (length (opens (map (snode_of s) (rev A)))) \<le> d"
    and found: "map_option core found = last_opt (filter (\<lambda>e. etime (fst e) < t') (events s1))"
    and B: "B = takeWhile (not_after t' q) R"
  shows "\<exists>d'. (case found of None \<Rightarrow> Inr d
            | Some a \<Rightarrow> if ident a \<noteq> m then depth_at s1 a else Inr d) = Inr d'
          \<and> int (length (opens (map (snode_of s) (rev (A @ B))))) \<le> d'"
proof -
  let ?B1 = "filter (\<lambda>e. etime (fst e) < t') R"
  have sorted: "sorted_wrt (\<lambda>a b. etime (fst a) \<le> etime (fst b)) R"
    using events_sorted [of cur s] ok ev(1) by (simp add: state_ok_events sorted_wrt_append)
  have f: "filter (\<lambda>e. etime (fst e) < t') (events s1) = A @ (k, m, 0) # ?B1"
    using A t k unfolding ev(2) by (auto simp: filter_id_conv)
  from filter_prefix [of "\<lambda>e. etime (fst e)" R "\<lambda>x. x < t'", OF sorted] obtain R2 where
    R2: "R = ?B1 @ R2" by auto
  have "takeWhile (not_after t' q) (?B1 @ R2) = ?B1 @ takeWhile (not_after t' q) R2"
    by (rule takeWhile_append2) (auto simp: not_after_def at_or_before_def)
  then have B': "B = ?B1 @ takeWhile (not_after t' q) R2" unfolding B by (subst R2)
  have "\<not> is_start (snode_of s e)" if "e \<in> set R" for e
    by (rule in_order_no_start [OF ord]) (use that R ev(1) in auto)
  then have no: "\<forall>x\<in>set (map (snode_of s) (rev xs)). \<not> is_start x" if "set xs \<subseteq> set R" for xs
    using that by (simp add: subset_iff del: split_paired_All) 
  show ?thesis
  proof (cases "?B1 = []")
    case True
    with found f have "map_option core found = Some (k, m, 0)" by simp
    then obtain a where a: "found = Some a" "ident a = m" by (auto simp: core_def)
    have "set B \<subseteq> set R" unfolding B by (auto dest: set_takeWhileD)
    from opens_no_start [OF no [OF this], of "map (snode_of s) (rev A)"] d a show ?thesis by auto
  next
    case False
    then obtain xs e where B1: "?B1 = xs @ [e]" by (cases ?B1 rule: rev_cases) auto
    with found f have "map_option core found = Some e" by simp
    then obtain a where a: "found = Some a" "core a = e" by auto
    have "e \<in> set ?B1" unfolding B1 by simp
    then have e: "e \<in> set (events s)" unfolding ev(1) by simp
    have ida: "ident a = core_id e" using a(2) by auto
    with bspec [OF fresh e] have m: "ident a \<noteq> m" by simp
    have "payload s (core_id e) \<noteq> None" by (rule payload_known [OF ok e])
    then have "depth_at s1 a = Inr (usage_depth (snd (snode_of s e)))"
      using m ida by (auto simp: depth_at_def pay snode_of_def)
    moreover have "events s = (A @ xs) @ e # R2" unfolding ev(1) using R2 B1 by simp
    note depth_of_node [OF ok this]
    moreover have "set (takeWhile (not_after t' q) R2) \<subseteq> set R" using R2 by (metis set_append set_takeWhileD subsetI UnCI)
    note opens_no_start [OF no [OF this], of "map (snode_of s) (rev (A @ ?B1))"]
    ultimately show ?thesis
      using a(1) m unfolding B' B1 by simp
  qed
qed

lemma append_use_ok:
  assumes ok: "state_ok cur s" and frozen: "\<not> Frozen (resHistory s)"
    and p: "0 \<le> p" "p \<le> q" "q \<le> cur" and t: "t < t'" and ord: "usage_in_order t p s"
    and d: "d = depth_found s (latestHistNodeAtOrBefore t cur (resHistory s))"
  shows "\<exists>s'. append_use nv v t t' p q d s = Inr s' \<and> state_ok cur s' \<and> \<not> Frozen (resHistory s')
    \<and> set (events s) \<subseteq> set (events s') \<and> (links_ok s \<longrightarrow> links_ok s')
    \<and> (\<forall>strategy u pv. state_value pv (nodes_at strategy u s') =
         (if counts_at strategy u t \<and> \<not> counts_at strategy u t' then Inr v
          else state_value pv (nodes_at strategy u s)))"
proof -
  let ?m = "next_node_address (resHistory s)" and ?m' = "next_node_address (resHistory s) + 1"
  define A R where AR: "A = takeWhile (not_after t p) (events s)" "R = dropWhile (not_after t p) (events s)"
  have hist: "history_ok cur (resHistory s)" and cur: "0 \<le> cur" using ok by (simp_all add: state_ok_def)
  have ev: "events s = A @ R" unfolding AR by simp
  note upto = events_up_to [OF hist ord, folded AR]
  have A: "\<forall>e\<in>set A. etime (fst e) \<le> t" unfolding upto(1) by simp
  have d_ok: "int (length (opens (map (snode_of s) (rev A)))) \<le> d"
    unfolding d by (rule depth_found_ok [OF ok _ ev]) (simp add: found_events(1) [OF hist cur] upto(1))
  have pq: "p \<le> cur" "0 \<le> q" using p by auto
  let ?S = "\<lparr>val = v, res_val_type = START_USING, usage_depth = d, an_Other = None\<rparr>"
  from state_Add_ok [OF hist frozen p(1) pq(1), of t ?S] obtain s1 k where
    1: "state_Add t p ?S s = Inr (?m, s1)" "history_ok cur (resHistory s1)" "\<not> Frozen (resHistory s1)"
    "etime k = t" "event_id k = p" "events s1 = add_event t p (k, ?m, 0) (events s)"
    "payload s1 = (payload s)(?m \<mapsto> ?S)" "next_node_address (resHistory s1) = ?m'" by blast
  have ev1: "events s1 = A @ (k, ?m, 0) # R" unfolding 1(6) add_event_split AR by simp
  let ?found = "latestHistNodeBefore t' (resHistory s1)"
  define B C where BC: "B = takeWhile (not_after t' q) R" "C = dropWhile (not_after t' q) R"
  have fresh: "core_id e \<noteq> ?m \<and> core_id e \<noteq> ?m'" if "e \<in> set (events s)" for e
    using fresh_address [OF hist that] by simp
  from append_use_end_depth [OF ok ord t ev ev1 A upto(2) 1(4,7) _ d_ok found_events(2) [OF 1(2) cur] BC(1)]
  obtain d' where d': "(case ?found of None \<Rightarrow> Inr d
      | Some a \<Rightarrow> if ident a \<noteq> ?m then depth_at s1 a else Inr d) = Inr d'"
    "int (length (opens (map (snode_of s) (rev (A @ B))))) \<le> d'"
    using fresh by blast
  let ?s2 = "put_payload (\<lambda>p. p\<lparr>an_Other := Some ?m'\<rparr>) ?m s1"
  let ?E = "\<lparr>val = nv, res_val_type = END_USING, usage_depth = d', an_Other = Some ?m\<rparr>"
  have s2: "resHistory ?s2 = resHistory s1" by (simp add: put_payload_def)
  from state_Add_ok [of cur ?s2 q t' ?E] 1(2,3) pq(2) p(3) obtain s3 k' where
    3: "state_Add t' q ?E ?s2 = Inr (?m', s3)" "history_ok cur (resHistory s3)" "\<not> Frozen (resHistory s3)"
    "etime k' = t'" "event_id k' = q" "events s3 = add_event t' q (k', ?m', 0) (events ?s2)"
    "payload s3 = (payload ?s2)(?m' \<mapsto> ?E)" unfolding s2 1(8) by blast
  have "events ?s2 = add_event t p (k, ?m, 0) (events s)" using 1(6) s2 by (simp add: events_def)
  with 3(6) have ev3: "events s3 = A @ (k, ?m, 0) # B @ (k', ?m', 0) # C"
    using add_event_twice [OF t 1(4,5)] unfolding AR BC by simp
  let ?ns = "?m # map core_id B"
  let ?T = "historyList (resHistory s3)"
  have passed: "following_until ?m' (length (chain ?T) + 1)
      (List.find (\<lambda>a. ident a = ?m) (inorder (tree ?T))) (tree ?T) = ?ns"
    by (rule passed_ok [OF 3(2)]) (use ev3 in \<open>simp add: events_def\<close>)
  define s' where "s' = fold (put_payload increment_depth) ?ns s3"
  have run: "append_use nv v t t' p q d s = Inr s'"
    unfolding append_use_def 1(1) bind_result_def sum.case prod.case Let_def d'(1) 1(8) 3(1) passed s'_def
    by (rule refl)
  have h': "resHistory s' = resHistory s3" unfolding s'_def by (rule put_payloads_history)
  then have hist': "history_ok cur (resHistory s')" and ev': "events s' = A @ (k, ?m, 0) # B @ (k', ?m', 0) # C"
    using 3(2) ev3 by (simp_all add: events_def)
  have evABC: "events s = A @ B @ C" unfolding ev BC by simp
  have dist: "distinct (map core_id (events s))"
    using hist by (simp add: history_ok_def tlist_ok_def events_def events_of_def)
  have "?m \<notin> set (map core_id B)"
  proof
    assume "?m \<in> set (map core_id B)"
    then obtain e where "e \<in> set B" "core_id e = ?m" by (auto simp del: core_sel)
    with fresh [of e] evABC show False by simp
  qed
  then have dist_ns: "distinct ?ns" using dist unfolding evABC by simp
  have pay: "payload s' n = (if n \<in> set ?ns then map_option increment_depth (payload s3 n) else payload s3 n)" for n
    unfolding s'_def by (rule put_payloads [OF dist_ns])
  have pay3: "payload s3 (core_id e) = payload s (core_id e)" if "e \<in> set (events s)" for e
    using fresh [OF that] by (simp add: 3(7) 1(7) put_payload_def)
  have AC: "core_id e \<notin> set ?ns" if e: "e \<in> set A \<or> e \<in> set C" for e
  proof -
    have "core_id e \<noteq> ?m" using fresh [of e] e evABC by auto
    moreover have "core_id e \<notin> core_id ` set B" using dist e unfolding evABC by auto
    ultimately show ?thesis by simp
  qed
  have payA: "\<forall>e\<in>set A. payload s' (core_id e) = payload s (core_id e)"
    and payC: "\<forall>e\<in>set C. payload s' (core_id e) = payload s (core_id e)"
    and payB: "\<forall>e\<in>set B. payload s' (core_id e) = map_option increment_depth (payload s (core_id e))"
    using pay pay3 AC evABC by simp_all
  have paym: "payload s' ?m = Some \<lparr>val = v, res_val_type = START_USING, usage_depth = d + 1, an_Other = Some ?m'\<rparr>"
    using pay [of ?m] by (simp add: 3(7) 1(7) put_payload_def increment_depth_def)
  have "?m' \<notin> set ?ns"
  proof
    assume "?m' \<in> set ?ns"
    then obtain e where "e \<in> set B" "core_id e = ?m'" by (auto simp del: core_sel)
    with fresh [of e] evABC show False by simp
  qed
  then have paym': "payload s' ?m' = Some ?E" using pay [of ?m'] by (simp add: 3(7))
  have B: "\<forall>e\<in>set B. t < etime (fst e) \<and> etime (fst e) \<le> t'"
    using upto(2) unfolding BC by (auto dest!: set_takeWhileD simp: not_after_def at_or_before_def)
  have C: "\<forall>e\<in>set C. t' \<le> etime (fst e)"
  proof -
    have sorted: "sorted_wrt (\<lambda>a b. etime (fst a) \<le> etime (fst b)) C"
      using events_sorted [OF hist] unfolding evABC by (simp add: sorted_wrt_append)
    show ?thesis
    proof (cases C)
      case (Cons e es)
      have "\<not> not_after t' q e" using Cons unfolding BC by (metis dropWhile_eq_Cons_conv)
      then have "t' \<le> etime (fst e)" by (auto simp: not_after_def at_or_before_def)
      with sorted Cons show ?thesis by fastforce
    qed simp
  qed
  have starts: "\<forall>e\<in>set B. \<not> is_start (snode_of s e)"
  proof
    fix e assume "e \<in> set B"
    then show "\<not> is_start (snode_of s e)"
      by (intro in_order_no_start [OF ord]) (use B evABC in auto)
  qed
  note used = used_state_ok [OF ok hist' evABC ev' 1(4) 3(4) t A B C _ _ payA payC payB paym paym' starts d_ok d'(2)]
  have "\<forall>e\<in>set (events s). core_id e \<noteq> ?m \<and> core_id e \<noteq> ?m'" "?m \<noteq> ?m'" using fresh by simp_all
  note used = used [OF this]
  moreover have sub: "set (events s) \<subseteq> set (events s')" unfolding ev' evABC by auto
  moreover have "links_ok s'" if links: "links_ok s"
  proof (rule links_ok_mono [OF links sub])
    fix e assume e: "e \<in> set (events s)"
    then consider "e \<in> set A" | "e \<in> set B" | "e \<in> set C" unfolding evABC by auto
    then show "is_start (snode_of s' e) = is_start (snode_of s e)
        \<and> an_Other (snd (snode_of s' e)) = an_Other (snd (snode_of s e))"
      using bspec [OF payA, of e] bspec [OF payB, of e] bspec [OF payC, of e] payload_known [OF ok e]
      by cases (auto simp: snode_of_def is_start_def increment_depth_def)
  next
    fix e assume "e \<in> set (events s')" "e \<notin> set (events s)" and start: "is_start (snode_of s' e)"
    then consider "e = (k, ?m, 0)" | "e = (k', ?m', 0)" unfolding ev' evABC by auto
    then show "\<exists>m. an_Other (snd (snode_of s' e)) = Some m \<and> m \<in> core_id ` set (events s')"
    proof cases
      case 1
      have "(k', ?m', 0) \<in> set (events s')" unfolding ev' by simp
      then have "core_id (k', ?m', 0 :: true_long) \<in> core_id ` set (events s')" by (rule imageI)
      then show ?thesis using 1 paym by (simp add: snode_of_def)
    next
      case 2
      with start paym' show ?thesis by (simp add: snode_of_def is_start_def)
    qed
  qed
  ultimately show ?thesis using run 3(3) h' by (intro exI [of _ s']) simp
qed

section \<open>SET and RESET\<close>

definition set_in_order :: "int \<Rightarrow> int \<Rightarrow> 'v res_state \<Rightarrow> bool" where
  "set_in_order t p s \<longleftrightarrow>
     (\<forall>e\<in>set (events s). \<not> (etime (fst e) = t \<and> p < event_id (fst e))
        \<and> (is_set (snode_of s e) \<longrightarrow> etime (fst e) \<le> t))"

lemma set_events_up_to:
  assumes ok: "history_ok cur (resHistory s)" and "set_in_order t p s"
  shows "takeWhile (not_after t p) (events s) = filter (\<lambda>e. etime (fst e) \<le> t) (events s)"
    "\<forall>e\<in>set (dropWhile (not_after t p) (events s)). t < etime (fst e) \<and> \<not> is_set (snode_of s e)"
proof -
  have "not_after t p e \<longleftrightarrow> etime (fst e) \<le> t" if "e \<in> set (events s)" for e
    using assms(2) that by (auto simp: set_in_order_def not_after_def at_or_before_def)
  note * = sorted_take_drop [of "\<lambda>e. etime (fst e)", OF events_sorted [OF ok] this]
  show "takeWhile (not_after t p) (events s) = filter (\<lambda>e. etime (fst e) \<le> t) (events s)"
    using * by blast
  show "\<forall>e\<in>set (dropWhile (not_after t p) (events s)). t < etime (fst e) \<and> \<not> is_set (snode_of s e)"
  proof
    fix e assume e: "e \<in> set (dropWhile (not_after t p) (events s))"
    with * have "t < etime (fst e)" by blast
    moreover from set_dropWhileD [OF e] assms(2) have "is_set (snode_of s e) \<longrightarrow> etime (fst e) \<le> t"
      unfolding set_in_order_def by blast
    ultimately show "t < etime (fst e) \<and> \<not> is_set (snode_of s e)" by simp
  qed
qed

lemma nodes_at_split:
  assumes hist: "history_ok cur (resHistory s)" and ev: "events s = A @ R"
    and A: "\<forall>e\<in>set A. etime (fst e) \<le> t" and R: "\<forall>e\<in>set R. t < etime (fst e)"
  shows "counts_at strategy u t \<Longrightarrow> nodes_at strategy u s =
      map (snode_of s) (rev (filter (\<lambda>e. counts_at strategy u (etime (fst e))) R)) @ map (snode_of s) (rev A)"
    and "\<not> counts_at strategy u t \<Longrightarrow> nodes_at strategy u s =
      map (snode_of s) (rev (filter (\<lambda>e. counts_at strategy u (etime (fst e))) A))"
proof -
  assume "counts_at strategy u t"
  then have "filter (\<lambda>e. counts_at strategy u (etime (fst e))) A = A"
    using counts_at_down A by (auto simp: filter_id_conv)
  then show "nodes_at strategy u s =
      map (snode_of s) (rev (filter (\<lambda>e. counts_at strategy u (etime (fst e))) R)) @ map (snode_of s) (rev A)"
    unfolding nodes_at_events [OF hist] ev by simp
next
  assume "\<not> counts_at strategy u t"
  then have "\<not> counts_at strategy u x" if "t < x" for x
    using counts_at_down [of t x strategy u] that by auto
  then have "filter (\<lambda>e. counts_at strategy u (etime (fst e))) R = []"
    using R by (auto simp: filter_empty_conv)
  then show "nodes_at strategy u s =
      map (snode_of s) (rev (filter (\<lambda>e. counts_at strategy u (etime (fst e))) A))"
    unfolding nodes_at_events [OF hist] ev by simp
qed

text \<open>A new SET or RESET node.\<close>

definition after_set :: "'v res_state \<Rightarrow> int \<Rightarrow> ('v result \<Rightarrow> 'v result) \<Rightarrow> 'v res_state \<Rightarrow> bool" where
  "after_set s t w s' \<longleftrightarrow>
     (\<forall>strategy u pv. state_value pv (nodes_at strategy u s') =
       (if counts_at strategy u t \<and> opens (nodes_at strategy u s) = [] then w pv
        else state_value pv (nodes_at strategy u s)))"

lemma add_set_ok:
  fixes s :: "'v res_state"
  assumes ok: "state_ok cur s" and frozen: "\<not> Frozen (resHistory s)" and p: "0 \<le> p" "p \<le> cur"
    and ord: "set_in_order t p s"
    and pl: "res_val_type pl = SET \<or> res_val_type pl = RESET"
      "usage_depth pl = depth_found s (latestHistNodeAtOrBefore t cur (resHistory s))"
  shows "\<exists>n s'. state_Add t p pl s = Inr (n, s') \<and> state_ok cur s' \<and> \<not> Frozen (resHistory s')
    \<and> set (events s) \<subseteq> set (events s') \<and> (links_ok s \<longrightarrow> links_ok s')
    \<and> after_set s t (\<lambda>pv. if res_val_type pl = SET then Inr (val pl) else pv) s'"
proof -
  let ?m = "next_node_address (resHistory s)"
  define A R where AR: "A = takeWhile (not_after t p) (events s)" "R = dropWhile (not_after t p) (events s)"
  have hist: "history_ok cur (resHistory s)" and cur: "0 \<le> cur" using ok by (simp_all add: state_ok_def)
  have ev: "events s = A @ R" unfolding AR by simp
  note upto = set_events_up_to [OF hist ord, folded AR]
  have A: "\<forall>e\<in>set A. etime (fst e) \<le> t" unfolding upto(1) by simp
  have R: "\<forall>e\<in>set R. t < etime (fst e)" "\<forall>e\<in>set R. \<not> is_set (snode_of s e)" using upto(2) by blast+
  have depth: "int (length (opens (map (snode_of s) (rev A)))) \<le> usage_depth pl"
    unfolding pl(2) by (rule depth_found_ok [OF ok _ ev]) (simp add: found_events(1) [OF hist cur] upto(1))
  from state_Add_ok [OF hist frozen p, of t pl] obtain s' k where
    s': "state_Add t p pl s = Inr (?m, s')" "history_ok cur (resHistory s')" "\<not> Frozen (resHistory s')"
    "etime k = t" "events s' = add_event t p (k, ?m, 0) (events s)"
    "payload s' = (payload s)(?m \<mapsto> pl)" by blast
  have ev': "events s' = A @ (k, ?m, 0) # R" unfolding s'(5) add_event_split AR by simp
  have fresh: "\<forall>e\<in>set (events s). core_id e \<noteq> ?m" using fresh_address [OF hist] by (metis less_irrefl)
  let ?x = "snode_of s' (k, ?m, 0 :: true_long)"
  have x: "?x = (?m, pl)" by (simp add: snode_of_def s'(6))
  have set: "is_set ?x" using pl(1) by (simp add: x is_set_def)
  have same: "map (snode_of s') (rev xs) = map (snode_of s) (rev xs)" if "set xs \<subseteq> set (events s)" for xs
  proof -
    have "snode_of s' e = snode_of s e" if "e \<in> set xs" for e
      using bspec [OF fresh subsetD [OF \<open>set xs \<subseteq> set (events s)\<close> that]] by (simp add: snode_of_def s'(6))
    then show ?thesis by simp
  qed
  have subs: "set A \<subseteq> set (events s)" "set R \<subseteq> set (events s)"
    "set (filter P A) \<subseteq> set (events s)" "set (filter P R) \<subseteq> set (events s)" for P unfolding ev by auto
  have "uses_ok (map (snode_of s) (rev R) @ map (snode_of s) (rev A))"
    using ok unfolding state_ok_events ev by simp
  from uses_ok_set [OF set _ this] depth fresh_nodes [OF fresh, of "rev R @ rev A" s] ev
  have "uses_ok (map (snode_of s) (rev R) @ ?x # map (snode_of s) (rev A))" by (simp add: x)
  moreover have "map (snode_of s') (rev (events s')) =
      map (snode_of s') (rev R) @ ?x # map (snode_of s') (rev A)" unfolding ev' by simp
  ultimately have "uses_ok (map (snode_of s') (rev (events s')))"
    unfolding same [OF subs(1)] same [OF subs(2)] by simp
  moreover have "payload s' (core_id e) \<noteq> None" if e: "e \<in> set (events s')" for e
  proof -
    from e consider "e \<in> set (events s)" | "e = (k, ?m, 0)" unfolding ev ev' by auto
    then show ?thesis
      using payload_known [OF ok, of e] by cases (simp_all add: s'(6))
  qed
  ultimately have ok': "state_ok cur s'" using s'(2) cur unfolding state_ok_events by blast
  have "after_set s t (\<lambda>pv. if res_val_type pl = SET then Inr (val pl) else pv) s'"
    unfolding after_set_def
  proof (intro allI)
    fix strategy u pv
    let ?f = "filter (\<lambda>e. counts_at strategy u (etime (fst e)))"
    have A': "\<forall>e\<in>set (A @ [(k, ?m, 0)]). etime (fst e) \<le> t" using A s'(4) by simp
    have ev'': "events s' = (A @ [(k, ?m, 0)]) @ R" using ev' by simp
    show "state_value pv (nodes_at strategy u s') =
       (if counts_at strategy u t \<and> opens (nodes_at strategy u s) = []
        then (if res_val_type pl = SET then Inr (val pl) else pv)
        else state_value pv (nodes_at strategy u s))"
    proof (cases "counts_at strategy u t")
      case True
      have n': "nodes_at strategy u s' = map (snode_of s) (rev (?f R)) @ ?x # map (snode_of s) (rev A)"
        unfolding nodes_at_split(1) [OF s'(2) ev'' A' R(1) True] same [OF subs(4)]
        using same [OF subs(1)] by (simp del: map_eq_conv)
      note n = nodes_at_split(1) [OF hist ev A R(1) True]
      have "\<forall>y\<in>set (map (snode_of s) (rev (?f R))). \<not> is_set y" using R(2) by simp
      from state_value_set [OF set this, of pv "map (snode_of s) (rev A)"] True show ?thesis
        unfolding n' n by (simp add: x)
    next
      case False
      have "?f (A @ [(k, ?m, 0)]) = ?f A" using False s'(4) by simp
      with nodes_at_split(2) [OF s'(2) ev'' A' R(1) False] nodes_at_split(2) [OF hist ev A R(1) False]
      have "nodes_at strategy u s' = nodes_at strategy u s" using same [OF subs(3)] by (simp del: map_eq_conv)
      with False show ?thesis by simp
    qed
  qed
  moreover have sub: "set (events s) \<subseteq> set (events s')" unfolding ev ev' by auto
  moreover have "links_ok s'" if links: "links_ok s"
  proof (rule links_ok_mono [OF links sub])
    fix e assume "e \<in> set (events s)"
    from bspec [OF fresh this] show "is_start (snode_of s' e) = is_start (snode_of s e)
        \<and> an_Other (snd (snode_of s' e)) = an_Other (snd (snode_of s e))"
      by (simp add: snode_of_def s'(6) is_start_def)
  next
    fix e assume "e \<in> set (events s')" "e \<notin> set (events s)" and start: "is_start (snode_of s' e)"
    then have "e = (k, ?m, 0)" unfolding ev ev' by auto
    with start set node_kinds(2) [of ?x]
    show "\<exists>m. an_Other (snd (snode_of s' e)) = Some m \<and> m \<in> core_id ` set (events s')" by simp
  qed
  ultimately show ?thesis using s'(1,3) ok' by (intro exI [of _ ?m] exI [of _ s']) simp
qed

text \<open>A SET to the value that the latest SET before it has left is not stored.\<close>

lemma skipped_set_ok:
  assumes ok: "state_ok cur s" and ord: "set_in_order t p s"
    and found: "latestHistNodeAtOrBefore t cur (resHistory s) = Some a"
    and pl: "payload s (ident a) = Some pl" "res_val_type pl = SET"
  shows "after_set s t (\<lambda>pv. Inr (val pl)) s"
  unfolding after_set_def
proof (intro allI)
  fix strategy u pv
  define A R where AR: "A = takeWhile (not_after t p) (events s)" "R = dropWhile (not_after t p) (events s)"
  have hist: "history_ok cur (resHistory s)" and cur: "0 \<le> cur" using ok by (simp_all add: state_ok_def)
  have ev: "events s = A @ R" unfolding AR by simp
  note upto = set_events_up_to [OF hist ord, folded AR]
  have A: "\<forall>e\<in>set A. etime (fst e) \<le> t" unfolding upto(1) by simp
  have R: "\<forall>e\<in>set R. t < etime (fst e)" "\<forall>e\<in>set R. \<not> is_set (snode_of s e)" using upto(2) by blast+
  have "last_opt A = Some (core a)" using found_events(1) [OF hist cur, of t] found upto(1) by simp
  from last_opt_Some [OF this] obtain xs where xs: "A = xs @ [core a]" by blast
  have x: "snode_of s (core a) = (ident a, pl)" by (simp add: snode_of_def pl(1))
  show "state_value pv (nodes_at strategy u s) =
       (if counts_at strategy u t \<and> opens (nodes_at strategy u s) = [] then Inr (val pl)
        else state_value pv (nodes_at strategy u s))"
  proof (cases "counts_at strategy u t")
    case True
    let ?B = "map (snode_of s) (rev (filter (\<lambda>e. counts_at strategy u (etime (fst e))) R))"
    have "\<forall>y\<in>set ?B. \<not> is_set y" using R(2) by simp
    then have "List.find is_set ?B = None" unfolding find_None_iff by blast
    then have "set_value pv (nodes_at strategy u s) = Inr (val pl)"
      unfolding nodes_at_split(1) [OF hist ev A R(1) True]
      using pl(2) by (simp add: xs x set_value_def find_append is_set_def)
    then show ?thesis by (simp add: state_value_def)
  qed simp
qed

section \<open>In a context\<close>

text \<open>The modelling thread at the time of the usage, with an iterator over the history.\<close>

definition synchronized :: "eval_context \<Rightarrow> int \<Rightarrow> 'v res_state \<Rightarrow> bool" where
  "synchronized c t s = in_sync c t (resHistory s)"

lemma find_closest_ok:
  assumes "state_ok (last_event_id c) s" and "synchronized c t s"
  shows "find_closest c t (resHistory s) = Inr (latestHistNodeAtOrBefore t (last_event_id c) (resHistory s))"
  by (rule find_closest_in_sync) (use assms in \<open>simp_all add: state_ok_def synchronized_def\<close>)

lemma state_append_cases:
  assumes ok: "state_ok (last_event_id c) s" and sync: "synchronized c t s"
  shows "state_append nv nf c v t t' p q uType s =
     (let found = latestHistNodeAtOrBefore t (last_event_id c) (resHistory s); d = depth_found s found in
      case uType of
        USAGE_USE \<Rightarrow> append_use nv v t t' p q d s
      | USAGE_SET \<Rightarrow> append_set nf v t p d found s
      | USAGE_RESET \<Rightarrow> append_reset v t p d s)"
proof -
  let ?found = "latestHistNodeAtOrBefore t (last_event_id c) (resHistory s)"
  have hist: "history_ok (last_event_id c) (resHistory s)" "0 \<le> last_event_id c"
    using ok by (simp_all add: state_ok_def)
  have "(case ?found of None \<Rightarrow> Inr 0 | Some a \<Rightarrow> depth_at s a) = Inr (depth_found s ?found)"
    by (rule depth_at_found [OF ok found_events(1) [OF hist]]) auto
  then show ?thesis
    by (simp add: state_append_def find_closest_ok [OF ok sync] bind_result_def Let_def)
qed

lemma append_set_ok:
  assumes ok: "state_ok cur s" and frozen: "\<not> Frozen (resHistory s)" and p: "0 \<le> p" "p \<le> cur"
    and ord: "set_in_order t p s"
    and found: "found = latestHistNodeAtOrBefore t cur (resHistory s)" and d: "d = depth_found s found"
  shows "\<exists>s'. append_set nf v t p d found s = Inr s' \<and> state_ok cur s' \<and> \<not> Frozen (resHistory s')
    \<and> set (events s) \<subseteq> set (events s') \<and> (links_ok s \<longrightarrow> links_ok s')
    \<and> after_set s t (\<lambda>pv. Inr v) s'"
proof -
  let ?pl = "\<lparr>val = v, res_val_type = SET, usage_depth = d, an_Other = None\<rparr>"
  have hist: "history_ok cur (resHistory s)" "0 \<le> cur" using ok by (simp_all add: state_ok_def)
  from add_set_ok [OF ok frozen p ord, of ?pl] d found
  obtain n s' where s': "state_Add t p ?pl s = Inr (n, s')" "state_ok cur s'" "\<not> Frozen (resHistory s')"
    "set (events s) \<subseteq> set (events s')" "links_ok s \<longrightarrow> links_ok s'" "after_set s t (\<lambda>pv. Inr v) s'" by auto
  define skip where "skip = (case found of None \<Rightarrow> False | Some a \<Rightarrow>
      (let p = the (payload s (ident a)) in \<not> nf \<and> res_val_type p = SET \<and> val p = v))"
  have "(case found of None \<Rightarrow> Inr False | Some a \<Rightarrow> (case payload s (ident a) of None \<Rightarrow> Inl NullAccess
      | Some p \<Rightarrow> Inr (\<not> nf \<and> res_val_type p = SET \<and> val p = v))) = Inr skip"
  proof (cases found)
    case (Some a)
    from found_payload [OF ok _ _ Some] found_events(1) [OF hist, of t] found
    have "payload s (ident a) \<noteq> None" by auto
    with Some show ?thesis by (auto simp: skip_def Let_def)
  qed (simp add: skip_def)
  then have run: "append_set nf v t p d found s = (if skip then Inr s else map_ok snd (state_Add t p ?pl s))"
    by (simp add: append_set_def bind_result_def)
  show ?thesis
  proof (cases skip)
    case True
    then obtain a where a: "found = Some a" "res_val_type (the (payload s (ident a))) = SET"
      "val (the (payload s (ident a))) = v" by (auto simp: skip_def Let_def split: option.splits)
    from found_payload [OF ok _ _ a(1)] found_events(1) [OF hist, of t] found
    have "payload s (ident a) = Some (the (payload s (ident a)))" by auto
    from skipped_set_ok [OF ok ord a(1) [unfolded found] this a(2)] a(3)
    have "after_set s t (\<lambda>pv. Inr v) s" by simp
    with True run ok frozen show ?thesis by (intro exI [of _ s]) simp
  next
    case False
    with run s' show ?thesis by (intro exI [of _ s']) (simp add: map_ok_def)
  qed
qed

lemma append_reset_ok:
  assumes ok: "state_ok cur s" and frozen: "\<not> Frozen (resHistory s)" and p: "0 \<le> p" "p \<le> cur"
    and ord: "set_in_order t p s"
    and d: "d = depth_found s (latestHistNodeAtOrBefore t cur (resHistory s))"
  shows "\<exists>s'. append_reset v t p d s = Inr s' \<and> state_ok cur s' \<and> \<not> Frozen (resHistory s')
    \<and> set (events s) \<subseteq> set (events s') \<and> (links_ok s \<longrightarrow> links_ok s')
    \<and> after_set s t (\<lambda>pv. pv) s'"
  using add_set_ok [OF ok frozen p ord, of "\<lparr>val = v, res_val_type = RESET, usage_depth = d, an_Other = None\<rparr>"] d
  by (auto simp: append_reset_def map_ok_def)

text \<open>The history at the start of a pass.\<close>

lemma state_initialize_ok:
  assumes h: "\<not> Frozen (resHistory s)" "\<not> Imported (resHistory s)" "synchronize_orders (historyList (resHistory s))"
    and p: "0 \<le> p" "p \<le> cur" and v: "profile T = Inr v"
  shows "\<exists>s' k. state_initialize False profile T t p s = Inr s' \<and> state_ok cur s' \<and> links_ok s' \<and> \<not> Frozen (resHistory s')
     \<and> events s' = [(k, next_node_address (resHistory s), 0)] \<and> etime k = t \<and> event_id k = p
     \<and> snode_of s' (k, next_node_address (resHistory s), 0) =
         (next_node_address (resHistory s), \<lparr>val = v, res_val_type = RESET, usage_depth = 0, an_Other = None\<rparr>)"
proof -
  let ?s = "s\<lparr>resHistory := history_clear (resHistory s)\<rparr>"
  let ?pl = "\<lparr>val = v, res_val_type = RESET, usage_depth = 0, an_Other = None\<rparr>"
  have "history_ok cur (resHistory ?s)"
    using h by (simp add: history_ok_def history_clear_def tlist_clear_def tlist_ok_def contents_def in_order_def)
  moreover have "\<not> Frozen (resHistory ?s)" using h by (simp add: history_clear_def)
  ultimately obtain s' k where s': "state_Add t p ?pl ?s = Inr (next_node_address (resHistory ?s), s')"
    "history_ok cur (resHistory s')" "\<not> Frozen (resHistory s')" "etime k = t" "event_id k = p"
    "events s' = add_event t p (k, next_node_address (resHistory ?s), 0) (events ?s)"
    "payload s' = (payload ?s)(next_node_address (resHistory ?s) \<mapsto> ?pl)"
    using state_Add_ok [of cur ?s p t ?pl] p by blast
  have n: "next_node_address (resHistory ?s) = next_node_address (resHistory s)" by (simp add: history_clear_def)
  have "events ?s = []" by (simp add: events_def events_of_def history_clear_def tlist_clear_def contents_def)
  then have ev: "events s' = [(k, next_node_address (resHistory s), 0)]" using s'(6) n by (simp add: add_event_def)
  have pay: "snode_of s' (k, next_node_address (resHistory s), 0) = (next_node_address (resHistory s), ?pl)"
    using s'(7) n by (simp add: snode_of_def)
  have "state_ok cur s'"
    unfolding state_ok_events ev using s'(2,7) p n pay
    by (simp add: node_ok_def opens_def is_start_def is_end_def)
  moreover have "links_ok s'" unfolding links_ok_def ev by (simp add: pay is_start_def)
  moreover have "state_initialize False profile T t p s = Inr s'"
    using h s'(1) v by (simp add: state_initialize_def map_ok_def Let_def)
  ultimately show ?thesis using s'(3,4,5) ev pay by blast
qed

end
