(* ===== verification/StateQuery.thy ===== *)
theory StateQuery
  imports StateOperations
begin

text \<open>
  \<open>get_resource_state_at\<close> finds the pending usages and the value in force.
\<close>

section \<open>The loop\<close>

lemma uses_ok_fresh:
  "uses_ok (new @ bs) \<Longrightarrow> fst ` set new \<inter> fst ` set bs = {}"
  using uses_ok_distinct [of "new @ bs"] by simp

lemma opens_append:
  assumes "uses_ok (new @ bs)"
  shows "opens (new @ bs) = opens new @ filter (\<lambda>x. fst x \<notin> closed_by new) (opens bs)"
proof -
  have c: "closed_by bs \<subseteq> fst ` set bs" by (rule closed_known [OF uses_ok_append [OF assms]])
  have "filter (\<lambda>x. is_start x \<and> fst x \<notin> closed_by (new @ bs)) new =
      filter (\<lambda>x. is_start x \<and> fst x \<notin> closed_by new) new"
  proof (rule filter_cong)
    fix x assume "x \<in> set new"
    then have "fst x \<notin> fst ` set bs" using uses_ok_fresh [OF assms] by blast
    with c show "(is_start x \<and> fst x \<notin> closed_by (new @ bs)) = (is_start x \<and> fst x \<notin> closed_by new)"
      by auto
  qed simp
  then show ?thesis by (simp add: opens_def conj_commute conj_left_commute)
qed

lemma opens_snoc:
  assumes "uses_ok (new @ x # bs)"
  shows "opens (new @ [x]) = opens new @ (if is_start x \<and> fst x \<notin> closed_by new then [x] else [])"
proof -
  have disj: "closed_by [x] \<inter> fst ` set new = {}"
  proof (cases "is_end x")
    case True
    with uses_ok_append [OF assms] obtain n where n: "an_Other (snd x) = Some n" "n \<in> fst ` set (opens bs)"
      by (auto simp: node_ok_def)
    then have "n \<in> fst ` set (x # bs)" using opens_subset(1) [of bs] by auto
    with uses_ok_fresh [OF assms] have "n \<notin> fst ` set new" by blast
    with True n show ?thesis by simp
  qed simp
  have "filter (\<lambda>y. is_start y \<and> fst y \<notin> closed_by (new @ [x])) new =
      filter (\<lambda>y. is_start y \<and> fst y \<notin> closed_by new) new"
  proof (rule filter_cong)
    fix y assume "y \<in> set new"
    then have "fst y \<notin> closed_by [x]" using disj by blast
    then show "(is_start y \<and> fst y \<notin> closed_by (new @ [x])) = (is_start y \<and> fst y \<notin> closed_by new)" by simp
  qed simp
  moreover have "is_start x \<Longrightarrow> closed_by [x] = {}" using node_kinds(1) [of x] by simp
  ultimately show ?thesis by (auto simp: opens_def)
qed

lemma opens_done:
  assumes ok: "uses_ok (new @ x # bs)" and "opens (new @ x # bs) = opens new"
  shows "opens (new @ [x]) = opens new"
proof -
  have "uses_ok ((new @ [x]) @ bs)" using ok by simp
  from opens_append [OF this] opens_snoc [OF ok] assms(2) show ?thesis by (simp split: if_splits)
qed

text \<open>What the loop records of a START node.\<close>

definition use_info :: "(nat \<Rightarrow> int option) \<Rightarrow> prio_time lnode \<Rightarrow> 'v st_value_node \<Rightarrow> int \<times> int \<times> 'v" where
  "use_info time_of a p = (the (time_of (the (an_Other p))), event_id (Key a), val p)"

definition known_end :: "(nat \<Rightarrow> int option) \<Rightarrow> 'v st_value_node \<Rightarrow> bool" where
  "known_end time_of p \<longleftrightarrow> (\<exists>n t. an_Other p = Some n \<and> time_of n = Some t)"

text \<open>The result of the loop over the nodes \<open>xs\<close>; \<open>info\<close> gives the record of a usage.\<close>

definition query_ok :: "('v snode \<Rightarrow> int \<times> int \<times> 'v) \<Rightarrow> 'v snode list \<Rightarrow> 'v query \<Rightarrow> bool" where
  "query_ok info xs q \<longleftrightarrow>
     pending q = map info (opens xs)
     \<and> active q = (case opens xs of [] \<Rightarrow> None | x # _ \<Rightarrow> Some (val (snd x)))
     \<and> last_set_or_reset q = map_option snd (List.find is_set xs)"

lemma query_set_ok:
  "last_set_or_reset (query_set (snd x) q) =
     (case last_set_or_reset q of None \<Rightarrow> if is_set x then Some (snd x) else None | Some p \<Rightarrow> Some p)"
  "pending (query_set (snd x) q) = pending q" "active (query_set (snd x) q) = active q"
  "looking_for_unexpired_usages (query_set (snd x) q) = looking_for_unexpired_usages q"
  "old_usages (query_set (snd x) q) = old_usages q"
  by (auto simp: query_set_def is_set_def split: option.split)

lemma query_usage_ok:
  assumes ok: "uses_ok (new @ x # bs)" and q: "query_ok info new q" "looking_for_unexpired_usages q"
    "set (old_usages q) = closed_by new"
    and x: "fst x = ident a" and info: "info x = use_info time_of a (snd x)"
    and ends: "is_start x \<longrightarrow> known_end time_of (snd x)"
  shows "\<exists>q'. query_usage time_of a (snd x) q = Inr q'
     \<and> pending q' = map info (opens (new @ [x]))
     \<and> active q' = (case opens (new @ [x]) of [] \<Rightarrow> None | x # _ \<Rightarrow> Some (val (snd x)))
     \<and> last_set_or_reset q' = last_set_or_reset q
     \<and> (if looking_for_unexpired_usages q' then set (old_usages q') = closed_by (new @ [x])
        else opens (new @ x # bs) = opens new)"
proof -
  have ok': "uses_ok (x # bs)" by (rule uses_ok_append [OF ok])
  have fresh: "fst x \<notin> closed_by bs" "fst x \<notin> fst ` set bs"
    using ok' closed_known [of bs] by (auto simp: node_ok_def)
  note opens_new = opens_snoc [OF ok]
  show ?thesis
  proof (cases "usage_depth (snd x) = 0")
    case True
    with ok' have none: "opens (x # bs) = []" by (simp add: node_ok_def)
    have "\<not> is_start x"
    proof
      assume "is_start x"
      with none fresh(1) node_kinds(1) [of x] show False by (simp add: opens_def)
    qed
    moreover have "opens (new @ x # bs) = opens new" using opens_append [OF ok] none by simp
    ultimately show ?thesis using True q opens_new
      by (simp add: query_usage_def query_ok_def)
  next
    case depth: False
    consider (stop) "is_end x" | (start) "is_start x" "fst x \<notin> closed_by new"
      | (old) "\<not> is_end x" "\<not> (is_start x \<and> fst x \<notin> closed_by new)" by blast
    then show ?thesis
    proof cases
      case stop
      with ok' obtain n where n: "an_Other (snd x) = Some n" by (auto simp: node_ok_def)
      have "n \<notin> set (old_usages q)" using closed_once [OF ok stop n] q(3) by simp
      with stop n depth q opens_new node_kinds(1) [of x] show ?thesis
        by (auto simp: query_usage_def query_ok_def is_end_def)
    next
      case start
      with ends obtain n t where "an_Other (snd x) = Some n" "time_of n = Some t" by (auto simp: known_end_def)
      with start depth q opens_new x info node_kinds(1) [of x] show ?thesis
        by (auto simp: query_usage_def query_ok_def is_end_def is_start_def use_info_def
            split: list.split option.split)
    next
      case old
      with depth q opens_new x show ?thesis
        by (auto simp: query_usage_def query_ok_def is_end_def is_start_def)
    qed
  qed
qed

lemma query_loop_ok:
  "uses_ok (new @ map pl as) \<Longrightarrow> query_ok info new q \<Longrightarrow>
     (if looking_for_unexpired_usages q then set (old_usages q) = closed_by new
      else opens (new @ map pl as) = opens new) \<Longrightarrow>
     \<forall>a\<in>set as. fst (pl a) = ident a \<and> pay (ident a) = Some (snd (pl a))
       \<and> info (pl a) = use_info time_of a (snd (pl a))
       \<and> (is_start (pl a) \<longrightarrow> known_end time_of (snd (pl a))) \<Longrightarrow>
     \<exists>q'. query_loop time_of pay as q = Inr q' \<and> query_ok info (new @ map pl as) q'"
proof (induction as arbitrary: new q)
  case (Cons a as)
  let ?x = "pl a"
  have a: "fst ?x = ident a" "pay (ident a) = Some (snd ?x)" "info ?x = use_info time_of a (snd ?x)"
    "is_start ?x \<longrightarrow> known_end time_of (snd ?x)" using Cons.prems(4) by simp_all
  have ok: "uses_ok (new @ ?x # map pl as)" using Cons.prems(1) by simp
  have ok1: "uses_ok ((new @ [?x]) @ map pl as)" using Cons.prems(1) by simp
  have "\<exists>q1. (if looking_for_unexpired_usages q then query_usage time_of a (snd ?x) q else Inr q) = Inr q1
     \<and> pending q1 = map info (opens (new @ [?x]))
     \<and> active q1 = (case opens (new @ [?x]) of [] \<Rightarrow> None | x # _ \<Rightarrow> Some (val (snd x)))
     \<and> last_set_or_reset q1 = last_set_or_reset q
     \<and> (if looking_for_unexpired_usages q1 then set (old_usages q1) = closed_by (new @ [?x])
        else opens (new @ ?x # map pl as) = opens new)"
  proof (cases "looking_for_unexpired_usages q")
    case True
    with query_usage_ok [OF ok Cons.prems(2) True _ a(1,3,4)] Cons.prems(3) show ?thesis by simp
  next
    case False
    with Cons.prems(3) have "opens (new @ ?x # map pl as) = opens new" by simp
    with False Cons.prems(2) opens_done [OF ok this] show ?thesis by (simp add: query_ok_def)
  qed
  then obtain q1 where
    q1: "(if looking_for_unexpired_usages q then query_usage time_of a (snd ?x) q else Inr q) = Inr q1"
    and pend: "pending q1 = map info (opens (new @ [?x]))"
      "active q1 = (case opens (new @ [?x]) of [] \<Rightarrow> None | x # _ \<Rightarrow> Some (val (snd x)))"
    and last1: "last_set_or_reset q1 = last_set_or_reset q"
    and look1: "if looking_for_unexpired_usages q1 then set (old_usages q1) = closed_by (new @ [?x])
        else opens (new @ ?x # map pl as) = opens new" by blast
  let ?q = "query_set (snd ?x) q1"
  have last: "last_set_or_reset ?q = map_option snd (List.find is_set (new @ [?x]))"
    using Cons.prems(2) by (auto simp: query_set_ok last1 query_ok_def find_append split: option.split)
  have q2: "query_ok info (new @ [?x]) ?q" using pend last by (simp add: query_ok_def query_set_ok)
  have loop: "query_loop time_of pay (a # as) q =
      (if last_set_or_reset ?q \<noteq> None \<and> \<not> looking_for_unexpired_usages ?q then Inr ?q
       else query_loop time_of pay as ?q)"
    using q1 by (simp add: a(2) bind_result_def Let_def)
  have stop: "opens ((new @ [?x]) @ map pl as) = opens (new @ [?x])" if "\<not> looking_for_unexpired_usages ?q"
  proof -
    from that look1 have "opens (new @ ?x # map pl as) = opens new" by (simp add: query_set_ok)
    with opens_done [OF ok this] show ?thesis by simp
  qed
  show ?case
  proof (cases "last_set_or_reset ?q \<noteq> None \<and> \<not> looking_for_unexpired_usages ?q")
    case True
    have "List.find is_set (new @ ?x # map pl as) = List.find is_set (new @ [?x])"
      using True last by (auto simp: find_append split: option.splits if_splits)
    with q2 stop True have "query_ok info (new @ ?x # map pl as) ?q" by (simp add: query_ok_def)
    with True loop show ?thesis by simp
  next
    case False
    have "if looking_for_unexpired_usages ?q then set (old_usages ?q) = closed_by (new @ [?x])
        else opens ((new @ [?x]) @ map pl as) = opens (new @ [?x])"
      using look1 stop by (simp add: query_set_ok)
    from Cons.IH [OF ok1 q2 this] Cons.prems(4) False loop show ?thesis by auto
  qed
qed simp

section \<open>The query\<close>

definition latest_set :: "'v snode list \<Rightarrow> 'v option" where
  "latest_set bs =
     (case List.find is_set bs of
        Some x \<Rightarrow> if res_val_type (snd x) = SET then Some (val (snd x)) else None
      | None \<Rightarrow> None)"

lemma state_value_latest:
  "state_value pv bs =
     (case opens bs of x # _ \<Rightarrow> Inr (val (snd x))
      | [] \<Rightarrow> (case latest_set bs of Some v \<Rightarrow> Inr v | None \<Rightarrow> pv))"
  by (auto simp: state_value_def set_value_def latest_set_def split: list.split option.split)

definition state_of :: "'v snode list \<Rightarrow> STATE_STATE" where
  "state_of bs =
     (if latest_set bs \<noteq> None
      then (if opens bs \<noteq> [] then USE_SET_PENDING else STATE_SET)
      else (if opens bs \<noteq> [] then USE_RESET_PENDING else STATE_RESET))"

lemma get_resource_state_at_ok:
  fixes s :: "'v res_state"
  assumes ok: "state_ok cur s" and links: "links_ok s"
  shows "\<exists>uses. map (snd \<circ> snd) uses = map (val \<circ> snd) (opens (nodes_at NORMAL t s))
    \<and> get_resource_state_at profile cur t s =
       bind_result (state_value (profile t) (nodes_at NORMAL t s))
         (\<lambda>v. Inr \<lparr>currently = state_of (nodes_at NORMAL t s), currentval = v,
              setval = latest_set (nodes_at NORMAL t s), end_uses = uses\<rparr>)"
proof -
  let ?h = "resHistory s"
  let ?as = "nodes_upto NORMAL t ?h"
  let ?bs = "nodes_at NORMAL t s"
  have hist: "history_ok cur ?h" "0 \<le> cur" using ok by (simp_all add: state_ok_def)
  let ?time_of = "\<lambda>n. map_option (\<lambda>a. etime (Key a)) (List.find (\<lambda>a. ident a = n) (chain_nodes ?h))"
  let ?info = "\<lambda>x. case List.find (\<lambda>a. ident a = fst x) (hist_nodes ?h) of
      None \<Rightarrow> (0, 0, val (snd x)) | Some a \<Rightarrow> use_info ?time_of a (snd x)"
  have bs: "?bs = map (the_payload s) ?as" by (simp add: nodes_at_def)
  note nodes = state_ok_nodes [OF ok, of NORMAL t]
  have sub: "set ?as \<subseteq> set (hist_nodes ?h)" by (auto simp: nodes_upto_def)
  have ns: "(case latestHistNodeAtOrBefore t cur ?h of None \<Rightarrow> [] | Some a \<Rightarrow> backward (ident a) ?h) = ?as"
  proof -
    have "latestHistNodeAtOrBefore t cur ?h = hd_opt ?as"
      by (simp add: found_nodes [OF hist] nodes_upto_def last_opt_rev)
    then show ?thesis using backward_upto [OF hist(1), of NORMAL t] by (cases ?as) auto
  qed
  have each: "fst (the_payload s a) = ident a \<and> payload s (ident a) = Some (snd (the_payload s a))
      \<and> ?info (the_payload s a) = use_info ?time_of a (snd (the_payload s a))
      \<and> (is_start (the_payload s a) \<longrightarrow> known_end ?time_of (snd (the_payload s a)))"
    if a: "a \<in> set ?as" for a
  proof -
    have a': "a \<in> set (hist_nodes ?h)" using a sub by blast
    note find = find_ident [OF hist_facts(2) [OF hist(1)]]
    have "payload s (ident a) \<noteq> None" using ok a' by (simp add: state_ok_def)
    moreover have "known_end ?time_of (snd (the_payload s a))" if start: "is_start (the_payload s a)"
    proof -
      have "core a \<in> set (events s)" using a' unfolding events_def hist_facts(4) [OF hist(1)] by simp
      with links start obtain m where m: "an_Other (snd (the_payload s a)) = Some m"
        "m \<in> core_id ` set (events s)" unfolding links_ok_def the_payload_core by blast
      then obtain b where "b \<in> set (hist_nodes ?h)" "m = ident b"
        unfolding events_def hist_facts(4) [OF hist(1)] by auto
      with m(1) find [of b] show ?thesis by (simp add: known_end_def hist_facts(3) [OF hist(1)])
    qed
    ultimately show ?thesis using find [OF a'] by (simp add: the_payload_def)
  qed
  have depth: "(case ?as of [] \<Rightarrow> Inr 0 | a # _ \<Rightarrow> depth_at s a) =
      Inr (case ?bs of [] \<Rightarrow> 0 | x # _ \<Rightarrow> usage_depth (snd x))"
    using each by (cases ?as) (auto simp: bs depth_at_def)
  define d where "d = (case ?bs of [] \<Rightarrow> 0 | x # _ \<Rightarrow> usage_depth (snd x))"
  let ?q0 = "\<lparr>looking_for_unexpired_usages = (d > 0), old_usages = [], active = None :: 'v option,
     pending = [], last_set_or_reset = None\<rparr>"
  have "int (length (opens ?bs)) \<le> d"
    using nodes(1) by (cases ?bs) (simp_all add: d_def opens_def [of "[]"] node_ok_def)
  then have "opens ?bs = []" if "\<not> 0 < d" using that by (cases "opens ?bs") simp_all
  then have start: "if looking_for_unexpired_usages ?q0 then set (old_usages ?q0) = closed_by []
      else opens ([] @ map (the_payload s) ?as) = opens []"
    unfolding bs [symmetric] by (simp add: opens_def [of "[]"])
  have ok0: "uses_ok ([] @ map (the_payload s) ?as)" using nodes(1) by (simp add: bs)
  have q0: "query_ok ?info [] ?q0" by (simp add: query_ok_def opens_def)
  from each have each': "\<forall>a\<in>set ?as. fst (the_payload s a) = ident a
      \<and> payload s (ident a) = Some (snd (the_payload s a))
      \<and> ?info (the_payload s a) = use_info ?time_of a (snd (the_payload s a))
      \<and> (is_start (the_payload s a) \<longrightarrow> known_end ?time_of (snd (the_payload s a)))" by (intro ballI)
  from query_loop_ok [OF ok0 q0 start each'] obtain q where
    q1: "query_loop ?time_of (payload s) ?as ?q0 = Inr q"
    and "query_ok ?info ([] @ map (the_payload s) ?as) q" by (elim exE conjE)
  then have q2: "query_ok ?info ?bs q" by (simp add: bs)
  have sv: "(case last_set_or_reset q of Some p \<Rightarrow> if res_val_type p = SET then Some (val p) else None
      | None \<Rightarrow> None) = latest_set ?bs"
    using q2 by (auto simp: query_ok_def latest_set_def split: option.split)
  have act: "(case active q of Some v \<Rightarrow> Inr v | None \<Rightarrow> (case latest_set ?bs of Some v \<Rightarrow> Inr v | None \<Rightarrow> profile t)) =
      state_value (profile t) ?bs"
    using q2 unfolding state_value_latest by (auto simp: query_ok_def split: list.split)
  have pend: "pending q \<noteq> [] \<longleftrightarrow> opens ?bs \<noteq> []" using q2 by (simp add: query_ok_def)
  have vals: "map (snd \<circ> snd) (pending q) = map (val \<circ> snd) (opens ?bs)"
  proof -
    have "snd (snd (?info x)) = val (snd x)" for x :: "'v snode"
      by (simp add: use_info_def split: option.split)
    then have "(snd \<circ> snd) \<circ> ?info = (val \<circ> snd :: 'v snode \<Rightarrow> 'v)" by (intro ext) simp
    moreover have "pending q = map ?info (opens ?bs)" using q2 by (simp add: query_ok_def)
    ultimately show ?thesis by (simp only: map_map)
  qed
  have state: "(if latest_set ?bs \<noteq> None then if pending q \<noteq> [] then USE_SET_PENDING else STATE_SET
      else if pending q \<noteq> [] then USE_RESET_PENDING else STATE_RESET) = state_of ?bs"
    unfolding state_of_def pend ..
  have "get_resource_state_at profile cur t s =
       bind_result (state_value (profile t) ?bs)
         (\<lambda>v. Inr \<lparr>currently = state_of ?bs, currentval = v, setval = latest_set ?bs, end_uses = pending q\<rparr>)"
    unfolding get_resource_state_at_def Let_def ns depth [folded d_def] bind_result_def sum.case q1 sv act state
    by (rule refl)
  with vals show ?thesis by blast
qed

end
