(* ===== verification/StateProperties.thy ===== *)
theory StateProperties
  imports StateQuery HistoryProperties
begin

text \<open>
  The properties of state resources: what a USE and a SET of the adaptation make of the values
  that \<open>currentval\<close> reports, that the state that is written to the outputs agrees with those
  values, and that the search from an iterator finds what the search of the tree finds. At the
  end, a usage without duration that hides a pending one.
\<close>

section \<open>A sample resource\<close>

definition sample_iter :: hist_iter where
  "sample_iter = \<lparr>iterNode = None, getPrev = None\<rparr>"

definition sample_context :: "int \<Rightarrow> int \<Rightarrow> eval_context" where
  "sample_context t cur =
     \<lparr>get_now = t, thread_time = t, in_model_thread = True, last_event_id = cur,
      res_miter_data = Some (Some sample_iter), the_strategy = NORMAL\<rparr>"

definition new_resource :: "nat res_state" where
  "new_resource = \<lparr>resHistory = \<lparr>historyList = empty_history, Frozen = False, Imported = False,
     version = 0, next_node_address = 0\<rparr>, payload = Map.empty\<rparr>"

definition sample_profile :: "int \<Rightarrow> nat result" where
  "sample_profile t = Inr 0"

lemma sample_context_sel [simp]:
  "last_event_id (sample_context t p) = p" "the_strategy (sample_context t p) = NORMAL"
  "strategy_of (sample_context t p) = NORMAL"
  by (simp_all add: sample_context_def strategy_of_def)

lemma sample_start:
  "\<exists>s k. state_initialize False sample_profile 0 0 1 new_resource = Inr s \<and> state_ok 9 s \<and> links_ok s
     \<and> \<not> Frozen (resHistory s) \<and> events s = [(k, 0, 0)] \<and> etime k = 0 \<and> event_id k = 1
     \<and> snode_of s (k, 0, 0) = (0, \<lparr>val = 0, res_val_type = RESET, usage_depth = 0, an_Other = None\<rparr>)"
  using state_initialize_ok [of new_resource 1 9 sample_profile 0 0 0]
  by (simp add: new_resource_def empty_history_def sample_profile_def)

lemma sample_facts:
  assumes "events s = [(k, 0, 0)]" and "etime k = 0" "event_id k = 1"
    and "snode_of s (k, 0, 0) = (0, \<lparr>val = 0, res_val_type = RESET, usage_depth = 0, an_Other = None\<rparr>)"
  shows "0 \<le> t \<Longrightarrow> synchronized (sample_context t p) t s" "0 < t \<Longrightarrow> usage_in_order t p s"
    "0 < t \<Longrightarrow> set_in_order t p s" "0 < u \<Longrightarrow> \<exists>e\<in>set (events s). etime (fst e) < u"
  using assms
  by (simp_all add: synchronized_def in_sync_def events_def [symmetric] sample_context_def iter_ok_iff sample_iter_def usage_in_order_def
      set_in_order_def is_start_def)

section \<open>Values and operations\<close>

lemma evaluable_before:
  assumes ok: "state_ok cur s" and "\<exists>e\<in>set (events s). etime (fst e) < u"
  shows "evaluable_at strategy u s"
proof -
  have hist: "history_ok cur (resHistory s)" using ok by (simp add: state_ok_def)
  have "nodes_at BEFORE u s \<noteq> []"
    using assms(2) by (auto simp: nodes_at_events [OF hist] filter_empty_conv)
  then show ?thesis by (simp add: evaluable_at_def)
qed

lemma state_eval_before:
  assumes "state_ok (last_event_id c) s" and "\<exists>e\<in>set (events s). etime (fst e) < u"
  shows "state_eval_at profile c u s = state_value (profile u) (nodes_at (strategy_of c) u s)"
  by (rule state_eval_at_ok [OF assms(1) evaluable_before [OF assms]])

text \<open>C20: A usage of a state resource that is executed at the time of its event, and whose end is
  later than its start: from its start until its end the value of the resource is the value
  used, whatever other usages are pending; at all other times the value is what it was. The
  invariant of the resource is kept. The strategy BEFORE counts the start and the end only
  after their times.\<close>

theorem state_use_correct:
  assumes "state_ok (last_event_id c) s" and "\<not> Frozen (resHistory s)"
    and "synchronized c t s" and "usage_in_order t p s" and "t < t'"
    and "0 \<le> p" and "p + 1 \<le> last_event_id c" and "rangemap v"
    and "last_event_id c' = last_event_id c" and "\<exists>e\<in>set (events s). etime (fst e) < u"
  shows "\<exists>s'. state_execute_use nv nf rangemap c v t t' p False s = Inr s'
           \<and> state_ok (last_event_id c) s' \<and> (links_ok s \<longrightarrow> links_ok s')
           \<and> state_eval_at profile c' u s' =
               (if counts_at (strategy_of c') u t \<and> \<not> counts_at (strategy_of c') u t' then Inr v
                else state_eval_at profile c' u s)"
proof -
  let ?found = "latestHistNodeAtOrBefore t (last_event_id c) (resHistory s)"
  have "p \<le> p + 1" by simp
  from append_use_ok [OF assms(1,2,6) this assms(7,5,4) refl, of nv v] obtain s' where
    s': "append_use nv v t t' p (p + 1) (depth_found s ?found) s = Inr s'" "state_ok (last_event_id c) s'"
    "set (events s) \<subseteq> set (events s')" "links_ok s \<longrightarrow> links_ok s'"
    and vals: "\<And>strategy u pv. state_value pv (nodes_at strategy u s') =
         (if counts_at strategy u t \<and> \<not> counts_at strategy u t' then Inr v
          else state_value pv (nodes_at strategy u s))" by blast
  have run: "state_execute_use nv nf rangemap c v t t' p False s = Inr s'"
    using s'(1) assms(8) by (simp add: state_execute_use_def state_append_cases [OF assms(1,3)] Let_def)
  have "\<exists>e\<in>set (events s'). etime (fst e) < u" using assms(10) s'(3) by blast
  then have "state_eval_at profile c' u s' = state_value (profile u) (nodes_at (strategy_of c') u s')"
    "state_eval_at profile c' u s = state_value (profile u) (nodes_at (strategy_of c') u s)"
    using state_eval_before [of c'] s'(2) assms(1,9,10) by simp_all
  with run s'(2,4) vals show ?thesis by (intro exI [of _ s']) simp
qed

lemma state_use_witness:
  "\<exists>s0 s'. state_initialize False sample_profile 0 0 1 new_resource = Inr s0
     \<and> state_execute_use 99 False (\<lambda>v. v < 10) (sample_context 5 9) 7 5 8 2 False s0 = Inr s'
     \<and> state_eval_at sample_profile (sample_context 6 9) 6 s' = Inr 7"
proof -
  obtain s k where s: "state_initialize False sample_profile 0 0 1 new_resource = Inr s" "state_ok 9 s"
    "\<not> Frozen (resHistory s)" and e: "events s = [(k, 0, 0)]" "etime k = 0" "event_id k = 1"
    "snode_of s (k, 0, 0) = (0, \<lparr>val = 0, res_val_type = RESET, usage_depth = 0, an_Other = None\<rparr>)"
    using sample_start by blast
  from state_use_correct [of "sample_context 5 9" s 5 2 8 "\<lambda>v. v < 10" 7 "sample_context 6 9" 6 99 False
      sample_profile] sample_facts [OF e] s
  show ?thesis by auto
qed

text \<open>C21: A SET of a state resource that is executed at the time of its event: from then on the
  value is the value set at every time at which no usage is pending; while a usage is pending,
  and before, the value is what it was. A SET that is not stored because it repeats the value
  of the SET before it is no exception.\<close>

theorem state_set_correct:
  assumes "state_ok (last_event_id c) s" and "\<not> Frozen (resHistory s)"
    and "synchronized c t s" and "set_in_order t p s"
    and "0 \<le> p" and "p \<le> last_event_id c" and "rangemap v"
    and "last_event_id c' = last_event_id c" and "\<exists>e\<in>set (events s). etime (fst e) < u"
  shows "\<exists>s'. state_execute_set nv nf rangemap c v t p False s = Inr (last_event_id c, s')
           \<and> state_ok (last_event_id c) s' \<and> (links_ok s \<longrightarrow> links_ok s')
           \<and> state_eval_at profile c' u s' =
               (if counts_at (strategy_of c') u t \<and> opens (nodes_at (strategy_of c') u s) = [] then Inr v
                else state_eval_at profile c' u s)"
proof -
  let ?found = "latestHistNodeAtOrBefore t (last_event_id c) (resHistory s)"
  from append_set_ok [OF assms(1,2,5,6,4) refl refl, of nf v] obtain s' where
    s': "append_set nf v t p (depth_found s ?found) ?found s = Inr s'" "state_ok (last_event_id c) s'"
    "set (events s) \<subseteq> set (events s')" "links_ok s \<longrightarrow> links_ok s'" "after_set s t (\<lambda>pv. Inr v) s'" by blast
  have run: "state_execute_set nv nf rangemap c v t p False s = Inr (last_event_id c, s')"
    using s'(1) assms(7)
    by (simp add: state_execute_set_def state_append_cases [OF assms(1,3)] Let_def map_ok_def)
  have "\<exists>e\<in>set (events s'). etime (fst e) < u" using assms(9) s'(3) by blast
  then have "state_eval_at profile c' u s' = state_value (profile u) (nodes_at (strategy_of c') u s')"
    "state_eval_at profile c' u s = state_value (profile u) (nodes_at (strategy_of c') u s)"
    using state_eval_before [of c'] s'(2) assms(1,8,9) by simp_all
  with run s'(2,4,5) show ?thesis by (intro exI [of _ s']) (simp add: after_set_def)
qed

lemma state_set_witness:
  "\<exists>s0 s'. state_initialize False sample_profile 0 0 1 new_resource = Inr s0
     \<and> state_execute_set 99 False (\<lambda>v. v < 10) (sample_context 5 9) 7 5 2 False s0 = Inr (9, s')
     \<and> state_eval_at sample_profile (sample_context 6 9) 6 s' = Inr 7"
proof -
  obtain s k where s: "state_initialize False sample_profile 0 0 1 new_resource = Inr s" "state_ok 9 s"
    "\<not> Frozen (resHistory s)" and e: "events s = [(k, 0, 0)]" "etime k = 0" "event_id k = 1"
    "snode_of s (k, 0, 0) = (0, \<lparr>val = 0, res_val_type = RESET, usage_depth = 0, an_Other = None\<rparr>)"
    using sample_start by blast
  have hist: "history_ok 9 (resHistory s)" using s(2) by (simp add: state_ok_def)
  have "opens (nodes_at NORMAL 6 s) = []"
    by (simp add: nodes_at_events [OF hist] e opens_def is_start_def)
  with state_set_correct [of "sample_context 5 9" s 5 2 "\<lambda>v. v < 10" 7 "sample_context 6 9" 6 99 False
      sample_profile] sample_facts [OF e] s
  show ?thesis by auto
qed

text \<open>C23: The state of a resource at a time, as it is written to the outputs: its current value is
  the value that \<open>currentval\<close> reports, or the evaluation fails with the same error; it lists
  exactly the pending usages with the values they use; and it is pending or not accordingly.\<close>

theorem state_query_agrees:
  assumes "state_ok (last_event_id c) s" and "links_ok s" and "strategy_of c = NORMAL"
  shows "case get_resource_state_at profile (last_event_id c) t s of
      Inl e \<Rightarrow> state_eval_at profile c t s = Inl e
    | Inr r \<Rightarrow> state_eval_at profile c t s = Inr (currentval r)
        \<and> currently r = state_of (nodes_at NORMAL t s)
        \<and> map (snd \<circ> snd) (end_uses r) = map (val \<circ> snd) (opens (nodes_at NORMAL t s))"
proof -
  have "state_eval_at profile c t s = state_value (profile t) (nodes_at NORMAL t s)"
    using state_eval_at_ok [OF assms(1), of t profile] assms(3) by (simp add: evaluable_at_def)
  with get_resource_state_at_ok [OF assms(1,2), of t profile] show ?thesis
    by (cases "state_value (profile t) (nodes_at NORMAL t s)") (auto simp: bind_result_def)
qed

lemma state_query_witness:
  "\<exists>s0. state_initialize False sample_profile 0 0 1 new_resource = Inr s0
     \<and> (case get_resource_state_at sample_profile 9 6 s0 of Inl e \<Rightarrow> False
        | Inr r \<Rightarrow> currentval r = 0 \<and> currently r = STATE_RESET)"
proof -
  obtain s k where s: "state_initialize False sample_profile 0 0 1 new_resource = Inr s" "state_ok 9 s"
    "links_ok s" and e: "events s = [(k, 0, 0)]" "etime k = 0" "event_id k = 1"
    "snode_of s (k, 0, 0) = (0, \<lparr>val = 0, res_val_type = RESET, usage_depth = 0, an_Other = None\<rparr>)"
    using sample_start by blast
  have hist: "history_ok 9 (resHistory s)" using s(2) by (simp add: state_ok_def)
  have n: "nodes_at NORMAL 6 s = [(0, \<lparr>val = 0, res_val_type = RESET, usage_depth = 0, an_Other = None\<rparr>)]"
    by (simp add: nodes_at_events [OF hist] e)
  have "state_eval_at sample_profile (sample_context 6 9) 6 s = Inr 0"
    using state_eval_at_ok [of "sample_context 6 9" s 6 sample_profile] s(2)
    by (simp add: evaluable_at_def n state_value_def set_value_def opens_def is_start_def is_set_def
        sample_profile_def)
  moreover have "state_of (nodes_at NORMAL 6 s) = STATE_RESET"
    by (simp add: n state_of_def latest_set_def opens_def is_start_def is_set_def)
  ultimately show ?thesis
    using state_query_agrees [of "sample_context 6 9" s sample_profile 6] s
    by (auto split: sum.splits)
qed

text \<open>The search of a history from the iterator of the modelling loop, or of a trailing thread,
  gives the node that the search of the tree gives, wherever the iterator stands, when some
  node is not later than the time asked for (the node the thread is at, for a trailing thread).\<close>

theorem model_time_search_agrees:
  assumes "history_ok cur h" and "0 \<le> cur" and "iter_ok it h" and "getPrev it = Some safe"
    and "if model_thread then \<exists>a\<in>set (hist_nodes h). node_time a \<le> t
      else \<exists>a\<in>set (hist_nodes h). ident a = safe \<and> node_time a \<le> t"
  shows "latestHistNodeAtOrBeforeModelTime model_thread t cur (Some it) h =
    Inr (latestHistNodeAtOrBefore t cur h)"
  by (rule model_time_search [OF assms])

definition six_events :: res_history where
  "six_events = \<lparr>historyList = sample_history, Frozen = False, Imported = False, version = 6,
     next_node_address = 7\<rparr>"

lemma six_events_ok: "history_ok 9 six_events"
  unfolding history_ok_def tlist_ok_def by code_simp

lemma model_time_search_witness:
  "latestHistNodeAtOrBeforeModelTime True 11 9 (Some \<lparr>iterNode = Some 2, getPrev = Some 1\<rparr>) six_events =
     Inr (latestHistNodeAtOrBefore 11 9 six_events)"
proof -
  have "iter_ok \<lparr>iterNode = Some 2, getPrev = Some 1\<rparr> six_events"
    "\<exists>a\<in>set (hist_nodes six_events). node_time a \<le> 11"
    unfolding iter_ok_iff by (simp, code_simp) code_simp
  with model_time_search_agrees [OF six_events_ok, of "\<lparr>iterNode = Some 2, getPrev = Some 1\<rparr>" 1 True 11]
  show ?thesis by simp
qed

section \<open>Where the code departs\<close>

text \<open>A usage without duration at the time at which another one has started: the depth of its END
  node is taken from the last node before that time, where nothing is pending yet. A SET
  while the first usage is pending then gets the depth 0, and its value hides the usage.\<close>

definition used_twice :: "bool \<Rightarrow> nat res_state result" where
  "used_twice instant =
     bind_result (state_initialize False sample_profile 0 0 1 new_resource) (\<lambda>s0.
     bind_result (state_execute_use 99 False (\<lambda>v. v < 10) (sample_context 10 4) 1 10 30 3 False s0) (\<lambda>s1.
     bind_result
       (if instant then state_execute_use 99 False (\<lambda>v. v < 10) (sample_context 10 6) 2 10 10 5 False s1
        else Inr s1) (\<lambda>s2.
     map_ok snd (state_execute_set 99 False (\<lambda>v. v < 10) (sample_context 20 8) 7 20 7 False s2))))"

lemma instant_usage_hides_pending:
  "bind_result (used_twice False) (state_eval_at sample_profile (sample_context 20 8) 20) = Inr 1"
  "bind_result (used_twice True) (state_eval_at sample_profile (sample_context 20 8) 20) = Inr 7"
  by code_simp+

text \<open>With the iterator of the modelling thread and no node at or before the time, the search gives
  the first node of the history, which is later, and the search of the tree gives none.\<close>

lemma model_time_search_too_early:
  "latestHistNodeAtOrBefore 5 9 six_events = None"
  "map_ok (map_option ident)
     (latestHistNodeAtOrBeforeModelTime True 5 9 (Some \<lparr>iterNode = Some 2, getPrev = Some 1\<rparr>) six_events) =
     Inr (Some 1)"
  by code_simp+

end
