(* ===== verification/Doubles.thy ===== *)
theory Doubles
  imports Complex_Main TimeBase
begin

text \<open>
  The type \<open>double\<close>: the rounding of IEEE 754 in double precision to the nearest number, to the even
  one of two, with the subnormal numbers, and the conversions between times and doubles of
  \<open>src/src/apcore/templates/UTL_time.C\<close>. A finite double is the rational number it stands for;
  every operation on doubles is the exact one followed by \<open>to_double\<close>. Infinities and NaN, which
  arise beyond \<open>2 ^ 1024\<close> and from divisions by zero, are left out.
\<close>

section \<open>Rounding\<close>

definition round_even :: "rat \<Rightarrow> int" where
  "round_even y =
     (let f = \<lfloor>y\<rfloor>; r = y - of_int f
      in if r < 1 / 2 \<or> r = 1 / 2 \<and> even f then f else f + 1)"

text \<open>The exponent of the leading bit: \<open>n / d\<close> has as many bits as \<open>n\<close> less those of \<open>d\<close>, or one
  less.\<close>

function bit_length :: "int \<Rightarrow> nat" where
  "bit_length n = (if n \<le> 0 then 0 else Suc (bit_length (n div 2)))"
  by pat_completeness auto
termination
  by (relation "measure nat") auto

declare bit_length.simps [simp del]

definition pow2 :: "int \<Rightarrow> rat" where
  "pow2 k = (if 0 \<le> k then of_int (2 ^ nat k) else 1 / of_int (2 ^ nat (- k)))"

definition leading_bit :: "rat \<Rightarrow> int" where
  "leading_bit x =
     (let (n, d) = quotient_of \<bar>x\<bar>; k = int (bit_length n) - int (bit_length d)
      in if pow2 k \<le> \<bar>x\<bar> then k else k - 1)"

text \<open>The distance of the doubles around \<open>x\<close>.\<close>

definition unit_last_place :: "rat \<Rightarrow> rat" where
  "unit_last_place x = pow2 (max (leading_bit x - 52) (- 1074))"

definition to_double :: "rat \<Rightarrow> rat" where
  "to_double x = of_int (round_even (x / unit_last_place x)) * unit_last_place x"

text \<open>\<open>(long) x\<close>.\<close>

definition truncated :: "rat \<Rightarrow> int" where
  "truncated x = (if x < 0 then \<lceil>x\<rceil> else \<lfloor>x\<rfloor>)"

section \<open>Times as doubles\<close>

definition convert_to_double :: "int \<Rightarrow> rat" where
  "convert_to_double p =
     (if is_duration p then to_double (to_double (of_int p) / 1000)
      else to_double (to_double (of_int (p - TIME_BIT)) / 1000))"

text \<open>\<open>modf\<close> is exact.\<close>

definition internal_conversion :: "rat \<Rightarrow> int \<times> int" where
  "internal_conversion D =
     (let G = truncated D; F = D - of_int G
      in if G < 0 \<or> F < 0 then
           (let millisec = - truncated (to_double (1 / 2 - to_double (1000 * F)))
            in if millisec = - 1000 then (G - 1, 0) else (G, millisec))
         else
           (let millisec = truncated (to_double (1 / 2 + to_double (1000 * F)))
            in if millisec = 1000 then (G + 1, 0) else (G, millisec)))"

definition convert_from_double :: "rat \<Rightarrow> bool \<Rightarrow> int result" where
  "convert_from_double D is_dur = (let (a, b) = internal_conversion D in CTime_base a b is_dur)"

section \<open>The error of the rounding\<close>

lemma round_even_error: "\<bar>of_int (round_even y) - y\<bar> \<le> 1 / 2"
proof -
  have "of_int \<lfloor>y\<rfloor> \<le> y" "y < of_int \<lfloor>y\<rfloor> + 1" by linarith+
  then show ?thesis by (auto simp: round_even_def Let_def)
qed

lemma round_even_int [simp]: "round_even (of_int n) = n"
  by (simp add: round_even_def)

lemma round_even_nonneg: "0 \<le> y \<Longrightarrow> 0 \<le> round_even y"
  by (simp add: round_even_def Let_def)

lemma pow2_eq: "pow2 k = 2 powi k"
  by (simp add: pow2_def power_int_def inverse_eq_divide power_one_over)

lemma bit_length_bounds: "0 < n \<Longrightarrow> 2 ^ (bit_length n - 1) \<le> n \<and> n < 2 ^ bit_length n \<and> 0 < bit_length n"
proof (induction n rule: bit_length.induct)
  case (1 n)
  show ?case
  proof (cases "n = 1")
    case True
    then show ?thesis by (simp add: bit_length.simps [of 1] bit_length.simps [of 0])
  next
    case False
    with 1 have "0 < n div 2" by linarith
    with 1 have "2 ^ (bit_length (n div 2) - 1) \<le> n div 2" "n div 2 < 2 ^ bit_length (n div 2)" "0 < bit_length (n div 2)"
      by simp_all
    moreover from this(3) have "2 * (2 :: int) ^ (bit_length (n div 2) - 1) = 2 ^ bit_length (n div 2)"
      by (cases "bit_length (n div 2)") simp_all
    ultimately have "2 ^ bit_length (n div 2) \<le> n" "n < 2 * 2 ^ bit_length (n div 2)" by linarith+
    with 1(2) show ?thesis by (simp add: bit_length.simps [of n])
  qed
qed

lemma unit_last_place_pos [simp]: "0 < unit_last_place x"
  by (simp add: unit_last_place_def pow2_eq)

lemma leading_bit_bounds:
  assumes "x \<noteq> 0"
  shows "2 powi leading_bit x \<le> \<bar>x\<bar>" and "\<bar>x\<bar> < 2 powi (leading_bit x + 1)"
proof -
  obtain n d where nd: "quotient_of \<bar>x\<bar> = (n, d)" by (cases "quotient_of \<bar>x\<bar>")
  have d: "0 < d" using quotient_of_denom_pos [OF nd] .
  have x: "\<bar>x\<bar> = of_int n / of_int d" using quotient_of_div [OF nd] .
  have n: "0 < n"
  proof -
    have "0 < (of_int n :: rat) / of_int d" using x assms by simp
    then show ?thesis using d by (simp add: zero_less_divide_iff)
  qed
  define a where "a = bit_length n"
  define b where "b = bit_length d"
  have an: "(2 :: int) ^ (a - 1) \<le> n" "n < 2 ^ a" "(2 :: int) ^ (b - 1) \<le> d" "d < 2 ^ b" "0 < a" "0 < b"
    using bit_length_bounds [OF n] bit_length_bounds [OF d] by (simp_all add: a_def b_def)
  note ab = an(5,6)
  have aq: "(2 :: rat) ^ (a - 1) \<le> of_int n" "of_int n < (2 :: rat) ^ a"
    "(2 :: rat) ^ (b - 1) \<le> of_int d" "of_int d < (2 :: rat) ^ b"
    using an(1-4) by (metis of_int_le_iff of_int_less_iff of_int_numeral of_int_power)+
  have low: "2 powi (int a - int b - 1) \<le> \<bar>x\<bar>"
  proof -
    have "(2 :: rat) powi (int a - int b - 1) = 2 ^ (a - 1) / 2 ^ b"
      using ab by (cases a) (simp_all add: power_int_diff)
    also have "\<dots> \<le> of_int n / of_int d"
      using aq d n by (intro frac_le) simp_all
    finally show ?thesis by (simp add: x)
  qed
  have high: "\<bar>x\<bar> < 2 powi (int a - int b + 1)"
  proof -
    have "of_int n / of_int d < 2 ^ a / (2 :: rat) ^ (b - 1)"
      using aq d n by (intro frac_less) simp_all
    also have "\<dots> = 2 powi (int a - int b + 1)"
      using ab by (cases b) (simp_all add: power_int_diff power_int_add)
    finally show ?thesis by (simp add: x)
  qed
  show "2 powi leading_bit x \<le> \<bar>x\<bar>" "\<bar>x\<bar> < 2 powi (leading_bit x + 1)"
    using low high by (simp_all add: leading_bit_def nd a_def b_def pow2_eq Let_def)
qed

lemma to_double_half_unit: "\<bar>to_double x - x\<bar> \<le> 1 / 2 * unit_last_place x"
proof -
  let ?u = "unit_last_place x"
  have "to_double x - x = (of_int (round_even (x / ?u)) - x / ?u) * ?u"
    using less_imp_neq [OF unit_last_place_pos [of x]] by (simp add: to_double_def left_diff_distrib)
  then have "\<bar>to_double x - x\<bar> = \<bar>of_int (round_even (x / ?u)) - x / ?u\<bar> * ?u"
    by (simp add: abs_mult less_imp_le)
  also have "\<dots> \<le> 1 / 2 * ?u" by (intro mult_right_mono round_even_error) (simp add: less_imp_le)
  finally show ?thesis .
qed

lemma to_double_error: "\<bar>to_double x - x\<bar> \<le> \<bar>x\<bar> / 2 ^ 53 + 1 / 2 ^ 1075"
proof (cases "x = 0")
  case True
  then show ?thesis by (simp add: to_double_def round_even_def)
next
  case False
  let ?u = "unit_last_place x"
  note to_double_half_unit [of x]
  also have "?u \<le> 2 powi (leading_bit x - 52) + 2 powi (- 1074)"
    by (auto simp: unit_last_place_def pow2_eq max_def less_imp_le)
  also have "1 / 2 * \<dots> = 2 powi leading_bit x / 2 ^ 53 + 1 / 2 ^ 1075"
    by (simp add: power_int_diff power_int_minus)
  also have "\<dots> \<le> \<bar>x\<bar> / 2 ^ 53 + 1 / 2 ^ 1075"
    using leading_bit_bounds(1) [OF False] by (intro add_mono divide_right_mono) simp_all
  finally show ?thesis by simp
qed

lemma to_double_nonneg: "0 \<le> x \<Longrightarrow> 0 \<le> to_double x"
  by (simp add: to_double_def round_even_nonneg less_imp_le)

text \<open>The error for an integer is relative: no integer is subnormal.\<close>

lemma to_double_int_error: "\<bar>to_double (of_int c) - of_int c\<bar> \<le> \<bar>of_int c\<bar> / 2 ^ 53"
proof (cases "c = 0")
  case True
  then show ?thesis by (simp add: to_double_def round_even_def)
next
  case False
  let ?x = "of_int c :: rat" and ?k = "leading_bit (of_int c)"
  have "1 \<le> \<bar>c\<bar>" using False by simp
  then have one: "(2 :: rat) powi 0 \<le> \<bar>?x\<bar>" by (simp flip: of_int_abs)
  have "\<bar>?x\<bar> < 2 powi (?k + 1)" using leading_bit_bounds(2) [of ?x] False by simp
  with one have lt: "(2 :: rat) powi 0 < 2 powi (?k + 1)" by (rule order.strict_trans1)
  have "0 \<le> ?k"
  proof (rule ccontr)
    assume "\<not> 0 \<le> ?k"
    then have "(2 :: rat) powi (?k + 1) \<le> 2 powi 0" by (intro power_int_increasing) simp_all
    with lt show False by linarith
  qed
  then have u: "unit_last_place ?x = 2 powi ?k / 2 ^ 52"
    by (simp add: unit_last_place_def pow2_eq power_int_diff max_def)
  note to_double_half_unit [of ?x]
  also have "1 / 2 * unit_last_place ?x = 2 powi ?k / 2 ^ 53" by (simp add: u)
  also have "\<dots> \<le> \<bar>?x\<bar> / 2 ^ 53"
    by (rule divide_right_mono [OF leading_bit_bounds(1)]) (simp_all add: False)
  finally show ?thesis .
qed

text \<open>An integer of up to 53 bits is a double.\<close>

lemma to_double_int:
  assumes "\<bar>c\<bar> \<le> 2 ^ 53"
  shows "to_double (of_int c) = of_int c"
proof -
  let ?u = "unit_last_place (of_int c)"
  have "\<exists>m. of_int c / ?u = of_int m"
  proof (cases "c = 0")
    case True
    then show ?thesis by (intro exI [of _ 0]) simp
  next
    case False
    let ?k = "leading_bit (of_int c)"
    have low: "(2 :: rat) powi ?k \<le> of_int \<bar>c\<bar>" using leading_bit_bounds(1) [of "of_int c"] False by simp
    have le: "of_int \<bar>c\<bar> \<le> (2 :: rat) powi 53"
    proof -
      have "(of_int \<bar>c\<bar> :: rat) \<le> of_int (2 ^ 53)" using assms by (simp only: of_int_le_iff)
      then show ?thesis by simp
    qed
    from low le have "(2 :: rat) powi ?k \<le> 2 powi 53" by (rule order.trans)
    then have k: "?k \<le> 53" by (rule power_int_le_imp_le_exp [rotated]) simp_all
    show ?thesis
    proof (cases "?k = 53")
      case True
      with low le have "of_int \<bar>c\<bar> = (of_int (2 ^ 53) :: rat)" by simp
      then have "\<bar>c\<bar> = 2 ^ 53" by (simp only: of_int_eq_iff)
      then have "c = 2 ^ 53 \<or> c = - (2 ^ 53)" by linarith
      moreover have "?u = 2" using True by (simp add: unit_last_place_def pow2_eq)
      ultimately have "of_int c / ?u = (of_int (c div 2) :: rat)" by (elim disjE) simp_all
      then show ?thesis by blast
    next
      case False
      define j where "j = nat (- max (?k - 52) (- 1074))"
      have "max (?k - 52) (- 1074) = - int j" using k False by (simp add: j_def)
      then have "?u = 1 / 2 ^ j" unfolding unit_last_place_def pow2_eq by (simp add: power_int_minus_divide)
      then have "of_int c / ?u = (of_int (c * 2 ^ j) :: rat)" by simp
      then show ?thesis by blast
    qed
  qed
  then obtain m where m: "of_int c / ?u = of_int m" ..
  then have "to_double (of_int c) = of_int m * ?u" by (simp add: to_double_def)
  also have "\<dots> = of_int c" using m unit_last_place_pos [of "of_int c"] by (simp add: field_simps)
  finally show ?thesis .
qed


section \<open>The conversions\<close>

lemma truncated_int: "truncated (of_int k) = k"
  by (simp add: truncated_def)

lemma truncated_near:
  assumes "\<bar>y - (of_int k + 1 / 2)\<bar> < 1 / 2" and "0 \<le> k"
  shows "truncated y = k"
proof -
  from assms(1) have y: "of_int k < y" "y < of_int k + 1" by linarith+
  moreover have "(0 :: rat) \<le> of_int k" using assms(2) by simp
  ultimately have "0 \<le> y" by linarith
  with y show ?thesis by (simp add: truncated_def floor_eq_iff)
qed

text \<open>What a comparison of rounded numbers says of the numbers themselves.\<close>

definition slack :: "rat \<Rightarrow> rat" where
  "slack z = z + \<bar>z\<bar> / 2 ^ 50 + 1 / 2 ^ 1000"

lemma rounded_le:
  assumes "\<bar>a - x\<bar> \<le> \<bar>x\<bar> / 2 ^ 53 + 1 / 2 ^ 1075" and "0 \<le> x" and "a \<le> to_double y"
    and "\<bar>y - z\<bar> \<le> \<bar>z\<bar> / 2 ^ 53"
  shows "x \<le> slack z"
proof -
  define q :: rat where "q = \<bar>z\<bar> / 2 ^ 53"
  define h :: rat where "h = 1 / 2 ^ 1075"
  have q: "0 \<le> q" "\<bar>z\<bar> / 2 ^ 50 = 8 * q" and h: "0 < h" "4 * h \<le> 1 / 2 ^ 1000" by (simp_all add: q_def h_def)
  have yz: "\<bar>y - z\<bar> \<le> q" using assms(4) by (simp add: q_def)
  have "\<bar>z\<bar> / 2 ^ 53 \<le> \<bar>z\<bar>" by simp
  with yz have "\<bar>y\<bar> \<le> 2 * \<bar>z\<bar>" unfolding q_def by linarith
  then have "\<bar>y\<bar> / 2 ^ 53 \<le> 2 * q" by (simp add: q_def)
  with to_double_error [of y] have "to_double y \<le> y + 2 * q + h" unfolding h_def by linarith
  with assms(3) yz have a: "a \<le> z + 3 * q + h" by linarith
  have "\<bar>a - x\<bar> \<le> x / 2 ^ 53 + h" using assms(1,2) by (simp add: h_def)
  then have x: "x - x / 2 ^ 53 \<le> z + 3 * q + 2 * h" using a by linarith
  show ?thesis
  proof (cases "x \<le> 2 * \<bar>z\<bar>")
    case True
    then have "x / 2 ^ 53 \<le> 2 * q" by (simp add: q_def)
    with x h q show ?thesis unfolding slack_def by linarith
  next
    case False
    moreover have "3 * q \<le> \<bar>z\<bar> / 4" by (simp add: q_def)
    moreover have "x / 2 ^ 53 \<le> x / 4" using assms(2) by (simp add: field_simps)
    ultimately have "x \<le> 16 * h" using x q by linarith
    then have "x / 2 ^ 53 \<le> h" using h(1) by (simp add: field_simps)
    with x h q show ?thesis unfolding slack_def by linarith
  qed
qed

text \<open>A double that is near a number of milliseconds is converted to that number: the integral
  part and the milliseconds have the sign of the double, and the rounding of the last two
  operations is too small to matter.\<close>

lemma internal_conversion_near:
  assumes "\<bar>1000 * D - of_int c\<bar> \<le> 1 / 4"
  shows "1000 * fst (internal_conversion D) + snd (internal_conversion D) = c"
proof -
  define G where "G = truncated D"
  define F where "F = D - of_int G"
  define k where "k = c - 1000 * G"
  have k: "\<bar>1000 * F - of_int k\<bar> \<le> 1 / 4" using assms by (simp add: F_def k_def algebra_simps)
  have F: "\<bar>F\<bar> < 1" "0 \<le> D \<Longrightarrow> 0 \<le> F \<and> 0 \<le> G" "D < 0 \<Longrightarrow> F \<le> 0 \<and> G \<le> 0"
    unfolding F_def G_def truncated_def by (simp_all add: abs_less_iff split: if_splits) linarith+
  define e where "e = to_double (1000 * F)"
  have e: "\<bar>e - 1000 * F\<bar> \<le> 1 / 32"
    using to_double_error [of "1000 * F"] F(1) unfolding e_def by (simp add: abs_mult)
  have near: "\<bar>to_double y - y\<bar> \<le> 1 / 32" if "\<bar>y\<bar> \<le> 1002" for y
    using to_double_error [of y] that by simp
  have ms: "internal_conversion D = (G, k) \<or> k = 1000 \<and> internal_conversion D = (G + 1, 0)
    \<or> k = - 1000 \<and> internal_conversion D = (G - 1, 0)"
  proof (cases "G < 0 \<or> F < 0")
    case True
    then have "F \<le> 0" using F(2,3) by (cases "0 \<le> D") auto
    with k have "k \<le> 0" by linarith
    moreover have "\<bar>to_double (1 / 2 - e) - (of_int (- k) + 1 / 2)\<bar> < 1 / 2"
    proof -
      have "\<bar>1 / 2 - e\<bar> \<le> 1002" using e F(1) by linarith
      from near [OF this] e k show ?thesis unfolding of_int_minus by linarith
    qed
    ultimately have "truncated (to_double (1 / 2 - e)) = - k" by (intro truncated_near) simp_all
    with True show ?thesis
      unfolding internal_conversion_def Let_def G_def [symmetric] F_def [symmetric] e_def [symmetric] by auto
  next
    case False
    then have "0 \<le> F" by simp
    with k have "0 \<le> k" by linarith
    moreover have "\<bar>to_double (1 / 2 + e) - (of_int k + 1 / 2)\<bar> < 1 / 2"
    proof -
      have "\<bar>1 / 2 + e\<bar> \<le> 1002" using e F(1) by linarith
      from near [OF this] e k show ?thesis by linarith
    qed
    ultimately have "truncated (to_double (1 / 2 + e)) = k" by (intro truncated_near) simp_all
    with False show ?thesis
      unfolding internal_conversion_def Let_def G_def [symmetric] F_def [symmetric] e_def [symmetric] by auto
  qed
  then show ?thesis by (auto simp: k_def)
qed

text \<open>The round trip of a duration of up to 2 to the power 50 milliseconds.\<close>

lemma double_duration:
  assumes "\<bar>d\<bar> \<le> 2 ^ 50"
  shows "convert_from_double (convert_to_double d) True = Inr d"
proof -
  have d: "\<bar>of_int d :: rat\<bar> \<le> 2 ^ 50"
    using assms by (metis of_int_abs of_int_le_iff of_int_numeral of_int_power)
  have bounds: "- TIME_BIT \<le> d" "d < TIME_BIT" using assms by (auto simp: TIME_BIT_def)
  then have "is_duration d" by (simp add: is_duration_def)
  then have D: "convert_to_double d = to_double (of_int d / 1000)"
    using to_double_int [of d] assms by (simp add: convert_to_double_def)
  have "\<bar>1000 * convert_to_double d - of_int d\<bar> \<le> 1 / 4"
  proof -
    have "\<bar>of_int d / 1000 :: rat\<bar> / 2 ^ 53 + 1 / 2 ^ 1075 \<le> 1 / 8000 + 1 / 8000"
      using d by (intro add_mono) simp_all
    with to_double_error [of "of_int d / 1000"]
    have "\<bar>to_double (of_int d / 1000) - of_int d / 1000\<bar> \<le> 1 / 4000" by linarith
    then show ?thesis unfolding D by linarith
  qed
  from internal_conversion_near [OF this] obtain a b where
    ab: "internal_conversion (convert_to_double d) = (a, b)" "1000 * a + b = d"
    by (cases "internal_conversion (convert_to_double d)") simp
  have "0 \<le> d \<or> has_time_bit d" using has_time_bit_cases(2) [of d] bounds(1) by linarith
  with ab show ?thesis
    by (auto simp: convert_from_double_def CTime_base_def pseudo_milliseconds_def mk_time_def Let_def)
qed

end
