(* ===== verification/SettableRes.thy ===== *)
theory SettableRes
  imports Doubles StateRes
begin

text \<open>
  Settable resources: \<open>RES_settable\<close> of \<open>src/src/apcore/resources/ResourceValue.C\<close> and
  \<open>ResourceUsage.C\<close>. A SET whose value
  is close to the one in force is filtered: it is not stored in the history but kept aside, and
  stored when a later SET passes the filter. At the end, the values of numeric and settable
  resources in the context of a thread, without a time given.
\<close>

section \<open>Values\<close>

text \<open>A \<open>double\<close> is a rational number, and the result of an operation on doubles is rounded by
  \<open>to_double\<close> of the theory \<open>Doubles\<close>. Arrays and instances are no values of resources.\<close>

datatype DATA_TYPE =
  BOOL_TYPE | DURATION_TYPE | FLOATING_TYPE | INTEGER_TYPE | STRING_TYPE | TIME_TYPE

datatype typed_value =
  FloatV rat
| IntegerV int
| BoolV bool
| StringV string
| TimeV int
| DurationV int

text \<open>The access functions of \<open>TypedValue\<close>; an uninitialized value is None.\<close>

fun value_get_int :: "typed_value option \<Rightarrow> int" where
  "value_get_int (Some (FloatV x)) = truncated x"
| "value_get_int (Some (IntegerV i)) = i"
| "value_get_int (Some (BoolV b)) = of_bool b"
| "value_get_int _ = 0"

fun get_double :: "typed_value option \<Rightarrow> rat" where
  "get_double (Some (FloatV x)) = x"
| "get_double (Some (IntegerV i)) = to_double (of_int i)"
| "get_double (Some (BoolV b)) = of_bool b"
| "get_double (Some (DurationV d)) = convert_to_double d"
| "get_double (Some (TimeV t)) = convert_to_double t"
| "get_double _ = 0"

fun get_time_or_duration :: "typed_value option \<Rightarrow> int result" where
  "get_time_or_duration (Some (TimeV t)) = Inr t"
| "get_time_or_duration (Some (DurationV d)) = Inr d"
| "get_time_or_duration _ = Inl (EvalError ''TypedValue::get_time_or_duration(): value is not a time'')"

fun get_string :: "typed_value \<Rightarrow> string result" where
  "get_string (StringV s) = Inr s"
| "get_string _ = Inl (EvalError ''get_string(): data type is '')"

fun is_equal_to :: "typed_value \<Rightarrow> typed_value \<Rightarrow> bool" where
  "is_equal_to (StringV a) (StringV b) = (a = b)"
| "is_equal_to (TimeV a) (TimeV b) = (a = b)"
| "is_equal_to (TimeV a) (DurationV b) = (a = b)"
| "is_equal_to (DurationV a) (TimeV b) = (a = b)"
| "is_equal_to (DurationV a) (DurationV b) = (a = b)"
| "is_equal_to (IntegerV a) (IntegerV b) = (a = b)"
| "is_equal_to (IntegerV a) (BoolV b) = (a = of_bool b)"
| "is_equal_to (BoolV a) (IntegerV b) = (of_bool a = b)"
| "is_equal_to (BoolV a) (BoolV b) = (a = b)"
| "is_equal_to (FloatV a) (FloatV b) = (truncated a = truncated b \<and> \<bar>to_double (a - b)\<bar> < to_double (1 / 10 ^ 15))"
| "is_equal_to _ _ = False"

text \<open>What a node of the history of a resource of a type stores of a value
  (\<open>settableFloatFactory\<close>, \<open>settableIntFactory\<close>, \<open>settableStringFactory\<close>, \<open>settableTimeFactory\<close>), as its \<open>get_value\<close>
  returns it.\<close>

fun settable_node_value :: "DATA_TYPE \<Rightarrow> typed_value \<Rightarrow> typed_value result" where
  "settable_node_value FLOATING_TYPE v = Inr (FloatV (get_double (Some v)))"
| "settable_node_value INTEGER_TYPE v = Inr (IntegerV (value_get_int (Some v)))"
| "settable_node_value BOOL_TYPE v = Inr (BoolV (value_get_int (Some v) \<noteq> 0))"
| "settable_node_value STRING_TYPE v = map_ok StringV (get_string v)"
| "settable_node_value TIME_TYPE v = map_ok TimeV (get_time_or_duration (Some v))"
| "settable_node_value DURATION_TYPE v = map_ok DurationV (get_time_or_duration (Some v))"

section \<open>The filter\<close>

text \<open>The attributes of the resource.\<close>

record filtering =
  has_nofiltering :: bool
  min_abs_delta :: "typed_value option"
  min_rel_delta :: "typed_value option"

text \<open>\<open>skip\<close>, computed from the value in force and the new one. The differences of times and
  durations are compared as \<open>long\<close> with the absolute bound, as \<open>double\<close> with the relative one; an
  integer in force is counted twice.\<close>

definition filter_skips :: "filtering \<Rightarrow> typed_value \<Rightarrow> typed_value \<Rightarrow> bool result" where
  "filter_skips f prev_value new_value =
     (let relDelta = to_double (get_double (min_rel_delta f) / 2);
          has_delta = (min_abs_delta f \<noteq> None \<or> min_rel_delta f \<noteq> None);
          by_time = (\<lambda>prev.
            bind_result (get_time_or_duration (Some new_value)) (\<lambda>newT.
            bind_result (get_time_or_duration (min_abs_delta f)) (\<lambda>m.
              let delta = \<bar>newT - prev\<bar> in
              Inr (\<not> (delta > m sdiv 2
                \<and> to_double (of_int delta) > to_double (relDelta * to_double (of_int \<bar>prev\<bar>)))))))
      in if has_nofiltering f then Inr False
         else if has_delta then
           (case prev_value of
              FloatV prev \<Rightarrow>
                (let delta = \<bar>to_double (get_double (Some new_value) - prev)\<bar>;
                     absDelta = to_double (get_double (min_abs_delta f) / 2)
                 in Inr (\<not> (delta > absDelta \<and> delta > to_double (relDelta * \<bar>prev\<bar>))))
            | TimeV p \<Rightarrow> by_time p
            | DurationV p \<Rightarrow> by_time p
            | IntegerV p \<Rightarrow>
                (let prev = p + p;
                     delta = to_double (of_int \<bar>value_get_int (Some new_value) - prev\<bar>);
                     absDelta = to_double (of_int (value_get_int (min_abs_delta f) sdiv 2))
                 in Inr (\<not> (delta > absDelta \<and> delta > to_double (relDelta * to_double (of_int \<bar>prev\<bar>)))))
            | _ \<Rightarrow> Inr False)
         else Inr (is_equal_to prev_value new_value))"

section \<open>The resource and its operations\<close>

text \<open>The history, what its nodes store, and the node in \<open>lastSkippedNodeContainer\<close>: its time, its
  value and its event identification.\<close>

record settable_res =
  settable_type :: DATA_TYPE
  settable_history :: res_history
  node_value :: "nat \<Rightarrow> typed_value option"
  lastSkippedNode :: "(int \<times> typed_value \<times> int) option"

text \<open>\<open>RES_history::Add\<close> of a node with a value.\<close>

definition settable_store :: "int \<Rightarrow> typed_value \<Rightarrow> int \<Rightarrow> settable_res \<Rightarrow> settable_res result" where
  "settable_store t v modelOrder s =
     (let n = next_node_address (settable_history s) in
      map_ok (\<lambda>h. s\<lparr>settable_history := h, node_value := (node_value s)(n \<mapsto> v)\<rparr>)
        (history_Add t 0 modelOrder (settable_history s)))"

definition settable_Add :: "int \<Rightarrow> typed_value \<Rightarrow> int \<Rightarrow> settable_res \<Rightarrow> settable_res result" where
  "settable_Add event_time new_value modelOrder s =
     bind_result
       (case lastSkippedNode s of
          None \<Rightarrow> Inr s
        | Some (t, v, p) \<Rightarrow> settable_store t v p (s\<lparr>lastSkippedNode := None\<rparr>))
       (\<lambda>s1. bind_result (settable_node_value (settable_type s1) new_value)
               (\<lambda>v. settable_store event_time v modelOrder s1))"

definition UpdateLastSkippedNode :: "int \<Rightarrow> typed_value \<Rightarrow> int \<Rightarrow> settable_res \<Rightarrow> settable_res result" where
  "UpdateLastSkippedNode event_time new_value modelOrder s =
     map_ok (\<lambda>v. s\<lparr>lastSkippedNode := Some (event_time, v, modelOrder)\<rparr>)
       (settable_node_value (settable_type s) new_value)"

definition settable_append ::
  "filtering \<Rightarrow> eval_context \<Rightarrow> typed_value \<Rightarrow> int \<Rightarrow> int \<Rightarrow> settable_res \<Rightarrow> settable_res result" where
  "settable_append f c new_value start_event_time start_event_id s =
     bind_result (find_closest c start_event_time (settable_history s)) (\<lambda>closest_node.
       bind_result
         (case closest_node of
            None \<Rightarrow> Inr False
          | Some a \<Rightarrow>
            (case node_value s (ident a) of
               None \<Rightarrow> Inl NullAccess
             | Some prev_value \<Rightarrow> filter_skips f prev_value new_value))
         (\<lambda>skip.
            if skip then UpdateLastSkippedNode start_event_time new_value start_event_id s
            else settable_Add start_event_time new_value start_event_id s))"

definition settable_immediately_append ::
  "filtering \<Rightarrow> eval_context \<Rightarrow> typed_value \<Rightarrow> settable_res \<Rightarrow> (int \<times> settable_res) result" where
  "settable_immediately_append f c new_value s =
     map_ok (Pair (last_event_id c + 1))
       (settable_append f (c\<lparr>last_event_id := last_event_id c + 1\<rparr>) new_value (get_now c)
          (last_event_id c + 1) s)"

definition settable_execute_set ::
  "filtering \<Rightarrow> eval_context \<Rightarrow> typed_value \<Rightarrow> int \<Rightarrow> int \<Rightarrow> bool \<Rightarrow> settable_res \<Rightarrow>
     (int \<times> settable_res) result" where
  "settable_execute_set f c evaluated_value E_etime E_id immed s =
     (if immed then settable_immediately_append f c evaluated_value s
      else map_ok (Pair (last_event_id c)) (settable_append f c evaluated_value E_etime E_id s))"

text \<open>\<open>RES_history::clear\<close> and the two versions of \<open>initialize_value\<close>. The profile of a settable
  resource does not depend on the time.\<close>

definition settable_clear :: "settable_res \<Rightarrow> settable_res" where
  "settable_clear s = s\<lparr>settable_history := history_clear (settable_history s), lastSkippedNode := None\<rparr>"

definition settable_initialize ::
  "bool \<Rightarrow> typed_value result \<Rightarrow> int \<Rightarrow> int \<Rightarrow> settable_res \<Rightarrow> settable_res result" where
  "settable_initialize second_scheduling_pass profile source_time source_id s =
     (let h = settable_history s in
      if Frozen h then Inl (EvalError ''initialize_value: Resource '')
      else if Imported h then Inr (s\<lparr>settable_history := h\<lparr>Imported := False\<rparr>\<rparr>)
      else
        (let s1 = (if second_scheduling_pass then s else settable_clear s) in
         bind_result (naming_resource ''RES_settable::initialize_value ERROR:'' profile)
           (\<lambda>v. settable_Add source_time v source_id s1)))"

definition settable_initialize_imported ::
  "typed_value result \<Rightarrow> int \<Rightarrow> settable_res \<Rightarrow> settable_res result" where
  "settable_initialize_imported profile T s =
     bind_result profile
       (\<lambda>v. settable_Add T v 0
              (settable_clear (s\<lparr>settable_history := (settable_history s)\<lparr>Frozen := False, Imported := True\<rparr>\<rparr>)))"

section \<open>The values in a context\<close>

text \<open>\<open>latestHistNodeBeforeModelTime\<close>, in the modelling thread and in a trailing thread.\<close>

fun walk_forward_before :: "int \<Rightarrow> prio_time lnode \<Rightarrow> prio_time lnode list \<Rightarrow> prio_time lnode" where
  "walk_forward_before t N [] = N"
| "walk_forward_before t N (M # Ms) = (if etime (Key M) < t then walk_forward_before t M Ms else N)"

definition latestHistNodeBeforeModelTime ::
  "bool \<Rightarrow> int \<Rightarrow> int \<Rightarrow> hist_iter option \<Rightarrow> res_history \<Rightarrow> prio_time lnode option result" where
  "latestHistNodeBeforeModelTime model_thread event_time currentEventID iter_at_model_time h =
     (case iter_at_model_time of
        None \<Rightarrow> Inl (EvalError ''Resource '')
      | Some iter \<Rightarrow>
        (case (if model_thread then iterNode iter else getPrev iter) of
           None \<Rightarrow> Inr (latestHistNodeAtOrBefore event_time currentEventID h)
         | Some n \<Rightarrow>
           (case backward n h of
              [] \<Rightarrow> Inl NullAccess
            | N # earlier \<Rightarrow>
              (case dropWhile (\<lambda>M. etime (Key M) \<ge> event_time) (N # earlier) of
                 [] \<Rightarrow> Inr None
               | M # _ \<Rightarrow> Inr (Some (walk_forward_before event_time M (tl (forward (ident M) h))))))))"

text \<open>A thread that evaluates: the modelling thread, the thread of the constraints, or another one.
  \<open>eval_time\<close> and \<open>use_miterator\<close> are the same in \<open>RES_numeric::eval_val_within_thread(value)\<close> and
  \<open>RES_settable::evaluate_present_value(value)\<close>, and so is the search of the node.\<close>

record thread_context = eval_context +
  in_constraint_thread :: bool

definition eval_point :: "thread_context \<Rightarrow> (int \<times> bool) result" where
  "eval_point c =
     (if in_constraint_thread c
      then (if res_miter_data c = None then Inl AssertFailed else Inr (thread_time c, True))
      else (case res_miter_data c of
              None \<Rightarrow> Inr (get_now c, False)
            | Some _ \<Rightarrow> Inr (get_now c, get_now c = thread_time c)))"

definition context_strategy :: "thread_context \<Rightarrow> strategy" where
  "context_strategy c = (case res_miter_data c of None \<Rightarrow> NORMAL | Some _ \<Rightarrow> the_strategy c)"

definition present_node :: "thread_context \<Rightarrow> res_history \<Rightarrow> (int \<times> prio_time lnode option) result" where
  "present_node c h =
     bind_result (eval_point c) (\<lambda>(eval_time, use_miterator).
       map_ok (Pair eval_time)
         (case (use_miterator, res_miter_data c, context_strategy c) of
            (True, Some iter, NORMAL) \<Rightarrow>
              latestHistNodeAtOrBeforeModelTime (in_model_thread c) eval_time (last_event_id c) iter h
          | (True, Some iter, BEFORE) \<Rightarrow>
              latestHistNodeBeforeModelTime (in_model_thread c) eval_time (last_event_id c) iter h
          | (_, _, NORMAL) \<Rightarrow> Inr (latestHistNodeAtOrBefore eval_time (last_event_id c) h)
          | (_, _, BEFORE) \<Rightarrow> Inr (latestHistNodeBefore eval_time h)))"

definition numeric_present_value ::
  "(int \<Rightarrow> num_value result) \<Rightarrow> thread_context \<Rightarrow> res_history \<Rightarrow> num_value result" where
  "numeric_present_value profile c h =
     bind_result (present_node c h) (\<lambda>(eval_time, found). value_from profile eval_time found h)"

text \<open>The value of a settable resource at a time and in a context.\<close>

definition settable_value_from ::
  "typed_value result \<Rightarrow> prio_time lnode option \<Rightarrow> settable_res \<Rightarrow> typed_value result" where
  "settable_value_from profile found s =
     (case found of
        None \<Rightarrow> naming_resource '': evaluate present value: error computing profile'' profile
      | Some a \<Rightarrow> (case node_value s (ident a) of None \<Rightarrow> Inl NullAccess | Some v \<Rightarrow> Inr v))"

definition settable_eval_at ::
  "typed_value result \<Rightarrow> thread_context \<Rightarrow> int \<Rightarrow> settable_res \<Rightarrow> typed_value result" where
  "settable_eval_at profile c eval_time s =
     settable_value_from profile
       (case context_strategy c of
          NORMAL \<Rightarrow> latestHistNodeAtOrBefore eval_time (last_event_id c) (settable_history s)
        | BEFORE \<Rightarrow> latestHistNodeBefore eval_time (settable_history s)) s"

definition settable_eval ::
  "typed_value result \<Rightarrow> thread_context \<Rightarrow> settable_res \<Rightarrow> typed_value result" where
  "settable_eval profile c s =
     bind_result (present_node c (settable_history s)) (\<lambda>(_, found). settable_value_from profile found s)"

end
