(* ===== verification/PartialHistory.thy ===== *)
theory PartialHistory
  imports SettableRes
begin

text \<open>
  The history of a resource between two times, as a program of the adaptation asks for it:
  \<open>get_partial_history\<close> and \<open>get_partial_numeric_history\<close>, \<open>get_partial_settable_history\<close>,
  \<open>get_partial_state_history\<close> of \<open>src/src/apcore/resources/ResourceValue.C\<close>. The iterator runs over
  the history and those of the resources that the profile depends on; the nodes it delivers, in
  the order of time, are an argument: the time of each, and its address if it is in the history
  of the resource itself.
\<close>

type_synonym delivered = "int \<times> nat option"

text \<open>The two arrays of the result.\<close>

record 'v partial_history =
  times :: "int list"
  vals :: "'v list"

definition get_partial_history :: "(int \<times> 'v) list \<Rightarrow> 'v partial_history" where
  "get_partial_history l = \<lparr>times = map fst l, vals = map snd l\<rparr>"

section \<open>Settable and numeric resources\<close>

text \<open>The nodes before the start are passed; the node that is current then is left out as well.\<close>

fun pass_earlier :: "int \<Rightarrow> delivered list \<Rightarrow> delivered list" where
  "pass_earlier start_time [] = []"
| "pass_earlier start_time (n # ns) = (if fst n < start_time then pass_earlier start_time ns else n # ns)"

definition go_to_start :: "int \<Rightarrow> bool \<Rightarrow> delivered list \<Rightarrow> delivered list" where
  "go_to_start start_time all_nodes_flag ns =
     (case ns of
        [] \<Rightarrow> []
      | current_node # later \<Rightarrow>
          (if \<not> all_nodes_flag \<and> fst current_node < start_time then pass_earlier start_time later
           else later))"

fun settable_window ::
  "int \<Rightarrow> bool \<Rightarrow> (nat \<Rightarrow> typed_value option) \<Rightarrow> delivered list \<Rightarrow> (int \<times> typed_value) list result" where
  "settable_window end_time all_nodes_flag value_at [] = Inr []"
| "settable_window end_time all_nodes_flag value_at ((t, own) # ns) =
     (if t > end_time \<and> \<not> all_nodes_flag then Inr []
      else case own of
        None \<Rightarrow> Inl AssertFailed
      | Some a \<Rightarrow>
          (case value_at a of
             None \<Rightarrow> Inl NullAccess
           | Some v \<Rightarrow> map_ok ((#) (t, v)) (settable_window end_time all_nodes_flag value_at ns)))"

definition get_partial_settable_history ::
  "int \<Rightarrow> int \<Rightarrow> bool \<Rightarrow> delivered list \<Rightarrow> settable_res \<Rightarrow> (int \<times> typed_value) list result" where
  "get_partial_settable_history start_time time_span all_nodes_flag ns s =
     settable_window (time_add start_time time_span) all_nodes_flag (node_value s)
       (go_to_start start_time all_nodes_flag ns)"

text \<open>The first node of the resource itself at the current time, if there is one.\<close>

fun seek_local :: "delivered \<Rightarrow> delivered list \<Rightarrow> delivered \<times> delivered list" where
  "seek_local (t, Some a) ns = ((t, Some a), ns)"
| "seek_local (t, None) [] = ((t, None), [])"
| "seek_local (t, None) (n # ns) = (if fst n = t then seek_local n ns else ((t, None), n # ns))"

lemma seek_local_length: "seek_local n ns = (m, ms) \<Longrightarrow> length ms < Suc (length ns)"
  by (induction n ns rule: seek_local.induct) (auto split: if_splits)

text \<open>The value of the profile less the consumption at a node. An integer consumption is read as a
  \<open>double\<close>; a duration is read as a \<open>double\<close> number of seconds at a node of the resource itself, and
  as it is at the node before.\<close>

fun less_node_value :: "bool \<Rightarrow> num_value \<Rightarrow> true_long \<Rightarrow> num_value result" where
  "less_node_value node_is_local (INTEGER v) c =
     Inr (INTEGER (v - word_of_int (truncated (to_double (of_int (sint c))))))"
| "less_node_value node_is_local (TIME_OR_DURATION p) c =
     bind_result
       (if node_is_local then convert_from_double (convert_to_double (sint c)) True else Inr (sint c))
       (\<lambda>d. bind_result (time_sub p d) (\<lambda>r. Inr (TIME_OR_DURATION r)))"

definition less_consumption ::
  "bool \<Rightarrow> num_value \<Rightarrow> nat option \<Rightarrow> res_history \<Rightarrow> num_value result" where
  "less_consumption node_is_local profile_value node h =
     (case node of
        None \<Rightarrow> Inr profile_value
      | Some a \<Rightarrow>
          (case get_int_consumption a (tree (historyList h)) of
             None \<Rightarrow> Inl NullAccess
           | Some c \<Rightarrow> less_node_value node_is_local profile_value c))"

function numeric_window ::
  "int \<Rightarrow> bool \<Rightarrow> (int \<Rightarrow> num_value result) \<Rightarrow> res_history \<Rightarrow> nat option \<Rightarrow> delivered list \<Rightarrow>
     (int \<times> num_value) list result" where
  "numeric_window end_time all_nodes_flag profile h previous_consuming_node [] = Inr []"
| "numeric_window end_time all_nodes_flag profile h previous_consuming_node (n # ns) =
     (if fst n > end_time \<and> \<not> all_nodes_flag then Inr []
      else
        (let (current_node, later) = seek_local n ns;
             consuming_node = (case snd current_node of
                                 None \<Rightarrow> previous_consuming_node
                               | Some a \<Rightarrow> Some a)
         in bind_result
              (naming_resource ''get_vals_from_miterator error for resource '' (profile (fst current_node)))
              (\<lambda>profile_value.
                bind_result (less_consumption (snd current_node \<noteq> None) profile_value consuming_node h) (\<lambda>current_value.
                  map_ok ((#) (fst current_node, current_value))
                    (numeric_window end_time all_nodes_flag profile h consuming_node later)))))"
  by pat_completeness auto
termination
  by (relation "measure (\<lambda>(_, _, _, _, _, ns). length ns)")
    (auto dest: seek_local_length [OF sym])

definition get_partial_numeric_history ::
  "int \<Rightarrow> int \<Rightarrow> bool \<Rightarrow> (int \<Rightarrow> num_value result) \<Rightarrow> delivered list \<Rightarrow> res_history \<Rightarrow>
     (int \<times> num_value) list result" where
  "get_partial_numeric_history start_time time_span all_nodes_flag profile ns h =
     numeric_window (time_add start_time time_span) all_nodes_flag profile h None
       (go_to_start start_time all_nodes_flag ns)"

section \<open>State resources\<close>

text \<open>The variables of the loop: the usages that are pending, the last SET or RESET with its value and
  whether it is a SET, the value in force, None while it is uninitialized, and the values given to
  END nodes.\<close>

record 'v state_scan =
  stack :: "(nat \<times> 'v) list"
  last_set_node :: "('v \<times> bool) option"
  value_to_use :: "'v option"
  end_values :: "(nat \<times> 'v) list"

definition last_is_set :: "'v state_scan \<Rightarrow> 'v option" where
  "last_is_set q = (case last_set_node q of Some (v, True) \<Rightarrow> Some v | _ \<Rightarrow> None)"

definition scan_own ::
  "(int \<Rightarrow> 'v result) \<Rightarrow> int \<Rightarrow> nat \<Rightarrow> 'v st_value_node \<Rightarrow> 'v state_scan \<Rightarrow> 'v state_scan result" where
  "scan_own profile t a p q =
     (case res_val_type p of
        START_USING \<Rightarrow> Inr (q\<lparr>stack := stack q @ [(a, val p)], value_to_use := Some (val p)\<rparr>)
      | END_USING \<Rightarrow>
          (let st = (case an_Other p of
                       None \<Rightarrow> stack q
                     | Some b \<Rightarrow> filter (\<lambda>e. fst e \<noteq> b) (stack q));
               q1 = q\<lparr>stack := st\<rparr> in
           case last_opt st of
             Some (_, v) \<Rightarrow> Inr (q1\<lparr>value_to_use := Some v, end_values := end_values q @ [(a, v)]\<rparr>)
           | None \<Rightarrow>
               (case last_is_set q of
                  Some v \<Rightarrow> Inr (q1\<lparr>value_to_use := Some v, end_values := end_values q @ [(a, v)]\<rparr>)
                | None \<Rightarrow>
                    map_ok (\<lambda>v. q1\<lparr>value_to_use := Some v\<rparr>)
                      (naming_resource ''get_vals_from_miterator error for resource '' (profile t))))
      | SET \<Rightarrow> Inr (q\<lparr>last_set_node := Some (val p, True),
                      value_to_use := (if stack q = [] then Some (val p) else value_to_use q)\<rparr>)
      | RESET \<Rightarrow> Inr (q\<lparr>last_set_node := Some (val p, False),
                        value_to_use := (if stack q = [] then Some (val p) else value_to_use q)\<rparr>)
      | DON_T_CARE \<Rightarrow> Inr q)"

definition scan_profile :: "(int \<Rightarrow> 'v result) \<Rightarrow> int \<Rightarrow> 'v state_scan \<Rightarrow> 'v state_scan result" where
  "scan_profile evaluate t q =
     (if stack q = [] \<and> last_is_set q = None
      then map_ok (\<lambda>v. q\<lparr>value_to_use := Some v\<rparr>) (evaluate t)
      else Inr q)"

fun state_window ::
  "int \<Rightarrow> int \<Rightarrow> bool \<Rightarrow> (int \<Rightarrow> 'v result) \<Rightarrow> (int \<Rightarrow> 'v result) \<Rightarrow> (nat \<Rightarrow> 'v st_value_node option) \<Rightarrow>
     'v state_scan \<Rightarrow> delivered list \<Rightarrow> ((int \<times> 'v) list \<times> (nat \<times> 'v) list) result" where
  "state_window start_time end_time all_nodes_flag profile evaluate pay q [] = Inr ([], end_values q)"
| "state_window start_time end_time all_nodes_flag profile evaluate pay q ((t, own) # ns) =
     bind_result
       (case own of
          None \<Rightarrow> scan_profile evaluate t q
        | Some a \<Rightarrow>
            (case pay a of None \<Rightarrow> Inl NullAccess | Some p \<Rightarrow> scan_own profile t a p q))
       (\<lambda>q1.
         let entry = (case value_to_use q1 of
                        None \<Rightarrow> []
                      | Some v \<Rightarrow> if all_nodes_flag \<or> start_time \<le> t \<and> t \<le> end_time
                                  then [(t, v)] else [])
         in if t \<ge> end_time \<and> \<not> all_nodes_flag then Inr (entry, end_values q1)
            else map_ok (\<lambda>(l, e). (entry @ l, e))
                   (state_window start_time end_time all_nodes_flag profile evaluate pay q1 ns))"

definition get_partial_state_history ::
  "int \<Rightarrow> int \<Rightarrow> bool \<Rightarrow> (int \<Rightarrow> 'v result) \<Rightarrow> eval_context \<Rightarrow> delivered list \<Rightarrow> 'v res_state \<Rightarrow>
     ((int \<times> 'v) list \<times> 'v res_state) result" where
  "get_partial_state_history start_time time_span all_nodes_flag profile c ns s =
     map_ok (\<lambda>(l, e). (l, fold (\<lambda>(a, v). put_payload (\<lambda>p. p\<lparr>val := v\<rparr>) a) e s))
       (state_window start_time (time_add start_time time_span) all_nodes_flag profile
          (\<lambda>u. state_eval_at profile c u s) (payload s)
          \<lparr>stack = [], last_set_node = None, value_to_use = None, end_values = []\<rparr> ns)"

end
