(* ===== verification/SettableValues.thy ===== *)
theory SettableValues
  imports SettableRes StateValues
begin

text \<open>
  What the filter of a settable resource makes of a sequence of SETs: the contents of the history
  against the values that were set.
\<close>

section \<open>Filtered lists\<close>

text \<open>How far a value that is reported may be from the one that was set. Where the resource has an
  absolute or a relative difference: a number or a time is within half of the absolute difference,
  or within half of the relative one times the value that is reported; \<open>slack\<close> is for the
  rounding of doubles. Where it has none, two doubles are equal up to \<open>1.0e-15\<close>. Everything else
  is the value that was set.\<close>

definition filters_differences :: "filtering \<Rightarrow> bool" where
  "filters_differences f \<longleftrightarrow>
     \<not> has_nofiltering f \<and> (min_abs_delta f \<noteq> None \<or> min_rel_delta f \<noteq> None)"

definition half_relative :: "filtering \<Rightarrow> rat" where
  "half_relative f = to_double (get_double (min_rel_delta f) / 2)"

definition within_half :: "filtering \<Rightarrow> int \<Rightarrow> int \<Rightarrow> int \<Rightarrow> bool" where
  "within_half f absolute reported wanted \<longleftrightarrow>
     2 * \<bar>wanted - reported\<bar> \<le> absolute
     \<or> of_int \<bar>wanted - reported\<bar> \<le> slack (half_relative f * of_int \<bar>reported\<bar>)"

definition absolute_time :: "filtering \<Rightarrow> int" where
  "absolute_time f = (case get_time_or_duration (min_abs_delta f) of Inr m \<Rightarrow> m | Inl _ \<Rightarrow> 0)"

fun tolerates :: "filtering \<Rightarrow> typed_value \<Rightarrow> typed_value \<Rightarrow> bool" where
  "tolerates f (FloatV reported) (FloatV wanted) =
     (reported = wanted
      \<or> (if filters_differences f
         then \<bar>wanted - reported\<bar> \<le> slack (get_double (min_abs_delta f) / 2)
           \<or> \<bar>wanted - reported\<bar> \<le> slack (half_relative f * \<bar>reported\<bar>)
         else \<not> has_nofiltering f \<and> \<bar>wanted - reported\<bar> \<le> slack (1 / 10 ^ 15)))"
| "tolerates f (IntegerV reported) (IntegerV wanted) =
     (reported = wanted
      \<or> filters_differences f \<and> within_half f (value_get_int (min_abs_delta f)) reported wanted)"
| "tolerates f (TimeV reported) (TimeV wanted) =
     (reported = wanted \<or> filters_differences f \<and> within_half f (absolute_time f) reported wanted)"
| "tolerates f (DurationV reported) (DurationV wanted) =
     (reported = wanted \<or> filters_differences f \<and> within_half f (absolute_time f) reported wanted)"
| "tolerates f reported wanted = (reported = wanted)"

lemma tolerates_refl [simp]: "tolerates f v v"
  by (cases v) auto

lemma typed_cases:
  assumes "settable_node_value ty v = Inr v"
  obtains x where "ty = FLOATING_TYPE" "v = FloatV x" | i where "ty = INTEGER_TYPE" "v = IntegerV i" | b where "ty = BOOL_TYPE" "v = BoolV b"
  | s where "ty = STRING_TYPE" "v = StringV s" | t where "ty = TIME_TYPE" "v = TimeV t"
  | d where "ty = DURATION_TYPE" "v = DurationV d"
  using assms by (cases ty; cases v) auto

text \<open>What the filter skips is within the tolerance, except for an integer with a difference.\<close>

definition no_integer_delta :: "filtering \<Rightarrow> DATA_TYPE \<Rightarrow> bool" where
  "no_integer_delta f ty \<longleftrightarrow> ty = INTEGER_TYPE \<longrightarrow> \<not> filters_differences f"

lemma abs_to_double_error: "\<bar>\<bar>to_double x\<bar> - \<bar>x\<bar>\<bar> \<le> \<bar>\<bar>x\<bar>\<bar> / 2 ^ 53 + 1 / 2 ^ 1075"
  using to_double_error [of x] by (simp only: abs_abs)

lemma float_skipped:
  assumes "filters_differences f"
    and "\<not> (\<bar>to_double (w - r)\<bar> > to_double (get_double (min_abs_delta f) / 2)
        \<and> \<bar>to_double (w - r)\<bar> > to_double (half_relative f * \<bar>r\<bar>))"
  shows "tolerates f (FloatV r) (FloatV w)"
proof -
  note near = rounded_le [OF abs_to_double_error [of "w - r"] abs_ge_zero]
  have "\<bar>w - r\<bar> \<le> slack y" if "\<bar>to_double (w - r)\<bar> \<le> to_double y" for y
    using near [OF that, of y] by simp
  with assms show ?thesis by (auto simp: not_less)
qed

lemma time_skipped:
  assumes "\<not> (\<bar>w - r\<bar> > m sdiv 2
      \<and> to_double (of_int \<bar>w - r\<bar>) > to_double (half_relative f * to_double (of_int \<bar>r\<bar>)))"
  shows "r = w \<or> within_half f m r w"
proof (cases "\<bar>w - r\<bar> > m sdiv 2")
  case True
  let ?p = "of_int \<bar>r\<bar> :: rat"
  have "\<bar>half_relative f * to_double ?p - half_relative f * ?p\<bar> = \<bar>half_relative f\<bar> * \<bar>to_double ?p - ?p\<bar>"
    by (simp add: abs_mult flip: right_diff_distrib)
  also have "\<dots> \<le> \<bar>half_relative f\<bar> * (\<bar>?p\<bar> / 2 ^ 53)"
    using to_double_int_error [of "\<bar>r\<bar>"] by (intro mult_left_mono) simp_all
  also have "\<dots> = \<bar>half_relative f * ?p\<bar> / 2 ^ 53" by (simp add: abs_mult)
  finally have "of_int \<bar>w - r\<bar> \<le> slack (half_relative f * ?p)"
    using True assms by (intro rounded_le [OF to_double_error]) (simp_all add: not_less)
  then show ?thesis by (simp add: within_half_def)
next
  case False
  then have "\<bar>w - r\<bar> \<le> m sdiv 2" by simp
  then have "2 * \<bar>w - r\<bar> \<le> m \<or> w = r"
  proof (cases "0 \<le> m")
    case True
    then have "m sdiv 2 = m div 2" by (simp add: signed_divide_int_def sgn_if)
    with \<open>\<bar>w - r\<bar> \<le> m sdiv 2\<close> show ?thesis by arith
  next
    case False
    then have "m sdiv 2 \<le> 0" by (simp add: signed_divide_int_def sgn_if)
    with \<open>\<bar>w - r\<bar> \<le> m sdiv 2\<close> show ?thesis by arith
  qed
  then show ?thesis by (auto simp: within_half_def)
qed

lemma skips_tolerates:
  assumes skip: "filter_skips f r w = Inr True" and r: "settable_node_value ty r = Inr r"
    and w: "settable_node_value ty w = Inr w" and "no_integer_delta f ty"
  shows "tolerates f r w"
proof (cases "filters_differences f")
  case True
  then have f: "\<not> has_nofiltering f" "min_abs_delta f \<noteq> None \<or> min_rel_delta f \<noteq> None"
    by (simp_all add: filters_differences_def)
  have times: "x = y \<or> within_half f (absolute_time f) x y"
    if "r = TimeV x \<and> w = TimeV y \<or> r = DurationV x \<and> w = DurationV y" for x y
    using skip f that
    by (intro time_skipped) (auto simp: filter_skips_def absolute_time_def half_relative_def bind_result_ok
        Let_def split: sum.splits)
  show ?thesis
    using r
  proof (cases rule: typed_cases)
    case (1 x)
    with w obtain y where y: "w = FloatV y" by (cases w) auto
    show ?thesis unfolding 1(2) y
      using skip f by (intro float_skipped [OF True]) (simp add: filter_skips_def 1(2) y half_relative_def Let_def)
  next
    case 2
    with True assms(4) show ?thesis by (simp add: no_integer_delta_def)
  next
    case 3
    with skip f show ?thesis by (simp add: filter_skips_def Let_def)
  next
    case 4
    with skip f show ?thesis by (simp add: filter_skips_def Let_def)
  next
    case (5 x)
    with w obtain y where "w = TimeV y" by (cases w) auto
    with 5 times True show ?thesis by simp
  next
    case (6 x)
    with w obtain y where "w = DurationV y" by (cases w) auto
    with 6 times True show ?thesis by simp
  qed
next
  case False
  with skip have eq: "\<not> has_nofiltering f" "is_equal_to r w"
    by (auto simp: filter_skips_def filters_differences_def Let_def split: if_splits)
  show ?thesis
    using r
  proof (cases rule: typed_cases)
    case (1 x)
    with w obtain y where y: "w = FloatV y" by (cases w) auto
    have "\<bar>x - y\<bar> \<le> slack (1 / 10 ^ 15)"
      using eq(2) rounded_le [OF abs_to_double_error [of "x - y"] abs_ge_zero, of "1 / 10 ^ 15" "1 / 10 ^ 15"]
      by (simp add: 1 y)
    with False eq(1) show ?thesis by (simp add: 1 y abs_minus_commute)
  qed (use w eq(2) in \<open>cases w; simp\<close>)+
qed

text \<open>The value of a list at the times that count for \<open>P\<close>, and the next one.\<close>

definition value_in_force :: "(int \<Rightarrow> bool) \<Rightarrow> (int \<times> typed_value) list \<Rightarrow> typed_value" where
  "value_in_force P xs = snd (last (filter (\<lambda>x. P (fst x)) xs))"

definition next_value :: "(int \<Rightarrow> bool) \<Rightarrow> (int \<times> typed_value) list \<Rightarrow> typed_value option" where
  "next_value P xs =
     (case filter (\<lambda>x. \<not> P (fst x)) xs of [] \<Rightarrow> None | x # _ \<Rightarrow> Some (snd x))"

text \<open>A value that is reported may stand for the value that was set last if it is within the tolerance
  of it, and if it is not that value itself, also of the one that is set next: a jump does not
  change what was before it.\<close>

definition stands_for ::
  "filtering \<Rightarrow> (int \<Rightarrow> bool) \<Rightarrow> (int \<times> typed_value) list \<Rightarrow> typed_value \<Rightarrow> bool" where
  "stands_for f P sets reported \<longleftrightarrow>
     tolerates f reported (value_in_force P sets)
     \<and> (reported = value_in_force P sets
        \<or> (case next_value P sets of None \<Rightarrow> True | Some v \<Rightarrow> tolerates f reported v))"

text \<open>\<open>covers f stored sets\<close>: at every time from the first SET on, the value in force in the list that
  is stored may stand for the one that was set.\<close>

definition covers :: "filtering \<Rightarrow> (int \<times> typed_value) list \<Rightarrow> (int \<times> typed_value) list \<Rightarrow> bool" where
  "covers f stored sets \<longleftrightarrow>
     (\<forall>strategy u. counts_at strategy u (fst (hd sets)) \<longrightarrow>
        filter (\<lambda>x. counts_at strategy u (fst x)) stored \<noteq> []
        \<and> stands_for f (counts_at strategy u) sets (value_in_force (counts_at strategy u) stored))"

lemma value_in_force_append [simp]:
  "value_in_force P (xs @ [(t, v)]) = (if P t then v else value_in_force P xs)"
  by (simp add: value_in_force_def)

lemma value_in_force_last: "xs \<noteq> [] \<Longrightarrow> P (fst (last xs)) \<Longrightarrow> value_in_force P xs = snd (last xs)"
  using value_in_force_append [of P "butlast xs" "fst (last xs)" "snd (last xs)"] by simp

lemma next_value_append:
  "next_value P (xs @ [(t, v)]) =
     (case next_value P xs of None \<Rightarrow> if P t then None else Some v | Some w \<Rightarrow> Some w)"
  by (simp add: next_value_def split: list.split)

lemma next_value_None: "next_value P xs = None \<longleftrightarrow> (\<forall>x\<in>set xs. P (fst x))"
proof -
  have "next_value P xs = None \<longleftrightarrow> filter (\<lambda>x. \<not> P (fst x)) xs = []"
    by (simp add: next_value_def split: list.split)
  then show ?thesis by (simp add: filter_empty_conv)
qed

lemma covers_start: "covers f [(t, v)] [(t, v)]"
  by (simp add: covers_def stands_for_def value_in_force_def)

lemma covers_store:
  assumes "covers f stored sets" and "sets \<noteq> []" and "stored \<noteq> []" and "last stored = last sets"
  shows "covers f (stored @ [(t, v)]) (sets @ [(t, v)])"
proof -
  have "value_in_force P stored = value_in_force P sets" if "next_value P sets = None" for P
    using that assms(2-4) last_in_set [OF assms(2)] by (simp add: next_value_None value_in_force_last)
  with assms(1,2) show ?thesis
    by (auto simp: covers_def stands_for_def next_value_append split: option.splits)
qed

lemma covers_flush:
  assumes "covers f stored sets" and "sets \<noteq> []" and "last sets = (t, v)"
  shows "covers f (stored @ [(t, v)]) sets"
proof -
  have "value_in_force P sets = v" if "P t" for P
    using value_in_force_last [OF assms(2)] assms(3) that by simp
  with assms(1) show ?thesis by (auto simp: covers_def stands_for_def)
qed

lemma covers_skip:
  assumes "covers f stored sets" and "sets \<noteq> []" and "stored \<noteq> []"
    and early: "fst (last stored) \<le> fst (last sets)" "\<forall>x\<in>set sets. fst x \<le> t"
    and tol: "tolerates f (snd (last stored)) v"
  shows "covers f stored (sets @ [(t, v)])"
proof -
  have down: "counts_at strategy u t' \<Longrightarrow> s \<le> t' \<Longrightarrow> counts_at strategy u s" for strategy u s t'
    using counts_at_down by blast
  have reported: "value_in_force (counts_at strategy u) stored = snd (last stored)"
    if "counts_at strategy u (fst (last sets))" for strategy u
    using that early(1) down value_in_force_last [OF assms(3)] by blast
  have "stands_for f (counts_at strategy u) (sets @ [(t, v)]) (value_in_force (counts_at strategy u) stored)"
    if ok: "stands_for f (counts_at strategy u) sets (value_in_force (counts_at strategy u) stored)" for strategy u
  proof (cases "counts_at strategy u t")
    case True
    then have all: "\<forall>x\<in>set sets. counts_at strategy u (fst x)" using early(2) down by blast
    with reported last_in_set [OF assms(2)] have "value_in_force (counts_at strategy u) stored = snd (last stored)" by blast
    with True all tol show ?thesis
      using next_value_None [of "counts_at strategy u" sets] by (simp add: stands_for_def next_value_append)
  next
    case False
    show ?thesis
    proof (cases "next_value (counts_at strategy u) sets")
      case None
      with reported last_in_set [OF assms(2)] have "value_in_force (counts_at strategy u) stored = snd (last stored)"
        unfolding next_value_None by blast
      with ok False None tol show ?thesis by (simp add: stands_for_def next_value_append)
    next
      case (Some w)
      with ok False show ?thesis by (simp add: stands_for_def next_value_append)
    qed
  qed
  with assms(1,2) show ?thesis by (simp add: covers_def)
qed

section \<open>The invariant of a settable resource\<close>

definition settable_events :: "settable_res \<Rightarrow> prio_time core list" where
  "settable_events s = events_of (settable_history s)"

definition stored_at :: "settable_res \<Rightarrow> prio_time core \<Rightarrow> int \<times> typed_value" where
  "stored_at s e = (etime (fst e), the (node_value s (core_id e)))"

definition stored :: "settable_res \<Rightarrow> (int \<times> typed_value) list" where
  "stored s = map (stored_at s) (settable_events s)"

definition settable_ok :: "int \<Rightarrow> settable_res \<Rightarrow> bool" where
  "settable_ok cur s \<longleftrightarrow>
     history_ok cur (settable_history s) \<and> 0 \<le> cur \<and> \<not> Frozen (settable_history s)
     \<and> (\<forall>e\<in>set (settable_events s). \<exists>v. node_value s (core_id e) = Some v
          \<and> settable_node_value (settable_type s) v = Inr v)"

text \<open>No node is behind a time and an identification.\<close>

definition events_until :: "int \<Rightarrow> int \<Rightarrow> settable_res \<Rightarrow> bool" where
  "events_until t p s \<longleftrightarrow> (\<forall>e\<in>set (settable_events s). at_or_before (fst e) t p)"

lemma events_until_mono:
  "events_until t p s \<Longrightarrow> t < t' \<or> t = t' \<and> p \<le> p' \<Longrightarrow> events_until t' p' s"
  unfolding events_until_def at_or_before_def by fastforce

lemma add_event_last:
  "\<forall>e\<in>set xs. at_or_before (fst e) t p \<Longrightarrow> add_event t p x xs = xs @ [x]"
  unfolding add_event_def by (simp add: takeWhile_eq_all_conv [THEN iffD2] dropWhile_eq_Nil_conv [THEN iffD2])

lemma settable_store_ok:
  assumes ok: "settable_ok cur s" and p: "0 \<le> p" "p \<le> cur" and until: "events_until t p s"
    and typed: "settable_node_value (settable_type s) v = Inr v"
  shows "\<exists>s'. settable_store t v p s = Inr s' \<and> settable_ok cur s' \<and> events_until t p s'
    \<and> stored s' = stored s @ [(t, v)] \<and> settable_type s' = settable_type s
    \<and> lastSkippedNode s' = lastSkippedNode s"
proof -
  let ?n = "next_node_address (settable_history s)"
  have hist: "history_ok cur (settable_history s)" "\<not> Frozen (settable_history s)" "0 \<le> cur"
    and vals: "\<forall>e\<in>set (settable_events s). \<exists>v. node_value s (core_id e) = Some v
          \<and> settable_node_value (settable_type s) v = Inr v"
    using ok by (simp_all add: settable_ok_def)
  from history_Add_ok [OF hist(1,2) p, of t 0] obtain h' k where
    h': "history_Add t 0 p (settable_history s) = Inr h'" "history_ok cur h'" "\<not> Frozen h'"
    "etime k = t" "event_id k = p"
    "events_of h' = add_event t p (k, ?n, 0) (settable_events s)"
    unfolding settable_events_def by blast
  have ev: "events_of h' = settable_events s @ [(k, ?n, 0)]"
    using h'(6) add_event_last until by (simp add: events_until_def)
  let ?s = "s\<lparr>settable_history := h', node_value := (node_value s)(?n \<mapsto> v)\<rparr>"
  have ev': "settable_events ?s = settable_events s @ [(k, ?n, 0)]" using ev by (simp add: settable_events_def)
  have fresh: "core_id e \<noteq> ?n" if "e \<in> set (settable_events s)" for e
    using hist(1) that by (auto simp: history_ok_def settable_events_def events_of_def)
  have "map (stored_at ?s) (settable_events s) = map (stored_at s) (settable_events s)"
    using fresh by (auto simp: stored_at_def)
  then have "stored ?s = stored s @ [(t, v)]"
    unfolding stored_def ev' using h'(4) by (simp add: stored_at_def)
  moreover have "settable_ok cur ?s"
    unfolding settable_ok_def ev'
  proof (intro conjI ballI)
    fix e assume "e \<in> set (settable_events s @ [(k, ?n, 0)])"
    then consider "e \<in> set (settable_events s)" | "e = (k, ?n, 0)" by auto
    then show "\<exists>v. node_value ?s (core_id e) = Some v \<and> settable_node_value (settable_type ?s) v = Inr v"
    proof cases
      case 1
      with bspec [OF vals 1] fresh [OF 1] show ?thesis by simp
    qed (use typed in simp)
  qed (use hist h' in simp_all)
  moreover have "events_until t p ?s"
    using until h'(4,5) unfolding events_until_def ev' by (auto simp: at_or_before_def)
  moreover have "settable_store t v p s = Inr ?s"
    using h'(1) by (simp add: settable_store_def Let_def)
  ultimately show ?thesis by (intro exI [of _ ?s]) simp
qed

section \<open>The node that is found\<close>

lemma settable_found:
  assumes ok: "settable_ok cur s"
  shows "settable_value_from profile (found_node strategy u cur (settable_history s)) s =
    (if filter (\<lambda>x. counts_at strategy u (fst x)) (stored s) = []
     then naming_resource '': evaluate present value: error computing profile'' profile
     else Inr (value_in_force (counts_at strategy u) (stored s)))"
proof -
  let ?es = "filter (\<lambda>e. counts_at strategy u (etime (fst e))) (settable_events s)"
  let ?found = "found_node strategy u cur (settable_history s)"
  have hist: "history_ok cur (settable_history s)" "0 \<le> cur" using ok by (simp_all add: settable_ok_def)
  have found: "map_option core ?found = last_opt ?es"
    unfolding settable_events_def by (rule found_node_ok [OF hist])
  have st: "filter (\<lambda>x. counts_at strategy u (fst x)) (stored s) = map (stored_at s) ?es"
    by (simp add: stored_def filter_map o_def stored_at_def)
  show ?thesis
  proof (cases ?found)
    case None
    with found have "?es = []" by simp
    with None st show ?thesis by (simp add: settable_value_from_def)
  next
    case (Some a)
    with found have "last_opt ?es = Some (core a)" by simp
    from last_opt_Some [OF this] obtain ys where ys: "?es = ys @ [core a]" by blast
    have "core a \<in> set ?es" unfolding ys by simp
    then have "core a \<in> set (settable_events s)" by simp
    with ok obtain v where "node_value s (core_id (core a)) = Some v" unfolding settable_ok_def by blast
    then have "node_value s (ident a) = Some v" by (simp add: core_def)
    with Some st ys show ?thesis
      by (simp add: settable_value_from_def value_in_force_def stored_at_def core_def)
  qed
qed

end
