(* ===== verification/SettableProperties.thy ===== *)
theory SettableProperties
  imports SettableValues
begin

text \<open>
  The properties of settable resources: what is reported after a sequence of SETs, how far it can be
  from what was set, when a filter cannot be evaluated, and that the value in the context of a
  thread is the value at its time, for settable and for numeric resources.
\<close>

section \<open>One SET\<close>

definition deltas_typed :: "filtering \<Rightarrow> DATA_TYPE \<Rightarrow> bool" where
  "deltas_typed f ty \<longleftrightarrow>
     (ty = TIME_TYPE \<or> ty = DURATION_TYPE) \<and> \<not> has_nofiltering f
       \<and> (min_abs_delta f \<noteq> None \<or> min_rel_delta f \<noteq> None) \<longrightarrow>
     (\<exists>m. get_time_or_duration (min_abs_delta f) = Inr m)"

lemma filter_total:
  assumes "deltas_typed f ty" and "settable_node_value ty a = Inr a" and "settable_node_value ty b = Inr b"
  shows "\<exists>skip. filter_skips f a b = Inr skip"
proof (cases "\<not> has_nofiltering f \<and> (min_abs_delta f \<noteq> None \<or> min_rel_delta f \<noteq> None)")
  case True
  have times: "\<exists>m n. get_time_or_duration (min_abs_delta f) = Inr m \<and> get_time_or_duration (Some b) = Inr n"
    if "ty = TIME_TYPE \<or> ty = DURATION_TYPE"
  proof -
    have "\<exists>m. get_time_or_duration (min_abs_delta f) = Inr m"
      using assms(1) True that unfolding deltas_typed_def by blast
    moreover have "\<exists>n. get_time_or_duration (Some b) = Inr n" using assms(3) that by (cases b) auto
    ultimately show ?thesis by blast
  qed
  show ?thesis
    by (rule typed_cases [OF assms(2)]) (use True times in \<open>auto simp: filter_skips_def Let_def\<close>)
qed (auto simp: filter_skips_def Let_def)

text \<open>The SETs that were made, the last one at time \<open>t\<close> with identification \<open>p\<close>. A node kept aside
  is that of the last SET.\<close>

definition tracks ::
  "filtering \<Rightarrow> int \<Rightarrow> (int \<times> typed_value) list \<Rightarrow> int \<Rightarrow> int \<Rightarrow> settable_res \<Rightarrow> bool" where
  "tracks f cur sets t p s \<longleftrightarrow>
     settable_ok cur s \<and> events_until t p s \<and> sets \<noteq> [] \<and> stored s \<noteq> [] \<and> 0 \<le> p \<and> p \<le> cur
     \<and> covers f (stored s) sets \<and> (\<forall>x\<in>set sets. fst x \<le> t) \<and> fst (last sets) = t
     \<and> (case lastSkippedNode s of
          None \<Rightarrow> last (stored s) = last sets
        | Some (t', v, p') \<Rightarrow> t' = t \<and> p' = p \<and> last sets = (t, v)
            \<and> settable_node_value (settable_type s) v = Inr v)"

lemma settable_Add_tracks:
  assumes tr: "tracks f cur sets t p s" and later: "t < t1 \<or> t = t1 \<and> p \<le> p1" and p1: "0 \<le> p1" "p1 \<le> cur"
    and typed: "settable_node_value (settable_type s) v = Inr v"
  shows "\<exists>s'. settable_Add t1 v p1 s = Inr s' \<and> tracks f cur (sets @ [(t1, v)]) t1 p1 s'
    \<and> settable_type s' = settable_type s"
proof -
  have ok: "settable_ok cur s" "events_until t p s" "sets \<noteq> []" "stored s \<noteq> []" "0 \<le> p" "p \<le> cur"
    "covers f (stored s) sets" "\<forall>x\<in>set sets. fst x \<le> t" using tr by (simp_all add: tracks_def)
  obtain s1 where s1: "(case lastSkippedNode s of None \<Rightarrow> Inr s
        | Some (t, v, p) \<Rightarrow> settable_store t v p (s\<lparr>lastSkippedNode := None\<rparr>)) = Inr s1"
    "settable_ok cur s1" "events_until t p s1" "stored s1 \<noteq> []" "covers f (stored s1) sets"
    "settable_type s1 = settable_type s" "lastSkippedNode s1 = None" "last (stored s1) = last sets"
  proof (cases "lastSkippedNode s")
    case None
    with ok that tr show ?thesis by (simp add: tracks_def)
  next
    case (Some x)
    with tr obtain w where x: "x = (t, w, p)" "last sets = (t, w)" "settable_node_value (settable_type s) w = Inr w"
      by (cases x) (auto simp: tracks_def)
    let ?s = "s\<lparr>lastSkippedNode := None\<rparr>"
    have same: "settable_events ?s = settable_events s" "stored ?s = stored s"
      by (simp_all add: settable_events_def stored_def stored_at_def [abs_def])
    have "settable_ok cur ?s" "events_until t p ?s"
      using ok(1,2) by (simp_all add: settable_ok_def events_until_def same)
    from settable_store_ok [OF this(1) ok(5,6) this(2), of w] x(3) same obtain s1 where
      "settable_store t w p ?s = Inr s1" "settable_ok cur s1" "events_until t p s1"
      "stored s1 = stored s @ [(t, w)]" "settable_type s1 = settable_type s" "lastSkippedNode s1 = None"
      by auto
    with Some x that covers_flush [OF ok(7,3) x(2)] show ?thesis by simp
  qed
  from settable_store_ok [OF s1(2) p1 events_until_mono [OF s1(3) later], of v] typed s1(6) obtain s' where
    s': "settable_store t1 v p1 s1 = Inr s'" "settable_ok cur s'" "events_until t1 p1 s'"
    "stored s' = stored s1 @ [(t1, v)]" "settable_type s' = settable_type s" "lastSkippedNode s' = None"
    using s1(7) by auto
  have "settable_Add t1 v p1 s = Inr s'"
    using s1(1,6) typed s'(1) by (simp add: settable_Add_def)
  moreover have "tracks f cur (sets @ [(t1, v)]) t1 p1 s'"
    using s' p1 covers_store [OF s1(5) ok(3) s1(4,8)] ok(8) later by (auto simp: tracks_def)
  ultimately show ?thesis using s'(5) by blast
qed

lemma closest_value:
  assumes ok: "settable_ok cur s" and until: "events_until t p s" and "stored s \<noteq> []"
  obtains a where "latestHistNodeAtOrBefore t cur (settable_history s) = Some a"
    "node_value s (ident a) = Some (snd (last (stored s)))"
    "settable_node_value (settable_type s) (snd (last (stored s))) = Inr (snd (last (stored s)))"
proof -
  have hist: "history_ok cur (settable_history s)" "0 \<le> cur" using ok by (simp_all add: settable_ok_def)
  have "filter (\<lambda>e. counts_at NORMAL t (etime (fst e))) (settable_events s) = settable_events s"
    using until by (auto simp: events_until_def at_or_before_def filter_id_conv)
  with found_node_ok [OF hist, of NORMAL t] have
    "map_option core (latestHistNodeAtOrBefore t cur (settable_history s)) = last_opt (settable_events s)"
    by (simp add: found_node_def settable_events_def)
  moreover have ne: "settable_events s \<noteq> []" using assms(3) by (simp add: stored_def)
  ultimately obtain a where a: "latestHistNodeAtOrBefore t cur (settable_history s) = Some a"
    "core a = last (settable_events s)" by (auto simp: last_opt_eq)
  have "core a \<in> set (settable_events s)" using a(2) ne by simp
  with ok obtain v where v: "node_value s (core_id (core a)) = Some v" "settable_node_value (settable_type s) v = Inr v"
    unfolding settable_ok_def by blast
  have "last (stored s) = stored_at s (core a)" using ne a(2) by (simp add: stored_def last_map)
  then have "snd (last (stored s)) = v" using v(1) by (simp add: stored_at_def)
  moreover have "core_id (core a) = ident a" by (simp add: core_def)
  ultimately show ?thesis using a(1) v that by simp
qed

lemma settable_append_tracks:
  assumes tr: "tracks f (last_event_id c) sets t p s" and later: "t < t1 \<or> t = t1 \<and> p \<le> p1"
    and p1: "0 \<le> p1" "p1 \<le> last_event_id c"
    and typed: "settable_node_value (settable_type s) v = Inr v" and deltas: "deltas_typed f (settable_type s)"
    and ints: "no_integer_delta f (settable_type s)"
    and sync: "in_sync c t1 (settable_history s)"
  shows "\<exists>s'. settable_append f c v t1 p1 s = Inr s' \<and> tracks f (last_event_id c) (sets @ [(t1, v)]) t1 p1 s'
    \<and> settable_type s' = settable_type s"
proof -
  let ?cur = "last_event_id c"
  have ok: "settable_ok ?cur s" "events_until t p s" "sets \<noteq> []" "stored s \<noteq> []" "covers f (stored s) sets"
    "\<forall>x\<in>set sets. fst x \<le> t" "fst (last sets) = t"
    using tr by (simp_all add: tracks_def)
  have until: "events_until t1 p1 s" by (rule events_until_mono [OF ok(2) later])
  from closest_value [OF ok(1) until ok(4)] obtain a where
    a: "latestHistNodeAtOrBefore t1 ?cur (settable_history s) = Some a"
    "node_value s (ident a) = Some (snd (last (stored s)))"
    "settable_node_value (settable_type s) (snd (last (stored s))) = Inr (snd (last (stored s)))" .
  from filter_total [OF deltas a(3) typed] obtain skip where
    skip: "filter_skips f (snd (last (stored s))) v = Inr skip" by blast
  have "find_closest c t1 (settable_history s) = Inr (Some a)"
    using find_closest_in_sync [OF _ _ sync] ok(1) a(1) by (simp add: settable_ok_def)
  then have run: "settable_append f c v t1 p1 s =
      (if skip then UpdateLastSkippedNode t1 v p1 s else settable_Add t1 v p1 s)"
    using a(2) skip by (simp add: settable_append_def)
  show ?thesis
  proof (cases skip)
    case False
    with run settable_Add_tracks [OF tr later p1 typed] show ?thesis by simp
  next
    case True
    let ?s = "s\<lparr>lastSkippedNode := Some (t1, v, p1)\<rparr>"
    have same: "settable_events ?s = settable_events s" "stored ?s = stored s"
      by (simp_all add: settable_events_def stored_def stored_at_def [abs_def])
    have "\<forall>x\<in>set (stored s). fst x \<le> t"
      using ok(2) by (auto simp: stored_def stored_at_def events_until_def at_or_before_def)
    with ok(4) have "fst (last (stored s)) \<le> fst (last sets)" by (simp add: ok(7))
    moreover have late: "\<forall>x\<in>set sets. fst x \<le> t1" using ok(6) later by fastforce
    moreover have "tolerates f (snd (last (stored s))) v"
      using skips_tolerates [OF _ a(3) typed ints] skip True by simp
    ultimately have "covers f (stored s) (sets @ [(t1, v)])" by (rule covers_skip [OF ok(5,3,4)])
    then have "tracks f ?cur (sets @ [(t1, v)]) t1 p1 ?s"
      using ok until p1 typed late by (simp add: tracks_def settable_ok_def events_until_def same)
    with True run typed show ?thesis by (simp add: UpdateLastSkippedNode_def)
  qed
qed

section \<open>Sequences of SETs\<close>

text \<open>A SET: its context, its value, the time and the identification of its event, and whether it is
  immediate. \<open>clause_key\<close> is where the node goes.\<close>

type_synonym set_clause = "eval_context \<times> typed_value \<times> int \<times> int \<times> bool"

fun clause_key :: "set_clause \<Rightarrow> int \<times> int" where
  "clause_key (c, v, t, p, immed) = (if immed then (get_now c, last_event_id c + 1) else (t, p))"

fun time_and_value :: "set_clause \<Rightarrow> int \<times> typed_value" where
  "time_and_value (c, v, t, p, immed) = ((if immed then get_now c else t), v)"

fun settable_sets :: "filtering \<Rightarrow> set_clause list \<Rightarrow> int \<Rightarrow> settable_res \<Rightarrow> (int \<times> settable_res) result" where
  "settable_sets f [] cur s = Inr (cur, s)"
| "settable_sets f ((c, v, t, p, immed) # us) cur s =
     bind_result (settable_execute_set f c v t p immed s) (\<lambda>(cur', s'). settable_sets f us cur' s')"

text \<open>SETs as the modelling loop executes them: each at its time, in the order of time and
  identification, with an iterator over the history as it then is.\<close>

fun executed_in_order :: "filtering \<Rightarrow> set_clause list \<Rightarrow> int \<times> int \<Rightarrow> int \<Rightarrow> settable_res \<Rightarrow> bool" where
  "executed_in_order f [] q cur s = True"
| "executed_in_order f ((c, v, t, p, immed) # us) q cur s =
     (let q1 = clause_key (c, v, t, p, immed) in
      (fst q < fst q1 \<or> fst q = fst q1 \<and> snd q \<le> snd q1)
      \<and> cur \<le> last_event_id c \<and> (immed \<or> 0 \<le> p \<and> p \<le> last_event_id c)
      \<and> settable_node_value (settable_type s) v = Inr v
      \<and> in_sync c (fst q1) (settable_history s)
      \<and> (case settable_execute_set f c v t p immed s of
            Inl e \<Rightarrow> True
          | Inr (cur', s') \<Rightarrow> executed_in_order f us q1 cur' s'))"

lemma tracks_mono: "tracks f cur sets t p s \<Longrightarrow> cur \<le> cur' \<Longrightarrow> tracks f cur' sets t p s"
  using history_ok_mono by (auto simp: tracks_def settable_ok_def)

lemma in_sync_id [simp]: "in_sync (c\<lparr>last_event_id := n\<rparr>) t h = in_sync c t h"
  by (simp add: in_sync_def)

lemma settable_set_tracks:
  assumes tr: "tracks f cur sets (fst q) (snd q) s" and deltas: "deltas_typed f (settable_type s)"
    and ints: "no_integer_delta f (settable_type s)"
    and step: "executed_in_order f ((c, v, t, p, immed) # us) q cur s"
  shows "\<exists>cur' s'. settable_execute_set f c v t p immed s = Inr (cur', s')
    \<and> tracks f cur' (sets @ [time_and_value (c, v, t, p, immed)])
        (fst (clause_key (c, v, t, p, immed))) (snd (clause_key (c, v, t, p, immed))) s'
    \<and> settable_type s' = settable_type s
    \<and> executed_in_order f us (clause_key (c, v, t, p, immed)) cur' s'"
proof (cases immed)
  case True
  let ?c = "c\<lparr>last_event_id := last_event_id c + 1\<rparr>"
  from step True have s: "fst q < get_now c \<or> fst q = get_now c \<and> snd q \<le> last_event_id c + 1"
    "cur \<le> last_event_id c" "settable_node_value (settable_type s) v = Inr v"
    "in_sync c (get_now c) (settable_history s)" by (simp_all add: Let_def)
  have cur: "0 \<le> cur" using tr by (simp add: tracks_def settable_ok_def)
  have "tracks f (last_event_id ?c) sets (fst q) (snd q) s" using tracks_mono [OF tr] s(2) by simp
  from settable_append_tracks [OF this s(1) _ _ s(3) deltas ints] s(2,4) cur obtain s' where
    s': "settable_append f ?c v (get_now c) (last_event_id c + 1) s = Inr s'"
    "tracks f (last_event_id c + 1) (sets @ [(get_now c, v)]) (get_now c) (last_event_id c + 1) s'"
    "settable_type s' = settable_type s" by auto
  then have "settable_execute_set f c v t p immed s = Inr (last_event_id c + 1, s')"
    using True by (simp add: settable_execute_set_def settable_immediately_append_def)
  with step s' True show ?thesis by (simp add: Let_def)
next
  case False
  from step False have s: "fst q < t \<or> fst q = t \<and> snd q \<le> p"
    "cur \<le> last_event_id c" "settable_node_value (settable_type s) v = Inr v"
    "in_sync c t (settable_history s)" "0 \<le> p" "p \<le> last_event_id c" by (simp_all add: Let_def)
  from settable_append_tracks [OF tracks_mono [OF tr s(2)] s(1,5,6,3) deltas ints s(4)] obtain s' where
    s': "settable_append f c v t p s = Inr s'"
    "tracks f (last_event_id c) (sets @ [(t, v)]) t p s'" "settable_type s' = settable_type s" by auto
  then have "settable_execute_set f c v t p immed s = Inr (last_event_id c, s')"
    using False by (simp add: settable_execute_set_def)
  with step s' False show ?thesis by (simp add: Let_def)
qed

lemma settable_sets_track:
  "tracks f cur sets (fst q) (snd q) s \<Longrightarrow> deltas_typed f (settable_type s) \<Longrightarrow>
     no_integer_delta f (settable_type s) \<Longrightarrow> executed_in_order f us q cur s \<Longrightarrow>
   \<exists>cur' s' t p. settable_sets f us cur s = Inr (cur', s')
     \<and> tracks f cur' (sets @ map time_and_value us) t p s'"
proof (induction us arbitrary: sets q cur s)
  case Nil
  then show ?case by auto
next
  case (Cons u us)
  obtain c v t p immed where u: "u = (c, v, t, p, immed)" by (cases u)
  from settable_set_tracks [OF Cons.prems(1-3) Cons.prems(4) [unfolded u]] obtain cur1 s1 where
    1: "settable_execute_set f c v t p immed s = Inr (cur1, s1)"
    "tracks f cur1 (sets @ [time_and_value u]) (fst (clause_key u)) (snd (clause_key u)) s1"
    "settable_type s1 = settable_type s" "executed_in_order f us (clause_key u) cur1 s1"
    unfolding u by blast
  have "deltas_typed f (settable_type s1)" "no_integer_delta f (settable_type s1)"
    using Cons.prems(2,3) 1(3) by simp_all
  from Cons.IH [OF 1(2) this 1(4)] 1(1) show ?case by (simp add: u)
qed

lemma settable_initialize_tracks:
  assumes h: "\<not> Frozen (settable_history s)" "\<not> Imported (settable_history s)"
      "synchronize_orders (historyList (settable_history s))"
    and p: "0 \<le> p" "p \<le> cur" and typed: "settable_node_value (settable_type s) v = Inr v"
  shows "\<exists>s'. settable_initialize False (Inr v) t p s = Inr s' \<and> tracks f cur [(t, v)] t p s'
    \<and> settable_type s' = settable_type s"
proof -
  let ?s = "settable_clear s"
  have ev: "settable_events ?s = []"
    by (simp add: settable_events_def events_of_def settable_clear_def history_clear_def tlist_clear_def contents_def)
  have "settable_ok cur ?s"
    using h p by (simp add: settable_ok_def ev)
      (simp add: settable_clear_def history_ok_def history_clear_def tlist_clear_def tlist_ok_def contents_def in_order_def)
  moreover have "events_until t p ?s" by (simp add: events_until_def ev)
  moreover have "settable_node_value (settable_type ?s) v = Inr v" using typed by (simp add: settable_clear_def)
  ultimately obtain s' where s': "settable_store t v p ?s = Inr s'" "settable_ok cur s'" "events_until t p s'"
    "stored s' = stored ?s @ [(t, v)]" "settable_type s' = settable_type ?s"
    "lastSkippedNode s' = lastSkippedNode ?s"
    using settable_store_ok [OF _ p] by blast
  have "stored s' = [(t, v)]" using s'(4) by (simp add: stored_def ev)
  then have "tracks f cur [(t, v)] t p s'"
    using s' p covers_start by (simp add: tracks_def settable_clear_def)
  moreover have "settable_initialize False (Inr v) t p s = Inr s'"
    using h s'(1) typed by (simp add: settable_initialize_def settable_Add_def settable_clear_def naming_resource_def Let_def)
  ultimately show ?thesis using s'(5) by (auto simp: settable_clear_def)
qed

lemma tracks_eval:
  assumes tr: "tracks f cur sets t p s" and cur: "cur \<le> last_event_id c"
    and "counts_at (context_strategy c) u (fst (hd sets))"
  shows "\<exists>r. settable_eval_at profile c u s = Inr r
    \<and> stands_for f (counts_at (context_strategy c) u) sets r"
proof -
  have ok: "settable_ok (last_event_id c) s" and "covers f (stored s) sets"
    using tracks_mono [OF tr cur] by (simp_all add: tracks_def)
  with settable_found [OF ok, of profile "context_strategy c" u] assms(3) show ?thesis
    by (simp add: settable_eval_at_def found_node_def covers_def)
qed

text \<open>C22: After the initialisation of a settable resource and any sequence of SETs, executed in
  the order of time and each at its time, filtered or not, all of them succeed, and at every time
  from the initialisation on a value is reported that is the one that was set last, or is within
  the tolerance of the resource of that value and, when another value is set later, of the next
  one: a jump does not change the values before it. The tolerance is half of the absolute
  difference, or half of the relative one times the value reported, with a slack for the rounding
  of doubles, which the filter computes with (no infinities and no NaN); without a
  difference, doubles are equal up to \<open>1.0e-15\<close> and all other values are the same. A resource
  of type integer must have no difference: the filter counts an integer twice.\<close>

theorem settable_value_correct:
  assumes "\<not> Frozen (settable_history s)" and "\<not> Imported (settable_history s)"
    and "synchronize_orders (historyList (settable_history s))"
    and "0 \<le> p0" and "p0 \<le> cur" and "settable_node_value (settable_type s) v0 = Inr v0"
    and "deltas_typed f (settable_type s)" and "no_integer_delta f (settable_type s)"
    and "settable_initialize False (Inr v0) t0 p0 s = Inr s0"
    and "executed_in_order f us (t0, p0) cur s0"
  shows "\<exists>cur' s'. settable_sets f us cur s0 = Inr (cur', s')
           \<and> (\<forall>c u. cur' \<le> last_event_id c \<and> counts_at (context_strategy c) u t0 \<longrightarrow>
               (\<exists>r. settable_eval_at profile c u s' = Inr r
                  \<and> stands_for f (counts_at (context_strategy c) u) ((t0, v0) # map time_and_value us) r))"
proof -
  from settable_initialize_tracks [OF assms(1-6), where t = t0 and f = f] assms(9) have
    0: "tracks f cur [(t0, v0)] t0 p0 s0" "settable_type s0 = settable_type s" by auto
  with settable_sets_track [of f cur "[(t0, v0)]" "(t0, p0)" s0 us] assms(7,8,10) obtain cur' s' t p where
    1: "settable_sets f us cur s0 = Inr (cur', s')" "tracks f cur' ((t0, v0) # map time_and_value us) t p s'"
    by auto
  with tracks_eval [OF 1(2)] show ?thesis by auto
qed

text \<open>A sample: a resource of type duration that filters differences of up to 5.\<close>

definition sample_filter :: filtering where
  "sample_filter = \<lparr>has_nofiltering = False, min_abs_delta = Some (DurationV 10), min_rel_delta = None\<rparr>"

definition new_settable :: "DATA_TYPE \<Rightarrow> settable_res" where
  "new_settable ty = \<lparr>settable_type = ty, settable_history = new_history, node_value = Map.empty,
     lastSkippedNode = None\<rparr>"

definition modelling :: "int \<Rightarrow> int \<Rightarrow> eval_context" where
  "modelling t cur = \<lparr>get_now = t, thread_time = t, in_model_thread = True, last_event_id = cur,
     res_miter_data = Some (Some \<lparr>iterNode = None, getPrev = None\<rparr>), the_strategy = NORMAL\<rparr>"

definition sample_thread :: "int \<Rightarrow> int \<Rightarrow> thread_context" where
  "sample_thread t cur = eval_context.extend (modelling t cur) \<lparr>in_constraint_thread = False\<rparr>"

definition sample_sets :: "set_clause list" where
  "sample_sets = [(modelling 10 5, DurationV 104, 10, 2, False), (modelling 20 5, DurationV 97, 0, 0, True),
     (modelling 30 6, DurationV 120, 30, 6, False)]"

definition started_resource :: settable_res where
  "started_resource = (case settable_initialize False (Inr (DurationV 100)) 0 1 (new_settable DURATION_TYPE) of
     Inr s \<Rightarrow> s | Inl e \<Rightarrow> new_settable DURATION_TYPE)"

lemma sample_run:
  "settable_initialize False (Inr (DurationV 100)) 0 1 (new_settable DURATION_TYPE) = Inr started_resource"
  "executed_in_order sample_filter sample_sets (0, 1) 5 started_resource"
  "deltas_typed sample_filter DURATION_TYPE"
proof -
  show "settable_initialize False (Inr (DurationV 100)) 0 1 (new_settable DURATION_TYPE) = Inr started_resource"
    using settable_initialize_tracks [of "new_settable DURATION_TYPE" 1 1 "DurationV 100" 0 sample_filter]
    by (auto simp: started_resource_def new_settable_def)
  show "executed_in_order sample_filter sample_sets (0, 1) 5 started_resource" by code_simp
  show "deltas_typed sample_filter DURATION_TYPE" by (simp add: deltas_typed_def sample_filter_def)
qed

definition sample_ends_at :: int where
  "sample_ends_at = (case settable_sets sample_filter sample_sets 5 started_resource of
     Inr (cur, s) \<Rightarrow> cur | Inl e \<Rightarrow> 0)"

lemma settable_value_witness:
  "\<exists>s' r. settable_sets sample_filter sample_sets 5 started_resource = Inr (6, s')
     \<and> settable_eval_at (Inr (DurationV 0)) (sample_thread 15 6) 15 s' = Inr r
     \<and> tolerates sample_filter r (DurationV 104) \<and> (r = DurationV 104 \<or> tolerates sample_filter r (DurationV 97))"
proof -
  obtain cur' s' where s': "settable_sets sample_filter sample_sets 5 started_resource = Inr (cur', s')"
    "\<And>c u. cur' \<le> last_event_id c \<Longrightarrow> counts_at (context_strategy c) u 0 \<Longrightarrow>
       \<exists>r. settable_eval_at (Inr (DurationV 0)) c u s' = Inr r
         \<and> stands_for sample_filter (counts_at (context_strategy c) u)
             ((0, DurationV 100) # map time_and_value sample_sets) r"
    using settable_value_correct [of "new_settable DURATION_TYPE" 1 5 "DurationV 100" sample_filter 0 started_resource
        sample_sets "Inr (DurationV 0)"] sample_run
    by (auto simp: new_settable_def no_integer_delta_def)
  have "sample_ends_at = 6" by code_simp
  with s'(1) have cur: "cur' = 6" by (simp add: sample_ends_at_def)
  with s' show ?thesis
    using s'(2) [of "sample_thread 15 6" 15]
    by (auto simp: sample_thread_def modelling_def context_strategy_def eval_context.defs sample_sets_def
        stands_for_def value_in_force_def next_value_def)
qed

section \<open>Values in the context of a thread\<close>

text \<open>When the iterator of a thread leads to the right node: for the strategy NORMAL, a node is not
  later than the time; for BEFORE, an iterator at the end of its list does not have a node at the
  time itself behind it.\<close>

definition iterator_fits :: "thread_context \<Rightarrow> int \<Rightarrow> res_history \<Rightarrow> bool" where
  "iterator_fits c t h \<longleftrightarrow>
     (case res_miter_data c of
        Some (Some it) \<Rightarrow> iter_ok it h \<and>
          (case context_strategy c of
             NORMAL \<Rightarrow> getPrev it = None \<or>
               (\<exists>a\<in>set (hist_nodes h). (in_model_thread c \<or> Some (ident a) = getPrev it) \<and> node_time a \<le> t)
           | BEFORE \<Rightarrow> (if in_model_thread c then iterNode it else getPrev it) = None \<longrightarrow>
               (\<forall>a\<in>set (hist_nodes h). node_time a \<noteq> t))
      | _ \<Rightarrow> False)"

lemma walk_forward_before_ok:
  "sorted_wrt (\<lambda>a b. node_time a \<le> node_time b) (N # Ms) \<Longrightarrow> node_time N < t \<Longrightarrow>
     last_opt (filter (\<lambda>a. node_time a < t) (N # Ms)) = Some (walk_forward_before t N Ms)"
proof (induction Ms arbitrary: N)
  case (Cons M Ms)
  show ?case
  proof (cases "node_time M < t")
    case True
    with Cons.IH [of M] Cons.prems show ?thesis by (simp add: node_time_def)
  next
    case False
    then have "filter (\<lambda>a. node_time a < t) (M # Ms) = []" using Cons.prems by (auto simp: filter_empty_conv)
    with False Cons.prems(2) show ?thesis by (simp add: node_time_def)
  qed
qed simp

lemma before_search:
  assumes ok: "history_ok cur h" and cur: "0 \<le> cur" and it: "iter_ok it h"
    and n: "(if model_thread then iterNode it else getPrev it) = Some n"
  shows "latestHistNodeBeforeModelTime model_thread t cur (Some it) h = Inr (latestHistNodeBefore t h)"
proof -
  have "n \<in> set (chain (historyList h))" using it n by (auto simp: iter_ok_iff split: if_splits)
  from node_in_list [OF ok this] obtain xs a ys where h: "hist_nodes h = xs @ a # ys" "ident a = n" .
  note b = around_node(1) [OF ok h(1), unfolded h(2)]
  let ?late = "\<lambda>M. etime (Key M) \<ge> t"
  note found = found_nodes(2) [OF ok cur, of t]
  show ?thesis
  proof (cases "dropWhile ?late (a # rev xs)")
    case Nil
    then have "\<forall>b\<in>set (xs @ [a]). t \<le> node_time b" by (auto simp: dropWhile_eq_Nil_conv node_time_def split: if_splits)
    moreover have "\<forall>b\<in>set ys. node_time a \<le> node_time b"
      using hist_facts(6) [OF ok] by (simp add: h(1) sorted_wrt_append)
    ultimately have "filter (\<lambda>b. node_time b < t) (hist_nodes h) = []"
      unfolding h(1) by (fastforce simp: filter_empty_conv)
    with Nil n b found show ?thesis by (simp add: latestHistNodeBeforeModelTime_def)
  next
    case (Cons M Ms)
    have M: "node_time M < t" using hd_dropWhile [of ?late "a # rev xs"] Cons by (simp only: node_time_def list.sel not_le) simp
    have "a # rev xs = takeWhile ?late (a # rev xs) @ M # Ms" using Cons by (metis takeWhile_dropWhile_id)
    then have "xs @ [a] = rev Ms @ M # rev (takeWhile ?late (a # rev xs))"
      by (metis append.assoc append_Cons append_Nil rev.simps(2) rev_append rev_rev_ident)
    then obtain zs where zs: "hist_nodes h = rev Ms @ M # zs" unfolding h(1) by (metis append.assoc append_Cons append_Nil)
    have "sorted_wrt (\<lambda>a b. node_time a \<le> node_time b) (M # zs)"
      using hist_facts(6) [OF ok] by (simp add: zs sorted_wrt_append)
    from walk_forward_before_ok [OF this M] found
    have "latestHistNodeBefore t h = Some (walk_forward_before t M zs)" by (simp add: zs)
    with n b Cons around_node(2) [OF ok zs] show ?thesis by (simp add: latestHistNodeBeforeModelTime_def)
  qed
qed

lemma present_node_ok:
  assumes ok: "history_ok (last_event_id c) h" and cur: "0 \<le> last_event_id c"
    and point: "eval_point c = Inr (t, use_miterator)" and fits: "use_miterator \<longrightarrow> iterator_fits c t h"
  shows "present_node c h = Inr (t, found_node (context_strategy c) t (last_event_id c) h)"
proof (cases use_miterator)
  case False
  with point show ?thesis by (simp add: present_node_def found_node_def split: strategy.split)
next
  case True
  with fits obtain it where it: "res_miter_data c = Some (Some it)" "iter_ok it h"
    by (auto simp: iterator_fits_def split: option.splits)
  show ?thesis
  proof (cases "context_strategy c")
    case NORMAL
    show ?thesis
    proof (cases "getPrev it")
      case None
      with True NORMAL it point show ?thesis
        by (simp add: present_node_def found_node_def latestHistNodeAtOrBeforeModelTime_def)
    next
      case (Some safe)
      have "if in_model_thread c then \<exists>a\<in>set (hist_nodes h). node_time a \<le> t
          else \<exists>a\<in>set (hist_nodes h). ident a = safe \<and> node_time a \<le> t"
        using fits True NORMAL it(1) Some by (auto simp: iterator_fits_def)
      from model_time_search [OF ok cur it(2) Some this] True NORMAL it(1) point show ?thesis
        by (simp add: present_node_def found_node_def)
    qed
  next
    case BEFORE
    show ?thesis
    proof (cases "if in_model_thread c then iterNode it else getPrev it")
      case None
      with fits True BEFORE it(1) have "\<forall>a\<in>set (hist_nodes h). node_time a \<noteq> t"
        by (simp add: iterator_fits_def)
      then have "filter (\<lambda>a. node_time a \<le> t) (hist_nodes h) = filter (\<lambda>a. node_time a < t) (hist_nodes h)"
        by (auto intro!: filter_cong simp: order.order_iff_strict)
      with found_nodes [OF ok cur, of t] None True BEFORE it(1) point show ?thesis
        by (simp add: present_node_def found_node_def latestHistNodeBeforeModelTime_def)
    next
      case (Some n)
      with before_search [OF ok cur it(2) Some] True BEFORE it(1) point show ?thesis
        by (simp add: present_node_def found_node_def)
    qed
  qed
qed

text \<open>The value of a numeric or a settable resource that a thread asks for without a time is the
  value at the time of the thread, when the iterator it uses leads to the right node: the present
  time for the modelling thread, its own time for the thread of the constraints.\<close>

theorem present_value_agrees:
  assumes "history_ok (last_event_id c) (settable_history s)" and "0 \<le> last_event_id c"
    and "eval_point c = Inr (t, use_miterator)"
    and "use_miterator \<longrightarrow> iterator_fits c t (settable_history s)"
  shows "numeric_present_value profile c (settable_history s) =
      numeric_value profile (context_strategy c) t (last_event_id c) (settable_history s)
    \<and> settable_eval initially c s = settable_eval_at initially c t s"
  using present_node_ok [OF assms]
  by (simp add: numeric_present_value_def numeric_value_def settable_eval_def settable_eval_at_def
      found_node_def)

definition six_nodes :: settable_res where
  "six_nodes = (new_settable INTEGER_TYPE)\<lparr>settable_history :=
     \<lparr>historyList = sample_history, Frozen = False, Imported = False, version = 6, next_node_address = 7\<rparr>\<rparr>"

definition trailing_thread :: "int \<Rightarrow> thread_context" where
  "trailing_thread t = \<lparr>get_now = 99, thread_time = t, in_model_thread = False, last_event_id = 9,
     res_miter_data = Some (Some \<lparr>iterNode = Some 2, getPrev = Some 1\<rparr>), the_strategy = BEFORE,
     in_constraint_thread = True\<rparr>"

lemma present_value_witness:
  "numeric_present_value (\<lambda>t. Inr (INTEGER 100)) (trailing_thread 11) (settable_history six_nodes) =
     numeric_value (\<lambda>t. Inr (INTEGER 100)) BEFORE 11 9 (settable_history six_nodes)
   \<and> settable_eval (Inr (IntegerV 0)) (trailing_thread 11) six_nodes =
     settable_eval_at (Inr (IntegerV 0)) (trailing_thread 11) 11 six_nodes"
proof -
  have "history_ok 9 (settable_history six_nodes)" unfolding history_ok_def tlist_ok_def by code_simp
  moreover have "iterator_fits (trailing_thread 11) 11 (settable_history six_nodes)" by code_simp
  ultimately show ?thesis
    using present_value_agrees [of "trailing_thread 11" six_nodes 11 True "\<lambda>t. Inr (INTEGER 100)" "Inr (IntegerV 0)"]
    by (simp add: trailing_thread_def eval_point_def context_strategy_def)
qed

section \<open>Where the code departs\<close>

text \<open>For a resource of type time or duration with a relative but no absolute difference, the
  filter reads the absolute difference all the same: every SET that is compared with a node in the
  history fails, and with it the modelling.\<close>

theorem relative_filter_fails:
  assumes "\<not> has_nofiltering f" and "min_abs_delta f = None" and "min_rel_delta f = Some r"
    and "settable_type s = DURATION_TYPE \<or> settable_type s = TIME_TYPE"
    and "settable_ok (last_event_id c) s" and "in_sync c t (settable_history s)"
    and "settable_node_value (settable_type s) v = Inr v"
  shows "settable_execute_set f c v t p False s =
    Inl (EvalError ''TypedValue::get_time_or_duration(): value is not a time'')"
proof -
  let ?h = "settable_history s"
  have hist: "history_ok (last_event_id c) ?h" "0 \<le> last_event_id c"
    using assms(5) by (simp_all add: settable_ok_def)
  let ?es = "filter (\<lambda>e. counts_at NORMAL t (etime (fst e))) (events_of ?h)"
  have "?es \<noteq> []" using assms(6) by (auto simp: in_sync_def filter_empty_conv)
  with found_node_ok [OF hist, of NORMAL t] obtain a where
    a: "latestHistNodeAtOrBefore t (last_event_id c) ?h = Some a" "core a = last ?es"
    by (auto simp: found_node_def last_opt_eq)
  have "core a \<in> set ?es" unfolding a(2) by (rule last_in_set) fact
  then have "core a \<in> set (settable_events s)" by (simp add: settable_events_def)
  with assms(5) obtain w where w: "node_value s (core_id (core a)) = Some w"
    "settable_node_value (settable_type s) w = Inr w" unfolding settable_ok_def by blast
  have "core_id (core a) = ident a" by (simp add: core_def)
  with w have w1: "node_value s (ident a) = Some w" by simp
  have "filter_skips f w v = Inl (EvalError ''TypedValue::get_time_or_duration(): value is not a time'')"
    using assms(1-4,7) w(2) by (cases w; cases v) (auto simp: filter_skips_def Let_def)
  with w1 a(1) find_closest_in_sync [OF hist assms(6)] show ?thesis
    by (simp add: settable_execute_set_def settable_append_def)
qed

definition relative_filter :: filtering where
  "relative_filter = \<lparr>has_nofiltering = False, min_abs_delta = None, min_rel_delta = Some (FloatV (1 / 10))\<rparr>"

lemma relative_filter_witness:
  "settable_execute_set relative_filter (modelling 10 5) (DurationV 104) 10 2 False started_resource =
     Inl (EvalError ''TypedValue::get_time_or_duration(): value is not a time'')"
proof -
  have s: "settable_initialize False (Inr (DurationV 100)) 0 1 (new_settable DURATION_TYPE) = Inr started_resource"
    by (rule sample_run)
  with settable_initialize_tracks [of "new_settable DURATION_TYPE" 1 5 "DurationV 100" 0 relative_filter]
  have "settable_ok 5 started_resource" "settable_type started_resource = DURATION_TYPE"
    by (auto simp: new_settable_def tracks_def)
  moreover have "in_sync (modelling 10 5) 10 (settable_history started_resource)" by code_simp
  ultimately show ?thesis
    using relative_filter_fails [of relative_filter "FloatV (1 / 10)" started_resource "modelling 10 5" 10 "DurationV 104" 2]
    by (simp add: relative_filter_def modelling_def)
qed

text \<open>An integer in force is counted twice by the filter: with a tolerance of 1 a change from 5 to 10
  is skipped, which is not within the tolerance; setting 5 again is stored. A SET in the future
  that is skipped is forgotten when an earlier SET is skipped after it.\<close>

definition integer_filter :: filtering where
  "integer_filter = \<lparr>has_nofiltering = False, min_abs_delta = Some (IntegerV 2), min_rel_delta = None\<rparr>"

lemma integer_counted_twice:
  "filter_skips integer_filter (IntegerV 5) (IntegerV 10) = Inr True"
  "\<not> tolerates integer_filter (IntegerV 5) (IntegerV 10)"
  "filter_skips integer_filter (IntegerV 5) (IntegerV 5) = Inr False"
  by code_simp+

definition no_filter :: filtering where
  "no_filter = \<lparr>has_nofiltering = False, min_abs_delta = None, min_rel_delta = None\<rparr>"

definition asynchronous :: "int \<Rightarrow> int \<Rightarrow> int \<Rightarrow> eval_context" where
  "asynchronous now t cur = (modelling t cur)\<lparr>get_now := now\<rparr>"

definition set_ahead :: "settable_res result" where
  "set_ahead = map_ok snd (settable_sets no_filter
     [(asynchronous 100 5 5, DurationV 100, 0, 0, True), (modelling 10 6, DurationV 100, 10, 2, False),
      (modelling 50 6, DurationV 700, 50, 3, False)] 5 started_resource)"

lemma set_ahead_forgotten:
  "bind_result set_ahead (settable_eval_at (Inr (DurationV 0)) (sample_thread 120 6) 120) = Inr (DurationV 700)"
  by code_simp

end
