(* ===== verification/PartialHistoryProperties.thy ===== *)
theory PartialHistoryProperties
  imports PartialHistory SettableProperties StateProperties
begin

text \<open>
  The histories between two times against the values at a time: what the arrays hold for settable,
  numeric and state resources, and the nodes that they miss.
\<close>

section \<open>The nodes that an iterator delivers\<close>

definition own_nodes :: "delivered list \<Rightarrow> (int \<times> nat) list" where
  "own_nodes ns = List.map_filter (\<lambda>n. map_option (Pair (fst n)) (snd n)) ns"

lemma own_nodes_simps [simp]:
  "own_nodes [] = []" "own_nodes ((t, None) # ns) = own_nodes ns"
  "own_nodes ((t, Some a) # ns) = (t, a) # own_nodes ns"
  "own_nodes (ms @ ns) = own_nodes ms @ own_nodes ns"
  by (simp_all add: own_nodes_def List.map_filter_def)

lemma own_nodes_times: "x \<in> set (own_nodes ns) \<Longrightarrow> (fst x, Some (snd x)) \<in> set ns"
  by (auto simp: own_nodes_def List.map_filter_def)

text \<open>The nodes come in order of time, and those of the resource itself are its history.\<close>

definition delivers :: "delivered list \<Rightarrow> res_history \<Rightarrow> bool" where
  "delivers ns h \<longleftrightarrow> sorted (map fst ns)
     \<and> own_nodes ns = map (\<lambda>a. (node_time a, ident a)) (hist_nodes h)"

lemma pass_earlier_ok:
  "sorted (map fst ns) \<Longrightarrow> pass_earlier t ns = filter (\<lambda>n. t \<le> fst n) ns"
  by (induction ns) (auto simp: not_less intro!: filter_True [symmetric] dest: bspec)

text \<open>The node that is lost: the first one, when it is not before the start.\<close>

definition but_first :: "('a \<Rightarrow> int) \<Rightarrow> int \<Rightarrow> 'a list \<Rightarrow> 'a list" where
  "but_first f start xs = (case xs of [] \<Rightarrow> [] | x # ys \<Rightarrow> if f x < start then x # ys else ys)"

lemma but_first_map: "but_first f start (map g xs) = map g (but_first (\<lambda>x. f (g x)) start xs)"
  by (auto simp: but_first_def split: list.split)

lemma but_first_suffix: "\<exists>ys. xs = ys @ but_first f start xs"
proof (cases xs)
  case (Cons x ys)
  then have "xs = [] @ but_first f start xs \<or> xs = [x] @ but_first f start xs" by (simp add: but_first_def)
  then show ?thesis by blast
qed (simp add: but_first_def)

lemma go_to_start_ok:
  assumes "sorted (map fst ns)"
  shows "go_to_start t False ns = filter (\<lambda>n. t \<le> fst n) (but_first fst t ns)"
proof (cases ns)
  case (Cons n ms)
  with assms have ms: "sorted (map fst ms)" "\<forall>m\<in>set ms. fst n \<le> fst m" by auto
  show ?thesis
  proof (cases "fst n < t")
    case True
    with Cons pass_earlier_ok [OF ms(1)] show ?thesis by (simp add: go_to_start_def but_first_def)
  next
    case False
    with ms(2) have "\<forall>m\<in>set ms. t \<le> fst m" by auto
    with False Cons show ?thesis by (simp add: go_to_start_def but_first_def filter_id_conv)
  qed
qed (simp add: go_to_start_def but_first_def)

lemma pass_earlier_suffix: "\<exists>zs. ns = zs @ pass_earlier t ns"
  by (induction ns) (auto intro: exI [of _ "_ # _"])

lemma go_to_start_suffix: "\<exists>zs. ns = zs @ go_to_start t all_nodes ns"
proof (cases ns)
  case (Cons n ms)
  from pass_earlier_suffix obtain zs where "ms = zs @ pass_earlier t ms" by blast
  with Cons have "ns = (n # zs) @ go_to_start t all_nodes ns \<or> ns = [n] @ go_to_start t all_nodes ns"
    by (simp add: go_to_start_def)
  then show ?thesis by blast
qed (simp add: go_to_start_def)

lemma own_nodes_filter: "own_nodes (filter (\<lambda>n. P (fst n)) ns) = filter (\<lambda>x. P (fst x)) (own_nodes ns)"
proof (induction ns)
  case (Cons n ns)
  obtain t own where "n = (t, own)" by (cases n)
  with Cons show ?case by (cases own) auto
qed simp

section \<open>Settable resources\<close>

lemma settable_window_ok:
  assumes "\<forall>x\<in>set xs. value_at (snd x) = Some (f x)" and "sorted (map fst xs)"
  shows "settable_window end_time False value_at (map (\<lambda>x. (fst x, Some (snd x))) xs) =
    Inr (map (\<lambda>x. (fst x, f x)) (filter (\<lambda>x. fst x \<le> end_time) xs))"
  using assms
proof (induction xs)
  case (Cons x xs)
  show ?case
  proof (cases "fst x \<le> end_time")
    case False
    then have "filter (\<lambda>y. fst y \<le> end_time) xs = []" using Cons.prems(2) by (auto simp: filter_empty_conv)
    with False show ?thesis by simp
  next
    case True
    with Cons show ?thesis by simp
  qed
qed simp

text \<open>The history of a settable resource between two times holds the nodes of its history between
  them with their values, in order; but when no node is before the start, the first node is
  left out.\<close>

theorem settable_history_window:
  assumes "settable_ok cur s"
    and "ns = map (\<lambda>a. (node_time a, Some (ident a))) (hist_nodes (settable_history s))"
  shows "get_partial_settable_history start duration False ns s =
    Inr (filter (\<lambda>x. start \<le> fst x \<and> fst x \<le> start + duration) (but_first fst start (stored s)))"
proof -
  let ?h = "settable_history s"
  have hist: "history_ok cur ?h" using assms(1) by (simp add: settable_ok_def)
  note facts = hist_facts [OF hist]
  let ?g = "\<lambda>a. (node_time a, ident a)" and ?f = "\<lambda>x. the (node_value s (snd x))"
  let ?ns = "but_first node_time start (hist_nodes ?h)"
  let ?xs = "filter (\<lambda>x. start \<le> fst x) (map ?g ?ns)"
  have st: "but_first fst start (stored s) = map (\<lambda>a. (node_time a, ?f (?g a))) ?ns"
    by (simp add: stored_def stored_at_def settable_events_def facts(4) core_def node_time_def [abs_def] o_def but_first_map)
  from but_first_suffix obtain ys where ys: "hist_nodes ?h = ys @ ?ns" by blast
  have "sorted (map node_time (ys @ ?ns))" using facts(6) by (simp add: ys [symmetric] sorted_map)
  then have sorted: "sorted (map fst ?xs)"
    by (simp add: sorted_append filter_map o_def sorted_filter)
  have val: "\<forall>x\<in>set ?xs. node_value s (snd x) = Some (?f x)"
  proof
    fix x assume "x \<in> set ?xs"
    then obtain a where a: "a \<in> set ?ns" "x = ?g a" by auto
    have "a \<in> set (hist_nodes ?h)" using a(1) by (subst ys) simp
    then have "core a \<in> set (settable_events s)" by (simp add: settable_events_def facts(4))
    with assms(1) obtain v where "node_value s (core_id (core a)) = Some v" unfolding settable_ok_def by blast
    with a(2) show "node_value s (snd x) = Some (?f x)" by (simp add: core_def)
  qed
  have "sorted (map fst ns)" using facts(6) by (simp add: assms(2) o_def sorted_map)
  from go_to_start_ok [OF this, of start] have
    "go_to_start start False ns = map (\<lambda>x. (fst x, Some (snd x))) ?xs"
    by (simp add: assms(2) but_first_map filter_map o_def)
  with settable_window_ok [OF val sorted] show ?thesis
    by (simp add: get_partial_settable_history_def st time_add_def filter_map o_def conj_commute)
qed

section \<open>Numeric resources\<close>

lemma seek_local_split:
  "seek_local n ns = (m, ms) \<Longrightarrow>
     \<exists>skipped. n # ns = skipped @ m # ms \<and> fst m = fst n \<and> own_nodes skipped = []
       \<and> (\<forall>x\<in>set skipped. fst x = fst n)"
proof (induction n ns rule: seek_local.induct)
  case (1 t a ns)
  then show ?case by (intro exI [of _ "[]"]) auto
next
  case (2 t)
  then show ?case by (intro exI [of _ "[]"]) auto
next
  case (3 t n ns)
  show ?case
  proof (cases "fst n = t")
    case True
    with 3 obtain skipped where "n # ns = skipped @ m # ms" "fst m = fst n" "own_nodes skipped = []"
      "\<forall>x\<in>set skipped. fst x = fst n" by auto
    with True show ?thesis by (intro exI [of _ "(t, None) # skipped"]) simp
  next
    case False
    with 3 show ?thesis by (intro exI [of _ "[]"]) auto
  qed
qed

definition latest_own :: "nat option \<Rightarrow> int \<Rightarrow> delivered list \<Rightarrow> nat option" where
  "latest_own previous t ns =
     (case last_opt (filter (\<lambda>x. fst x \<le> t) (own_nodes ns)) of None \<Rightarrow> previous | Some x \<Rightarrow> Some (snd x))"

lemma latest_own_simps:
  "latest_own previous t [] = previous"
  "fst m \<le> t \<Longrightarrow> latest_own previous t (m # ms) =
     latest_own (case snd m of None \<Rightarrow> previous | Some a \<Rightarrow> Some a) t ms"
  by (cases m; cases "snd m"; auto simp: latest_own_def split: option.splits)+

lemma latest_own_skipped: "own_nodes xs = [] \<Longrightarrow> latest_own previous t (xs @ ms) = latest_own previous t ms"
  by (simp add: latest_own_def)

lemma latest_own_late: "\<forall>m\<in>set ms. t < fst m \<Longrightarrow> latest_own previous t ms = previous"
proof -
  assume late: "\<forall>m\<in>set ms. t < fst m"
  have "\<not> fst x \<le> t" if "x \<in> set (own_nodes ms)" for x
    using bspec [OF late own_nodes_times [OF that]] by simp
  then have "filter (\<lambda>x. fst x \<le> t) (own_nodes ms) = []" by (simp add: filter_empty_conv del: split_paired_All)
  then show ?thesis by (simp add: latest_own_def)
qed

lemma naming_resource_Inr [simp]: "naming_resource m r = Inr v \<longleftrightarrow> r = Inr v"
  by (auto simp: naming_resource_def split: sum.splits ap_error.splits)

lemma numeric_window_step:
  assumes "numeric_window E False profile h prev (n # ns) = Inr l" and "fst n \<le> E"
    and "seek_local n ns = (m, ms)"
  obtains pv v l' where "profile (fst m) = Inr pv"
    "less_consumption (snd m \<noteq> None) pv (case snd m of None \<Rightarrow> prev | Some a \<Rightarrow> Some a) h = Inr v"
    "numeric_window E False profile h (case snd m of None \<Rightarrow> prev | Some a \<Rightarrow> Some a) ms = Inr l'"
    "l = (fst m, v) # l'"
  using assms by (auto simp: bind_result_ok map_ok_Inr Let_def)

lemma numeric_window_times:
  "numeric_window E False profile h prev ns = Inr l \<Longrightarrow> sorted (map fst ns) \<Longrightarrow>
     fst ` set l = {t \<in> fst ` set ns. t \<le> E}"
proof (induction "length ns" arbitrary: ns prev l rule: less_induct)
  case less
  show ?case
  proof (cases ns)
    case Nil
    with less.prems show ?thesis by simp
  next
    case (Cons n later)
    show ?thesis
    proof (cases "fst n \<le> E")
      case False
      with less.prems Cons show ?thesis by auto
    next
      case True
      obtain m ms where seek: "seek_local n later = (m, ms)" by (cases "seek_local n later")
      from seek_local_split [OF seek] obtain skipped where
        split: "ns = skipped @ m # ms" "fst m = fst n" "\<forall>x\<in>set skipped. fst x = fst n" using Cons by auto
      from numeric_window_step [OF less.prems(1) [unfolded Cons] True seek] obtain pv v l' where
        l: "numeric_window E False profile h (case snd m of None \<Rightarrow> prev | Some a \<Rightarrow> Some a) ms = Inr l'"
        "l = (fst m, v) # l'" by blast
      have "length ms < length ns" using seek_local_length [OF seek] Cons by simp
      moreover have "sorted (map fst ms)" using less.prems(2) split(1) by (simp add: sorted_append)
      ultimately have "fst ` set l' = {t \<in> fst ` set ms. t \<le> E}" using less.hyps l(1) by blast
      with l(2) split True show ?thesis by auto
    qed
  qed
qed

lemma numeric_window_ok:
  "numeric_window E False profile h prev ns = Inr l \<Longrightarrow> sorted (map fst ns) \<Longrightarrow>
     l = pre @ (t, v) # post \<Longrightarrow> t \<notin> fst ` set post \<Longrightarrow>
     \<exists>pv own. profile t = Inr pv \<and> less_consumption own pv (latest_own prev t ns) h = Inr v"
proof (induction "length ns" arbitrary: ns prev l pre rule: less_induct)
  case less
  show ?case
  proof (cases ns)
    case Nil
    with less.prems show ?thesis by simp
  next
    case (Cons n later)
    have E: "fst n \<le> E" using less.prems(1,3) Cons by (auto split: if_splits)
    obtain m ms where seek: "seek_local n later = (m, ms)" by (cases "seek_local n later")
    let ?prev = "case snd m of None \<Rightarrow> prev | Some a \<Rightarrow> Some a"
    from seek_local_split [OF seek] obtain skipped where
      split: "ns = skipped @ m # ms" "fst m = fst n" "own_nodes skipped = []" using Cons by auto
    have sorted: "sorted (map fst ms)" "\<forall>x\<in>set ms. fst m \<le> fst x"
      using less.prems(2) split(1) by (simp_all add: sorted_append)
    from numeric_window_step [OF less.prems(1) [unfolded Cons] E seek] obtain pv w l' where
      l: "profile (fst m) = Inr pv" "less_consumption (snd m \<noteq> None) pv ?prev h = Inr w"
      "numeric_window E False profile h ?prev ms = Inr l'" "l = (fst m, w) # l'" by blast
    note times = numeric_window_times [OF l(3) sorted(1)]
    have own: "latest_own prev t ns = latest_own ?prev t ms" if "fst m \<le> t"
      using latest_own_simps(2) [OF that] latest_own_skipped [OF split(3)] split(1) by simp
    show ?thesis
    proof (cases pre)
      case Nil
      with less.prems(3) l(4) have t: "t = fst m" "v = w" "post = l'" by simp_all
      have "\<forall>x\<in>set ms. t < fst x"
      proof
        fix x assume x: "x \<in> set ms"
        have "fst x \<noteq> t"
        proof
          assume "fst x = t"
          with x E split(2) t(1) have "t \<in> {t \<in> fst ` set ms. t \<le> E}" by (auto intro: rev_image_eqI)
          then have "t \<in> fst ` set l'" using times by simp
          with less.prems(4) t(3) show False by simp
        qed
        with sorted(2) x t(1) show "t < fst x" by force
      qed
      from latest_own_late [OF this] own t l show ?thesis by auto
    next
      case (Cons y pre')
      with less.prems(3) l(4) have l': "l' = pre' @ (t, v) # post" by simp
      then have "t \<in> fst ` set l'" by force
      with times sorted(2) have "fst m \<le> t" by auto
      moreover have "length ms < length ns" using seek_local_length [OF seek] \<open>ns = n # later\<close> by simp
      from less.hyps [OF this l(3) sorted(1) l' less.prems(4)]
      have "\<exists>pv own. profile t = Inr pv \<and> less_consumption own pv (latest_own ?prev t ms) h = Inr v" .
      ultimately show ?thesis using own by simp
    qed
  qed
qed

text \<open>The consumptions are small enough to be exact as doubles, in seconds as well.\<close>

definition exact_consumptions :: "res_history \<Rightarrow> bool" where
  "exact_consumptions h \<longleftrightarrow>
     (\<forall>a\<in>set (hist_nodes h).
        case get_int_consumption (ident a) (tree (historyList h)) of
          None \<Rightarrow> True
        | Some c \<Rightarrow> \<bar>sint c\<bar> \<le> 2 ^ 50)"

lemma less_node_value_exact:
  assumes "\<bar>sint c\<bar> \<le> 2 ^ 50"
  shows "less_node_value node_is_local v c = subtract_node_value v c"
proof (cases v)
  case (INTEGER i)
  have d: "to_double (of_int (sint c)) = of_int (sint c)" using assms by (intro to_double_int) simp
  then have "truncated (to_double (of_int (sint c))) = sint c" by (simp only: d truncated_int)
  then show ?thesis by (simp add: INTEGER)
qed (use double_duration [OF assms] in simp)

lemma numeric_value_less:
  assumes ok: "history_ok cur h" and cur: "0 \<le> cur" and profile: "profile t = Inr pv"
    and exact: "exact_consumptions h"
  shows "numeric_value profile NORMAL t cur h = less_consumption node_is_local pv
    (map_option ident (last_opt (filter (\<lambda>a. node_time a \<le> t) (hist_nodes h)))) h"
proof (cases "last_opt (filter (\<lambda>a. node_time a \<le> t) (hist_nodes h))")
  case None
  then show ?thesis
    unfolding numeric_value_def strategy.case found_nodes(1) [OF ok cur]
    by (simp add: value_from_def less_consumption_def naming_resource_def profile)
next
  case (Some a)
  then have "a \<in> set (filter (\<lambda>a. node_time a \<le> t) (hist_nodes h))"
    by (metis last_in_set last_opt_eq option.distinct(1) option.inject)
  then have "a \<in> set (hist_nodes h)" by simp
  with exact Some show ?thesis
    unfolding numeric_value_def strategy.case found_nodes(1) [OF ok cur]
    by (auto simp: value_from_def less_consumption_def naming_resource_def profile exact_consumptions_def
        less_node_value_exact split: option.splits)
qed

text \<open>C25: The history of a numeric resource between two times, whose consumptions are at most 2 to
  the power 50, an amount or a number of milliseconds: the last value for each time in it is
  the value of the resource at that time, although it is computed through doubles, if a node of
  its own history is between the start and
  that time (behind the first one delivered), or none is before it at all. Every time at which
  a node is delivered, up to the end, is in it.\<close>

theorem numeric_history_values:
  assumes "history_ok cur h" and "0 \<le> cur" and "delivers ns h" and "exact_consumptions h"
    and "get_partial_numeric_history start duration False profile ns h = Inr (pre @ (t, v) # post)"
    and "t \<notin> fst ` set post"
    and "(\<exists>x\<in>set (own_nodes (but_first fst start ns)). start \<le> fst x \<and> fst x \<le> t)
      \<or> (\<forall>a\<in>set (hist_nodes h). t < node_time a)"
  shows "numeric_value profile NORMAL t cur h = Inr v
    \<and> fst ` set (pre @ (t, v) # post) =
        {u. start \<le> u \<and> u \<le> start + duration \<and> u \<in> fst ` set (but_first fst start ns)}"
proof -
  let ?ns = "go_to_start start False ns" and ?g = "\<lambda>a. (node_time a, ident a)"
  have sorted: "sorted (map fst ns)" and own: "own_nodes ns = map ?g (hist_nodes h)"
    using assms(3) by (simp_all add: delivers_def)
  note go = go_to_start_ok [OF sorted, of start]
  from go_to_start_suffix [of ns start False] obtain zs where zs: "ns = zs @ ?ns" by blast
  have "sorted (map fst (zs @ ?ns))" using sorted zs by simp
  then have sorted': "sorted (map fst ?ns)" by (simp add: sorted_append)
  have run: "numeric_window (start + duration) False profile h None ?ns = Inr (pre @ (t, v) # post)"
    using assms(5) by (simp add: get_partial_numeric_history_def time_add_def)
  from numeric_window_ok [OF run sorted' refl assms(6)] obtain pv own where
    pv: "profile t = Inr pv" "less_consumption own pv (latest_own None t ?ns) h = Inr v" by blast
  have early: "filter (\<lambda>x. fst x \<le> t) (own_nodes ns) = map ?g (filter (\<lambda>a. node_time a \<le> t) (hist_nodes h))"
    by (simp add: own filter_map o_def)
  have last: "last_opt (filter (\<lambda>x. fst x \<le> t) (own_nodes ns)) =
      map_option ?g (last_opt (filter (\<lambda>a. node_time a \<le> t) (hist_nodes h)))"
    unfolding early by (simp add: last_opt_eq last_map)
  have own': "own_nodes ns = own_nodes zs @ own_nodes ?ns" by (subst zs) simp
  have "latest_own None t ?ns = map_option ident (last_opt (filter (\<lambda>a. node_time a \<le> t) (hist_nodes h)))"
  proof (cases "\<exists>x\<in>set (own_nodes (but_first fst start ns)). start \<le> fst x \<and> fst x \<le> t")
    case True
    then have "filter (\<lambda>x. fst x \<le> t) (own_nodes ?ns) \<noteq> []"
      unfolding go own_nodes_filter filter_empty_conv by auto
    then obtain x where x: "last_opt (filter (\<lambda>x. fst x \<le> t) (own_nodes ?ns)) = Some x"
      by (auto simp: last_opt_eq)
    then have "last_opt (filter (\<lambda>x. fst x \<le> t) (own_nodes ns)) = Some x" by (simp add: own')
    with x last show ?thesis
      by (cases "last_opt (filter (\<lambda>a. node_time a \<le> t) (hist_nodes h))") (auto simp: latest_own_def)
  next
    case False
    with assms(7) have "filter (\<lambda>a. node_time a \<le> t) (hist_nodes h) = []" by (auto simp: filter_empty_conv)
    with last have "filter (\<lambda>x. fst x \<le> t) (own_nodes ns) = []" by simp
    with last show ?thesis by (simp add: latest_own_def own')
  qed
  with numeric_value_less [where profile = profile, OF assms(1,2) pv(1) assms(4), of own] pv(2) numeric_window_times [OF run sorted'] go show ?thesis
    by auto
qed

definition between_nodes :: "delivered list" where
  "between_nodes = [(10, Some 1), (10, Some 4), (10, Some 5), (11, None), (12, Some 6), (13, None),
     (15, Some 3), (20, Some 2)]"

lemma numeric_history_witness:
  "get_partial_numeric_history 12 4 False (\<lambda>t. Inr (INTEGER 100)) between_nodes six_events =
     Inr [(12, INTEGER 88), (13, INTEGER 88), (15, INTEGER 81)]
   \<and> numeric_value (\<lambda>t. Inr (INTEGER 100)) NORMAL 13 9 six_events = Inr (INTEGER 88)"
proof -
  have run: "get_partial_numeric_history 12 4 False (\<lambda>t. Inr (INTEGER 100)) between_nodes six_events =
      Inr ([(12, INTEGER 88)] @ (13, INTEGER 88) # [(15, INTEGER 81)])" by code_simp
  have "delivers between_nodes six_events" unfolding delivers_def by code_simp
  moreover have "exact_consumptions six_events" by code_simp
  ultimately show ?thesis
    using numeric_history_values [OF six_events_ok _ _ _ run] run
    by (simp add: between_nodes_def but_first_def)
qed

text \<open>Beyond 53 bits the history between two times loses what the value at a time has.\<close>

lemma large_consumption_rounded:
  "less_node_value True (INTEGER 0) 9007199254740993 = Inr (INTEGER (- 9007199254740992))"
  "subtract_node_value (INTEGER 0) 9007199254740993 = Inr (INTEGER (- 9007199254740993))"
  by code_simp+

text \<open>The usages before the start are lost at a node of the profile that comes before the first node
  of the resource itself.\<close>

lemma numeric_history_forgets:
  "get_partial_numeric_history 11 1 False (\<lambda>t. Inr (INTEGER 100)) between_nodes six_events =
     Inr [(11, INTEGER 100), (12, INTEGER 88)]"
  "numeric_value (\<lambda>t. Inr (INTEGER 100)) NORMAL 11 9 six_events = Inr (INTEGER 97)"
  by code_simp+

lemma settable_history_witness:
  "\<exists>cur s. settable_sets sample_filter sample_sets 5 started_resource = Inr (cur, s)
     \<and> (\<forall>ns. ns = map (\<lambda>a. (node_time a, Some (ident a))) (hist_nodes (settable_history s)) \<longrightarrow>
          get_partial_settable_history 5 20 False ns s = Inr [(20, DurationV 97)]
          \<and> get_partial_settable_history 0 20 False ns s = Inr [(20, DurationV 97)])"
proof -
  have "tracks sample_filter 5 [(0, DurationV 100)] 0 1 started_resource" "settable_type started_resource = DURATION_TYPE"
    using settable_initialize_tracks [of "new_settable DURATION_TYPE" 1 5 "DurationV 100" 0 sample_filter]
      sample_run(1) by (auto simp: new_settable_def)
  with settable_sets_track [of sample_filter 5 "[(0, DurationV 100)]" "(0, 1)" started_resource sample_sets] sample_run(2,3)
  obtain cur s t p where s: "settable_sets sample_filter sample_sets 5 started_resource = Inr (cur, s)"
    "tracks sample_filter cur ([(0, DurationV 100)] @ map time_and_value sample_sets) t p s"
    by (auto simp: no_integer_delta_def)
  have "map_ok (\<lambda>x. stored (snd x)) (settable_sets sample_filter sample_sets 5 started_resource) =
      Inr [(0, DurationV 100), (20, DurationV 97), (30, DurationV 120)]" by code_simp
  with s(1) have "stored s = [(0, DurationV 100), (20, DurationV 97), (30, DurationV 120)]" by simp
  moreover have "settable_ok cur s" using s(2) by (simp add: tracks_def)
  ultimately show ?thesis
    using s(1) settable_history_window [of cur s] by (simp add: but_first_def)
qed

section \<open>State resources\<close>

text \<open>What the loop has after the nodes \<open>bs\<close>, the latest first: the pending usages, the last SET or
  RESET, and the value in force as far as it does not come from the profile.\<close>

definition lasting_value :: "'v snode list \<Rightarrow> 'v option" where
  "lasting_value bs =
     (case opens bs of
        x # _ \<Rightarrow> Some (val (snd x))
      | [] \<Rightarrow> (case List.find is_set bs of
                 Some x \<Rightarrow> if res_val_type (snd x) = SET then Some (val (snd x)) else None
               | None \<Rightarrow> None))"

definition scanned :: "'v snode list \<Rightarrow> 'v state_scan \<Rightarrow> bool" where
  "scanned bs q \<longleftrightarrow>
     stack q = rev (map (\<lambda>x. (fst x, val (snd x))) (opens bs))
     \<and> last_set_node q = map_option (\<lambda>x. (val (snd x), res_val_type (snd x) = SET)) (List.find is_set bs)
     \<and> (\<forall>v. lasting_value bs = Some v \<longrightarrow> value_to_use q = Some v)"

lemma state_value_lasting:
  "state_value pv bs = (case lasting_value bs of Some v \<Rightarrow> Inr v | None \<Rightarrow> pv)"
  by (auto simp: state_value_def set_value_def lasting_value_def split: list.split option.split)

lemma scanned_stack: "scanned bs q \<Longrightarrow> stack q = [] \<longleftrightarrow> opens bs = []"
  by (simp add: scanned_def)

lemma scanned_last_set:
  "scanned bs q \<Longrightarrow> last_is_set q =
     (case List.find is_set bs of
        Some x \<Rightarrow> if res_val_type (snd x) = SET then Some (val (snd x)) else None | None \<Rightarrow> None)"
  by (auto simp: scanned_def last_is_set_def split: option.split bool.split)

lemma scanned_start: "scanned [] \<lparr>stack = [], last_set_node = None, value_to_use = None, end_values = e\<rparr>"
  by (simp add: scanned_def lasting_value_def opens_def)

lemma scan_profile_ok:
  assumes q: "scanned bs q" and run: "scan_profile evaluate t q = Inr q1"
  shows "scanned bs q1" "\<exists>v. value_to_use q1 = Some v \<and> (lasting_value bs = Some v
    \<or> lasting_value bs = None \<and> evaluate t = Inr v)"
proof -
  have iff: "stack q = [] \<and> last_is_set q = None \<longleftrightarrow> lasting_value bs = None"
    using scanned_stack [OF q] scanned_last_set [OF q]
    by (auto simp: lasting_value_def split: list.split option.split if_splits)
  show "scanned bs q1"
    using run q iff by (auto simp: scan_profile_def map_ok_Inr scanned_def split: if_splits)
  show "\<exists>v. value_to_use q1 = Some v \<and> (lasting_value bs = Some v
    \<or> lasting_value bs = None \<and> evaluate t = Inr v)"
  proof (cases "lasting_value bs")
    case None
    with run iff show ?thesis by (auto simp: scan_profile_def map_ok_Inr)
  next
    case (Some v)
    with run iff q show ?thesis by (auto simp: scan_profile_def scanned_def split: if_splits)
  qed
qed

lemma opens_Cons:
  "is_start x \<Longrightarrow> fst x \<notin> closed_by bs \<Longrightarrow> opens (x # bs) = x # opens bs"
  "is_set x \<Longrightarrow> opens (x # bs) = opens bs"
  "is_end x \<Longrightarrow> an_Other (snd x) = Some n \<Longrightarrow> opens (x # bs) = filter (\<lambda>y. fst y \<noteq> n) (opens bs)"
  using node_kinds [of x] by (auto simp: opens_def intro!: filter_cong)

lemma scan_own_ok:
  assumes q: "scanned bs q" and ok: "uses_ok ((a, p) # bs)"
    and reset: "res_val_type p = RESET \<longrightarrow> profile t = Inr (val p)"
    and run: "scan_own profile t a p q = Inr q1"
  shows "scanned ((a, p) # bs) q1"
    "\<exists>v. value_to_use q1 = Some v \<and> state_value (profile t) ((a, p) # bs) = Inr v"
proof -
  let ?x = "(a, p)"
  have x: "node_ok bs ?x" and bs: "uses_ok bs" using ok by simp_all
  have fresh: "a \<notin> closed_by bs"
    using closed_known [OF bs] x by (auto simp: node_ok_def)
  have "scanned (?x # bs) q1 \<and> (\<exists>v. value_to_use q1 = Some v \<and> state_value (profile t) (?x # bs) = Inr v)"
  proof (cases "res_val_type p")
    case DON_T_CARE
    with x show ?thesis by (simp add: node_ok_def)
  next
    case START_USING
    then have "opens (?x # bs) = ?x # opens bs" "\<not> is_set ?x"
      using fresh by (simp_all add: opens_Cons(1) is_start_def is_set_def)
    with START_USING run q show ?thesis
      by (auto simp: scan_own_def scanned_def lasting_value_def state_value_def)
  next
    case END_USING
    then have E: "is_end ?x" "\<not> is_set ?x" by (simp_all add: is_end_def is_set_def)
    with x obtain n where n: "an_Other p = Some n" by (auto simp: node_ok_def)
    have o: "opens (?x # bs) = filter (\<lambda>y. fst y \<noteq> n) (opens bs)" using opens_Cons(3) [OF E(1)] n by simp
    let ?st = "filter (\<lambda>e. fst e \<noteq> n) (stack q)"
    have st: "?st = rev (map (\<lambda>x. (fst x, val (snd x))) (opens (?x # bs)))"
      using q by (simp add: scanned_def o rev_filter [symmetric] filter_map o_def)
    show ?thesis
    proof (cases "opens (?x # bs)")
      case (Cons y ys)
      then have "last_opt ?st = Some (fst y, val (snd y))" unfolding st by (simp add: last_opt_eq)
      then have "q1 = q\<lparr>stack := ?st, value_to_use := Some (val (snd y)), end_values := end_values q @ [(a, val (snd y))]\<rparr>"
        using run END_USING n by (auto simp: scan_own_def Let_def)
      with Cons E q st show ?thesis by (simp add: scanned_def lasting_value_def state_value_def)
    next
      case Nil
      then have none: "last_opt ?st = None" unfolding st by simp
      have find: "List.find is_set (?x # bs) = List.find is_set bs" using E by simp
      show ?thesis
      proof (cases "last_is_set q")
        case (Some v)
        then have "q1 = q\<lparr>stack := ?st, value_to_use := Some v, end_values := end_values q @ [(a, v)]\<rparr>"
          using run END_USING n none by (auto simp: scan_own_def Let_def)
        moreover have "lasting_value (?x # bs) = Some v"
          using Some scanned_last_set [OF q] find Nil by (auto simp: lasting_value_def split: option.splits if_splits)
        ultimately show ?thesis using q st find by (simp add: scanned_def state_value_lasting)
      next
        case None
        then obtain v where v: "profile t = Inr v" "q1 = q\<lparr>stack := ?st, value_to_use := Some v\<rparr>"
          using run END_USING n none by (auto simp: scan_own_def Let_def map_ok_Inr)
        moreover have "lasting_value (?x # bs) = None"
          using None scanned_last_set [OF q] find Nil by (auto simp: lasting_value_def split: option.splits if_splits)
        ultimately show ?thesis using q st find by (simp add: scanned_def state_value_lasting)
      qed
    qed
  next
    case SET
    then have "is_set ?x" "opens (?x # bs) = opens bs" by (simp_all add: opens_Cons(2) is_set_def)
    with SET run q show ?thesis
      by (auto simp: scan_own_def scanned_def lasting_value_def state_value_lasting split: list.splits)
  next
    case RESET
    then have "is_set ?x" "opens (?x # bs) = opens bs" by (simp_all add: opens_Cons(2) is_set_def)
    with RESET run q reset show ?thesis
      by (auto simp: scan_own_def scanned_def lasting_value_def state_value_lasting split: list.splits)
  qed
  then show "scanned ((a, p) # bs) q1"
    "\<exists>v. value_to_use q1 = Some v \<and> state_value (profile t) ((a, p) # bs) = Inr v" by blast+
qed

definition scan_step ::
  "(int \<Rightarrow> 'v result) \<Rightarrow> (int \<Rightarrow> 'v result) \<Rightarrow> (nat \<Rightarrow> 'v st_value_node option) \<Rightarrow> delivered \<Rightarrow>
     'v state_scan \<Rightarrow> 'v state_scan result" where
  "scan_step profile evaluate pay n q =
     (case snd n of
        None \<Rightarrow> scan_profile evaluate (fst n) q
      | Some a \<Rightarrow> (case pay a of None \<Rightarrow> Inl NullAccess | Some p \<Rightarrow> scan_own profile (fst n) a p q))"

lemma state_window_step:
  assumes "state_window S E False profile evaluate pay q (n # ns) = Inr (l, e)"
  obtains q1 where "scan_step profile evaluate pay n q = Inr q1"
    and "fst n < E \<Longrightarrow> \<exists>l'. state_window S E False profile evaluate pay q1 ns = Inr (l', e)
      \<and> l = (case value_to_use q1 of None \<Rightarrow> [] | Some v \<Rightarrow> if S \<le> fst n then [(fst n, v)] else []) @ l'"
    and "\<not> fst n < E \<Longrightarrow> \<forall>x\<in>set l. fst x = fst n"
proof -
  obtain t own where n: "n = (t, own)" by (cases n)
  have run: "bind_result (scan_step profile evaluate pay n q)
       (\<lambda>q1.
         let entry = (case value_to_use q1 of
                        None \<Rightarrow> []
                      | Some v \<Rightarrow> if S \<le> t \<and> t \<le> E then [(t, v)] else [])
         in if t \<ge> E then Inr (entry, end_values q1)
            else map_ok (\<lambda>(l, e). (entry @ l, e))
                   (state_window S E False profile evaluate pay q1 ns)) = Inr (l, e)"
    using assms unfolding n state_window.simps scan_step_def fst_conv snd_conv simp_thms .
  then obtain q1 where q1: "scan_step profile evaluate pay n q = Inr q1" by (auto simp: bind_result_ok)
  show ?thesis
  proof (rule that [OF q1])
    assume "fst n < E"
    with run q1 show "\<exists>l'. state_window S E False profile evaluate pay q1 ns = Inr (l', e)
      \<and> l = (case value_to_use q1 of None \<Rightarrow> [] | Some v \<Rightarrow> if S \<le> fst n then [(fst n, v)] else []) @ l'"
      by (cases "value_to_use q1") (auto simp: n map_ok_Inr Let_def)
  next
    assume "\<not> fst n < E"
    with run q1 show "\<forall>x\<in>set l. fst x = fst n"
      by (auto simp: n Let_def split: option.splits if_splits)
  qed
qed

lemma scan_step_value:
  "scan_step profile evaluate pay n q = Inr q1 \<Longrightarrow> value_to_use q \<noteq> None \<Longrightarrow> value_to_use q1 \<noteq> None"
  by (auto simp: scan_step_def scan_profile_def scan_own_def map_ok_Inr Let_def
      split: option.splits if_splits RES_VAL_TYPE.splits)

lemma state_window_complete:
  "state_window S E False profile evaluate pay q ns = Inr (l, e) \<Longrightarrow> value_to_use q \<noteq> None \<Longrightarrow>
     sorted (map fst ns) \<Longrightarrow> m \<in> set ns \<Longrightarrow> S \<le> fst m \<Longrightarrow> fst m < E \<Longrightarrow> fst m \<in> fst ` set l"
proof (induction ns arbitrary: q l)
  case (Cons n ns)
  have E: "fst n < E" using Cons.prems by auto
  from state_window_step [OF Cons.prems(1)] E obtain q1 l' where
    q1: "scan_step profile evaluate pay n q = Inr q1"
    "state_window S E False profile evaluate pay q1 ns = Inr (l', e)"
    "l = (case value_to_use q1 of None \<Rightarrow> [] | Some v \<Rightarrow> if S \<le> fst n then [(fst n, v)] else []) @ l'"
    by metis
  have some: "value_to_use q1 \<noteq> None" by (rule scan_step_value [OF q1(1) Cons.prems(2)])
  show ?case
  proof (cases "m = n")
    case True
    with some q1(3) Cons.prems(5) show ?thesis by auto
  next
    case False
    with Cons.prems have "fst m \<in> fst ` set l'" by (intro Cons.IH [OF q1(2) some]) auto
    with q1(3) show ?thesis by auto
  qed
qed simp

lemma state_window_times:
  "state_window S E False profile evaluate pay q ns = Inr (l, e) \<Longrightarrow> fst ` set l \<subseteq> fst ` set ns"
proof (induction ns arbitrary: q l)
  case (Cons n ns)
  show ?case
  proof (cases "fst n < E")
    case False
    with state_window_step [OF Cons.prems] have "\<forall>x\<in>set l. fst x = fst n" by metis
    then show ?thesis by auto
  next
    case True
    with state_window_step [OF Cons.prems] obtain q1 l' where
      q1: "state_window S E False profile evaluate pay q1 ns = Inr (l', e)"
      "l = (case value_to_use q1 of None \<Rightarrow> [] | Some v \<Rightarrow> if S \<le> fst n then [(fst n, v)] else []) @ l'"
      by metis
    with Cons.IH [OF q1(1)] show ?thesis by (auto split: option.splits if_splits)
  qed
qed simp

definition own_snode :: "(nat \<Rightarrow> 'v st_value_node option) \<Rightarrow> int \<times> nat \<Rightarrow> 'v snode" where
  "own_snode pay x = (snd x, the (pay (snd x)))"

definition upto :: "(nat \<Rightarrow> 'v st_value_node option) \<Rightarrow> int \<Rightarrow> delivered list \<Rightarrow> 'v snode list" where
  "upto pay t ns = rev (map (own_snode pay) (filter (\<lambda>x. fst x \<le> t) (own_nodes ns)))"

lemma upto_late: "\<forall>m\<in>set ns. t < fst m \<Longrightarrow> upto pay t ns = []"
proof -
  assume late: "\<forall>m\<in>set ns. t < fst m"
  have "\<not> fst x \<le> t" if "x \<in> set (own_nodes ns)" for x
    using bspec [OF late own_nodes_times [OF that]] by simp
  then show ?thesis by (simp add: upto_def filter_empty_conv del: split_paired_All)
qed

text \<open>What one node adds to the nodes passed.\<close>

definition passed_by :: "(nat \<Rightarrow> 'v st_value_node option) \<Rightarrow> delivered \<Rightarrow> 'v snode list" where
  "passed_by pay n = (case snd n of None \<Rightarrow> [] | Some a \<Rightarrow> [own_snode pay (fst n, a)])"

lemma upto_Cons: "fst n \<le> t \<Longrightarrow> upto pay t (n # ns) = upto pay t ns @ passed_by pay n"
  by (cases n; cases "snd n") (auto simp: upto_def passed_by_def)

definition well_stored ::
  "(int \<Rightarrow> 'v result) \<Rightarrow> (nat \<Rightarrow> 'v st_value_node option) \<Rightarrow> delivered list \<Rightarrow> bool" where
  "well_stored profile pay ns \<longleftrightarrow>
     (\<forall>x\<in>set (own_nodes ns). \<exists>p. pay (snd x) = Some p
        \<and> (res_val_type p = RESET \<longrightarrow> profile (fst x) = Inr (val p)))"

lemma scan_step_ok:
  assumes q: "scanned bs q" and ok: "uses_ok (passed_by pay n @ bs)" and pay: "well_stored profile pay [n]"
    and run: "scan_step profile evaluate pay n q = Inr q1"
  shows "scanned (passed_by pay n @ bs) q1"
    "\<exists>v. value_to_use q1 = Some v \<and> (state_value (profile (fst n)) (passed_by pay n @ bs) = Inr v
       \<or> snd n = None \<and> lasting_value bs = None \<and> evaluate (fst n) = Inr v)"
proof -
  obtain t own where n: "n = (t, own)" by (cases n)
  have "scanned (passed_by pay n @ bs) q1 \<and>
    (\<exists>v. value_to_use q1 = Some v \<and> (state_value (profile (fst n)) (passed_by pay n @ bs) = Inr v
       \<or> snd n = None \<and> lasting_value bs = None \<and> evaluate (fst n) = Inr v))"
  proof (cases own)
    case None
    with run n scan_profile_ok [OF q, of evaluate t q1] show ?thesis
      by (auto simp: scan_step_def passed_by_def state_value_lasting)
  next
    case (Some a)
    with pay n obtain p where p: "pay a = Some p" "res_val_type p = RESET \<longrightarrow> profile t = Inr (val p)"
      by (auto simp: well_stored_def)
    have by_n: "passed_by pay n @ bs = (a, p) # bs" using Some n p(1) by (simp add: passed_by_def own_snode_def)
    have "scan_own profile t a p q = Inr q1" using run Some n p(1) by (simp add: scan_step_def)
    from scan_own_ok [OF q ok [unfolded by_n] p(2) this] show ?thesis unfolding by_n using n by auto
  qed
  then show "scanned (passed_by pay n @ bs) q1"
    "\<exists>v. value_to_use q1 = Some v \<and> (state_value (profile (fst n)) (passed_by pay n @ bs) = Inr v
       \<or> snd n = None \<and> lasting_value bs = None \<and> evaluate (fst n) = Inr v)" by blast+
qed

lemma own_all: "rev (map (own_snode pay) (own_nodes (n # ns))) =
    rev (map (own_snode pay) (own_nodes ns)) @ passed_by pay n"
  by (cases n; cases "snd n") (auto simp: passed_by_def)

lemma state_window_ok:
  "state_window S E False profile evaluate pay q ns = Inr (l, e) \<Longrightarrow> sorted (map fst ns) \<Longrightarrow>
   scanned bs q \<Longrightarrow> uses_ok (rev (map (own_snode pay) (own_nodes ns)) @ bs) \<Longrightarrow>
   well_stored profile pay ns \<Longrightarrow>
   \<forall>n\<in>set ns. \<forall>v. evaluate (fst n) = Inr v \<longrightarrow> state_value (profile (fst n)) (upto pay (fst n) ns @ bs) = Inr v \<Longrightarrow>
   l = pre @ (t, v) # post \<Longrightarrow> t \<notin> fst ` set post \<Longrightarrow> t < E \<Longrightarrow>
   state_value (profile t) (upto pay t ns @ bs) = Inr v"
proof (induction ns arbitrary: q l bs pre)
  case (Cons n ns)
  show ?case
  proof (cases "fst n < E")
    case False
    with state_window_step [OF Cons.prems(1)] have "\<forall>x\<in>set l. fst x = fst n" by metis
    with Cons.prems(7,9) False show ?thesis by simp
  next
    case True
    with state_window_step [OF Cons.prems(1)] obtain q1 l' where
      q1: "scan_step profile evaluate pay n q = Inr q1"
      "state_window S E False profile evaluate pay q1 ns = Inr (l', e)"
      "l = (case value_to_use q1 of None \<Rightarrow> [] | Some v \<Rightarrow> if S \<le> fst n then [(fst n, v)] else []) @ l'"
      by metis
    have sorted: "sorted (map fst ns)" "\<forall>m\<in>set ns. fst n \<le> fst m" using Cons.prems(2) by auto
    let ?bs = "passed_by pay n @ bs"
    have uses: "uses_ok (rev (map (own_snode pay) (own_nodes ns)) @ ?bs)"
      using Cons.prems(4) unfolding own_all by simp
    have stored: "well_stored profile pay [n]" "well_stored profile pay ns"
      using Cons.prems(5) by (cases n; cases "snd n"; auto simp: well_stored_def)+
    from scan_step_ok [OF Cons.prems(3) uses_ok_append [OF uses] stored(1) q1(1)] obtain w where
      w: "scanned ?bs q1" "value_to_use q1 = Some w"
      "state_value (profile (fst n)) ?bs = Inr w
         \<or> snd n = None \<and> lasting_value bs = None \<and> evaluate (fst n) = Inr w" by blast
    have some: "value_to_use q1 \<noteq> None" using w(2) by simp
    show ?thesis
    proof (cases "S \<le> fst n \<and> pre = []")
      case True
      with q1(3) w(2) Cons.prems(7) have t: "t = fst n" "v = w" "post = l'" by auto
      have late: "\<forall>m\<in>set ns. t < fst m"
      proof
        fix m assume m: "m \<in> set ns"
        have "fst m \<noteq> t"
        proof
          assume "fst m = t"
          with m state_window_complete [OF q1(2) some sorted(1) m] True t(1) Cons.prems(9)
          have "t \<in> fst ` set l'" by simp
          with Cons.prems(8) t(3) show False by simp
        qed
        with sorted(2) m t(1) show "t < fst m" by force
      qed
      have "upto pay t (n # ns) = passed_by pay n"
        using upto_Cons [of n t pay ns] upto_late [OF late, of pay] t(1) by simp
      moreover have "state_value (profile t) ?bs = Inr w"
      proof -
        have "evaluate (fst n) = Inr w \<longrightarrow> state_value (profile (fst n)) (upto pay (fst n) (n # ns) @ bs) = Inr w"
          using Cons.prems(6) by simp
        with w(3) calculation t(1) show ?thesis by auto
      qed
      ultimately show ?thesis using t(2) by simp
    next
      case False
      with q1(3) w(2) Cons.prems(7) obtain pre' where l': "l' = pre' @ (t, v) # post"
        by (cases pre) (auto split: if_splits)
      have n_le: "fst n \<le> fst m" if "m \<in> set ns" for m using sorted(2) that by simp
      have evals: "\<forall>m\<in>set ns. \<forall>v. evaluate (fst m) = Inr v \<longrightarrow>
          state_value (profile (fst m)) (upto pay (fst m) ns @ ?bs) = Inr v"
        using Cons.prems(6) n_le by (simp add: upto_Cons)
      have "t \<in> fst ` set l'" using l' by force
      then have "t \<in> fst ` set ns" using state_window_times [OF q1(2)] by blast
      then have "fst n \<le> t" using n_le by auto
      then have "upto pay t (n # ns) @ bs = upto pay t ns @ ?bs" by (simp add: upto_Cons)
      with Cons.IH [OF q1(2) sorted(1) w(1) uses stored(2) evals l' Cons.prems(8,9)] show ?thesis by simp
    qed
  qed
qed simp

text \<open>C24: The history of a state resource between two times: the last value for each time in it, but the
  end, is the value of the resource at that time, although the loop keeps a stack of usages and
  the evaluation searches back through the depths. RESET nodes hold the value of the profile at
  their time, as \<open>execute_reset_clause\<close> stores it.\<close>

theorem state_history_values:
  assumes "state_ok (last_event_id c) s" and "strategy_of c = NORMAL" and "delivers ns (resHistory s)"
    and "\<forall>a\<in>set (hist_nodes (resHistory s)). \<forall>p. payload s (ident a) = Some p \<and> res_val_type p = RESET \<longrightarrow>
      profile (node_time a) = Inr (val p)"
    and "get_partial_state_history start duration False profile c ns s = Inr (pre @ (t, v) # post, s')"
    and "t \<notin> fst ` set post" and "t < start + duration"
  shows "state_eval_at profile c t s = Inr v"
proof -
  let ?h = "resHistory s"
  have own: "own_nodes ns = map (\<lambda>a. (node_time a, ident a)) (hist_nodes ?h)" and sorted: "sorted (map fst ns)"
    using assms(3) by (simp_all add: delivers_def)
  have snode: "own_snode (payload s) (node_time a, ident a) = the_payload s a" for a
    by (simp add: own_snode_def the_payload_def)
  have nodes: "upto (payload s) u ns = nodes_at NORMAL u s" for u
    by (simp add: upto_def nodes_at_def nodes_upto_def own filter_map o_def rev_map snode)
  have eval: "state_eval_at profile c u s = state_value (profile u) (nodes_at NORMAL u s)" for u
    using state_eval_at_ok [OF assms(1), of u profile] assms(2) by (simp add: evaluable_at_def)
  from assms(5) obtain e where run: "state_window start (start + duration) False profile
      (\<lambda>u. state_eval_at profile c u s) (payload s)
      \<lparr>stack = [], last_set_node = None, value_to_use = None, end_values = []\<rparr> ns = Inr (pre @ (t, v) # post, e)"
    by (auto simp: get_partial_state_history_def map_ok_Inr time_add_def)
  have uses: "uses_ok (rev (map (own_snode (payload s)) (own_nodes ns)) @ [])"
    using assms(1) by (simp add: own o_def snode state_ok_def rev_map)
  have stored: "well_stored profile (payload s) ns"
    using assms(1,4) by (auto simp: well_stored_def own state_ok_def)
  have "state_value (profile t) (upto (payload s) t ns @ []) = Inr v"
    by (rule state_window_ok [OF run sorted scanned_start uses stored _ refl assms(6,7)]) (simp add: nodes eval)
  then show ?thesis by (simp add: nodes eval)
qed

definition used_once :: "nat res_state result" where
  "used_once = bind_result (state_initialize False sample_profile 0 0 1 new_resource)
     (state_execute_use 99 False (\<lambda>v. v < 10) (sample_context 5 9) 7 5 8 2 False)"

definition used_nodes :: "delivered list" where
  "used_nodes = [(0, Some 0), (5, Some 1), (6, None), (8, Some 2), (9, None)]"

lemma used_once_ok: "\<exists>s. used_once = Inr s \<and> state_ok 9 s"
proof -
  obtain s k where s: "state_initialize False sample_profile 0 0 1 new_resource = Inr s" "state_ok 9 s"
    "\<not> Frozen (resHistory s)" and e: "events s = [(k, 0, 0)]" "etime k = 0" "event_id k = 1"
    "snode_of s (k, 0, 0) = (0, \<lparr>val = 0, res_val_type = RESET, usage_depth = 0, an_Other = None\<rparr>)"
    using sample_start by blast
  let ?found = "latestHistNodeAtOrBefore 5 9 (resHistory s)"
  have "usage_in_order 5 2 s" "synchronized (sample_context 5 9) 5 s" using sample_facts [OF e] by simp_all
  with append_use_ok [OF s(2,3), of 2 3 5 8 "depth_found s ?found" 99 7] obtain s' where
    "append_use 99 7 5 8 2 3 (depth_found s ?found) s = Inr s'" "state_ok 9 s'" by auto
  with s state_append_cases [of "sample_context 5 9" s 5] \<open>synchronized (sample_context 5 9) 5 s\<close>
  show ?thesis by (auto simp: used_once_def state_execute_use_def Let_def)
qed

lemma state_history_witness:
  "\<exists>s s'. used_once = Inr s
     \<and> get_partial_state_history 3 10 False sample_profile (sample_context 9 9) used_nodes s =
         Inr ([(5, 7), (6, 7), (8, 0), (9, 0)], s')
     \<and> state_eval_at sample_profile (sample_context 9 9) 6 s = Inr 7"
proof -
  from used_once_ok obtain s where s: "used_once = Inr s" "state_ok 9 s" by blast
  have "map_ok (\<lambda>s. map (\<lambda>a. (node_time a, ident a)) (hist_nodes (resHistory s))) used_once = Inr [(0, 0), (5, 1), (8, 2)]"
    by code_simp
  then have nodes: "map (\<lambda>a. (node_time a, ident a)) (hist_nodes (resHistory s)) = [(0, 0), (5, 1), (8, 2)]"
    by (simp only: s(1) map_ok_simps sum.inject)
  then have "delivers used_nodes (resHistory s)" unfolding delivers_def by (simp add: used_nodes_def)
  moreover have "map_ok (\<lambda>s. map (\<lambda>a. map_option (\<lambda>p. (res_val_type p, val p)) (payload s (ident a))) (hist_nodes (resHistory s))) used_once =
      Inr [Some (RESET, 0), Some (START_USING, 7), Some (END_USING, 99)]" by code_simp
  then have "map (\<lambda>a. map_option (\<lambda>p. (res_val_type p, val p)) (payload s (ident a))) (hist_nodes (resHistory s)) =
      [Some (RESET, 0), Some (START_USING, 7), Some (END_USING, 99)]"
    by (simp only: s(1) map_ok_simps sum.inject)
  then have "\<forall>a\<in>set (hist_nodes (resHistory s)). \<forall>p. payload s (ident a) = Some p \<and> res_val_type p = RESET \<longrightarrow>
      sample_profile (node_time a) = Inr (val p)"
    by (auto simp: sample_profile_def map_eq_Cons_conv)
  moreover have "bind_result used_once (\<lambda>s. map_ok fst
      (get_partial_state_history 3 10 False sample_profile (sample_context 9 9) used_nodes s)) =
      Inr ([(5, 7)] @ (6, 7) # [(8, 0), (9, 0)])" by code_simp
  then have "map_ok fst (get_partial_state_history 3 10 False sample_profile (sample_context 9 9) used_nodes s) =
      Inr ([(5, 7)] @ (6, 7) # [(8, 0), (9, 0)])" by (simp only: s(1) bind_result_Inr)
  then obtain s' where "get_partial_state_history 3 10 False sample_profile (sample_context 9 9) used_nodes s =
      Inr ([(5, 7)] @ (6, 7) # [(8, 0), (9, 0)], s')"
    unfolding map_ok_Inr by (metis prod.collapse)
  ultimately show ?thesis
    using s state_history_values [of "sample_context 9 9" s used_nodes sample_profile 3 10 "[(5, 7)]" 6 7
        "[(8, 0), (9, 0)]" s'] by auto
qed

text \<open>The loop ends at the first node that is not before the end: of several nodes at the end itself
  only the first one counts.\<close>

lemma state_history_stops_early:
  "bind_result used_once (\<lambda>s. map_ok fst (get_partial_state_history 3 5 False sample_profile (sample_context 9 9)
     [(0, Some 0), (5, Some 1), (8, None), (8, Some 2)] s)) = Inr [(5, 7), (8, 7)]"
  "bind_result used_once (state_eval_at sample_profile (sample_context 9 9) 8) = Inr 0"
  by code_simp+

end
