(* ===== verification/TimeProperties.thy ===== *)
theory TimeProperties
  imports TimeBase
begin

text \<open>
  Properties of \<open>TimeBase\<close>: the strings the printers produce are read back by the parser as the
  value that was printed, the calendar is right from 1970 to 2069, the arithmetic keeps times and
  durations apart.
\<close>

section \<open>Digits\<close>

lemma of_digit_char: "n < 10 \<Longrightarrow> (of_char (digit_char n) :: nat) = 48 + n"
  by (simp add: digit_char_def)

lemma of_digit_char_int: "n < 10 \<Longrightarrow> (of_char (digit_char n) :: int) = 48 + int n"
  using of_nat_of_char [where 'a = int, of "digit_char n"] by (simp add: of_digit_char)

lemma digit_char_0: "CHR ''0'' = digit_char 0"
proof -
  have "(of_char (CHR ''0'') :: nat) = of_char (digit_char 0)" by (simp add: of_digit_char)
  then show ?thesis by (simp only: of_char_eq_iff)
qed

lemma digit_char [simp]:
  assumes "n < 10"
  shows "isdigit (digit_char n)" and "digit_val (digit_char n) = int n"
    and "\<not> isspace (digit_char n)" and "digit_char n \<noteq> CHR ''-''" and "digit_char n \<noteq> CHR ''+''"
proof -
  show "isdigit (digit_char n)" "digit_val (digit_char n) = int n" "\<not> isspace (digit_char n)"
    using assms of_digit_char of_digit_char_int by (simp_all add: isdigit_def digit_val_def isspace_def)
  show "digit_char n \<noteq> CHR ''-''" "digit_char n \<noteq> CHR ''+''"
    using of_digit_char [OF assms] by auto
qed

definition two_digits :: "int \<Rightarrow> string" where
  "two_digits x = [digit_char (nat x div 10), digit_char (nat x mod 10)]"

definition three_digits :: "int \<Rightarrow> string" where
  "three_digits x = [digit_char (nat x div 100), digit_char (nat x div 10 mod 10), digit_char (nat x mod 10)]"

lemma show_nat_one: "n < 10 \<Longrightarrow> show_nat n = [digit_char n]"
  by (subst show_nat.simps) simp

lemma show_nat_step: "10 \<le> n \<Longrightarrow> show_nat n = show_nat (n div 10) @ [digit_char (n mod 10)]"
  by (subst show_nat.simps) simp

lemma show_nat_two:
  assumes "10 \<le> n" "n < 100"
  shows "show_nat n = [digit_char (n div 10), digit_char (n mod 10)]"
proof -
  have t: "n div 10 < 10" using assms by linarith
  show ?thesis unfolding show_nat_step [OF assms(1)] show_nat_one [OF t] by (simp only: append.simps)
qed

lemma show_nat_three:
  assumes "100 \<le> n" "n < 1000"
  shows "show_nat n = [digit_char (n div 100), digit_char (n div 10 mod 10), digit_char (n mod 10)]"
proof -
  have t: "10 \<le> n" "10 \<le> n div 10" "n div 10 < 100" using assms by linarith+
  have e: "n div 10 div 10 = n div 100" by (simp add: div_mult2_eq [symmetric])
  show ?thesis
    unfolding show_nat_step [OF t(1)] show_nat_two [OF t(2,3)] e by (simp only: append.simps)
qed

lemma fmt0_two:
  assumes "0 \<le> x" "x < 100"
  shows "fmt0 2 x = two_digits x"
proof (cases "nat x < 10")
  case True
  have r: "replicate (2 - length [c]) d = [d]" for c d :: char by (simp add: numeral_2_eq_2)
  from True have "nat x div 10 = 0" "nat x mod 10 = nat x" by simp_all
  with assms show ?thesis
    unfolding fmt0_def two_digits_def pad_def show_nat_one [OF True] r digit_char_0 by simp
next
  case False
  then have n: "10 \<le> nat x" "nat x < 100" using assms by linarith+
  show ?thesis
    using assms unfolding fmt0_def two_digits_def pad_def show_nat_two [OF n] by simp
qed

lemma fmt0_three:
  assumes "0 \<le> x" "x < 1000"
  shows "fmt0 3 x = three_digits x"
proof -
  consider "nat x < 10" | "10 \<le> nat x" "nat x < 100" | "100 \<le> nat x" "nat x < 1000"
    using assms by linarith
  then show ?thesis
  proof cases
    case 1
    have r: "replicate (3 - length [c]) d = [d, d]" for c d :: char by (simp add: numeral_3_eq_3)
    have e: "nat x div 10 mod 10 = 0" "nat x mod 10 = nat x" "nat x div 100 = 0" using 1 by simp_all
    show ?thesis
      using assms unfolding e fmt0_def three_digits_def pad_def show_nat_one [OF 1] r digit_char_0 by simp
  next
    case 2
    have r: "replicate (3 - length [c, e]) d = [d]" for c d e :: char by (simp add: numeral_3_eq_3)
    have "nat x div 10 < 10" using 2(2) by linarith
    then have e: "nat x div 10 mod 10 = nat x div 10" "nat x div 100 = 0" using 2(2) by simp_all
    show ?thesis
      using assms unfolding e fmt0_def three_digits_def pad_def show_nat_two [OF 2] r digit_char_0 by simp
  next
    case 3
    show ?thesis
      using assms unfolding fmt0_def three_digits_def pad_def show_nat_three [OF 3] by simp
  qed
qed

lemma read_digits_show_nat:
  "read_digits acc (show_nat n @ rest) = read_digits (acc * 10 ^ length (show_nat n) + int n) rest"
proof (induction n arbitrary: acc rest rule: show_nat.induct)
  case (1 n)
  show ?case
  proof (cases "n < 10")
    case True
    then show ?thesis by (simp add: show_nat_one mult.commute)
  next
    case False
    have "int n = int (n div 10) * 10 + int (n mod 10)" by presburger
    with "1.IH" [OF False] False show ?thesis
      by (simp add: show_nat_step [of n] algebra_simps)
  qed
qed

lemma read_digits_zeros: "read_digits 0 (replicate k (CHR ''0'') @ s) = read_digits 0 s"
  by (induction k) (simp_all add: digit_char_0)

lemma shift_digits: "q * 10 + r = x \<Longrightarrow> 100 * acc + x = 10 * (10 * acc + q) + (r::int)"
  by simp

lemma read_digits_two:
  "0 \<le> x \<Longrightarrow> x < 100 \<Longrightarrow> read_digits acc (two_digits x @ rest) = read_digits (100 * acc + x) rest"
proof -
  assume "0 \<le> x" "x < 100"
  then have "int (nat x div 10) * 10 + int (nat x mod 10) = x" "nat x div 10 < 10"
    by (simp_all add: zdiv_int zmod_int nat_less_iff less_mult_imp_div_less)
  note e = this
  have "read_digits acc (two_digits x @ rest) =
      read_digits (10 * (10 * acc + int (nat x div 10)) + int (nat x mod 10)) rest"
    using e(2) by (simp add: two_digits_def)
  also have "10 * (10 * acc + int (nat x div 10)) + int (nat x mod 10) = 100 * acc + x"
    by (rule shift_digits [OF e(1), symmetric])
  finally show ?thesis .
qed

lemma show_nat_hd: "\<exists>d cs. show_nat n = digit_char d # cs \<and> d < 10"
proof (induction n rule: show_nat.induct)
  case (1 n)
  then show ?case by (cases "n < 10") (auto simp: show_nat_one show_nat_step [of n])
qed

lemma fmt0_hd: "0 \<le> x \<Longrightarrow> \<exists>d cs. fmt0 w x = digit_char d # cs \<and> d < 10"
proof -
  assume "0 \<le> x"
  with show_nat_hd [of "nat x"] show ?thesis
    by (cases "w - length (show_nat (nat x))") (auto simp: fmt0_def pad_def digit_char_0)
qed

lemma read_digits_fmt0:
  "0 \<le> x \<Longrightarrow> read_digits 0 (fmt0 w x @ rest) = read_digits x rest"
  by (simp add: fmt0_def pad_def read_digits_zeros read_digits_show_nat)

definition no_digit :: "string \<Rightarrow> bool" where
  "no_digit s = (case s of [] \<Rightarrow> True | c # _ \<Rightarrow> \<not> isdigit c)"

lemma read_digits_stop: "no_digit rest \<Longrightarrow> read_digits acc rest = (acc, rest)"
  by (cases rest) (simp_all add: no_digit_def)

lemma strtol_digits:
  assumes "s = digit_char d # cs" and "d < 10" and "read_digits 0 s = (v, rest)"
    and "0 \<le> v" and "v < 2 ^ 63"
  shows "strtol s = (v, rest)"
  using assms by (simp add: strtol_def saturate_def)

lemma strtol_fmt0:
  assumes "0 \<le> x" and "x < 2 ^ 63" and "no_digit rest"
  shows "strtol (fmt0 w x @ rest) = (x, rest)"
proof -
  from fmt0_hd [OF assms(1), of w] obtain d cs where d: "fmt0 w x = digit_char d # cs" "d < 10" by blast
  show ?thesis
    by (rule strtol_digits [of _ d "cs @ rest"])
      (use d assms read_digits_fmt0 [OF assms(1), of w rest] read_digits_stop [OF assms(3)] in auto)
qed

lemma strtol_year:
  assumes "0 \<le> a" "a < 100" "0 \<le> b" "b < 100" and "no_digit rest"
  shows "strtol (fmt0 2 a @ fmt0 2 b @ rest) = (100 * a + b, rest)"
proof -
  from fmt0_hd [OF assms(1), of 2] obtain d cs where d: "fmt0 2 a = digit_char d # cs" "d < 10" by blast
  have "read_digits 0 (fmt0 2 a @ fmt0 2 b @ rest) = (100 * a + b, rest)"
    using assms by (simp add: read_digits_fmt0 fmt0_two read_digits_two read_digits_stop)
  then show ?thesis
    by (intro strtol_digits [of _ d "cs @ fmt0 2 b @ rest"]) (use d assms in auto)
qed

lemma hundreds: "100 * (x div 100) + 10 * (x div 10 mod 10) + x mod 10 = (x::int)"
proof -
  have "x div 10 div 10 = x div 100" by (simp add: zdiv_zmult2_eq [symmetric])
  moreover have "x div 10 = 10 * (x div 10 div 10) + x div 10 mod 10" by simp
  moreover have "x = 10 * (x div 10) + x mod 10" by simp
  ultimately show ?thesis by linarith
qed

lemma read_millis_digits:
  "a < 10 \<Longrightarrow> b < 10 \<Longrightarrow> c < 10 \<Longrightarrow>
     read_millis 1000 0 [digit_char a, digit_char b, digit_char c] = 100 * int a + 10 * int b + int c"
  by simp

lemma read_millis_three:
  assumes "0 \<le> x" "x < 1000"
  shows "read_millis 1000 0 (fmt0 3 x) = x"
proof -
  have d: "nat x div 100 < 10" "nat x div 10 mod 10 < 10" "nat x mod 10 < 10"
    using assms by (simp_all add: nat_less_iff less_mult_imp_div_less)
  have "100 * int (nat x div 100) + 10 * int (nat x div 10 mod 10) + int (nat x mod 10) = x"
    using hundreds [of x] assms by (simp add: zdiv_int zmod_int)
  then show ?thesis unfolding fmt0_three [OF assms] three_digits_def read_millis_digits [OF d] .
qed

section \<open>Reading the representation\<close>

lemma sdiv_smod_pos:
  "0 \<le> (a::int) \<Longrightarrow> 0 < b \<Longrightarrow> a sdiv b = a div b"
  "0 \<le> (a::int) \<Longrightarrow> 0 < b \<Longrightarrow> a smod b = a mod b"
  "0 \<le> (a::int) \<Longrightarrow> 0 < b \<Longrightarrow> (- a) sdiv b = - (a div b)"
  "0 \<le> (a::int) \<Longrightarrow> 0 < b \<Longrightarrow> (- a) smod b = - (a mod b)"
  by (auto simp: signed_divide_int_def signed_modulo_int_def sgn_if)

lemma duration_parts:
  assumes "0 \<le> a" and "a < TIME_BIT"
  shows "get_seconds a = Inr (a div 1000)" and "get_milliseconds a = Inr (a mod 1000)"
    and "get_seconds (- a) = Inr (- (a div 1000))" and "get_milliseconds (- a) = Inr (- (a mod 1000))"
  using assms has_time_bit_cases(1) [of a] has_time_bit_cases(2) [of "- a"]
  by (cases "a = 0"; simp add: get_seconds_def get_milliseconds_def sdiv_smod_pos)+

lemma time_parts:
  assumes "0 \<le> a" and "a < TIME_BIT"
  shows "get_seconds (TIME_BIT + a) = Inr (a div 1000)"
    and "get_milliseconds (TIME_BIT + a) = Inr (a mod 1000)"
  using assms has_time_bit_cases(3) [of "TIME_BIT + a"]
  by (simp_all add: get_seconds_def get_milliseconds_def sdiv_smod_pos TIME_BIT_def)

lemma to_int32_id: "0 \<le> x \<Longrightarrow> x < 2 ^ 31 \<Longrightarrow> to_int32 x = x"
  by (simp add: to_int32_def signed_take_bit_int_eq_self)

section \<open>Reading back what was printed\<close>

lemma stack_ints_field:
  assumes "0 \<le> x" and "x < 2 ^ 32" and "\<not> isdigit c" and "c \<noteq> CHR ''.''"
  shows "stack_ints (Suc (Suc n)) st (fmt0 w x @ c # cs) = stack_ints (Suc n) (x # st) cs"
proof -
  have "strtol (fmt0 w x @ c # cs) = (x, c # cs)"
    by (rule strtol_fmt0) (use assms in \<open>auto simp: no_digit_def\<close>)
  with assms show ?thesis by (simp add: to_unsigned_def del: stack_ints.simps add: stack_ints.simps(2) [of "Suc n"])
qed

lemma stack_ints_last:
  assumes "0 \<le> x" and "x < 2 ^ 32" and "rest = [] \<or> (\<exists>cs. rest = CHR ''.'' # cs)"
  shows "stack_ints (Suc n) st (fmt0 w x @ rest) = (x # st, rest)"
proof -
  have "isdigit (CHR ''.'') = False" by (simp add: isdigit_def)
  then have "strtol (fmt0 w x @ rest) = (x, rest)"
    using assms by (intro strtol_fmt0) (auto simp: no_digit_def)
  with assms show ?thesis by (auto simp: to_unsigned_def)
qed

lemma separators [simp]:
  "\<not> isdigit (CHR '':'')" "\<not> isdigit (CHR ''T'')" "\<not> isdigit (CHR ''/'')" "\<not> isdigit (CHR ''-'')"
  by (simp_all add: isdigit_def)

definition hms :: "int \<Rightarrow> int \<Rightarrow> int \<Rightarrow> string \<Rightarrow> string" where
  "hms h m s rest = fmt0 2 h @ '':'' @ fmt0 2 m @ '':'' @ fmt0 2 s @ rest"

lemma stack_hms:
  assumes "0 \<le> h" "h < 24" "0 \<le> m" "m < 60" "0 \<le> s" "s < 60"
    and "rest = [] \<or> (\<exists>cs. rest = CHR ''.'' # cs)"
  shows "stack_ints (Suc (Suc (Suc n))) st (hms h m s rest) = (s # m # h # st, rest)"
  using assms stack_ints_field [of h "CHR '':''" "Suc n" st 2 "fmt0 2 m @ '':'' @ fmt0 2 s @ rest"]
    stack_ints_field [of m "CHR '':''" n "h # st" 2 "fmt0 2 s @ rest"]
    stack_ints_last [of s rest n "m # h # st" 2]
  by (simp add: hms_def del: stack_ints.simps)

definition millis_part :: "int \<Rightarrow> string" where
  "millis_part ms = (if ms \<noteq> 0 then ''.'' @ fmt0 3 ms else [])"

lemma read_point:
  assumes "0 \<le> ms" "ms < 1000"
  shows "(case ''.'' @ fmt0 3 ms of
           c # d # cs \<Rightarrow> (if c = CHR ''.'' then read_millis 1000 0 (d # cs) else 0) | _ \<Rightarrow> 0) = ms"
  using read_millis_three [OF assms] unfolding fmt0_three [OF assms] three_digits_def by simp

lemma read_millis_part:
  assumes "0 \<le> ms" "ms < 1000"
  shows "(case millis_part ms of
           c # d # cs \<Rightarrow> (if c = CHR ''.'' then read_millis 1000 0 (d # cs) else 0) | _ \<Rightarrow> 0) = ms"
  using read_point [OF assms] by (simp add: millis_part_def)

definition duration_body :: "int \<Rightarrow> int \<Rightarrow> int \<Rightarrow> int \<Rightarrow> int \<Rightarrow> string" where
  "duration_body days h m s ms =
     (if days \<noteq> 0 then fmt0 3 days @ ''T'' else []) @ hms h m s (millis_part ms)"

lemma stack_duration_body:
  assumes "0 \<le> days" "days < 2 ^ 31" "0 \<le> h" "h < 24" "0 \<le> m" "m < 60" "0 \<le> s" "s < 60"
  shows "stack_ints 5 [] (duration_body days h m s ms) =
    (s # m # h # (if days = 0 then [] else [days]), millis_part ms)"
proof -
  have rest: "millis_part ms = [] \<or> (\<exists>cs. millis_part ms = CHR ''.'' # cs)"
    by (auto simp: millis_part_def)
  have five: "(5::nat) = Suc (Suc (Suc (Suc (Suc 0))))" by simp
  show ?thesis
  proof (cases "days = 0")
    case True
    then show ?thesis
      using stack_hms [OF assms(3-8) rest, of "Suc (Suc 0)" "[]"]
      unfolding five duration_body_def by simp
  next
    case False
    then show ?thesis
      using stack_ints_field [of days "CHR ''T''" "Suc (Suc (Suc 0))" "[]" 3 "hms h m s (millis_part ms)"]
        stack_hms [OF assms(3-8) rest, of "Suc 0" "[days]"] assms(1,2)
      unfolding five duration_body_def by (simp del: stack_ints.simps)
  qed
qed

lemma duration_body_hd:
  assumes "0 \<le> days" "0 \<le> h"
  shows "\<exists>c cs. duration_body days h m s ms = c # cs \<and> c \<noteq> CHR ''-''"
proof -
  from fmt0_hd [OF assms(1), of 3] obtain d cs where d: "fmt0 3 days = digit_char d # cs" "d < 10" by blast
  from fmt0_hd [OF assms(2), of 2] obtain e ds where e: "fmt0 2 h = digit_char e # ds" "e < 10" by blast
  show ?thesis using d e by (auto simp: duration_body_def hms_def)
qed

lemma parse_duration_body:
  assumes "0 \<le> days" "days < 2 ^ 31" "0 \<le> h" "h < 24" "0 \<le> m" "m < 60" "0 \<le> s" "s < 60"
    and "0 \<le> ms" "ms < 1000"
  shows "parse_pseudo_milliseconds (duration_body days h m s ms) =
      1000 * (s + m * 60 + h * 3600 + days * 86400) + ms"
    and "parse_pseudo_milliseconds (CHR ''-'' # duration_body days h m s ms) =
      - (1000 * (s + m * 60 + h * 3600 + days * 86400) + ms)"
proof -
  from duration_body_hd [OF assms(1,3), of m s ms] obtain c cs where
    c: "duration_body days h m s ms = c # cs" "c \<noteq> CHR ''-''" by blast
  note st = stack_duration_body [OF assms(1-8), of ms] and fr = read_millis_part [OF assms(9,10)]
  from st c(1) have st': "stack_ints 5 [] (c # cs) = (s # m # h # (if days = 0 then [] else [days]), millis_part ms)"
    by simp
  show "parse_pseudo_milliseconds (duration_body days h m s ms) =
      1000 * (s + m * 60 + h * 3600 + days * 86400) + ms"
    using c(2) fr unfolding parse_pseudo_milliseconds_def c(1)
    by (simp add: st' Let_def stack_top_def stack_pop_def pseudo_milliseconds_def SECS_PER_DAY_def del: stack_ints.simps)
  show "parse_pseudo_milliseconds (CHR ''-'' # duration_body days h m s ms) =
      - (1000 * (s + m * 60 + h * 3600 + days * 86400) + ms)"
    using fr unfolding parse_pseudo_milliseconds_def
    by (simp add: st Let_def stack_top_def stack_pop_def pseudo_milliseconds_def SECS_PER_DAY_def del: stack_ints.simps)
qed

lemma clock_parts:
  assumes "0 \<le> (t::int)" and "t < 86400"
  shows "0 \<le> t div 60 div 60" "t div 60 div 60 < 24" "0 \<le> t div 60 mod 60" "t div 60 mod 60 < 60"
    "0 \<le> t mod 60" "t mod 60 < 60"
    and "t mod 60 + t div 60 mod 60 * 60 + t div 60 div 60 * 3600 = t"
proof -
  show "0 \<le> t div 60 div 60" "0 \<le> t div 60 mod 60" "t div 60 mod 60 < 60" "0 \<le> t mod 60" "t mod 60 < 60"
    using assms by (simp_all add: pos_imp_zdiv_nonneg_iff)
  have e: "60 * (t div 60) + t mod 60 = t" "60 * (t div 60 div 60) + t div 60 mod 60 = t div 60" by simp_all
  then show "t mod 60 + t div 60 mod 60 * 60 + t div 60 div 60 * 3600 = t" by linarith
  show "t div 60 div 60 < 24" using assms e by linarith
qed

text \<open>The printed form of a duration of at most \<open>2 ^ 31\<close> days.\<close>

definition MAX_DURATION :: int where
  "MAX_DURATION = 2 ^ 31 * 86400000"

definition duration_text :: "int \<Rightarrow> string" where
  "duration_text a =
     (let S = a div 1000; t = S mod 86400 in
      duration_body (S div 86400) (t div 60 div 60) (t div 60 mod 60) (t mod 60) (a mod 1000))"

lemma div_less_of_less_mult: "(a::int) < n * b \<Longrightarrow> 0 < b \<Longrightarrow> a div b < n"
proof -
  assume "a < n * b" "0 < b"
  then have "b * (a div b) < n * b" using pos_mod_sign [of b a] mult_div_mod_eq [of b a] by linarith
  then show ?thesis using \<open>0 < b\<close> by (simp add: mult.commute)
qed

lemma duration_days:
  assumes "0 \<le> a" and "a < MAX_DURATION"
  shows "0 \<le> a div 1000 div 86400" and "a div 1000 div 86400 < 2 ^ 31"
proof -
  have "a div 86400000 < 2 ^ 31"
    using assms(2) unfolding MAX_DURATION_def by (intro div_less_of_less_mult) simp_all
  then show "a div 1000 div 86400 < 2 ^ 31" by (simp add: zdiv_zmult2_eq [symmetric])
  show "0 \<le> a div 1000 div 86400" using assms(1) by (simp add: pos_imp_zdiv_nonneg_iff)
qed

lemma print_duration:
  assumes "get_seconds p = Inr s0" and "get_milliseconds p = Inr m0" and "is_duration p"
    and "(s0 < 0 \<or> s0 = 0 \<and> m0 < 0) = ng \<and> S = (if ng then - s0 else s0) \<and> M = (if ng then - m0 else m0)"
    and "S sdiv SECS_PER_DAY = D" and "to_int32 D = D" and "S - D * SECS_PER_DAY = t" and "to_int32 t = t"
    and "t smod 60 = x" and "t sdiv 60 smod 60 = y" and "t sdiv 60 sdiv 60 smod 24 = z"
  shows "time_as_duration_string p True = Inr ((if ng then ''-'' else []) @ duration_body D z y x M)"
  using assms
  by (auto simp: time_as_duration_string_def Let_def duration_body_def hms_def millis_part_def)

lemma duration_string:
  assumes "0 \<le> a" and "a < MAX_DURATION"
  shows "time_as_duration_string a True =
      Inr (duration_text a)"
    and "a \<noteq> 0 \<Longrightarrow> time_as_duration_string (- a) True =
      Inr (CHR ''-'' # duration_text a)"
proof -
  have bound: "a < TIME_BIT" using assms by (simp add: MAX_DURATION_def TIME_BIT_def)
  note parts = duration_parts [OF assms(1) bound]
  define S where "S = a div 1000"
  have S: "0 \<le> S" using assms by (simp add: S_def pos_imp_zdiv_nonneg_iff)
  have "S div 86400 < 2 ^ 31" unfolding S_def by (rule duration_days(2) [OF assms])
  moreover have days: "S sdiv SECS_PER_DAY = S div 86400" "0 \<le> S div 86400"
    using S by (simp_all add: SECS_PER_DAY_def sdiv_smod_pos pos_imp_zdiv_nonneg_iff)
  ultimately have d32: "to_int32 (S div 86400) = S div 86400" by (intro to_int32_id)
  have r: "S - S div 86400 * SECS_PER_DAY = S mod 86400"
    unfolding SECS_PER_DAY_def by (rule minus_div_mult_eq_mod)
  have rem: "0 \<le> S mod 86400" "S mod 86400 < 86400" by simp_all
  then have r32: "to_int32 (S mod 86400) = S mod 86400" by (intro to_int32_id) auto
  note clock = clock_parts [OF rem]
  have c: "S mod 86400 sdiv 60 sdiv 60 smod 24 = S mod 86400 div 60 div 60"
    "S mod 86400 sdiv 60 smod 60 = S mod 86400 div 60 mod 60" "S mod 86400 smod 60 = S mod 86400 mod 60"
    using sdiv_smod_pos(1) [OF rem(1), of 60] sdiv_smod_pos(2) [OF rem(1), of 60]
      sdiv_smod_pos(1) [of "S mod 86400 div 60" 60] sdiv_smod_pos(2) [of "S mod 86400 div 60" 60]
      sdiv_smod_pos(2) [OF clock(1), of 24] clock(1-6) rem
    by (simp_all only: pos_imp_zdiv_nonneg_iff zero_less_numeral mod_pos_pos_trivial)
  have dur: "is_duration a" "is_duration (- a)" using assms bound by (simp_all add: is_duration_def TIME_BIT_def)
  have "\<not> a mod 1000 < 0" by presburger
  moreover have "\<not> S < 0" using S by simp
  ultimately have pos: "\<not> (S < 0 \<or> S = 0 \<and> a mod 1000 < 0)" by blast
  note fields = days(1) d32 r r32 c(3,2,1)
  have "(S < 0 \<or> S = 0 \<and> a mod 1000 < 0) = False \<and> S = (if False then - S else S)
      \<and> a mod 1000 = (if False then - (a mod 1000) else a mod 1000)"
    unfolding if_False using pos by blast
  from print_duration [OF parts(1,2) [folded S_def] dur(1) this fields]
  show "time_as_duration_string a True = Inr (duration_text a)"
    unfolding duration_text_def Let_def S_def [symmetric] if_False append.simps .
  assume "a \<noteq> 0"
  have "S \<noteq> 0 \<or> a mod 1000 \<noteq> 0"
  proof (rule ccontr)
    assume "\<not> (S \<noteq> 0 \<or> a mod 1000 \<noteq> 0)"
    then have "a = 0" using mult_div_mod_eq [of 1000 a] unfolding S_def by simp
    with \<open>a \<noteq> 0\<close> show False by simp
  qed
  with pos have "- S < 0 \<or> - S = 0 \<and> - (a mod 1000) < 0" by linarith
  then have "(- S < 0 \<or> - S = 0 \<and> - (a mod 1000) < 0) = True \<and> S = (if True then - (- S) else - S)
      \<and> a mod 1000 = (if True then - (- (a mod 1000)) else - (a mod 1000))" by simp
  from print_duration [OF parts(3,4) [folded S_def] dur(2) this fields]
  show "time_as_duration_string (- a) True = Inr (CHR ''-'' # duration_text a)"
    unfolding duration_text_def Let_def S_def [symmetric] if_True append.simps .
qed

lemma recombine: "x = t \<Longrightarrow> t + d * 86400 = S \<Longrightarrow> 1000 * S + m = a \<Longrightarrow> 1000 * (x + d * 86400) + m = (a::int)"
  by simp

lemma parse_duration_parts:
  assumes "0 \<le> a" and "a < MAX_DURATION"
  shows "parse_pseudo_milliseconds (duration_text a) = a"
    and "parse_pseudo_milliseconds (CHR ''-'' # duration_text a) = - a"
proof -
  define S where "S = a div 1000"
  have S: "0 \<le> S div 86400" "S div 86400 < 2 ^ 31" "0 \<le> S mod 86400" "S mod 86400 < 86400"
    using duration_days [OF assms] unfolding S_def by simp_all
  note clock = clock_parts [OF S(3,4)]
  have ms: "0 \<le> a mod 1000" "a mod 1000 < 1000" by simp_all
  note parse = parse_duration_body [OF S(1,2) clock(1-6) ms]
  have "S mod 86400 + S div 86400 * 86400 = S" by (simp only: mod_div_mult_eq)
  moreover have "1000 * S + a mod 1000 = a" unfolding S_def by (simp only: mult_div_mod_eq)
  ultimately have eq: "1000 * (S mod 86400 mod 60 + S mod 86400 div 60 mod 60 * 60
      + S mod 86400 div 60 div 60 * 3600 + S div 86400 * 86400) + a mod 1000 = a"
    using clock(7) by (intro recombine)
  show "parse_pseudo_milliseconds (duration_text a) = a"
    "parse_pseudo_milliseconds (CHR ''-'' # duration_text a) = - a"
    unfolding duration_text_def Let_def S_def [symmetric] parse eq by (rule refl)+
qed

lemma duration_roundtrip_lemma:
  assumes "\<bar>p\<bar> < MAX_DURATION"
  shows "\<exists>s. time_as_duration_string p True = Inr s \<and> CTime_base_of_string s = Inr p"
proof (cases "0 \<le> p")
  case True
  with assms have "p < MAX_DURATION" by simp
  with True show ?thesis
    by (intro exI [of _ "duration_text p"])
      (simp only: CTime_base_of_string_def mk_time_def duration_string(1) parse_duration_parts(1)
        True simp_thms if_True)
next
  case False
  define a where "a = - p"
  have a: "0 \<le> a" "a < MAX_DURATION" "a \<noteq> 0" "p = - a" using False assms by (simp_all add: a_def)
  have "has_time_bit (- a)" using a by (intro has_time_bit_cases(2)) (simp_all add: MAX_DURATION_def TIME_BIT_def)
  then show ?thesis
    unfolding a(4)
    by (intro exI [of _ "CHR ''-'' # duration_text a"])
      (simp only: CTime_base_of_string_def mk_time_def duration_string(2) [OF a(1-3)]
        parse_duration_parts(2) [OF a(1,2)] simp_thms if_True)
qed

section \<open>The calendar\<close>

text \<open>Days from 1970-001 to the first day of a year, and the fields \<open>zone_time\<close> computes from a
  day number of the years 1970 to 2069.\<close>

definition year_start :: "int \<Rightarrow> int" where
  "year_start yr = yr * 365 + (yr + 1) div 4"

lemma leap_year_iff: "0 \<le> yr \<Longrightarrow> yr < 100 \<Longrightarrow> leap_year (yr + 1970) \<longleftrightarrow> (yr + 2) mod 4 = 0"
proof -
  assume yr: "0 \<le> yr" "yr < 100"
  have "(yr + 1970) mod 4 = (yr + 2) mod 4" by presburger
  moreover have only_2000: "(yr + 1970) mod (100 * n) = 0 \<longleftrightarrow> yr = 30" if n: "n dvd 20" for n
  proof
    assume "(yr + 1970) mod (100 * n) = 0"
    then have "100 dvd yr + 1970" by (meson dvd_mult_left mod_eq_0_iff_dvd)
    then obtain k where k: "yr + 1970 = 100 * k" by (auto simp: dvd_def)
    with yr have "k = 20" by linarith
    with k show "yr = 30" by simp
  next
    assume yr30: "yr = 30"
    obtain k where "20 = n * k" using n by (elim dvdE)
    then have "yr + 1970 = 100 * n * k" unfolding mult.assoc by (simp only: yr30)
    then show "(yr + 1970) mod (100 * n) = 0" by (metis mod_mult_self1_is_0)
  qed
  then have "(yr + 1970) mod 100 = 0 \<longleftrightarrow> yr = 30" "(yr + 1970) mod 400 = 0 \<longleftrightarrow> yr = 30"
    using only_2000 [of 1] only_2000 [of 4] by simp_all
  ultimately show ?thesis using yr by (auto simp: leap_year_def sdiv_smod_pos)
qed

lemma year_start_next:
  "0 \<le> yr \<Longrightarrow> yr < 100 \<Longrightarrow>
     year_start (yr + 1) = year_start yr + 365 + (if leap_year (yr + 1970) then 1 else 0)"
proof -
  assume yr: "0 \<le> yr" "yr < 100"
  have "(yr + 2) div 4 = (yr + 1) div 4 + (if (yr + 2) mod 4 = 0 then 1 else 0)" by presburger
  moreover have "yr + 1 + 1 = yr + 2" by simp
  ultimately show ?thesis using leap_year_iff [OF yr] by (simp add: year_start_def)
qed

lemma year_of_day:
  assumes "0 \<le> dys" and "dys < 36525"
  defines "yr0 \<equiv> dys div 365"
  defines "d0 \<equiv> dys - (yr0 * 365 + (yr0 + 1) div 4)"
  defines "yr \<equiv> (if d0 < 0 then yr0 - 1 else yr0)"
  defines "doy \<equiv> (if d0 < 0 then d0 + 365 + (if leap_year (yr + 1970) then 1 else 0) else d0)"
  shows "0 \<le> yr \<and> yr < 100 \<and> 0 \<le> doy \<and> doy < 365 + (if leap_year (yr + 1970) then 1 else 0)
    \<and> dys = year_start yr + doy"
proof -
  have q: "0 \<le> yr0" "yr0 \<le> 100" "0 \<le> dys - yr0 * 365" "dys - yr0 * 365 < 365"
    using assms(1,2) unfolding yr0_def by (simp_all add: pos_imp_zdiv_nonneg_iff minus_div_mult_eq_mod)
  have l: "0 \<le> (yr0 + 1) div 4" "(yr0 + 1) div 4 \<le> 25" using q by simp_all
  show ?thesis
  proof (cases "d0 < 0")
    case False
    have "yr0 < 100"
    proof (rule ccontr)
      assume "\<not> yr0 < 100"
      then have "yr0 = 100" using q by simp
      then show False using False assms(2) unfolding d0_def by simp
    qed
    moreover have "d0 < 365" using q l unfolding d0_def by linarith
    ultimately show ?thesis using False q unfolding yr_def doy_def d0_def year_start_def by simp
  next
    case True
    have "yr0 \<noteq> 0" using True q unfolding d0_def by auto
    then have yr: "0 \<le> yr0 - 1" "yr0 - 1 < 100" using q by simp_all
    have next_year: "year_start yr0 = year_start (yr0 - 1) + 365 + (if leap_year (yr0 - 1 + 1970) then 1 else 0)"
      using year_start_next [OF yr] by simp
    have "- 25 \<le> d0" using q l unfolding d0_def by linarith
    moreover have "dys = year_start yr0 + d0" unfolding d0_def year_start_def by simp
    ultimately show ?thesis using True yr next_year unfolding yr_def doy_def by auto
  qed
qed

text \<open>The fields of a time of these years in UTC.\<close>

definition MAX_TIME :: int where
  "MAX_TIME = 36525 * 86400000"

lemma zone_time_UTC:
  assumes "0 \<le> a" and "a < MAX_TIME"
  defines "D \<equiv> a div 1000 div 86400" and "t \<equiv> a div 1000 mod 86400"
  shows "\<exists>yr doy. zone_time (TIME_BIT + a) TIMEZONE_UTC keep_ms =
      Inr \<lparr>tim_year = yr + 70, tim_yday = doy, tim_hour = t div 60 div 60, tim_min = t div 60 mod 60,
           tim_sec = t mod 60, tim_ms = (if keep_ms then a mod 1000 else 0)\<rparr>
    \<and> 0 \<le> yr \<and> yr < 100 \<and> 0 \<le> doy \<and> doy < 365 + (if leap_year (yr + 1970) then 1 else 0)
    \<and> D = year_start yr + doy"
proof -
  have bound: "a < TIME_BIT" using assms(2) by (simp add: MAX_TIME_def TIME_BIT_def)
  note parts = time_parts [OF assms(1) bound]
  have S: "0 \<le> a div 1000" using assms(1) by (simp add: pos_imp_zdiv_nonneg_iff)
  have "a div 86400000 < 36525"
    using assms(2) unfolding MAX_TIME_def by (rule div_less_of_less_mult) simp
  then have D: "0 \<le> D" "D < 36525"
    using S unfolding D_def by (simp_all add: zdiv_zmult2_eq [symmetric] pos_imp_zdiv_nonneg_iff)
  have sD: "a div 1000 sdiv SECS_PER_DAY = D" using S by (simp add: D_def SECS_PER_DAY_def sdiv_smod_pos)
  have D32: "to_int32 D = D" using D by (intro to_int32_id) simp_all
  have rt: "a div 1000 - D * SECS_PER_DAY = t"
    unfolding D_def t_def SECS_PER_DAY_def by (rule minus_div_mult_eq_mod)
  have t: "0 \<le> t" "t < 86400" by (simp_all add: t_def)
  note clock = clock_parts [OF t]
  have c: "t sdiv 60 sdiv 60 = t div 60 div 60" "t sdiv 60 smod 60 = t div 60 mod 60" "t smod 60 = t mod 60"
    using sdiv_smod_pos(1,2) [OF t(1), of 60] sdiv_smod_pos(1,2) [of "t div 60" 60] t
    by (simp_all add: pos_imp_zdiv_nonneg_iff)
  have q: "0 \<le> D div 365" using D by (simp add: pos_imp_zdiv_nonneg_iff)
  have sq: "D sdiv 365 = D div 365" "(D div 365 + 1) sdiv 4 = (D div 365 + 1) div 4"
    using sdiv_smod_pos(1) [OF D(1), of 365] sdiv_smod_pos(1) [of "D div 365 + 1" 4] q by simp_all
  have z: "zone_offset TIMEZONE_UTC = 0" by (simp add: zone_offset_def signed_divide_int_def)
  define yr doy where "yr = (if D - (D div 365 * 365 + (D div 365 + 1) div 4) < 0 then D div 365 - 1 else D div 365)"
    and "doy = (if D - (D div 365 * 365 + (D div 365 + 1) div 4) < 0
      then D - (D div 365 * 365 + (D div 365 + 1) div 4) + 365 + (if leap_year (yr + 1970) then 1 else 0)
      else D - (D div 365 * 365 + (D div 365 + 1) div 4))"
  have "zone_time (TIME_BIT + a) TIMEZONE_UTC keep_ms =
      Inr \<lparr>tim_year = yr + 70, tim_yday = doy, tim_hour = t div 60 div 60, tim_min = t div 60 mod 60,
           tim_sec = t mod 60, tim_ms = (if keep_ms then a mod 1000 else 0)\<rparr>"
    unfolding zone_time_def parts bind_result_Inr Let_def z add_0_right sD D32 rt c sq yr_def doy_def
    by (rule refl)
  moreover note year_of_day [OF D, folded yr_def, folded doy_def]
  ultimately show ?thesis by blast
qed

lemma yearadj_century:
  assumes "0 \<le> yr" and "yr < 100"
  shows "yearadj (1970 + yr) = 1970 + yr" and "yearadj ((yr + 70) mod 100) = 1970 + yr"
proof -
  show "yearadj (1970 + yr) = 1970 + yr" using assms by (simp add: yearadj_def)
  show "yearadj ((yr + 70) mod 100) = 1970 + yr"
  proof (cases "yr < 30")
    case True
    then have "(yr + 70) mod 100 = yr + 70" using assms by (simp add: mod_pos_pos_trivial)
    then show ?thesis using True assms by (simp add: yearadj_def)
  next
    case False
    then have "(yr + 70) mod 100 = yr - 30" using assms by (intro int_mod_pos_eq [where q = 1]) simp_all
    then show ?thesis using False assms by (simp add: yearadj_def)
  qed
qed

text \<open>The parser on year, day of year and clock.\<close>

definition scet_text :: "bool \<Rightarrow> bool \<Rightarrow> int \<Rightarrow> int \<Rightarrow> int \<Rightarrow> int \<Rightarrow> int \<Rightarrow> int \<Rightarrow> string" where
  "scet_text keep_century use_tee Y doy h m s ms =
     (if keep_century then fmt0 2 (Y div 100) else []) @ fmt0 2 (Y mod 100) @ ''-'' @ fmt0 3 (doy + 1)
     @ (if use_tee then ''T'' else ''/'') @ hms h m s (''.'' @ fmt0 3 ms)"

definition printed_year :: "bool \<Rightarrow> int \<Rightarrow> int" where
  "printed_year keep_century Y = (if keep_century then Y else Y mod 100)"

lemma stack_scet_text:
  assumes "1970 \<le> Y" "Y < 2070" "0 \<le> doy" "doy < 366" "0 \<le> h" "h < 24" "0 \<le> m" "m < 60" "0 \<le> s" "s < 60"
  shows "stack_ints 5 [] (scet_text kc ut Y doy h m s ms) =
      ([s, m, h, doy + 1, printed_year kc Y], ''.'' @ fmt0 3 ms)"
proof -
  define tail where "tail = hms h m s (''.'' @ fmt0 3 ms)"
  define sep where "sep = (if ut then CHR ''T'' else CHR ''/'')"
  define day where "day = fmt0 3 (doy + 1) @ sep # tail"
  have five: "(5::nat) = Suc (Suc (Suc (Suc (Suc 0))))" by simp
  have Y: "0 \<le> Y div 100" "Y div 100 < 100" "0 \<le> Y mod 100" "Y mod 100 < 100"
    using assms(1,2) by (simp_all add: pos_imp_zdiv_nonneg_iff div_less_of_less_mult)
  have whole: "scet_text kc ut Y doy h m s ms =
      (if kc then fmt0 2 (Y div 100) else []) @ fmt0 2 (Y mod 100) @ CHR ''-'' # day"
    unfolding scet_text_def day_def tail_def sep_def by simp
  have nd: "no_digit (CHR ''-'' # day)" by (simp add: no_digit_def)
  have read: "strtol (scet_text kc ut Y doy h m s ms) = (printed_year kc Y, CHR ''-'' # day)"
  proof (cases kc)
    case True
    then show ?thesis
      using strtol_year [OF Y nd] unfolding whole printed_year_def by (simp add: mult_div_mod_eq)
  next
    case False
    then show ?thesis
      using strtol_fmt0 [of "Y mod 100" "CHR ''-'' # day" 2] Y nd unfolding whole printed_year_def by simp
  qed
  have py: "to_unsigned (printed_year kc Y) = printed_year kc Y"
    using Y assms(1,2) by (simp add: to_unsigned_def printed_year_def)
  have first: "stack_ints (Suc (Suc (Suc (Suc (Suc 0))))) [] (scet_text kc ut Y doy h m s ms) =
      stack_ints (Suc (Suc (Suc (Suc 0)))) [printed_year kc Y] day"
    by (subst stack_ints.simps(2)) (simp add: read py del: stack_ints.simps)
  have sep: "\<not> isdigit sep" "sep \<noteq> CHR ''.''" by (simp_all add: sep_def)
  have "stack_ints (Suc (Suc (Suc (Suc 0)))) [printed_year kc Y] day =
      stack_ints (Suc (Suc (Suc 0))) [doy + 1, printed_year kc Y] tail"
    unfolding day_def by (rule stack_ints_field) (use assms sep in auto)
  also have "\<dots> = ([s, m, h, doy + 1, printed_year kc Y], ''.'' @ fmt0 3 ms)"
    unfolding tail_def by (rule stack_hms [OF assms(5-10)]) simp
  finally show ?thesis unfolding five first .
qed

lemma scet_text_hd:
  assumes "0 \<le> Y"
  shows "\<exists>c cs. scet_text kc ut Y doy h m s ms = c # cs \<and> c \<noteq> CHR ''-''"
proof -
  from fmt0_hd [of "Y div 100" 2] assms obtain d cs where
    d: "fmt0 2 (Y div 100) = digit_char d # cs" "d < 10" by (auto simp: pos_imp_zdiv_nonneg_iff)
  from fmt0_hd [of "Y mod 100" 2] obtain e ds where e: "fmt0 2 (Y mod 100) = digit_char e # ds" "e < 10" by auto
  show ?thesis using d e by (auto simp: scet_text_def)
qed

lemma mod_add_cong_year: "(1970 + yr) mod 100 = (yr + 70) mod (100::int)"
proof -
  have "1970 + yr = yr + 70 + 19 * 100" by simp
  then show ?thesis by (simp only: mod_mult_self1)
qed

lemma parse_scet_text:
  assumes "0 \<le> yr" "yr < 100" "0 \<le> doy" "doy < 366" "0 \<le> h" "h < 24" "0 \<le> m" "m < 60" "0 \<le> s" "s < 60"
    and "0 \<le> ms" "ms < 1000"
  shows "parse_pseudo_milliseconds (scet_text kc ut (1970 + yr) doy h m s ms) =
      TIME_BIT + (1000 * (s + m * 60 + h * 3600 + (year_start yr + doy) * 86400) + ms)"
proof -
  from scet_text_hd [of "1970 + yr" kc ut doy h m s ms] assms(1) obtain c cs where
    c: "scet_text kc ut (1970 + yr) doy h m s ms = c # cs" "c \<noteq> CHR ''-''" by auto
  have st: "stack_ints 5 [] (c # cs) = ([s, m, h, doy + 1, printed_year kc (1970 + yr)], ''.'' @ fmt0 3 ms)"
    unfolding c(1) [symmetric] by (rule stack_scet_text) (use assms in auto)
  have ya: "yearadj (printed_year kc (1970 + yr)) = 1970 + yr"
  proof -
    have "(1970 + yr) mod 100 = (yr + 70) mod 100" by (rule mod_add_cong_year)
    with yearadj_century [OF assms(1,2)] show ?thesis by (simp add: printed_year_def)
  qed
  have ld: "(1 + yr) sdiv 4 = (yr + 1) div 4"
    using sdiv_smod_pos(1) [of "yr + 1" 4] assms(1) by (simp add: add.commute)
  show ?thesis
    using c(2) read_point [OF assms(11,12)] unfolding parse_pseudo_milliseconds_def c(1)
    by (simp add: st Let_def stack_top_def stack_pop_def pseudo_milliseconds_def SECS_PER_DAY_def
        ya ld year_start_def del: stack_ints.simps)
qed

lemma scet_roundtrip_lemma:
  assumes "0 \<le> a" and "a < MAX_TIME"
  shows "\<exists>s. time_to_SCET_string (TIME_BIT + a) TIMEZONE_UTC True kc ut = Inr s
           \<and> CTime_base_of_string s = Inr (TIME_BIT + a)"
proof -
  define S t where "S = a div 1000" and "t = S mod 86400"
  from zone_time_UTC [OF assms, of True, folded S_def, folded t_def] obtain yr doy where
    z: "zone_time (TIME_BIT + a) TIMEZONE_UTC True =
      Inr \<lparr>tim_year = yr + 70, tim_yday = doy, tim_hour = t div 60 div 60, tim_min = t div 60 mod 60,
           tim_sec = t mod 60, tim_ms = a mod 1000\<rparr>"
    and yr: "0 \<le> yr" "yr < 100" and doy: "0 \<le> doy" "doy < 365 + (if leap_year (yr + 1970) then 1 else 0)"
    and D: "S div 86400 = year_start yr + doy" by auto
  have t: "0 \<le> t" "t < 86400" by (simp_all add: t_def)
  note clock = clock_parts [OF t]
  have doy': "doy < 366" using doy(2) by (simp split: if_splits)
  have ms: "0 \<le> a mod 1000" "a mod 1000 < 1000" by simp_all
  have nd: "\<not> is_duration (TIME_BIT + a)" using assms(1) by (simp add: is_duration_def TIME_BIT_def)
  have century: "(1900 + (yr + 70)) sdiv 100 = (1970 + yr) div 100" "(yr + 70) smod 100 = (1970 + yr) mod 100"
  proof -
    have "1900 + (yr + 70) = 1970 + yr" by simp
    then show "(1900 + (yr + 70)) sdiv 100 = (1970 + yr) div 100"
      using sdiv_smod_pos(1) [of "1970 + yr" 100] yr(1) by (simp only:)
    show "(yr + 70) smod 100 = (1970 + yr) mod 100"
      unfolding mod_add_cong_year using sdiv_smod_pos(2) [of "yr + 70" 100] yr(1) by simp
  qed
  let ?s = "scet_text kc ut (1970 + yr) doy (t div 60 div 60) (t div 60 mod 60) (t mod 60) (a mod 1000)"
  have print: "time_to_SCET_string (TIME_BIT + a) TIMEZONE_UTC True kc ut = Inr ?s"
    unfolding time_to_SCET_string_def z bind_result_Inr scet_text_def hms_def
    using nd by (simp only: if_False if_True tim.select_convs century append.assoc append.simps simp_thms)
  have "t + (year_start yr + doy) * 86400 = S" unfolding t_def D [symmetric] by (rule mod_div_mult_eq)
  moreover have "1000 * S + a mod 1000 = a" unfolding S_def by (rule mult_div_mod_eq)
  ultimately have sum: "1000 * (t mod 60 + t div 60 mod 60 * 60 + t div 60 div 60 * 3600
      + (year_start yr + doy) * 86400) + a mod 1000 = a"
    by (rule recombine [OF clock(7)])
  have "parse_pseudo_milliseconds ?s = TIME_BIT + a"
    unfolding parse_scet_text [OF yr doy(1) doy' clock(1-6) ms] sum by (rule refl)
  then have "CTime_base_of_string ?s = Inr (TIME_BIT + a)"
    using assms(1) by (simp add: CTime_base_of_string_def mk_time_def TIME_BIT_def)
  with print show ?thesis by blast
qed

lemma month_loop_ok:
  assumes "0 \<le> y" and "y < sum_list ms" and "\<forall>m\<in>set ms. 0 < m"
  shows "\<exists>k d. month_loop ms i y = Inr (i + int k, d) \<and> k < length ms \<and> 0 \<le> d \<and> d < ms ! k
    \<and> y = sum_list (take k ms) + d"
  using assms
proof (induction ms arbitrary: i y)
  case (Cons m ms)
  show ?case
  proof (cases "y \<ge> m")
    case True
    with Cons.prems have "\<exists>k d. month_loop ms (i + 1) (y - m) = Inr (i + 1 + int k, d) \<and> k < length ms
        \<and> 0 \<le> d \<and> d < ms ! k \<and> y - m = sum_list (take k ms) + d"
      by (intro Cons.IH) auto
    then obtain k d where k: "month_loop ms (i + 1) (y - m) = Inr (i + 1 + int k, d)" "k < length ms"
      "0 \<le> d" "d < ms ! k" "y - m = sum_list (take k ms) + d" by blast
    with True show ?thesis by (intro exI [of _ "Suc k"] exI [of _ d]) simp
  next
    case False
    with Cons.prems show ?thesis by (intro exI [of _ 0] exI [of _ y]) simp
  qed
qed simp

lemma daytab_sum: "sum_list (daytab leap) = (if leap then 366 else 365)" "\<forall>m\<in>set (daytab leap). 0 < m"
  by (simp_all add: daytab_def)

lemma month_day_lemma:
  assumes "0 \<le> tim_yday time" and "tim_yday time < (if leap_year (1900 + tim_year time) then 366 else 365)"
  shows "\<exists>k d. compute_month_day time = Inr (int k, d) \<and> k < 12
    \<and> 0 \<le> d \<and> d < daytab (leap_year (1900 + tim_year time)) ! k
    \<and> tim_yday time = sum_list (take k (daytab (leap_year (1900 + tim_year time)))) + d"
proof -
  have "length (daytab leap) = 12" for leap by (simp add: daytab_def)
  then show ?thesis
    using month_loop_ok [of "tim_yday time" "daytab (leap_year (1900 + tim_year time))" 0] assms daytab_sum
    unfolding compute_month_day_def by simp
qed

lemma dayofweek_lemma:
  assumes "0 \<le> yr" and "0 \<le> tim_yday time" and "tim_year time = yr + 70"
  shows "compute_dayofweek time = (4 + (year_start yr + tim_yday time)) mod 7"
proof -
  have n: "(yr + 1) sdiv 4 = (yr + 1) div 4" using assms(1) by (simp add: sdiv_smod_pos)
  have "0 \<le> 4 + yr + (yr + 1) div 4 + tim_yday time"
    using assms by (simp add: pos_imp_zdiv_nonneg_iff)
  then have "compute_dayofweek time = (4 + yr + (yr + 1) div 4 + tim_yday time) mod 7"
    using assms(3) n by (simp add: compute_dayofweek_def Let_def sdiv_smod_pos)
  also have "4 + (year_start yr + tim_yday time) = 4 + yr + (yr + 1) div 4 + tim_yday time + 52 * yr * 7"
    unfolding year_start_def by simp
  then have "(4 + yr + (yr + 1) div 4 + tim_yday time) mod 7 = (4 + (year_start yr + tim_yday time)) mod 7"
    by (simp only: mod_mult_self1)
  finally show ?thesis .
qed

section \<open>Properties\<close>

text \<open>C31: what \<open>time_as_duration_string\<close> prints for a duration of less than \<open>2 ^ 31\<close> days, of
  either sign, with or without days and milliseconds, is read back by the string constructor as the
  same duration.\<close>

theorem duration_roundtrip:
  assumes "\<bar>p\<bar> < MAX_DURATION"
  shows "\<exists>s. time_as_duration_string p True = Inr s \<and> CTime_base_of_string s = Inr p"
  using assms by (rule duration_roundtrip_lemma)

lemma duration_roundtrip_witness:
  "\<exists>s. time_as_duration_string (-90061001) True = Inr s \<and> CTime_base_of_string s = Inr (-90061001)"
  by (rule duration_roundtrip) (simp add: MAX_DURATION_def)

text \<open>C32: what \<open>time_to_SCET_string\<close> prints in UTC for a time from 1970 to 2069, with two or four
  digits for the year and with either separator, is read back by the string constructor as the same
  time.\<close>

theorem SCET_roundtrip:
  assumes "TIME_BIT \<le> p" and "p < TIME_BIT + MAX_TIME"
  shows "\<exists>s. time_to_SCET_string p TIMEZONE_UTC True keep_century use_tee = Inr s
           \<and> CTime_base_of_string s = Inr p"
  using scet_roundtrip_lemma [of "p - TIME_BIT"] assms by simp

lemma SCET_roundtrip_witness:
  "\<exists>s. time_to_SCET_string (TIME_BIT + 951782400123) TIMEZONE_UTC True False True = Inr s
     \<and> CTime_base_of_string s = Inr (TIME_BIT + 951782400123)"
  by (rule SCET_roundtrip) (simp_all add: MAX_TIME_def)

text \<open>C33: the calendar of \<open>zone_time\<close>, \<open>compute_month_day\<close> and \<open>compute_dayofweek\<close> for a time from
  1970 to 2069 in UTC: the year and day of the year are those of the day number, the month and the
  day in the month add up to the day of the year, and the day of the week advances by one each day
  from Thursday, January 1st, 1970.\<close>

theorem calendar_correct:
  assumes "TIME_BIT \<le> p" and "p < TIME_BIT + MAX_TIME"
  shows "\<exists>tm k d. zone_time p TIMEZONE_UTC keep_ms = Inr tm
    \<and> (p - TIME_BIT) div 86400000 = year_start (tim_year tm - 70) + tim_yday tm
    \<and> 0 \<le> tim_yday tm \<and> tim_yday tm < (if leap_year (1900 + tim_year tm) then 366 else 365)
    \<and> compute_month_day tm = Inr (int k, d) \<and> k < 12
    \<and> 0 \<le> d \<and> d < daytab (leap_year (1900 + tim_year tm)) ! k
    \<and> tim_yday tm = sum_list (take k (daytab (leap_year (1900 + tim_year tm)))) + d
    \<and> compute_dayofweek tm = (4 + (p - TIME_BIT) div 86400000) mod 7"
proof -
  define a where "a = p - TIME_BIT"
  have a: "0 \<le> a" "a < MAX_TIME" "p = TIME_BIT + a" using assms by (simp_all add: a_def)
  from zone_time_UTC [OF a(1,2), of keep_ms] obtain yr doy where
    z: "\<exists>tm. zone_time p TIMEZONE_UTC keep_ms = Inr tm \<and> tim_year tm = yr + 70 \<and> tim_yday tm = doy"
    and yr: "0 \<le> yr" "yr < 100" and doy: "0 \<le> doy" "doy < 365 + (if leap_year (yr + 1970) then 1 else 0)"
    and D: "a div 1000 div 86400 = year_start yr + doy" unfolding a(3) by auto
  from z obtain tm where tm: "zone_time p TIMEZONE_UTC keep_ms = Inr tm" "tim_year tm = yr + 70"
    "tim_yday tm = doy" by blast
  have y: "1900 + tim_year tm = yr + 1970" using tm(2) by simp
  have day: "a div 86400000 = year_start yr + doy"
    using D by (simp add: zdiv_zmult2_eq [symmetric])
  have range: "tim_yday tm < (if leap_year (1900 + tim_year tm) then 366 else 365)"
    using doy(2) unfolding y tm(3) by (simp split: if_splits)
  from month_day_lemma [OF _ this] doy(1) tm(3) obtain k d where
    md: "compute_month_day tm = Inr (int k, d)" "k < 12" "0 \<le> d"
      "d < daytab (leap_year (1900 + tim_year tm)) ! k"
      "tim_yday tm = sum_list (take k (daytab (leap_year (1900 + tim_year tm)))) + d" by auto
  have "compute_dayofweek tm = (4 + a div 86400000) mod 7"
    using dayofweek_lemma [OF yr(1) _ tm(2)] doy(1) unfolding day tm(3) by simp
  moreover have "(p - TIME_BIT) div 86400000 = year_start (tim_year tm - 70) + tim_yday tm"
    using day tm(2,3) unfolding a_def by simp
  ultimately show ?thesis
    using tm(1) md range doy(1) tm(3) unfolding a_def by blast
qed

lemma calendar_witness:
  "\<exists>tm. zone_time (TIME_BIT + 951782400123) TIMEZONE_UTC True = Inr tm
     \<and> compute_dayofweek tm = (4 + 951782400123 div 86400000) mod 7"
proof -
  have r: "TIME_BIT \<le> TIME_BIT + 951782400123" "TIME_BIT + 951782400123 < TIME_BIT + MAX_TIME"
    by (simp_all add: MAX_TIME_def)
  from calendar_correct [OF r, of True] show ?thesis by auto
qed

text \<open>times and durations stay apart in additions and subtractions: a time minus a time is the
  duration between them, a duration added to a time is taken off again by subtraction, and a
  subtraction that would lead before 1970 throws.\<close>

theorem time_arithmetic:
  assumes "TIME_BIT \<le> s" and "s < 2 * TIME_BIT" and "TIME_BIT \<le> t" and "t < 2 * TIME_BIT"
    and "0 \<le> d" and "d < TIME_BIT"
  shows "(\<exists>r. time_sub s t = Inr r \<and> is_duration r \<and> time_add t r = s)
    \<and> time_sub (time_add t d) d = Inr t
    \<and> (t - d < TIME_BIT \<longrightarrow> (\<exists>m. time_sub t d = Inl (EvalError m)))
    \<and> (t - d \<ge> TIME_BIT \<longrightarrow> time_sub t d = Inr (t - d))"
  using assms unfolding time_sub_def time_add_def is_duration_def Let_def TIME_BIT_def by auto

lemma time_arithmetic_witness:
  "time_sub (time_add (TIME_BIT + 5) 7) 7 = Inr (TIME_BIT + 5)
     \<and> (\<exists>m. time_sub (TIME_BIT + 5) 7 = Inl (EvalError m))"
  using time_arithmetic [of "TIME_BIT" "TIME_BIT + 5" 7] by (simp add: TIME_BIT_def)

text \<open>an addition has no such check: a negative duration takes a time before 1970, and the sum is
  then a duration for \<open>is_duration\<close>, where the subtraction of the opposite duration throws.\<close>

theorem addition_unchecked:
  assumes "TIME_BIT \<le> t" and "t < 2 * TIME_BIT" and "0 < d" and "d < TIME_BIT" and "t < TIME_BIT + d"
  shows "time_add t (- d) = t - d \<and> is_duration (time_add t (- d))
    \<and> (\<exists>m. time_sub t d = Inl (EvalError m))"
  using assms unfolding time_sub_def time_add_def is_duration_def Let_def by auto

lemma addition_unchecked_witness:
  "is_duration (time_add (TIME_BIT + 5) (-7)) \<and> (\<exists>m. time_sub (TIME_BIT + 5) 7 = Inl (EvalError m))"
proof -
  have "TIME_BIT \<le> TIME_BIT + 5" "TIME_BIT + 5 < 2 * TIME_BIT" "0 < (7::int)" "7 < TIME_BIT"
    "TIME_BIT + 5 < TIME_BIT + 7"
    by (simp_all add: TIME_BIT_def)
  from addition_unchecked [OF this] show ?thesis by blast
qed

text \<open>\<open>windows_overlap\<close> on two non-empty windows, closed on the left and open on the right, holds
  exactly when some instant is within both, and a window within another overlaps it.\<close>

theorem windows_overlap_iff:
  assumes "ts < te" and "s < e"
  shows "(windows_overlap ts te s e \<longleftrightarrow> (\<exists>x. time_within_window x ts te \<and> time_within_window x s e))
    \<and> (window_within_window ts te s e \<longrightarrow> windows_overlap ts te s e)"
proof -
  have "(\<exists>x. time_within_window x ts te \<and> time_within_window x s e) \<longleftrightarrow> ts < e \<and> s < te"
  proof
    assume "ts < e \<and> s < te"
    with assms have "time_within_window (max ts s) ts te \<and> time_within_window (max ts s) s e"
      by (simp add: time_within_window_def)
    then show "\<exists>x. time_within_window x ts te \<and> time_within_window x s e" ..
  qed (auto simp: time_within_window_def)
  with assms show ?thesis
    unfolding windows_overlap_def window_within_window_def by auto
qed

lemma windows_overlap_witness: "windows_overlap 1 4 3 9 \<longleftrightarrow> (\<exists>x. time_within_window x 1 4 \<and> time_within_window x 3 9)"
  using windows_overlap_iff [of 1 4 3 9] by simp

end
