(* ===== verification/ConstraintCheck.thy ===== *)
theory ConstraintCheck
  imports ApPrelude
begin

text \<open>
  Constraint checking (\<open>src/src/apcore/modeler/Constraint.C\<close>): the automata of forbidden
  conditions and maximum durations, the list of violations, and the loop of
  \<open>Constraint::check_constraints\<close> that trails behind the modeling thread. The events of the
  resource histories in the order the iterator over them delivers them are an argument, and so
  are the values of the conditions and messages, which the expression evaluator computes from
  the resources at a time.
\<close>

section \<open>Data\<close>

datatype severity = WARNING | ERROR_SEVERITY | RELEASE

record violation =
  vio_time :: int
  vio_constraint :: nat
  vio_message :: string
  vio_severity :: severity
  vio_ID :: int

datatype constraint_kind = FORBIDDEN_CONDITION | MAXIMUM_DURATION int

text \<open>A constraint as far as the automata consult it: \<open>con_condition\<close> and \<open>con_message\<close> are the
  results of \<open>eval_expression\<close> at a time.\<close>

record constraint_def =
  con_kind :: constraint_kind
  con_severity :: severity
  con_condition :: "int \<Rightarrow> int result"
  con_message :: "int \<Rightarrow> string result"

record automaton =
  condition_has_been_true :: bool
  in_violation :: bool
  since :: int
  id_of_last_violation :: int

record checker =
  automata :: "nat \<Rightarrow> automaton"
  violations :: "violation list"
  currentID :: int
  last_safe_node :: "violation option"

section \<open>Violations\<close>

text \<open>\<open>violations() << new con_violation(..)\<close>: the list is kept in the order of the times.\<close>

definition insert_violation :: "violation \<Rightarrow> violation list \<Rightarrow> violation list" where
  "insert_violation v vs =
     takeWhile (\<lambda>u. vio_time u \<le> vio_time v) vs @ v # dropWhile (\<lambda>u. vio_time u \<le> vio_time v) vs"

definition con_violation :: "int \<Rightarrow> nat \<Rightarrow> string \<Rightarrow> severity \<Rightarrow> int \<Rightarrow> checker \<Rightarrow> violation \<times> checker" where
  "con_violation etime c msg s id_to_use st =
     (let ident = (if id_to_use \<ge> 0 then id_to_use else currentID st);
          v = \<lparr>vio_time = etime, vio_constraint = c, vio_message = msg, vio_severity = s, vio_ID = ident\<rparr>
      in (v, st\<lparr>currentID := (if id_to_use \<ge> 0 then currentID st else currentID st + 1),
                violations := insert_violation v (violations st)\<rparr>))"

definition release_count :: "checker \<Rightarrow> nat" where
  "release_count st = length (filter (\<lambda>v. vio_severity v = RELEASE) (violations st))"

section \<open>The automata\<close>

definition initial_automaton :: "int \<Rightarrow> automaton" where
  "initial_automaton ident =
     \<lparr>condition_has_been_true = False, in_violation = False, since = 2 ^ 62, id_of_last_violation = ident\<rparr>"

definition set_automaton :: "nat \<Rightarrow> automaton \<Rightarrow> checker \<Rightarrow> checker" where
  "set_automaton c a st = st\<lparr>automata := (automata st)(c := a)\<rparr>"

text \<open>\<open>ForbiddenCondition::evaluate\<close>. Errors leave the state as it is at the throw.\<close>

definition forbidden_evaluate :: "int \<Rightarrow> nat \<Rightarrow> constraint_def \<Rightarrow> checker \<Rightarrow> checker \<times> unit result" where
  "forbidden_evaluate now c d st =
     (let a = automata st c in
      case con_condition d now of
        Inl e \<Rightarrow> (st, Inl e)
      | Inr val \<Rightarrow>
          (if \<not> condition_has_been_true a \<and> val \<noteq> 0 then
             let st1 = set_automaton c (a\<lparr>condition_has_been_true := True\<rparr>) st in
             case con_message d now of
               Inl e \<Rightarrow> (st1, Inl e)
             | Inr msg \<Rightarrow>
                 let (v, st2) = con_violation now c msg (con_severity d) (-1) st1 in
                 (set_automaton c ((automata st2 c)\<lparr>id_of_last_violation := vio_ID v\<rparr>) st2, Inr ())
           else if condition_has_been_true a \<and> val = 0 then
             let st1 = set_automaton c (a\<lparr>condition_has_been_true := False\<rparr>) st in
             case con_message d now of
               Inl e \<Rightarrow> (st1, Inl e)
             | Inr msg \<Rightarrow>
                 (snd (con_violation now c msg RELEASE (id_of_last_violation a) st1), Inr ())
           else (st, Inr ())))"

text \<open>\<open>MaximumDuration::evaluate\<close>.\<close>

definition maxdur_evaluate ::
  "int \<Rightarrow> nat \<Rightarrow> constraint_def \<Rightarrow> int \<Rightarrow> checker \<Rightarrow> checker \<times> unit result" where
  "maxdur_evaluate now c d maximum_duration st =
     (let a = automata st c in
      case con_condition d now of
        Inl e \<Rightarrow> (st, Inl e)
      | Inr val \<Rightarrow>
          (if in_violation a then
             (if val = 0 then
                (set_automaton c (a\<lparr>in_violation := False, condition_has_been_true := False\<rparr>) st, Inr ())
              else (st, Inr ()))
           else if \<not> condition_has_been_true a then
             (if val \<noteq> 0 then
                (set_automaton c (a\<lparr>condition_has_been_true := True, since := now\<rparr>) st, Inr ())
              else (st, Inr ()))
           else if now - since a > maximum_duration then
             let st1 = set_automaton c
                   (if val \<noteq> 0 then a\<lparr>in_violation := True\<rparr> else a\<lparr>condition_has_been_true := False\<rparr>) st in
             case con_message d now of
               Inl e \<Rightarrow> (st1, Inl e)
             | Inr msg \<Rightarrow> (snd (con_violation now c msg (con_severity d) (-1) st1), Inr ())
           else
             (if val = 0 then (set_automaton c (a\<lparr>condition_has_been_true := False\<rparr>) st, Inr ())
              else (st, Inr ()))))"

definition evaluate :: "(nat \<Rightarrow> constraint_def) \<Rightarrow> int \<Rightarrow> nat \<Rightarrow> checker \<Rightarrow> checker \<times> unit result" where
  "evaluate defs now c st =
     (case con_kind (defs c) of
        FORBIDDEN_CONDITION \<Rightarrow> forbidden_evaluate now c (defs c) st
      | MAXIMUM_DURATION m \<Rightarrow> maxdur_evaluate now c (defs c) m st)"

section \<open>The loop\<close>

text \<open>\<open>process_one_history_node\<close>: the resources that were updated and the constraints to check,
  the latter in the order of their keys.\<close>

definition add_constraint :: "nat \<Rightarrow> nat list \<Rightarrow> nat list" where
  "add_constraint c to_check = (if c \<in> set to_check then to_check else insort c to_check)"

definition process_one_history_node ::
  "(nat \<Rightarrow> nat list) \<Rightarrow> nat \<Rightarrow> nat list \<times> nat list \<Rightarrow> nat list \<times> nat list" where
  "process_one_history_node any_constraints res changed =
     (let (updated, to_check) = changed in
      if res \<in> set updated then (updated, to_check)
      else (updated @ [res], fold add_constraint (any_constraints res) to_check))"

fun evaluate_all ::
  "(nat \<Rightarrow> constraint_def) \<Rightarrow> int \<Rightarrow> nat list \<Rightarrow> checker \<Rightarrow> checker \<times> unit result" where
  "evaluate_all defs now [] st = (st, Inr ())"
| "evaluate_all defs now (c # cs) st =
     (case evaluate defs now c st of
        (st', Inl e) \<Rightarrow> (st', Inl e)
      | (st', Inr _) \<Rightarrow> evaluate_all defs now cs st')"

definition update_last_safe_node :: "checker \<Rightarrow> checker \<times> unit result" where
  "update_last_safe_node st =
     (case last_safe_node st of
        None \<Rightarrow> (st\<lparr>last_safe_node := last_opt (violations st)\<rparr>, Inr ())
      | Some prev \<Rightarrow>
          (case last_opt (violations st) of
             None \<Rightarrow> (st, Inl NullAccess)
           | Some vio \<Rightarrow>
               (if vio_time vio > vio_time prev then (st\<lparr>last_safe_node := Some vio\<rparr>, Inr ())
                else (st, Inr ()))))"

text \<open>The loop over the history nodes, given as pairs of a time and a resource.\<close>

fun check_loop ::
  "(nat \<Rightarrow> constraint_def) \<Rightarrow> (nat \<Rightarrow> nat list) \<Rightarrow> (int \<times> nat) list \<Rightarrow> int
     \<Rightarrow> nat list \<times> nat list \<Rightarrow> checker \<Rightarrow> checker \<times> unit result" where
  "check_loop defs any_constraints [] curTime changed st = (st, Inr ())"
| "check_loop defs any_constraints ((t, res) # events) curTime changed st =
     (if t = curTime then
        check_loop defs any_constraints events curTime
          (process_one_history_node any_constraints res changed) st
      else if t > curTime then
        (case evaluate_all defs curTime (snd changed) st of
           (st1, Inl e) \<Rightarrow> (st1, Inl e)
         | (st1, Inr _) \<Rightarrow>
             (case update_last_safe_node st1 of
                (st2, Inl e) \<Rightarrow> (st2, Inl e)
              | (st2, Inr _) \<Rightarrow>
                  check_loop defs any_constraints events t
                    (process_one_history_node any_constraints res ([], [])) st2))
      else check_loop defs any_constraints events curTime changed st)"

record thread_flags =
  Done :: bool
  ErrorsFound :: bool

text \<open>\<open>check_constraints\<close>: without a resource subject to constraints it is done at once; the first
  \<open>peek\<close> of the loop dereferences its result.\<close>

definition check_constraints ::
  "(nat \<Rightarrow> constraint_def) \<Rightarrow> (nat \<Rightarrow> nat list) \<Rightarrow> bool \<Rightarrow> (int \<times> nat) list \<Rightarrow> checker
     \<Rightarrow> checker \<times> thread_flags result" where
  "check_constraints defs any_constraints there_is_at_least_one_constraint events st =
     (let st0 = st\<lparr>violations := [], last_safe_node := None\<rparr> in
      if \<not> there_is_at_least_one_constraint then (st0, Inr \<lparr>Done = True, ErrorsFound = False\<rparr>)
      else case events of
        [] \<Rightarrow> (st0, Inl NullAccess)
      | (t, _) # _ \<Rightarrow>
          (case check_loop defs any_constraints events t ([], []) st0 of
             (st', Inl (EvalError m)) \<Rightarrow> (st', Inr \<lparr>Done = False, ErrorsFound = True\<rparr>)
           | (st', Inl e) \<Rightarrow> (st', Inl e)
           | (st', Inr _) \<Rightarrow> (st', Inr \<lparr>Done = True, ErrorsFound = False\<rparr>)))"

end
