(* ===== verification/ConstraintProperties.thy ===== *)
theory ConstraintProperties
  imports ConstraintCheck
begin

text \<open>
  Properties of \<open>ConstraintCheck\<close>: the loop is a schedule that evaluates, at every event time but
  the last, the constraints of the resources that changed then; what the two automata report over
  such a schedule, whatever the other constraints report; and the errors of the checker.
\<close>

section \<open>Effects of an evaluation\<close>

lemma insert_violation_last:
  "\<forall>u\<in>set vs. vio_time u \<le> vio_time v \<Longrightarrow> insert_violation v vs = vs @ [v]"
  by (simp add: insert_violation_def takeWhile_eq_all_conv [THEN iffD2] dropWhile_eq_Nil_conv [THEN iffD2])

lemma set_automaton_sel [simp]:
  "violations (set_automaton c a st) = violations st" "currentID (set_automaton c a st) = currentID st"
  "automata (set_automaton c a st) = (automata st)(c := a)"
  "last_safe_node (set_automaton c a st) = last_safe_node st"
  by (simp_all add: set_automaton_def)

text \<open>The condition and the message can be evaluated at these times, and only a release has the
  severity of a release.\<close>

definition evaluable :: "constraint_def \<Rightarrow> int set \<Rightarrow> bool" where
  "evaluable d ts \<longleftrightarrow> con_severity d \<noteq> RELEASE
     \<and> (\<forall>t\<in>ts. is_ok (con_condition d t) \<and> is_ok (con_message d t))"

definition holds_at :: "constraint_def \<Rightarrow> int \<Rightarrow> bool" where
  "holds_at d t = (case con_condition d t of Inl _ \<Rightarrow> False | Inr v \<Rightarrow> v \<noteq> 0)"

definition violations_of :: "nat \<Rightarrow> checker \<Rightarrow> violation list" where
  "violations_of c st = filter (\<lambda>v. vio_constraint v = c) (violations st)"

section \<open>What the automata report\<close>

text \<open>Forbidden conditions: the changes of the condition, at each of which a violation or its
  release is reported.\<close>

fun edges :: "bool \<Rightarrow> (int \<times> bool) list \<Rightarrow> (int \<times> bool) list" where
  "edges b [] = []"
| "edges b ((t, v) # xs) = (if v \<noteq> b then (t, v) # edges v xs else edges b xs)"

definition condition_history :: "constraint_def \<Rightarrow> int list \<Rightarrow> (int \<times> bool) list" where
  "condition_history d ts = map (\<lambda>t. (t, holds_at d t)) ts"

definition release_matches :: "violation \<Rightarrow> violation \<Rightarrow> bool" where
  "release_matches u v \<longleftrightarrow> (vio_severity v = RELEASE \<longrightarrow> vio_ID v = vio_ID u)"

definition condition_after :: "constraint_def \<Rightarrow> int list \<Rightarrow> bool" where
  "condition_after d ts \<longleftrightarrow> ts \<noteq> [] \<and> holds_at d (last ts)"

definition forbidden_inv :: "constraint_def \<Rightarrow> nat \<Rightarrow> int list \<Rightarrow> checker \<Rightarrow> bool" where
  "forbidden_inv d c ts st \<longleftrightarrow>
     map (\<lambda>v. (vio_time v, vio_severity v \<noteq> RELEASE)) (violations_of c st) = edges False (condition_history d ts)
     \<and> successively release_matches (violations_of c st)
     \<and> condition_has_been_true (automata st c) = condition_after d ts
     \<and> (condition_after d ts \<longrightarrow> violations_of c st \<noteq> []
         \<and> vio_ID (last (violations_of c st)) = id_of_last_violation (automata st c)
         \<and> 0 \<le> id_of_last_violation (automata st c))"

text \<open>Maximum durations: a violation is due at a time when the condition has been true, at all
  evaluations since the start of a run, for more than the maximum, and was not before.\<close>

definition run_start :: "constraint_def \<Rightarrow> int list \<Rightarrow> int \<Rightarrow> bool" where
  "run_start d ts s \<longleftrightarrow> (\<forall>p\<in>set ts. p < s \<longrightarrow> (\<exists>w\<in>set ts. p \<le> w \<and> w < s \<and> \<not> holds_at d w))"

definition overdue :: "constraint_def \<Rightarrow> int \<Rightarrow> int list \<Rightarrow> int \<Rightarrow> bool" where
  "overdue d m ts t \<longleftrightarrow> (\<exists>s\<in>set ts. s < t \<and> run_start d ts s
     \<and> (\<forall>u\<in>set ts. s \<le> u \<and> u < t \<longrightarrow> holds_at d u)
     \<and> t - s > m \<and> (\<forall>u\<in>set ts. s < u \<and> u < t \<longrightarrow> u - s \<le> m))"

definition running_since :: "constraint_def \<Rightarrow> int list \<Rightarrow> int \<Rightarrow> bool" where
  "running_since d ts s \<longleftrightarrow> s \<in> set ts \<and> run_start d ts s \<and> (\<forall>u\<in>set ts. s \<le> u \<longrightarrow> holds_at d u)"

definition maxdur_inv :: "constraint_def \<Rightarrow> int \<Rightarrow> nat \<Rightarrow> int list \<Rightarrow> checker \<Rightarrow> bool" where
  "maxdur_inv d m c ts st \<longleftrightarrow> (let a = automata st c in
     map vio_time (violations_of c st) = filter (overdue d m ts) ts
     \<and> (in_violation a \<longrightarrow> (\<exists>s. running_since d ts s \<and> (\<exists>u\<in>set ts. s < u \<and> u - s > m)))
     \<and> (\<not> in_violation a \<and> condition_has_been_true a \<longrightarrow>
          running_since d ts (since a) \<and> (\<forall>u\<in>set ts. since a < u \<longrightarrow> u - since a \<le> m))
     \<and> (\<not> in_violation a \<and> \<not> condition_has_been_true a \<longrightarrow> \<not> condition_after d ts))"

definition constraint_inv :: "(nat \<Rightarrow> constraint_def) \<Rightarrow> nat \<Rightarrow> int list \<Rightarrow> checker \<Rightarrow> bool" where
  "constraint_inv defs c ts st = (case con_kind (defs c) of
     FORBIDDEN_CONDITION \<Rightarrow> forbidden_inv (defs c) c ts st
   | MAXIMUM_DURATION m \<Rightarrow> maxdur_inv (defs c) m c ts st)"

text \<open>What holds of the list of violations as the loop advances.\<close>

definition checker_inv :: "int \<Rightarrow> checker \<Rightarrow> bool" where
  "checker_inv now st \<longleftrightarrow> 0 \<le> currentID st \<and> (\<forall>v\<in>set (violations st). vio_time v \<le> now)
     \<and> (last_safe_node st \<noteq> None \<longrightarrow> violations st \<noteq> [])"

subsection \<open>Forbidden conditions\<close>

lemma edges_snoc:
  "edges b (xs @ [(t, v)]) = edges b xs @ (if v \<noteq> (if xs = [] then b else snd (last xs)) then [(t, v)] else [])"
  by (induction b xs rule: edges.induct) auto

lemma edges_history_snoc:
  "edges False (condition_history d (ts @ [t])) = edges False (condition_history d ts) @
     (if holds_at d t \<noteq> condition_after d ts then [(t, holds_at d t)] else [])"
  by (auto simp: condition_history_def condition_after_def edges_snoc last_map)

lemma condition_after_snoc [simp]: "condition_after d (ts @ [t]) = holds_at d t"
  by (simp add: condition_after_def)

lemma con_violation_append:
  assumes "checker_inv now st"
  shows "con_violation now c msg s i st =
    (let v = \<lparr>vio_time = now, vio_constraint = c, vio_message = msg, vio_severity = s,
              vio_ID = (if i \<ge> 0 then i else currentID st)\<rparr>
     in (v, st\<lparr>currentID := (if i \<ge> 0 then currentID st else currentID st + 1),
               violations := violations st @ [v]\<rparr>))"
  using assms insert_violation_last [of "violations st"]
  by (simp add: con_violation_def checker_inv_def Let_def)

lemma checker_inv_set_automaton [simp]: "checker_inv now (set_automaton c a st) = checker_inv now st"
  by (simp add: checker_inv_def)

lemma is_okE: assumes "is_ok r" obtains v where "r = Inr v"
  using assms by (auto simp: is_ok_iff)

lemma forbidden_step:
  assumes "evaluable d {now}" "checker_inv now st" "forbidden_inv d c ts st"
  shows "\<exists>st'. forbidden_evaluate now c d st = (st', Inr ()) \<and> forbidden_inv d c (ts @ [now]) st'
    \<and> checker_inv now st'"
proof -
  from assms(1) obtain val msg where v: "con_condition d now = Inr val" "con_message d now = Inr msg"
    and sev: "con_severity d \<noteq> RELEASE"
    by (auto simp: evaluable_def is_ok_iff)
  have h: "holds_at d now = (val \<noteq> 0)" by (simp add: holds_at_def v)
  show ?thesis
    using assms(2,3) sev
    by (auto simp: forbidden_evaluate_def v h Let_def forbidden_inv_def edges_history_snoc con_violation_append
        checker_inv_def violations_of_def successively_append_iff release_matches_def)
qed

subsection \<open>Maximum durations\<close>

lemma overdue_prefix:
  assumes "sorted_wrt (<) (ts @ [now])" and "t \<in> set ts"
  shows "overdue d m (ts @ [now]) t = overdue d m ts t"
proof -
  have "u < now" if "u \<in> set ts" for u using assms(1) that by (simp add: sorted_wrt_append)
  then have "t < now" using assms(2) by blast
  then show ?thesis by (auto simp: overdue_def run_start_def)
qed

lemma run_start_snoc:
  assumes "sorted_wrt (<) (ts @ [now])" and "s \<in> set ts"
  shows "run_start d (ts @ [now]) s = run_start d ts s"
proof -
  have "s < now" using assms by (simp add: sorted_wrt_append)
  then show ?thesis by (auto simp: run_start_def)
qed

lemma running_since_unique:
  assumes "running_since d ts s" "running_since d ts s'" shows "s = s'"
proof -
  have "\<not> s < s'" if "running_since d ts s" "running_since d ts s'" for s s'
    using that unfolding running_since_def run_start_def by (meson less_imp_le)
  then show ?thesis using assms by (meson linorder_neqE)
qed

lemma overdue_now:
  assumes "sorted_wrt (<) (ts @ [now])"
  shows "overdue d m (ts @ [now]) now \<longleftrightarrow>
    (\<exists>s. running_since d ts s \<and> now - s > m \<and> (\<forall>u\<in>set ts. s < u \<longrightarrow> u - s \<le> m))"
proof -
  have l: "u < now" if "u \<in> set ts" for u using assms that by (simp add: sorted_wrt_append)
  have "overdue d m (ts @ [now]) now \<longleftrightarrow> (\<exists>s\<in>set ts. run_start d (ts @ [now]) s
     \<and> (\<forall>u\<in>set ts. s \<le> u \<longrightarrow> holds_at d u) \<and> now - s > m \<and> (\<forall>u\<in>set ts. s < u \<longrightarrow> u - s \<le> m))"
    using l by (auto simp: overdue_def)
  then show ?thesis using run_start_snoc [OF assms] by (auto simp: running_since_def)
qed

lemma filter_overdue_prefix:
  "sorted_wrt (<) (ts @ [now]) \<Longrightarrow> filter (overdue d m (ts @ [now])) ts = filter (overdue d m ts) ts"
  by (rule filter_cong) (simp_all add: overdue_prefix)

lemma running_since_snoc:
  assumes "sorted_wrt (<) (ts @ [now])" "running_since d ts s" "holds_at d now"
  shows "running_since d (ts @ [now]) s"
  using assms(2,3) run_start_snoc [OF assms(1), of s d] by (auto simp: running_since_def)

lemma strict_sorted_last:
  "sorted_wrt (<) ts \<Longrightarrow> p \<in> set (ts::int list) \<Longrightarrow> p \<le> last ts \<and> last ts \<in> set ts \<and> ts \<noteq> []"
  by (cases ts rule: rev_cases) (auto simp: sorted_wrt_append)

lemma running_since_now:
  assumes "sorted_wrt (<) (ts @ [now])" "\<not> condition_after d ts" "holds_at d now"
  shows "running_since d (ts @ [now]) now" "\<forall>u\<in>set (ts @ [now]). \<not> now < u"
proof -
  have l: "u < now" if "u \<in> set ts" for u using assms(1) that by (simp add: sorted_wrt_append)
  have "\<exists>w\<in>set ts. p \<le> w \<and> w < now \<and> \<not> holds_at d w" if "p \<in> set ts" for p
    using strict_sorted_last [OF _ that] assms(1,2) l by (auto simp: condition_after_def sorted_wrt_append)
  then have "run_start d (ts @ [now]) now" by (auto simp: run_start_def)
  then show "running_since d (ts @ [now]) now" using assms(3) by (auto simp: running_since_def dest: l)
  show "\<forall>u\<in>set (ts @ [now]). \<not> now < u" by (auto dest: l)
qed

lemma not_running_after:
  "\<not> condition_after d ts \<Longrightarrow> sorted_wrt (<) ts \<Longrightarrow> \<not> running_since d ts s"
  using strict_sorted_last [of ts s] by (auto simp: running_since_def condition_after_def)

lemma maxdur_step:
  assumes "evaluable d {now}" "checker_inv now st" "maxdur_inv d m c ts st" "sorted_wrt (<) (ts @ [now])"
  shows "\<exists>st'. maxdur_evaluate now c d m st = (st', Inr ()) \<and> maxdur_inv d m c (ts @ [now]) st'
    \<and> checker_inv now st'"
proof -
  note srt = assms(4)
  from assms(1) obtain val msg where v: "con_condition d now = Inr val" "con_message d now = Inr msg"
    by (auto simp: evaluable_def is_ok_iff)
  have h: "holds_at d now = (val \<noteq> 0)" by (simp add: holds_at_def v)
  have ts: "sorted_wrt (<) ts" using srt by (simp add: sorted_wrt_append)
  define a where "a = automata st c"
  define st' where "st' = fst (maxdur_evaluate now c d m st)"
  have vio: "map vio_time (violations_of c st) = filter (overdue d m ts) ts"
    using assms(3) by (simp add: maxdur_inv_def Let_def)
  consider (inv) "in_violation a" | (idle) "\<not> in_violation a" "\<not> condition_has_been_true a"
    | (run) "\<not> in_violation a" "condition_has_been_true a" by blast
  then show ?thesis
  proof cases
    case inv
    obtain s u where s: "running_since d ts s" "u \<in> set ts" "s < u" "u - s > m"
      using assms(3) inv unfolding maxdur_inv_def Let_def a_def by blast
    have no: "\<not> overdue d m (ts @ [now]) now"
      unfolding overdue_now [OF srt] using running_since_unique [OF s(1)] s by (metis not_le)
    have "\<exists>s. running_since d (ts @ [now]) s \<and> (\<exists>u\<in>set (ts @ [now]). s < u \<and> u - s > m)" if "val \<noteq> 0"
      using running_since_snoc [OF srt s(1)] h that s(2-4) by auto
    then show ?thesis
      using inv vio no assms(2,3)
      by (auto simp: maxdur_evaluate_def v h Let_def maxdur_inv_def a_def filter_overdue_prefix [OF srt] violations_of_def)
  next
    case idle
    have "\<not> condition_after d ts" using assms(3) idle by (simp add: maxdur_inv_def Let_def a_def)
    note no = not_running_after [OF this ts] and now = running_since_now [OF srt this]
    have "\<not> overdue d m (ts @ [now]) now" unfolding overdue_now [OF srt] using no by blast
    then show ?thesis
      using idle vio now h assms(2,3)
      by (auto simp: maxdur_evaluate_def v h Let_def maxdur_inv_def a_def filter_overdue_prefix [OF srt] violations_of_def)
  next
    case run
    have s: "running_since d ts (since a)" "\<forall>u\<in>set ts. since a < u \<longrightarrow> u - since a \<le> m"
      using assms(3) run by (auto simp: maxdur_inv_def Let_def a_def)
    have od: "overdue d m (ts @ [now]) now = (now - since a > m)"
      unfolding overdue_now [OF srt] using s running_since_unique [OF s(1)] by blast
    have "since a < now" using s(1) srt by (simp add: running_since_def sorted_wrt_append)
    then show ?thesis
      using run vio od s(2) running_since_snoc [OF srt s(1)] h assms(2,3)
      by (auto simp: maxdur_evaluate_def v h Let_def maxdur_inv_def a_def filter_overdue_prefix [OF srt]
          violations_of_def con_violation_append checker_inv_def)
  qed
qed

section \<open>All constraints\<close>

lemma filter_insert_violation:
  "vio_constraint v \<noteq> c \<Longrightarrow> filter (\<lambda>v. vio_constraint v = c) (insert_violation v vs) = filter (\<lambda>v. vio_constraint v = c) vs"
  unfolding insert_violation_def filter_append filter.simps
  by (simp flip: filter_append)

lemma evaluate_frame:
  assumes "c \<noteq> c'" "evaluate defs now c' st = (st', r)"
  shows "violations_of c st' = violations_of c st" "automata st' c = automata st c"
  using assms
  by (auto simp: evaluate_def forbidden_evaluate_def maxdur_evaluate_def con_violation_def Let_def
      violations_of_def filter_insert_violation split: constraint_kind.splits sum.splits if_splits)

lemma constraint_inv_cong:
  "violations_of c st' = violations_of c st \<Longrightarrow> automata st' c = automata st c \<Longrightarrow>
   constraint_inv defs c ts st' = constraint_inv defs c ts st"
  by (simp add: constraint_inv_def forbidden_inv_def maxdur_inv_def split: constraint_kind.splits)

lemma evaluate_step:
  assumes "\<And>c. evaluable (defs c) {now}" "checker_inv now st" "\<And>c. constraint_inv defs c (hist c) st"
    and "sorted_wrt (<) (hist c' @ [now])"
  shows "\<exists>st'. evaluate defs now c' st = (st', Inr ()) \<and> checker_inv now st'
    \<and> (\<forall>c. constraint_inv defs c (if c = c' then hist c @ [now] else hist c) st')"
proof -
  have "\<exists>st'. evaluate defs now c' st = (st', Inr ()) \<and> constraint_inv defs c' (hist c' @ [now]) st'
    \<and> checker_inv now st'"
    using forbidden_step [OF assms(1,2)] maxdur_step [OF assms(1,2) _ assms(4)] assms(3) [of c']
    by (auto simp: constraint_inv_def evaluate_def split: constraint_kind.splits)
  then obtain st' where st': "evaluate defs now c' st = (st', Inr ())"
    "constraint_inv defs c' (hist c' @ [now]) st'" "checker_inv now st'" by blast
  have "constraint_inv defs c (hist c) st'" if "c \<noteq> c'" for c
    using constraint_inv_cong [OF evaluate_frame [OF that st'(1)]] assms(3) by simp
  with st' show ?thesis by auto
qed

lemma evaluate_all_step:
  assumes "\<And>c. evaluable (defs c) {now}" "\<And>c. sorted_wrt (<) (hist c @ [now])"
  shows "checker_inv now st \<Longrightarrow> (\<And>c. constraint_inv defs c (hist' c) st) \<Longrightarrow> distinct cs \<Longrightarrow>
    (\<And>c. c \<in> set cs \<Longrightarrow> hist' c = hist c) \<Longrightarrow>
    \<exists>st'. evaluate_all defs now cs st = (st', Inr ()) \<and> checker_inv now st'
      \<and> (\<forall>c. constraint_inv defs c (if c \<in> set cs then hist c @ [now] else hist' c) st')"
proof (induction cs arbitrary: st hist')
  case Nil
  then show ?case by simp
next
  case (Cons c cs)
  have "sorted_wrt (<) (hist' c @ [now])" using assms(2) Cons.prems(4) by simp
  from evaluate_step [OF assms(1) Cons.prems(1,2) this]
  obtain st1 where st1: "evaluate defs now c st = (st1, Inr ())" "checker_inv now st1"
    "\<And>d. constraint_inv defs d (if d = c then hist' d @ [now] else hist' d) st1" by blast
  have "\<exists>st'. evaluate_all defs now cs st1 = (st', Inr ()) \<and> checker_inv now st'
      \<and> (\<forall>d. constraint_inv defs d (if d \<in> set cs then hist d @ [now] else
          (if d = c then hist' d @ [now] else hist' d)) st')"
    using Cons.prems(3,4) by (intro Cons.IH st1) auto
  moreover have "(if d \<in> set cs then hist d @ [now] else (if d = c then hist' d @ [now] else hist' d)) =
      (if d \<in> set (c # cs) then hist d @ [now] else hist' d)" for d
    using Cons.prems(4) by simp
  ultimately show ?case by (simp only: evaluate_all.simps st1(1) prod.case sum.case)
qed

lemma update_last_safe_node_ok:
  assumes "checker_inv now st"
  obtains st' where "update_last_safe_node st = (st', Inr ())" "checker_inv now st'"
    "\<And>c. violations_of c st' = violations_of c st" "automata st' = automata st"
proof (cases "last_safe_node st")
  case None
  show ?thesis
    by (rule that [of "st\<lparr>last_safe_node := last_opt (violations st)\<rparr>"])
      (use assms None in \<open>auto simp: update_last_safe_node_def checker_inv_def violations_of_def last_opt_eq\<close>)
next
  case (Some prev)
  then have ne: "violations st \<noteq> []" using assms by (simp add: checker_inv_def)
  show ?thesis
    by (rule that [of "if vio_time (last (violations st)) > vio_time prev
          then st\<lparr>last_safe_node := Some (last (violations st))\<rparr> else st"])
      (use assms Some ne in \<open>auto simp: update_last_safe_node_def checker_inv_def violations_of_def last_opt_eq\<close>)
qed

section \<open>The loop as a schedule\<close>

text \<open>The evaluations of a sequence of events: at each event time but the last, the constraints of
  the resources that changed at that time.\<close>

definition constraints_at :: "(nat \<Rightarrow> nat list) \<Rightarrow> (int \<times> nat) list \<Rightarrow> int \<Rightarrow> nat list" where
  "constraints_at any_constraints events t =
     sorted_list_of_set (\<Union>(u, res)\<in>set events. if u = t then set (any_constraints res) else {})"

definition schedule :: "(nat \<Rightarrow> nat list) \<Rightarrow> (int \<times> nat) list \<Rightarrow> (int \<times> nat list) list" where
  "schedule any_constraints events =
     map (\<lambda>t. (t, constraints_at any_constraints events t)) (butlast (remdups_adj (map fst events)))"

definition evaluation_times :: "(nat \<Rightarrow> nat list) \<Rightarrow> (int \<times> nat) list \<Rightarrow> nat \<Rightarrow> int list" where
  "evaluation_times any_constraints events c =
     map fst (filter (\<lambda>(t, cs). c \<in> set cs) (schedule any_constraints events))"

fun run_schedule :: "(nat \<Rightarrow> constraint_def) \<Rightarrow> (int \<times> nat list) list \<Rightarrow> checker \<Rightarrow> checker \<times> unit result" where
  "run_schedule defs [] st = (st, Inr ())"
| "run_schedule defs ((t, cs) # rest) st =
     (case evaluate_all defs t cs st of
        (st1, Inl e) \<Rightarrow> (st1, Inl e)
      | (st1, Inr _) \<Rightarrow>
          (case update_last_safe_node st1 of
             (st2, Inl e) \<Rightarrow> (st2, Inl e)
           | (st2, Inr _) \<Rightarrow> run_schedule defs rest st2))"

lemma checker_inv_mono: "checker_inv t st \<Longrightarrow> t \<le> u \<Longrightarrow> checker_inv u st"
  by (auto simp: checker_inv_def)

lemma run_schedule_ok:
  assumes "\<And>c. \<forall>(t, cs)\<in>set sched. evaluable (defs c) {t}"
  shows "sorted_wrt (<) (map fst sched) \<Longrightarrow> \<forall>(t, cs)\<in>set sched. distinct cs \<Longrightarrow> checker_inv now st \<Longrightarrow>
    \<forall>(t, cs)\<in>set sched. now < t \<Longrightarrow> (\<And>c. constraint_inv defs c (hist c) st) \<Longrightarrow>
    (\<And>c. sorted_wrt (<) (hist c) \<and> (\<forall>u\<in>set (hist c). u \<le> now)) \<Longrightarrow>
    \<exists>st'. run_schedule defs sched st = (st', Inr ())
      \<and> (\<forall>c. constraint_inv defs c (hist c @ map fst (filter (\<lambda>(t, cs). c \<in> set cs) sched)) st')"
  using assms
proof (induction sched arbitrary: st now hist)
  case Nil
  then show ?case by auto
next
  case (Cons tcs sched)
  obtain t cs where tcs: "tcs = (t, cs)" by (cases tcs)
  have t: "now < t" "distinct cs" "\<And>c. evaluable (defs c) {t}"
    using Cons.prems(2,4,7) by (auto simp: tcs)
  have srt: "sorted_wrt (<) (hist c @ [t])" for c
    using Cons.prems(6) [of c] t(1) by (force simp: sorted_wrt_append)
  have "checker_inv t st" using checker_inv_mono [OF Cons.prems(3)] t(1) by simp
  from evaluate_all_step [OF t(3) srt this Cons.prems(5) t(2) refl]
  obtain st1 where st1: "evaluate_all defs t cs st = (st1, Inr ())" "checker_inv t st1"
    "\<And>c. constraint_inv defs c (if c \<in> set cs then hist c @ [t] else hist c) st1" by blast
  from update_last_safe_node_ok [OF st1(2)]
  obtain st2 where st2: "update_last_safe_node st1 = (st2, Inr ())" "checker_inv t st2"
    "\<And>c. violations_of c st2 = violations_of c st1" "automata st2 = automata st1" by metis
  let ?h = "\<lambda>c. if c \<in> set cs then hist c @ [t] else hist c"
  have "\<exists>st'. run_schedule defs sched st2 = (st', Inr ())
      \<and> (\<forall>c. constraint_inv defs c (?h c @ map fst (filter (\<lambda>(t, cs). c \<in> set cs) sched)) st')"
  proof (rule Cons.IH)
    show "constraint_inv defs c (?h c) st2" for c
      using st1(3) [of c] constraint_inv_cong [of c st2 st1 defs "?h c"] st2(3,4) by simp
    show "sorted_wrt (<) (?h c) \<and> (\<forall>u\<in>set (?h c). u \<le> t)" for c
      using srt [of c] by (auto simp: sorted_wrt_append)
    show "sorted_wrt (<) (map fst sched)" "\<forall>(t, cs)\<in>set sched. distinct cs" "\<forall>(t', cs)\<in>set sched. t < t'"
      "\<And>c. \<forall>(t, cs)\<in>set sched. evaluable (defs c) {t}"
      using Cons.prems(1,2,7) by (auto simp: tcs)
  qed (rule st2(2))
  moreover have "?h c @ map fst (filter (\<lambda>(t, cs). c \<in> set cs) sched) =
      hist c @ map fst (filter (\<lambda>(t, cs). c \<in> set cs) (tcs # sched))" for c
    by (simp add: tcs)
  ultimately show ?case
    unfolding tcs run_schedule.simps st1(1) st2(1) prod.case sum.case by (simp only:)
qed

lemma fold_process:
  assumes "sorted cs" "distinct cs" "set cs = (\<Union>r\<in>set us. set (any_constraints r))"
  shows "\<exists>us' cs'. fold (process_one_history_node any_constraints) pend (us, cs) = (us', cs')
    \<and> sorted cs' \<and> distinct cs' \<and> set cs' = (\<Union>r\<in>set us \<union> set pend. set (any_constraints r))"
  using assms
proof (induction pend arbitrary: us cs)
  case Nil
  then show ?case by simp
next
  case (Cons r pend)
  have add: "sorted (fold add_constraint ds xs) \<and> distinct (fold add_constraint ds xs)
    \<and> set (fold add_constraint ds xs) = set xs \<union> set ds" if "sorted xs" "distinct xs" for ds xs
    using that by (induction ds arbitrary: xs) (auto simp: add_constraint_def sorted_insort distinct_insort set_insort_key)
  show ?case
  proof (cases "r \<in> set us")
    case True
    then show ?thesis using Cons.IH [OF Cons.prems] Cons.prems(3)
      by (simp add: process_one_history_node_def insert_absorb)
  next
    case False
    note a = add [OF Cons.prems(1,2), of "any_constraints r"]
    have "set (fold add_constraint (any_constraints r) cs) = (\<Union>r\<in>set (us @ [r]). set (any_constraints r))"
      using a Cons.prems(3) by auto
    from Cons.IH [OF _ _ this] show ?thesis using a False
      by (simp add: process_one_history_node_def Un_assoc)
  qed
qed

lemma fold_process_constraints:
  "snd (fold (process_one_history_node any_constraints) pend ([], [])) =
     sorted_list_of_set (\<Union>r\<in>set pend. set (any_constraints r))"
proof -
  obtain us' cs' where r: "fold (process_one_history_node any_constraints) pend ([], []) = (us', cs')"
    "sorted cs'" "distinct cs'" "set cs' = (\<Union>r\<in>set pend. set (any_constraints r))"
    using fold_process [of "[]" any_constraints "[]" pend] by auto
  have "sorted_list_of_set (set cs') = cs'" by (rule sorted_list_of_set.idem_if_sorted_distinct [OF r(2,3)])
  then show ?thesis unfolding r(1,4) by simp
qed

lemma schedule_step:
  assumes "pend \<noteq> []" "sorted (t # map fst events)" "cur < t"
  shows "schedule any_constraints (map (Pair cur) pend @ (t, r) # events) =
    (cur, sorted_list_of_set (\<Union>r\<in>set pend. set (any_constraints r)))
      # schedule any_constraints ((t, r) # events)"
proof -
  let ?ev = "(t, r) # events" and ?all = "map (Pair cur) pend @ (t, r) # events"
  have later: "\<forall>(u, x)\<in>set ?ev. t \<le> u" using assms(2) by auto
  have adj: "remdups_adj (map fst ?all) = cur # remdups_adj (map fst ?ev)"
    using assms(1,3) by (induction pend rule: induct_list012) auto
  have now: "constraints_at any_constraints ?all cur = sorted_list_of_set (\<Union>r\<in>set pend. set (any_constraints r))"
  proof -
    have "(\<Union>(u, res)\<in>set ?all. if u = cur then set (any_constraints res) else {}) =
        (\<Union>r\<in>set pend. set (any_constraints r))"
      using later assms(3) by (fastforce split: if_splits)
    then show ?thesis by (simp only: constraints_at_def)
  qed
  have rest: "constraints_at any_constraints ?all u = constraints_at any_constraints ?ev u"
    if "u \<in> set (butlast (remdups_adj (map fst ?ev)))" for u
  proof -
    have "u \<in> fst ` set ?ev" using in_set_butlastD [OF that] by simp
    then have "cur < u" using later assms(3) by auto
    then have "(\<Union>(u', res)\<in>set ?all. if u' = u then set (any_constraints res) else {}) =
        (\<Union>(u', res)\<in>set ?ev. if u' = u then set (any_constraints res) else {})"
      by (fastforce split: if_splits)
    then show ?thesis by (simp only: constraints_at_def)
  qed
  have "remdups_adj (map fst ?ev) \<noteq> []" by simp
  then show ?thesis
    unfolding schedule_def adj using now rest by (simp cong: map_cong)
qed

lemma check_loop_pending:
  "pend \<noteq> [] \<or> (events \<noteq> [] \<and> fst (hd events) = cur) \<Longrightarrow> sorted (cur # map fst events) \<Longrightarrow>
   check_loop defs any_constraints events cur (fold (process_one_history_node any_constraints) pend ([], [])) st =
   run_schedule defs (schedule any_constraints (map (Pair cur) pend @ events)) st"
proof (induction events arbitrary: cur pend st)
  case Nil
  have "map (fst \<circ> Pair cur) pend = replicate (length pend) cur" by (simp add: comp_def map_replicate_const)
  then show ?case using Nil by (simp add: schedule_def remdups_adj_replicate)
next
  case (Cons ev events)
  obtain t r where ev: "ev = (t, r)" by (cases ev)
  show ?case
  proof (cases "t = cur")
    case True
    have "check_loop defs any_constraints events cur
        (fold (process_one_history_node any_constraints) (pend @ [r]) ([], [])) st =
      run_schedule defs (schedule any_constraints (map (Pair cur) (pend @ [r]) @ events)) st"
      using Cons.prems by (intro Cons.IH) (auto simp: ev True)
    then show ?thesis by (simp add: ev True)
  next
    case False
    then have t: "cur < t" "pend \<noteq> []" "sorted (t # map fst events)"
      using Cons.prems by (auto simp: ev)
    have "check_loop defs any_constraints events t
        (fold (process_one_history_node any_constraints) [r] ([], [])) st' =
      run_schedule defs (schedule any_constraints (map (Pair t) [r] @ events)) st'" for st'
      using t by (intro Cons.IH) auto
    then have ih: "check_loop defs any_constraints events t (process_one_history_node any_constraints r ([], [])) st' =
      run_schedule defs (schedule any_constraints ((t, r) # events)) st'" for st' by simp
    show ?thesis
      unfolding ev schedule_step [OF t(2,3,1)] check_loop.simps run_schedule.simps fold_process_constraints ih
      using t(1) by (simp split: prod.splits sum.splits)
  qed
qed

lemma distinct_remdups_adj_sorted: "sorted xs \<Longrightarrow> distinct (remdups_adj (xs :: int list))"
  by (induction xs rule: remdups_adj.induct) auto

lemma strict_remdups_adj: "sorted xs \<Longrightarrow> sorted_wrt (<) (remdups_adj (xs :: int list))"
  by (simp add: strict_sorted_iff sorted_remdups_adj distinct_remdups_adj_sorted)

section \<open>What a check reports\<close>

text \<open>A check starts with all automata initialized, on events in the order of time at which
  everything can be evaluated.\<close>

definition start_of_check :: "(nat \<Rightarrow> constraint_def) \<Rightarrow> (int \<times> nat) list \<Rightarrow> checker \<Rightarrow> bool" where
  "start_of_check defs events st \<longleftrightarrow> 0 \<le> currentID st
     \<and> (\<forall>c. \<not> condition_has_been_true (automata st c) \<and> \<not> in_violation (automata st c))
     \<and> sorted (map fst events) \<and> events \<noteq> [] \<and> (\<forall>c. evaluable (defs c) (fst ` set events))"

lemma schedule_times:
  assumes "sorted (map fst events)"
  shows "sorted_wrt (<) (map fst (schedule any_constraints events))"
    and "\<forall>(t, cs)\<in>set (schedule any_constraints events). distinct cs \<and> t \<in> fst ` set events"
    and "\<forall>(t, cs)\<in>set (schedule any_constraints events). t < fst (last events)"
proof -
  let ?ts = "remdups_adj (map fst events)"
  have f: "map fst (schedule any_constraints events) = butlast ?ts" by (simp add: schedule_def comp_def)
  have s: "sorted_wrt (<) ?ts" by (rule strict_remdups_adj [OF assms])
  then show "sorted_wrt (<) (map fst (schedule any_constraints events))"
    unfolding f by (metis append_butlast_last_id butlast.simps(1) sorted_wrt_append)
  show "\<forall>(t, cs)\<in>set (schedule any_constraints events). distinct cs \<and> t \<in> fst ` set events"
    by (auto simp: schedule_def constraints_at_def dest!: in_set_butlastD)
  have "t < last ?ts" if "t \<in> set (butlast ?ts)" for t
    using s that by (cases ?ts rule: rev_cases) (auto simp: sorted_wrt_append)
  moreover have "last ?ts = fst (last events)" if "events \<noteq> []" using that by (simp add: last_map last_remdups_adj)
  moreover have "schedule any_constraints [] = []" by (simp add: schedule_def)
  ultimately show "\<forall>(t, cs)\<in>set (schedule any_constraints events). t < fst (last events)"
    by (cases "events = []") (auto simp: schedule_def)
qed

lemma check_loop_schedule:
  assumes "sorted (map fst events)" "events \<noteq> []"
  shows "check_loop defs any_constraints events (fst (hd events)) ([], []) st =
    run_schedule defs (schedule any_constraints events) st"
  using check_loop_pending [of "[]" events "fst (hd events)" defs any_constraints st] assms
  by (cases events) auto

lemma check_constraints_inv:
  assumes "start_of_check defs events st"
  shows "\<exists>st'. check_constraints defs any_constraints True events st
      = (st', Inr \<lparr>Done = True, ErrorsFound = False\<rparr>)
    \<and> (\<forall>c. constraint_inv defs c (evaluation_times any_constraints events c) st')"
proof -
  have srt: "sorted (map fst events)" and ne: "events \<noteq> []" and ev: "\<And>c. evaluable (defs c) (fst ` set events)"
    and a: "\<And>c. \<not> condition_has_been_true (automata st c) \<and> \<not> in_violation (automata st c)" "0 \<le> currentID st"
    using assms by (auto simp: start_of_check_def)
  let ?st0 = "st\<lparr>violations := [], last_safe_node := None\<rparr>" and ?sched = "schedule any_constraints events"
  note times = schedule_times [OF srt, of any_constraints]
  have "\<exists>st'. run_schedule defs ?sched ?st0 = (st', Inr ())
      \<and> (\<forall>c. constraint_inv defs c ([] @ map fst (filter (\<lambda>(t, cs). c \<in> set cs) ?sched)) st')"
  proof (rule run_schedule_ok)
    show "\<forall>(t, cs)\<in>set ?sched. evaluable (defs c) {t}" for c
      using times(2) ev [of c] by (fastforce simp: evaluable_def)
    show "checker_inv (fst (hd events) - 1) ?st0" using a(2) by (simp add: checker_inv_def)
    show "\<forall>(t, cs)\<in>set ?sched. fst (hd events) - 1 < t"
    proof -
      have "fst (hd events) \<le> t" if "t \<in> fst ` set events" for t using srt ne that by (cases events) auto
      then show ?thesis using times(2) by fastforce
    qed
    show "constraint_inv defs c [] ?st0" for c
      using a(1) [of c]
      by (simp add: constraint_inv_def forbidden_inv_def maxdur_inv_def Let_def violations_of_def
          condition_history_def condition_after_def split: constraint_kind.split)
  qed (use times in auto)
  then obtain st' where st': "run_schedule defs ?sched ?st0 = (st', Inr ())"
    "\<And>c. constraint_inv defs c (evaluation_times any_constraints events c) st'"
    by (auto simp: evaluation_times_def)
  show ?thesis
    using check_loop_schedule [OF srt ne, of defs any_constraints ?st0] ne st'
    by (cases events) (auto simp: check_constraints_def Let_def)
qed

text \<open>C27: the loop of the constraint checker refines a schedule: whatever the constraints report,
  and including its errors, it evaluates exactly, at each event time but the last, the constraints
  that depend on a resource that changed at that time, each of them once, and then moves the last
  safe node.\<close>

theorem check_constraints_schedule:
  assumes "sorted (map fst events)" "events \<noteq> []"
  shows "check_constraints defs any_constraints True events st =
    (case run_schedule defs (schedule any_constraints events) (st\<lparr>violations := [], last_safe_node := None\<rparr>) of
       (st', Inl (EvalError m)) \<Rightarrow> (st', Inr \<lparr>Done = False, ErrorsFound = True\<rparr>)
     | (st', Inl e) \<Rightarrow> (st', Inl e)
     | (st', Inr _) \<Rightarrow> (st', Inr \<lparr>Done = True, ErrorsFound = False\<rparr>))"
  using check_loop_schedule [OF assms] assms(2) by (cases events) (auto simp: check_constraints_def Let_def)



lemma edges_times: "set (map fst (edges b xs)) \<subseteq> set (map fst xs)"
  by (induction b xs rule: edges.induct) auto

lemma constraint_inv_times:
  assumes "constraint_inv defs c ts st" "v \<in> set (violations_of c st)"
  shows "vio_time v \<in> set ts"
proof (cases "con_kind (defs c)")
  case FORBIDDEN_CONDITION
  then have "map fst (map (\<lambda>v. (vio_time v, vio_severity v \<noteq> RELEASE)) (violations_of c st)) =
      map fst (edges False (condition_history (defs c) ts))"
    using assms(1) by (simp add: constraint_inv_def forbidden_inv_def)
  then have "map vio_time (violations_of c st) = map fst (edges False (condition_history (defs c) ts))"
    by (simp add: comp_def)
  then have "vio_time v \<in> set (map fst (edges False (condition_history (defs c) ts)))"
    using assms(2) by (metis image_eqI list.set_map)
  then show ?thesis using edges_times [of False "condition_history (defs c) ts"]
    by (auto simp: condition_history_def comp_def)
next
  case (MAXIMUM_DURATION m)
  then have "map vio_time (violations_of c st) = filter (overdue (defs c) m ts) ts"
    using assms(1) by (simp add: constraint_inv_def maxdur_inv_def Let_def)
  then have "vio_time v \<in> set (filter (overdue (defs c) m ts) ts)"
    using assms(2) by (metis image_eqI list.set_map)
  then show ?thesis by simp
qed

text \<open>what changes at the last event time is never checked: every violation that a check
  reports is strictly before the time of the last event.\<close>

theorem last_event_never_checked:
  assumes "start_of_check defs events st"
    and "check_constraints defs any_constraints True events st = (st', r)" and "v \<in> set (violations st')"
  shows "vio_time v < fst (last events)"
proof -
  have srt: "sorted (map fst events)" using assms(1) by (simp add: start_of_check_def)
  have "constraint_inv defs (vio_constraint v) (evaluation_times any_constraints events (vio_constraint v)) st'"
    using check_constraints_inv [OF assms(1), of any_constraints] assms(2) by auto
  from constraint_inv_times [OF this, of v] assms(3)
  have "vio_time v \<in> set (evaluation_times any_constraints events (vio_constraint v))"
    by (simp add: violations_of_def)
  then show ?thesis using schedule_times(3) [OF srt, of any_constraints]
    by (auto simp: evaluation_times_def)
qed

section \<open>A check\<close>

definition example_constraints :: "nat \<Rightarrow> constraint_def" where
  "example_constraints c =
     \<lparr>con_kind = (if c = 0 then FORBIDDEN_CONDITION else MAXIMUM_DURATION 5),
      con_severity = ERROR_SEVERITY,
      con_condition = (\<lambda>t. Inr (if 10 \<le> t \<and> t < 30 then 1 else 0)),
      con_message = (\<lambda>t. Inr ''violated'')\<rparr>"

definition example_events :: "(int \<times> nat) list" where
  "example_events = [(0, 0), (0, 1), (10, 0), (20, 1), (20, 0), (30, 0), (40, 1)]"

definition example_checker :: checker where
  "example_checker = \<lparr>automata = (\<lambda>c. initial_automaton 0), violations = [], currentID = 0, last_safe_node = None\<rparr>"

definition example_dependents :: "nat \<Rightarrow> nat list" where
  "example_dependents res = (if res = 0 then [0, 1] else [1])"

lemma example_start: "start_of_check example_constraints example_events example_checker"
  by (simp add: start_of_check_def example_constraints_def example_events_def example_checker_def
      initial_automaton_def evaluable_def)


lemma check_constraints_schedule_witness:
  "check_constraints example_constraints example_dependents True example_events example_checker =
    (case run_schedule example_constraints (schedule example_dependents example_events)
        (example_checker\<lparr>violations := [], last_safe_node := None\<rparr>) of
       (st', Inl (EvalError m)) \<Rightarrow> (st', Inr \<lparr>Done = False, ErrorsFound = True\<rparr>)
     | (st', Inl e) \<Rightarrow> (st', Inl e)
     | (st', Inr _) \<Rightarrow> (st', Inr \<lparr>Done = True, ErrorsFound = False\<rparr>))"
  by (rule check_constraints_schedule) (simp_all add: example_events_def)



lemma last_event_never_checked_witness:
  "vio_time (hd (violations (fst (check_constraints example_constraints example_dependents True
     example_events example_checker)))) < 40"
proof -
  let ?r = "check_constraints example_constraints example_dependents True example_events example_checker"
  have "violations (fst ?r) \<noteq> []" by code_simp
  then have "hd (violations (fst ?r)) \<in> set (violations (fst ?r))" by simp
  from last_event_never_checked [OF example_start prod.collapse [symmetric] this]
  show ?thesis by (simp add: example_events_def)
qed

end
