(* ===== verification/WindowFinder.thy ===== *)
theory WindowFinder
  imports TimeBase AvlTree
begin

text \<open>
  The search for windows of opportunity (\<open>src/src/apcore/scheduler/Scheduler.C\<close>,
  \<open>src/src/apgenlib/Scheduler.H\<close>): the placement of the iterators in a resource history, the
  checks of the search parameters, the search of \<open>window_finder::compute_windows\<close> over the times of
  the triggers, and the instruction \<open>get_windows\<close>. The times of the history nodes that the iterator
  delivers are an argument, and so is the value of the criterion at a time, which the expression
  evaluator computes. Times and durations are pseudo milliseconds, as in \<open>TimeBase\<close>; their sums and
  differences are taken to stay in the range of 64 bits.
\<close>

section \<open>Placing an iterator\<close>

text \<open>\<open>window_finder::initializer\<close>: the loop down the tree of a history, and the inner loop to the
  right among the nodes of the same time; \<open>key\<close> is the time of a node.\<close>

fun last_of_same_time :: "('a \<Rightarrow> int) \<Rightarrow> int \<Rightarrow> 'a \<Rightarrow> 'a btree \<Rightarrow> 'a" where
  "last_of_same_time key T n Tip = n"
| "last_of_same_time key T n (Node l m i r) =
     (if T = key m then last_of_same_time key T m r else n)"

fun initializer_loop :: "('a \<Rightarrow> int) \<Rightarrow> int \<Rightarrow> 'a btree \<Rightarrow> 'a option \<Rightarrow> 'a option" where
  "initializer_loop key T Tip last_earlier_node = last_earlier_node"
| "initializer_loop key T (Node l n i r) last_earlier_node =
     (if T < key n then initializer_loop key T l last_earlier_node
      else if T = key n then Some (last_of_same_time key T n r)
      else initializer_loop key T r (Some n))"

definition initializer :: "('a \<Rightarrow> int) \<Rightarrow> int \<Rightarrow> 'a btree \<Rightarrow> 'a option" where
  "initializer key T root = initializer_loop key T root None"

section \<open>Data\<close>

text \<open>The parameters of a search. \<open>criterion\<close> is the value of the expression at a time.\<close>

record window_finder =
  criterion :: "int \<Rightarrow> int result"
  criterion_is_satisfied_at_start :: bool
  we_need_to_wait :: bool
  requested_duration :: int
  max_duration :: int
  max_duration_is_specified :: bool
  wants_actual_duration :: bool

text \<open>The local variables of the search, the arrays it fills (\<open>None\<close> for a NULL pointer; the
  elements that \<open>add\<close> leaves uninitialized are \<open>None\<close>) and the time that \<open>evaluate_criterion\<close>
  publishes with \<open>thread_intfc::update_current_time\<close>.\<close>

record search =
  start_time_of_current_window :: int
  etime :: int
  latest_criterion_true_time :: int
  theCriterionIsTrueNow :: bool
  min_requirement_is_met :: bool
  theDurationToRemember :: int
  twiceTheNumberOfWindows :: nat
  theWindows :: "int option list option"
  theSafeWindows :: "int option list option"
  theActualDuration :: "int option"
  SafeTime :: int

definition we_need_to_check_windows :: "search \<Rightarrow> bool" where
  "we_need_to_check_windows s \<longleftrightarrow> theWindows s \<noteq> None \<or> theSafeWindows s \<noteq> None"

text \<open>\<open>ListOVal::add(long, const TypedValue&)\<close>.\<close>

definition array_add :: "nat \<Rightarrow> int \<Rightarrow> int option list \<Rightarrow> int option list" where
  "array_add i v xs =
     (if i < length xs then xs[i := Some v] else xs @ replicate (i - length xs) None @ [Some v])"

text \<open>The two bounds of a window go to the ends of the arrays.\<close>

definition add_window :: "int \<Rightarrow> int \<Rightarrow> search \<Rightarrow> search" where
  "add_window end_time safe_end_time s =
     (let n = twiceTheNumberOfWindows s;
          put = (\<lambda>e. map_option (\<lambda>xs. array_add (n + 1) e (array_add n (start_time_of_current_window s) xs)))
      in s\<lparr>theWindows := put end_time (theWindows s), theSafeWindows := put safe_end_time (theSafeWindows s)\<rparr>)"

definition evaluate_criterion :: "window_finder \<Rightarrow> search \<Rightarrow> search \<times> bool result" where
  "evaluate_criterion f s =
     (s\<lparr>SafeTime := etime s\<rparr>,
      case criterion f (etime s) of Inl e \<Rightarrow> Inl e | Inr v \<Rightarrow> Inr (v \<noteq> 0))"

text \<open>Whether the limit on the duration of the search is passed or reached.\<close>

definition exceeds :: "int option \<Rightarrow> int \<Rightarrow> bool" where
  "exceeds max_time_limit t = (case max_time_limit of None \<Rightarrow> False | Some m \<Rightarrow> t > m)"

definition reaches :: "int option \<Rightarrow> int \<Rightarrow> bool" where
  "reaches max_time_limit t = (case max_time_limit of None \<Rightarrow> False | Some m \<Rightarrow> t \<ge> m)"

section \<open>The phases of the search\<close>

text \<open>Looking for the start of a window; the result holds the triggers that are left when the
  criterion was found to be true.\<close>

fun find_start :: "window_finder \<Rightarrow> int option \<Rightarrow> int \<Rightarrow> int list \<Rightarrow> search \<Rightarrow> search \<times> int list option result" where
  "find_start f limit prev_etime [] s = (s, Inr None)"
| "find_start f limit prev_etime (t # ts) s =
     (let s1 = s\<lparr>etime := t\<rparr> in
      if t > prev_etime then
        if exceeds limit t then (s1, Inr None)
        else case evaluate_criterion f s1 of
            (s2, Inl e) \<Rightarrow> (s2, Inl e)
          | (s2, Inr True) \<Rightarrow>
              (s2\<lparr>theCriterionIsTrueNow := True, start_time_of_current_window := t\<rparr>, Inr (Some ts))
          | (s2, Inr False) \<Rightarrow> find_start f limit t ts (s2\<lparr>theCriterionIsTrueNow := False\<rparr>)
      else find_start f limit prev_etime ts s1)"

text \<open>How the search for the end of the first window stops.\<close>

datatype stop = RanOutOfEvents | MaxExceeded | Settled "int list"

definition min_met_at :: "int \<Rightarrow> search \<Rightarrow> bool" where
  "min_met_at min_time_limit s =
     (theSafeWindows s \<noteq> None \<and> latest_criterion_true_time s \<ge> min_time_limit
      \<or> theSafeWindows s = None \<and> etime s \<ge> min_time_limit)"

function (sequential) extend_window ::
  "window_finder \<Rightarrow> int option \<Rightarrow> int \<Rightarrow> int list \<Rightarrow> search \<Rightarrow> search \<times> stop result" where
  "extend_window f limit min_time_limit [] s = (s, Inr RanOutOfEvents)"
| "extend_window f limit min_time_limit (t # ts) s =
     (let s1 = s\<lparr>etime := t\<rparr> in
      if t > start_time_of_current_window s then
        (case evaluate_criterion f s1 of
           (s2, Inl e) \<Rightarrow> (s2, Inl e)
         | (s2, Inr sat) \<Rightarrow>
             let s3 = s2\<lparr>theCriterionIsTrueNow := sat, min_requirement_is_met := min_met_at min_time_limit s2\<rparr> in
             if \<not> sat then (s3, Inr (Settled ts))
             else let s4 = s3\<lparr>latest_criterion_true_time := t\<rparr> in
               if min_requirement_is_met s4 then (s4, Inr (Settled ts))
               else if exceeds limit t then (s4, Inr MaxExceeded)
               else extend_window f limit min_time_limit (dropWhile (\<lambda>u. u = t) ts) s4)
      else extend_window f limit min_time_limit (dropWhile (\<lambda>u. u = t) ts) s1)"
  by pat_completeness auto
termination
  by (relation "measure (\<lambda>(f, limit, m, ts, s). length ts)") (auto simp: le_imp_less_Suc length_dropWhile_le)

text \<open>Further windows: an evaluation at which the criterion is false, and one at which it is
  true.\<close>

definition requirement_met :: "window_finder \<Rightarrow> search \<Rightarrow> bool" where
  "requirement_met f s =
     (theSafeWindows s \<noteq> None
        \<and> latest_criterion_true_time s - start_time_of_current_window s \<ge> requested_duration f
      \<or> theSafeWindows s = None
        \<and> etime s - start_time_of_current_window s \<ge> requested_duration f)"

definition criterion_false :: "window_finder \<Rightarrow> search \<Rightarrow> search" where
  "criterion_false f s =
     (let s1 = s\<lparr>min_requirement_is_met := requirement_met f s\<rparr> in
      if theCriterionIsTrueNow s1 then
        let s2 = s1\<lparr>theCriterionIsTrueNow := False\<rparr>;
            s3 = (if twiceTheNumberOfWindows s2 = 0
                  then s2\<lparr>theDurationToRemember := etime s2 - start_time_of_current_window s2\<rparr> else s2)
        in if min_requirement_is_met s3 \<and> we_need_to_check_windows s3
              \<and> etime s3 > start_time_of_current_window s3 then
             (add_window (etime s3) (latest_criterion_true_time s3) s3)
               \<lparr>twiceTheNumberOfWindows := twiceTheNumberOfWindows s3 + 2\<rparr>
           else s3
      else s1)"

definition criterion_true :: "window_finder \<Rightarrow> search \<Rightarrow> search" where
  "criterion_true f s =
     (let s1 = s\<lparr>latest_criterion_true_time := etime s\<rparr>;
          s2 = (if \<not> theCriterionIsTrueNow s1
                then s1\<lparr>theCriterionIsTrueNow := True, start_time_of_current_window := etime s1\<rparr> else s1)
      in s2\<lparr>min_requirement_is_met := requirement_met f s2\<rparr>)"

function (sequential) more_windows ::
  "window_finder \<Rightarrow> int option \<Rightarrow> int list \<Rightarrow> search \<Rightarrow> search \<times> unit result" where
  "more_windows f limit [] s = (s, Inr ())"
| "more_windows f limit (t # ts) s =
     (let capped = (if exceeds limit t then the limit else t) in
      case evaluate_criterion f (s\<lparr>etime := capped\<rparr>) of
        (s2, Inl e) \<Rightarrow> (s2, Inl e)
      | (s2, Inr sat) \<Rightarrow>
          let s3 = (if sat then criterion_true f s2 else criterion_false f s2) in
          if \<not> sat \<and> \<not> we_need_to_check_windows s3 then (s3, Inr ())
          else if reaches limit capped then (s3, Inr ())
          else more_windows f limit (dropWhile (\<lambda>u. u = capped) ts) s3)"
  by pat_completeness auto
termination
  by (relation "measure (\<lambda>(f, limit, ts, s). length ts)") (auto simp: le_imp_less_Suc length_dropWhile_le)

definition last_window :: "search \<Rightarrow> search" where
  "last_window s =
     (if theCriterionIsTrueNow s \<and> min_requirement_is_met s then
        let s1 = (if twiceTheNumberOfWindows s = 0
                  then s\<lparr>theDurationToRemember :=
                      (if theSafeWindows s \<noteq> None then latest_criterion_true_time s else etime s)
                        - start_time_of_current_window s\<rparr>
                  else s)
        in if we_need_to_check_windows s1 \<and> etime s1 > start_time_of_current_window s1
           then add_window (etime s1) (etime s1) s1 else s1
      else s)"

text \<open>After the end of the first window.\<close>

definition first_window :: "search \<Rightarrow> search result" where
  "first_window s =
     (let s1 = s\<lparr>theDurationToRemember :=
          (if theSafeWindows s \<noteq> None then latest_criterion_true_time s else etime s)
            - start_time_of_current_window s\<rparr>
      in if \<not> theCriterionIsTrueNow s1 \<and> we_need_to_check_windows s1 then
           if twiceTheNumberOfWindows s1 \<noteq> 0 then Inl AssertFailed
           else Inr ((add_window (etime s1) (latest_criterion_true_time s1) s1)\<lparr>twiceTheNumberOfWindows := 2\<rparr>)
         else Inr s1)"

definition remaining_windows :: "window_finder \<Rightarrow> int option \<Rightarrow> int list \<Rightarrow> search \<Rightarrow> search \<times> bool result" where
  "remaining_windows f limit ts s =
     (let (s1, r) =
        (if we_need_to_check_windows s \<or> (theCriterionIsTrueNow s \<and> wants_actual_duration f)
         then case more_windows f limit ts s of
             (s', Inl e) \<Rightarrow> (s', Inl e)
           | (s', Inr _) \<Rightarrow> (last_window s', Inr ())
         else (s, Inr ()))
      in case r of
           Inl e \<Rightarrow> (s1, Inl e)
         | Inr _ \<Rightarrow>
             ((if wants_actual_duration f then s1\<lparr>theActualDuration := Some (theDurationToRemember s1)\<rparr> else s1),
              Inr True))"

definition max_time_limit :: "window_finder \<Rightarrow> int \<Rightarrow> int option" where
  "max_time_limit f now = (if max_duration_is_specified f then Some (now + max_duration f) else None)"

definition windows_from_start ::
  "window_finder \<Rightarrow> int option \<Rightarrow> int list \<Rightarrow> search \<Rightarrow> search \<times> bool result" where
  "windows_from_start f limit ts s =
     (let s1 = s\<lparr>latest_criterion_true_time := start_time_of_current_window s\<rparr> in
      case extend_window f limit (start_time_of_current_window s1 + requested_duration f) ts s1 of
        (s2, Inl e) \<Rightarrow> (s2, Inl e)
      | (s2, Inr RanOutOfEvents) \<Rightarrow> (s2, Inr True)
      | (s2, Inr MaxExceeded) \<Rightarrow> (s2, Inr False)
      | (s2, Inr (Settled ts')) \<Rightarrow>
          if min_requirement_is_met s2 then
            case first_window s2 of
              Inl e \<Rightarrow> (s2, Inl e)
            | Inr s3 \<Rightarrow> remaining_windows f limit ts' s3
          else if we_need_to_wait f then (s2, Inr False)
          else remaining_windows f limit ts' s2)"

definition compute_windows :: "window_finder \<Rightarrow> int \<Rightarrow> int list \<Rightarrow> search \<Rightarrow> search \<times> bool result" where
  "compute_windows f now triggers s =
     (let limit = max_time_limit f now in
      if criterion_is_satisfied_at_start f then
        windows_from_start f limit triggers
          (s\<lparr>start_time_of_current_window := now, theCriterionIsTrueNow := True\<rparr>)
      else case find_start f limit now triggers s of
          (s1, Inl e) \<Rightarrow> (s1, Inl e)
        | (s1, Inr None) \<Rightarrow> (s1, Inr False)
        | (s1, Inr (Some ts)) \<Rightarrow> windows_from_start f limit ts s1)"

section \<open>The instruction\<close>

text \<open>The value of a symbol of the calling program: an array or another value.\<close>

datatype symbol_value = ArrayValue "int option list" | OtherValue

text \<open>\<open>window_finder::get_search_parameters\<close>: the arrays of the symbols that exist are emptied.\<close>

definition check_array :: "string \<Rightarrow> bool \<Rightarrow> symbol_value option \<Rightarrow> int option list option result" where
  "check_array name max_dur_is_specified v =
     (case v of
        None \<Rightarrow> Inr None
      | Some OtherValue \<Rightarrow> Inl (EvalError (name @ '' is not an array''))
      | Some (ArrayValue xs) \<Rightarrow>
          if \<not> max_dur_is_specified then Inl (EvalError (name @ '' without maximum duration''))
          else Inr (Some []))"

definition get_search_parameters ::
  "bool \<Rightarrow> symbol_value option \<Rightarrow> symbol_value option
     \<Rightarrow> (int option list option \<times> int option list option) result" where
  "get_search_parameters max_dur_is_specified windows safe_windows =
     bind_result (check_array ''windows'' max_dur_is_specified windows) (\<lambda>w.
     bind_result (check_array ''safe_windows'' max_dur_is_specified safe_windows) (\<lambda>sw.
     Inr (w, sw)))"

text \<open>The options of \<open>get_windows\<close> that are present, and the symbols of the calling program.\<close>

record get_windows_options =
  start_option :: "int option"
  min_option :: "int option"
  max_option :: "int option"

record window_symbols =
  windows_symbol :: "symbol_value option"
  safe_windows_symbol :: "symbol_value option"
  has_actual_symbol :: bool

text \<open>The search as the constructor of \<open>window_finder\<close> and \<open>compute_windows\<close> find it.\<close>

definition new_search :: "int option list option \<Rightarrow> int option list option \<Rightarrow> int \<Rightarrow> search" where
  "new_search w sw safe =
     \<lparr>start_time_of_current_window = TIME_BIT, etime = TIME_BIT, latest_criterion_true_time = TIME_BIT,
      theCriterionIsTrueNow = False, min_requirement_is_met = False, theDurationToRemember = 0,
      twiceTheNumberOfWindows = 0, theWindows = w, theSafeWindows = sw, theActualDuration = None,
      SafeTime = safe\<rparr>"

text \<open>\<open>GetWindows::get_windows_of_opportunity\<close>: the arguments are the value of the criterion, the
  triggers that an iterator placed at a time delivers, whether a model is active, the start of the
  activity and the current time. The result is the current time afterwards and, on success, the
  search with the arrays and the duration it filled.\<close>

definition get_windows_of_opportunity ::
  "(int \<Rightarrow> int result) \<Rightarrow> (int \<Rightarrow> int list) \<Rightarrow> bool \<Rightarrow> int \<Rightarrow> get_windows_options \<Rightarrow> window_symbols \<Rightarrow> int
     \<Rightarrow> int \<times> search result" where
  "get_windows_of_opportunity crit triggers inactive act_start opts syms current_time =
     (let desired_start = (case start_option opts of Some t \<Rightarrow> t | None \<Rightarrow> act_start);
          min_dur = (case min_option opts of Some d \<Rightarrow> d | None \<Rightarrow> 1);
          max_dur = (case max_option opts of Some d \<Rightarrow> d | None \<Rightarrow> 1);
          max_dur_is_specified = (max_option opts \<noteq> None)
      in if \<not> inactive \<and> desired_start < current_time
         then (current_time, Inl (EvalError ''get_windows: start earlier than now''))
         else case crit desired_start of
             Inl e \<Rightarrow> (current_time, Inl (EvalError ''get_windows: evaluating criterion''))
           | Inr v \<Rightarrow>
               (case get_search_parameters max_dur_is_specified (windows_symbol syms) (safe_windows_symbol syms) of
                  Inl e \<Rightarrow> (current_time, Inl (EvalError ''get_windows: evaluating search parameters''))
                | Inr (w, sw) \<Rightarrow>
                    (case compute_windows
                        \<lparr>criterion = crit, criterion_is_satisfied_at_start = (v > 0), we_need_to_wait = False,
                         requested_duration = min_dur, max_duration = max_dur,
                         max_duration_is_specified = max_dur_is_specified,
                         wants_actual_duration = has_actual_symbol syms\<rparr>
                        desired_start (triggers desired_start) (new_search w sw current_time) of
                       (s, Inl (EvalError m)) \<Rightarrow> (SafeTime s, Inl (EvalError ''get_windows: conducting the search''))
                     | (s, Inl e) \<Rightarrow> (SafeTime s, Inl e)
                     | (s, Inr _) \<Rightarrow> (current_time, Inr s))))"

text \<open>\<open>GetInterpwins::get_windows_of_opportunity\<close>.\<close>

definition get_interpolated_windows :: "unit result" where
  "get_interpolated_windows = Inl (EvalError ''interpolated_windows: not implemented'')"

end
