(* ===== verification/WindowProperties.thy ===== *)
theory WindowProperties
  imports WindowFinder
begin

text \<open>
  Properties of \<open>WindowFinder\<close>: where the iterators are placed in a history; the windows that a
  search finds, as the runs of the criterion over the times of the triggers; the window that passes
  the limit of the search; the errors of \<open>get_windows\<close> and the time it restores.
\<close>

section \<open>The windows of a criterion\<close>

definition total_criterion :: "window_finder \<Rightarrow> bool" where
  "total_criterion f \<longleftrightarrow> (\<forall>t. is_ok (criterion f t))"

definition holds :: "window_finder \<Rightarrow> int \<Rightarrow> bool" where
  "holds f t = (case criterion f t of Inl _ \<Rightarrow> False | Inr v \<Rightarrow> v \<noteq> 0)"

text \<open>The times that are looked at: those within the limit, and the limit itself if there are
  later ones.\<close>

fun cap :: "int option \<Rightarrow> int list \<Rightarrow> int list" where
  "cap limit [] = []"
| "cap limit (t # ts) = (if exceeds limit t then [the limit] else t # cap limit ts)"

text \<open>The runs of a predicate over a sequence of times: where a run starts, where it ends (the
  first time at which the predicate is false, or the last of all) and the last time at which it is
  true. \<open>cur\<close> is the start and the last time of the current run, \<open>e\<close> the last time seen.\<close>

fun runs :: "(int \<Rightarrow> bool) \<Rightarrow> (int \<times> int) option \<Rightarrow> int \<Rightarrow> int list \<Rightarrow> (int \<times> int \<times> int) list" where
  "runs h cur e [] = (case cur of None \<Rightarrow> [] | Some (a, l) \<Rightarrow> [(a, e, l)])"
| "runs h cur e (t # ts) =
     (if h t then runs h (Some (case cur of None \<Rightarrow> t | Some (a, l) \<Rightarrow> a, t)) t ts
      else (case cur of None \<Rightarrow> [] | Some (a, l) \<Rightarrow> [(a, t, l)]) @ runs h None t ts)"

definition kept :: "window_finder \<Rightarrow> bool \<Rightarrow> int \<times> int \<times> int \<Rightarrow> bool" where
  "kept f safe = (\<lambda>(a, e, l). a < e \<and> (if safe then l else e) - a \<ge> requested_duration f)"

definition expected_windows ::
  "window_finder \<Rightarrow> bool \<Rightarrow> int option \<Rightarrow> int \<Rightarrow> int list \<Rightarrow> (int \<times> int \<times> int) list" where
  "expected_windows f safe limit start triggers =
     filter (kept f safe)
       (runs (holds f) (Some (start, start)) start (cap limit (filter (\<lambda>t. start < t) triggers)))"

definition flat :: "(int \<times> int) list \<Rightarrow> int option list" where
  "flat ws = concat (map (\<lambda>(a, e). [Some a, Some e]) ws)"

definition window_array :: "(int \<times> int \<times> int) list \<Rightarrow> int option list" where
  "window_array ws = flat (map (\<lambda>(a, e, l). (a, e)) ws)"

definition safe_window_array :: "(int \<times> int \<times> int) list \<Rightarrow> int option list" where
  "safe_window_array ws = flat (map (\<lambda>(a, e, l). (a, l)) ws)"

text \<open>The start of the first window, and whether its end is seen within the limit.\<close>

definition start_of_windows :: "window_finder \<Rightarrow> int \<Rightarrow> int list \<Rightarrow> int option" where
  "start_of_windows f now triggers =
     (if criterion_is_satisfied_at_start f then Some now
      else List.find (\<lambda>t. now < t \<and> \<not> exceeds (max_time_limit f now) t \<and> holds f t) triggers)"

definition settled :: "window_finder \<Rightarrow> bool \<Rightarrow> int option \<Rightarrow> int \<Rightarrow> int list \<Rightarrow> bool" where
  "settled f safe limit start ts \<longleftrightarrow> (\<exists>t\<in>set ts. start < t \<and> \<not> exceeds limit t
     \<and> (\<not> holds f t \<or> \<not> safe \<and> start + requested_duration f \<le> t))"

subsection \<open>Runs\<close>

lemma runs_same:
  assumes "\<forall>u\<in>set xs. u = c" "h c \<longleftrightarrow> cur \<noteq> None" "\<forall>a l. cur = Some (a, l) \<longrightarrow> l = c"
  shows "runs h cur c (xs @ ys) = runs h cur c ys"
  using assms
proof (induction xs)
  case Nil
  then show ?case by simp
next
  case (Cons x xs)
  have "(case cur of None \<Rightarrow> c | Some (a, l) \<Rightarrow> a, c) = the cur" if "cur \<noteq> None"
    using that Cons.prems(3) by (cases cur) auto
  then show ?case using Cons by (cases cur) auto
qed

lemma cap_append_same:
  "\<forall>u\<in>set xs. u = c \<Longrightarrow> \<not> exceeds limit c \<Longrightarrow> cap limit (xs @ ys) = xs @ cap limit ys"
  by (induction xs) auto

lemma cap_dropWhile:
  assumes "\<not> exceeds limit c"
  shows "cap limit ts = takeWhile (\<lambda>u. u = c) ts @ cap limit (dropWhile (\<lambda>u. u = c) ts)"
proof -
  have "cap limit (takeWhile (\<lambda>u. u = c) ts @ dropWhile (\<lambda>u. u = c) ts) =
      takeWhile (\<lambda>u. u = c) ts @ cap limit (dropWhile (\<lambda>u. u = c) ts)"
    by (rule cap_append_same) (use assms in \<open>auto dest: set_takeWhileD\<close>)
  then show ?thesis by simp
qed

lemma runs_cap_skip:
  assumes "\<not> exceeds limit c" "h c \<longleftrightarrow> cur \<noteq> None" "\<forall>a l. cur = Some (a, l) \<longrightarrow> l = c"
  shows "runs h cur c (cap limit ts) = runs h cur c (cap limit (dropWhile (\<lambda>u. u = c) ts))"
  unfolding cap_dropWhile [OF assms(1), of ts]
  by (rule runs_same) (use assms(2,3) in \<open>auto dest: set_takeWhileD\<close>)

lemma cap_reached:
  "reaches limit c \<Longrightarrow> \<not> exceeds limit c \<Longrightarrow> \<forall>u\<in>set ts. c \<le> u \<Longrightarrow> \<forall>u\<in>set (cap limit ts). u = c"
  by (induction ts) (auto simp: reaches_def exceeds_def split: option.splits)

lemma set_dropWhile_subset: "u \<in> set (dropWhile P ts) \<Longrightarrow> u \<in> set ts"
  using set_dropWhileD by metis

lemma sorted_dropWhile_le: "sorted ts \<Longrightarrow> \<forall>u\<in>set ts. c \<le> u \<Longrightarrow>
    sorted (dropWhile P ts) \<and> (\<forall>u\<in>set (dropWhile P ts). c \<le> u)"
  by (auto simp: sorted_dropWhile dest: set_dropWhile_subset)

subsection \<open>The arrays\<close>

definition arrays_are :: "search \<Rightarrow> (int \<times> int \<times> int) list \<Rightarrow> bool" where
  "arrays_are s ws \<longleftrightarrow> (\<forall>xs. theWindows s = Some xs \<longrightarrow> xs = window_array ws)
     \<and> (\<forall>xs. theSafeWindows s = Some xs \<longrightarrow> xs = safe_window_array ws)"

lemma window_arrays_snoc [simp]:
  "window_array (ws @ [(a, e, l)]) = window_array ws @ [Some a, Some e]"
  "safe_window_array (ws @ [(a, e, l)]) = safe_window_array ws @ [Some a, Some l]"
  by (simp_all add: window_array_def safe_window_array_def flat_def)

lemma length_window_arrays [simp]:
  "length (window_array ws) = 2 * length ws" "length (safe_window_array ws) = 2 * length ws"
  by (induction ws) (auto simp: window_array_def safe_window_array_def flat_def)

lemma array_add_end: "n = length xs \<Longrightarrow> array_add (Suc n) b (array_add n a xs) = xs @ [Some a, Some b]"
  by (simp add: array_add_def)

lemma add_window_arrays:
  assumes "arrays_are s ws" "twiceTheNumberOfWindows s = 2 * length ws"
  shows "arrays_are (add_window e l s) (ws @ [(start_time_of_current_window s, e, l)])"
  using assms by (auto simp: arrays_are_def add_window_def Let_def array_add_end)

lemma add_window_sel [simp]:
  "theCriterionIsTrueNow (add_window e l s) = theCriterionIsTrueNow s"
  "etime (add_window e l s) = etime s"
  "start_time_of_current_window (add_window e l s) = start_time_of_current_window s"
  "latest_criterion_true_time (add_window e l s) = latest_criterion_true_time s"
  "min_requirement_is_met (add_window e l s) = min_requirement_is_met s"
  "twiceTheNumberOfWindows (add_window e l s) = twiceTheNumberOfWindows s"
  "theWindows (add_window e l s) = None \<longleftrightarrow> theWindows s = None"
  "theSafeWindows (add_window e l s) = None \<longleftrightarrow> theSafeWindows s = None"
  by (simp_all add: add_window_def Let_def)

lemma arrays_are_cong:
  "theWindows s' = theWindows s \<Longrightarrow> theSafeWindows s' = theSafeWindows s \<Longrightarrow> arrays_are s' ws = arrays_are s ws"
  by (simp add: arrays_are_def)

lemma evaluate_total:
  "total_criterion f \<Longrightarrow> evaluate_criterion f s = (s\<lparr>SafeTime := etime s\<rparr>, Inr (holds f (etime s)))"
  by (auto simp: evaluate_criterion_def total_criterion_def holds_def is_ok_iff split: sum.splits) (metis sum.distinct(1))

section \<open>The loops\<close>

subsection \<open>After the first window\<close>

definition current_run :: "search \<Rightarrow> (int \<times> int) option" where
  "current_run s = (if theCriterionIsTrueNow s
     then Some (start_time_of_current_window s, latest_criterion_true_time s) else None)"

definition is_safe :: "search \<Rightarrow> bool" where
  "is_safe s \<longleftrightarrow> theSafeWindows s \<noteq> None"

definition running_inv :: "window_finder \<Rightarrow> search \<Rightarrow> bool" where
  "running_inv f s \<longleftrightarrow> (theCriterionIsTrueNow s \<longrightarrow>
     latest_criterion_true_time s = etime s \<and> min_requirement_is_met s = requirement_met f s)"

definition windows_inv :: "search \<Rightarrow> (int \<times> int \<times> int) list \<Rightarrow> bool" where
  "windows_inv s ws \<longleftrightarrow> we_need_to_check_windows s \<and> arrays_are s ws
     \<and> twiceTheNumberOfWindows s = 2 * length ws"

lemma criterion_true_inv:
  assumes "windows_inv s ws"
  shows "windows_inv (criterion_true f s) ws" "running_inv f (criterion_true f s)"
    "is_safe (criterion_true f s) = is_safe s" "etime (criterion_true f s) = etime s"
    "current_run (criterion_true f s) =
      Some (case current_run s of None \<Rightarrow> etime s | Some (a, l) \<Rightarrow> a, etime s)"
  using assms
  by (simp_all add: criterion_true_def Let_def windows_inv_def running_inv_def is_safe_def current_run_def
      we_need_to_check_windows_def arrays_are_def requirement_met_def)

lemma criterion_false_eq:
  "\<exists>d. criterion_false f s = (if theCriterionIsTrueNow s then
     let q = s\<lparr>min_requirement_is_met := requirement_met f s, theCriterionIsTrueNow := False,
                theDurationToRemember := d\<rparr>
     in if requirement_met f s \<and> we_need_to_check_windows s \<and> start_time_of_current_window s < etime s
        then (add_window (etime s) (latest_criterion_true_time s) q)
               \<lparr>twiceTheNumberOfWindows := twiceTheNumberOfWindows s + 2\<rparr>
        else q
     else s\<lparr>min_requirement_is_met := requirement_met f s\<rparr>)"
proof (cases "twiceTheNumberOfWindows s = 0")
  case True
  then show ?thesis
    by (intro exI [of _ "etime s - start_time_of_current_window s"])
      (auto simp: criterion_false_def Let_def we_need_to_check_windows_def)
next
  case False
  have "s\<lparr>min_requirement_is_met := m, theCriterionIsTrueNow := False,
      theDurationToRemember := theDurationToRemember s\<rparr> =
    s\<lparr>min_requirement_is_met := m, theCriterionIsTrueNow := False\<rparr>" for m
    by (cases s) simp
  with False show ?thesis
    by (intro exI [of _ "theDurationToRemember s"])
      (auto simp: criterion_false_def Let_def we_need_to_check_windows_def)
qed

lemma criterion_false_inv:
  assumes "windows_inv s ws"
  shows "windows_inv (criterion_false f s) (ws @ filter (kept f (is_safe s))
      (case current_run s of None \<Rightarrow> [] | Some (a, l) \<Rightarrow> [(a, etime s, l)]))"
    "running_inv f (criterion_false f s)" "is_safe (criterion_false f s) = is_safe s"
    "etime (criterion_false f s) = etime s" "current_run (criterion_false f s) = None"
proof -
  obtain d where e: "criterion_false f s = (if theCriterionIsTrueNow s then
     let q = s\<lparr>min_requirement_is_met := requirement_met f s, theCriterionIsTrueNow := False,
                theDurationToRemember := d\<rparr>
     in if requirement_met f s \<and> we_need_to_check_windows s \<and> start_time_of_current_window s < etime s
        then (add_window (etime s) (latest_criterion_true_time s) q)
               \<lparr>twiceTheNumberOfWindows := twiceTheNumberOfWindows s + 2\<rparr>
        else q
     else s\<lparr>min_requirement_is_met := requirement_met f s\<rparr>)"
    using criterion_false_eq by blast
  let ?q = "s\<lparr>min_requirement_is_met := requirement_met f s, theCriterionIsTrueNow := False,
                theDurationToRemember := d\<rparr>"
  let ?w = "(start_time_of_current_window s, etime s, latest_criterion_true_time s)"
  have a: "twiceTheNumberOfWindows s = 2 * length ws" "we_need_to_check_windows s" and q: "arrays_are ?q ws"
    using assms by (simp_all add: windows_inv_def arrays_are_def)
  have req: "kept f (is_safe s) ?w \<longleftrightarrow> start_time_of_current_window s < etime s \<and> requirement_met f s"
    by (auto simp: kept_def is_safe_def requirement_met_def)
  have w: "arrays_are ((add_window (etime s) (latest_criterion_true_time s) ?q)\<lparr>twiceTheNumberOfWindows := n\<rparr>) (ws @ [?w])"
    for n using add_window_arrays [OF q] a(1) by (simp add: arrays_are_def)
  show "windows_inv (criterion_false f s) (ws @ filter (kept f (is_safe s))
      (case current_run s of None \<Rightarrow> [] | Some (a, l) \<Rightarrow> [(a, etime s, l)]))"
  proof (cases "theCriterionIsTrueNow s \<and> kept f (is_safe s) ?w")
    case True
    then show ?thesis using w a req unfolding e
      by (simp add: windows_inv_def current_run_def we_need_to_check_windows_def Let_def)
  next
    case False
    then have "ws @ filter (kept f (is_safe s))
      (case current_run s of None \<Rightarrow> [] | Some (a, l) \<Rightarrow> [(a, etime s, l)]) = ws"
      by (auto simp: current_run_def)
    then show ?thesis using q assms False req unfolding e
      by (auto simp: windows_inv_def we_need_to_check_windows_def Let_def arrays_are_def)
  qed
  show "running_inv f (criterion_false f s)" "is_safe (criterion_false f s) = is_safe s"
    "etime (criterion_false f s) = etime s" "current_run (criterion_false f s) = None"
    unfolding e by (simp_all add: Let_def running_inv_def is_safe_def current_run_def del: not_None_eq)
qed

lemma last_window_arrays:
  assumes "windows_inv s ws" "running_inv f s"
  shows "arrays_are (last_window s) (ws @ filter (kept f (is_safe s)) (runs h (current_run s) (etime s) []))"
proof -
  have a: "arrays_are s ws" "twiceTheNumberOfWindows s = 2 * length ws" "we_need_to_check_windows s"
    using assms(1) by (simp_all add: windows_inv_def)
  have req: "kept f (is_safe s) (start_time_of_current_window s, etime s, etime s) \<longleftrightarrow>
      start_time_of_current_window s < etime s \<and> requirement_met f s"
    if "latest_criterion_true_time s = etime s"
    using that by (auto simp: kept_def is_safe_def requirement_met_def)
  have d: "arrays_are (s\<lparr>theDurationToRemember := y\<rparr>) ws" for y using a(1) by (simp add: arrays_are_def)
  note arr = d add_window_arrays [OF a(1)] add_window_arrays [OF d]
  show ?thesis
    using assms(2) a req arr
    by (auto simp: last_window_def Let_def current_run_def running_inv_def we_need_to_check_windows_def)
qed

lemma last_window_safe [simp]:
  "theWindows (last_window s) = None \<longleftrightarrow> theWindows s = None"
  "theSafeWindows (last_window s) = None \<longleftrightarrow> theSafeWindows s = None"
  by (auto simp: last_window_def Let_def)

lemma more_windows_runs:
  assumes "total_criterion f"
  shows "sorted ts \<Longrightarrow> windows_inv s ws \<Longrightarrow> running_inv f s \<Longrightarrow>
    \<exists>s'. more_windows f limit ts s = (s', Inr ())
      \<and> arrays_are (last_window s')
          (ws @ filter (kept f (is_safe s)) (runs (holds f) (current_run s) (etime s) (cap limit ts)))"
proof (induction "length ts" arbitrary: ts s ws rule: less_induct)
  case less
  show ?case
  proof (cases ts)
    case Nil
    then show ?thesis using last_window_arrays [OF less.prems(2,3)] by simp
  next
    case (Cons t rest)
    define c where "c = (if exceeds limit t then the limit else t)"
    define s2 where "s2 = s\<lparr>etime := c, SafeTime := c\<rparr>"
    define s3 where "s3 = (if holds f c then criterion_true f s2 else criterion_false f s2)"
    define ws' where "ws' = ws @ filter (kept f (is_safe s)) (if holds f c then [] else
        case current_run s of None \<Rightarrow> [] | Some (a, l) \<Rightarrow> [(a, c, l)])"
    have s2: "windows_inv s2 ws" "is_safe s2 = is_safe s" "etime s2 = c" "current_run s2 = current_run s"
      using less.prems(2)
      by (auto simp: s2_def windows_inv_def we_need_to_check_windows_def arrays_are_def is_safe_def current_run_def)
    have s3: "windows_inv s3 ws'" "running_inv f s3" "is_safe s3 = is_safe s" "etime s3 = c"
      "current_run s3 = (if holds f c then Some (case current_run s of None \<Rightarrow> c | Some (a, l) \<Rightarrow> a, c) else None)"
    proof -
      note T = criterion_true_inv [OF s2(1), of f, unfolded s2(2-4)]
        and F = criterion_false_inv [OF s2(1), of f, unfolded s2(2-4)]
      show "windows_inv s3 ws'" "running_inv f s3" "is_safe s3 = is_safe s" "etime s3 = c"
        "current_run s3 = (if holds f c then Some (case current_run s of None \<Rightarrow> c | Some (a, l) \<Rightarrow> a, c) else None)"
        using T F by (cases "holds f c"; simp only: s3_def ws'_def if_True if_False filter.simps append_Nil2)+
    qed
    have check: "we_need_to_check_windows s3" using s3(1) by (simp add: windows_inv_def)
    have step: "more_windows f limit ts s =
        (if reaches limit c then (s3, Inr ()) else more_windows f limit (dropWhile (\<lambda>u. u = c) rest) s3)"
      using check evaluate_total [OF assms, of "s\<lparr>etime := c\<rparr>"]
      by (simp add: Cons c_def [symmetric] s2_def [symmetric] s3_def [symmetric] Let_def)
    have first: "ws @ filter (kept f (is_safe s)) (runs (holds f) (current_run s) (etime s) (c # xs)) =
        ws' @ filter (kept f (is_safe s3)) (runs (holds f) (current_run s3) (etime s3) xs)" for xs
      by (simp add: s3 ws'_def)
    have run: "holds f c \<longleftrightarrow> current_run s3 \<noteq> None" "\<forall>a l. current_run s3 = Some (a, l) \<longrightarrow> l = c"
      by (auto simp: s3(5))
    have rest: "sorted rest" "\<forall>u\<in>set rest. t \<le> u" using less.prems(1) by (simp_all add: Cons)
    show ?thesis
    proof (cases "reaches limit c")
      case True
      have "\<exists>xs. cap limit ts = c # xs \<and> (\<forall>u\<in>set xs. u = c)"
        using cap_reached [OF True, of rest] rest(2) by (auto simp: Cons c_def)
      then obtain xs where xs: "cap limit ts = c # xs" "\<forall>u\<in>set xs. u = c" by blast
      have "runs (holds f) (current_run s3) c (xs @ []) = runs (holds f) (current_run s3) c []"
        using xs(2) run by (rule runs_same)
      then show ?thesis
        using last_window_arrays [OF s3(1,2), of "holds f"] step True
        by (simp add: xs(1) first s3(4) del: runs.simps)
    next
      case False
      then have c: "\<not> exceeds limit t" "c = t" "\<not> exceeds limit c"
        by (auto simp: c_def reaches_def exceeds_def split: option.splits)
      have "length (dropWhile (\<lambda>u. u = c) rest) < length ts"
        by (simp add: Cons le_imp_less_Suc length_dropWhile_le)
      from less.hyps [OF this _ s3(1,2)] sorted_dropWhile_le [OF rest]
      obtain s' where s': "more_windows f limit (dropWhile (\<lambda>u. u = c) rest) s3 = (s', Inr ())"
        "arrays_are (last_window s') (ws' @ filter (kept f (is_safe s3))
           (runs (holds f) (current_run s3) (etime s3) (cap limit (dropWhile (\<lambda>u. u = c) rest))))" by blast
      have "cap limit ts = c # cap limit rest" using c by (simp add: Cons)
      then show ?thesis
        using step False s' runs_cap_skip [of limit c "holds f" "current_run s3" rest, OF c(3) run]
        by (simp add: first s3(4) del: runs.simps)
    qed
  qed
qed

subsection \<open>The first window\<close>

text \<open>What the search for the end of the first window leaves alone.\<close>

definition same_arrays :: "search \<Rightarrow> search \<Rightarrow> bool" where
  "same_arrays s s' \<longleftrightarrow> theWindows s' = theWindows s \<and> theSafeWindows s' = theSafeWindows s
     \<and> twiceTheNumberOfWindows s' = twiceTheNumberOfWindows s
     \<and> start_time_of_current_window s' = start_time_of_current_window s"

lemma same_arrays_refl [simp]: "same_arrays s s" by (simp add: same_arrays_def)

lemma filter_dropWhile_skip:
  "\<not> a < (t::int) \<Longrightarrow> filter ((<) a) (dropWhile (\<lambda>u. u = t) ts) = filter ((<) a) ts"
  by (induction ts) auto

lemma filter_dropWhile_comm:
  "sorted ts \<Longrightarrow> a < t \<Longrightarrow> \<forall>u\<in>set ts. t \<le> (u::int) \<Longrightarrow>
   dropWhile (\<lambda>u. u = t) (filter ((<) a) ts) = filter ((<) a) (dropWhile (\<lambda>u. u = t) ts)"
  by (induction ts) auto

lemma exceeds_mono: "exceeds limit t \<Longrightarrow> t \<le> u \<Longrightarrow> exceeds limit u"
  by (auto simp: exceeds_def split: option.splits)

lemma settled_dropWhile:
  assumes "settled f safe limit a (t # ts)" "\<not> (a < t \<and> (\<not> holds f t \<or> \<not> safe \<and> a + requested_duration f \<le> t))"
  shows "settled f safe limit a (dropWhile (\<lambda>u. u = t) ts)"
proof -
  obtain w where w: "w \<in> set (t # ts)" "a < w" "\<not> exceeds limit w"
    "\<not> holds f w \<or> \<not> safe \<and> a + requested_duration f \<le> w"
    using assms(1) by (auto simp: settled_def)
  with assms(2) have "w \<noteq> t" "w \<in> set ts" by auto
  moreover have "set ts = set (takeWhile (\<lambda>u. u = t) ts) \<union> set (dropWhile (\<lambda>u. u = t) ts)"
    unfolding set_append [symmetric] by simp
  ultimately have "w \<in> set (dropWhile (\<lambda>u. u = t) ts)" by (auto dest: set_takeWhileD)
  then show ?thesis using w(2-4) by (auto simp: settled_def)
qed

text \<open>The search settles: it stops at the end of the first run, or as soon as the required duration
  is met, and the rest of the triggers holds the rest of the runs.\<close>

definition settles ::
  "window_finder \<Rightarrow> int option \<Rightarrow> int list \<Rightarrow> search \<Rightarrow> search \<Rightarrow> int list \<Rightarrow> bool" where
  "settles f limit ts s s' rest \<longleftrightarrow> same_arrays s s' \<and> sorted rest
     \<and> start_time_of_current_window s < etime s'
     \<and> (theCriterionIsTrueNow s' \<longrightarrow> running_inv f s' \<and> min_requirement_is_met s')
     \<and> (\<not> theCriterionIsTrueNow s' \<longrightarrow> min_requirement_is_met s' = requirement_met f s')
     \<and> (\<forall>e. runs (holds f) (Some (start_time_of_current_window s, latest_criterion_true_time s)) e
            (cap limit (filter ((<) (start_time_of_current_window s)) ts)) =
          (if theCriterionIsTrueNow s' then []
           else [(start_time_of_current_window s, etime s', latest_criterion_true_time s')])
          @ runs (holds f) (current_run s') (etime s') (cap limit rest))"

lemma extend_window_settles:
  assumes "total_criterion f" "\<And>t. t \<in> set ts \<Longrightarrow> start_time_of_current_window s < t \<Longrightarrow> latest_criterion_true_time s \<le> t"
    and "sorted ts" "settled f (is_safe s) limit (start_time_of_current_window s) ts"
  shows "\<exists>s' rest. extend_window f limit (start_time_of_current_window s + requested_duration f) ts s
    = (s', Inr (Settled rest)) \<and> settles f limit ts s s' rest"
  using assms(2-)
proof (induction "length ts" arbitrary: ts s rule: less_induct)
  case less
  let ?a = "start_time_of_current_window s" and ?m = "start_time_of_current_window s + requested_duration f"
  obtain t rest where ts: "ts = t # rest" using less.prems(3) by (cases ts) (auto simp: settled_def)
  let ?drop = "dropWhile (\<lambda>u. u = t) rest"
  have shorter: "length ?drop < length ts" by (simp add: ts le_imp_less_Suc length_dropWhile_le)
  have rest: "sorted rest" "\<forall>u\<in>set rest. t \<le> u" using less.prems(2) by (simp_all add: ts)
  have drop: "sorted ?drop" "\<And>u. u \<in> set ?drop \<Longrightarrow> t \<le> u \<and> u \<in> set rest"
    using sorted_dropWhile_le [OF rest] by (auto dest: set_dropWhile_subset)
  show ?case
  proof (cases "?a < t")
    case False
    define s1 where "s1 = s\<lparr>etime := t\<rparr>"
    have s1: "start_time_of_current_window s1 = ?a" "latest_criterion_true_time s1 = latest_criterion_true_time s"
      "is_safe s1 = is_safe s" "same_arrays s s1"
      by (simp_all add: s1_def is_safe_def same_arrays_def)
    have "settled f (is_safe s1) limit (start_time_of_current_window s1) ?drop"
      using settled_dropWhile [of f "is_safe s" limit ?a t rest] less.prems(3) False by (simp add: s1 ts)
    from less.hyps [OF shorter _ drop(1) this] less.prems(1) drop(2)
    obtain s' r where "extend_window f limit ?m ?drop s1 = (s', Inr (Settled r))" "settles f limit ?drop s1 s' r"
      by (fastforce simp: s1 ts)
    then show ?thesis
      using False s1 filter_dropWhile_skip [OF False, of rest]
      by (auto simp: ts s1_def [symmetric] settles_def same_arrays_def Let_def)
  next
    case True
    define s3 where "s3 = s\<lparr>etime := t, SafeTime := t, theCriterionIsTrueNow := holds f t,
        min_requirement_is_met := min_met_at ?m (s\<lparr>etime := t, SafeTime := t\<rparr>)\<rparr>"
    define s4 where "s4 = s3\<lparr>latest_criterion_true_time := t\<rparr>"
    have latest: "latest_criterion_true_time s \<le> t" using less.prems(1) True by (simp add: ts)
    have step: "extend_window f limit ?m ts s =
        (if \<not> holds f t then (s3, Inr (Settled rest))
         else if min_requirement_is_met s3 then (s4, Inr (Settled rest))
         else if exceeds limit t then (s4, Inr MaxExceeded)
         else extend_window f limit ?m ?drop s4)"
      using True evaluate_total [OF assms(1), of "s\<lparr>etime := t\<rparr>"]
      by (simp add: ts Let_def s3_def s4_def)
    have inner: "\<not> exceeds limit t"
      using less.prems(3) rest(2) exceeds_mono [of limit t] by (auto simp: settled_def ts)
    have fil: "cap limit (filter ((<) ?a) ts) = t # cap limit (filter ((<) ?a) rest)" using True inner by (simp add: ts)
    have all: "filter ((<) ?a) rest = rest" using rest(2) True by (auto intro!: filter_True)
    have met: "min_requirement_is_met s3 = requirement_met f s3"
      by (auto simp: s3_def min_met_at_def requirement_met_def)
    show ?thesis
    proof (cases "holds f t \<and> \<not> min_requirement_is_met s3")
      case False
      show ?thesis
      proof (cases "holds f t")
        case True
        then have "requirement_met f s4" "min_requirement_is_met s4"
          using False met latest by (auto simp: s3_def s4_def requirement_met_def)
        moreover have "running_inv f s4" using calculation True by (simp add: running_inv_def s4_def s3_def)
        ultimately show ?thesis
          using True False step fil all rest \<open>?a < t\<close>
          by (auto simp: settles_def same_arrays_def s4_def s3_def current_run_def)
      next
        case not: False
        then show ?thesis
          using step fil all rest \<open>?a < t\<close> met
          by (auto simp: settles_def same_arrays_def s3_def current_run_def)
      qed
    next
      case cont: True
      then have nm: "\<not> (\<not> holds f t \<or> \<not> is_safe s \<and> ?m \<le> t)"
        by (auto simp: s3_def min_met_at_def is_safe_def)
      have s4: "start_time_of_current_window s4 = ?a" "latest_criterion_true_time s4 = t"
        "is_safe s4 = is_safe s" "same_arrays s s4"
        by (simp_all add: s4_def s3_def is_safe_def same_arrays_def)
      have "settled f (is_safe s4) limit (start_time_of_current_window s4) ?drop"
        using settled_dropWhile [of f "is_safe s" limit ?a t rest] less.prems(3) nm by (simp add: s4 ts)
      from less.hyps [OF shorter _ drop(1) this] drop(2)
      obtain s' r where r: "extend_window f limit ?m ?drop s4 = (s', Inr (Settled r))" "settles f limit ?drop s4 s' r"
        by (auto simp: s4)
      have "filter ((<) ?a) ?drop = ?drop"
        by (rule filter_True) (use drop(2) \<open>?a < t\<close> in \<open>auto dest: order.strict_trans2\<close>)
      moreover have "runs (holds f) (Some (?a, t)) t (cap limit rest) = runs (holds f) (Some (?a, t)) t (cap limit ?drop)"
        using runs_cap_skip [of limit t "holds f" "Some (?a, t)" rest] inner cont by simp
      ultimately have "runs (holds f) (Some (?a, latest_criterion_true_time s)) e (cap limit (filter ((<) ?a) ts)) =
          runs (holds f) (Some (?a, t)) t (cap limit (filter ((<) ?a) ?drop))" for e
        using cont by (simp add: fil all)
      then show ?thesis
        using r step cont inner s4 by (auto simp: settles_def same_arrays_def)
    qed
  qed
qed

lemma find_start_first:
  assumes "total_criterion f" "sorted ts"
  shows "\<forall>u\<in>set ts. now \<le> prev \<and> (now < u \<and> u \<le> prev \<longrightarrow> \<not> holds f u) \<Longrightarrow>
    List.find (\<lambda>t. now < t \<and> \<not> exceeds limit t \<and> holds f t) ts = Some a \<Longrightarrow>
    \<exists>s' rest. find_start f limit prev ts s = (s', Inr (Some rest)) \<and> start_time_of_current_window s' = a
      \<and> sorted rest \<and> now < a \<and> filter ((<) a) rest = filter ((<) a) ts
      \<and> theWindows s' = theWindows s \<and> theSafeWindows s' = theSafeWindows s
      \<and> twiceTheNumberOfWindows s' = twiceTheNumberOfWindows s"
  using assms(2)
proof (induction ts arbitrary: prev s)
  case Nil
  then show ?case by simp
next
  case (Cons t ts)
  have rest: "sorted ts" "\<forall>u\<in>set ts. t \<le> u" using Cons.prems(3) by simp_all
  have np: "now \<le> prev" using Cons.prems(1) by simp
  have a_ts: "a \<in> set (t # ts)" "now < a" "\<not> exceeds limit a" "holds f a"
  proof -
    have "\<exists>i<length (t # ts). (now < (t # ts) ! i \<and> \<not> exceeds limit ((t # ts) ! i) \<and> holds f ((t # ts) ! i))
        \<and> a = (t # ts) ! i"
      using Cons.prems(2) unfolding find_Some_iff by blast
    then show "a \<in> set (t # ts)" "now < a" "\<not> exceeds limit a" "holds f a" by (metis nth_mem)+
  qed
  show ?case
  proof (cases "prev < t")
    case False
    then have nf: "\<not> (now < t \<and> \<not> exceeds limit t \<and> holds f t)" using Cons.prems(1) by auto
    then have "List.find (\<lambda>t. now < t \<and> \<not> exceeds limit t \<and> holds f t) ts = Some a"
      using Cons.prems(2) by (auto split: if_splits)
    from Cons.IH [OF _ this rest(1), of prev "s\<lparr>etime := t\<rparr>"] Cons.prems(1)
    obtain s' r where r: "find_start f limit prev ts (s\<lparr>etime := t\<rparr>) = (s', Inr (Some r))"
      "start_time_of_current_window s' = a" "sorted r" "now < a" "filter ((<) a) r = filter ((<) a) ts"
      "theWindows s' = theWindows s" "theSafeWindows s' = theSafeWindows s"
      "twiceTheNumberOfWindows s' = twiceTheNumberOfWindows s" by auto
    have "t \<le> a" using a_ts(1) rest(2) by auto
    then show ?thesis using False r by (simp add: Let_def)
  next
    case True
    have inner: "\<not> exceeds limit t"
      using a_ts(1,3) rest(2) exceeds_mono [of limit t a] by auto
    show ?thesis
    proof (cases "holds f t")
      case yes: True
      then have "a = t" using Cons.prems(2) inner True np by simp
      then show ?thesis
        using True inner yes evaluate_total [OF assms(1), of "s\<lparr>etime := t\<rparr>"] rest np
        by (simp add: Let_def)
    next
      case no: False
      then have find: "List.find (\<lambda>t. now < t \<and> \<not> exceeds limit t \<and> holds f t) ts = Some a"
        using Cons.prems(2) by simp
      have "\<forall>u\<in>set ts. now \<le> t \<and> (now < u \<and> u \<le> t \<longrightarrow> \<not> holds f u)"
        using rest(2) no True np by (metis dual_order.strict_implies_order order.antisym order.trans)
      from Cons.IH [OF this find rest(1), of "s\<lparr>etime := t, SafeTime := t, theCriterionIsTrueNow := False\<rparr>"]
      obtain s' r where r: "find_start f limit t ts (s\<lparr>etime := t, SafeTime := t, theCriterionIsTrueNow := False\<rparr>) = (s', Inr (Some r))"
        "start_time_of_current_window s' = a" "sorted r" "now < a" "filter ((<) a) r = filter ((<) a) ts"
        "theWindows s' = theWindows s" "theSafeWindows s' = theSafeWindows s"
        "twiceTheNumberOfWindows s' = twiceTheNumberOfWindows s" by auto
      have "t \<le> a" using a_ts(1) rest(2) by auto
      then show ?thesis
        using True inner no evaluate_total [OF assms(1), of "s\<lparr>etime := t\<rparr>"] r
        by (simp add: Let_def)
    qed
  qed
qed

subsection \<open>Which arrays there are\<close>

definition shape :: "search \<Rightarrow> bool \<times> bool" where
  "shape s = (theWindows s = None, theSafeWindows s = None)"

lemma shape_steps [simp]:
  "shape (criterion_true f s) = shape s" "shape (criterion_false f s) = shape s"
  "shape (last_window s) = shape s" "shape (s\<lparr>etime := t\<rparr>) = shape s" "shape (s\<lparr>SafeTime := t\<rparr>) = shape s"
  by (auto simp: shape_def criterion_true_def criterion_false_def last_window_def Let_def)

lemma shape_more_windows: "shape (fst (more_windows f limit ts s)) = shape s"
proof (induction f limit ts s rule: more_windows.induct)
  case (2 f limit t ts s)
  show ?case
  proof (cases "criterion f (if exceeds limit t then the limit else t)")
    case (Inl e)
    then show ?thesis by (simp add: evaluate_criterion_def Let_def shape_def)
  next
    case (Inr v)
    let ?s2 = "s\<lparr>etime := if exceeds limit t then the limit else t, SafeTime := if exceeds limit t then the limit else t\<rparr>"
    have e: "evaluate_criterion f (s\<lparr>etime := if exceeds limit t then the limit else t\<rparr>) = (?s2, Inr (v \<noteq> 0))"
      by (simp add: evaluate_criterion_def Inr)
    have sh: "shape (if v \<noteq> 0 then criterion_true f ?s2 else criterion_false f ?s2) = shape s"
      by (cases "v = 0") (simp_all only: shape_steps if_True if_False simp_thms)
    show ?thesis using 2 [OF refl e [symmetric] refl refl] sh
      by (simp add: e Let_def split: if_splits)
  qed
qed simp

section \<open>The search\<close>

lemma arrays_are_update:
  "arrays_are (s\<lparr>theDurationToRemember := d, theActualDuration := a, twiceTheNumberOfWindows := n\<rparr>) ws = arrays_are s ws"
  "arrays_are (s\<lparr>theActualDuration := a\<rparr>) ws = arrays_are s ws"
  "arrays_are (s\<lparr>theDurationToRemember := d\<rparr>) ws = arrays_are s ws"
  "arrays_are (s\<lparr>twiceTheNumberOfWindows := n\<rparr>) ws = arrays_are s ws"
  by (simp_all add: arrays_are_def)

lemma shape_update:
  "shape (s\<lparr>theActualDuration := a\<rparr>) = shape s" "shape (s\<lparr>theDurationToRemember := d\<rparr>) = shape s"
  "shape (s\<lparr>twiceTheNumberOfWindows := n\<rparr>) = shape s" "shape (add_window e l s) = shape s"
  by (simp_all add: shape_def)

lemma remaining_windows_runs:
  assumes "total_criterion f" "sorted ts" "windows_inv s ws" "running_inv f s"
  shows "\<exists>s'. remaining_windows f limit ts s = (s', Inr True) \<and> shape s' = shape s
    \<and> arrays_are s' (ws @ filter (kept f (is_safe s)) (runs (holds f) (current_run s) (etime s) (cap limit ts)))"
proof -
  have "we_need_to_check_windows s" using assms(3) by (simp add: windows_inv_def)
  with more_windows_runs [OF assms, of limit] shape_more_windows [of f limit ts s] show ?thesis
    by (auto simp: remaining_windows_def Let_def arrays_are_update shape_update)
qed

lemma windows_from_start_runs:
  assumes "total_criterion f" "\<not> we_need_to_wait f" "sorted ts" "windows_inv s []"
    and "settled f (is_safe s) limit (start_time_of_current_window s) ts"
  shows "\<exists>s'. windows_from_start f limit ts s = (s', Inr True) \<and> shape s' = shape s
    \<and> arrays_are s' (expected_windows f (is_safe s) limit (start_time_of_current_window s) ts)"
proof -
  define s1 where "s1 = s\<lparr>latest_criterion_true_time := start_time_of_current_window s\<rparr>"
  have s1: "start_time_of_current_window s1 = start_time_of_current_window s" "is_safe s1 = is_safe s"
    "latest_criterion_true_time s1 = start_time_of_current_window s" "windows_inv s1 []" "shape s1 = shape s"
    using assms(4) by (simp_all add: shape_def s1_def is_safe_def windows_inv_def we_need_to_check_windows_def arrays_are_def)
  have "settled f (is_safe s1) limit (start_time_of_current_window s1) ts" using assms(5) by (simp add: s1)
  from extend_window_settles [OF assms(1) _ assms(3) this]
  obtain s2 rest where s2: "extend_window f limit (start_time_of_current_window s1 + requested_duration f) ts s1
      = (s2, Inr (Settled rest))" "settles f limit ts s1 s2 rest"
    using s1 by auto
  let ?w = "(start_time_of_current_window s, etime s2, latest_criterion_true_time s2)"
  let ?first = "if theCriterionIsTrueNow s2 then [] else [?w]"
  have same: "same_arrays s1 s2" and rest: "sorted rest" and pos: "start_time_of_current_window s < etime s2"
    and run: "theCriterionIsTrueNow s2 \<longrightarrow> running_inv f s2 \<and> min_requirement_is_met s2"
    and stop: "\<not> theCriterionIsTrueNow s2 \<longrightarrow> min_requirement_is_met s2 = requirement_met f s2"
    and runs: "expected_windows f (is_safe s) limit (start_time_of_current_window s) ts =
      filter (kept f (is_safe s)) (?first @ runs (holds f) (current_run s2) (etime s2) (cap limit rest))"
    using s2(2) by (simp_all add: settles_def s1 expected_windows_def)
  have inv2: "windows_inv s2 []" "is_safe s2 = is_safe s" "start_time_of_current_window s2 = start_time_of_current_window s"
    using same s1 by (auto simp: same_arrays_def windows_inv_def we_need_to_check_windows_def arrays_are_def is_safe_def)
  have sh2: "shape s2 = shape s" using same s1(5) by (simp add: shape_def same_arrays_def)
  have kept: "kept f (is_safe s) ?w \<longleftrightarrow> requirement_met f s2"
    using pos inv2(2,3) by (auto simp: kept_def requirement_met_def is_safe_def)
  have start: "windows_from_start f limit ts s = (if min_requirement_is_met s2 then
            case first_window s2 of Inl e \<Rightarrow> (s2, Inl e) | Inr s3 \<Rightarrow> remaining_windows f limit rest s3
          else remaining_windows f limit rest s2)"
    using s2(1) assms(2) by (simp add: windows_from_start_def s1_def [symmetric] Let_def)
  have "\<exists>s3. windows_from_start f limit ts s = remaining_windows f limit rest s3
      \<and> windows_inv s3 (filter (kept f (is_safe s)) ?first) \<and> running_inv f s3
      \<and> is_safe s3 = is_safe s \<and> current_run s3 = current_run s2 \<and> etime s3 = etime s2 \<and> shape s3 = shape s"
  proof -
    define d where "d = (if theSafeWindows s2 \<noteq> None then latest_criterion_true_time s2 else etime s2)
            - start_time_of_current_window s2"
    define q where "q = s2\<lparr>theDurationToRemember := d\<rparr>"
    have q: "windows_inv q []" "is_safe q = is_safe s" "current_run q = current_run s2" "etime q = etime s2"
      "running_inv f q = running_inv f s2" "theCriterionIsTrueNow q = theCriterionIsTrueNow s2"
      "start_time_of_current_window q = start_time_of_current_window s"
      "latest_criterion_true_time q = latest_criterion_true_time s2"
      using inv2 by (simp_all add: q_def windows_inv_def is_safe_def current_run_def running_inv_def
          requirement_met_def we_need_to_check_windows_def arrays_are_def)
    have shq: "shape q = shape s" using sh2 by (simp add: q_def shape_def)
    have qc: "we_need_to_check_windows q" "twiceTheNumberOfWindows q = 0" "arrays_are q []"
      using q(1) by (simp_all add: windows_inv_def)
    consider (run) "theCriterionIsTrueNow s2" | (kept) "\<not> theCriterionIsTrueNow s2" "min_requirement_is_met s2"
      | (dropped) "\<not> theCriterionIsTrueNow s2" "\<not> min_requirement_is_met s2" by blast
    then show ?thesis
    proof cases
      case run
      then have "first_window s2 = Inr q" by (simp add: first_window_def q_def d_def Let_def)
      then show ?thesis using start run \<open>theCriterionIsTrueNow s2 \<longrightarrow> _\<close> q shq by auto
    next
      case kept
      define p where "p = (add_window (etime q) (latest_criterion_true_time q) q)\<lparr>twiceTheNumberOfWindows := 2\<rparr>"
      have "first_window s2 = (if \<not> theCriterionIsTrueNow q \<and> we_need_to_check_windows q
          then if twiceTheNumberOfWindows q \<noteq> 0 then Inl AssertFailed else Inr p else Inr q)"
        unfolding first_window_def Let_def d_def [symmetric] q_def [symmetric] p_def ..
      then have "first_window s2 = Inr p" using kept(1) qc(1,2) q(6) by simp
      moreover have "arrays_are p ([] @ [?w])"
        unfolding p_def arrays_are_update using add_window_arrays [OF qc(3)] qc(2) q(4,7,8) by simp
      moreover have "kept f (is_safe s) ?w" using kept stop \<open>kept f (is_safe s) ?w \<longleftrightarrow> _\<close> by simp
      moreover have "is_safe p = is_safe s" "current_run p = current_run s2" "etime p = etime s2"
        "running_inv f p" "we_need_to_check_windows p" "twiceTheNumberOfWindows p = 2"
        using q(2,3,4,6) qc(1) kept
        by (auto simp: p_def is_safe_def current_run_def running_inv_def we_need_to_check_windows_def)
      moreover have "shape p = shape s" using shq by (simp add: p_def shape_update)
      ultimately show ?thesis using start kept by (auto simp: windows_inv_def)
    next
      case dropped
      then show ?thesis
        using start stop \<open>kept f (is_safe s) ?w \<longleftrightarrow> _\<close> inv2 sh2 by (auto simp: running_inv_def)
    qed
  qed
  then obtain s3 where s3: "windows_from_start f limit ts s = remaining_windows f limit rest s3"
    "windows_inv s3 (filter (kept f (is_safe s)) ?first)" "running_inv f s3"
    "is_safe s3 = is_safe s" "current_run s3 = current_run s2" "etime s3 = etime s2" "shape s3 = shape s" by blast
  from remaining_windows_runs [OF assms(1) rest s3(2,3), of limit] show ?thesis
    unfolding s3(1,4,5,6,7) runs filter_append .
qed

definition searchable :: "window_finder \<Rightarrow> int list \<Rightarrow> int option list option \<Rightarrow> int option list option \<Rightarrow> bool" where
  "searchable f triggers w sw \<longleftrightarrow> total_criterion f \<and> \<not> we_need_to_wait f \<and> sorted triggers
     \<and> (w = None \<or> w = Some []) \<and> (sw = None \<or> sw = Some []) \<and> (w \<noteq> None \<or> sw \<noteq> None)"

lemma settled_filter:
  assumes "filter ((<) a) ts = filter ((<) a) ts'"
  shows "settled f safe limit a ts = settled f safe limit a ts'"
proof -
  have "settled f safe limit a ts = (\<exists>t\<in>set (filter ((<) a) ts). \<not> exceeds limit t
     \<and> (\<not> holds f t \<or> \<not> safe \<and> a + requested_duration f \<le> t))" for ts
    by (auto simp: settled_def)
  then show ?thesis by (simp only: assms)
qed

lemma compute_windows_runs:
  assumes "searchable f triggers w sw" "start_of_windows f now triggers = Some a"
    and "settled f (sw \<noteq> None) (max_time_limit f now) a triggers"
  shows "\<exists>s'. compute_windows f now triggers (new_search w sw t0) = (s', Inr True)
    \<and> shape s' = (w = None, sw = None)
    \<and> arrays_are s' (expected_windows f (sw \<noteq> None) (max_time_limit f now) a triggers)"
proof -
  let ?limit = "max_time_limit f now" and ?s = "new_search w sw t0"
  have f: "total_criterion f" "\<not> we_need_to_wait f" "sorted triggers"
    and w: "w = None \<or> w = Some []" "sw = None \<or> sw = Some []" "w \<noteq> None \<or> sw \<noteq> None"
    using assms(1) by (auto simp: searchable_def)
  have "\<exists>s1 ts. compute_windows f now triggers ?s = windows_from_start f ?limit ts s1
      \<and> start_time_of_current_window s1 = a \<and> sorted ts \<and> filter ((<) a) ts = filter ((<) a) triggers
      \<and> theWindows s1 = w \<and> theSafeWindows s1 = sw \<and> twiceTheNumberOfWindows s1 = 0"
  proof (cases "criterion_is_satisfied_at_start f")
    case True
    then have "a = now" using assms(2) by (simp add: start_of_windows_def)
    then show ?thesis
      using True f(3)
      by (intro exI [of _ "?s\<lparr>start_time_of_current_window := now, theCriterionIsTrueNow := True\<rparr>"] exI [of _ triggers])
        (simp add: compute_windows_def Let_def new_search_def)
  next
    case False
    then have find: "List.find (\<lambda>t. now < t \<and> \<not> exceeds ?limit t \<and> holds f t) triggers = Some a"
      using assms(2) by (simp add: start_of_windows_def)
    have "\<forall>u\<in>set triggers. now \<le> now \<and> (now < u \<and> u \<le> now \<longrightarrow> \<not> holds f u)" by auto
    from find_start_first [OF f(1,3) this find, of ?s] obtain s1 ts where
      "find_start f ?limit now triggers ?s = (s1, Inr (Some ts))"
      "start_time_of_current_window s1 = a" "sorted ts" "filter ((<) a) ts = filter ((<) a) triggers"
      "theWindows s1 = w" "theSafeWindows s1 = sw" "twiceTheNumberOfWindows s1 = 0"
      by (auto simp: new_search_def)
    then show ?thesis using False by (intro exI [of _ s1] exI [of _ ts]) (simp add: compute_windows_def)
  qed
  then obtain s1 ts where s1: "compute_windows f now triggers ?s = windows_from_start f ?limit ts s1"
    "start_time_of_current_window s1 = a" "sorted ts" "filter ((<) a) ts = filter ((<) a) triggers"
    "theWindows s1 = w" "theSafeWindows s1 = sw" "twiceTheNumberOfWindows s1 = 0" by blast
  have inv: "windows_inv s1 []" using w s1(5-7)
    by (auto simp: windows_inv_def we_need_to_check_windows_def arrays_are_def window_array_def
        safe_window_array_def flat_def)
  have safe: "is_safe s1 = (sw \<noteq> None)" by (simp add: is_safe_def s1(6))
  have "settled f (is_safe s1) ?limit (start_time_of_current_window s1) ts"
    using assms(3) settled_filter [OF s1(4)] by (simp add: safe s1(2))
  from windows_from_start_runs [OF f(1,2) s1(3) inv this] show ?thesis
    using s1(4-6) unfolding s1(1,2) safe expected_windows_def by (auto simp: shape_def)
qed

lemma arrays_of_shape:
  assumes "arrays_are s ws" "shape s = (w = None, sw = None)"
  shows "theWindows s = map_option (\<lambda>_. window_array ws) w"
    "theSafeWindows s = map_option (\<lambda>_. safe_window_array ws) sw"
  using assms by (cases "theWindows s"; cases w; force simp: arrays_are_def shape_def)
    (use assms in \<open>cases "theSafeWindows s"; cases sw; force simp: arrays_are_def shape_def\<close>)

text \<open>Runs are apart from one another, within the times that are looked at, and the predicate holds
  throughout them; \<open>S\<close> are the times seen, \<open>H\<close> those seen before.\<close>

definition apart :: "int \<times> int \<times> int \<Rightarrow> int \<times> int \<times> int \<Rightarrow> bool" where
  "apart r r' \<longleftrightarrow> fst (snd r) < fst r'"

definition run_ok :: "(int \<Rightarrow> bool) \<Rightarrow> (int \<times> int) option \<Rightarrow> int \<Rightarrow> int set \<Rightarrow> int \<times> int \<times> int \<Rightarrow> bool" where
  "run_ok h cur e S r \<longleftrightarrow> ((\<exists>l. cur = Some (fst r, l)) \<or> e < fst r) \<and> fst r \<in> S \<and> h (fst r)
     \<and> fst (snd r) \<in> S \<and> (\<forall>u\<in>S. fst r \<le> u \<and> u < fst (snd r) \<longrightarrow> h u)"

lemma runs_sound:
  "sorted xs \<Longrightarrow> \<forall>x\<in>set xs. e \<le> x \<Longrightarrow> \<forall>u\<in>H. u \<le> e \<Longrightarrow> e \<in> H \<Longrightarrow>
   (\<forall>a l. cur = Some (a, l) \<longrightarrow> a \<in> H \<and> (\<forall>u\<in>H. a \<le> u \<longrightarrow> h u)) \<Longrightarrow> (cur = None \<longrightarrow> \<not> h e) \<Longrightarrow>
   sorted_wrt apart (runs h cur e xs) \<and> (\<forall>r\<in>set (runs h cur e xs). run_ok h cur e (H \<union> set xs) r)"
proof (induction xs arbitrary: cur e H)
  case Nil
  then show ?case by (auto simp: run_ok_def split: option.splits)
next
  case (Cons x xs)
  have x: "e \<le> x" "sorted xs" "\<forall>y\<in>set xs. x \<le> y" using Cons.prems(1,2) by simp_all
  have H: "\<forall>u\<in>insert x H. u \<le> x" using Cons.prems(3) x(1) by auto
  have S: "insert x H \<union> set xs = H \<union> set (x # xs)" by auto
  show ?case
  proof (cases "h x")
    case True
    define a where "a = (case cur of None \<Rightarrow> x | Some (a, l) \<Rightarrow> a)"
    have "a \<in> insert x H \<and> (\<forall>u\<in>insert x H. a \<le> u \<longrightarrow> h u)"
    proof (cases cur)
      case None
      then show ?thesis using Cons.prems(3,6) True x(1) by (auto simp: a_def) (metis order.antisym order.trans)
    next
      case (Some al)
      then show ?thesis using Cons.prems(5) True by (cases al) (auto simp: a_def)
    qed
    then have ih: "sorted_wrt apart (runs h (Some (a, x)) x xs)"
      "\<forall>r\<in>set (runs h (Some (a, x)) x xs). run_ok h (Some (a, x)) x (insert x H \<union> set xs) r"
      using Cons.IH [OF x(2,3) H, of "Some (a, x)"] by auto
    have "(\<exists>l. cur = Some (a, l)) \<or> e < a"
      using Cons.prems(6) True x(1) by (cases cur) (auto simp: a_def order.strict_iff_order)
    then have "run_ok h (Some (a, x)) x S r \<Longrightarrow> run_ok h cur e S r" for r S
      using x(1) by (auto simp: run_ok_def)
    with ih True show ?thesis unfolding S by (simp add: a_def [symmetric])
  next
    case False
    have ih: "sorted_wrt apart (runs h None x xs)"
      "\<forall>r\<in>set (runs h None x xs). run_ok h None x (insert x H \<union> set xs) r"
      using Cons.IH [OF x(2,3) H, of None] False by auto
    have weaken: "run_ok h None x S r \<Longrightarrow> run_ok h cur e S r" for r S
      using x(1) by (auto simp: run_ok_def)
    show ?thesis
    proof (cases cur)
      case None
      then show ?thesis using ih weaken False unfolding S by simp
    next
      case (Some al)
      obtain a l where al: "al = (a, l)" by (cases al)
      have a: "a \<in> H" "\<forall>u\<in>H. a \<le> u \<longrightarrow> h u" using Cons.prems(5) Some al by auto
      then have "run_ok h cur e (H \<union> set (x # xs)) (a, x, l)"
        using x(3) Cons.prems(3) Some al by (fastforce simp: run_ok_def)
      moreover have "\<forall>r\<in>set (runs h None x xs). apart (a, x, l) r"
        using ih(2) by (auto simp: run_ok_def apart_def)
      ultimately show ?thesis using ih weaken False Some al unfolding S by simp
    qed
  qed
qed

lemma cap_sound:
  assumes "\<not> exceeds limit a"
  shows "sorted ts \<Longrightarrow> \<forall>t\<in>set ts. a \<le> t \<Longrightarrow>
    sorted (cap limit ts) \<and> (\<forall>t\<in>set (cap limit ts). a \<le> t \<and> \<not> exceeds limit t)
    \<and> (\<forall>t\<in>set ts. \<not> exceeds limit t \<longrightarrow> t \<in> set (cap limit ts))"
  using assms
proof (induction ts arbitrary: a)
  case Nil
  then show ?case by simp
next
  case (Cons t ts)
  show ?case
  proof (cases "exceeds limit t")
    case True
    then show ?thesis using Cons.prems exceeds_mono [OF True]
      by (auto simp: exceeds_def split: option.splits)
  next
    case False
    have "a \<le> t" "sorted ts" "\<forall>u\<in>set ts. t \<le> u" using Cons.prems(1,2) by simp_all
    with Cons.IH [OF this(2,3) False] False show ?thesis by auto
  qed
qed

section \<open>What a search finds\<close>

text \<open>C26: when the end of the first window is seen within the limit of the search, the search
  succeeds and fills the arrays that it was given with exactly the runs of the criterion over the
  times of the triggers that are long enough, cut off at the limit; the safe windows end at the last
  time at which the criterion was true.\<close>

theorem window_search_correct:
  assumes "searchable f triggers w sw" "start_of_windows f now triggers = Some a"
    and "settled f (sw \<noteq> None) (max_time_limit f now) a triggers"
  shows "\<exists>s'. compute_windows f now triggers (new_search w sw t0) = (s', Inr True)
    \<and> theWindows s' = map_option (\<lambda>_. window_array
        (expected_windows f (sw \<noteq> None) (max_time_limit f now) a triggers)) w
    \<and> theSafeWindows s' = map_option (\<lambda>_. safe_window_array
        (expected_windows f (sw \<noteq> None) (max_time_limit f now) a triggers)) sw"
  using compute_windows_runs [OF assms, of t0] arrays_of_shape by metis

text \<open>the windows that a search finds are in order and apart from one another, they are at
  least as long as the required duration and end within the limit of the search, and the criterion
  is true at their start and at every trigger before their end.\<close>

theorem windows_sound:
  assumes "searchable f triggers (Some []) None" "start_of_windows f now triggers = Some a"
    and "settled f False (max_time_limit f now) a triggers"
    and "criterion_is_satisfied_at_start f \<longrightarrow> holds f now"
  shows "\<exists>s' ws. compute_windows f now triggers (new_search (Some []) None t0) = (s', Inr True)
    \<and> theWindows s' = Some (flat ws) \<and> sorted_wrt (\<lambda>u v. snd u < fst v) ws
    \<and> (\<forall>(b, e)\<in>set ws. a \<le> b \<and> b < e \<and> requested_duration f \<le> e - b \<and> \<not> exceeds (max_time_limit f now) e
        \<and> holds f b \<and> (\<forall>u\<in>set triggers. b \<le> u \<and> u < e \<longrightarrow> holds f u))"
proof -
  let ?limit = "max_time_limit f now" and ?ts = "filter ((<) a) triggers"
  let ?xs = "cap (max_time_limit f now) (filter ((<) a) triggers)"
  let ?rs = "runs (holds f) (Some (a, a)) a ?xs"
  have srt: "sorted ?ts" "\<forall>t\<in>set ?ts. a \<le> t"
    using assms(1) by (auto simp: searchable_def sorted_filter [of "\<lambda>x. x", simplified])
  have inner: "\<not> exceeds ?limit a"
    using assms(3) exceeds_mono [of ?limit a] by (force simp: settled_def)
  note cap = cap_sound [OF inner srt]
  have ha: "holds f a"
  proof (cases "criterion_is_satisfied_at_start f")
    case True
    then show ?thesis using assms(2,4) by (simp add: start_of_windows_def)
  next
    case False
    then show ?thesis using assms(2) by (auto simp: start_of_windows_def find_Some_iff)
  qed
  have rs: "sorted_wrt apart ?rs" "\<forall>r\<in>set ?rs. run_ok (holds f) (Some (a, a)) a ({a} \<union> set ?xs) r"
    using runs_sound [of ?xs a "{a}" "Some (a, a)" "holds f"] cap ha by auto
  define ws where "ws = map (\<lambda>(b, e, l). (b, e)) (filter (kept f False) ?rs)"
  have ord: "sorted_wrt (\<lambda>u v. snd u < fst v) ws"
    using sorted_wrt_filter [OF rs(1), of "kept f False"]
    by (simp add: ws_def sorted_wrt_map apart_def [abs_def] case_prod_beta)
  have each: "a \<le> b \<and> b < e \<and> requested_duration f \<le> e - b \<and> \<not> exceeds ?limit e
      \<and> holds f b \<and> (\<forall>u\<in>set triggers. b \<le> u \<and> u < e \<longrightarrow> holds f u)" if be: "(b, e) \<in> set ws" for b e
  proof -
    obtain l where l: "(b, e, l) \<in> set ?rs" "kept f False (b, e, l)" using be by (auto simp: ws_def)
    have ok: "run_ok (holds f) (Some (a, a)) a ({a} \<union> set ?xs) (b, e, l)" using rs(2) l(1) by blast
    then have b: "a \<le> b" "holds f b" and e: "\<not> exceeds ?limit e"
      using cap inner by (auto simp: run_ok_def)
    have "holds f u" if u: "u \<in> set triggers" "b \<le> u" "u < e" for u
    proof (cases "a < u")
      case True
      have "\<not> exceeds ?limit u" using e u(3) by (blast intro: exceeds_mono less_imp_le)
      moreover have "u \<in> set ?ts" using True u(1) by simp
      ultimately have "u \<in> set ?xs" using cap by blast
      then show ?thesis using ok u by (auto simp: run_ok_def)
    next
      case False
      then have "u = b" using b(1) u(2) by simp
      then show ?thesis using b(2) by simp
    qed
    then show ?thesis using b e l(2) by (auto simp: kept_def)
  qed
  have "window_array (expected_windows f False ?limit a triggers) = flat ws"
    by (simp add: window_array_def expected_windows_def ws_def)
  then show ?thesis
    using compute_windows_runs [of f triggers "Some []" None now a t0] assms(1-3)
      arrays_of_shape(1) [of _ _ "Some []" None] ord each by fastforce
qed

text \<open>the first window is not cut off at the limit: a criterion that is true from 0 until the
  only triggers, at 100 and 200, is reported as a window from 0 to 100 by a search that is limited
  to a duration of 50.\<close>

theorem first_window_exceeds_limit:
  "theWindows (fst (compute_windows
     \<lparr>criterion = (\<lambda>t. Inr (if t < 100 then 1 else 0)), criterion_is_satisfied_at_start = True,
      we_need_to_wait = False, requested_duration = 10, max_duration = 50, max_duration_is_specified = True,
      wants_actual_duration = False\<rparr> 0 [100, 200] (new_search (Some []) None 0))) = Some [Some 0, Some 100]"
  by (simp add: compute_windows_def windows_from_start_def Let_def evaluate_criterion_def max_time_limit_def
      min_met_at_def new_search_def first_window_def we_need_to_check_windows_def add_window_def array_add_def
      remaining_windows_def exceeds_def reaches_def criterion_true_def criterion_false_def requirement_met_def
      last_window_def)

text \<open>an iterator over a history is placed at a node with the latest time that is not after
  the requested one, and nowhere exactly if all nodes are later.\<close>

theorem initializer_correct:
  assumes "sorted (map key (inorder root))"
  shows "case initializer key T root of
      None \<Rightarrow> \<forall>m\<in>set (inorder root). T < key m
    | Some n \<Rightarrow> n \<in> set (inorder root) \<and> key n \<le> T
        \<and> (\<forall>m\<in>set (inorder root). key m \<le> T \<longrightarrow> key m \<le> key n)"
proof -
  have same: "key (last_of_same_time key T n t) = T
      \<and> (last_of_same_time key T n t = n \<or> last_of_same_time key T n t \<in> set (inorder t))"
    if "key n = T" for n t
    using that
  proof (induction t arbitrary: n)
    case (Node l m i r)
    show ?case
    proof (cases "T = key m")
      case True
      have "key (last_of_same_time key T m r) = T
          \<and> (last_of_same_time key T m r = m \<or> last_of_same_time key T m r \<in> set (inorder r))"
        by (rule Node.IH(2)) (simp add: True)
      with True show ?thesis by (simp del: not_None_eq) blast
    qed (use Node.prems in simp)
  qed simp
  have "case initializer_loop key T t last of
      None \<Rightarrow> last = None \<and> (\<forall>m\<in>set (inorder t). T < key m)
    | Some n \<Rightarrow> (n \<in> set (inorder t) \<or> last = Some n) \<and> key n \<le> T
        \<and> (\<forall>m\<in>set (inorder t). key m \<le> T \<longrightarrow> key m \<le> key n)"
    if "sorted (map key (inorder t))"
      "\<forall>n. last = Some n \<longrightarrow> key n \<le> T \<and> (\<forall>m\<in>set (inorder t). key n \<le> key m)" for t last
    using that
  proof (induction t arbitrary: last)
    case Tip
    then show ?case by (auto split: option.splits)
  next
    case (Node l n i r)
    have srt: "sorted (map key (inorder l))" "sorted (map key (inorder r))"
      "\<forall>m\<in>set (inorder l). key m \<le> key n" "\<forall>m\<in>set (inorder r). key n \<le> key m"
      using Node.prems(1) by (auto simp: sorted_append)
    consider "T < key n" | "T = key n" | "key n < T" by linarith
    then show ?case
    proof cases
      case 1
      have "\<forall>n. last = Some n \<longrightarrow> key n \<le> T \<and> (\<forall>m\<in>set (inorder l). key n \<le> key m)"
        using Node.prems(2) by auto
      from Node.IH(1) [OF srt(1) this] 1 srt(4) show ?thesis
        by (auto split: option.splits)
    next
      case 2
      then show ?thesis using same [of n r] by auto
    next
      case 3
      have "\<forall>k. Some n = Some k \<longrightarrow> key k \<le> T \<and> (\<forall>m\<in>set (inorder r). key k \<le> key m)"
        using 3 srt(4) by auto
      from Node.IH(2) [OF srt(2) this] 3 srt(3,4) show ?thesis
        by (auto split: option.splits intro: order.trans [of _ "key n"])
    qed
  qed
  from this [OF assms, of None] show ?thesis by (auto simp: initializer_def split: option.splits)
qed

section \<open>Errors\<close>

definition only_eval_errors :: "'a result \<Rightarrow> bool" where
  "only_eval_errors r \<longleftrightarrow> (\<forall>e. r = Inl e \<longrightarrow> (\<exists>m. e = EvalError m))"

lemma only_eval_errors_simps [simp]:
  "only_eval_errors (Inr a)" "only_eval_errors (Inl e) \<longleftrightarrow> (\<exists>m. e = EvalError m)"
  by (auto simp: only_eval_errors_def)

definition criterion_errors :: "(int \<Rightarrow> int result) \<Rightarrow> bool" where
  "criterion_errors crit \<longleftrightarrow> (\<forall>t. only_eval_errors (crit t))"

lemma evaluate_criterion_errors:
  assumes "criterion_errors (criterion f)" "evaluate_criterion f s = (s', r)"
  shows "only_eval_errors r" "twiceTheNumberOfWindows s' = twiceTheNumberOfWindows s"
  using assms by (auto simp: evaluate_criterion_def criterion_errors_def only_eval_errors_def split: sum.splits)

lemma find_start_errors:
  "criterion_errors (criterion f) \<Longrightarrow> find_start f limit prev ts s = (s', r) \<Longrightarrow>
   only_eval_errors r \<and> twiceTheNumberOfWindows s' = twiceTheNumberOfWindows s"
proof (induction f limit prev ts s rule: find_start.induct)
  case (2 f limit prev t ts s)
  obtain s2 x where e: "evaluate_criterion f (s\<lparr>etime := t\<rparr>) = (s2, x)" by (cases "evaluate_criterion f (s\<lparr>etime := t\<rparr>)")
  note x = evaluate_criterion_errors [OF 2(3) e]
  show ?case using 2 e x
    by (auto simp: Let_def only_eval_errors_def split: if_splits sum.splits bool.splits)
qed auto

lemma extend_window_errors:
  "criterion_errors (criterion f) \<Longrightarrow> extend_window f limit m ts s = (s', r) \<Longrightarrow>
   only_eval_errors r \<and> twiceTheNumberOfWindows s' = twiceTheNumberOfWindows s"
proof (induction f limit m ts s rule: extend_window.induct)
  case (2 f limit m t ts s)
  obtain s2 x where e: "evaluate_criterion f (s\<lparr>etime := t\<rparr>) = (s2, x)" by (cases "evaluate_criterion f (s\<lparr>etime := t\<rparr>)")
  note x = evaluate_criterion_errors [OF 2(3) e]
  show ?case using 2 e x
    by (auto simp: Let_def only_eval_errors_def split: if_splits sum.splits)
qed auto

lemma more_windows_errors:
  "criterion_errors (criterion f) \<Longrightarrow> more_windows f limit ts s = (s', r) \<Longrightarrow> only_eval_errors r"
proof (induction f limit ts s rule: more_windows.induct)
  case (2 f limit t ts s)
  define c where "c = (if exceeds limit t then the limit else t)"
  obtain s2 x where e: "evaluate_criterion f (s\<lparr>etime := c\<rparr>) = (s2, x)" by (cases "evaluate_criterion f (s\<lparr>etime := c\<rparr>)")
  note x = evaluate_criterion_errors [OF 2(2) e]
  show ?case
  proof (cases x)
    case (Inl err)
    then show ?thesis using 2(3) e x(1) by (auto simp: c_def [symmetric])
  next
    case (Inr sat)
    show ?thesis using 2(3) 2(1) [OF c_def [unfolded c_def] e [unfolded c_def, symmetric] Inr refl] 2(2) e Inr
      by (auto simp: c_def [symmetric] Let_def split: if_splits)
  qed
qed auto

lemma windows_from_start_errors:
  assumes "criterion_errors (criterion f)" "twiceTheNumberOfWindows s = 0"
    and "windows_from_start f limit ts s = (s', r)"
  shows "only_eval_errors r"
proof -
  let ?s1 = "s\<lparr>latest_criterion_true_time := start_time_of_current_window s\<rparr>"
  obtain s2 x where e: "extend_window f limit (start_time_of_current_window s + requested_duration f) ts ?s1 = (s2, x)"
    by (cases "extend_window f limit (start_time_of_current_window s + requested_duration f) ts ?s1")
  have x: "only_eval_errors x" "twiceTheNumberOfWindows s2 = 0"
    using extend_window_errors [OF assms(1) e] assms(2) by simp_all
  have rem: "only_eval_errors r" if "remaining_windows f limit ts' s3 = (s', r)" for ts' s3
    using that more_windows_errors [OF assms(1), of limit ts' s3]
    by (auto simp: remaining_windows_def Let_def only_eval_errors_def split: if_splits prod.splits sum.splits)
  have "\<exists>s3. first_window s2 = Inr s3" using x(2) by (simp add: first_window_def Let_def)
  then show ?thesis using assms(3) e x rem
    by (auto simp: windows_from_start_def Let_def split: sum.splits stop.splits if_splits)
qed

lemma compute_windows_errors:
  assumes "criterion_errors (criterion f)" "compute_windows f now ts (new_search w sw t0) = (s', r)"
  shows "only_eval_errors r"
proof (cases "criterion_is_satisfied_at_start f")
  case True
  let ?s = "(new_search w sw t0)\<lparr>start_time_of_current_window := now, theCriterionIsTrueNow := True\<rparr>"
  have "windows_from_start f (max_time_limit f now) ts ?s = (s', r)"
    using True assms(2) by (simp add: compute_windows_def Let_def)
  moreover have "twiceTheNumberOfWindows ?s = 0" by (simp add: new_search_def)
  ultimately show ?thesis using windows_from_start_errors [OF assms(1)] by blast
next
  case False
  obtain s1 x where e: "find_start f (max_time_limit f now) now ts (new_search w sw t0) = (s1, x)"
    by (cases "find_start f (max_time_limit f now) now ts (new_search w sw t0)")
  have "only_eval_errors x" "twiceTheNumberOfWindows s1 = 0"
    using find_start_errors [OF assms(1) e] by (simp_all add: new_search_def)
  then show ?thesis
    using assms(2) e False windows_from_start_errors [OF assms(1)]
    by (auto simp: compute_windows_def Let_def split: sum.splits option.splits)
qed

text \<open>C36: \<open>get_windows\<close> leaves by evaluation errors only (its assertion never fails); when it
  returns, it restores the current time, its search did not start before the current time of an
  active model, and arrays were searched for only with a maximum duration.\<close>

theorem get_windows_outcome:
  assumes "criterion_errors crit"
  shows "case get_windows_of_opportunity crit triggers inactive act_start opts syms current_time of
      (t, Inl e) \<Rightarrow> (\<exists>m. e = EvalError m)
    | (t, Inr s) \<Rightarrow> t = current_time
        \<and> (inactive \<or> current_time \<le> (case start_option opts of Some u \<Rightarrow> u | None \<Rightarrow> act_start))
        \<and> (windows_symbol syms \<noteq> None \<or> safe_windows_symbol syms \<noteq> None \<longrightarrow> max_option opts \<noteq> None)"
proof -
  have err: "only_eval_errors r" if "compute_windows \<lparr>criterion = crit, criterion_is_satisfied_at_start = b,
      we_need_to_wait = False, requested_duration = d, max_duration = d', max_duration_is_specified = b',
      wants_actual_duration = b''\<rparr> now ts (new_search w sw t0) = (s, r)" for b d d' b' b'' now ts w sw t0 s r
    using compute_windows_errors [OF _ that] assms by simp
  have arr: "max_option opts \<noteq> None"
    if "get_search_parameters (max_option opts \<noteq> None) (windows_symbol syms) (safe_windows_symbol syms) = Inr x"
      "windows_symbol syms \<noteq> None \<or> safe_windows_symbol syms \<noteq> None" for x
    using that
    by (auto simp: get_search_parameters_def check_array_def bind_result_def
        split: option.splits symbol_value.splits sum.splits if_splits)
  define start where "start = (case start_option opts of Some u \<Rightarrow> u | None \<Rightarrow> act_start)"
  show ?thesis
  proof (cases "\<not> inactive \<and> start < current_time")
    case True
    then show ?thesis by (simp add: get_windows_of_opportunity_def Let_def start_def [symmetric])
  next
    case ok: False
    show ?thesis
    proof (cases "crit start")
      case (Inl e)
      then show ?thesis using ok by (auto simp: get_windows_of_opportunity_def Let_def start_def [symmetric])
    next
      case (Inr v)
      show ?thesis
      proof (cases "get_search_parameters (max_option opts \<noteq> None) (windows_symbol syms) (safe_windows_symbol syms)")
        case (Inl e)
        then show ?thesis using ok Inr
          by (simp add: get_windows_of_opportunity_def Let_def start_def [symmetric] del: not_None_eq)
      next
        case params: (Inr p)
        obtain w sw where p: "p = (w, sw)" by (cases p)
        let ?f = "\<lparr>criterion = crit, criterion_is_satisfied_at_start = (v > 0), we_need_to_wait = False,
          requested_duration = (case min_option opts of Some d \<Rightarrow> d | None \<Rightarrow> 1),
          max_duration = (case max_option opts of Some d \<Rightarrow> d | None \<Rightarrow> 1),
          max_duration_is_specified = (max_option opts \<noteq> None),
          wants_actual_duration = has_actual_symbol syms\<rparr>"
        obtain s r where cw: "compute_windows ?f start (triggers start) (new_search w sw current_time) = (s, r)"
          by (cases "compute_windows ?f start (triggers start) (new_search w sw current_time)")
        have step: "get_windows_of_opportunity crit triggers inactive act_start opts syms current_time =
          (case r of Inl (EvalError m) \<Rightarrow> (SafeTime s, Inl (EvalError ''get_windows: conducting the search''))
             | Inl e \<Rightarrow> (SafeTime s, Inl e) | Inr _ \<Rightarrow> (current_time, Inr s))"
          using ok Inr params cw unfolding p
          by (cases r) (auto simp: get_windows_of_opportunity_def Let_def start_def [symmetric] simp del: not_None_eq
              split: ap_error.split)
        show ?thesis unfolding step using err [OF cw] arr [OF params] ok
          by (cases r) (auto simp: start_def)
      qed
    qed
  qed
qed

section \<open>A search\<close>

text \<open>The criterion is true from 10 until 30 and from 50 on; the search is limited to 60 from 0 on.\<close>

definition example_criterion :: "int \<Rightarrow> int result" where
  "example_criterion t = Inr (if 10 \<le> t \<and> t < 30 \<or> 50 \<le> t then 1 else 0)"

definition example_finder :: window_finder where
  "example_finder =
     \<lparr>criterion = example_criterion, criterion_is_satisfied_at_start = False, we_need_to_wait = False,
      requested_duration = 5, max_duration = 60, max_duration_is_specified = True, wants_actual_duration = True\<rparr>"

definition example_triggers :: "int list" where
  "example_triggers = [0, 10, 10, 20, 30, 50, 70, 80]"

lemma example_searchable: "searchable example_finder example_triggers (Some []) None"
    "searchable example_finder example_triggers (Some []) (Some [])"
  by (simp_all add: searchable_def total_criterion_def example_finder_def example_criterion_def example_triggers_def)

lemma example_search_facts:
  "start_of_windows example_finder 0 example_triggers = Some 10"
  "settled example_finder True (max_time_limit example_finder 0) 10 example_triggers"
  "settled example_finder False (max_time_limit example_finder 0) 10 example_triggers"
  "expected_windows example_finder True (max_time_limit example_finder 0) 10 example_triggers = [(10, 30, 20), (50, 60, 60)]"
  by code_simp+

lemma window_search_correct_witness:
  "\<exists>s'. compute_windows example_finder 0 example_triggers (new_search (Some []) (Some []) 0) = (s', Inr True)
    \<and> theWindows s' = Some [Some 10, Some 30, Some 50, Some 60]
    \<and> theSafeWindows s' = Some [Some 10, Some 20, Some 50, Some 60]"
proof -
  have "window_array [(10, 30, 20), (50, 60, 60)] = [Some 10, Some 30, Some 50, Some 60]"
    "safe_window_array [(10, 30, 20), (50, 60, 60)] = [Some 10, Some 20, Some 50, Some 60]"
    by (simp_all add: window_array_def safe_window_array_def flat_def)
  then show ?thesis
    using window_search_correct [OF example_searchable(2) example_search_facts(1), of 0] example_search_facts(2,4)
    by (simp del: not_None_eq)
qed

lemma windows_sound_witness:
  "\<exists>s' ws. compute_windows example_finder 0 example_triggers (new_search (Some []) None 0) = (s', Inr True)
    \<and> theWindows s' = Some (flat ws) \<and> sorted_wrt (\<lambda>u v. snd u < fst v) ws
    \<and> list_all (\<lambda>(b, e). 10 \<le> b \<and> b + 5 \<le> e \<and> e \<le> 60 \<and> holds example_finder b) ws"
proof -
  have "criterion_is_satisfied_at_start example_finder \<longrightarrow> holds example_finder 0"
    by (simp add: example_finder_def)
  from windows_sound [OF example_searchable(1) example_search_facts(1,3) this, of 0]
  obtain s' ws where r: "compute_windows example_finder 0 example_triggers (new_search (Some []) None 0) = (s', Inr True)"
    "theWindows s' = Some (flat ws)" "sorted_wrt (\<lambda>u v. snd u < fst v) ws"
    "\<forall>(b, e)\<in>set ws. 10 \<le> b \<and> b < e \<and> requested_duration example_finder \<le> e - b
        \<and> \<not> exceeds (max_time_limit example_finder 0) e \<and> holds example_finder b" by fastforce
  then have "list_all (\<lambda>(b, e). 10 \<le> b \<and> b + 5 \<le> e \<and> e \<le> 60 \<and> holds example_finder b) ws"
    by (auto simp: list_all_iff example_finder_def exceeds_def max_time_limit_def)
  with r show ?thesis by blast
qed

definition example_history :: "int btree" where
  "example_history = Node (Node Tip 2 BALANCED Tip) 5 BALANCED (Node Tip 9 BALANCED Tip)"

lemma initializer_witness:
  "initializer (\<lambda>n. n) 7 example_history = Some 5
   \<and> filter (\<lambda>m. 5 < m \<and> m \<le> 7) (inorder example_history) = []"
proof -
  have "initializer (\<lambda>n. n) 7 example_history = Some 5" by (simp add: example_history_def initializer_def)
  with initializer_correct [of "\<lambda>n. n" example_history 7] show ?thesis
    by (simp add: example_history_def)
qed

definition example_options :: get_windows_options where
  "example_options = \<lparr>start_option = None, min_option = Some 5, max_option = Some 60\<rparr>"

definition example_symbols :: window_symbols where
  "example_symbols = \<lparr>windows_symbol = Some (ArrayValue []), safe_windows_symbol = None, has_actual_symbol = True\<rparr>"

lemma get_windows_outcome_witness:
  "is_ok (snd (get_windows_of_opportunity example_criterion (\<lambda>t. example_triggers) False 0 example_options example_symbols 0))
   \<and> fst (get_windows_of_opportunity example_criterion (\<lambda>t. example_triggers) False 0 example_options example_symbols 0) = 0"
proof -
  let ?r = "get_windows_of_opportunity example_criterion (\<lambda>t. example_triggers) False 0 example_options example_symbols 0"
  have ok: "is_ok (snd ?r)" by code_simp
  have "criterion_errors example_criterion"
    by (simp add: criterion_errors_def only_eval_errors_def example_criterion_def)
  from get_windows_outcome [OF this, where triggers = "\<lambda>t. example_triggers" and inactive = False and act_start = 0
      and opts = example_options and syms = example_symbols and current_time = 0] ok
  show ?thesis by (cases ?r) (auto simp: is_ok_iff split: sum.splits)
qed

end
