(* ===== verification/Miterator.thy ===== *)
theory Miterator
  imports ApPrelude
begin

text \<open>
  The multi-list iterator of \<open>src/src/apgenlib/multitemplate.H\<close> (class \<open>Miterator\<close>) together with
  the time-ordered lists it follows (\<open>templates.H\<close>, \<open>slist.H\<close>, \<open>multilist.H\<close>) and the key of
  its threads (\<open>relptr\<close> of \<open>timeptr.H\<close>). A node is identified by \<open>event_id\<close>, a list and its
  thread by the address that \<open>pointers_to_threads\<close> uses as key. A \<open>tlist\<close> constructed with
  \<open>synchronize_orders\<close> is represented by its linked list; its balanced tree serves the search
  for the insertion point only.
\<close>

section \<open>Nodes and time-ordered lists\<close>

record 'p tnode =
  etime :: int
  secondaryKey :: nat
  event_id :: nat
  payload :: 'p

record 'p tlist =
  node_list :: "'p tnode list"
  ambiguityCount :: nat

definition alpha_time_compare_to :: "'p tnode \<Rightarrow> 'p tnode \<Rightarrow> bool \<Rightarrow> int" where
  "alpha_time_compare_to a b ignoreSecKey =
     (if etime a > etime b then 1
      else if etime a = etime b then
        (if ignoreSecKey then 0
         else if secondaryKey a > secondaryKey b then 1
         else if secondaryKey a < secondaryKey b then -1
         else 0)
      else -1)"

text \<open>
  \<open>tlist::insert_node\<close>: the secondary key is reset; when the search meets a node with the same
  time the new node is disambiguated with the next value of \<open>ambiguityCount\<close>, so that it ends
  up behind all nodes with that time. Returns the node as it is in the list, and the list.
\<close>

definition tlist_insert_node :: "'p tnode \<Rightarrow> 'p tlist \<Rightarrow> 'p tnode \<times> 'p tlist" where
  "tlist_insert_node new L =
     (let clash = (\<exists>m\<in>set (node_list L). alpha_time_compare_to new m True = 0);
          count = (if clash then ambiguityCount L + 1 else ambiguityCount L);
          n = new\<lparr>secondaryKey := (if clash then count else 0)\<rparr>;
          before = takeWhile (\<lambda>m. alpha_time_compare_to new m True \<ge> 0) (node_list L);
          after = dropWhile (\<lambda>m. alpha_time_compare_to new m True \<ge> 0) (node_list L)
      in (n, L\<lparr>node_list := before @ n # after, ambiguityCount := count\<rparr>))"

definition slist_remove_node :: "'p tnode \<Rightarrow> 'p tlist \<Rightarrow> 'p tlist" where
  "slist_remove_node n L =
     L\<lparr>node_list := filter (\<lambda>m. event_id m \<noteq> event_id n) (node_list L)\<rparr>"

fun next_node :: "'p tnode \<Rightarrow> 'p tnode list \<Rightarrow> 'p tnode option" where
  "next_node n [] = None"
| "next_node n (a # xs) = (if event_id a = event_id n then hd_opt xs else next_node n xs)"

fun previous_node :: "'p tnode \<Rightarrow> 'p tnode list \<Rightarrow> 'p tnode option" where
  "previous_node n [] = None"
| "previous_node n [a] = None"
| "previous_node n (a # b # xs) =
     (if event_id b = event_id n then Some a else previous_node n (b # xs))"

section \<open>Threads\<close>

record 'p thread =
  thread_list :: "'p tlist"
  iterNode :: "'p tnode option"
  priority :: nat
  thread_name :: string

abbreviation nodes :: "'p thread \<Rightarrow> 'p tnode list" where
  "nodes th \<equiv> node_list (thread_list th)"

definition go_to_beginning :: "'p thread \<Rightarrow> 'p thread" where
  "go_to_beginning th = th\<lparr>iterNode := hd_opt (nodes th)\<rparr>"

definition iterator_next :: "'p thread \<Rightarrow> 'p thread" where
  "iterator_next th =
     (case iterNode th of
        Some n \<Rightarrow> th\<lparr>iterNode := next_node n (nodes th)\<rparr>
      | None \<Rightarrow> go_to_beginning th)"

text \<open>
  \<open>relptr::relTime\<close>. For two iterators over one list the code compares the key of the second
  node with itself, so that the result is never \<open>-1\<close> when both have a node.
\<close>

definition relTime :: "bool \<Rightarrow> 'p tnode option \<Rightarrow> 'p tnode option \<Rightarrow> int" where
  "relTime same_list t1 t2 =
     (case t1 of
        Some a \<Rightarrow>
          (case t2 of
             Some b \<Rightarrow>
               (if same_list then
                  (if alpha_time_compare_to a b False > 0 then 1
                   else if alpha_time_compare_to b b False = 0 then 0 else -1)
                else
                  (if etime a > etime b then 1 else if etime a = etime b then 0 else -1))
           | None \<Rightarrow> -1)
      | None \<Rightarrow> (case t2 of Some b \<Rightarrow> 1 | None \<Rightarrow> 0))"

definition relptr_compare_to :: "bool \<Rightarrow> 'p thread \<Rightarrow> 'p thread \<Rightarrow> int" where
  "relptr_compare_to same_list th1 th2 =
     (let f = relTime same_list (iterNode th1) (iterNode th2) in
      if f = 0 then
        (if priority th1 = priority th2 then 0
         else if priority th1 > priority th2 then 1 else -1)
      else f)"

section \<open>The iterator\<close>

record 'p miterator =
  threads :: "nat \<Rightarrow> 'p thread option"
  pointers_to_threads :: "nat list"
  active_threads :: "nat list"
  dead_threads :: "nat list"

definition empty_miterator :: "'p miterator" where
  "empty_miterator = \<lparr>threads = (\<lambda>_. None), pointers_to_threads = [], active_threads = [],
     dead_threads = []\<rparr>"

definition set_thread :: "nat \<Rightarrow> 'p thread \<Rightarrow> 'p miterator \<Rightarrow> 'p miterator" where
  "set_thread t th M = M\<lparr>threads := (threads M)(t \<mapsto> th)\<rparr>"

definition compare_threads :: "'p miterator \<Rightarrow> nat \<Rightarrow> nat \<Rightarrow> int" where
  "compare_threads M t u =
     (case (threads M t, threads M u) of
        (Some a, Some b) \<Rightarrow> relptr_compare_to (t = u) a b
      | _ \<Rightarrow> 0)"

definition push_active :: "nat \<Rightarrow> 'p miterator \<Rightarrow> 'p miterator" where
  "push_active t M = M\<lparr>active_threads :=
     takeWhile (\<lambda>u. compare_threads M t u \<ge> 0) (active_threads M)
       @ t # dropWhile (\<lambda>u. compare_threads M t u \<ge> 0) (active_threads M)\<rparr>"

definition push_dead :: "nat \<Rightarrow> 'p miterator \<Rightarrow> 'p miterator" where
  "push_dead t M = M\<lparr>dead_threads := dead_threads M @ [t]\<rparr>"

definition drop_active :: "nat \<Rightarrow> 'p miterator \<Rightarrow> 'p miterator" where
  "drop_active t M = M\<lparr>active_threads := filter (\<lambda>u. u \<noteq> t) (active_threads M)\<rparr>"

definition drop_dead :: "nat \<Rightarrow> 'p miterator \<Rightarrow> 'p miterator" where
  "drop_dead t M = M\<lparr>dead_threads := filter (\<lambda>u. u \<noteq> t) (dead_threads M)\<rparr>"

text \<open>The thread goes to the active or to the dead threads, as its iterator has a node or not.\<close>

definition place :: "nat \<Rightarrow> 'p thread \<Rightarrow> 'p miterator \<Rightarrow> 'p miterator" where
  "place t th M =
     (let M' = set_thread t th M in
      if iterNode th = None then push_dead t M' else push_active t M')"

definition miter_peek :: "'p miterator \<Rightarrow> 'p tnode option" where
  "miter_peek M =
     (case active_threads M of
        [] \<Rightarrow> None
      | t # _ \<Rightarrow> (case threads M t of None \<Rightarrow> None | Some th \<Rightarrow> iterNode th))"

definition restart_thread :: "nat \<Rightarrow> 'p miterator \<Rightarrow> 'p miterator" where
  "restart_thread t M =
     (case threads M t of None \<Rightarrow> M | Some th \<Rightarrow> place t (go_to_beginning th) M)"

definition miter_first :: "'p miterator \<Rightarrow> 'p miterator" where
  "miter_first M = fold restart_thread (pointers_to_threads M)
     (M\<lparr>active_threads := [], dead_threads := []\<rparr>)"

definition miter_next :: "'p miterator \<Rightarrow> 'p tnode option \<times> 'p miterator" where
  "miter_next M =
     (case active_threads M of
        [] \<Rightarrow> (None, miter_first M)
      | t # _ \<Rightarrow>
          (case threads M t of
             None \<Rightarrow> (None, M)
           | Some th \<Rightarrow> (iterNode th, place t (iterator_next th) (drop_active t M))))"

text \<open>
  \<open>add_thread\<close> only registers the list: its thread is put among the active or the dead threads
  by the next \<open>first()\<close> (or by the first addition to its list).
\<close>

definition add_thread :: "nat \<Rightarrow> 'p tlist \<Rightarrow> string \<Rightarrow> nat \<Rightarrow> 'p miterator \<Rightarrow> 'p miterator result" where
  "add_thread t L name prio M =
     (if threads M t \<noteq> None then Inl (EvalError ''tlist::insert_binary_node'')
      else Inr (set_thread t
             (go_to_beginning \<lparr>thread_list = L, iterNode = None, priority = prio, thread_name = name\<rparr>)
             (M\<lparr>pointers_to_threads := pointers_to_threads M @ [t]\<rparr>)))"

definition remove_thread :: "nat \<Rightarrow> 'p miterator \<Rightarrow> 'p miterator result" where
  "remove_thread t M =
     (if threads M t = None then Inl AssertFailed
      else Inr (drop_active t (drop_dead t (M\<lparr>threads := (threads M)(t := None),
             pointers_to_threads := filter (\<lambda>u. u \<noteq> t) (pointers_to_threads M)\<rparr>))))"

text \<open>
  \<open>handle_addition\<close> is called with the node already in its list. Where it throws, the node stays
  in the list and the iterator is unchanged.
\<close>

definition handle_addition :: "nat \<Rightarrow> 'p tnode \<Rightarrow> 'p miterator \<Rightarrow> 'p miterator result" where
  "handle_addition t node_to_adopt M =
     (case threads M t of
        None \<Rightarrow> Inl AssertFailed
      | Some th \<Rightarrow>
          if t \<in> set (active_threads M) then
            (case iterNode th of
               None \<Rightarrow> Inl NullAccess
             | Some current \<Rightarrow>
                 (let compresult = alpha_time_compare_to node_to_adopt current False in
                  if compresult < 0 then
                    (case previous_node current (nodes th) of
                       Some one_before \<Rightarrow>
                         if etime node_to_adopt < etime one_before
                         then Inl (EvalError ''handle_addition: earlier than the node before'')
                         else Inr (push_active t (set_thread t (th\<lparr>iterNode := Some node_to_adopt\<rparr>)
                                (drop_active t M)))
                     | None \<Rightarrow> Inr (push_active t (set_thread t (th\<lparr>iterNode := Some node_to_adopt\<rparr>)
                                (drop_active t M))))
                  else if compresult = 0 then Inl (EvalError ''handle_addition: identical'')
                  else Inr M))
          else if t \<in> set (dead_threads M) then
            Inr (push_active t (set_thread t (th\<lparr>iterNode := Some node_to_adopt\<rparr>) (drop_dead t M)))
          else Inr (place t (go_to_beginning th) M))"

definition handle_removal :: "nat \<Rightarrow> 'p tnode \<Rightarrow> 'p miterator \<Rightarrow> 'p miterator result" where
  "handle_removal t theNode M =
     (case threads M t of
        None \<Rightarrow> Inl AssertFailed
      | Some th \<Rightarrow>
          if t \<in> set (active_threads M)
            \<and> (case iterNode th of None \<Rightarrow> False | Some n \<Rightarrow> event_id n = event_id theNode)
          then Inr (place t (iterator_next th) (drop_active t M))
          else Inr M)"

text \<open>
  A \<open>multilist\<close> tells the iterator of a new node after it is linked, and of the removal of a node
  before it is unlinked.
\<close>

definition multilist_insert :: "nat \<Rightarrow> 'p tnode \<Rightarrow> 'p miterator \<Rightarrow> 'p miterator \<times> unit result" where
  "multilist_insert t new M =
     (case threads M t of
        None \<Rightarrow> (M, Inl NullAccess)
      | Some th \<Rightarrow>
          (let (n, L) = tlist_insert_node new (thread_list th);
               M' = set_thread t (th\<lparr>thread_list := L\<rparr>) M
           in case handle_addition t n M' of
                Inl e \<Rightarrow> (M', Inl e)
              | Inr M'' \<Rightarrow> (M'', Inr ())))"

definition multilist_remove :: "nat \<Rightarrow> 'p tnode \<Rightarrow> 'p miterator \<Rightarrow> 'p miterator result" where
  "multilist_remove t n M =
     bind_result (handle_removal t n M) (\<lambda>M'.
       (case threads M' t of
          None \<Rightarrow> Inl NullAccess
        | Some th \<Rightarrow> Inr (set_thread t (th\<lparr>thread_list := slist_remove_node n (thread_list th)\<rparr>) M')))"

end
