(* ===== verification/MiteratorInvariant.thy ===== *)
theory MiteratorInvariant
  imports Miterator
begin

text \<open>
  The invariant of the multi-list iterator, the set of nodes that it has still to return, and
  the effect of every operation on both.
\<close>

section \<open>Sorted insertion\<close>

lemma sorted_wrt_insert_split:
  assumes sorted: "sorted_wrt R xs" and "transp R" and total: "\<And>y. y \<in> set xs \<Longrightarrow> R y x \<or> R x y"
  shows "sorted_wrt R (takeWhile (\<lambda>y. R y x) xs @ x # dropWhile (\<lambda>y. R y x) xs)"
proof -
  let ?l = "takeWhile (\<lambda>y. R y x) xs" and ?r = "dropWhile (\<lambda>y. R y x) xs"
  have split: "?l @ ?r = xs" by simp
  have l: "\<forall>a\<in>set ?l. R a x" by (meson set_takeWhileD)
  have sl: "sorted_wrt R ?l" "sorted_wrt R ?r" "\<forall>a\<in>set ?l. \<forall>b\<in>set ?r. R a b"
    using sorted unfolding sorted_wrt_append[of R ?l ?r, unfolded split] by auto
  have r: "\<forall>b\<in>set ?r. R x b"
  proof (cases ?r)
    case Nil
    then show ?thesis unfolding Nil by simp
  next
    case (Cons c cs)
    have "\<not> R c x" using hd_dropWhile[of "\<lambda>y. R y x" xs] Cons by auto
    moreover have "c \<in> set xs" using Cons by (metis list.set_intros(1) set_dropWhileD)
    ultimately have "R x c" using total by blast
    then show ?thesis using sl(2) \<open>transp R\<close> unfolding Cons by (auto dest: transpD)
  qed
  show ?thesis
    by (rule sorted_wrt_append_Cons[THEN iffD2], intro conjI) (rule sl l r)+
qed

lemma split_insert:
  assumes "xs = ys @ zs"
  shows "set (ys @ x # zs) = insert x (set xs)"
    and "distinct (ys @ x # zs) \<longleftrightarrow> x \<notin> set xs \<and> distinct xs"
  using assms by auto

lemmas takeWhile_insert =
  split_insert[OF takeWhile_dropWhile_id[symmetric]]

lemma not_in_imageD: "x \<notin> f ` A \<Longrightarrow> \<forall>m\<in>A. f m \<noteq> x"
  by blast

section \<open>Lists of nodes\<close>

definition node_less :: "'p tnode \<Rightarrow> 'p tnode \<Rightarrow> bool" where
  "node_less a b \<longleftrightarrow> alpha_time_compare_to a b False < 0"

lemma node_less_iff:
  "node_less a b \<longleftrightarrow> etime a < etime b \<or> etime a = etime b \<and> secondaryKey a < secondaryKey b"
  by (auto simp: node_less_def alpha_time_compare_to_def)

definition list_ok :: "'p tlist \<Rightarrow> bool" where
  "list_ok L \<longleftrightarrow> sorted_wrt node_less (node_list L) \<and> distinct (map event_id (node_list L))
     \<and> (\<forall>n\<in>set (node_list L). secondaryKey n \<le> ambiguityCount L)"

lemma node_split:
  assumes "n \<in> set xs" and "distinct (map event_id xs)"
  obtains ys zs where "xs = ys @ n # zs" and "\<forall>m\<in>set ys. event_id m \<noteq> event_id n"
    and "\<forall>m\<in>set zs. event_id m \<noteq> event_id n"
proof -
  obtain ys zs where x: "xs = ys @ n # zs" using assms(1) by (meson split_list)
  have "event_id n \<notin> event_id ` set ys" "event_id n \<notin> event_id ` set zs"
    using assms(2) unfolding x by auto
  then have "\<forall>m\<in>set ys. event_id m \<noteq> event_id n" "\<forall>m\<in>set zs. event_id m \<noteq> event_id n"
    by (auto dest: not_in_imageD)
  with x show ?thesis by (rule that)
qed

lemma next_node_split:
  "\<forall>m\<in>set ys. event_id m \<noteq> event_id n \<Longrightarrow> next_node n (ys @ n # zs) = hd_opt zs"
  by (induction ys) auto

lemma previous_node_None:
  "\<forall>m\<in>set xs. event_id m \<noteq> event_id n \<Longrightarrow> previous_node n (a # xs) = None"
  by (induction xs arbitrary: a) auto

lemma previous_node_split:
  assumes "\<forall>m\<in>set ys. event_id m \<noteq> event_id n" and "\<forall>m\<in>set zs. event_id m \<noteq> event_id n"
  shows "previous_node n (ys @ n # zs) = last_opt ys"
  using assms
proof (induction ys)
  case Nil
  then show ?case by (simp add: previous_node_None)
next
  case (Cons a ys)
  then show ?case by (cases ys) (auto split: option.splits)
qed

lemma sorted_list_okD:
  assumes "list_ok L" and "node_list L = ys @ zs"
  shows "a \<in> set ys \<Longrightarrow> b \<in> set zs \<Longrightarrow> node_less a b"
  using assms by (auto simp: list_ok_def sorted_wrt_append)

definition before_new :: "int \<Rightarrow> 'p tnode list \<Rightarrow> 'p tnode list" where
  "before_new T xs = takeWhile (\<lambda>m. etime m \<le> T) xs"

definition after_new :: "int \<Rightarrow> 'p tnode list \<Rightarrow> 'p tnode list" where
  "after_new T xs = dropWhile (\<lambda>m. etime m \<le> T) xs"

lemma before_after_new: "before_new T xs @ after_new T xs = xs"
  by (simp add: before_new_def after_new_def)

lemma before_new_le: "m \<in> set (before_new T xs) \<Longrightarrow> etime m \<le> T"
  by (auto simp: before_new_def dest: set_takeWhileD)

lemma after_new_gt:
  assumes "list_ok L" and "m \<in> set (after_new T (node_list L))"
  shows "T < etime m"
proof -
  let ?xs = "node_list L"
  have "sorted_wrt node_less (before_new T ?xs @ after_new T ?xs)"
    using assms(1) by (simp add: list_ok_def before_after_new)
  then have sw: "sorted_wrt node_less (after_new T ?xs)" by (simp add: sorted_wrt_append)
  obtain c cs where c: "after_new T ?xs = c # cs" using assms(2) by (cases "after_new T ?xs") auto
  have "T < etime c"
    using hd_dropWhile[of "\<lambda>m. etime m \<le> T" ?xs] c unfolding after_new_def by auto
  then show ?thesis using sw assms(2) unfolding c by (auto simp: node_less_iff)
qed

lemma tlist_insert_node_eq:
  "tlist_insert_node new L =
     (let clash = (\<exists>m\<in>set (node_list L). etime m = etime new);
          count = (if clash then ambiguityCount L + 1 else ambiguityCount L);
          n = new\<lparr>secondaryKey := (if clash then count else 0)\<rparr>
      in (n, L\<lparr>node_list := before_new (etime new) (node_list L) @ n # after_new (etime new) (node_list L),
           ambiguityCount := count\<rparr>))"
proof -
  have ge: "(0 \<le> alpha_time_compare_to new m True) = (etime m \<le> etime new)" for m
    by (auto simp: alpha_time_compare_to_def)
  have eq: "(alpha_time_compare_to new m True = 0) = (etime m = etime new)" for m
    by (auto simp: alpha_time_compare_to_def)
  show ?thesis
    by (simp only: tlist_insert_node_def Let_def ge eq before_new_def after_new_def)
qed

lemma tlist_insert_node_ok:
  assumes ok: "list_ok L" and fresh: "event_id new \<notin> event_id ` set (node_list L)"
    and ins: "tlist_insert_node new L = (n, L')"
  shows "list_ok L'" and "event_id n = event_id new" and "etime n = etime new"
    and "payload n = payload new"
    and "node_list L' = before_new (etime new) (node_list L) @ n # after_new (etime new) (node_list L)"
    and "a \<in> set (before_new (etime new) (node_list L)) \<Longrightarrow> node_less a n"
    and "b \<in> set (after_new (etime new) (node_list L)) \<Longrightarrow> node_less n b"
proof -
  let ?xs = "node_list L" and ?T = "etime new"
  let ?l = "before_new ?T ?xs" and ?r = "after_new ?T ?xs"
  let ?clash = "\<exists>m\<in>set ?xs. etime m = ?T"
  have n: "n = new\<lparr>secondaryKey := (if ?clash then ambiguityCount L + 1 else 0)\<rparr>"
    and L': "L' = L\<lparr>node_list := ?l @ n # ?r,
        ambiguityCount := (if ?clash then ambiguityCount L + 1 else ambiguityCount L)\<rparr>"
    using ins by (auto simp: tlist_insert_node_eq Let_def)
  show nid: "event_id n = event_id new" and nt: "etime n = etime new" and "payload n = payload new"
    using n by simp_all
  show nl: "node_list L' = ?l @ n # ?r" using L' by simp
  have sub: "set ?l \<subseteq> set ?xs" "set ?r \<subseteq> set ?xs"
    by (metis before_after_new set_append Un_upper1 Un_upper2)+
  have sec: "\<forall>m\<in>set ?xs. secondaryKey m \<le> ambiguityCount L" using ok by (simp add: list_ok_def)
  have lt: "node_less a n" if "a \<in> set ?l" for a
  proof -
    have "etime a \<le> ?T" "a \<in> set ?xs" using that sub before_new_le by auto
    then show ?thesis using sec n nt by (auto simp: node_less_iff le_imp_less_Suc)
  qed
  have gt: "node_less n b" if "b \<in> set ?r" for b
    using after_new_gt[OF ok that] nt by (simp add: node_less_iff)
  have sw: "sorted_wrt node_less (?l @ ?r)" and di: "distinct (map event_id (?l @ ?r))"
    using ok by (simp_all add: list_ok_def before_after_new)
  have "sorted_wrt node_less (?l @ n # ?r)"
    using sw lt gt by (auto simp: sorted_wrt_append)
  moreover have "distinct (map event_id (?l @ n # ?r))"
    using di fresh nid sub by auto
  moreover have "\<forall>m\<in>set (?l @ n # ?r). secondaryKey m \<le> ambiguityCount L'"
    using sec n L' sub by (auto simp: le_SucI subset_iff)
  ultimately show "list_ok L'" using nl by (simp add: list_ok_def)
  show "a \<in> set ?l \<Longrightarrow> node_less a n" "b \<in> set ?r \<Longrightarrow> node_less n b"
    using lt gt by blast+
qed

lemma slist_remove_node_ok: "list_ok L \<Longrightarrow> list_ok (slist_remove_node n L)"
  by (auto simp: list_ok_def slist_remove_node_def sorted_wrt_filter distinct_map_filter)

section \<open>Threads\<close>

text \<open>The nodes that the iterator of a thread has passed, and those that it has still to return.\<close>

definition behind :: "'p thread \<Rightarrow> 'p tnode list" where
  "behind th = (case iterNode th of
     None \<Rightarrow> nodes th | Some n \<Rightarrow> takeWhile (\<lambda>m. event_id m \<noteq> event_id n) (nodes th))"

definition ahead :: "'p thread \<Rightarrow> 'p tnode list" where
  "ahead th = (case iterNode th of
     None \<Rightarrow> [] | Some n \<Rightarrow> dropWhile (\<lambda>m. event_id m \<noteq> event_id n) (nodes th))"

definition thread_ok :: "'p thread \<Rightarrow> bool" where
  "thread_ok th \<longleftrightarrow> list_ok (thread_list th)
     \<and> (case iterNode th of None \<Rightarrow> True | Some n \<Rightarrow> n \<in> set (nodes th))"

lemma thread_okE:
  assumes "thread_ok th"
  shows "nodes th = behind th @ ahead th" and "iterNode th = hd_opt (ahead th)"
    and "distinct (map event_id (behind th @ ahead th))" and "list_ok (thread_list th)"
proof -
  show ok: "list_ok (thread_list th)" using assms by (simp add: thread_ok_def)
  show sp: "nodes th = behind th @ ahead th"
    by (auto simp: behind_def ahead_def split: option.split)
  show "distinct (map event_id (behind th @ ahead th))"
    using ok unfolding list_ok_def sp by simp
  show "iterNode th = hd_opt (ahead th)"
  proof (cases "iterNode th")
    case (Some n)
    then have "n \<in> set (nodes th)" using assms by (simp add: thread_ok_def)
    moreover have "distinct (map event_id (nodes th))" using ok by (simp add: list_ok_def)
    ultimately obtain ys zs where "nodes th = ys @ n # zs" "\<forall>m\<in>set ys. event_id m \<noteq> event_id n"
      by (rule node_split)
    then show ?thesis using Some by (simp add: ahead_def dropWhile_append)
  qed (simp add: ahead_def)
qed

lemma thread_okI:
  assumes "list_ok (thread_list th)" and "nodes th = ys @ zs" and "iterNode th = hd_opt zs"
  shows "thread_ok th" and "behind th = ys" and "ahead th = zs"
proof -
  have d: "distinct (map event_id (ys @ zs))" using assms by (simp add: list_ok_def)
  show "thread_ok th" using assms by (cases zs) (auto simp: thread_ok_def)
  have "behind th = ys \<and> ahead th = zs"
  proof (cases zs)
    case Nil
    then show ?thesis using assms by (simp add: behind_def ahead_def)
  next
    case (Cons n zs')
    have "event_id n \<notin> event_id ` set ys" using d unfolding Cons by auto
    then have "\<forall>m\<in>set ys. event_id m \<noteq> event_id n" by (rule not_in_imageD)
    then have "takeWhile (\<lambda>m. event_id m \<noteq> event_id n) (ys @ n # zs') = ys"
      "dropWhile (\<lambda>m. event_id m \<noteq> event_id n) (ys @ n # zs') = n # zs'"
      by (simp_all add: takeWhile_append dropWhile_append)
    moreover have "iterNode th = Some n" using assms(3) Cons by simp
    ultimately show ?thesis using assms(2) by (simp add: behind_def ahead_def Cons)
  qed
  then show "behind th = ys" "ahead th = zs" by simp_all
qed

lemma go_to_beginning_ok:
  assumes "thread_ok th"
  shows "thread_ok (go_to_beginning th)" and "ahead (go_to_beginning th) = nodes th"
  using thread_okI[of "go_to_beginning th" "[]" "nodes th"] thread_okE[OF assms]
  by (simp_all add: go_to_beginning_def)

lemma iterator_next_ok:
  assumes ok: "thread_ok th" and a: "ahead th = n # zs"
  shows "thread_ok (iterator_next th)" and "ahead (iterator_next th) = zs"
    and "behind (iterator_next th) = behind th @ [n]"
proof -
  note e = thread_okE[OF ok]
  have "event_id n \<notin> event_id ` set (behind th)" using e(3) unfolding a by auto
  then have "\<forall>m\<in>set (behind th). event_id m \<noteq> event_id n" by (rule not_in_imageD)
  then have "next_node n (behind th @ n # zs) = hd_opt zs" by (rule next_node_split)
  then have i: "iterNode (iterator_next th) = hd_opt zs"
    using e(1,2) a by (simp add: iterator_next_def)
  have l: "thread_list (iterator_next th) = thread_list th"
    using e(2) a by (simp add: iterator_next_def)
  have "nodes (iterator_next th) = (behind th @ [n]) @ zs" using e(1) l a by simp
  from thread_okI[OF _ this i] show "thread_ok (iterator_next th)" "ahead (iterator_next th) = zs"
    "behind (iterator_next th) = behind th @ [n]" using e(4) l by simp_all
qed

lemma iterator_next_fields [simp]:
  "priority (iterator_next th) = priority th" "priority (go_to_beginning th) = priority th"
  by (simp_all add: iterator_next_def go_to_beginning_def split: option.split)

section \<open>The invariant of the iterator\<close>

definition runs :: "'p miterator \<Rightarrow> nat \<Rightarrow> bool" where
  "runs M t \<longleftrightarrow> (\<exists>th n. threads M t = Some th \<and> iterNode th = Some n)"

definition mkey :: "'p miterator \<Rightarrow> nat \<Rightarrow> int \<times> nat" where
  "mkey M t = (case threads M t of
     None \<Rightarrow> (0, 0)
   | Some th \<Rightarrow> (case iterNode th of None \<Rightarrow> (0, 0) | Some n \<Rightarrow> (etime n, priority th)))"

definition key_le :: "int \<times> nat \<Rightarrow> int \<times> nat \<Rightarrow> bool" where
  "key_le p q \<longleftrightarrow> fst p < fst q \<or> fst p = fst q \<and> snd p \<le> snd q"

definition before_thread :: "'p miterator \<Rightarrow> nat \<Rightarrow> nat \<Rightarrow> bool" where
  "before_thread M t u \<longleftrightarrow> key_le (mkey M t) (mkey M u)"

definition miter_ok :: "'p miterator \<Rightarrow> bool" where
  "miter_ok M \<longleftrightarrow>
     (\<forall>t th. threads M t = Some th \<longrightarrow> thread_ok th)
     \<and> distinct (active_threads M) \<and> distinct (dead_threads M)
     \<and> set (active_threads M) \<inter> set (dead_threads M) = {}
     \<and> set (dead_threads M) \<subseteq> dom (threads M)
     \<and> (\<forall>t\<in>set (active_threads M). runs M t)
     \<and> (\<forall>t\<in>set (dead_threads M). \<not> runs M t)
     \<and> sorted_wrt (before_thread M) (active_threads M)
     \<and> distinct (pointers_to_threads M) \<and> set (pointers_to_threads M) = dom (threads M)"

text \<open>After \<open>first()\<close> every thread is active or dead.\<close>

definition started :: "'p miterator \<Rightarrow> bool" where
  "started M \<longleftrightarrow> miter_ok M \<and>
     set (active_threads M) \<union> set (dead_threads M) = dom (threads M)"

text \<open>The nodes that the iterator has still to return, with the list they are in.\<close>

definition pending :: "'p miterator \<Rightarrow> (nat \<times> 'p tnode) set" where
  "pending M = {(t, n). \<exists>th. threads M t = Some th \<and> n \<in> set (ahead th)}"

lemma transp_before_thread [simp]: "transp (before_thread M)"
  by (rule transpI) (auto simp: before_thread_def key_le_def)

lemma total_before_thread: "before_thread M t u \<or> before_thread M u t"
  by (auto simp: before_thread_def key_le_def)

lemma compare_before:
  assumes "runs M t" and "runs M u" and "t \<noteq> u"
  shows "compare_threads M t u \<ge> 0 \<longleftrightarrow> before_thread M u t"
  using assms
  by (auto simp: runs_def compare_threads_def before_thread_def mkey_def key_le_def
      relptr_compare_to_def relTime_def Let_def split: if_splits)

lemma miter_okD:
  assumes "miter_ok M"
  shows "threads M t = Some th \<Longrightarrow> thread_ok th"
    and "distinct (active_threads M)" and "distinct (dead_threads M)"
    and "set (active_threads M) \<inter> set (dead_threads M) = {}"
    and "set (dead_threads M) \<subseteq> dom (threads M)"
    and "t \<in> set (active_threads M) \<Longrightarrow> runs M t"
    and "t \<in> set (dead_threads M) \<Longrightarrow> \<not> runs M t"
    and "sorted_wrt (before_thread M) (active_threads M)"
    and "distinct (pointers_to_threads M)" and "set (pointers_to_threads M) = dom (threads M)"
  using assms by (auto simp: miter_ok_def)

lemma set_thread_fields [simp]:
  "threads (set_thread t th M) = (threads M)(t \<mapsto> th)"
  "pointers_to_threads (set_thread t th M) = pointers_to_threads M"
  "active_threads (set_thread t th M) = active_threads M"
  "dead_threads (set_thread t th M) = dead_threads M"
  by (simp_all add: set_thread_def)

lemma push_fields [simp]:
  "threads (push_active t M) = threads M"
  "pointers_to_threads (push_active t M) = pointers_to_threads M"
  "dead_threads (push_active t M) = dead_threads M"
  "set (active_threads (push_active t M)) = insert t (set (active_threads M))"
  "threads (push_dead t M) = threads M"
  "pointers_to_threads (push_dead t M) = pointers_to_threads M"
  "active_threads (push_dead t M) = active_threads M"
  "dead_threads (push_dead t M) = dead_threads M @ [t]"
  by (simp_all add: push_active_def push_dead_def takeWhile_insert del: set_append)

lemma drop_fields [simp]:
  "threads (drop_active t M) = threads M"
  "pointers_to_threads (drop_active t M) = pointers_to_threads M"
  "dead_threads (drop_active t M) = dead_threads M"
  "active_threads (drop_active t M) = filter (\<lambda>u. u \<noteq> t) (active_threads M)"
  "threads (drop_dead t M) = threads M"
  "pointers_to_threads (drop_dead t M) = pointers_to_threads M"
  "active_threads (drop_dead t M) = active_threads M"
  "dead_threads (drop_dead t M) = filter (\<lambda>u. u \<noteq> t) (dead_threads M)"
  by (simp_all add: drop_active_def drop_dead_def)

lemma runs_set_thread [simp]:
  "runs (set_thread t th M) u = (if u = t then iterNode th \<noteq> None else runs M u)"
  by (auto simp: runs_def)

lemma mkey_cong: "threads M' u = threads M u \<Longrightarrow> mkey M' u = mkey M u"
  by (simp add: mkey_def)

lemma sorted_before_cong:
  assumes "sorted_wrt (before_thread M) xs" and "\<And>u. u \<in> set xs \<Longrightarrow> threads M' u = threads M u"
  shows "sorted_wrt (before_thread M') xs"
proof (rule sorted_wrt_mono_rel[OF _ assms(1)])
  fix t u
  assume "t \<in> set xs" "u \<in> set xs" "before_thread M t u"
  then show "before_thread M' t u"
    using mkey_cong[OF assms(2)] by (simp add: before_thread_def)
qed

lemma same_threads [simp]:
  "runs (push_active t M) = runs M" "runs (push_dead t M) = runs M"
  "runs (drop_active t M) = runs M" "runs (drop_dead t M) = runs M"
  "before_thread (push_active t M) = before_thread M"
  "before_thread (push_dead t M) = before_thread M"
  "before_thread (drop_active t M) = before_thread M"
  "before_thread (drop_dead t M) = before_thread M"
  by (auto simp: runs_def before_thread_def mkey_def fun_eq_iff)

text \<open>Insertion among the active threads keeps them ordered.\<close>

lemma push_active_sorted:
  assumes s: "sorted_wrt (before_thread M) (active_threads M)"
    and r: "\<forall>u\<in>set (active_threads M). runs M u" and t: "runs M t" "t \<notin> set (active_threads M)"
  shows "sorted_wrt (before_thread M) (active_threads (push_active t M))"
proof -
  let ?a = "active_threads M"
  have cong: "u \<in> set ?a \<Longrightarrow> (compare_threads M t u \<ge> 0) = before_thread M u t" for u
    using compare_before[of M t u] r t by auto
  have "takeWhile (\<lambda>u. compare_threads M t u \<ge> 0) ?a = takeWhile (\<lambda>u. before_thread M u t) ?a"
    "dropWhile (\<lambda>u. compare_threads M t u \<ge> 0) ?a = dropWhile (\<lambda>u. before_thread M u t) ?a"
    by (auto intro: takeWhile_cong dropWhile_cong simp: cong)
  then have "active_threads (push_active t M) =
      takeWhile (\<lambda>u. before_thread M u t) ?a @ t # dropWhile (\<lambda>u. before_thread M u t) ?a"
    by (simp add: push_active_def)
  moreover have "sorted_wrt (before_thread M)
      (takeWhile (\<lambda>u. before_thread M u t) ?a @ t # dropWhile (\<lambda>u. before_thread M u t) ?a)"
    by (rule sorted_wrt_insert_split[OF s transp_before_thread total_before_thread])
  ultimately show ?thesis by (simp only:)
qed

lemma distinct_push_active:
  "t \<notin> set (active_threads M) \<Longrightarrow> distinct (active_threads (push_active t M)) = distinct (active_threads M)"
  by (simp add: push_active_def takeWhile_insert(2) del: distinct_append)

lemma place_ok:
  assumes ok: "miter_ok M" and t: "t \<in> dom (threads M)" "t \<notin> set (active_threads M)"
    "t \<notin> set (dead_threads M)" and th: "thread_ok th"
  shows "miter_ok (place t th M)"
proof -
  let ?M = "set_thread t th M"
  note d = miter_okD[OF ok]
  have "sorted_wrt (before_thread ?M) (active_threads M)"
    by (rule sorted_before_cong[OF d(8)]) (use t(2) in auto)
  then have s: "sorted_wrt (before_thread ?M) (active_threads ?M)" by simp
  have ra: "\<forall>u\<in>set (active_threads ?M). runs ?M u"
    using d(6) t(2) by auto
  have rd: "\<forall>u\<in>set (dead_threads ?M). \<not> runs ?M u"
    using d(7) t(3) by auto
  have domM: "dom (threads ?M) = dom (threads M)" using t(1) by auto
  have tok: "\<forall>u ti. threads ?M u = Some ti \<longrightarrow> thread_ok ti"
    using d(1) th by (auto simp: fun_upd_apply)
  show ?thesis
  proof (cases "iterNode th")
    case None
    then have "\<not> runs ?M t" by simp
    then have "miter_ok (push_dead t ?M)"
      unfolding miter_ok_def using d s ra rd t tok domM by auto
    with None show ?thesis by (simp add: place_def)
  next
    case (Some n)
    then have rt: "runs ?M t" by simp
    then have "sorted_wrt (before_thread ?M) (active_threads (push_active t ?M))"
      using push_active_sorted[OF s ra] t(2) by simp
    moreover have "distinct (active_threads (push_active t ?M))"
      using distinct_push_active[of t ?M] t(2) d(2) by simp
    ultimately have "miter_ok (push_active t ?M)"
      unfolding miter_ok_def using d s ra rd t tok rt domM by auto
    with Some show ?thesis by (simp add: place_def)
  qed
qed

text \<open>Effect of the building blocks on the pending nodes.\<close>

lemma place_fields [simp]:
  "threads (place t th M) = (threads M)(t \<mapsto> th)"
  "pointers_to_threads (place t th M) = pointers_to_threads M"
  "set (active_threads (place t th M)) =
     (if iterNode th = None then set (active_threads M) else insert t (set (active_threads M)))"
  "set (dead_threads (place t th M)) =
     (if iterNode th = None then insert t (set (dead_threads M)) else set (dead_threads M))"
  by (simp_all add: place_def Let_def)

lemma active_sub: "miter_ok M \<Longrightarrow> set (active_threads M) \<subseteq> dom (threads M)"
  using miter_okD(6) by (fastforce simp: runs_def)

lemma started_place:
  assumes "miter_ok M" and "t \<in> dom (threads M)" and "t \<notin> set (active_threads M)"
    and "t \<notin> set (dead_threads M)" and "thread_ok th"
    and "dom (threads M) \<subseteq> insert t (set (active_threads M) \<union> set (dead_threads M))"
  shows "started (place t th M)"
proof -
  have "set (active_threads (place t th M)) \<union> set (dead_threads (place t th M))
      = insert t (set (active_threads M) \<union> set (dead_threads M))"
    by simp
  also have "\<dots> = dom (threads M)"
    using active_sub[OF assms(1)] miter_okD(5)[OF assms(1)] assms(2,6) by blast
  also have "\<dots> = dom (threads (place t th M))" using assms(2) by auto
  finally show ?thesis using place_ok[OF assms(1-5)] unfolding started_def by blast
qed

lemma pending_place:
  "pending (place t th M) = {p \<in> pending M. fst p \<noteq> t} \<union> {t} \<times> set (ahead th)"
  by (auto simp: pending_def split: if_splits)

lemma drop_active_ok: "miter_ok M \<Longrightarrow> miter_ok (drop_active t M)"
  unfolding miter_ok_def by (auto simp: sorted_wrt_filter)

lemma drop_dead_ok: "miter_ok M \<Longrightarrow> miter_ok (drop_dead t M)"
  unfolding miter_ok_def by auto

lemma pending_drop [simp]:
  "pending (drop_active t M) = pending M" "pending (drop_dead t M) = pending M"
  by (simp_all add: pending_def)

lemma pending_thread: "threads M t = Some th \<Longrightarrow> (t, n) \<in> pending M \<longleftrightarrow> n \<in> set (ahead th)"
  by (simp add: pending_def)

lemma startedD:
  assumes "started M"
  shows "miter_ok M" and "set (active_threads M) \<union> set (dead_threads M) = dom (threads M)"
  using assms by (auto simp: started_def)

lemma active_iff:
  assumes st: "started M" and th: "threads M t = Some th"
  shows "t \<in> set (active_threads M) \<longleftrightarrow> iterNode th \<noteq> None"
    and "t \<in> set (dead_threads M) \<longleftrightarrow> iterNode th = None"
proof -
  have r: "runs M t \<longleftrightarrow> iterNode th \<noteq> None" using th by (auto simp: runs_def)
  have "t \<in> set (active_threads M) \<or> t \<in> set (dead_threads M)"
    using startedD(2)[OF st] th by auto
  then show "t \<in> set (active_threads M) \<longleftrightarrow> iterNode th \<noteq> None"
    "t \<in> set (dead_threads M) \<longleftrightarrow> iterNode th = None"
    using miter_okD(6,7)[OF startedD(1)[OF st], of t] unfolding r by blast+
qed

lemma runs_ahead:
  assumes "thread_ok th" shows "iterNode th = None \<longleftrightarrow> ahead th = []"
  using thread_okE(2)[OF assms] by simp

section \<open>The operations\<close>

text \<open>What \<open>peek()\<close> returns: the node at the head of the first active thread.\<close>

lemma peek_active:
  assumes "miter_ok M" and "miter_peek M = Some n"
  obtains t ts th zs where "active_threads M = t # ts" and "threads M t = Some th"
    and "ahead th = n # zs" and "thread_ok th"
proof -
  obtain t ts where a: "active_threads M = t # ts"
    using assms(2) by (cases "active_threads M") (auto simp: miter_peek_def)
  obtain th where th: "threads M t = Some th" "iterNode th = Some n"
    using assms(2) a by (auto simp: miter_peek_def split: option.splits)
  have ok: "thread_ok th" using miter_okD(1)[OF assms(1) th(1)] .
  then obtain zs where "ahead th = n # zs" using thread_okE(2)[OF ok] th(2) by (cases "ahead th") auto
  with a th ok that show ?thesis by blast
qed

lemma peek_None:
  assumes "started M" and "miter_peek M = None"
  shows "pending M = {}"
proof -
  note d = startedD[OF assms(1)]
  have "active_threads M = []"
  proof (rule ccontr)
    assume "active_threads M \<noteq> []"
    then obtain t ts where a: "active_threads M = t # ts" by (cases "active_threads M") auto
    then have "runs M t" using miter_okD(6)[OF d(1)] by simp
    then show False using assms(2) a by (auto simp: miter_peek_def runs_def)
  qed
  then have "\<not> runs M t" if "threads M t = Some th" for t th
    using d miter_okD(7)[OF d(1)] that by auto
  then show ?thesis
    using runs_ahead miter_okD(1)[OF d(1)] by (fastforce simp: pending_def runs_def)
qed

text \<open>The order in which nodes come up: time, then the priority of the list, then the place in it.\<close>

definition prio_of :: "'p miterator \<Rightarrow> nat \<Rightarrow> nat" where
  "prio_of M t = (case threads M t of None \<Rightarrow> 0 | Some th \<Rightarrow> priority th)"

definition comes_before :: "'p miterator \<Rightarrow> nat \<times> 'p tnode \<Rightarrow> nat \<times> 'p tnode \<Rightarrow> bool" where
  "comes_before M p q \<longleftrightarrow>
     etime (snd p) < etime (snd q)
     \<or> etime (snd p) = etime (snd q)
       \<and> (if fst p = fst q then secondaryKey (snd p) \<le> secondaryKey (snd q)
          else prio_of M (fst p) \<le> prio_of M (fst q))"

lemma ahead_sorted:
  assumes "thread_ok th" and "ahead th = n # zs" and "m \<in> set (ahead th)"
  shows "m = n \<or> node_less n m"
proof -
  have "sorted_wrt node_less (behind th @ ahead th)"
    using thread_okE(1,4)[OF assms(1)] by (simp add: list_ok_def)
  then show ?thesis using assms(2,3) by (auto simp: sorted_wrt_append)
qed

lemma peek_least:
  assumes "started M" and "miter_peek M = Some n"
  obtains t where "(t, n) \<in> pending M" and "\<forall>q\<in>pending M. comes_before M (t, n) q"
    and "active_threads M = t # tl (active_threads M)"
proof -
  note d = startedD[OF assms(1)]
  obtain t ts th zs where a: "active_threads M = t # ts" "threads M t = Some th"
    "ahead th = n # zs" "thread_ok th" using d(1) assms(2) by (rule peek_active)
  have "comes_before M (t, n) (u, m)" if um: "(u, m) \<in> pending M" for u m
  proof -
    obtain th' where th': "threads M u = Some th'" "m \<in> set (ahead th')"
      using um by (auto simp: pending_def)
    note ok' = miter_okD(1)[OF d(1) th'(1)]
    show ?thesis
    proof (cases "u = t")
      case True
      then show ?thesis
        using ahead_sorted[OF a(4) a(3), of m] th' a(2)
        by (auto simp: comes_before_def node_less_iff)
    next
      case False
      obtain c cs where c: "ahead th' = c # cs" using th'(2) by (cases "ahead th'") auto
      then have ic: "iterNode th' = Some c" using thread_okE(2)[OF ok'] by simp
      then have "runs M u" using th'(1) by (auto simp: runs_def)
      then have "u \<in> set ts" using d a(1) False miter_okD(7)[OF d(1)] th'(1) by (fastforce simp: dom_def)
      then have "before_thread M t u" using miter_okD(8)[OF d(1)] a(1) by simp
      moreover have "iterNode th = Some n" using thread_okE(2)[OF a(4)] a(3) by simp
      moreover have "etime c \<le> etime m"
        using ahead_sorted[OF ok' c th'(2)] by (auto simp: node_less_iff)
      ultimately show ?thesis
        using th'(1) ic a(2) False
        by (auto simp: before_thread_def mkey_def key_le_def comes_before_def prio_of_def)
    qed
  qed
  then have least: "\<forall>q\<in>pending M. comes_before M (t, n) q" by auto
  have "(t, n) \<in> pending M" using a by (auto simp: pending_def)
  from this least show ?thesis by (rule that) (simp add: a(1))
qed

text \<open>The nodes that the iterator has passed and that are still in their lists.\<close>

definition passed :: "'p miterator \<Rightarrow> (nat \<times> 'p tnode) set" where
  "passed M = {(t, n). \<exists>th. threads M t = Some th \<and> n \<in> set (behind th)}"

lemma passed_place:
  "passed (place t th M) = {p \<in> passed M. fst p \<noteq> t} \<union> {t} \<times> set (behind th)"
  by (auto simp: passed_def split: if_splits)

lemma passed_drop [simp]:
  "passed (drop_active t M) = passed M" "passed (drop_dead t M) = passed M"
  by (simp_all add: passed_def)

lemma ahead_distinct:
  assumes "thread_ok th" shows "distinct (behind th @ ahead th)"
  using thread_okE(3)[OF assms] unfolding distinct_map by (rule conjunct1)

lemma miter_next_ok:
  assumes st: "started M" and pk: "miter_peek M = Some n"
  obtains t M' where "miter_next M = (Some n, M')" and "started M'" and "(t, n) \<in> pending M"
    and "pending M' = pending M - {(t, n)}" and "passed M' = insert (t, n) (passed M)"
    and "active_threads M = t # tl (active_threads M)"
    and "map_option priority \<circ> threads M' = map_option priority \<circ> threads M"
proof -
  note d = startedD[OF st]
  obtain t ts th zs where a: "active_threads M = t # ts" "threads M t = Some th"
    "ahead th = n # zs" "thread_ok th" using d(1) pk by (rule peek_active)
  note nx = iterator_next_ok[OF a(4,3)]
  let ?M = "place t (iterator_next th) (drop_active t M)"
  have tn: "t \<notin> set ts" "t \<notin> set (dead_threads M)"
    using miter_okD(2,4)[OF d(1)] a(1) by auto
  have 1: "miter_next M = (Some n, ?M)"
    using a thread_okE(2)[OF a(4)] by (simp add: miter_next_def)
  have 2: "started ?M"
    by (rule started_place[OF drop_active_ok[OF d(1)] _ _ _ nx(1)]) (use a tn d(2) in auto)
  have nd: "n \<notin> set zs" using ahead_distinct[OF a(4)] a(3) by auto
  have 3: "pending ?M = pending M - {(t, n)}"
    using nd a(2,3) nx(2) by (auto simp: pending_def split: if_splits)
  have 4: "passed ?M = insert (t, n) (passed M)"
    using a(2) nx(3) by (auto simp: passed_def split: if_splits)
  have 5: "(t, n) \<in> pending M" using a by (auto simp: pending_def)
  have 6: "map_option priority \<circ> threads ?M = map_option priority \<circ> threads M"
    using a(2) by (auto simp: fun_eq_iff)
  show ?thesis by (rule that[OF 1 2 5 3 4 _ 6]) (simp add: a(1))
qed

lemma set_thread_ok:
  assumes ok: "miter_ok M" and th: "threads M t = Some th" and th1: "thread_ok th1"
    "iterNode th1 = iterNode th" "priority th1 = priority th"
  shows "miter_ok (set_thread t th1 M)"
proof -
  let ?M = "set_thread t th1 M"
  note d = miter_okD[OF ok]
  have k: "mkey ?M = mkey M" using th th1(2,3) by (auto simp: mkey_def fun_eq_iff split: option.split)
  then have b: "before_thread ?M = before_thread M" by (simp add: before_thread_def fun_eq_iff)
  have r: "runs ?M = runs M" using th th1(2) by (auto simp: fun_eq_iff runs_def)
  have tok: "\<forall>u ti. threads ?M u = Some ti \<longrightarrow> thread_ok ti" using d(1) th1(1) by auto
  have domM: "dom (threads ?M) = dom (threads M)" using th by auto
  show ?thesis unfolding miter_ok_def b r using d tok domM by simp
qed

lemma started_set_thread:
  assumes "started M" and "threads M t = Some th" and "thread_ok th1"
    "iterNode th1 = iterNode th" "priority th1 = priority th"
  shows "started (set_thread t th1 M)"
  using set_thread_ok[OF startedD(1)[OF assms(1)] assms(2-5)] startedD(2)[OF assms(1)] assms(2)
  by (auto simp: started_def)

lemma pending_set_thread:
  "pending (set_thread t th M) = {p \<in> pending M. fst p \<noteq> t} \<union> {t} \<times> set (ahead th)"
  "passed (set_thread t th M) = {p \<in> passed M. fst p \<noteq> t} \<union> {t} \<times> set (behind th)"
  by (auto simp: pending_def passed_def split: if_splits)

lemma set_thread_twice [simp]:
  "set_thread t a (drop_active u (set_thread t b M)) = set_thread t a (drop_active u M)"
  "set_thread t a (drop_dead u (set_thread t b M)) = set_thread t a (drop_dead u M)"
  by (simp_all add: set_thread_def drop_active_def drop_dead_def)

section \<open>Additions\<close>

text \<open>
  A node that is not earlier than the nodes already passed is adopted: the pending nodes grow by
  that node and nothing else changes.
\<close>

lemma multilist_insert_ok:
  assumes st: "started M" and th: "threads M t = Some th"
    and fresh: "event_id new \<notin> event_id ` set (nodes th)"
    and late: "\<forall>m\<in>set (behind th). etime m \<le> etime new"
  obtains n M' where "multilist_insert t new M = (M', Inr ())" and "started M'"
    and "event_id n = event_id new" and "etime n = etime new" and "payload n = payload new"
    and "pending M' = insert (t, n) (pending M)" and "passed M' = passed M"
    and "map_option priority \<circ> threads M' = map_option priority \<circ> threads M"
    and "(t, n) \<notin> pending M"
proof -
  note d = startedD[OF st] and ok = miter_okD[OF startedD(1)[OF st]]
  note tok = ok(1)[OF th] note e = thread_okE[OF tok]
  obtain n L where ins: "tlist_insert_node new (thread_list th) = (n, L)" by fastforce
  note i = tlist_insert_node_ok[OF e(4) fresh ins]
  let ?T = "etime new" and ?th = "th\<lparr>thread_list := L\<rparr>"
  let ?M = "set_thread t ?th M"
  have fr: "(t, n) \<notin> pending M"
    using th fresh i(2) e(1) imageI[of n "set (ahead th)" event_id] by (auto simp: pending_def)
  have bn: "before_new ?T (nodes th) = behind th @ before_new ?T (ahead th)"
    and an: "after_new ?T (nodes th) = after_new ?T (ahead th)"
    using late unfolding e(1) before_new_def after_new_def by (simp_all add: takeWhile_append dropWhile_append)
  show ?thesis
  proof (cases "ahead th")
    case Nil
    then have it: "iterNode th = None" using e(2) by simp
    then have dead: "t \<in> set (dead_threads M)" "t \<notin> set (active_threads M)"
      using active_iff[OF st th] by simp_all
    let ?th' = "?th\<lparr>iterNode := Some n\<rparr>"
    let ?P = "place t ?th' (drop_dead t M)"
    have nl: "node_list L = behind th @ [n]"
      using i(5) bn an Nil by (simp add: before_new_def after_new_def)
    note z = thread_okI[of ?th' "behind th" "[n]"]
    have 1: "multilist_insert t new M = (?P, Inr ())"
      using th ins dead by (simp add: multilist_insert_def handle_addition_def place_def)
    have 2: "started ?P"
      by (rule started_place[OF drop_dead_ok[OF d(1)] _ _ _ z(1)]) (use th nl dead d(2) i(1) in auto)
    have 3: "pending ?P = insert (t, n) (pending M)" "passed ?P = passed M"
      using th Nil z(2,3) nl i(1) by (auto simp: pending_def passed_def split: if_splits)
    show ?thesis
      by (rule that[OF 1 2 i(2-4) 3 _ fr]) (use th in \<open>auto simp: fun_eq_iff\<close>)
  next
    case (Cons c zs)
    then have it: "iterNode th = Some c" using e(2) by simp
    then have act: "t \<in> set (active_threads M)" using active_iff(1)[OF st th] it by simp
    have dead: "t \<notin> set (dead_threads M)" using act ok(4) by auto
    show ?thesis
    proof (cases "etime c \<le> ?T")
      case True
      have nl: "node_list L = behind th @ (c # before_new ?T zs @ n # after_new ?T zs)"
        using i(5) bn an Cons True by (simp add: before_new_def after_new_def)
      note z = thread_okI[of ?th "behind th" "c # before_new ?T zs @ n # after_new ?T zs"]
      have "node_less c n" using i(6)[of c] bn Cons True by (simp add: before_new_def)
      then have "alpha_time_compare_to n c False > 0"
        by (auto simp: node_less_iff alpha_time_compare_to_def)
      then have 1: "multilist_insert t new M = (?M, Inr ())"
        using th ins act it by (simp add: multilist_insert_def handle_addition_def)
      have 2: "started ?M"
        by (rule started_set_thread[OF st th z(1)]) (use nl i(1) it in auto)
      have sz: "set zs = set (before_new ?T zs) \<union> set (after_new ?T zs)"
        by (metis before_after_new set_append)
      have 3: "pending ?M = insert (t, n) (pending M)" "passed ?M = passed M"
        using th Cons z(2,3) nl i(1) it sz by (auto simp: pending_def passed_def split: if_splits)
      show ?thesis
        by (rule that[OF 1 2 i(2-4) 3 _ fr]) (use th in \<open>auto simp: fun_eq_iff\<close>)
    next
      case False
      let ?th' = "?th\<lparr>iterNode := Some n\<rparr>"
      let ?P = "place t ?th' (drop_active t M)"
      have nl: "node_list L = behind th @ n # c # zs"
        using i(5) bn an Cons False by (simp add: before_new_def after_new_def)
      note z = thread_okI[of ?th' "behind th" "n # c # zs"]
      have "node_less n c" using i(7)[of c] an Cons False by (simp add: after_new_def)
      then have cmp: "alpha_time_compare_to n c False < 0"
        by (auto simp: node_less_iff alpha_time_compare_to_def)
      have "distinct (map event_id (behind th @ n # c # zs))"
        using i(1) nl by (simp add: list_ok_def)
      then have "event_id c \<notin> event_id ` set (behind th @ [n])" "event_id c \<notin> event_id ` set zs" by auto
      then have pv: "previous_node c ((behind th @ [n]) @ c # zs) = Some n"
        by (subst previous_node_split) (auto dest: not_in_imageD)
      have 1: "multilist_insert t new M = (?P, Inr ())"
        using th ins act it cmp pv nl
        by (simp add: multilist_insert_def handle_addition_def place_def)
      have 2: "started ?P"
        by (rule started_place[OF drop_active_ok[OF d(1)] _ _ _ z(1)]) (use th nl dead d(2) i(1) in auto)
      have 3: "pending ?P = insert (t, n) (pending M)" "passed ?P = passed M"
        using th Cons z(2,3) nl i(1) by (auto simp: pending_def passed_def split: if_splits)
      show ?thesis
        by (rule that[OF 1 2 i(2-4) 3 _ fr]) (use th in \<open>auto simp: fun_eq_iff\<close>)
    qed
  qed
qed

section \<open>Removals\<close>

lemma filter_split:
  assumes "distinct (map event_id (ys @ zs))"
  shows "n \<in> set ys \<Longrightarrow> filter (\<lambda>m. event_id m \<noteq> event_id n) zs = zs"
    and "n \<in> set zs \<Longrightarrow> filter (\<lambda>m. event_id m \<noteq> event_id n) ys = ys"
  using assms by (auto simp: filter_id_conv dest: not_in_imageD)

lemma multilist_remove_ok:
  assumes st: "started M" and th: "threads M t = Some th" and n: "n \<in> set (nodes th)"
  obtains M' where "multilist_remove t n M = Inr M'" and "started M'"
    and "pending M' = pending M - {(t, n)}" and "passed M' = passed M - {(t, n)}"
    and "map_option priority \<circ> threads M' = map_option priority \<circ> threads M"
proof -
  note d = startedD[OF st] and ok = miter_okD[OF startedD(1)[OF st]]
  note tok = ok(1)[OF th] note e = thread_okE[OF tok]
  let ?f = "filter (\<lambda>m. event_id m \<noteq> event_id n)"
  have lok: "list_ok (slist_remove_node n (thread_list th))" by (rule slist_remove_node_ok[OF e(4)])
  have dd: "distinct (map event_id (ahead th))"
    using e(3) by simp
  show ?thesis
  proof (cases "ahead th \<noteq> [] \<and> n = hd (ahead th)")
    case True
    then obtain zs where a: "ahead th = n # zs" by (cases "ahead th") auto
    then have it: "iterNode th = Some n" using e(2) by simp
    then have act: "t \<in> set (active_threads M)" using active_iff(1)[OF st th] it by simp
    have dead: "t \<notin> set (dead_threads M)" using act ok(4) by auto
    note nx = iterator_next_ok[OF tok a]
    let ?th = "iterator_next th"
    let ?th' = "?th\<lparr>thread_list := slist_remove_node n (thread_list ?th)\<rparr>"
    let ?P = "place t ?th (drop_active t M)"
    have lt: "thread_list ?th = thread_list th" by (simp add: iterator_next_def it)
    have "n \<in> set (ahead th)" using a by simp
    then have fb: "?f (behind th) = behind th" using filter_split(2)[OF e(3)] by blast
    have "event_id n \<notin> event_id ` set zs" using dd a by simp
    then have fz: "?f zs = zs" by (auto simp: filter_id_conv dest: not_in_imageD)
    have nl: "nodes ?th' = behind th @ zs"
      using e(1) fb fz a by (simp add: slist_remove_node_def lt)
    have ih: "iterNode ?th' = hd_opt zs" using thread_okE(2)[OF nx(1)] nx(2) by simp
    note z = thread_okI[OF _ nl ih]
    have sP: "started ?P"
      by (rule started_place[OF drop_active_ok[OF d(1)] _ _ _ nx(1)]) (use th dead d(2) in auto)
    let ?M = "set_thread t ?th' ?P"
    have 1: "multilist_remove t n M = Inr ?M"
      using th act it by (simp add: multilist_remove_def handle_removal_def)
    have lok': "list_ok (thread_list ?th')" using lok lt by simp
    have 2: "started ?M"
      by (rule started_set_thread[OF sP, of t ?th]) (use z(1)[OF lok'] in auto)
    have nz: "n \<notin> set zs" "n \<notin> set (behind th)" using ahead_distinct[OF tok] a by auto
    have 3: "pending ?M = pending M - {(t, n)}" "passed ?M = passed M - {(t, n)}"
      using th a z(2,3)[OF lok'] nz by (auto simp: pending_def passed_def split: if_splits)
    show ?thesis
      by (rule that[OF 1 2 3]) (use th in \<open>auto simp: fun_eq_iff\<close>)
  next
    case False
    let ?th' = "th\<lparr>thread_list := slist_remove_node n (thread_list th)\<rparr>"
    let ?M = "set_thread t ?th' M"
    have nh: "\<not> (case iterNode th of None \<Rightarrow> False | Some m \<Rightarrow> event_id m = event_id n)"
    proof (cases "ahead th")
      case (Cons c zs)
      have "c \<in> set (nodes th)" "c \<noteq> n" using Cons False e(1) by auto
      moreover have "inj_on event_id (set (nodes th))"
        using e(1,3) by (simp only: distinct_map)
      ultimately have "event_id c \<noteq> event_id n" using n by (meson inj_onD)
      then show ?thesis using e(2) Cons by simp
    qed (use e(2) in simp)
    have 1: "multilist_remove t n M = Inr ?M"
      using th nh by (simp add: multilist_remove_def handle_removal_def)
    have nl: "nodes ?th' = ?f (behind th) @ ?f (ahead th)"
      using e(1) by (simp add: slist_remove_node_def)
    have ih: "iterNode ?th' = hd_opt (?f (ahead th))"
      using e(2) nh by (cases "ahead th") auto
    have lok': "list_ok (thread_list ?th')" using lok by simp
    note z = thread_okI[OF lok' nl ih]
    have 2: "started ?M"
      by (rule started_set_thread[OF st th z(1)]) auto
    have "set (?f xs) = set xs - {n}" if "set xs \<subseteq> set (nodes th)" for xs
    proof -
      have "inj_on event_id (set (nodes th))" using e(1,3) by (simp only: distinct_map)
      then have "m \<in> set xs \<Longrightarrow> event_id m = event_id n \<Longrightarrow> m = n" for m
        using that n by (meson inj_onD subsetD)
      then show ?thesis by auto
    qed
    moreover have "set (behind th) \<subseteq> set (nodes th)" "set (ahead th) \<subseteq> set (nodes th)"
      unfolding e(1) by simp_all
    ultimately have "set (?f (behind th)) = set (behind th) - {n}" "set (?f (ahead th)) = set (ahead th) - {n}"
      by blast+
    then have sa: "set (behind ?th') = set (behind th) - {n}" "set (ahead ?th') = set (ahead th) - {n}"
      unfolding z(2,3) .
    have 3: "pending ?M = pending M - {(t, n)}" "passed ?M = passed M - {(t, n)}"
      unfolding pending_set_thread sa using th by (auto simp: pending_def passed_def)
    show ?thesis
      by (rule that[OF 1 2 3]) (use th in \<open>auto simp: fun_eq_iff\<close>)
  qed
qed

section \<open>Registration and restart\<close>

lemma empty_miterator_ok: "started empty_miterator"
  by (simp add: started_def miter_ok_def empty_miterator_def)

lemma add_thread_ok:
  assumes ok: "miter_ok M" and "threads M t = None" and l: "list_ok L"
  obtains M' where "add_thread t L name prio M = Inr M'" and "miter_ok M'"
    and "threads M' = (threads M)(t \<mapsto>
      \<lparr>thread_list = L, iterNode = hd_opt (node_list L), priority = prio, thread_name = name\<rparr>)"
proof -
  let ?th = "\<lparr>thread_list = L, iterNode = hd_opt (node_list L), priority = prio, thread_name = name\<rparr>"
  let ?M = "set_thread t ?th (M\<lparr>pointers_to_threads := pointers_to_threads M @ [t]\<rparr>)"
  note d = miter_okD[OF ok]
  have tok: "thread_ok ?th" using thread_okI(1)[of ?th "[]" "node_list L"] l by simp
  have ta: "t \<notin> set (active_threads M)" "t \<notin> set (dead_threads M)"
    using active_sub[OF ok] d(5) assms(2) by auto
  have "sorted_wrt (before_thread ?M) (active_threads M)"
    by (rule sorted_before_cong[OF d(8)]) (use ta in auto)
  moreover have "runs ?M u = runs M u" if "u \<noteq> t" for u using that by (simp add: runs_def)
  ultimately have "miter_ok ?M"
    unfolding miter_ok_def using d tok ta assms(2) by (auto simp: dom_def)
  moreover have "add_thread t L name prio M = Inr ?M"
    using assms(2) by (simp add: add_thread_def go_to_beginning_def)
  ultimately show ?thesis using that by simp
qed

lemma restart_thread_step:
  assumes ok: "miter_ok M" and t: "t \<in> dom (threads M)" "t \<notin> set (active_threads M)"
    "t \<notin> set (dead_threads M)"
  shows "miter_ok (restart_thread t M)" and "dom (threads (restart_thread t M)) = dom (threads M)"
    and "set (active_threads (restart_thread t M)) \<union> set (dead_threads (restart_thread t M))
      = insert t (set (active_threads M) \<union> set (dead_threads M))"
    and "u \<noteq> t \<Longrightarrow> threads (restart_thread t M) u = threads M u"
    and "threads (restart_thread t M) t = map_option go_to_beginning (threads M t)"
    and "pointers_to_threads (restart_thread t M) = pointers_to_threads M"
proof -
  obtain th where th: "threads M t = Some th" using t(1) by auto
  have r: "restart_thread t M = place t (go_to_beginning th) M" using th by (simp add: restart_thread_def)
  show "miter_ok (restart_thread t M)"
    unfolding r using place_ok[OF ok t go_to_beginning_ok(1)] miter_okD(1)[OF ok th] by blast
  show "dom (threads (restart_thread t M)) = dom (threads M)" using t(1) unfolding r by auto
  show "set (active_threads (restart_thread t M)) \<union> set (dead_threads (restart_thread t M))
      = insert t (set (active_threads M) \<union> set (dead_threads M))"
    unfolding r by simp
  show "u \<noteq> t \<Longrightarrow> threads (restart_thread t M) u = threads M u"
    "threads (restart_thread t M) t = map_option go_to_beginning (threads M t)"
    "pointers_to_threads (restart_thread t M) = pointers_to_threads M"
    unfolding r using th by simp_all
qed

lemma restart_fold:
  assumes "miter_ok M" and "distinct ts" and "set ts \<subseteq> dom (threads M)"
    and "set ts \<inter> (set (active_threads M) \<union> set (dead_threads M)) = {}"
  shows "miter_ok (fold restart_thread ts M)
    \<and> dom (threads (fold restart_thread ts M)) = dom (threads M)
    \<and> set (active_threads (fold restart_thread ts M)) \<union> set (dead_threads (fold restart_thread ts M))
      = set ts \<union> (set (active_threads M) \<union> set (dead_threads M))
    \<and> (\<forall>u. threads (fold restart_thread ts M) u =
        (if u \<in> set ts then map_option go_to_beginning (threads M u) else threads M u))"
  using assms
proof (induction ts arbitrary: M)
  case (Cons t ts)
  have t: "t \<in> dom (threads M)" "t \<notin> set (active_threads M)" "t \<notin> set (dead_threads M)"
    using Cons.prems by auto
  note s = restart_thread_step[OF Cons.prems(1) t]
  have "set ts \<inter> (set (active_threads (restart_thread t M)) \<union> set (dead_threads (restart_thread t M))) = {}"
    unfolding s(3) using Cons.prems by auto
  with Cons.IH[OF s(1)] Cons.prems s(2) have ih:
    "miter_ok (fold restart_thread ts (restart_thread t M))"
    "dom (threads (fold restart_thread ts (restart_thread t M))) = dom (threads (restart_thread t M))"
    "set (active_threads (fold restart_thread ts (restart_thread t M))) \<union>
       set (dead_threads (fold restart_thread ts (restart_thread t M)))
      = set ts \<union> insert t (set (active_threads M) \<union> set (dead_threads M))"
    "\<And>u. threads (fold restart_thread ts (restart_thread t M)) u =
        (if u \<in> set ts then map_option go_to_beginning (threads (restart_thread t M) u)
         else threads (restart_thread t M) u)"
    unfolding s(3) by auto
  have "threads (fold restart_thread (t # ts) M) u =
      (if u \<in> set (t # ts) then map_option go_to_beginning (threads M u) else threads M u)" for u
    using ih(4)[of u] s(4,5) Cons.prems(2) by (cases "u = t") auto
  then show ?case using ih(1-3) s(2) by auto
qed simp

lemma miter_first_ok:
  assumes "miter_ok M"
  shows "started (miter_first M)" and "pending (miter_first M) = {(t, n). \<exists>th. threads M t = Some th \<and> n \<in> set (nodes th)}"
    and "passed (miter_first M) = {}"
    and "map_option priority \<circ> threads (miter_first M) = map_option priority \<circ> threads M"
proof -
  note d = miter_okD[OF assms]
  let ?M = "M\<lparr>active_threads := [], dead_threads := []\<rparr>"
  have "miter_ok ?M" using d by (simp add: miter_ok_def)
  from restart_fold[OF this d(9)] d(10)
  have f: "miter_ok (miter_first M)" "dom (threads (miter_first M)) = dom (threads M)"
    "set (active_threads (miter_first M)) \<union> set (dead_threads (miter_first M)) = dom (threads M)"
    "\<And>u. threads (miter_first M) u = (if u \<in> dom (threads M)
        then map_option go_to_beginning (threads M u) else threads M u)"
    by (simp_all add: miter_first_def)
  have g: "threads (miter_first M) u = map_option go_to_beginning (threads M u)" for u
    using f(4)[of u] by (auto simp: dom_def)
  show "started (miter_first M)" using f by (simp add: started_def)
  show "pending (miter_first M) = {(t, n). \<exists>th. threads M t = Some th \<and> n \<in> set (nodes th)}"
    using go_to_beginning_ok(2)[OF d(1)] by (auto simp: pending_def g)
  have "behind (go_to_beginning th) = []" if "thread_ok th" for th
    using thread_okI(2)[of "go_to_beginning th" "[]" "nodes th"] thread_okE(4)[OF that]
    by (simp add: go_to_beginning_def)
  then show "passed (miter_first M) = {}" using d(1) by (fastforce simp: passed_def g)
  show "map_option priority \<circ> threads (miter_first M) = map_option priority \<circ> threads M"
    by (auto simp: fun_eq_iff g option.map_comp comp_def)
qed

end
