(* ===== verification/MiteratorProperties.thy ===== *)
theory MiteratorProperties
  imports MiteratorInvariant "HOL-Library.Multiset"
begin

text \<open>
  The interface through which the modeling loop uses an iterator over event lists, its
  interpretation by the multi-list iterator, and what iterating over several lists yields.
\<close>

section \<open>Iterators over timed items\<close>

primrec drain :: "('q \<Rightarrow> 'e option) \<Rightarrow> ('q \<Rightarrow> 'q) \<Rightarrow> nat \<Rightarrow> 'q \<Rightarrow> 'e list" where
  "drain front pop 0 q = []"
| "drain front pop (Suc k) q =
     (case front q of None \<Rightarrow> [] | Some e \<Rightarrow> e # drain front pop k (pop q))"

locale time_queue =
  fixes inv :: "'q \<Rightarrow> bool" and items :: "'q \<Rightarrow> 'e set" and time_of :: "'e \<Rightarrow> int"
    and front :: "'q \<Rightarrow> 'e option" and pop :: "'q \<Rightarrow> 'q"
  assumes finite_items: "inv q \<Longrightarrow> finite (items q)"
    and front_empty: "inv q \<Longrightarrow> front q = None \<Longrightarrow> items q = {}"
    and front_mem: "inv q \<Longrightarrow> front q = Some e \<Longrightarrow> e \<in> items q"
    and front_first: "inv q \<Longrightarrow> front q = Some e \<Longrightarrow> d \<in> items q \<Longrightarrow> time_of e \<le> time_of d"
    and pop_inv: "inv q \<Longrightarrow> front q = Some e \<Longrightarrow> inv (pop q)"
    and pop_items: "inv q \<Longrightarrow> front q = Some e \<Longrightarrow> items (pop q) = items q - {e}"
begin

lemma drain_all:
  assumes "inv q" and "card (items q) \<le> k"
  shows "set (drain front pop k q) = items q" and "distinct (drain front pop k q)"
    and "sorted_wrt (\<lambda>a b. time_of a \<le> time_of b) (drain front pop k q)"
proof -
  have "set (drain front pop k q) = items q \<and> distinct (drain front pop k q)
      \<and> sorted_wrt (\<lambda>a b. time_of a \<le> time_of b) (drain front pop k q)"
    using assms
  proof (induction k arbitrary: q)
    case 0
    then show ?case using finite_items by auto
  next
    case (Suc k)
    show ?case
    proof (cases "front q")
      case None
      then show ?thesis using front_empty[OF Suc.prems(1)] by simp
    next
      case (Some e)
      note f = Suc.prems(1) Some
      have "card (items (pop q)) \<le> k"
        using Suc.prems(2) front_mem[OF f] finite_items[OF f(1)] by (simp add: pop_items[OF f])
      from Suc.IH[OF pop_inv[OF f] this] show ?thesis
        using front_mem[OF f] front_first[OF f] Some by (auto simp: pop_items[OF f])
    qed
  qed
  then show "set (drain front pop k q) = items q" "distinct (drain front pop k q)"
    "sorted_wrt (\<lambda>a b. time_of a \<le> time_of b) (drain front pop k q)" by simp_all
qed

end

section \<open>The multi-list iterator as such a queue\<close>

definition miter_front :: "'p miterator \<Rightarrow> (nat \<times> 'p tnode) option" where
  "miter_front M = map_option (Pair (hd (active_threads M))) (miter_peek M)"

definition miter_pop :: "'p miterator \<Rightarrow> 'p miterator" where
  "miter_pop M = snd (miter_next M)"

lemma finite_pending:
  assumes "miter_ok M" shows "finite (pending M)"
proof -
  have "finite (dom (threads M))" using miter_okD(10)[OF assms] by (metis finite_set)
  moreover have "pending M \<subseteq> (\<Union>t\<in>dom (threads M). {t} \<times> set (ahead (the (threads M t))))"
    by (auto simp: pending_def)
  ultimately show ?thesis by (auto intro: finite_subset)
qed

lemma miter_front_Some:
  assumes "started M" and "miter_front M = Some e"
  shows "miter_next M = (Some (snd e), miter_pop M)" and "started (miter_pop M)" and "e \<in> pending M"
    and "pending (miter_pop M) = pending M - {e}" and "passed (miter_pop M) = insert e (passed M)"
    and "map_option priority \<circ> threads (miter_pop M) = map_option priority \<circ> threads M"
    and "\<forall>q\<in>pending M. comes_before M e q"
proof -
  obtain n where n: "miter_peek M = Some n" "e = (hd (active_threads M), n)"
    using assms(2) by (auto simp: miter_front_def)
  obtain t M' where a: "miter_next M = (Some n, M')" "started M'" "(t, n) \<in> pending M"
    "pending M' = pending M - {(t, n)}" "passed M' = insert (t, n) (passed M)"
    "active_threads M = t # tl (active_threads M)"
    "map_option priority \<circ> threads M' = map_option priority \<circ> threads M"
    using assms(1) n(1) by (rule miter_next_ok)
  have e: "e = (t, n)" using n(2) a(6) by (metis list.sel(1))
  have M': "M' = miter_pop M" using a(1) by (simp add: miter_pop_def)
  show "miter_next M = (Some (snd e), miter_pop M)" "started (miter_pop M)" "e \<in> pending M"
    "pending (miter_pop M) = pending M - {e}" "passed (miter_pop M) = insert e (passed M)"
    "map_option priority \<circ> threads (miter_pop M) = map_option priority \<circ> threads M"
    using a e M' by simp_all
  obtain t' where t': "(t', n) \<in> pending M" "\<forall>q\<in>pending M. comes_before M (t', n) q"
    "active_threads M = t' # tl (active_threads M)"
    using assms(1) n(1) by (rule peek_least)
  show "\<forall>q\<in>pending M. comes_before M e q" using t'(2,3) e a(6) by (metis list.inject)
qed

interpretation miter: time_queue started pending "\<lambda>e. etime (snd e)" miter_front miter_pop
proof unfold_locales
  show "started M \<Longrightarrow> miter_front M = None \<Longrightarrow> pending M = {}" for M :: "'a miterator"
    using peek_None by (auto simp: miter_front_def)
  show "started M \<Longrightarrow> finite (pending M)" for M :: "'a miterator"
    by (rule finite_pending[OF startedD(1)])
qed (use miter_front_Some in \<open>fastforce simp: comes_before_def\<close>)+

section \<open>Properties\<close>

primrec miter_scan :: "nat \<Rightarrow> 'p miterator \<Rightarrow> 'p tnode list" where
  "miter_scan 0 M = []"
| "miter_scan (Suc k) M =
     (case miter_next M of (None, _) \<Rightarrow> [] | (Some n, M') \<Rightarrow> n # miter_scan k M')"

lemma miter_scan_drain:
  assumes "started M"
  shows "miter_scan k M = map snd (drain miter_front miter_pop k M)"
  using assms
proof (induction k arbitrary: M)
  case (Suc k)
  show ?case
  proof (cases "miter_front M")
    case None
    then have "miter_peek M = None" by (simp add: miter_front_def)
    then have "fst (miter_next M) = None"
      by (auto simp: miter_peek_def miter_next_def split: list.split option.split)
    with None show ?thesis by (cases "miter_next M") simp
  next
    case (Some e)
    note f = miter_front_Some[OF Suc.prems Some]
    then show ?thesis using Suc.IH[OF f(2)] Some by simp
  qed
qed simp

lemma comes_before_cong:
  assumes "map_option priority \<circ> threads M' = map_option priority \<circ> threads M"
  shows "comes_before M' = comes_before M"
proof -
  have "prio_of M' t = prio_of M t" for t
    using fun_cong[OF assms, of t]
    by (cases "threads M t"; cases "threads M' t") (simp_all add: prio_of_def)
  then show ?thesis by (simp add: comes_before_def fun_eq_iff)
qed

lemma drain_order:
  assumes "started M"
  shows "sorted_wrt (comes_before M) (drain miter_front miter_pop k M)
    \<and> set (drain miter_front miter_pop k M) \<subseteq> pending M"
  using assms
proof (induction k arbitrary: M)
  case (Suc k)
  show ?case
  proof (cases "miter_front M")
    case (Some e)
    note f = miter_front_Some[OF Suc.prems Some]
    have ih: "sorted_wrt (comes_before M) (drain miter_front miter_pop k (miter_pop M))"
      "set (drain miter_front miter_pop k (miter_pop M)) \<subseteq> pending M - {e}"
      using Suc.IH[OF f(2)] unfolding comes_before_cong[OF f(6)] f(4) by blast+
    have "\<forall>x\<in>set (drain miter_front miter_pop k (miter_pop M)). comes_before M e x"
      using ih(2) f(7) by blast
    then show ?thesis using Some ih f(3) by auto
  qed simp
qed simp

text \<open>C28: Iterating over several time-ordered lists with \<open>next()\<close> returns every node that the
  iterator has still to return exactly once, ordered by time, at equal times by the priority of the
  list, and within one list by the place in the list; as many calls as there are such nodes suffice.\<close>

theorem miter_scan_merges:
  assumes "started M" and "card (pending M) \<le> k"
  shows "\<exists>ps. miter_scan k M = map snd ps \<and> distinct ps \<and> set ps = pending M
    \<and> sorted_wrt (comes_before M) ps"
  using miter_scan_drain[OF assms(1), of k] miter.drain_all[OF assms] drain_order[OF assms(1), of k]
  by blast

text \<open>C29: A node added to a list that the iterator follows, with a time not earlier than the nodes
  already passed in that list, is taken up: no error occurs, the nodes still to be returned grow by
  exactly that node (with the disambiguated secondary key), and the invariant holds again.\<close>

theorem multilist_insert_adopts:
  assumes "started M" and "threads M t = Some th"
    and "event_id new \<notin> event_id ` set (nodes th)"
    and "\<forall>m\<in>set (behind th). etime m \<le> etime new"
  shows "\<exists>n M'. multilist_insert t new M = (M', Inr ()) \<and> started M'
    \<and> event_id n = event_id new \<and> etime n = etime new \<and> payload n = payload new
    \<and> pending M' = insert (t, n) (pending M) \<and> (t, n) \<notin> pending M \<and> passed M' = passed M"
  using assms by (rule multilist_insert_ok) blast

text \<open>The error branch: a node earlier than one already passed, in a list that is not exhausted.\<close>

lemma multilist_insert_earlier:
  assumes st: "started M" and th: "threads M t = Some th" and it: "iterNode th = Some c"
    and fresh: "event_id new \<notin> event_id ` set (nodes th)"
    and m: "m \<in> set (behind th)" "etime new < etime m"
  shows "snd (multilist_insert t new M) = Inl (EvalError ''handle_addition: earlier than the node before'')"
proof -
  note tok = miter_okD(1)[OF startedD(1)[OF st] th] note e = thread_okE[OF tok]
  obtain n L where ins: "tlist_insert_node new (thread_list th) = (n, L)" by fastforce
  note i = tlist_insert_node_ok[OF e(4) fresh ins]
  let ?T = "etime new"
  obtain zs where a: "ahead th = c # zs" using e(2) it by (cases "ahead th") auto
  obtain ys b where ys: "behind th = ys @ [b]" using m(1) by (cases "behind th" rule: rev_cases) auto
  have sw: "sorted_wrt node_less (nodes th)" using e(4) by (simp add: list_ok_def)
  have mb: "m = b \<or> node_less m b" and bc: "node_less b c"
    using sw m(1) unfolding e(1) ys a by (auto simp: sorted_wrt_append)
  then have Tb: "?T < etime b" using m(2) by (auto simp: node_less_iff)
  have bn: "before_new ?T (nodes th) = before_new ?T ys"
    and an: "after_new ?T (nodes th) = after_new ?T ys @ b # c # zs"
    using Tb unfolding e(1) ys a before_new_def after_new_def
    by (simp_all add: takeWhile_tail dropWhile_append3)
  have nl: "node_list L = (before_new ?T ys @ n # after_new ?T ys @ [b]) @ c # zs"
    using i(5) unfolding bn an by simp
  have "distinct (map event_id ((before_new ?T ys @ n # after_new ?T ys @ [b]) @ c # zs))"
    using i(1) nl by (simp add: list_ok_def)
  then have "event_id c \<notin> event_id ` set (before_new ?T ys @ n # after_new ?T ys @ [b])"
    "event_id c \<notin> event_id ` set zs" by auto
  then have pv: "previous_node c (node_list L) = Some b"
    unfolding nl by (subst previous_node_split) (auto dest: not_in_imageD)
  have "node_less n c" using i(7)[of c] an by simp
  then have cmp: "alpha_time_compare_to n c False < 0" by (simp add: node_less_def)
  have act: "t \<in> set (active_threads M)" using active_iff(1)[OF st th] it by simp
  show ?thesis
    using th ins act it cmp pv Tb i(3)
    by (simp add: multilist_insert_def handle_addition_def)
qed

text \<open>While a list is not exhausted, an addition to it fails (with the error of
  \<open>handle_addition\<close>) precisely when the new node is earlier than a node already passed.\<close>

theorem multilist_insert_fails_iff:
  assumes "started M" and "threads M t = Some th" and "iterNode th = Some c"
    and "event_id new \<notin> event_id ` set (nodes th)"
  shows "snd (multilist_insert t new M) =
    (if \<exists>m\<in>set (behind th). etime new < etime m
     then Inl (EvalError ''handle_addition: earlier than the node before'') else Inr ())"
proof (cases "\<exists>m\<in>set (behind th). etime new < etime m")
  case True
  then show ?thesis using multilist_insert_earlier[OF assms] by auto
next
  case False
  then have "\<forall>m\<in>set (behind th). etime m \<le> etime new" by auto
  with assms(1,2,4) obtain M' where "multilist_insert t new M = (M', Inr ())"
    by (rule multilist_insert_ok) blast
  with False show ?thesis by simp
qed

section \<open>A concrete iterator\<close>

definition sample_node :: "int \<Rightarrow> nat \<Rightarrow> nat tnode" where
  "sample_node T i = \<lparr>etime = T, secondaryKey = 0, event_id = i, payload = 0\<rparr>"

definition two_lists :: "nat miterator" where
  "two_lists =
     (case bind_result
        (add_thread 0 \<lparr>node_list = [sample_node 5 1, sample_node 10 2], ambiguityCount = 0\<rparr>
           ''regular events'' 1 empty_miterator)
        (add_thread 1 \<lparr>node_list = [sample_node 5 3], ambiguityCount = 0\<rparr> ''current events'' 2) of
        Inl _ \<Rightarrow> empty_miterator
      | Inr M \<Rightarrow> miter_first M)"

lemmas miter_eval =
  two_lists_def sample_node_def add_thread_def empty_miterator_def miter_first_def restart_thread_def
  place_def set_thread_def push_active_def push_dead_def drop_active_def drop_dead_def
  compare_threads_def relptr_compare_to_def relTime_def go_to_beginning_def iterator_next_def
  miter_next_def Let_def alpha_time_compare_to_def fun_upd_def

lemma two_lists_threads:
  "threads two_lists 0 = Some \<lparr>thread_list = \<lparr>node_list = [sample_node 5 1, sample_node 10 2],
     ambiguityCount = 0\<rparr>, iterNode = Some (sample_node 5 1), priority = 1, thread_name = ''regular events''\<rparr>"
  "threads two_lists 1 = Some \<lparr>thread_list = \<lparr>node_list = [sample_node 5 3], ambiguityCount = 0\<rparr>,
     iterNode = Some (sample_node 5 3), priority = 2, thread_name = ''current events''\<rparr>"
  "t \<noteq> 0 \<Longrightarrow> t \<noteq> 1 \<Longrightarrow> threads two_lists t = None"
  by (simp_all add: miter_eval)

lemma two_lists_started: "started two_lists"
proof -
  let ?L1 = "\<lparr>node_list = [sample_node 5 1, sample_node 10 2], ambiguityCount = 0\<rparr>"
  let ?L2 = "\<lparr>node_list = [sample_node 5 3], ambiguityCount = 0\<rparr>"
  have l: "list_ok ?L1" "list_ok ?L2"
    by (simp_all add: list_ok_def sample_node_def node_less_def alpha_time_compare_to_def)
  obtain M1 where m1: "add_thread 0 ?L1 ''regular events'' 1 empty_miterator = Inr M1" "miter_ok M1"
    "threads M1 = [0 \<mapsto> \<lparr>thread_list = ?L1, iterNode = hd_opt (node_list ?L1), priority = 1,
       thread_name = ''regular events''\<rparr>]"
    by (rule add_thread_ok[OF startedD(1)[OF empty_miterator_ok], of 0 ?L1 "''regular events''" 1])
      (use l in \<open>auto simp: empty_miterator_def\<close>)
  obtain M2 where m2: "add_thread 1 ?L2 ''current events'' 2 M1 = Inr M2" "miter_ok M2"
    by (rule add_thread_ok[OF m1(2) _ l(2), of 1 "''current events''" 2]) (use m1(3) in auto)
  have "two_lists = miter_first M2" using m1(1) m2(1) by (simp add: two_lists_def)
  then show ?thesis using miter_first_ok(1)[OF m2(2)] by simp
qed

lemma two_lists_pending:
  "pending two_lists = {(0, sample_node 5 1), (0, sample_node 10 2), (1, sample_node 5 3)}"
proof -
  have "p \<in> pending two_lists \<longleftrightarrow>
      p \<in> {(0, sample_node 5 1), (0, sample_node 10 2), (1, sample_node 5 3)}" for p
    using two_lists_threads(3)[of "fst p"]
    by (cases p; cases "fst p = 0"; cases "fst p = 1")
      (auto simp: pending_def two_lists_threads two_lists_threads(2)[unfolded One_nat_def]
        ahead_def sample_node_def)
  then show ?thesis by blast
qed

lemma miter_scan_merges_witness:
  "map event_id (miter_scan 3 two_lists) = [1, 3, 2]
    \<and> (\<exists>ps. miter_scan 3 two_lists = map snd ps \<and> distinct ps \<and> set ps = pending two_lists
         \<and> sorted_wrt (comes_before two_lists) ps)"
proof
  show "map event_id (miter_scan 3 two_lists) = [1, 3, 2]"
    by (simp add: numeral_3_eq_3 miter_eval)
  have "card (pending two_lists) \<le> 3" by (simp add: two_lists_pending sample_node_def)
  then show "\<exists>ps. miter_scan 3 two_lists = map snd ps \<and> distinct ps \<and> set ps = pending two_lists
      \<and> sorted_wrt (comes_before two_lists) ps"
    by (rule miter_scan_merges[OF two_lists_started])
qed

lemma multilist_insert_adopts_witness:
  "\<exists>n M'. multilist_insert 0 (sample_node 5 4) two_lists = (M', Inr ()) \<and> started M'
    \<and> event_id n = 4 \<and> etime n = 5 \<and> payload n = 0
    \<and> pending M' = insert (0, n) (pending two_lists) \<and> (0, n) \<notin> pending two_lists
    \<and> passed M' = passed two_lists"
  using multilist_insert_adopts[OF two_lists_started two_lists_threads(1), of "sample_node 5 4"]
  by (simp add: behind_def sample_node_def)

text \<open>After two calls of \<open>next()\<close> the node with time 5 is passed.\<close>

definition two_lists_later :: "nat miterator" where
  "two_lists_later = snd (miter_next (snd (miter_next two_lists)))"

lemma two_lists_later_ok:
  "started two_lists_later"
  "threads two_lists_later 0 = Some \<lparr>thread_list = \<lparr>node_list = [sample_node 5 1, sample_node 10 2],
     ambiguityCount = 0\<rparr>, iterNode = Some (sample_node 10 2), priority = 1,
     thread_name = ''regular events''\<rparr>"
proof -
  have f: "miter_front two_lists = Some (0, sample_node 5 1)"
    by (simp add: miter_front_def miter_peek_def miter_eval)
  have g: "miter_front (miter_pop two_lists) = Some (1, sample_node 5 3)"
    by (simp add: miter_front_def miter_pop_def miter_peek_def miter_eval)
  have "two_lists_later = miter_pop (miter_pop two_lists)"
    by (simp add: two_lists_later_def miter_pop_def)
  then show "started two_lists_later"
    using miter_front_Some(2)[OF miter_front_Some(2)[OF two_lists_started f] g] by simp
  show "threads two_lists_later 0 = Some \<lparr>thread_list = \<lparr>node_list = [sample_node 5 1, sample_node 10 2],
     ambiguityCount = 0\<rparr>, iterNode = Some (sample_node 10 2), priority = 1,
     thread_name = ''regular events''\<rparr>"
    by (simp add: two_lists_later_def miter_eval)
qed

lemma multilist_insert_fails_witness:
  "snd (multilist_insert 0 (sample_node 4 4) two_lists_later)
      = Inl (EvalError ''handle_addition: earlier than the node before'')
   \<and> snd (multilist_insert 0 (sample_node 7 4) two_lists_later) = Inr ()"
  using multilist_insert_fails_iff[OF two_lists_later_ok, of "sample_node 10 2" "sample_node 4 4"]
    multilist_insert_fails_iff[OF two_lists_later_ok, of "sample_node 10 2" "sample_node 7 4"]
  by (simp add: behind_def sample_node_def)

text \<open>
  The check is not made for an exhausted list: a node earlier than the ones passed is taken up,
  and the nodes behind it in the list are returned a second time.
\<close>

definition exhausted :: "nat miterator" where
  "exhausted = snd (miter_next two_lists_later)"

lemma exhausted_list_replays:
  "miter_peek exhausted = None
   \<and> snd (multilist_insert 0 (sample_node 4 4) exhausted) = Inr ()
   \<and> map event_id (miter_scan 3 (fst (multilist_insert 0 (sample_node 4 4) exhausted))) = [4, 1, 2]"
  by (simp add: numeral_3_eq_3 exhausted_def two_lists_later_def miter_peek_def multilist_insert_def
      handle_addition_def tlist_insert_node_def miter_eval)

end
