(* ===== verification/Signals.thy ===== *)
theory Signals
  imports ApPrelude
begin

text \<open>
  The signals that were sent at the current time and the patterns of the \<open>WAIT UNTIL REGEXP\<close>
  instructions (class \<open>eval_intfc\<close>, \<open>src/src/apcore/interpreter/AP_exp_eval.C\<close>, and the functions on
  signals of \<open>BuiltInFunctions.C\<close>). The regular expressions of the C library are arguments:
  \<open>regcomp p\<close> says whether pattern \<open>p\<close> compiles, \<open>regexec p s\<close> whether it matches \<open>s\<close>.

  A pattern keeps back pointers to the signals it matches. They are represented by the names of
  these signals; deleting a signal deletes the back pointers to it.
\<close>

section \<open>The store\<close>

record patternInfo =
  pattern_string :: string
  compiled :: bool
  Matches :: "string list"

record 'v signal_store =
  recent_signals :: "(string \<times> 'v) list"
  recent_patterns :: "patternInfo list"

definition no_signals :: "'v signal_store" where
  "no_signals = \<lparr>recent_signals = [], recent_patterns = []\<rparr>"

definition find_a_signal :: "string \<Rightarrow> 'v signal_store \<Rightarrow> 'v option" where
  "find_a_signal sig S = map_of (recent_signals S) sig"

definition find_a_pattern :: "string \<Rightarrow> 'v signal_store \<Rightarrow> patternInfo option" where
  "find_a_pattern patt S = List.find (\<lambda>p. pattern_string p = patt) (recent_patterns S)"

definition get_all_signals :: "'v signal_store \<Rightarrow> string list" where
  "get_all_signals S = map fst (recent_signals S)"

definition number_of_recent_signals :: "'v signal_store \<Rightarrow> nat" where
  "number_of_recent_signals S = length (recent_signals S)"

text \<open>
  The node of a new pattern is in the list before the pattern is compiled; it stays there when
  the compilation fails.
\<close>

definition a_signal_matches ::
  "(string \<Rightarrow> bool) \<Rightarrow> (string \<Rightarrow> string \<Rightarrow> bool) \<Rightarrow> string \<Rightarrow> 'v signal_store
     \<Rightarrow> 'v signal_store \<times> bool result" where
  "a_signal_matches regcomp regexec patt S =
     (case find_a_pattern patt S of
        Some p \<Rightarrow> (S, Inr (length (Matches p) > 0))
      | None \<Rightarrow>
          if \<not> regcomp patt then
            (S\<lparr>recent_patterns := recent_patterns S @
                 [\<lparr>pattern_string = patt, compiled = False, Matches = []\<rparr>]\<rparr>,
             Inl (EvalError ''a_signal_matches(): error in pattern ''))
          else
            (let found = filter (regexec patt) (get_all_signals S) in
             (S\<lparr>recent_patterns := recent_patterns S @
                  [\<lparr>pattern_string = patt, compiled = True, Matches = found\<rparr>]\<rparr>,
              Inr (length found > 0))))"

definition clear_signals :: "'v signal_store \<Rightarrow> 'v signal_store" where
  "clear_signals S = S\<lparr>recent_signals := [],
     recent_patterns := map (\<lambda>p. p\<lparr>Matches := []\<rparr>) (recent_patterns S)\<rparr>"

definition clear_patterns :: "'v signal_store \<Rightarrow> 'v signal_store" where
  "clear_patterns S = S\<lparr>recent_patterns := []\<rparr>"

text \<open>A pattern that was not compiled must not be used for matching: \<open>regexec\<close> is undefined then.\<close>

definition add_a_signal ::
  "(string \<Rightarrow> string \<Rightarrow> bool) \<Rightarrow> string \<Rightarrow> 'v \<Rightarrow> 'v signal_store \<Rightarrow> 'v signal_store result" where
  "add_a_signal regexec s v S =
     (if find_a_signal s S \<noteq> None then Inr S
      else if \<not> list_all compiled (recent_patterns S) then Inl NullAccess
      else Inr (S\<lparr>recent_signals := recent_signals S @ [(s, v)],
                  recent_patterns := map (\<lambda>p. if regexec (pattern_string p) s
                       then p\<lparr>Matches := Matches p @ [s]\<rparr> else p) (recent_patterns S)\<rparr>))"

definition exp_GET_MATCHING_SIGNALS ::
  "(string \<Rightarrow> string \<Rightarrow> bool) \<Rightarrow> string \<Rightarrow> 'v signal_store \<Rightarrow> string list result" where
  "exp_GET_MATCHING_SIGNALS regexec a S =
     (case find_a_pattern a S of
        None \<Rightarrow> Inl (EvalError ''get_matching_signals: pattern was not used'')
      | Some p \<Rightarrow> Inr (filter (regexec (pattern_string p)) (get_all_signals S)))"

section \<open>Sequences of operations\<close>

datatype 'v signal_op =
    AddSignal string 'v
  | AskPattern string
  | AskSignal string
  | MatchingSignals string
  | ClearSignals
  | ClearPatterns

datatype answer = Yes_no bool | Names "string list"

text \<open>
  A modeling run asks and adds until the first error, which ends it. \<open>run_signals\<close> uses the
  cached matches of the patterns.
\<close>

fun run_signals ::
  "(string \<Rightarrow> bool) \<Rightarrow> (string \<Rightarrow> string \<Rightarrow> bool) \<Rightarrow> 'v signal_op list \<Rightarrow> 'v signal_store
     \<Rightarrow> answer list result" where
  "run_signals rc rx [] S = Inr []"
| "run_signals rc rx (AddSignal s v # ops) S =
     bind_result (add_a_signal rx s v S) (run_signals rc rx ops)"
| "run_signals rc rx (AskPattern p # ops) S =
     (case a_signal_matches rc rx p S of
        (_, Inl e) \<Rightarrow> Inl e
      | (S', Inr b) \<Rightarrow> bind_result (run_signals rc rx ops S') (\<lambda>as. Inr (Yes_no b # as)))"
| "run_signals rc rx (AskSignal s # ops) S =
     bind_result (run_signals rc rx ops S) (\<lambda>as. Inr (Yes_no (find_a_signal s S \<noteq> None) # as))"
| "run_signals rc rx (MatchingSignals p # ops) S =
     bind_result (exp_GET_MATCHING_SIGNALS rx p S) (\<lambda>ns.
       bind_result (run_signals rc rx ops S) (\<lambda>as. Inr (Names ns # as)))"
| "run_signals rc rx (ClearSignals # ops) S = run_signals rc rx ops (clear_signals S)"
| "run_signals rc rx (ClearPatterns # ops) S = run_signals rc rx ops (clear_patterns S)"

text \<open>
  The reference: only the names of the signals and of the patterns asked for are kept, and every
  question is answered by matching the pattern with all signals.
\<close>

fun direct_signals ::
  "(string \<Rightarrow> bool) \<Rightarrow> (string \<Rightarrow> string \<Rightarrow> bool) \<Rightarrow> 'v signal_op list
     \<Rightarrow> string list \<Rightarrow> string list \<Rightarrow> answer list result" where
  "direct_signals rc rx [] sigs patts = Inr []"
| "direct_signals rc rx (AddSignal s v # ops) sigs patts =
     direct_signals rc rx ops (if s \<in> set sigs then sigs else sigs @ [s]) patts"
| "direct_signals rc rx (AskPattern p # ops) sigs patts =
     (if \<not> rc p then Inl (EvalError ''a_signal_matches(): error in pattern '')
      else bind_result (direct_signals rc rx ops sigs (p # patts))
             (\<lambda>as. Inr (Yes_no (list_ex (rx p) sigs) # as)))"
| "direct_signals rc rx (AskSignal s # ops) sigs patts =
     bind_result (direct_signals rc rx ops sigs patts) (\<lambda>as. Inr (Yes_no (s \<in> set sigs) # as))"
| "direct_signals rc rx (MatchingSignals p # ops) sigs patts =
     (if p \<notin> set patts then Inl (EvalError ''get_matching_signals: pattern was not used'')
      else bind_result (direct_signals rc rx ops sigs patts)
             (\<lambda>as. Inr (Names (filter (rx p) sigs) # as)))"
| "direct_signals rc rx (ClearSignals # ops) sigs patts = direct_signals rc rx ops [] patts"
| "direct_signals rc rx (ClearPatterns # ops) sigs patts = direct_signals rc rx ops sigs []"

section \<open>The cached matches are the direct ones\<close>

definition store_ok ::
  "(string \<Rightarrow> bool) \<Rightarrow> (string \<Rightarrow> string \<Rightarrow> bool) \<Rightarrow> 'v signal_store \<Rightarrow> bool" where
  "store_ok rc rx S \<longleftrightarrow> (\<forall>p\<in>set (recent_patterns S). compiled p \<and> rc (pattern_string p)
     \<and> Matches p = filter (rx (pattern_string p)) (get_all_signals S))"

lemma get_all_signals_update [simp]:
  "get_all_signals (S\<lparr>recent_patterns := ps\<rparr>) = get_all_signals S"
  by (simp add: get_all_signals_def)

lemma store_ok_empty [simp]: "store_ok rc rx no_signals"
  by (simp add: store_ok_def no_signals_def)

lemma find_a_patternD:
  "find_a_pattern patt S = Some p \<Longrightarrow> p \<in> set (recent_patterns S) \<and> pattern_string p = patt"
  by (auto simp: find_a_pattern_def find_Some_iff)

lemma find_a_pattern_None:
  "find_a_pattern patt S = None \<longleftrightarrow> patt \<notin> pattern_string ` set (recent_patterns S)"
  by (auto simp: find_a_pattern_def find_None_iff)

lemma find_a_signal_iff: "(find_a_signal s S \<noteq> None) = (s \<in> set (get_all_signals S))"
  by (simp add: find_a_signal_def get_all_signals_def map_of_eq_None_iff)

lemma a_signal_matches_ok:
  assumes "store_ok rc rx S" and "a_signal_matches rc rx patt S = (S', Inr b)"
  shows "store_ok rc rx S'" and "b = list_ex (rx patt) (get_all_signals S)" and "rc patt"
    and "get_all_signals S' = get_all_signals S"
    and "pattern_string ` set (recent_patterns S') = insert patt (pattern_string ` set (recent_patterns S))"
proof -
  have ex: "(0 < length (filter (rx patt) xs)) = list_ex (rx patt) xs" for xs
    by (auto simp: list_ex_iff filter_empty_conv)
  have "store_ok rc rx S' \<and> b = list_ex (rx patt) (get_all_signals S) \<and> rc patt
    \<and> get_all_signals S' = get_all_signals S
    \<and> pattern_string ` set (recent_patterns S') = insert patt (pattern_string ` set (recent_patterns S))"
  proof (cases "find_a_pattern patt S")
    case (Some p)
    then show ?thesis
      using assms find_a_patternD[OF Some]
      by (auto simp: a_signal_matches_def store_ok_def ex[symmetric])
  next
    case None
    then show ?thesis using assms
      by (auto simp: a_signal_matches_def store_ok_def ex[symmetric] Let_def split: if_splits)
  qed
  then show "store_ok rc rx S'" "b = list_ex (rx patt) (get_all_signals S)" "rc patt"
    "get_all_signals S' = get_all_signals S"
    "pattern_string ` set (recent_patterns S') = insert patt (pattern_string ` set (recent_patterns S))"
    by blast+
qed

lemma a_signal_matches_error:
  assumes "store_ok rc rx S" and "a_signal_matches rc rx patt S = (S', Inl e)"
  shows "\<not> rc patt \<and> e = EvalError ''a_signal_matches(): error in pattern ''"
  using assms by (auto simp: a_signal_matches_def Let_def split: option.splits if_splits)

lemma same_strings:
  assumes "\<And>p. pattern_string (g p) = pattern_string p"
  shows "pattern_string ` set (map g ps) = pattern_string ` set ps"
  using assms by (simp only: set_map image_image)

lemma add_a_signal_ok:
  assumes "store_ok rc rx S"
  obtains S' where "add_a_signal rx s v S = Inr S'" and "store_ok rc rx S'"
    and "get_all_signals S' = (if s \<in> set (get_all_signals S) then get_all_signals S
                               else get_all_signals S @ [s])"
    and "pattern_string ` set (recent_patterns S') = pattern_string ` set (recent_patterns S)"
proof (cases "find_a_signal s S = None")
  case True
  let ?S = "S\<lparr>recent_signals := recent_signals S @ [(s, v)],
      recent_patterns := map (\<lambda>p. if rx (pattern_string p) s
        then p\<lparr>Matches := Matches p @ [s]\<rparr> else p) (recent_patterns S)\<rparr>"
  have c: "list_all compiled (recent_patterns S)" using assms by (auto simp: store_ok_def list_all_iff)
  have n: "s \<notin> set (get_all_signals S)" using True find_a_signal_iff[of s S] by simp
  have 1: "add_a_signal rx s v S = Inr ?S" using True c by (simp add: add_a_signal_def)
  have 2: "store_ok rc rx ?S"
    using assms by (auto simp: store_ok_def get_all_signals_def)
  have 3: "pattern_string ` set (recent_patterns ?S) = pattern_string ` set (recent_patterns S)"
    using same_strings[of "\<lambda>p. if rx (pattern_string p) s then p\<lparr>Matches := Matches p @ [s]\<rparr> else p"
        "recent_patterns S"]
    by simp
  show ?thesis by (rule that[OF 1 2 _ 3]) (use n in \<open>simp add: get_all_signals_def\<close>)
next
  case False
  have "add_a_signal rx s v S = Inr S" using False by (simp add: add_a_signal_def)
  then show ?thesis using that[of S] assms False find_a_signal_iff[of s S] by simp
qed

lemma clear_signals_ok:
  assumes "store_ok rc rx S"
  shows "store_ok rc rx (clear_signals S)" and "get_all_signals (clear_signals S) = []"
    and "pattern_string ` set (recent_patterns (clear_signals S)) = pattern_string ` set (recent_patterns S)"
  using assms by (auto simp: store_ok_def clear_signals_def get_all_signals_def image_image)

lemma clear_patterns_ok:
  "store_ok rc rx (clear_patterns S)" "get_all_signals (clear_patterns S) = get_all_signals S"
  "recent_patterns (clear_patterns S) = []"
  by (simp_all add: store_ok_def clear_patterns_def get_all_signals_def)

lemma matching_signals_eq:
  "exp_GET_MATCHING_SIGNALS rx p S =
     (if p \<notin> pattern_string ` set (recent_patterns S)
      then Inl (EvalError ''get_matching_signals: pattern was not used'')
      else Inr (filter (rx p) (get_all_signals S)))"
proof (cases "find_a_pattern p S")
  case (Some q)
  then have "p \<in> pattern_string ` set (recent_patterns S)" using find_a_patternD by blast
  with Some show ?thesis using find_a_patternD[OF Some] by (simp add: exp_GET_MATCHING_SIGNALS_def)
next
  case None
  then show ?thesis using find_a_pattern_None[of p S] by (simp add: exp_GET_MATCHING_SIGNALS_def)
qed

lemma run_direct:
  assumes "store_ok rc rx S" and "set patts = pattern_string ` set (recent_patterns S)"
  shows "run_signals rc rx ops S = direct_signals rc rx ops (get_all_signals S) patts"
  using assms
proof (induction ops arbitrary: S patts)
  case (Cons a ops)
  show ?case
  proof (cases a)
    case (AddSignal s v)
    obtain S' where S': "add_a_signal rx s v S = Inr S'" "store_ok rc rx S'"
      "get_all_signals S' = (if s \<in> set (get_all_signals S) then get_all_signals S
                             else get_all_signals S @ [s])"
      "pattern_string ` set (recent_patterns S') = pattern_string ` set (recent_patterns S)"
      by (rule add_a_signal_ok[OF Cons.prems(1), of s v])
    then show ?thesis using Cons.IH[OF S'(2), of patts] Cons.prems(2) AddSignal by simp
  next
    case (AskPattern p)
    show ?thesis
    proof (cases "a_signal_matches rc rx p S")
      case (Pair S' r)
      show ?thesis
      proof (cases r)
        case (Inl e)
        then show ?thesis using a_signal_matches_error[OF Cons.prems(1), of p S' e] Pair AskPattern by simp
      next
        case (Inr b)
        note m = a_signal_matches_ok[OF Cons.prems(1) Pair[unfolded Inr]]
        show ?thesis
          using Cons.IH[OF m(1), of "p # patts"] Cons.prems(2) m(2-5) Pair Inr AskPattern by simp
      qed
    qed
  next
    case (AskSignal s)
    then show ?thesis using Cons.IH[OF Cons.prems] find_a_signal_iff[of s S] by simp
  next
    case (MatchingSignals p)
    then show ?thesis using Cons.IH[OF Cons.prems] Cons.prems(2) by (simp add: matching_signals_eq)
  next
    case ClearSignals
    then show ?thesis
      using Cons.IH[OF clear_signals_ok(1)[OF Cons.prems(1)], of patts] Cons.prems
        clear_signals_ok(2,3)[OF Cons.prems(1)] by simp
  next
    case ClearPatterns
    then show ?thesis
      using Cons.IH[OF clear_patterns_ok(1), of "[]" S] clear_patterns_ok(2,3)[of S] by simp
  qed
qed simp

text \<open>C37: The cached lists of matching signals change no answer: whatever sequence of signals sent,
  patterns and signals asked for, lists of matching signals requested, and resets is executed, the
  answers and the first error are those obtained by matching each pattern with all current signals at
  the time of the question.\<close>

theorem cached_matches_equal_direct:
  "run_signals regcomp regexec ops no_signals = direct_signals regcomp regexec ops [] []"
  using run_direct[OF store_ok_empty, of "[]" regcomp regexec ops]
  by (simp add: no_signals_def get_all_signals_def)

end
