(* ===== verification/EventLoop.thy ===== *)
theory EventLoop
  imports Complex_Main MiteratorProperties Signals TimeBase
begin

text \<open>
  The modeling loop: events and their factories (\<open>modeler/Events.C\<close>), the queues
  (\<open>model_intfc::add_timevent\<close>), the wait instructions (\<open>modeler/Wait.C\<close>,
  \<open>first_time_waiting_for_signal_or_condition\<close>), the search for threads that can be resumed
  (\<open>modeler/EventLoopUtil.C\<close>) and \<open>EventLoop::ProcessEvents\<close> (\<open>modeler/EventLoop.C\<close>).

  The interpreter of the adaptation language and the resource histories are arguments, collected
  in the record \<open>interpreter\<close>: a thread is a context \<open>'c\<close> (its stack of calls with the program
  counter), the values of all variables and resources are the world \<open>'s\<close>, the execution of a thread
  until it ends or waits yields the new world and the requests it makes of the loop, in order.
\<close>

section \<open>Events and requests\<close>

datatype METHOD_TYPE = ATTRIBUTES | CONCUREXP | CREATION | DECOMPOSITION | DESTRUCTION | FUNCTION
  | MODELING | NONE | NONEXCLDECOMP | PARAMETERS | PROFILE | RESUSAGE | STATES | USAGE

datatype ('c, 'u) eventPLD =
    init_eventPLD
  | usage_event 'u
  | simple_wait_event 'c
  | wait_until_event 'c
  | wait_regexp_event 'c
  | resume_event 'c

type_synonym ('c, 'u) mEvent = "('c, 'u) eventPLD tnode"

text \<open>The values of the adaptation language; the contents of arrays and instances do not matter here.\<close>

datatype TypedValue = ARRAY | BOOL_TYPE int | DURATION int | FLOATING real | INTEGER int
  | STRING string | TIME int | UNINITIALIZED | INSTANCE

fun is_string :: "TypedValue \<Rightarrow> bool" where
  "is_string (STRING s) = True" | "is_string _ = False"

fun is_boolean :: "TypedValue \<Rightarrow> bool" where
  "is_boolean (BOOL_TYPE n) = True" | "is_boolean _ = False"

fun is_int :: "TypedValue \<Rightarrow> bool" where
  "is_int (INTEGER n) = True" | "is_int (BOOL_TYPE n) = True" | "is_int _ = False"

fun get_int :: "TypedValue \<Rightarrow> int" where
  "get_int (FLOATING x) = (if 0 \<le> x then \<lfloor>x\<rfloor> else \<lceil>x\<rceil>)"
| "get_int (INTEGER n) = n" | "get_int (BOOL_TYPE n) = n" | "get_int _ = 0"

text \<open>
  The instructions that reach the loop: \<open>WAIT FOR\<close> with its evaluated expression, \<open>WAIT UNTIL\<close>,
  \<open>WAIT UNTIL REGEXP\<close>, a usage (or signal) at a time, a usage from a time to a time; and, from
  usage events, a signal sent and a node added to the history of a resource container.
\<close>

datatype ('c, 'u, 'v) request =
    WaitFor 'c TypedValue
  | WaitUntil 'c
  | WaitUntilRegexp 'c
  | Usage int 'u
  | UsageFromTo int int 'u
  | SendSignal string 'v
  | HistoryNode int nat

record ('c, 'u, 'v, 's) interpreter =
  enabled :: "'c \<Rightarrow> 's \<Rightarrow> bool"
  usage_enabled :: "'u \<Rightarrow> 's \<Rightarrow> bool"
  Execute :: "'c \<Rightarrow> 's \<Rightarrow> int \<Rightarrow> string list \<Rightarrow> ('s \<times> ('c, 'u, 'v) request list) result"
  call_usage_method :: "'u \<Rightarrow> 's \<Rightarrow> int \<Rightarrow> string list \<Rightarrow> ('s \<times> ('c, 'u, 'v) request list) result"
  initialize_value :: "'s \<Rightarrow> int \<Rightarrow> ('s \<times> ('c, 'u, 'v) request list) result"
  eval_expression :: "'c \<Rightarrow> 's \<Rightarrow> int \<Rightarrow> TypedValue result"
  container_names :: "'c \<Rightarrow> nat option list"
  ptrs_to_containers_used_in_profile :: "nat \<Rightarrow> nat list"
  next_instruction :: "'c \<Rightarrow> 'c"
  theSection :: "'c \<Rightarrow> METHOD_TYPE"
  delete_old_events :: "int \<Rightarrow> 's \<Rightarrow> 's result"
  hard_timing_errors :: bool
  regcomp :: "string \<Rightarrow> bool"
  regexec :: "string \<Rightarrow> string \<Rightarrow> bool"
  uninitialized :: bool

section \<open>The state of the loop\<close>

record 'c instruction_node =
  Calls :: 'c
  cond_is_a_reg_exp :: bool

record ('c, 'u, 'v, 's) loop_state =
  Events :: "('c, 'u) eventPLD miterator"
  CurrentEvent :: "(nat \<times> ('c, 'u) mEvent) option"
  currentEventID :: nat
  SafeTime :: int
  now :: int
  time_last_processed :: int
  potential_triggers :: "(int \<times> nat) list"
  containersToWatchForWaitUntil :: "nat list"
  signals :: "'v signal_store"
  actsOrResWaitingOnSignals :: "nat list"
  actsOrResWaitingOnCond :: "nat list"
  where_to_go :: "(nat \<times> 'c instruction_node) list"
  world :: 's

definition initializationQueue :: nat where "initializationQueue = 0"
definition eventQueue :: nat where "eventQueue = 1"
definition currentQueue :: nat where "currentQueue = 2"
definition expansionQueue :: nat where "expansionQueue = 3"
definition schedulingQueue :: nat where "schedulingQueue = 4"

section \<open>Event factories and queues\<close>

text \<open>The constructor of \<open>mEvent\<close>: it asserts that no event is created in the past.\<close>

definition new_mEvent ::
  "int \<Rightarrow> ('c, 'u) eventPLD \<Rightarrow> ('c, 'u, 'v, 's) loop_state
     \<Rightarrow> (('c, 'u) mEvent \<times> ('c, 'u, 'v, 's) loop_state) result" where
  "new_mEvent T pl st =
     (if CurrentEvent st \<noteq> None \<and> T < SafeTime st then Inl AssertFailed
      else Inr (\<lparr>etime = T, secondaryKey = 0, event_id = currentEventID st + 1, payload = pl\<rparr>,
                st\<lparr>currentEventID := currentEventID st + 1\<rparr>))"

text \<open>
  The factories return NULL when the time is before the current event. \<open>T\<close> is the value of
  \<open>now\<close> that their callers set.
\<close>

definition before_current :: "int \<Rightarrow> ('c, 'u, 'v, 's) loop_state \<Rightarrow> bool" where
  "before_current T st = (case CurrentEvent st of None \<Rightarrow> False | Some (q, cur) \<Rightarrow> T < etime cur)"

definition event_factory ::
  "int \<Rightarrow> ('c, 'u) eventPLD \<Rightarrow> ('c, 'u, 'v, 's) loop_state
     \<Rightarrow> (('c, 'u) mEvent option \<times> ('c, 'u, 'v, 's) loop_state) result" where
  "event_factory T pl st =
     (if before_current T st then Inr (None, st)
      else bind_result (new_mEvent T pl st) (\<lambda>(n, st'). Inr (Some n, st')))"

fun get_queue :: "('c, 'u) eventPLD \<Rightarrow> nat" where
  "get_queue init_eventPLD = initializationQueue"
| "get_queue (usage_event u) = eventQueue"
| "get_queue (simple_wait_event c) = expansionQueue"
| "get_queue (wait_until_event c) = expansionQueue"
| "get_queue (wait_regexp_event c) = expansionQueue"
| "get_queue (resume_event c) = expansionQueue"

definition enqueue ::
  "nat \<Rightarrow> ('c, 'u) mEvent \<Rightarrow> ('c, 'u, 'v, 's) loop_state \<Rightarrow> ('c, 'u, 'v, 's) loop_state result" where
  "enqueue q n st =
     (case multilist_insert q n (Events st) of
        (M, Inl e) \<Rightarrow> Inl e
      | (M, Inr _) \<Rightarrow> Inr (st\<lparr>Events := M\<rparr>))"

definition queue_for :: "('c, 'u) mEvent \<Rightarrow> METHOD_TYPE \<Rightarrow> ('c, 'u, 'v, 's) loop_state \<Rightarrow> nat" where
  "queue_for n theAafSection st =
     (if get_queue (payload n) = expansionQueue then
        (if theAafSection = CONCUREXP then schedulingQueue
         else if (case CurrentEvent st of None \<Rightarrow> False | Some (q, cur) \<Rightarrow> etime cur = etime n)
              then currentQueue
         else expansionQueue)
      else eventQueue)"

definition add_timevent ::
  "('c, 'u) mEvent \<Rightarrow> METHOD_TYPE \<Rightarrow> ('c, 'u, 'v, 's) loop_state
     \<Rightarrow> ('c, 'u, 'v, 's) loop_state result" where
  "add_timevent n theAafSection st =
     (if before_current (etime n) st then Inl (EvalError ''chosen node time precedes CurrentEvent time'')
      else enqueue (queue_for n theAafSection st) n st)"

section \<open>Requests\<close>

definition WaitFor_execute ::
  "('c, 'u, 'v, 's) interpreter \<Rightarrow> 'c \<Rightarrow> TypedValue \<Rightarrow> ('c, 'u, 'v, 's) loop_state
     \<Rightarrow> ('c, 'u, 'v, 's) loop_state result" where
  "WaitFor_execute I c durval st =
     (let wait = (\<lambda>d.
            if d < 0 then Inl (EvalError ''executing WAIT_SIMPLE; Found negative duration'')
            else bind_result (event_factory (now st + d) (simple_wait_event c) st) (\<lambda>(node, st').
              (case node of
                 None \<Rightarrow> Inl (EvalError ''WAIT FOR error: earlier than Current Event time'')
               | Some n \<Rightarrow> add_timevent n (theSection I c) st')))
      in case durval of
           TIME T \<Rightarrow> if now st \<ge> T then Inr st else wait (T - now st)
         | DURATION d \<Rightarrow> wait d
         | _ \<Rightarrow> Inl (EvalError ''executing WAIT_SIMPLE; invalid duration expression''))"

text \<open>\<open>WaitUntil::execute\<close> and \<open>WaitUntilRegexp::execute\<close>: a NULL event is ignored.\<close>

definition WaitUntil_execute ::
  "('c, 'u, 'v, 's) interpreter \<Rightarrow> 'c \<Rightarrow> ('c, 'u) eventPLD \<Rightarrow> ('c, 'u, 'v, 's) loop_state
     \<Rightarrow> ('c, 'u, 'v, 's) loop_state result" where
  "WaitUntil_execute I c pl st =
     bind_result (event_factory (now st) pl st) (\<lambda>(node, st').
       (case node of None \<Rightarrow> Inr st' | Some n \<Rightarrow> add_timevent n (theSection I c) st'))"

text \<open>
  A usage before the current event is an error or, by default, skipped
  (\<open>CreatingEventsInThePast\<close>).
\<close>

definition Usage_execute ::
  "('c, 'u, 'v, 's) interpreter \<Rightarrow> int \<Rightarrow> 'u \<Rightarrow> bool \<Rightarrow> ('c, 'u, 'v, 's) loop_state
     \<Rightarrow> ('c, 'u, 'v, 's) loop_state result" where
  "Usage_execute I T u from_to st =
     (if before_current T st then
        (if hard_timing_errors I then Inl (EvalError ''Trying to create event in the past'') else Inr st)
      else bind_result (event_factory T (usage_event u) st) (\<lambda>(node, st').
        (case node of
           None \<Rightarrow> Inl NullAccess
         | Some n \<Rightarrow> add_timevent n USAGE
             (if from_to then st'\<lparr>currentEventID := currentEventID st' + 1\<rparr> else st'))))"

definition insert_trigger :: "int \<times> nat \<Rightarrow> (int \<times> nat) list \<Rightarrow> (int \<times> nat) list" where
  "insert_trigger t ts =
     takeWhile (\<lambda>u. fst u \<le> fst t) ts @ t # dropWhile (\<lambda>u. fst u \<le> fst t) ts"

fun do_request ::
  "('c, 'u, 'v, 's) interpreter \<Rightarrow> ('c, 'u, 'v) request \<Rightarrow> ('c, 'u, 'v, 's) loop_state
     \<Rightarrow> ('c, 'u, 'v, 's) loop_state result" where
  "do_request I (WaitFor c v) st = WaitFor_execute I c v st"
| "do_request I (WaitUntil c) st = WaitUntil_execute I c (wait_until_event c) st"
| "do_request I (WaitUntilRegexp c) st = WaitUntil_execute I c (wait_regexp_event c) st"
| "do_request I (Usage T u) st = Usage_execute I T u False st"
| "do_request I (UsageFromTo T T' u) st =
     (if \<not> before_current T st \<and> T' < T
      then Inl (EvalError ''usage clause ends at an earlier time'')
      else Usage_execute I T u True st)"
| "do_request I (SendSignal s v) st =
     bind_result (add_a_signal (regexec I) s v (signals st)) (\<lambda>S. Inr (st\<lparr>signals := S\<rparr>))"
| "do_request I (HistoryNode T k) st =
     Inr (st\<lparr>potential_triggers := insert_trigger (T, k) (potential_triggers st)\<rparr>)"

fun do_requests ::
  "('c, 'u, 'v, 's) interpreter \<Rightarrow> ('c, 'u, 'v) request list \<Rightarrow> ('c, 'u, 'v, 's) loop_state
     \<Rightarrow> ('c, 'u, 'v, 's) loop_state result" where
  "do_requests I [] st = Inr st"
| "do_requests I (r # rs) st = bind_result (do_request I r st) (do_requests I rs)"

definition perform ::
  "('c, 'u, 'v, 's) interpreter \<Rightarrow> ('s \<times> ('c, 'u, 'v) request list) result
     \<Rightarrow> ('c, 'u, 'v, 's) loop_state \<Rightarrow> ('c, 'u, 'v, 's) loop_state result" where
  "perform I r st = bind_result r (\<lambda>(w, rs). do_requests I rs (st\<lparr>world := w\<rparr>))"

definition run_thread ::
  "('c, 'u, 'v, 's) interpreter \<Rightarrow> 'c \<Rightarrow> ('c, 'u, 'v, 's) loop_state
     \<Rightarrow> ('c, 'u, 'v, 's) loop_state result" where
  "run_thread I c st =
     perform I (Execute I c (world st) (now st) (get_all_signals (signals st))) st"

section \<open>Waiting\<close>

definition watch :: "nat \<Rightarrow> nat list \<Rightarrow> nat list" where
  "watch k ks = (if k \<in> set ks then ks else ks @ [k])"

fun watch_containers ::
  "('c, 'u, 'v, 's) interpreter \<Rightarrow> nat option list \<Rightarrow> nat list \<Rightarrow> nat list result" where
  "watch_containers I [] ks = Inr ks"
| "watch_containers I (None # cs) ks = Inl (EvalError ''first_time_waiting: cannot find resource container'')"
| "watch_containers I (Some k # cs) ks =
     watch_containers I cs (fold watch (ptrs_to_containers_used_in_profile I k) (watch k ks))"

text \<open>
  Returns whether the thread may proceed at once (\<open>exec_status::NOOP\<close>); otherwise the thread is
  parked under the identification of the current event.
\<close>

definition first_time_waiting ::
  "('c, 'u, 'v, 's) interpreter \<Rightarrow> 'c \<Rightarrow> bool \<Rightarrow> ('c, 'u, 'v, 's) loop_state
     \<Rightarrow> (bool \<times> ('c, 'u, 'v, 's) loop_state) result" where
  "first_time_waiting I c until_regexp st =
     (case eval_expression I c (world st) (now st) of
        Inl (EvalError m) \<Rightarrow> Inl (EvalError ''first_time_waiting: evaluation error in condition'')
      | Inl e \<Rightarrow> Inl e
      | Inr v \<Rightarrow>
          if \<not> is_string v \<and> \<not> is_int v
          then Inl (EvalError ''first_time_waiting: WAIT_UNTIL condition is neither a string nor a boolean.'')
          else if is_int v \<and> get_int v > 0 then Inr (True, st)
          else
            bind_result
              (if is_int v then watch_containers I (container_names I c) (containersToWatchForWaitUntil st)
               else Inr (containersToWatchForWaitUntil st)) (\<lambda>ks.
            (case CurrentEvent st of
               None \<Rightarrow> Inl NullAccess
             | Some (q, cur) \<Rightarrow>
                 (let k = event_id cur;
                      i_n = \<lparr>Calls = c, cond_is_a_reg_exp = (is_string v \<and> until_regexp)\<rparr>;
                      st' = st\<lparr>containersToWatchForWaitUntil := ks,
                               where_to_go := where_to_go st @ [(k, i_n)]\<rparr>
                  in Inr (False,
                       if is_string v then
                         (if k \<in> set (actsOrResWaitingOnSignals st) then st'
                          else st'\<lparr>actsOrResWaitingOnSignals := actsOrResWaitingOnSignals st @ [k]\<rparr>)
                       else
                         (if k \<in> set (actsOrResWaitingOnCond st) then st'
                          else st'\<lparr>actsOrResWaitingOnCond := actsOrResWaitingOnCond st @ [k]\<rparr>))))))"

section \<open>Processing one event\<close>

definition reenter_wait ::
  "('c, 'u, 'v, 's) interpreter \<Rightarrow> 'c \<Rightarrow> bool \<Rightarrow> ('c, 'u, 'v, 's) loop_state
     \<Rightarrow> ('c, 'u, 'v, 's) loop_state result" where
  "reenter_wait I c until_regexp st =
     bind_result (first_time_waiting I c until_regexp st) (\<lambda>(proceed, st').
       if proceed then run_thread I (next_instruction I c) st' else Inr st')"

fun do_model ::
  "('c, 'u, 'v, 's) interpreter \<Rightarrow> ('c, 'u) eventPLD \<Rightarrow> ('c, 'u, 'v, 's) loop_state
     \<Rightarrow> ('c, 'u, 'v, 's) loop_state result" where
  "do_model I init_eventPLD st =
     perform I (initialize_value I (world st) (now st)) (st\<lparr>potential_triggers := []\<rparr>)"
| "do_model I (usage_event u) st =
     (if \<not> usage_enabled I u (world st) then Inr st
      else perform I (call_usage_method I u (world st) (now st) (get_all_signals (signals st))) st)"
| "do_model I (simple_wait_event c) st =
     (if \<not> enabled I c (world st) then Inr st else run_thread I (next_instruction I c) st)"
| "do_model I (wait_until_event c) st =
     (if \<not> enabled I c (world st) then Inr st else reenter_wait I c False st)"
| "do_model I (wait_regexp_event c) st =
     (if \<not> enabled I c (world st) then Inr st else reenter_wait I c True st)"
| "do_model I (resume_event c) st =
     (if \<not> enabled I c (world st) then Inr st else run_thread I c st)"

section \<open>Finding a thread to resume\<close>

definition unpark ::
  "nat \<Rightarrow> ('c, 'u, 'v, 's) loop_state \<Rightarrow> ('c, 'u, 'v, 's) loop_state" where
  "unpark k st = st\<lparr>
     actsOrResWaitingOnSignals := filter (\<lambda>j. j \<noteq> k) (actsOrResWaitingOnSignals st),
     actsOrResWaitingOnCond := filter (\<lambda>j. j \<noteq> k) (actsOrResWaitingOnCond st),
     where_to_go := filter (\<lambda>e. fst e \<noteq> k) (where_to_go st)\<rparr>"

fun signals_loop ::
  "('c, 'u, 'v, 's) interpreter \<Rightarrow> nat list \<Rightarrow> ('c, 'u, 'v, 's) loop_state
     \<Rightarrow> ('c option \<times> ('c, 'u, 'v, 's) loop_state) result" where
  "signals_loop I [] st = Inr (None, st)"
| "signals_loop I (k # ks) st =
     (case map_of (where_to_go st) k of
        None \<Rightarrow> Inl (EvalError ''try_signals_first: Hey! nowhere to go'')
      | Some i_n \<Rightarrow>
          bind_result (eval_expression I (Calls i_n) (world st) (now st)) (\<lambda>v.
            (case v of
               STRING w \<Rightarrow>
                 if cond_is_a_reg_exp i_n then
                   (case a_signal_matches (regcomp I) (regexec I) w (signals st) of
                      (S, Inl e) \<Rightarrow> Inl e
                    | (S, Inr b) \<Rightarrow>
                        (let st' = st\<lparr>signals := S\<rparr> in
                         if b then Inr (Some (Calls i_n), unpark k st') else signals_loop I ks st'))
                 else if find_a_signal w (signals st) \<noteq> None
                   then Inr (Some (Calls i_n), unpark k st)
                 else signals_loop I ks st
             | _ \<Rightarrow> Inl AssertFailed)))"

definition try_signals_first ::
  "('c, 'u, 'v, 's) interpreter \<Rightarrow> ('c, 'u, 'v, 's) loop_state
     \<Rightarrow> ('c option \<times> ('c, 'u, 'v, 's) loop_state) result" where
  "try_signals_first I st = signals_loop I (actsOrResWaitingOnSignals st) st"

fun conditions_loop ::
  "('c, 'u, 'v, 's) interpreter \<Rightarrow> int \<Rightarrow> nat list \<Rightarrow> ('c, 'u, 'v, 's) loop_state
     \<Rightarrow> ('c option \<times> ('c, 'u, 'v, 's) loop_state) result" where
  "conditions_loop I eval_time [] st = Inr (None, st)"
| "conditions_loop I eval_time (k # ks) st =
     (case map_of (where_to_go st) k of
        None \<Rightarrow> Inl (EvalError ''try_conditions_next: Hey! nowhere to go'')
      | Some i_n \<Rightarrow>
          bind_result (eval_expression I (Calls i_n) (world st) eval_time) (\<lambda>v.
            if \<not> is_boolean v then Inl AssertFailed
            else if get_int v > 0 then Inr (Some (Calls i_n), unpark k st)
            else conditions_loop I eval_time ks st))"

definition try_conditions_next ::
  "('c, 'u, 'v, 's) interpreter \<Rightarrow> int \<Rightarrow> ('c, 'u, 'v, 's) loop_state
     \<Rightarrow> ('c option \<times> ('c, 'u, 'v, 's) loop_state) result" where
  "try_conditions_next I eval_time st = conditions_loop I eval_time (actsOrResWaitingOnCond st) st"

text \<open>
  The loops over the potential triggers; the list argument is what the iterator has still to
  return. In the second loop the flag is not initialized when the loop starts.
\<close>

fun unblocked_now_loop ::
  "('c, 'u, 'v, 's) interpreter \<Rightarrow> int \<Rightarrow> bool \<Rightarrow> (int \<times> nat) list \<Rightarrow> ('c, 'u, 'v, 's) loop_state
     \<Rightarrow> ('c option \<times> ('c, 'u, 'v, 's) loop_state) result" where
  "unblocked_now_loop I Tcurrent tried [] st = Inr (None, st\<lparr>potential_triggers := []\<rparr>)"
| "unblocked_now_loop I Tcurrent tried (t # ts) st =
     (if fst t < Tcurrent then unblocked_now_loop I Tcurrent tried ts st
      else if fst t > Tcurrent then Inr (None, st\<lparr>potential_triggers := t # ts\<rparr>)
      else if \<not> tried \<and> snd t \<in> set (containersToWatchForWaitUntil st) then
        bind_result (try_conditions_next I (fst t) st) (\<lambda>(found, st').
          (case found of
             Some c \<Rightarrow> Inr (Some c, st'\<lparr>potential_triggers := ts\<rparr>)
           | None \<Rightarrow> unblocked_now_loop I Tcurrent True ts st'))
      else unblocked_now_loop I Tcurrent tried ts st)"

definition one_thread_can_be_unblocked_now ::
  "('c, 'u, 'v, 's) interpreter \<Rightarrow> int \<Rightarrow> ('c, 'u, 'v, 's) loop_state
     \<Rightarrow> ('c option \<times> ('c, 'u, 'v, 's) loop_state) result" where
  "one_thread_can_be_unblocked_now I Tcurrent st =
     bind_result
       (if number_of_recent_signals (signals st) > 0 then try_signals_first I st else Inr (None, st))
       (\<lambda>(found, st').
         (case found of
            Some c \<Rightarrow> Inr (Some c, st')
          | None \<Rightarrow> unblocked_now_loop I Tcurrent False (potential_triggers st') st'))"

fun near_future_loop ::
  "('c, 'u, 'v, 's) interpreter \<Rightarrow> int \<Rightarrow> int option \<Rightarrow> bool \<Rightarrow> int \<Rightarrow> (int \<times> nat) list
     \<Rightarrow> ('c, 'u, 'v, 's) loop_state \<Rightarrow> (('c \<times> int) option \<times> ('c, 'u, 'v, 's) loop_state) result" where
  "near_future_loop I Tcurrent limit tried last_attempt [] st = Inr (None, st\<lparr>potential_triggers := []\<rparr>)"
| "near_future_loop I Tcurrent limit tried last_attempt (t # ts) st =
     (if fst t \<le> Tcurrent then near_future_loop I Tcurrent limit tried last_attempt ts st
      else if (case limit of None \<Rightarrow> False | Some T \<Rightarrow> fst t \<ge> T)
        then Inr (None, st\<lparr>potential_triggers := t # ts\<rparr>)
      else
        (let tried' = (if fst t > last_attempt then False else tried) in
         if \<not> tried' \<and> snd t \<in> set (containersToWatchForWaitUntil st) then
           bind_result (try_conditions_next I (fst t) st) (\<lambda>(found, st').
             (case found of
                Some c \<Rightarrow> Inr (Some (c, fst t), st'\<lparr>potential_triggers := ts\<rparr>)
              | None \<Rightarrow> near_future_loop I Tcurrent limit True (fst t) ts st'))
         else near_future_loop I Tcurrent limit tried' last_attempt ts st))"

definition one_thread_can_be_unblocked_in_the_near_future ::
  "('c, 'u, 'v, 's) interpreter \<Rightarrow> int \<Rightarrow> ('c, 'u) mEvent option \<Rightarrow> ('c, 'u, 'v, 's) loop_state
     \<Rightarrow> (('c \<times> int) option \<times> ('c, 'u, 'v, 's) loop_state) result" where
  "one_thread_can_be_unblocked_in_the_near_future I Tcurrent new_event st =
     (if (case new_event of None \<Rightarrow> False | Some n \<Rightarrow> etime n \<le> Tcurrent) then Inl AssertFailed
      else near_future_loop I Tcurrent (map_option etime new_event) (uninitialized I) TIME_BIT
             (potential_triggers st) st)"

text \<open>
  \<open>advance_now_to\<close> without the trailing threads; \<open>delete_old_events\<close> is what it does to the
  histories in the second scheduling pass.
\<close>

definition advance_now_to ::
  "('c, 'u, 'v, 's) interpreter \<Rightarrow> int \<Rightarrow> bool \<Rightarrow> ('c, 'u, 'v, 's) loop_state
     \<Rightarrow> ('c, 'u, 'v, 's) loop_state result" where
  "advance_now_to I new_time tolerate_equality st =
     (if new_time = now st \<and> \<not> tolerate_equality then Inl (EvalError ''advance_now: equal times'')
      else bind_result (delete_old_events I new_time (world st)) (\<lambda>w.
        Inr (st\<lparr>world := w, now := new_time\<rparr>)))"

text \<open>The last handler of \<open>can_a_thread_be_unlocked\<close> builds a message and does not throw it.\<close>

definition swallow_eval_error ::
  "('c, 'u, 'v, 's) loop_state result \<Rightarrow> ('c, 'u, 'v, 's) loop_state
     \<Rightarrow> ('c, 'u, 'v, 's) loop_state result" where
  "swallow_eval_error r st = (case r of Inl (EvalError m) \<Rightarrow> Inr st | _ \<Rightarrow> r)"

definition can_a_thread_be_unlocked ::
  "('c, 'u, 'v, 's) interpreter \<Rightarrow> ('c, 'u) mEvent option \<Rightarrow> ('c, 'u, 'v, 's) loop_state
     \<Rightarrow> ('c option \<times> ('c, 'u, 'v, 's) loop_state) result" where
  "can_a_thread_be_unlocked I next_event st =
     bind_result (one_thread_can_be_unblocked_now I (time_last_processed st) st) (\<lambda>(found, st1).
       (case found of
          Some c \<Rightarrow> Inr (Some c, st1)
        | None \<Rightarrow>
            bind_result
              (one_thread_can_be_unblocked_in_the_near_future I (time_last_processed st) next_event st1)
              (\<lambda>(found2, st2).
                (case found2 of
                   Some (c, T) \<Rightarrow>
                     if \<not> time_last_processed st < T
                       \<or> (case next_event of None \<Rightarrow> False | Some n \<Rightarrow> \<not> T < etime n)
                     then Inl AssertFailed
                     else bind_result (swallow_eval_error (advance_now_to I T False st2) st2)
                            (\<lambda>st3. Inr (Some c, st3))
                 | None \<Rightarrow>
                     bind_result
                       (if next_event = None
                        then swallow_eval_error
                               (advance_now_to I (time_last_processed st) True st2) st2
                        else Inr st2)
                       (\<lambda>st3. Inr (None, st3))))))"

section \<open>The loop\<close>

definition resume_thread ::
  "('c, 'u, 'v, 's) interpreter \<Rightarrow> 'c \<Rightarrow> ('c, 'u, 'v, 's) loop_state
     \<Rightarrow> ('c, 'u, 'v, 's) loop_state result" where
  "resume_thread I c st =
     bind_result (event_factory (now st) (resume_event (next_instruction I c)) st) (\<lambda>(node, st').
       (case node of
          None \<Rightarrow> Inr st'
        | Some n \<Rightarrow> add_timevent n (theSection I (next_instruction I c)) st'))"

definition process_event ::
  "('c, 'u, 'v, 's) interpreter \<Rightarrow> ('c, 'u) mEvent \<Rightarrow> ('c, 'u, 'v, 's) loop_state
     \<Rightarrow> ('c, 'u, 'v, 's) loop_state result" where
  "process_event I nextEvent st =
     bind_result
       (case CurrentEvent st of
          None \<Rightarrow> Inr (Events st)
        | Some (q, cur) \<Rightarrow> multilist_remove q cur (Events st)) (\<lambda>M.
     (case miter_front M of
        None \<Rightarrow> Inl AssertFailed
      | Some (q, n) \<Rightarrow>
          if event_id n \<noteq> event_id nextEvent then Inl AssertFailed
          else
            bind_result
              (advance_now_to I (etime n) True
                 (st\<lparr>Events := miter_pop M, CurrentEvent := Some (q, n),
                     time_last_processed := etime n, SafeTime := etime n\<rparr>))
              (do_model I (payload n))))"

text \<open>One round of the loop of \<open>ProcessEvents\<close>; the flag says whether the loop goes on.\<close>

definition loop_body ::
  "('c, 'u, 'v, 's) interpreter \<Rightarrow> ('c, 'u, 'v, 's) loop_state
     \<Rightarrow> (bool \<times> ('c, 'u, 'v, 's) loop_state) result" where
  "loop_body I st =
     (case miter_peek (Events st) of
        None \<Rightarrow>
          bind_result (can_a_thread_be_unlocked I None st) (\<lambda>(found, st1).
            (case found of
               Some c \<Rightarrow> bind_result (resume_thread I c st1) (\<lambda>st2. Inr (True, st2))
             | None \<Rightarrow> Inr (False, st1)))
      | Some nextEvent \<Rightarrow>
          if etime nextEvent > time_last_processed st then
            bind_result (can_a_thread_be_unlocked I (Some nextEvent) st) (\<lambda>(found, st1).
              (case found of
                 Some c \<Rightarrow> bind_result (resume_thread I c st1) (\<lambda>st2. Inr (True, st2))
               | None \<Rightarrow>
                   (let st2 = st1\<lparr>signals := clear_signals (signals st1)\<rparr> in
                    if map_option event_id (miter_peek (Events st2)) \<noteq> Some (event_id nextEvent)
                    then Inr (True, st2)
                    else bind_result (process_event I nextEvent st2) (\<lambda>st3. Inr (True, st3)))))
          else bind_result (process_event I nextEvent st) (\<lambda>st3. Inr (True, st3)))"

fun event_loop ::
  "nat \<Rightarrow> ('c, 'u, 'v, 's) interpreter \<Rightarrow> ('c, 'u, 'v, 's) loop_state
     \<Rightarrow> ('c, 'u, 'v, 's) loop_state result option" where
  "event_loop 0 I st = None"
| "event_loop (Suc fuel) I st =
     (case loop_body I st of
        Inl e \<Rightarrow> Some (Inl e)
      | Inr (goes_on, st') \<Rightarrow> if goes_on then event_loop fuel I st' else Some (Inr st'))"

text \<open>
  \<open>ProcessEvents\<close>: the checks, the first event, the loop, and the clean-up of the signals and
  patterns. An error of the loop is rethrown.
\<close>

definition first_event ::
  "('c, 'u, 'v, 's) interpreter \<Rightarrow> ('c, 'u, 'v, 's) loop_state
     \<Rightarrow> ('c, 'u, 'v, 's) loop_state result" where
  "first_event I st =
     (case miter_next (Events st) of
        (Some _, _) \<Rightarrow> Inl AssertFailed
      | (None, M) \<Rightarrow>
          if actsOrResWaitingOnSignals st \<noteq> [] \<or> actsOrResWaitingOnCond st \<noteq> [] \<or> where_to_go st \<noteq> []
          then Inl AssertFailed
          else
            (case miter_front M of
               None \<Rightarrow> Inl AssertFailed
             | Some (q, n) \<Rightarrow>
                 bind_result
                   (do_model I (payload n)
                      (st\<lparr>Events := miter_pop M, CurrentEvent := Some (q, n)\<rparr>)) (\<lambda>st1.
                   advance_now_to I (etime n) True
                     (st1\<lparr>time_last_processed := etime n, SafeTime := etime n\<rparr>))))"

definition ProcessEvents ::
  "nat \<Rightarrow> ('c, 'u, 'v, 's) interpreter \<Rightarrow> ('c, 'u, 'v, 's) loop_state
     \<Rightarrow> ('c, 'u, 'v, 's) loop_state result option" where
  "ProcessEvents fuel I st =
     (case first_event I st of
        Inl e \<Rightarrow> Some (Inl e)
      | Inr st1 \<Rightarrow>
          map_option (\<lambda>r. bind_result r (\<lambda>st2.
              Inr (st2\<lparr>signals := clear_patterns (clear_signals (signals st2))\<rparr>)))
            (event_loop fuel I st1))"

text \<open>\<open>model_intfc::doModel\<close> registers the five queues before it processes the events.\<close>

definition register_queues ::
  "(nat \<Rightarrow> ('c, 'u) eventPLD tlist) \<Rightarrow> ('c, 'u) eventPLD miterator result" where
  "register_queues L =
     bind_result (add_thread initializationQueue (L initializationQueue) ''initialization events'' 0 empty_miterator)
     (\<lambda>M0. bind_result (add_thread eventQueue (L eventQueue) ''regular events'' 1 M0)
     (\<lambda>M1. bind_result (add_thread currentQueue (L currentQueue) ''current events'' 2 M1)
     (\<lambda>M2. bind_result (add_thread expansionQueue (L expansionQueue) ''expansion events'' 3 M2)
     (\<lambda>M3. add_thread schedulingQueue (L schedulingQueue) ''scheduling events'' 4 M3))))"


text \<open>
  What \<open>PurgeSchedulingEvents\<close> and \<open>CleanupSchedulingStructures\<close> reset, and the time at which
  \<open>doModel\<close> leaves the clock; \<open>last_request\<close> is the time of the last activity request, if any.
\<close>

definition PurgeSchedulingEvents ::
  "('c, 'u, 'v, 's) loop_state \<Rightarrow> ('c, 'u, 'v, 's) loop_state" where
  "PurgeSchedulingEvents st = st\<lparr>
     Events := empty_miterator, CurrentEvent := None, containersToWatchForWaitUntil := [],
     actsOrResWaitingOnSignals := [], actsOrResWaitingOnCond := [], where_to_go := []\<rparr>"

definition LastEvent :: "int option \<Rightarrow> ('c, 'u) mEvent list \<Rightarrow> int option" where
  "LastEvent last_request ns =
     (if length ns > 1 then
        (case last_request of
           Some T \<Rightarrow> Some (if etime (last ns) > T then etime (last ns) else T)
         | None \<Rightarrow> Some (etime (last ns)))
      else last_request)"

definition model_done ::
  "int option \<Rightarrow> ('c, 'u, 'v, 's) loop_state \<Rightarrow> ('c, 'u, 'v, 's) loop_state" where
  "model_done last_request st =
     (let ns = (case threads (Events st) eventQueue of None \<Rightarrow> [] | Some th \<Rightarrow> nodes th) in
      PurgeSchedulingEvents
        (case LastEvent last_request ns of None \<Rightarrow> st | Some T \<Rightarrow> st\<lparr>now := T\<rparr>))"

definition doModel ::
  "nat \<Rightarrow> ('c, 'u, 'v, 's) interpreter \<Rightarrow> (nat \<Rightarrow> ('c, 'u) eventPLD tlist) \<Rightarrow> int option
     \<Rightarrow> ('c, 'u, 'v, 's) loop_state \<Rightarrow> ('c, 'u, 'v, 's) loop_state result option" where
  "doModel fuel I L last_request st =
     (case register_queues L of
        Inl e \<Rightarrow> Some (Inl e)
      | Inr M \<Rightarrow>
          map_option (\<lambda>r. bind_result r (\<lambda>st'. Inr (model_done last_request st')))
            (ProcessEvents fuel I (st\<lparr>Events := M\<rparr>)))"

end
