(* ===== verification/EventLoopInvariant.thy ===== *)
theory EventLoopInvariant
  imports EventLoop
begin

text \<open>
  The invariant of the modeling loop, and for every step of it what it does to the invariant and
  which errors it can end with.
\<close>

section \<open>Results\<close>

text \<open>\<open>yields E P r\<close>: the result is a value with \<open>P\<close> or an error with \<open>E\<close>.\<close>

definition yields :: "(ap_error \<Rightarrow> bool) \<Rightarrow> ('a \<Rightarrow> bool) \<Rightarrow> 'a result \<Rightarrow> bool" where
  "yields E P r = (case r of Inl e \<Rightarrow> E e | Inr a \<Rightarrow> P a)"

lemma yields_simps [simp]: "yields E P (Inl e) = E e" "yields E P (Inr a) = P a"
  by (simp_all add: yields_def)

lemma yields_bind: "yields E P (bind_result r k) = yields E (\<lambda>a. yields E P (k a)) r"
  by (cases r) (simp_all add: yields_def)

lemma yields_mono: "yields E P r \<Longrightarrow> (\<And>a. r = Inr a \<Longrightarrow> P a \<Longrightarrow> Q a) \<Longrightarrow> yields E Q r"
  by (cases r) auto

lemma yields_bindI:
  assumes "yields E P r" and "\<And>a. P a \<Longrightarrow> yields E Q (k a)"
  shows "yields E Q (bind_result r k)"
  using assms by (cases r) auto

section \<open>The invariant\<close>

definition queues :: "nat set" where
  "queues = {initializationQueue, eventQueue, currentQueue, expansionQueue, schedulingQueue}"

lemmas queue_defs =
  initializationQueue_def eventQueue_def currentQueue_def expansionQueue_def schedulingQueue_def

definition live :: "('c, 'u, 'v, 's) loop_state \<Rightarrow> (nat \<times> ('c, 'u) mEvent) set" where
  "live st = pending (Events st) \<union> passed (Events st)"

definition event_ids :: "(nat \<times> ('c, 'u) mEvent) set \<Rightarrow> nat set" where
  "event_ids A = (\<lambda>e. event_id (snd e)) ` A"

lemma event_ids_simps [simp]:
  "event_ids (insert e A) = insert (event_id (snd e)) (event_ids A)" "event_ids {} = {}"
  "event_ids (A \<union> B) = event_ids A \<union> event_ids B"
  by (auto simp: event_ids_def)

lemma event_idsI: "e \<in> A \<Longrightarrow> event_id (snd e) \<in> event_ids A"
  by (simp add: event_ids_def)

definition parked :: "('c, 'u, 'v, 's) loop_state \<Rightarrow> nat set" where
  "parked st = fst ` set (where_to_go st)"

text \<open>
  The threads that wait: each has exactly one entry in \<open>where_to_go\<close>, it is in one of the two
  lists, and the event under whose identification it waits is not in a queue any more.
\<close>

definition parked_ok :: "('c, 'u, 'v, 's) loop_state \<Rightarrow> bool" where
  "parked_ok st \<longleftrightarrow> distinct (map fst (where_to_go st))
     \<and> distinct (actsOrResWaitingOnSignals st @ actsOrResWaitingOnCond st)
     \<and> parked st = set (actsOrResWaitingOnSignals st) \<union> set (actsOrResWaitingOnCond st)
     \<and> (\<forall>k\<in>parked st. k \<le> currentEventID st)
     \<and> parked st \<inter> event_ids (pending (Events st)) = {}"

definition loop_ok :: "('c, 'u, 'v, 's) loop_state \<Rightarrow> bool" where
  "loop_ok st \<longleftrightarrow> started (Events st) \<and> dom (threads (Events st)) = queues
     \<and> inj_on (\<lambda>e. event_id (snd e)) (live st)
     \<and> (\<forall>k\<in>event_ids (live st). k \<le> currentEventID st)
     \<and> (\<forall>e\<in>pending (Events st). time_last_processed st \<le> etime (snd e))
     \<and> (\<exists>e. CurrentEvent st = Some e \<and> passed (Events st) = {e} \<and> e \<notin> pending (Events st)
            \<and> etime (snd e) = time_last_processed st)
     \<and> SafeTime st = time_last_processed st \<and> time_last_processed st \<le> now st
     \<and> parked_ok st"

text \<open>Parts of the state that the invariant does not mention.\<close>

lemma live_update [simp]:
  "live (st\<lparr>world := w\<rparr>) = live st" "live (st\<lparr>signals := S\<rparr>) = live st"
  "live (st\<lparr>potential_triggers := ts\<rparr>) = live st"
  "live (st\<lparr>containersToWatchForWaitUntil := ks\<rparr>) = live st"
  "live (st\<lparr>now := T\<rparr>) = live st" "live (st\<lparr>currentEventID := i\<rparr>) = live st"
  by (simp_all add: live_def)

lemma parked_ok_cong:
  assumes "where_to_go st' = where_to_go st"
    and "actsOrResWaitingOnSignals st' = actsOrResWaitingOnSignals st"
    and "actsOrResWaitingOnCond st' = actsOrResWaitingOnCond st"
    and "currentEventID st \<le> currentEventID st'" and "Events st' = Events st" and "parked_ok st"
  shows "parked_ok st'"
proof -
  have pk: "parked st' = parked st" by (simp add: parked_def assms(1))
  have "\<forall>k\<in>parked st. k \<le> currentEventID st'"
    using assms(6) order_trans[OF _ assms(4)] unfolding parked_ok_def by blast
  then show ?thesis using assms(6) unfolding parked_ok_def pk assms(1-3,5) by blast
qed

lemma parked_ok_update [simp]:
  "parked_ok (st\<lparr>world := w\<rparr>) = parked_ok st" "parked_ok (st\<lparr>signals := S\<rparr>) = parked_ok st"
  "parked_ok (st\<lparr>potential_triggers := ts\<rparr>) = parked_ok st"
  "parked_ok (st\<lparr>containersToWatchForWaitUntil := ks\<rparr>) = parked_ok st"
  "parked_ok (st\<lparr>now := T\<rparr>) = parked_ok st"
  by (rule iffI; rule parked_ok_cong; simp)+

lemma loop_ok_update [simp]:
  "loop_ok (st\<lparr>world := w\<rparr>) = loop_ok st"
  "loop_ok (st\<lparr>signals := S\<rparr>) = loop_ok st"
  "loop_ok (st\<lparr>potential_triggers := ts\<rparr>) = loop_ok st"
  "loop_ok (st\<lparr>containersToWatchForWaitUntil := ks\<rparr>) = loop_ok st"
  by (simp_all add: loop_ok_def)

lemma loop_ok_now: "loop_ok st \<Longrightarrow> time_last_processed st \<le> T \<Longrightarrow> loop_ok (st\<lparr>now := T\<rparr>)"
  by (simp add: loop_ok_def)

lemma loop_ok_bump: "loop_ok st \<Longrightarrow> currentEventID st \<le> i \<Longrightarrow> loop_ok (st\<lparr>currentEventID := i\<rparr>)"
proof -
  assume ok: "loop_ok st" and i: "currentEventID st \<le> i"
  have pk: "parked_ok st" using ok unfolding loop_ok_def by blast
  have "parked_ok (st\<lparr>currentEventID := i\<rparr>)"
    by (rule parked_ok_cong[OF _ _ _ _ _ pk]) (use i in simp_all)
  moreover have "\<forall>k\<in>event_ids (live st). k \<le> i"
    using ok order_trans[OF _ i] unfolding loop_ok_def by blast
  ultimately show "loop_ok (st\<lparr>currentEventID := i\<rparr>)" using ok by (simp add: loop_ok_def)
qed

lemma loop_okD:
  assumes "loop_ok st"
  obtains q cur where "CurrentEvent st = Some (q, cur)" and "passed (Events st) = {(q, cur)}"
    and "(q, cur) \<notin> pending (Events st)" and "etime cur = time_last_processed st"
    and "started (Events st)" and "dom (threads (Events st)) = queues"
    and "inj_on (\<lambda>e. event_id (snd e)) (live st)"
    and "\<forall>k\<in>event_ids (live st). k \<le> currentEventID st"
    and "\<forall>e\<in>pending (Events st). time_last_processed st \<le> etime (snd e)"
    and "SafeTime st = time_last_processed st" and "time_last_processed st \<le> now st"
    and "parked_ok st"
  using assms unfolding loop_ok_def by auto

lemma before_current_iff: "loop_ok st \<Longrightarrow> before_current T st \<longleftrightarrow> T < time_last_processed st"
  by (erule loop_okD) (simp add: before_current_def)

section \<open>Adding an event\<close>

lemma nodes_live:
  assumes "thread_ok th" and "threads (Events st) q = Some th"
  shows "m \<in> set (nodes th) \<longleftrightarrow> (q, m) \<in> live st"
  using thread_okE(1)[OF assms(1)] assms(2) by (auto simp: live_def pending_def passed_def)

lemma parked_ok_event:
  assumes "parked_ok st" and "k \<notin> parked st"
    and "event_ids (pending M) = insert k (event_ids (pending (Events st)))"
  shows "parked_ok (st\<lparr>Events := M\<rparr>)"
proof -
  have p: "parked (st\<lparr>Events := M\<rparr>) = parked st" by (simp add: parked_def)
  have "parked st \<inter> event_ids (pending (Events st)) = {}"
    using assms(1) unfolding parked_ok_def by blast
  then have "parked st \<inter> event_ids (pending M) = {}"
    unfolding assms(3) using assms(2) by blast
  then show ?thesis using assms(1) unfolding parked_ok_def p by simp
qed

lemma enqueue_ok:
  assumes ok: "loop_ok st" and q: "q \<in> queues"
    and n: "event_id n \<le> currentEventID st" "event_id n \<notin> event_ids (live st)"
      "event_id n \<notin> parked st" "time_last_processed st \<le> etime n"
  obtains M n' where "enqueue q n st = Inr (st\<lparr>Events := M\<rparr>)" and "loop_ok (st\<lparr>Events := M\<rparr>)"
    and "pending M = insert (q, n') (pending (Events st))" and "(q, n') \<notin> pending (Events st)"
    and "payload n' = payload n" and "etime n' = etime n"
proof -
  obtain p cur where d: "CurrentEvent st = Some (p, cur)" "passed (Events st) = {(p, cur)}"
    "(p, cur) \<notin> pending (Events st)" "etime cur = time_last_processed st"
    "started (Events st)" "dom (threads (Events st)) = queues"
    "inj_on (\<lambda>e. event_id (snd e)) (live st)"
    "\<forall>k\<in>event_ids (live st). k \<le> currentEventID st"
    "\<forall>e\<in>pending (Events st). time_last_processed st \<le> etime (snd e)"
    "SafeTime st = time_last_processed st" "time_last_processed st \<le> now st" "parked_ok st"
    using ok by (rule loop_okD)
  obtain th where th: "threads (Events st) q = Some th" using q d(6) by (auto simp: dom_def set_eq_iff)
  note tok = miter_okD(1)[OF startedD(1)[OF d(5)] th]
  have fresh: "event_id n \<notin> event_id ` set (nodes th)"
  proof
    assume "event_id n \<in> event_id ` set (nodes th)"
    then obtain m where "m \<in> set (nodes th)" "event_id n = event_id m" by blast
    then show False using n(2) nodes_live[OF tok th] event_idsI[of "(q, m)" "live st"] by simp
  qed
  have "m \<in> set (behind th) \<Longrightarrow> (q, m) \<in> {(p, cur)}" for m
    unfolding d(2)[symmetric] using th by (auto simp: passed_def)
  then have late: "\<forall>m\<in>set (behind th). etime m \<le> etime n" using d(4) n(4) by auto
  obtain n' M where i: "multilist_insert q n (Events st) = (M, Inr ())" "started M"
    "event_id n' = event_id n" "etime n' = etime n" "payload n' = payload n"
    "pending M = insert (q, n') (pending (Events st))" "passed M = passed (Events st)"
    "map_option priority \<circ> threads M = map_option priority \<circ> threads (Events st)"
    "(q, n') \<notin> pending (Events st)"
    using d(5) th fresh late by (rule multilist_insert_ok)
  have "dom (threads M) = dom (threads (Events st))"
    using i(8) by (metis dom_map_option_comp)
  moreover have lv: "live (st\<lparr>Events := M\<rparr>) = insert (q, n') (live st)"
    using i(6,7) by (simp add: live_def)
  moreover have "inj_on (\<lambda>e. event_id (snd e)) (insert (q, n') (live st))"
    using d(7) n(2) i(3) by (auto simp: inj_on_insert event_ids_def)
  moreover have "(p, cur) \<noteq> (q, n')" using n(2) i(3) d(2) by (auto simp: live_def)
  moreover have eid: "event_ids (pending M) = insert (event_id n) (event_ids (pending (Events st)))"
    using i(3,6) by simp
  moreover have "parked_ok (st\<lparr>Events := M\<rparr>)"
    by (rule parked_ok_event[OF d(12) n(3) eid])
  ultimately have "loop_ok (st\<lparr>Events := M\<rparr>)"
    using d i n by (auto simp: loop_ok_def)
  moreover have "enqueue q n st = Inr (st\<lparr>Events := M\<rparr>)" using i(1) by (simp add: enqueue_def)
  ultimately show ?thesis using that i(4,5,6,9) by blast
qed

text \<open>What a request may change besides the queues, and by which events the queues may grow.\<close>

definition same_frame :: "('c, 'u, 'v, 's) loop_state \<Rightarrow> ('c, 'u, 'v, 's) loop_state \<Rightarrow> bool" where
  "same_frame st st' \<longleftrightarrow> CurrentEvent st' = CurrentEvent st
     \<and> time_last_processed st' = time_last_processed st \<and> now st' = now st
     \<and> where_to_go st' = where_to_go st
     \<and> actsOrResWaitingOnSignals st' = actsOrResWaitingOnSignals st
     \<and> actsOrResWaitingOnCond st' = actsOrResWaitingOnCond st"

lemma same_frame_refl [simp]: "same_frame st st"
  by (simp add: same_frame_def)

lemma same_frame_trans: "same_frame st st' \<Longrightarrow> same_frame st' st'' \<Longrightarrow> same_frame st st''"
  by (simp add: same_frame_def)

definition grows_by ::
  "('c, 'u) eventPLD option \<Rightarrow> ('c, 'u, 'v, 's) loop_state \<Rightarrow> ('c, 'u, 'v, 's) loop_state \<Rightarrow> bool" where
  "grows_by pl st st' \<longleftrightarrow> pending (Events st') = pending (Events st)
     \<or> (\<exists>q n. pending (Events st') = insert (q, n) (pending (Events st))
          \<and> (q, n) \<notin> pending (Events st) \<and> pl = Some (payload n))"

lemma grows_by_refl [simp]: "grows_by pl st st"
  by (simp add: grows_by_def)

lemma add_event_ok:
  assumes ok: "loop_ok st" and T: "time_last_processed st \<le> T"
    and mono: "\<And>st'. currentEventID st' = currentEventID st + 1 \<Longrightarrow> currentEventID st' \<le> currentEventID (g st')"
    and g: "g (st\<lparr>currentEventID := currentEventID st + 1\<rparr>) = st\<lparr>currentEventID := j\<rparr>"
  shows "yields E (\<lambda>st'. loop_ok st' \<and> same_frame st st' \<and> grows_by (Some pl) st st' \<and> signals st' = signals st)
    (bind_result (event_factory T pl st) (\<lambda>(node, st').
       (case node of None \<Rightarrow> r | Some n \<Rightarrow> add_timevent n sec (g st'))))"
proof -
  let ?n = "\<lparr>etime = T, secondaryKey = 0, event_id = currentEventID st + 1, payload = pl\<rparr>"
  let ?st = "st\<lparr>currentEventID := j\<rparr>"
  have j: "currentEventID st + 1 \<le> j"
    using mono[of "st\<lparr>currentEventID := currentEventID st + 1\<rparr>"] g by simp
  have nb: "\<not> before_current T st" using before_current_iff[OF ok] T by simp
  have "SafeTime st = time_last_processed st" using ok by (rule loop_okD)
  then have fac: "event_factory T pl st = Inr (Some ?n, st\<lparr>currentEventID := currentEventID st + 1\<rparr>)"
    using nb T by (simp add: event_factory_def new_mEvent_def)
  have okj: "loop_ok ?st" using loop_ok_bump[OF ok] j by simp
  have lim: "\<forall>k\<in>event_ids (live st). k \<le> currentEventID st" using ok by (rule loop_okD)
  have pk: "parked_ok st" using ok by (rule loop_okD)
  let ?q = "queue_for ?n sec ?st"
  have q: "?q \<in> queues" by (simp add: queue_for_def queues_def)
  have fr: "event_id ?n \<notin> event_ids (live ?st)" using lim by auto
  have kf: "event_id ?n \<notin> parked ?st"
  proof
    assume "event_id ?n \<in> parked ?st"
    then have "currentEventID st + 1 \<in> parked st" by (simp add: parked_def)
    then have "currentEventID st + 1 \<le> currentEventID st" using pk unfolding parked_ok_def by blast
    then show False by simp
  qed
  obtain M n' where e: "enqueue ?q ?n ?st = Inr (?st\<lparr>Events := M\<rparr>)" "loop_ok (?st\<lparr>Events := M\<rparr>)"
    "pending M = insert (?q, n') (pending (Events ?st))" "(?q, n') \<notin> pending (Events ?st)"
    "payload n' = payload ?n" "etime n' = etime ?n"
    by (rule enqueue_ok[OF okj q _ fr kf]) (use j T in auto)
  have nb': "\<not> before_current (etime ?n) ?st" using nb by (simp add: before_current_def)
  have at: "add_timevent ?n sec ?st = Inr (?st\<lparr>Events := M\<rparr>)"
    using nb' e(1) by (simp only: add_timevent_def if_False)
  have "same_frame st (?st\<lparr>Events := M\<rparr>)" by (simp add: same_frame_def)
  moreover have "grows_by (Some pl) st (?st\<lparr>Events := M\<rparr>)"
    using e(3-5) by (auto simp: grows_by_def)
  moreover have "signals (?st\<lparr>Events := M\<rparr>) = signals st" by simp
  ultimately show ?thesis
    using e(2) by (simp only: fac bind_result_Inr prod.case option.case g at yields_simps simp_thms)
qed

section \<open>Requests\<close>

text \<open>
  Errors that would show an inconsistency of the loop itself. \<open>interp_ok I E\<close>: the calls of the
  interpreter end with errors in \<open>E\<close> only, and \<open>E\<close> contains all evaluation errors but those.
\<close>

definition internal_message :: "string \<Rightarrow> bool" where
  "internal_message m \<longleftrightarrow> m \<in> {''try_signals_first: Hey! nowhere to go'',
     ''try_conditions_next: Hey! nowhere to go'', ''chosen node time precedes CurrentEvent time'',
     ''WAIT FOR error: earlier than Current Event time'',
     ''handle_addition: earlier than the node before'', ''handle_addition: identical'',
     ''advance_now: equal times''}"

definition interp_ok :: "('c, 'u, 'v, 's) interpreter \<Rightarrow> (ap_error \<Rightarrow> bool) \<Rightarrow> bool" where
  "interp_ok I E \<longleftrightarrow> (\<forall>m. \<not> internal_message m \<longrightarrow> E (EvalError m))
     \<and> (\<forall>c s t sigs. yields E (\<lambda>_. True) (Execute I c s t sigs))
     \<and> (\<forall>u s t sigs. yields E (\<lambda>_. True) (call_usage_method I u s t sigs))
     \<and> (\<forall>s t. yields E (\<lambda>_. True) (initialize_value I s t))
     \<and> (\<forall>c s t. yields E (\<lambda>_. True) (eval_expression I c s t))
     \<and> (\<forall>t s. yields E (\<lambda>_. True) (delete_old_events I t s))"

lemma interp_okD:
  assumes "interp_ok I E"
  shows "\<not> internal_message m \<Longrightarrow> E (EvalError m)"
    and "yields E (\<lambda>_. True) (Execute I c s t sigs)"
    and "yields E (\<lambda>_. True) (call_usage_method I u s t sigs)"
    and "yields E (\<lambda>_. True) (initialize_value I s t)"
    and "yields E (\<lambda>_. True) (eval_expression I c s t)"
    and "yields E (\<lambda>_. True) (delete_old_events I t s)"
  using assms by (auto simp: interp_ok_def)

lemma not_internal [simp]:
  "\<not> internal_message ''executing WAIT_SIMPLE; Found negative duration''"
  "\<not> internal_message ''executing WAIT_SIMPLE; invalid duration expression''"
  "\<not> internal_message ''Trying to create event in the past''"
  "\<not> internal_message ''usage clause ends at an earlier time''"
  "\<not> internal_message ''first_time_waiting: cannot find resource container''"
  "\<not> internal_message ''first_time_waiting: evaluation error in condition''"
  "\<not> internal_message ''first_time_waiting: WAIT_UNTIL condition is neither a string nor a boolean.''"
  "\<not> internal_message ''a_signal_matches(): error in pattern ''"
  by (simp_all add: internal_message_def)

definition sig_ok :: "('c, 'u, 'v, 's) interpreter \<Rightarrow> (ap_error \<Rightarrow> bool) \<Rightarrow> ('c, 'u, 'v, 's) loop_state \<Rightarrow> bool" where
  "sig_ok I E st \<longleftrightarrow> (\<forall>e. E e) \<or> store_ok (regcomp I) (regexec I) (signals st)"

lemma sig_ok_cong: "signals st' = signals st \<Longrightarrow> sig_ok I E st' = sig_ok I E st"
  by (simp add: sig_ok_def)

fun spawned :: "('c, 'u, 'v) request \<Rightarrow> ('c, 'u) eventPLD option" where
  "spawned (WaitFor c v) = Some (simple_wait_event c)"
| "spawned (WaitUntil c) = Some (wait_until_event c)"
| "spawned (WaitUntilRegexp c) = Some (wait_regexp_event c)"
| "spawned (Usage T u) = Some (usage_event u)"
| "spawned (UsageFromTo T T' u) = Some (usage_event u)"
| "spawned (SendSignal s v) = None"
| "spawned (HistoryNode T k) = None"

definition request_post ::
  "('c, 'u, 'v, 's) interpreter \<Rightarrow> (ap_error \<Rightarrow> bool) \<Rightarrow> ('c, 'u) eventPLD option
     \<Rightarrow> ('c, 'u, 'v, 's) loop_state \<Rightarrow> ('c, 'u, 'v, 's) loop_state \<Rightarrow> bool" where
  "request_post I E pl st st' \<longleftrightarrow>
     loop_ok st' \<and> same_frame st st' \<and> grows_by pl st st' \<and> sig_ok I E st'"

lemma request_post_refl: "loop_ok st \<Longrightarrow> sig_ok I E st \<Longrightarrow> request_post I E pl st st"
  by (simp add: request_post_def)

lemma add_event_post:
  assumes "loop_ok st" and "sig_ok I E st" and "time_last_processed st \<le> T"
    and "\<And>st'. currentEventID st' = currentEventID st + 1 \<Longrightarrow> currentEventID st' \<le> currentEventID (g st')"
    and "g (st\<lparr>currentEventID := currentEventID st + 1\<rparr>) = st\<lparr>currentEventID := j\<rparr>"
  shows "yields E (request_post I E (Some pl) st)
    (bind_result (event_factory T pl st) (\<lambda>(node, st').
       (case node of None \<Rightarrow> r | Some n \<Rightarrow> add_timevent n sec (g st'))))"
  by (rule yields_mono[OF add_event_ok[OF assms(1,3,4,5)]])
    (use assms(2) in \<open>auto simp: request_post_def sig_ok_def\<close>)

lemmas add_event_plain = add_event_post[where g = "\<lambda>st. st", OF _ _ _ order_refl refl]

lemma add_event_from_to:
  assumes "loop_ok st" and "sig_ok I E st" and "time_last_processed st \<le> T"
  shows "yields E (request_post I E (Some pl) st)
    (bind_result (event_factory T pl st) (\<lambda>(node, st').
       (case node of None \<Rightarrow> r
        | Some n \<Rightarrow> add_timevent n sec (st'\<lparr>currentEventID := currentEventID st' + 1\<rparr>))))"
  by (rule add_event_post[where g = "\<lambda>st. st\<lparr>currentEventID := currentEventID st + 1\<rparr>", OF assms]) simp_all

lemma WaitFor_ok:
  assumes ok: "loop_ok st" "sig_ok I E st" and I: "interp_ok I E"
  shows "yields E (request_post I E (Some (simple_wait_event c)) st) (WaitFor_execute I c v st)"
proof -
  have nw: "time_last_processed st \<le> now st" using ok(1) by (rule loop_okD)
  have w: "yields E (request_post I E (Some (simple_wait_event c)) st)
      (if d < 0 then Inl (EvalError ''executing WAIT_SIMPLE; Found negative duration'')
       else bind_result (event_factory (now st + d) (simple_wait_event c) st) (\<lambda>(node, st').
         (case node of
            None \<Rightarrow> Inl (EvalError ''WAIT FOR error: earlier than Current Event time'')
          | Some n \<Rightarrow> add_timevent n (theSection I c) st')))" for d
    using interp_okD(1)[OF I] add_event_plain[OF ok, of "now st + d"] nw by simp
  show ?thesis
  proof (cases v)
    case (TIME T)
    have "now st + (T - now st) = T" by simp
    then show ?thesis
      using w[of "T - now st"] request_post_refl[OF ok] TIME
      by (cases "T \<le> now st") (simp_all add: WaitFor_execute_def Let_def)
  next
    case (DURATION d)
    then show ?thesis using w[of d] by (simp add: WaitFor_execute_def Let_def)
  qed (use interp_okD(1)[OF I] in \<open>simp_all add: WaitFor_execute_def Let_def\<close>)
qed

lemma WaitUntil_ok:
  assumes ok: "loop_ok st" "sig_ok I E st"
  shows "yields E (request_post I E (Some pl) st) (WaitUntil_execute I c pl st)"
proof -
  have nw: "time_last_processed st \<le> now st" using ok(1) by (rule loop_okD)
  have "WaitUntil_execute I c pl st = bind_result (event_factory (now st) pl st) (\<lambda>(node, st').
       (case node of None \<Rightarrow> Inr st | Some n \<Rightarrow> add_timevent n (theSection I c) st'))"
    by (auto simp: WaitUntil_execute_def event_factory_def new_mEvent_def)
  then show ?thesis using add_event_plain[OF ok nw] by simp
qed

lemma Usage_ok:
  assumes ok: "loop_ok st" "sig_ok I E st" and I: "interp_ok I E"
  shows "yields E (request_post I E (Some (usage_event u)) st) (Usage_execute I T u from_to st)"
proof (cases "before_current T st")
  case True
  then show ?thesis
    using interp_okD(1)[OF I] request_post_refl[OF ok] by (simp add: Usage_execute_def)
next
  case False
  then have T: "time_last_processed st \<le> T" using before_current_iff[OF ok(1)] by simp
  show ?thesis
  proof (cases from_to)
    case True
    show ?thesis
      unfolding Usage_execute_def if_not_P[OF False] if_P[OF True] by (rule add_event_from_to[OF ok T])
  next
    case f: False
    show ?thesis
      unfolding Usage_execute_def if_not_P[OF False] if_not_P[OF f] by (rule add_event_plain[OF ok T])
  qed
qed

lemma do_request_ok:
  assumes ok: "loop_ok st" "sig_ok I E st" and I: "interp_ok I E"
  shows "yields E (request_post I E (spawned r) st) (do_request I r st)"
proof (cases r)
  case (UsageFromTo T T' u)
  then show ?thesis using Usage_ok[OF ok I, of u T True] interp_okD(1)[OF I] by simp
next
  case (SendSignal s v)
  show ?thesis
  proof (cases "\<forall>e. E e")
    case True
    have "request_post I E None st (st\<lparr>signals := S\<rparr>)" for S
      using ok True by (simp add: request_post_def same_frame_def grows_by_def sig_ok_def)
    then show ?thesis using True SendSignal
      by (cases "add_a_signal (regexec I) s v (signals st)") simp_all
  next
    case False
    then have "store_ok (regcomp I) (regexec I) (signals st)" using ok(2) unfolding sig_ok_def by blast
    then obtain S where "add_a_signal (regexec I) s v (signals st) = Inr S"
      "store_ok (regcomp I) (regexec I) S" by (rule add_a_signal_ok)
    then show ?thesis using ok SendSignal
      by (simp add: request_post_def same_frame_def grows_by_def sig_ok_def)
  qed
next
  case (HistoryNode T k)
  then show ?thesis using ok by (simp add: request_post_def same_frame_def grows_by_def sig_ok_def)
qed (use WaitFor_ok[OF ok I] WaitUntil_ok[OF ok] Usage_ok[OF ok I] in simp_all)

text \<open>Sums over the events in the queues, for the termination of the loop.\<close>

definition queue_weight :: "(('c, 'u) eventPLD \<Rightarrow> nat) \<Rightarrow> ('c, 'u, 'v, 's) loop_state \<Rightarrow> nat" where
  "queue_weight w st = (\<Sum>e\<in>pending (Events st). w (payload (snd e)))"

definition requests_weight :: "(('c, 'u) eventPLD \<Rightarrow> nat) \<Rightarrow> ('c, 'u, 'v) request list \<Rightarrow> nat" where
  "requests_weight w rs = sum_list (map (\<lambda>r. case spawned r of None \<Rightarrow> 0 | Some pl \<Rightarrow> w pl) rs)"

lemma requests_weight_simps [simp]:
  "requests_weight w [] = 0"
  "requests_weight w (r # rs) = (case spawned r of None \<Rightarrow> 0 | Some pl \<Rightarrow> w pl) + requests_weight w rs"
  by (simp_all add: requests_weight_def)

lemma loop_finite: "loop_ok st \<Longrightarrow> finite (pending (Events st))"
  by (erule loop_okD) (rule finite_pending[OF startedD(1)])

lemma grows_weight:
  assumes "loop_ok st" and "grows_by pl st st'"
  shows "queue_weight w st' \<le> queue_weight w st + (case pl of None \<Rightarrow> 0 | Some p \<Rightarrow> w p)"
  using assms(2) loop_finite[OF assms(1)] by (auto simp: grows_by_def queue_weight_def)

definition requests_post ::
  "('c, 'u, 'v, 's) interpreter \<Rightarrow> (ap_error \<Rightarrow> bool) \<Rightarrow> ('c, 'u, 'v) request list
     \<Rightarrow> ('c, 'u, 'v, 's) loop_state \<Rightarrow> ('c, 'u, 'v, 's) loop_state \<Rightarrow> bool" where
  "requests_post I E rs st st' \<longleftrightarrow> loop_ok st' \<and> same_frame st st' \<and> sig_ok I E st'
     \<and> (\<forall>w. queue_weight w st' \<le> queue_weight w st + requests_weight w rs)"

lemma do_requests_ok:
  assumes "loop_ok st" and "sig_ok I E st" and I: "interp_ok I E"
  shows "yields E (requests_post I E rs st) (do_requests I rs st)"
  using assms(1,2)
proof (induction rs arbitrary: st)
  case Nil
  then show ?case by (simp add: requests_post_def)
next
  case (Cons r rs)
  have step: "yields E (requests_post I E (r # rs) st) (do_requests I rs st')"
    if p: "request_post I E (spawned r) st st'" for st'
  proof (rule yields_mono[OF Cons.IH])
    show "loop_ok st'" "sig_ok I E st'" using p by (simp_all add: request_post_def)
    fix st'' assume q: "requests_post I E rs st' st''"
    have "queue_weight w st'' \<le> queue_weight w st + requests_weight w (r # rs)" for w
    proof -
      have "queue_weight w st' \<le> queue_weight w st + (case spawned r of None \<Rightarrow> 0 | Some p \<Rightarrow> w p)"
        using p grows_weight[OF Cons.prems(1)] by (simp add: request_post_def)
      moreover have "queue_weight w st'' \<le> queue_weight w st' + requests_weight w rs"
        using q by (simp add: requests_post_def)
      ultimately show ?thesis by simp
    qed
    then show "requests_post I E (r # rs) st st''"
      using p q same_frame_trans by (auto simp: requests_post_def request_post_def)
  qed
  show ?case
    unfolding do_requests.simps by (rule yields_bindI[OF do_request_ok[OF Cons.prems I]]) (rule step)
qed

lemma requests_post_cong:
  assumes "Events st1 = Events st" and "same_frame st st1" and "requests_post I E rs st1 st'"
  shows "requests_post I E rs st st'"
  using assms same_frame_trans by (auto simp: requests_post_def queue_weight_def)

end
