(* ===== verification/EventLoopSteps.thy ===== *)
theory EventLoopSteps
  imports EventLoopInvariant
begin

text \<open>
  The steps of the modeling loop: what processing an event, looking for a thread to resume, and one
  round of the loop do to the invariant, to the times, and to the amount of work left.
\<close>

section \<open>Waiting threads\<close>

text \<open>The condition of a wait has always the same type: string or Boolean.\<close>

definition string_wait :: "('c, 'u, 'v, 's) interpreter \<Rightarrow> 'c \<Rightarrow> bool" where
  "string_wait I c \<longleftrightarrow> (\<forall>s t v. eval_expression I c s t = Inr v \<longrightarrow> is_string v)"

definition bool_wait :: "('c, 'u, 'v, 's) interpreter \<Rightarrow> 'c \<Rightarrow> bool" where
  "bool_wait I c \<longleftrightarrow> (\<forall>s t v. eval_expression I c s t = Inr v \<longrightarrow> is_boolean v)"

definition conditions_typed :: "('c, 'u, 'v, 's) interpreter \<Rightarrow> bool" where
  "conditions_typed I \<longleftrightarrow> (\<forall>c. string_wait I c \<or> bool_wait I c)"

definition waits_ok :: "('c, 'u, 'v, 's) interpreter \<Rightarrow> ('c, 'u, 'v, 's) loop_state \<Rightarrow> bool" where
  "waits_ok I st \<longleftrightarrow> (\<forall>e\<in>set (where_to_go st).
     (fst e \<in> set (actsOrResWaitingOnSignals st) \<longrightarrow> string_wait I (Calls (snd e)))
     \<and> (fst e \<in> set (actsOrResWaitingOnCond st) \<longrightarrow> bool_wait I (Calls (snd e))))"

definition run_ok ::
  "('c, 'u, 'v, 's) interpreter \<Rightarrow> (ap_error \<Rightarrow> bool) \<Rightarrow> ('c, 'u, 'v, 's) loop_state \<Rightarrow> bool" where
  "run_ok I E st \<longleftrightarrow> loop_ok st \<and> sig_ok I E st \<and> ((\<forall>e. E e) \<or> waits_ok I st)"

definition env_ok :: "('c, 'u, 'v, 's) interpreter \<Rightarrow> (ap_error \<Rightarrow> bool) \<Rightarrow> bool" where
  "env_ok I E \<longleftrightarrow> interp_ok I E \<and> ((\<forall>e. E e) \<or> conditions_typed I)"

lemma run_ok_update [simp]:
  "run_ok I E (st\<lparr>world := w\<rparr>) = run_ok I E st"
  "run_ok I E (st\<lparr>potential_triggers := ts\<rparr>) = run_ok I E st"
  "run_ok I E (st\<lparr>containersToWatchForWaitUntil := ks\<rparr>) = run_ok I E st"
  by (simp_all add: run_ok_def sig_ok_def waits_ok_def)

lemma run_ok_signals: "run_ok I E st \<Longrightarrow> sig_ok I E (st\<lparr>signals := S\<rparr>) \<Longrightarrow> run_ok I E (st\<lparr>signals := S\<rparr>)"
  by (simp add: run_ok_def waits_ok_def)

lemma run_ok_now: "run_ok I E st \<Longrightarrow> time_last_processed st \<le> T \<Longrightarrow> run_ok I E (st\<lparr>now := T\<rparr>)"
  using loop_ok_now[of st T] by (simp add: run_ok_def sig_ok_def waits_ok_def)

lemma waits_ok_frame: "same_frame st st' \<Longrightarrow> waits_ok I st' = waits_ok I st"
  by (simp add: waits_ok_def same_frame_def)

lemma run_ok_requests:
  "run_ok I E st \<Longrightarrow> requests_post I E rs st st' \<Longrightarrow> run_ok I E st'"
  using waits_ok_frame[of st st' I] by (auto simp: run_ok_def requests_post_def)

section \<open>The work that is left\<close>

definition wait_weight ::
  "(('c, 'u) eventPLD \<Rightarrow> nat) \<Rightarrow> ('c, 'u, 'v, 's) interpreter \<Rightarrow> ('c, 'u, 'v, 's) loop_state \<Rightarrow> nat" where
  "wait_weight w I st =
     sum_list (map (\<lambda>e. Suc (w (resume_event (next_instruction I (Calls (snd e)))))) (where_to_go st))"

definition work_left ::
  "(('c, 'u) eventPLD \<Rightarrow> nat) \<Rightarrow> ('c, 'u, 'v, 's) interpreter \<Rightarrow> ('c, 'u, 'v, 's) loop_state \<Rightarrow> nat" where
  "work_left w I st = queue_weight w st + wait_weight w I st"

text \<open>
  \<open>bounded_work I w\<close>: every event weighs more than all events that processing it can lead to,
  directly or after a wait. It is the condition under which a model ends.
\<close>

definition bounded_work :: "('c, 'u, 'v, 's) interpreter \<Rightarrow> (('c, 'u) eventPLD \<Rightarrow> nat) \<Rightarrow> bool" where
  "bounded_work I w \<longleftrightarrow> (\<forall>pl. 0 < w pl)
     \<and> (\<forall>c s t sigs s' rs. Execute I c s t sigs = Inr (s', rs) \<longrightarrow> requests_weight w rs < w (resume_event c))
     \<and> (\<forall>u s t sigs s' rs. call_usage_method I u s t sigs = Inr (s', rs)
          \<longrightarrow> requests_weight w rs < w (usage_event u))
     \<and> (\<forall>s t s' rs. initialize_value I s t = Inr (s', rs) \<longrightarrow> requests_weight w rs < w init_eventPLD)
     \<and> (\<forall>c. w (resume_event (next_instruction I c)) \<le> w (simple_wait_event c))
     \<and> (\<forall>c. Suc (w (resume_event (next_instruction I c))) < w (wait_until_event c))
     \<and> (\<forall>c. Suc (w (resume_event (next_instruction I c))) < w (wait_regexp_event c))"

lemma bounded_workD:
  assumes "bounded_work I w"
  shows "0 < w pl"
    and "Execute I c s t sigs = Inr (s', rs) \<Longrightarrow> requests_weight w rs < w (resume_event c)"
    and "call_usage_method I u s t sigs = Inr (s', rs) \<Longrightarrow> requests_weight w rs < w (usage_event u)"
    and "initialize_value I s t = Inr (s', rs) \<Longrightarrow> requests_weight w rs < w init_eventPLD"
    and "w (resume_event (next_instruction I c)) \<le> w (simple_wait_event c)"
    and "Suc (w (resume_event (next_instruction I c))) < w (wait_until_event c)"
    and "Suc (w (resume_event (next_instruction I c))) < w (wait_regexp_event c)"
  using assms by (auto simp: bounded_work_def)

lemma work_left_cong:
  "Events st' = Events st \<Longrightarrow> where_to_go st' = where_to_go st \<Longrightarrow> work_left w I st' = work_left w I st"
  by (simp add: work_left_def queue_weight_def wait_weight_def)

lemma wait_weight_cong: "where_to_go st' = where_to_go st \<Longrightarrow> wait_weight w I st' = wait_weight w I st"
  by (simp add: wait_weight_def)

section \<open>Processing an event\<close>

text \<open>What processing an event with payload \<open>pl\<close> leaves: the event has left the queues before.\<close>

definition model_post ::
  "('c, 'u, 'v, 's) interpreter \<Rightarrow> (ap_error \<Rightarrow> bool) \<Rightarrow> ('c, 'u) eventPLD
     \<Rightarrow> ('c, 'u, 'v, 's) loop_state \<Rightarrow> ('c, 'u, 'v, 's) loop_state \<Rightarrow> bool" where
  "model_post I E pl st st' \<longleftrightarrow> run_ok I E st' \<and> CurrentEvent st' = CurrentEvent st
     \<and> time_last_processed st' = time_last_processed st
     \<and> (\<forall>w. bounded_work I w \<longrightarrow> work_left w I st' < work_left w I st + w pl)"

lemma model_post_skip: "run_ok I E st \<Longrightarrow> model_post I E pl st st"
  using bounded_workD(1) by (auto simp: model_post_def)

lemma perform_ok:
  assumes ok: "run_ok I E st" and I: "interp_ok I E" and r: "yields E (\<lambda>_. True) r"
    and st0: "Events st0 = Events st" "same_frame st st0" "run_ok I E st0"
    and light: "\<And>w s' rs. bounded_work I w \<Longrightarrow> r = Inr (s', rs) \<Longrightarrow> requests_weight w rs < w pl"
  shows "yields E (model_post I E pl st) (perform I r st0)"
proof (cases r)
  case (Inl e)
  then show ?thesis using r by (simp add: perform_def)
next
  case (Inr p)
  obtain s' rs where p: "p = (s', rs)" by (cases p)
  let ?st = "st0\<lparr>world := s'\<rparr>"
  have l: "loop_ok ?st" "sig_ok I E ?st" using st0(3) by (simp_all add: run_ok_def sig_ok_def)
  have f: "Events ?st = Events st" "same_frame st ?st" using st0 by (simp_all add: same_frame_def)
  have rok: "run_ok I E ?st" using st0(3) by simp
  have "yields E (model_post I E pl st) (do_requests I rs ?st)"
  proof (rule yields_mono[OF do_requests_ok[OF l I]])
    fix st' assume q: "requests_post I E rs ?st st'"
    have rq: "requests_post I E rs st st'" by (rule requests_post_cong[OF f q])
    have "work_left w I st' < work_left w I st + w pl" if b: "bounded_work I w" for w
    proof -
      have "where_to_go st' = where_to_go st" using rq by (simp add: requests_post_def same_frame_def)
      moreover have "queue_weight w st' \<le> queue_weight w st + requests_weight w rs"
        using rq by (simp add: requests_post_def)
      moreover have "requests_weight w rs < w pl" using light[OF b] Inr p by simp
      ultimately show ?thesis using wait_weight_cong[of st' st w I] by (simp add: work_left_def)
    qed
    then show "model_post I E pl st st'"
      using run_ok_requests[OF rok q] rq by (auto simp: model_post_def requests_post_def same_frame_def)
  qed
  then show ?thesis by (simp add: perform_def Inr p)
qed

lemma run_thread_ok:
  assumes ok: "run_ok I E st" and I: "interp_ok I E"
    and light: "\<And>w. bounded_work I w \<Longrightarrow> w (resume_event c) \<le> w pl"
  shows "yields E (model_post I E pl st) (run_thread I c st)"
  unfolding run_thread_def
proof (rule perform_ok[OF ok I interp_okD(2)[OF I] refl same_frame_refl ok])
  fix w s' rs
  assume b: "bounded_work I w" and e: "Execute I c (world st) (now st) (get_all_signals (signals st)) = Inr (s', rs)"
  show "requests_weight w rs < w pl" using bounded_workD(2)[OF b e] light[OF b] by simp
qed

definition current_free :: "('c, 'u, 'v, 's) loop_state \<Rightarrow> bool" where
  "current_free st \<longleftrightarrow> (\<forall>q n. CurrentEvent st = Some (q, n) \<longrightarrow> event_id n \<notin> parked st)"

lemma park_ok:
  assumes ok: "run_ok I E st" and free: "current_free st" and cur: "CurrentEvent st = Some (q, cur)"
    and wty: "(\<forall>e. E e) \<or> (if on_signal then string_wait I (Calls i) else bool_wait I (Calls i))"
    and st': "st' = st\<lparr>containersToWatchForWaitUntil := ks, where_to_go := where_to_go st @ [(event_id cur, i)],
      actsOrResWaitingOnSignals := actsOrResWaitingOnSignals st @ (if on_signal then [event_id cur] else []),
      actsOrResWaitingOnCond := actsOrResWaitingOnCond st @ (if on_signal then [] else [event_id cur])\<rparr>"
  shows "run_ok I E st'"
proof -
  let ?k = "event_id cur"
  have lok: "loop_ok st" using ok by (simp add: run_ok_def)
  obtain p c where d: "CurrentEvent st = Some (p, c)" "passed (Events st) = {(p, c)}"
    "(p, c) \<notin> pending (Events st)" "inj_on (\<lambda>e. event_id (snd e)) (live st)"
    "\<forall>k\<in>event_ids (live st). k \<le> currentEventID st" "parked_ok st"
    using lok by (rule loop_okD)
  have cl: "(q, cur) \<in> live st" "(q, cur) \<notin> pending (Events st)"
    using d(1-3) cur by (auto simp: live_def)
  have kq: "?k \<notin> event_ids (pending (Events st))"
  proof
    assume "?k \<in> event_ids (pending (Events st))"
    then obtain e where e: "e \<in> pending (Events st)" "event_id (snd e) = ?k"
      by (auto simp: event_ids_def)
    then have "e = (q, cur)" using d(4) cl(1) by (auto simp: inj_on_def live_def)
    then show False using e(1) cl(2) by simp
  qed
  have kc: "?k \<le> currentEventID st" using d(5) event_idsI[OF cl(1)] by simp
  have kp: "?k \<notin> parked st" using free cur by (auto simp: current_free_def)
  have par: "parked st' = insert ?k (parked st)" by (simp add: st' parked_def)
  have pk: "parked st = set (actsOrResWaitingOnSignals st) \<union> set (actsOrResWaitingOnCond st)"
    "distinct (map fst (where_to_go st))"
    "distinct (actsOrResWaitingOnSignals st @ actsOrResWaitingOnCond st)"
    "\<forall>k\<in>parked st. k \<le> currentEventID st" "parked st \<inter> event_ids (pending (Events st)) = {}"
    using d(6) unfolding parked_ok_def by blast+
  have kw: "?k \<notin> set (actsOrResWaitingOnSignals st)" "?k \<notin> set (actsOrResWaitingOnCond st)"
    "?k \<notin> fst ` set (where_to_go st)"
    using kp pk(1) by (auto simp: parked_def)
  have "parked_ok st'"
    unfolding parked_ok_def par
  proof (intro conjI)
    show "distinct (map fst (where_to_go st'))" using pk(2) kw(3) by (simp add: st')
    show "distinct (actsOrResWaitingOnSignals st' @ actsOrResWaitingOnCond st')"
      using pk(3) kw(1,2) by (auto simp: st')
    show "insert ?k (parked st) = set (actsOrResWaitingOnSignals st') \<union> set (actsOrResWaitingOnCond st')"
      using pk(1) by (auto simp: st')
    show "\<forall>k\<in>insert ?k (parked st). k \<le> currentEventID st'" using pk(4) kc by (simp add: st')
    show "insert ?k (parked st) \<inter> event_ids (pending (Events st')) = {}"
      using pk(5) kq by (simp add: st')
  qed
  moreover have "live st' = live st" by (simp add: st' live_def)
  ultimately have "loop_ok st'" using lok by (simp add: loop_ok_def st')
  moreover have "sig_ok I E st'" using ok by (simp add: run_ok_def sig_ok_def st')
  moreover have "(\<forall>e. E e) \<or> waits_ok I st'"
  proof (cases "\<forall>e. E e")
    case False
    then have w: "waits_ok I st" "if on_signal then string_wait I (Calls i) else bool_wait I (Calls i)"
      using ok wty unfolding run_ok_def by blast+
    have "fst e \<noteq> ?k" if "e \<in> set (where_to_go st)" for e using that kw(3) by force
    then have "waits_ok I st'" using w kw by (auto simp: waits_ok_def st')
    then show ?thesis by blast
  qed blast
  ultimately show ?thesis by (simp add: run_ok_def)
qed

lemma watch_containers_ok:
  "interp_ok I E \<Longrightarrow> yields E (\<lambda>_. True) (watch_containers I cs ks)"
  using interp_okD(1)[of I E] by (induction I cs ks rule: watch_containers.induct) simp_all

lemma first_time_waiting_ok:
  assumes ok: "run_ok I E st" and env: "env_ok I E" and free: "current_free st"
  shows "yields E (\<lambda>(proceed, st'). if proceed then st' = st
      else run_ok I E st' \<and> CurrentEvent st' = CurrentEvent st \<and> Events st' = Events st
        \<and> time_last_processed st' = time_last_processed st
        \<and> (\<exists>k i. where_to_go st' = where_to_go st @ [(k, i)] \<and> Calls i = c))
    (first_time_waiting I c rx st)"
proof -
  have I: "interp_ok I E" using env by (simp add: env_ok_def)
  let ?ev = "eval_expression I c (world st) (now st)"
  show ?thesis
  proof (cases ?ev)
    case (Inl e)
    then have "E e" using interp_okD(5)[OF I, of c "world st" "now st"] by simp
    with Inl show ?thesis using interp_okD(1)[OF I]
      by (cases e) (simp_all add: first_time_waiting_def)
  next
    case (Inr v)
    show ?thesis
    proof (cases "(is_string v \<or> is_int v) \<and> \<not> (is_int v \<and> get_int v > 0)")
      case False
      with Inr show ?thesis using interp_okD(1)[OF I] by (auto simp: first_time_waiting_def)
    next
      case True
      obtain q cur where cur: "CurrentEvent st = Some (q, cur)"
        using ok unfolding run_ok_def by (auto elim: loop_okD)
      have wty: "(\<forall>e. E e) \<or> (if is_string v then string_wait I c else bool_wait I c)"
      proof (cases "\<forall>e. E e")
        case False
        then have "conditions_typed I" using env unfolding env_ok_def by blast
        then have sb: "string_wait I c \<or> bool_wait I c" by (simp add: conditions_typed_def)
        have "string_wait I c \<Longrightarrow> is_string v" "bool_wait I c \<Longrightarrow> is_boolean v"
          using Inr by (auto simp: string_wait_def bool_wait_def)
        moreover have "\<not> (is_string v \<and> is_boolean v)" by (cases v) simp_all
        ultimately show ?thesis using sb by (simp split: if_split) blast
      qed blast
      have nk: "event_id cur \<notin> set (actsOrResWaitingOnSignals st)"
        "event_id cur \<notin> set (actsOrResWaitingOnCond st)"
      proof -
        have "event_id cur \<notin> parked st" using free cur by (auto simp: current_free_def)
        moreover have "parked_ok st" using ok unfolding run_ok_def by (auto elim: loop_okD)
        ultimately show "event_id cur \<notin> set (actsOrResWaitingOnSignals st)"
          "event_id cur \<notin> set (actsOrResWaitingOnCond st)" unfolding parked_ok_def by blast+
      qed
      let ?i = "\<lparr>Calls = c, cond_is_a_reg_exp = (is_string v \<and> rx)\<rparr>"
      have post: "run_ok I E st'" if "st' = st\<lparr>containersToWatchForWaitUntil := ks,
          where_to_go := where_to_go st @ [(event_id cur, ?i)],
          actsOrResWaitingOnSignals := actsOrResWaitingOnSignals st @ (if is_string v then [event_id cur] else []),
          actsOrResWaitingOnCond := actsOrResWaitingOnCond st @ (if is_string v then [] else [event_id cur])\<rparr>"
        for st' ks
        by (rule park_ok[OF ok free cur _ that]) (use wty in \<open>cases "is_string v"; simp\<close>)
      have w: "yields E (\<lambda>_. True)
          (if is_int v then watch_containers I (container_names I c) (containersToWatchForWaitUntil st)
           else Inr (containersToWatchForWaitUntil st))"
        using watch_containers_ok[OF I] by simp
      have g: "\<not> (is_int v \<and> 0 < get_int v)" "\<not> (\<not> is_string v \<and> \<not> is_int v)" using True by auto
      show ?thesis
        unfolding first_time_waiting_def Inr sum.case if_not_P[OF g(2)] if_not_P[OF g(1)] cur
          option.case prod.case Let_def
        by (rule yields_bindI[OF w]) (use nk post[OF refl] cur in \<open>cases "is_string v"; simp\<close>)
    qed
  qed
qed

lemma reenter_wait_ok:
  assumes ok: "run_ok I E st" and env: "env_ok I E" and free: "current_free st"
    and light: "\<And>w. bounded_work I w \<Longrightarrow> Suc (w (resume_event (next_instruction I c))) < w pl"
  shows "yields E (model_post I E pl st) (reenter_wait I c rx st)"
  unfolding reenter_wait_def
proof (rule yields_bindI[OF first_time_waiting_ok[OF ok env free]])
  have I: "interp_ok I E" using env by (simp add: env_ok_def)
  fix a :: "bool \<times> ('a, 'b, 'c, 'd) loop_state"
  assume a: "case a of (proceed, st') \<Rightarrow> if proceed then st' = st
      else run_ok I E st' \<and> CurrentEvent st' = CurrentEvent st \<and> Events st' = Events st
        \<and> time_last_processed st' = time_last_processed st
        \<and> (\<exists>k i. where_to_go st' = where_to_go st @ [(k, i)] \<and> Calls i = c)"
  obtain proceed st' where p: "a = (proceed, st')" by (cases a)
  show "yields E (model_post I E pl st)
      (case a of (proceed, st') \<Rightarrow> if proceed then run_thread I (next_instruction I c) st' else Inr st')"
  proof (cases proceed)
    case True
    then have "st' = st" using a p by simp
    then show ?thesis using True p light by (auto intro!: run_thread_ok[OF ok I] dest: less_imp_le Suc_lessD)
  next
    case False
    then obtain k i where st': "run_ok I E st'" "CurrentEvent st' = CurrentEvent st" "Events st' = Events st"
      "time_last_processed st' = time_last_processed st" "where_to_go st' = where_to_go st @ [(k, i)]"
      "Calls i = c" using a p by auto
    have "work_left w I st' = work_left w I st + Suc (w (resume_event (next_instruction I c)))" for w
      using st'(3,5,6) by (simp add: work_left_def queue_weight_def wait_weight_def)
    then show ?thesis using False p st' light by (auto simp: model_post_def)
  qed
qed

lemma do_model_ok:
  assumes ok: "run_ok I E st" and env: "env_ok I E" and free: "current_free st"
  shows "yields E (model_post I E pl st) (do_model I pl st)"
proof -
  have I: "interp_ok I E" using env by (simp add: env_ok_def)
  note skip = model_post_skip[OF ok]
  show ?thesis
  proof (cases pl)
    case init_eventPLD
    have "yields E (model_post I E init_eventPLD st)
        (perform I (initialize_value I (world st) (now st)) (st\<lparr>potential_triggers := []\<rparr>))"
      by (rule perform_ok[OF ok I interp_okD(4)[OF I]])
        (use ok bounded_workD(4) in \<open>auto simp: same_frame_def\<close>)
    then show ?thesis by (simp add: init_eventPLD)
  next
    case (usage_event u)
    have "yields E (model_post I E (usage_event u) st)
        (perform I (call_usage_method I u (world st) (now st) (get_all_signals (signals st))) st)"
      by (rule perform_ok[OF ok I interp_okD(3)[OF I] refl same_frame_refl ok])
        (rule bounded_workD(3))
    then show ?thesis using skip by (simp add: usage_event)
  next
    case (simple_wait_event c)
    have "yields E (model_post I E (simple_wait_event c) st) (run_thread I (next_instruction I c) st)"
      by (rule run_thread_ok[OF ok I]) (rule bounded_workD(5))
    then show ?thesis using skip by (simp add: simple_wait_event)
  next
    case (wait_until_event c)
    have "yields E (model_post I E (wait_until_event c) st) (reenter_wait I c False st)"
      by (rule reenter_wait_ok[OF ok env free]) (rule bounded_workD(6))
    then show ?thesis using skip by (simp add: wait_until_event)
  next
    case (wait_regexp_event c)
    have "yields E (model_post I E (wait_regexp_event c) st) (reenter_wait I c True st)"
      by (rule reenter_wait_ok[OF ok env free]) (rule bounded_workD(7))
    then show ?thesis using skip by (simp add: wait_regexp_event)
  next
    case (resume_event c)
    have "yields E (model_post I E (resume_event c) st) (run_thread I c st)"
      by (rule run_thread_ok[OF ok I]) simp
    then show ?thesis using skip by (simp add: resume_event)
  qed
qed

section \<open>Looking for a thread to resume\<close>

definition found_post ::
  "('c, 'u, 'v, 's) interpreter \<Rightarrow> (ap_error \<Rightarrow> bool) \<Rightarrow> ('c, 'u, 'v, 's) loop_state
     \<Rightarrow> 'c option \<Rightarrow> ('c, 'u, 'v, 's) loop_state \<Rightarrow> bool" where
  "found_post I E st found st' \<longleftrightarrow> run_ok I E st' \<and> Events st' = Events st
     \<and> CurrentEvent st' = CurrentEvent st \<and> time_last_processed st' = time_last_processed st
     \<and> (\<forall>w. work_left w I st' +
           (case found of None \<Rightarrow> 0 | Some c \<Rightarrow> Suc (w (resume_event (next_instruction I c))))
         = work_left w I st)"

lemma found_post_None: "run_ok I E st \<Longrightarrow> found_post I E st None st"
  by (simp add: found_post_def)

lemma found_post_trans:
  "found_post I E st None st1 \<Longrightarrow> found_post I E st1 found st2 \<Longrightarrow> found_post I E st found st2"
  by (simp add: found_post_def)

lemma found_post_triggers:
  "found_post I E st found st' \<Longrightarrow> found_post I E st found (st'\<lparr>potential_triggers := ts\<rparr>)"
  unfolding found_post_def using work_left_cong[of "st'\<lparr>potential_triggers := ts\<rparr>" st'] by simp

lemma found_post_triggers_pre:
  "run_ok I E st \<Longrightarrow> found_post I E st None (st\<lparr>potential_triggers := ts\<rparr>)"
  by (rule found_post_triggers[OF found_post_None])

lemma sum_list_filter_key:
  assumes "distinct (map fst xs)" and "map_of xs k = Some i"
  shows "sum_list (map f (filter (\<lambda>e. fst e \<noteq> k) xs)) + f (k, i) = (sum_list (map f xs) :: nat)"
  using assms
proof (induction xs)
  case (Cons x xs)
  show ?case
  proof (cases "fst x = k")
    case True
    then have "k \<notin> fst ` set xs" using Cons.prems(1) by auto
    then have "filter (\<lambda>e. fst e \<noteq> k) xs = xs" by (auto simp: filter_id_conv)
    then show ?thesis using True Cons.prems by (cases x) auto
  next
    case False
    then show ?thesis using Cons by (cases x) auto
  qed
qed simp

lemma unpark_fields [simp]:
  "Events (unpark k st) = Events st" "CurrentEvent (unpark k st) = CurrentEvent st"
  "time_last_processed (unpark k st) = time_last_processed st" "now (unpark k st) = now st"
  "SafeTime (unpark k st) = SafeTime st" "currentEventID (unpark k st) = currentEventID st"
  "signals (unpark k st) = signals st" "live (unpark k st) = live st"
  "parked (unpark k st) = parked st - {k}"
  by (auto simp: unpark_def live_def parked_def)

lemma unpark_ok:
  assumes ok: "run_ok I E st" and i: "map_of (where_to_go st) k = Some i"
  shows "found_post I E st (Some (Calls i)) (unpark k st)"
proof -
  have lok: "loop_ok st" using ok by (simp add: run_ok_def)
  then have pk: "parked_ok st" by (rule loop_okD)
  have d: "distinct (map fst (where_to_go st))" using pk unfolding parked_ok_def by blast
  have "parked_ok (unpark k st)"
    unfolding parked_ok_def unpark_fields
  proof (intro conjI)
    show "distinct (map fst (where_to_go (unpark k st)))"
      using d by (simp add: unpark_def distinct_map_filter)
    have "distinct (actsOrResWaitingOnSignals st @ actsOrResWaitingOnCond st)"
      and eq: "parked st = set (actsOrResWaitingOnSignals st) \<union> set (actsOrResWaitingOnCond st)"
      and le: "\<forall>k\<in>parked st. k \<le> currentEventID st"
      and ev: "parked st \<inter> event_ids (pending (Events st)) = {}"
      using pk unfolding parked_ok_def by blast+
    then show "distinct (actsOrResWaitingOnSignals (unpark k st) @ actsOrResWaitingOnCond (unpark k st))"
      by (auto simp: unpark_def)
    show "parked st - {k} =
        set (actsOrResWaitingOnSignals (unpark k st)) \<union> set (actsOrResWaitingOnCond (unpark k st))"
      unfolding eq by (auto simp: unpark_def)
    show "\<forall>k\<in>parked st - {k}. k \<le> currentEventID st" using le by blast
    show "(parked st - {k}) \<inter> event_ids (pending (Events st)) = {}" using ev by blast
  qed
  then have "loop_ok (unpark k st)" using lok by (simp add: loop_ok_def)
  moreover have "sig_ok I E (unpark k st)" using ok by (simp add: run_ok_def sig_ok_def)
  moreover have "waits_ok I st \<Longrightarrow> waits_ok I (unpark k st)" by (auto simp: waits_ok_def unpark_def)
  ultimately have "run_ok I E (unpark k st)" using ok unfolding run_ok_def by blast
  moreover have "work_left w I (unpark k st) + Suc (w (resume_event (next_instruction I (Calls i))))
      = work_left w I st" for w
    using sum_list_filter_key[OF d i, of "\<lambda>e. Suc (w (resume_event (next_instruction I (Calls (snd e)))))"]
    by (simp add: work_left_def queue_weight_def wait_weight_def unpark_def)
  ultimately show ?thesis by (simp add: found_post_def)
qed

lemma parked_entry:
  assumes "run_ok I E st"
    and "k \<in> set (actsOrResWaitingOnSignals st) \<or> k \<in> set (actsOrResWaitingOnCond st)"
  obtains i where "map_of (where_to_go st) k = Some i" and "(k, i) \<in> set (where_to_go st)"
proof -
  have "parked_ok st" using assms(1) unfolding run_ok_def by (auto elim: loop_okD)
  then have "k \<in> parked st" using assms(2) unfolding parked_ok_def by blast
  then have "map_of (where_to_go st) k \<noteq> None" by (simp add: parked_def map_of_eq_None_iff)
  then obtain i where "map_of (where_to_go st) k = Some i" by blast
  then show ?thesis using map_of_SomeD that by fast
qed

lemma a_signal_matches_post:
  assumes ok: "run_ok I E st" and I: "interp_ok I E"
    and m: "a_signal_matches (regcomp I) (regexec I) p (signals st) = (S, r)"
  shows "case r of Inl e \<Rightarrow> E e | Inr b \<Rightarrow> run_ok I E (st\<lparr>signals := S\<rparr>)"
proof (cases "\<forall>e. E e")
  case True
  then have "sig_ok I E (st\<lparr>signals := S\<rparr>)" by (simp add: sig_ok_def)
  then show ?thesis using True run_ok_signals[OF ok] by (cases r) simp_all
next
  case False
  then have s: "store_ok (regcomp I) (regexec I) (signals st)"
    using ok unfolding run_ok_def sig_ok_def by blast
  show ?thesis
  proof (cases r)
    case (Inl e)
    then show ?thesis using a_signal_matches_error[OF s m[unfolded Inl]] interp_okD(1)[OF I] by simp
  next
    case (Inr b)
    then have "store_ok (regcomp I) (regexec I) S" using a_signal_matches_ok(1)[OF s m[unfolded Inr]] by simp
    then have "sig_ok I E (st\<lparr>signals := S\<rparr>)" by (simp add: sig_ok_def)
    then show ?thesis using run_ok_signals[OF ok] Inr by simp
  qed
qed

lemma signals_loop_ok:
  assumes "run_ok I E st" and I: "interp_ok I E" and "set ks \<subseteq> set (actsOrResWaitingOnSignals st)"
  shows "yields E (\<lambda>(found, st'). found_post I E st found st') (signals_loop I ks st)"
  using assms(1,3)
proof (induction ks arbitrary: st)
  case Nil
  then show ?case by (simp add: found_post_None)
next
  case (Cons k ks)
  obtain i where i: "map_of (where_to_go st) k = Some i" "(k, i) \<in> set (where_to_go st)"
    by (rule parked_entry[OF Cons.prems(1), of k]) (use Cons.prems(2) in auto)
  have ih: "yields E (\<lambda>(found, st'). found_post I E st1 found st') (signals_loop I ks st1)"
    if "run_ok I E st1" "actsOrResWaitingOnSignals st1 = actsOrResWaitingOnSignals st" for st1
    using Cons.IH[OF that(1)] Cons.prems(2) that(2) by simp
  show ?case
  proof (cases "eval_expression I (Calls i) (world st) (now st)")
    case (Inl e)
    then show ?thesis using interp_okD(5)[OF I, of "Calls i" "world st" "now st"] i by simp
  next
    case (Inr v)
    show ?thesis
    proof (cases "is_string v")
      case False
      have "\<forall>e. E e"
      proof (rule ccontr)
        assume "\<not> (\<forall>e. E e)"
        then have "waits_ok I st" using Cons.prems(1) unfolding run_ok_def by blast
        then have "string_wait I (Calls i)" using i(2) Cons.prems(2) by (fastforce simp: waits_ok_def)
        then show False using Inr False by (auto simp: string_wait_def)
      qed
      then show ?thesis using i Inr False by (cases v) simp_all
    next
      case True
      then obtain w where str: "v = STRING w" by (cases v) auto
      show ?thesis
      proof (cases "cond_is_a_reg_exp i")
        case False
        then show ?thesis
          using i Inr str ih[OF Cons.prems(1) refl] unpark_ok[OF Cons.prems(1) i(1)] by simp
      next
        case True
        obtain S r where m: "a_signal_matches (regcomp I) (regexec I) w (signals st) = (S, r)"
          by (cases "a_signal_matches (regcomp I) (regexec I) w (signals st)")
        note post = a_signal_matches_post[OF Cons.prems(1) I m]
        show ?thesis
        proof (cases r)
          case (Inl e)
          then show ?thesis using post i \<open>eval_expression I (Calls i) (world st) (now st) = Inr v\<close>
              str True m by simp
        next
          case (Inr b)
          let ?st = "st\<lparr>signals := S\<rparr>"
          have rok: "run_ok I E ?st" using post Inr by simp
          have n: "found_post I E st None ?st"
            using rok work_left_cong[of ?st st] by (simp add: found_post_def)
          have "found_post I E st (Some (Calls i)) (unpark k ?st)"
            by (rule found_post_trans[OF n unpark_ok[OF rok]]) (simp add: i)
          moreover have "yields E (\<lambda>(found, st'). found_post I E st found st') (signals_loop I ks ?st)"
            by (rule yields_mono[OF ih[OF rok]]) (auto intro: found_post_trans[OF n])
          ultimately show ?thesis
            using i \<open>eval_expression I (Calls i) (world st) (now st) = Inr v\<close> str True m Inr
            by (simp add: Let_def)
        qed
      qed
    qed
  qed
qed

lemma conditions_loop_ok:
  assumes ok: "run_ok I E st" and I: "interp_ok I E" and "set ks \<subseteq> set (actsOrResWaitingOnCond st)"
  shows "yields E (\<lambda>(found, st'). found_post I E st found st') (conditions_loop I T ks st)"
  using assms(3)
proof (induction ks)
  case Nil
  then show ?case using ok by (simp add: found_post_None)
next
  case (Cons k ks)
  obtain i where i: "map_of (where_to_go st) k = Some i" "(k, i) \<in> set (where_to_go st)"
    by (rule parked_entry[OF ok, of k]) (use Cons.prems in auto)
  show ?case
  proof (cases "eval_expression I (Calls i) (world st) T")
    case (Inl e)
    then show ?thesis using interp_okD(5)[OF I, of "Calls i" "world st" T] i by simp
  next
    case (Inr v)
    show ?thesis
    proof (cases "is_boolean v")
      case False
      have "\<forall>e. E e"
      proof (rule ccontr)
        assume "\<not> (\<forall>e. E e)"
        then have "waits_ok I st" using ok unfolding run_ok_def by blast
        then have "bool_wait I (Calls i)" using i(2) Cons.prems by (fastforce simp: waits_ok_def)
        then show False using Inr False by (auto simp: bool_wait_def)
      qed
      then show ?thesis using i Inr False by simp
    next
      case True
      have "yields E (\<lambda>(found, st'). found_post I E st found st') (conditions_loop I T ks st)"
        by (rule Cons.IH) (use Cons.prems in simp)
      then show ?thesis using unpark_ok[OF ok i(1)] by (simp add: i(1) Inr True)
    qed
  qed
qed

lemma try_signals_first_ok:
  assumes "run_ok I E st" and "interp_ok I E"
  shows "yields E (\<lambda>(found, st'). found_post I E st found st') (try_signals_first I st)"
  unfolding try_signals_first_def by (rule signals_loop_ok[OF assms order_refl])

lemma try_conditions_next_ok:
  assumes "run_ok I E st" and "interp_ok I E"
  shows "yields E (\<lambda>(found, st'). found_post I E st found st') (try_conditions_next I T st)"
  unfolding try_conditions_next_def by (rule conditions_loop_ok[OF assms order_refl])

lemma unblocked_now_loop_ok:
  assumes "run_ok I E st" and I: "interp_ok I E"
  shows "yields E (\<lambda>(found, st'). found_post I E st found st') (unblocked_now_loop I Tc tried ts st)"
  using assms(1)
proof (induction ts arbitrary: st tried)
  case Nil
  then show ?case by (simp add: found_post_triggers_pre)
next
  case (Cons t ts)
  note tr = found_post_triggers_pre[OF Cons.prems]
  have step: "yields E (\<lambda>(found, st'). found_post I E st found st')
      (bind_result (try_conditions_next I (fst t) st) (\<lambda>(found, st').
         (case found of
            Some c \<Rightarrow> Inr (Some c, st'\<lparr>potential_triggers := ts\<rparr>)
          | None \<Rightarrow> unblocked_now_loop I Tc True ts st')))"
  proof (rule yields_bindI[OF try_conditions_next_ok[OF Cons.prems I]])
    fix a
    assume a: "case a of (found, st') \<Rightarrow> found_post I E st found st'"
    obtain f st1 where f: "a = (f, st1)" by (cases a)
    show "yields E (\<lambda>(found, st'). found_post I E st found st')
      (case a of (found, st') \<Rightarrow> (case found of
            Some c \<Rightarrow> Inr (Some c, st'\<lparr>potential_triggers := ts\<rparr>)
          | None \<Rightarrow> unblocked_now_loop I Tc True ts st'))"
    proof (cases f)
      case None
      then have fp: "found_post I E st None st1" using a f by simp
      then have "run_ok I E st1" by (simp add: found_post_def)
      then have "yields E (\<lambda>(found, st'). found_post I E st found st') (unblocked_now_loop I Tc True ts st1)"
        by (rule yields_mono[OF Cons.IH]) (auto intro: found_post_trans[OF fp])
      then show ?thesis using f None by simp
    qed (use a f found_post_triggers in simp)
  qed
  show ?case
    using Cons.IH[OF Cons.prems] tr step by (cases "fst t = Tc") simp_all
qed

lemma one_thread_can_be_unblocked_now_ok:
  assumes ok: "run_ok I E st" and I: "interp_ok I E"
  shows "yields E (\<lambda>(found, st'). found_post I E st found st') (one_thread_can_be_unblocked_now I Tc st)"
  unfolding one_thread_can_be_unblocked_now_def
proof (rule yields_bindI)
  show "yields E (\<lambda>(found, st'). found_post I E st found st')
    (if number_of_recent_signals (signals st) > 0 then try_signals_first I st else Inr (None, st))"
    using try_signals_first_ok[OF ok I] found_post_None[OF ok] by simp
  fix a
  assume a: "case a of (found, st') \<Rightarrow> found_post I E st found st'"
  obtain f st1 where f: "a = (f, st1)" by (cases a)
  show "yields E (\<lambda>(found, st'). found_post I E st found st')
      (case a of (found, st') \<Rightarrow> (case found of
          Some c \<Rightarrow> Inr (Some c, st')
        | None \<Rightarrow> unblocked_now_loop I Tc False (potential_triggers st') st'))"
  proof (cases f)
    case None
    then have fp: "found_post I E st None st1" using a f by simp
    then have "run_ok I E st1" by (simp add: found_post_def)
    then have "yields E (\<lambda>(found, st'). found_post I E st found st')
        (unblocked_now_loop I Tc False (potential_triggers st1) st1)"
      by (rule yields_mono[OF unblocked_now_loop_ok[OF _ I]]) (auto intro: found_post_trans[OF fp])
    then show ?thesis using f None by simp
  qed (use a f in simp)
qed

text \<open>A thread that is found in the near future is found after the current time and before the limit.\<close>

definition soon :: "int \<Rightarrow> int option \<Rightarrow> ('c \<times> int) option \<Rightarrow> bool" where
  "soon Tc limit found \<longleftrightarrow> (\<forall>c T. found = Some (c, T) \<longrightarrow> Tc < T \<and> (\<forall>L. limit = Some L \<longrightarrow> T < L))"

lemma near_future_loop_ok:
  assumes "run_ok I E st" and I: "interp_ok I E"
  shows "yields E (\<lambda>(found, st'). found_post I E st (map_option fst found) st' \<and> soon Tc limit found)
    (near_future_loop I Tc limit tried lst ts st)"
  using assms(1)
proof (induction ts arbitrary: st tried lst)
  case Nil
  then show ?case by (simp add: found_post_triggers_pre soon_def)
next
  case (Cons t ts)
  let ?P = "\<lambda>(found, st'). found_post I E st (map_option fst found) st' \<and> soon Tc limit found"
  note tr = found_post_triggers_pre[OF Cons.prems]
  show ?case
  proof (cases "fst t \<le> Tc \<or> (case limit of None \<Rightarrow> False | Some T \<Rightarrow> fst t \<ge> T)")
    case True
    then show ?thesis using Cons.IH[OF Cons.prems] tr by (auto simp: soon_def)
  next
    case False
    then have lim: "Tc < fst t" "\<forall>L. limit = Some L \<longrightarrow> fst t < L" by auto
    have step: "yields E ?P
      (bind_result (try_conditions_next I (fst t) st) (\<lambda>(found, st').
         (case found of
            Some c \<Rightarrow> Inr (Some (c, fst t), st'\<lparr>potential_triggers := ts\<rparr>)
          | None \<Rightarrow> near_future_loop I Tc limit True (fst t) ts st')))"
    proof (rule yields_bindI[OF try_conditions_next_ok[OF Cons.prems I]])
      fix a
      assume a: "case a of (found, st') \<Rightarrow> found_post I E st found st'"
      obtain f st1 where f: "a = (f, st1)" by (cases a)
      show "yields E ?P (case a of (found, st') \<Rightarrow> (case found of
            Some c \<Rightarrow> Inr (Some (c, fst t), st'\<lparr>potential_triggers := ts\<rparr>)
          | None \<Rightarrow> near_future_loop I Tc limit True (fst t) ts st'))"
      proof (cases f)
        case None
        then have fp: "found_post I E st None st1" using a f by simp
        then have "run_ok I E st1" by (simp add: found_post_def)
        then have "yields E ?P (near_future_loop I Tc limit True (fst t) ts st1)"
          by (rule yields_mono[OF Cons.IH]) (auto intro: found_post_trans[OF fp])
        then show ?thesis using f None by simp
      next
        case (Some c)
        then show ?thesis using a f found_post_triggers lim by (simp add: soon_def)
      qed
    qed
    then show ?thesis using False Cons.IH[OF Cons.prems] by (simp add: Let_def)
  qed
qed

lemma advance_now_to_ok:
  assumes ok: "run_ok I E st" and I: "interp_ok I E" and T: "time_last_processed st \<le> T"
  shows "yields E (\<lambda>st'. run_ok I E st' \<and> (\<exists>w. st' = st\<lparr>world := w, now := T\<rparr>)) (advance_now_to I T True st)"
proof -
  have "run_ok I E (st\<lparr>world := w, now := T\<rparr>)" for w
    by (rule run_ok_now) (use ok T in simp_all)
  note ok' = this
  show ?thesis
  proof (cases "delete_old_events I T (world st)")
    case (Inl e)
    then show ?thesis using interp_okD(6)[OF I, of T "world st"] by (simp add: advance_now_to_def)
  next
    case (Inr w)
    then have "advance_now_to I T True st = Inr (st\<lparr>world := w, now := T\<rparr>)"
      by (simp add: advance_now_to_def)
    with ok'[of w] show ?thesis by (simp only: yields_simps) blast
  qed
qed

lemma swallow_advance_ok:
  assumes ok: "run_ok I E st" and I: "interp_ok I E" and T: "time_last_processed st \<le> T"
  shows "yields E (found_post I E st None) (swallow_eval_error (advance_now_to I T tol st) st)"
proof (cases "T = now st \<and> \<not> tol")
  case True
  then show ?thesis using found_post_None[OF ok] by (simp add: advance_now_to_def swallow_eval_error_def)
next
  case False
  then have eq: "advance_now_to I T tol st = advance_now_to I T True st" by (auto simp: advance_now_to_def)
  have "yields E (\<lambda>st'. run_ok I E st' \<and> (\<exists>w. st' = st\<lparr>world := w, now := T\<rparr>)) (advance_now_to I T True st)"
    by (rule advance_now_to_ok[OF ok I T])
  then show ?thesis
    unfolding eq using found_post_None[OF ok]
    by (auto simp: yields_def swallow_eval_error_def found_post_def intro: work_left_cong
        split: sum.splits ap_error.splits)
qed

lemma near_future_ok:
  assumes ok: "run_ok I E st" and I: "interp_ok I E" and nx: "\<And>n. next_event = Some n \<Longrightarrow> Tc < etime n"
  shows "yields E (\<lambda>(found, st'). found_post I E st (map_option fst found) st'
      \<and> soon Tc (map_option etime next_event) found)
    (one_thread_can_be_unblocked_in_the_near_future I Tc next_event st)"
proof -
  have "\<not> (case next_event of None \<Rightarrow> False | Some n \<Rightarrow> etime n \<le> Tc)"
    using nx by (cases next_event) (simp_all add: not_le)
  then show ?thesis
    unfolding one_thread_can_be_unblocked_in_the_near_future_def by (simp add: near_future_loop_ok[OF ok I])
qed

lemma found_advance_ok:
  assumes fp: "found_post I E st found st2" and I: "interp_ok I E" and T: "time_last_processed st \<le> T"
  shows "yields E (found_post I E st found) (swallow_eval_error (advance_now_to I T tol st2) st2)"
proof (rule yields_mono[OF swallow_advance_ok[OF _ I]])
  show "run_ok I E st2" "time_last_processed st2 \<le> T" using fp T by (simp_all add: found_post_def)
qed (use fp in \<open>auto simp: found_post_def\<close>)

lemma can_a_thread_be_unlocked_ok:
  assumes ok: "run_ok I E st" and I: "interp_ok I E"
    and nx: "\<And>n. next_event = Some n \<Longrightarrow> time_last_processed st < etime n"
  shows "yields E (\<lambda>(found, st'). found_post I E st found st') (can_a_thread_be_unlocked I next_event st)"
  unfolding can_a_thread_be_unlocked_def
proof (rule yields_bindI[OF one_thread_can_be_unblocked_now_ok[OF ok I]], goal_cases)
  case (1 a)
  obtain f st1 where f: "a = (f, st1)" by (cases a)
  show ?case
  proof (cases f)
    case None
    then have fp: "found_post I E st None st1" using 1 f by simp
    then have ok1: "run_ok I E st1" by (simp add: found_post_def)
    show ?thesis
      unfolding f prod.case None option.case
    proof (rule yields_bindI[OF near_future_ok[OF ok1 I nx]], assumption, goal_cases)
      case (1 b)
      obtain g st2 where g: "b = (g, st2)" by (cases b)
      have fp2: "found_post I E st (map_option fst g) st2"
        and sn: "soon (time_last_processed st) (map_option etime next_event) g"
        using 1 g found_post_trans[OF fp] by auto
      note adv = found_advance_ok[OF fp2 I]
      show ?case
      proof (cases g)
        case None
        then show ?thesis using g adv[of "time_last_processed st" True] fp2 by (simp add: yields_bind)
      next
        case (Some cT)
        obtain c T where cT: "cT = (c, T)" by (cases cT)
        have T: "time_last_processed st < T" "\<not> (case next_event of None \<Rightarrow> False | Some n \<Rightarrow> \<not> T < etime n)"
          using sn Some cT by (auto simp: soon_def split: option.splits)
        then show ?thesis using g Some cT adv[of T False] by (simp add: yields_bind)
      qed
    qed
  qed (use 1 f in simp)
qed

lemma resume_thread_ok:
  assumes ok: "run_ok I E st"
  shows "yields E (\<lambda>st'. run_ok I E st' \<and> time_last_processed st' = time_last_processed st
      \<and> (\<forall>w. work_left w I st' \<le> work_left w I st + w (resume_event (next_instruction I c))))
    (resume_thread I c st)"
proof -
  let ?pl = "resume_event (next_instruction I c)"
  have l: "loop_ok st" "sig_ok I E st" using ok by (simp_all add: run_ok_def)
  have nw: "time_last_processed st \<le> now st" using l(1) by (rule loop_okD)
  have "resume_thread I c st = bind_result (event_factory (now st) ?pl st) (\<lambda>(node, st').
       (case node of None \<Rightarrow> Inr st | Some n \<Rightarrow> add_timevent n (theSection I (next_instruction I c)) st'))"
    by (auto simp: resume_thread_def event_factory_def new_mEvent_def)
  moreover have "yields E (request_post I E (Some ?pl) st) (bind_result (event_factory (now st) ?pl st) (\<lambda>(node, st').
       (case node of None \<Rightarrow> Inr st | Some n \<Rightarrow> add_timevent n (theSection I (next_instruction I c)) st')))"
    by (rule add_event_plain[OF l nw])
  ultimately have "yields E (request_post I E (Some ?pl) st) (resume_thread I c st)" by simp
  then show ?thesis
  proof (rule yields_mono)
    fix st' assume "request_post I E (Some ?pl) st st'"
    then have p: "loop_ok st'" "same_frame st st'" "grows_by (Some ?pl) st st'" "sig_ok I E st'"
      by (simp_all add: request_post_def)
    have "work_left w I st' \<le> work_left w I st + w ?pl" for w
      using grows_weight[OF l(1) p(3), of w] wait_weight_cong[of st' st w I] p(2)
      by (simp add: work_left_def same_frame_def)
    then show "run_ok I E st' \<and> time_last_processed st' = time_last_processed st
        \<and> (\<forall>w. work_left w I st' \<le> work_left w I st + w ?pl)"
      using p ok waits_ok_frame[OF p(2), of I] by (auto simp: run_ok_def same_frame_def)
  qed
qed


section \<open>One round of the loop\<close>

lemma passedE:
  assumes "started M" and "(q, n) \<in> passed M"
  obtains th where "threads M q = Some th" and "n \<in> set (behind th)" and "n \<in> set (nodes th)"
proof -
  obtain th where th: "threads M q = Some th" "n \<in> set (behind th)"
    using assms(2) by (auto simp: passed_def)
  moreover have "n \<in> set (nodes th)"
    using thread_okE(1)[OF miter_okD(1)[OF startedD(1)[OF assms(1)] th(1)]] th(2) by simp
  ultimately show ?thesis by (rule that)
qed

text \<open>Unlinking a node that the iterator has passed does not move the iterator.\<close>

lemma remove_passed_front:
  assumes "started M" and "(q, cur) \<in> passed M" and "multilist_remove q cur M = Inr M'"
  shows "miter_front M' = miter_front M"
proof -
  obtain th where th: "threads M q = Some th" "cur \<in> set (behind th)"
    using assms(1,2) by (rule passedE)
  note e = thread_okE[OF miter_okD(1)[OF startedD(1)[OF assms(1)] th(1)]]
  have "event_id m \<noteq> event_id cur" if "m \<in> set (ahead th)" for m
    using e(3) th(2) that by (auto dest: not_in_imageD)
  then have "\<not> (case iterNode th of None \<Rightarrow> False | Some m \<Rightarrow> event_id m = event_id cur)"
    using e(2) by (cases "ahead th") auto
  then have "M' = set_thread q (th\<lparr>thread_list := slist_remove_node cur (thread_list th)\<rparr>) M"
    using assms(3) th(1) by (simp add: multilist_remove_def handle_removal_def)
  then show ?thesis using th(1)
    by (auto simp: miter_front_def miter_peek_def split: list.split option.split)
qed

lemma parked_ok_sub:
  assumes "parked_ok st" and "event_ids (pending (Events st')) \<subseteq> event_ids (pending (Events st))"
    and "where_to_go st' = where_to_go st" and "currentEventID st' = currentEventID st"
    and "actsOrResWaitingOnSignals st' = actsOrResWaitingOnSignals st"
    and "actsOrResWaitingOnCond st' = actsOrResWaitingOnCond st"
  shows "parked_ok st'"
proof -
  have "parked st' = parked st" using assms(3) by (simp add: parked_def)
  then show ?thesis using assms unfolding parked_ok_def by (simp only:) blast
qed

lemma next_state_ok:
  assumes ok: "loop_ok st" and cur: "CurrentEvent st = Some (q, cur)"
    and M: "multilist_remove q cur (Events st) = Inr M" and pk: "miter_peek (Events st) = Some n"
  obtains t where "miter_front M = Some (t, n)" and "(t, n) \<in> pending (Events st)"
    and "time_last_processed st \<le> etime n"
    and "pending (miter_pop M) = pending (Events st) - {(t, n)}"
    and "\<And>w. loop_ok (st\<lparr>Events := miter_pop M, CurrentEvent := Some (t, n),
        time_last_processed := etime n, SafeTime := etime n, world := w, now := etime n\<rparr>)"
proof -
  have d: "passed (Events st) = {(q, cur)}" "(q, cur) \<notin> pending (Events st)"
    "started (Events st)" "dom (threads (Events st)) = queues"
    "inj_on (\<lambda>e. event_id (snd e)) (live st)"
    "\<forall>k\<in>event_ids (live st). k \<le> currentEventID st"
    "\<forall>e\<in>pending (Events st). time_last_processed st \<le> etime (snd e)" "parked_ok st"
    using ok cur by (auto elim: loop_okD)
  have "(q, cur) \<in> passed (Events st)" unfolding d(1) by simp
  then obtain th where th: "threads (Events st) q = Some th" and cn: "cur \<in> set (nodes th)"
    using d(3) by (blast elim: passedE)
  obtain M1 where r: "multilist_remove q cur (Events st) = Inr M1" "started M1"
    "pending M1 = pending (Events st) - {(q, cur)}" "passed M1 = passed (Events st) - {(q, cur)}"
    "map_option priority \<circ> threads M1 = map_option priority \<circ> threads (Events st)"
    using d(3) th cn by (rule multilist_remove_ok)
  have "M1 = M" using r(1) M by simp
  note r = r(2-)[unfolded this]
  have pm: "pending M = pending (Events st)" using r(2) d(2) by blast
  obtain t where f: "miter_front M = Some (t, n)"
    using remove_passed_front[OF d(3) _ M] d(1) pk by (auto simp: miter_front_def)
  note g = miter_front_Some[OF r(1) f, unfolded pm]
  have later: "\<forall>e\<in>pending (Events st) - {(t, n)}. etime n \<le> etime (snd e)"
    using g(7) by (auto simp: comes_before_def)
  have pas: "passed (miter_pop M) = {(t, n)}" using g(5) r(3) d(1) by simp
  have dm: "dom (threads (miter_pop M)) = queues"
    using g(6) r(4) d(4) by (metis dom_map_option_comp)
  have sub: "pending (miter_pop M) \<union> passed (miter_pop M) \<subseteq> live st"
    using g(3,4) pas by (auto simp: live_def)
  have inj: "inj_on (\<lambda>e. event_id (snd e)) (pending (miter_pop M) \<union> passed (miter_pop M))"
    by (rule inj_on_subset[OF d(5) sub])
  have ids: "\<forall>k\<in>event_ids (pending (miter_pop M) \<union> passed (miter_pop M)). k \<le> currentEventID st"
    using d(6) sub unfolding event_ids_def by blast
  have "event_ids (pending (miter_pop M)) \<subseteq> event_ids (pending (Events st))"
    using g(4) unfolding event_ids_def by blast
  then have pko: "parked_ok (st\<lparr>Events := miter_pop M, CurrentEvent := Some (t, n),
        time_last_processed := etime n, SafeTime := etime n, world := w, now := etime n\<rparr>)" for w
    by (intro parked_ok_sub[OF d(8)]) simp_all
  show ?thesis
  proof (rule that[OF f g(3) _ g(4)])
    show "time_last_processed st \<le> etime n" using d(7) g(3) by auto
    show "loop_ok (st\<lparr>Events := miter_pop M, CurrentEvent := Some (t, n),
        time_last_processed := etime n, SafeTime := etime n, world := w, now := etime n\<rparr>)" for w
      using pko[of w] g(2,4) dm inj ids later pas by (simp add: loop_ok_def live_def)
  qed
qed

lemma multilist_remove_current:
  assumes ok: "loop_ok st"
  obtains q cur M where "CurrentEvent st = Some (q, cur)" and "multilist_remove q cur (Events st) = Inr M"
proof -
  obtain q cur where d: "CurrentEvent st = Some (q, cur)" "passed (Events st) = {(q, cur)}"
    "started (Events st)" using ok by (auto elim: loop_okD)
  have "(q, cur) \<in> passed (Events st)" unfolding d(2) by simp
  then obtain th where th: "threads (Events st) q = Some th" "cur \<in> set (nodes th)"
    using d(3) by (blast elim: passedE)
  obtain M where "multilist_remove q cur (Events st) = Inr M"
    by (rule multilist_remove_ok[OF d(3) th])
  with d(1) show ?thesis by (rule that)
qed

lemma process_event_ok:
  assumes ok: "run_ok I E st" and env: "env_ok I E" and pk: "miter_peek (Events st) = Some n"
  shows "yields E (\<lambda>st'. run_ok I E st' \<and> time_last_processed st' = etime n
      \<and> time_last_processed st \<le> etime n
      \<and> (\<forall>w. bounded_work I w \<longrightarrow> work_left w I st' < work_left w I st))
    (process_event I n st)"
proof -
  have I: "interp_ok I E" using env by (simp add: env_ok_def)
  have lok: "loop_ok st" using ok by (simp add: run_ok_def)
  obtain q cur M where c: "CurrentEvent st = Some (q, cur)" "multilist_remove q cur (Events st) = Inr M"
    using lok by (rule multilist_remove_current)
  let ?st = "\<lambda>t w. st\<lparr>Events := miter_pop M, CurrentEvent := Some (t, n),
        time_last_processed := etime n, SafeTime := etime n, world := w, now := etime n\<rparr>"
  obtain t where f: "miter_front M = Some (t, n)" "(t, n) \<in> pending (Events st)"
    "time_last_processed st \<le> etime n" "pending (miter_pop M) = pending (Events st) - {(t, n)}"
    "\<And>w. loop_ok (?st t w)"
    using lok c pk by (rule next_state_ok) blast
  have eq: "process_event I n st = bind_result (delete_old_events I (etime n) (world st))
      (\<lambda>w. do_model I (payload n) (?st t w))"
    using c f(1) by (cases "delete_old_events I (etime n) (world st)") (simp_all add: process_event_def advance_now_to_def)
  show ?thesis
    unfolding eq
  proof (rule yields_bindI[OF interp_okD(6)[OF I]])
    fix w
    have rok: "run_ok I E (?st t w)"
      using ok f(5)[of w] by (simp add: run_ok_def sig_ok_def waits_ok_def)
    have "event_id n \<in> event_ids (pending (Events st))" using event_idsI[OF f(2)] by simp
    moreover have "parked_ok st" using lok by (rule loop_okD)
    ultimately have "event_id n \<notin> parked st" unfolding parked_ok_def by blast
    then have cf: "current_free (?st t w)" by (simp add: current_free_def parked_def)
    have wk: "work_left g I (?st t w) + g (payload n) = work_left g I st" for g
    proof -
      have "queue_weight g st = g (payload n) + queue_weight g (?st t w)"
        using sum.remove[OF loop_finite[OF lok] f(2), of "\<lambda>e. g (payload (snd e))"] f(4)
        by (simp add: queue_weight_def)
      then show ?thesis by (simp add: work_left_def wait_weight_def)
    qed
    show "yields E (\<lambda>st'. run_ok I E st' \<and> time_last_processed st' = etime n
      \<and> time_last_processed st \<le> etime n
      \<and> (\<forall>w. bounded_work I w \<longrightarrow> work_left w I st' < work_left w I st))
      (do_model I (payload n) (?st t w))"
      by (rule yields_mono[OF do_model_ok[OF rok env cf]])
        (use f(3) wk in \<open>simp add: model_post_def\<close>)
  qed
qed


definition round_post ::
  "('c, 'u, 'v, 's) interpreter \<Rightarrow> (ap_error \<Rightarrow> bool) \<Rightarrow> ('c, 'u, 'v, 's) loop_state
     \<Rightarrow> bool \<Rightarrow> ('c, 'u, 'v, 's) loop_state \<Rightarrow> bool" where
  "round_post I E st goes_on st' \<longleftrightarrow> run_ok I E st' \<and> time_last_processed st \<le> time_last_processed st'
     \<and> (goes_on \<longrightarrow> (\<forall>w. bounded_work I w \<longrightarrow> work_left w I st' < work_left w I st))"

lemma round_found:
  assumes "found_post I E st (Some c) st1"
  shows "yields E (\<lambda>(goes_on, st'). round_post I E st goes_on st')
    (bind_result (resume_thread I c st1) (\<lambda>st2. Inr (True, st2)))"
proof -
  have f: "run_ok I E st1" "time_last_processed st1 = time_last_processed st"
    "\<And>w. work_left w I st1 + Suc (w (resume_event (next_instruction I c))) = work_left w I st"
    using assms by (simp_all add: found_post_def)
  have "work_left w I st' < work_left w I st"
    if "work_left w I st' \<le> work_left w I st1 + w (resume_event (next_instruction I c))" for w st'
    using that f(3)[of w] by linarith
  then show ?thesis
    unfolding yields_bind by (auto intro!: yields_mono[OF resume_thread_ok[OF f(1)]] simp: round_post_def f(2))
qed

lemma round_process:
  assumes f: "found_post I E st None st1" and env: "env_ok I E" and pk: "miter_peek (Events st) = Some n"
  shows "yields E (\<lambda>(goes_on, st'). round_post I E st goes_on st')
    (bind_result (process_event I n st1) (\<lambda>st2. Inr (True, st2)))"
proof -
  have g: "run_ok I E st1" "miter_peek (Events st1) = Some n" "time_last_processed st1 = time_last_processed st"
    "\<And>w. work_left w I st1 = work_left w I st"
    using f pk by (simp_all add: found_post_def)
  show ?thesis
    unfolding yields_bind
    by (rule yields_mono[OF process_event_ok[OF g(1) env g(2)]]) (simp add: round_post_def g(3,4))
qed

lemma found_clear_signals:
  assumes "found_post I E st None st1"
  shows "found_post I E st None (st1\<lparr>signals := clear_signals (signals st1)\<rparr>)"
proof -
  let ?st = "st1\<lparr>signals := clear_signals (signals st1)\<rparr>"
  have ok: "run_ok I E st1" using assms by (simp add: found_post_def)
  then have "sig_ok I E ?st" by (auto simp: run_ok_def sig_ok_def clear_signals_ok)
  then have "run_ok I E ?st" by (rule run_ok_signals[OF ok])
  then show ?thesis using assms work_left_cong[of ?st st1] by (simp add: found_post_def)
qed

lemma loop_body_ok:
  assumes ok: "run_ok I E st" and env: "env_ok I E"
  shows "yields E (\<lambda>(goes_on, st'). round_post I E st goes_on st') (loop_body I st)"
proof -
  have I: "interp_ok I E" using env by (simp add: env_ok_def)
  show ?thesis
  proof (cases "miter_peek (Events st)")
    case None
    show ?thesis
      unfolding loop_body_def None option.case
    proof (rule yields_bindI[OF can_a_thread_be_unlocked_ok[OF ok I]], simp, goal_cases)
      case (1 a)
      obtain f st1 where f: "a = (f, st1)" by (cases a)
      show ?case
      proof (cases f)
        case None
        then show ?thesis using 1 f by (simp add: round_post_def found_post_def)
      qed (use 1 f round_found in simp)
    qed
  next
    case (Some n)
    show ?thesis
    proof (cases "etime n > time_last_processed st")
      case True
      show ?thesis
        unfolding loop_body_def Some option.case if_P[OF True]
      proof (rule yields_bindI[OF can_a_thread_be_unlocked_ok[OF ok I]], goal_cases)
        case 1
        then show ?case using True by simp
      next
        case (2 a)
        obtain f st1 where f: "a = (f, st1)" by (cases a)
        show ?case
        proof (cases f)
          case None
          then have fp: "found_post I E st None st1" using 2 f by simp
          then have "Events st1 = Events st" by (simp add: found_post_def)
          then show ?thesis
            using round_process[OF found_clear_signals[OF fp] env Some] f None Some by simp
        qed (use 2 f round_found in simp)
      qed
    next
      case False
      show ?thesis
        unfolding loop_body_def Some option.case if_not_P[OF False]
        by (rule round_process[OF found_post_None[OF ok] env Some])
    qed
  qed
qed

end
