(* ===== verification/EventLoopWaking.thy ===== *)
theory EventLoopWaking
  imports EventLoopSteps
begin

text \<open>
  Which thread the modeling loop resumes: the searches of \<open>one_thread_can_be_unblocked_now\<close> and
  \<open>one_thread_can_be_unblocked_in_the_near_future\<close> find the earliest change of a watched resource
  at which the condition of a waiting thread is true.
\<close>

section \<open>Waking a thread\<close>

text \<open>
  The thread that a search at time \<open>T\<close> wakes: the first one, in the order of the list, whose
  condition is true at \<open>T\<close>. \<open>evaluable\<close>: the conditions have Boolean values at all times.
\<close>

definition holds_at :: "('c, 'u, 'v, 's) interpreter \<Rightarrow> ('c, 'u, 'v, 's) loop_state \<Rightarrow> int \<Rightarrow> nat \<Rightarrow> bool" where
  "holds_at I st T k =
     (case map_of (where_to_go st) k of
        None \<Rightarrow> False
      | Some i \<Rightarrow> eval_expression I (Calls i) (world st) T \<in> Inr ` BOOL_TYPE ` {0 <..})"

definition ready :: "('c, 'u, 'v, 's) interpreter \<Rightarrow> ('c, 'u, 'v, 's) loop_state \<Rightarrow> int \<Rightarrow> 'c option" where
  "ready I st T = map_option (\<lambda>k. Calls (the (map_of (where_to_go st) k)))
     (List.find (holds_at I st T) (actsOrResWaitingOnCond st))"

definition evaluable :: "('c, 'u, 'v, 's) interpreter \<Rightarrow> ('c, 'u, 'v, 's) loop_state \<Rightarrow> bool" where
  "evaluable I st \<longleftrightarrow> (\<forall>k\<in>set (actsOrResWaitingOnCond st).
     \<exists>i. map_of (where_to_go st) k = Some i
       \<and> (\<forall>T. \<exists>b. eval_expression I (Calls i) (world st) T = Inr (BOOL_TYPE b)))"

lemma conditions_loop_finds:
  assumes "evaluable I st" and "set ks \<subseteq> set (actsOrResWaitingOnCond st)"
  shows "conditions_loop I T ks st =
    Inr (case List.find (holds_at I st T) ks of
           None \<Rightarrow> (None, st)
         | Some k \<Rightarrow> (Some (Calls (the (map_of (where_to_go st) k))), unpark k st))"
  using assms(2)
proof (induction ks)
  case (Cons k ks)
  then obtain i b where i: "map_of (where_to_go st) k = Some i"
    "eval_expression I (Calls i) (world st) T = Inr (BOOL_TYPE b)"
    using assms(1) unfolding evaluable_def by (metis list.set_intros(1) subsetD)
  then have "holds_at I st T k \<longleftrightarrow> 0 < b" by (auto simp: holds_at_def)
  then show ?case using i Cons by simp
qed simp

lemma try_conditions_finds:
  assumes "evaluable I st"
  obtains st' where "try_conditions_next I T st = Inr (ready I st T, st')" and "now st' = now st"
    and "time_last_processed st' = time_last_processed st" and "world st' = world st"
    and "st' = st \<or> ready I st T \<noteq> None"
proof (cases "List.find (holds_at I st T) (actsOrResWaitingOnCond st)")
  case None
  with conditions_loop_finds[OF assms order_refl, of T] show ?thesis
    by (intro that[of st]) (simp_all add: try_conditions_next_def ready_def)
next
  case (Some k)
  with conditions_loop_finds[OF assms order_refl, of T] show ?thesis
    by (intro that[of "unpark k st"]) (simp_all add: try_conditions_next_def ready_def unpark_def)
qed

text \<open>A watched trigger at which a condition is true.\<close>

definition wakes :: "('c, 'u, 'v, 's) interpreter \<Rightarrow> ('c, 'u, 'v, 's) loop_state \<Rightarrow> int \<times> nat \<Rightarrow> bool" where
  "wakes I st t \<longleftrightarrow> snd t \<in> set (containersToWatchForWaitUntil st) \<and> ready I st (fst t) \<noteq> None"

definition now_result ::
  "('c, 'u, 'v, 's) interpreter \<Rightarrow> ('c, 'u, 'v, 's) loop_state \<Rightarrow> int \<Rightarrow> (int \<times> nat) list
     \<Rightarrow> ('c option \<times> ('c, 'u, 'v, 's) loop_state) result \<Rightarrow> bool" where
  "now_result I st Tc ts r =
     (case List.find (\<lambda>t. fst t = Tc \<and> wakes I st t) ts of
        None \<Rightarrow> r = Inr (None, st\<lparr>potential_triggers := dropWhile (\<lambda>t. fst t \<le> Tc) ts\<rparr>)
      | Some t \<Rightarrow> \<exists>st'. r = Inr (ready I st Tc, st')
          \<and> now st' = now st \<and> time_last_processed st' = time_last_processed st)"

lemma now_result_skip:
  assumes "fst t \<le> Tc" and "fst t = Tc \<Longrightarrow> \<not> wakes I st t"
  shows "now_result I st Tc (t # ts) r = now_result I st Tc ts r"
  using assms by (auto simp: now_result_def split: option.split)

lemma now_loop_finds:
  assumes ev: "evaluable I st" and "tried \<Longrightarrow> ready I st Tc = None" and "sorted (map fst ts)"
  shows "now_result I st Tc ts (unblocked_now_loop I Tc tried ts st)"
  using assms(2,3)
proof (induction ts arbitrary: tried)
  case Nil
  then show ?case by (simp add: now_result_def)
next
  case (Cons t ts)
  obtain st' where c: "try_conditions_next I Tc st = Inr (ready I st Tc, st')" "now st' = now st"
    "time_last_processed st' = time_last_processed st" "world st' = world st"
    "st' = st \<or> ready I st Tc \<noteq> None"
    by (rule try_conditions_finds[OF ev, of Tc])
  have srt: "sorted (map fst ts)" and later: "\<forall>u\<in>set ts. fst t \<le> fst u" using Cons.prems(2) by auto
  consider "fst t < Tc" | "Tc < fst t" | "fst t = Tc" by linarith
  then show ?case
  proof cases
    case 1
    then show ?thesis using Cons.IH[OF Cons.prems(1) srt] by (simp add: now_result_skip)
  next
    case 2
    have "List.find (\<lambda>t. fst t = Tc \<and> wakes I st t) (t # ts) = None"
      using 2 later by (force simp: find_None_iff)
    then show ?thesis using 2 by (simp add: now_result_def)
  next
    case 3
    show ?thesis
    proof (cases "ready I st Tc")
      case None
      then have nw: "\<not> wakes I st t" using 3 by (simp add: wakes_def)
      have "unblocked_now_loop I Tc tried (t # ts) st
          = unblocked_now_loop I Tc (tried \<or> snd t \<in> set (containersToWatchForWaitUntil st)) ts st"
        using 3 None c by auto
      then show ?thesis
        using Cons.IH[OF _ srt] None nw 3 by (simp add: now_result_skip)
    next
      case (Some d)
      then have nt: "\<not> tried" using Cons.prems(1) by auto
      have le: "\<not> fst t < Tc" "\<not> fst t > Tc" using 3 by simp_all
      note unf = unblocked_now_loop.simps(2)[of I Tc tried t ts st, unfolded if_not_P[OF le(1)] if_not_P[OF le(2)]]
      show ?thesis
      proof (cases "snd t \<in> set (containersToWatchForWaitUntil st)")
        case True
        then have "unblocked_now_loop I Tc tried (t # ts) st = Inr (Some d, st'\<lparr>potential_triggers := ts\<rparr>)"
          unfolding unf using nt 3 Some c(1) by simp
        then show ?thesis using True Some 3 c(2,3) by (simp add: now_result_def wakes_def)
      next
        case False
        then have "unblocked_now_loop I Tc tried (t # ts) st = unblocked_now_loop I Tc False ts st"
          unfolding unf using nt by simp
        moreover have "\<not> wakes I st t" using False by (simp add: wakes_def)
        ultimately show ?thesis using Cons.IH[of False] srt 3 by (simp add: now_result_skip)
      qed
    qed
  qed
qed


definition in_reach :: "int \<Rightarrow> int option \<Rightarrow> int \<Rightarrow> bool" where
  "in_reach Tc limit T \<longleftrightarrow> Tc < T \<and> (case limit of None \<Rightarrow> True | Some L \<Rightarrow> T < L)"

definition near_result ::
  "('c, 'u, 'v, 's) interpreter \<Rightarrow> ('c, 'u, 'v, 's) loop_state \<Rightarrow> int \<Rightarrow> int option \<Rightarrow> (int \<times> nat) list
     \<Rightarrow> (('c \<times> int) option \<times> ('c, 'u, 'v, 's) loop_state) result \<Rightarrow> bool" where
  "near_result I st Tc limit ts r =
     (case List.find (\<lambda>t. in_reach Tc limit (fst t) \<and> wakes I st t) ts of
        None \<Rightarrow> \<exists>us. r = Inr (None, st\<lparr>potential_triggers := us\<rparr>)
      | Some t \<Rightarrow> \<exists>st'. r = Inr (Some (the (ready I st (fst t)), fst t), st')
          \<and> now st' = now st \<and> time_last_processed st' = time_last_processed st \<and> world st' = world st)"

lemma near_result_None:
  assumes "List.find (\<lambda>t. in_reach Tc limit (fst t) \<and> wakes I st t) ts = None"
  shows "near_result I st Tc limit ts (Inr (None, st\<lparr>potential_triggers := us\<rparr>))"
  unfolding near_result_def assms option.case by (rule exI, rule refl)

lemma near_result_skip:
  assumes "\<not> (in_reach Tc limit (fst t) \<and> wakes I st t)"
  shows "near_result I st Tc limit (t # ts) r = near_result I st Tc limit ts r"
  using assms by (auto simp: near_result_def split: option.split)

lemma near_loop_finds:
  assumes ev: "evaluable I st" and "sorted (map fst ts)" and "\<forall>t\<in>set ts. lst \<le> fst t"
    and "tried \<Longrightarrow> \<forall>t\<in>set ts. fst t = lst \<longrightarrow> ready I st lst = None"
  shows "near_result I st Tc limit ts (near_future_loop I Tc limit tried lst ts st)"
  using assms(2-4)
proof (induction ts arbitrary: tried lst)
  case Nil
  then show ?case by (simp add: near_result_None)
next
  case (Cons t ts)
  let ?tried = "if fst t > lst then False else tried"
  obtain st' where c: "try_conditions_next I (fst t) st = Inr (ready I st (fst t), st')" "now st' = now st"
    "time_last_processed st' = time_last_processed st" "world st' = world st"
    "st' = st \<or> ready I st (fst t) \<noteq> None"
    by (rule try_conditions_finds[OF ev, of "fst t"])
  have srt: "sorted (map fst ts)" and later: "\<forall>u\<in>set ts. fst t \<le> fst u" using Cons.prems(1) by auto
  have ge: "\<forall>u\<in>set ts. lst \<le> fst u" "lst \<le> fst t" using Cons.prems(2) by auto
  have tr: "tried \<Longrightarrow> \<forall>u\<in>set ts. fst u = lst \<longrightarrow> ready I st lst = None" using Cons.prems(3) by simp
  consider "fst t \<le> Tc" | L where "Tc < fst t" "limit = Some L" "L \<le> fst t" | "in_reach Tc limit (fst t)"
    by (cases limit; cases "fst t \<le> Tc"; cases "the limit \<le> fst t") (auto simp: in_reach_def not_le)
  then show ?case
  proof cases
    case 1
    then have "\<not> in_reach Tc limit (fst t)" by (simp add: in_reach_def)
    then show ?thesis using Cons.IH[OF srt ge(1) tr] 1 by (simp add: near_result_skip)
  next
    case (2 L)
    have "List.find (\<lambda>t. in_reach Tc limit (fst t) \<and> wakes I st t) (t # ts) = None"
      using 2 later by (force simp: find_None_iff in_reach_def)
    then show ?thesis using 2 by (simp add: near_result_None)
  next
    case 3
    then have lim: "\<not> fst t \<le> Tc" "\<not> (case limit of None \<Rightarrow> False | Some T \<Rightarrow> fst t \<ge> T)"
      by (auto simp: in_reach_def split: option.splits)
    note unf = near_future_loop.simps(2)[of I Tc limit tried lst t ts st, unfolded if_not_P[OF lim(1)]
        if_not_P[OF lim(2)] Let_def]
    show ?thesis
    proof (cases "\<not> ?tried \<and> snd t \<in> set (containersToWatchForWaitUntil st)")
      case True
      show ?thesis
      proof (cases "ready I st (fst t)")
        case None
        then have "near_future_loop I Tc limit tried lst (t # ts) st
            = near_future_loop I Tc limit True (fst t) ts st"
          using c unfolding unf if_P[OF True] by simp
        then show ?thesis
          using Cons.IH[OF srt later, of True] None by (simp add: near_result_skip wakes_def)
      next
        case (Some d)
        then have "near_future_loop I Tc limit tried lst (t # ts) st
            = Inr (Some (d, fst t), st'\<lparr>potential_triggers := ts\<rparr>)"
          using c(1) unfolding unf if_P[OF True] by simp
        then show ?thesis
          using Some True 3 c(2-4) by (simp add: near_result_def wakes_def)
      qed
    next
      case False
      have nw: "\<not> wakes I st t"
      proof
        assume "wakes I st t"
        then have "?tried" and r: "ready I st (fst t) \<noteq> None" using False by (auto simp: wakes_def)
        then have "tried" "fst t = lst" using ge(2) by (auto split: if_splits)
        then show False using Cons.prems(3) r by simp
      qed
      have "near_result I st Tc limit ts (near_future_loop I Tc limit ?tried lst ts st)"
        by (rule Cons.IH[OF srt ge(1)]) (use tr in \<open>auto split: if_splits\<close>)
      moreover have "\<not> (in_reach Tc limit (fst t) \<and> wakes I st t)" using nw by blast
      ultimately show ?thesis unfolding unf if_not_P[OF False] by (subst near_result_skip)
    qed
  qed
qed


lemma find_now_or_later:
  assumes "sorted (map fst ts)" and lim: "\<And>L. limit = Some L \<Longrightarrow> Tc < L"
  shows "List.find (\<lambda>t. (fst t = Tc \<or> in_reach Tc limit (fst t)) \<and> P t) ts =
    (case List.find (\<lambda>t. fst t = Tc \<and> P t) ts of
       Some t \<Rightarrow> Some t
     | None \<Rightarrow> List.find (\<lambda>t. in_reach Tc limit (fst t) \<and> P t) (dropWhile (\<lambda>t. fst t \<le> Tc) ts))"
  using assms(1)
proof (induction ts)
  case (Cons t ts)
  show ?case
  proof (cases "fst t \<le> Tc")
    case True
    then have "\<not> in_reach Tc limit (fst t)" by (simp add: in_reach_def)
    then show ?thesis using Cons True by (auto split: option.split)
  next
    case False
    then have "\<forall>u\<in>set (t # ts). fst u \<noteq> Tc" using Cons.prems by fastforce
    then have "List.find (\<lambda>t. fst t = Tc \<and> P t) (t # ts) = None"
      "List.find (\<lambda>t. (fst t = Tc \<or> in_reach Tc limit (fst t)) \<and> P t) (t # ts)
        = List.find (\<lambda>t. in_reach Tc limit (fst t) \<and> P t) (t # ts)"
      by (force simp: find_None_iff, intro find_cong) auto
    then show ?thesis using False by simp
  qed
qed simp

lemma search_update [simp]:
  "ready I (st\<lparr>potential_triggers := us\<rparr>) T = ready I st T"
  "wakes I (st\<lparr>potential_triggers := us\<rparr>) t = wakes I st t"
  "evaluable I (st\<lparr>potential_triggers := us\<rparr>) = evaluable I st"
proof -
  have "holds_at I (st\<lparr>potential_triggers := us\<rparr>) T = holds_at I st T" for T
    by (auto simp: holds_at_def fun_eq_iff split: option.split)
  then show "ready I (st\<lparr>potential_triggers := us\<rparr>) T = ready I st T" for T by (simp add: ready_def)
  then show "wakes I (st\<lparr>potential_triggers := us\<rparr>) t = wakes I st t" by (simp add: wakes_def)
qed (simp add: evaluable_def)

lemma near_search:
  assumes ev: "evaluable I st" and srt: "sorted (map fst (potential_triggers st))"
    and late: "\<forall>t\<in>set (potential_triggers st). TIME_BIT < fst t"
    and nx: "\<forall>n. next_event = Some n \<longrightarrow> Tc < etime n"
  shows "near_result I st Tc (map_option etime next_event) (potential_triggers st)
    (one_thread_can_be_unblocked_in_the_near_future I Tc next_event st)"
proof -
  have "\<not> (case next_event of None \<Rightarrow> False | Some n \<Rightarrow> etime n \<le> Tc)"
    using nx by (auto split: option.splits)
  then have "one_thread_can_be_unblocked_in_the_near_future I Tc next_event st
      = near_future_loop I Tc (map_option etime next_event) (uninitialized I) TIME_BIT (potential_triggers st) st"
    by (simp add: one_thread_can_be_unblocked_in_the_near_future_def)
  then show ?thesis
    using near_loop_finds[OF ev srt, of TIME_BIT "uninitialized I"] late by fastforce
qed

lemma swallowed_advance:
  assumes "\<forall>T. \<exists>w. delete_old_events I T (world st) = Inr w"
  obtains st' where "swallow_eval_error (advance_now_to I T tol st) st = Inr st'" and "now st' = T"
proof (cases "T = now st \<and> \<not> tol")
  case True
  then show ?thesis by (intro that[of st]) (simp_all add: advance_now_to_def swallow_eval_error_def)
next
  case False
  obtain w where "delete_old_events I T (world st) = Inr w" using assms by blast
  with False show ?thesis
    by (intro that[of "st\<lparr>world := w, now := T\<rparr>"]) (auto simp: advance_now_to_def swallow_eval_error_def)
qed

text \<open>C3: No wake-up is missed: when no signal is pending and the conditions have Boolean values, the
  loop looks, among the changes of watched resources that are not before the time of the last event and
  are before the next one, for the earliest one at which the condition of a waiting thread is true. If
  there is one, it resumes the first such thread, and the current time is that of the change when it is
  later than the last event; otherwise it resumes none.\<close>

theorem earliest_true_condition_wakes:
  assumes "evaluable I st" and "sorted (map fst (potential_triggers st))"
    and "\<forall>t\<in>set (potential_triggers st). TIME_BIT < fst t"
    and "number_of_recent_signals (signals st) = 0"
    and "\<forall>n. next_event = Some n \<longrightarrow> time_last_processed st < etime n"
    and "\<forall>T. \<exists>w. delete_old_events I T (world st) = Inr w"
  shows "\<exists>st'. case List.find (\<lambda>t. (fst t = time_last_processed st
        \<or> in_reach (time_last_processed st) (map_option etime next_event) (fst t)) \<and> wakes I st t)
        (potential_triggers st) of
      None \<Rightarrow> can_a_thread_be_unlocked I next_event st = Inr (None, st')
    | Some t \<Rightarrow> can_a_thread_be_unlocked I next_event st = Inr (ready I st (fst t), st')
        \<and> ready I st (fst t) \<noteq> None
        \<and> now st' = (if fst t = time_last_processed st then now st else fst t)"
proof -
  let ?tl = "time_last_processed st" and ?L = "map_option etime next_event" and ?ts = "potential_triggers st"
  let ?now = "List.find (\<lambda>t. fst t = ?tl \<and> wakes I st t) ?ts"
  let ?us = "dropWhile (\<lambda>t. fst t \<le> ?tl) ?ts"
  let ?near = "List.find (\<lambda>t. in_reach ?tl ?L (fst t) \<and> wakes I st t) ?us"
  have both: "List.find (\<lambda>t. (fst t = ?tl \<or> in_reach ?tl ?L (fst t)) \<and> wakes I st t) ?ts
      = (case ?now of Some t \<Rightarrow> Some t | None \<Rightarrow> ?near)"
    by (rule find_now_or_later[OF assms(2)]) (use assms(5) in auto)
  have r1: "now_result I st ?tl ?ts (one_thread_can_be_unblocked_now I ?tl st)"
    using now_loop_finds[OF assms(1) _ assms(2), of False ?tl] assms(4)
    by (simp add: one_thread_can_be_unblocked_now_def)
  show ?thesis
  proof (cases ?now)
    case (Some t)
    then have t: "fst t = ?tl" "wakes I st t" by (auto simp: find_Some_iff)
    then obtain d where d: "ready I st ?tl = Some d" by (auto simp: wakes_def)
    then show ?thesis using r1 both t
      by (auto simp: Some now_result_def can_a_thread_be_unlocked_def)
  next
    case None
    let ?st1 = "st\<lparr>potential_triggers := ?us\<rparr>"
    have one: "one_thread_can_be_unblocked_now I ?tl st = Inr (None, ?st1)"
      using r1 None by (simp add: now_result_def)
    have "sorted (map fst ?us)" using assms(2) by (simp add: sorted_map)
    moreover have "\<forall>t\<in>set ?us. TIME_BIT < fst t" using assms(3) by (auto dest: set_dropWhileD)
    ultimately have "near_result I ?st1 ?tl ?L (potential_triggers ?st1)
        (one_thread_can_be_unblocked_in_the_near_future I ?tl next_event ?st1)"
      using assms(1,5) by (intro near_search) simp_all
    then have r2: "near_result I ?st1 ?tl ?L ?us
        (one_thread_can_be_unblocked_in_the_near_future I ?tl next_event ?st1)" by simp
    show ?thesis
    proof (cases ?near)
      case no: None
      then obtain us where near: "one_thread_can_be_unblocked_in_the_near_future I ?tl next_event ?st1
          = Inr (None, ?st1\<lparr>potential_triggers := us\<rparr>)"
        using r2 by (auto simp: near_result_def)
      obtain st' where "swallow_eval_error (advance_now_to I ?tl True (?st1\<lparr>potential_triggers := us\<rparr>))
          (?st1\<lparr>potential_triggers := us\<rparr>) = Inr st'"
        by (rule swallowed_advance[where st = "?st1\<lparr>potential_triggers := us\<rparr>"]) (use assms(6) in simp)
      then show ?thesis using one near both None no
        by (cases next_event) (auto simp: can_a_thread_be_unlocked_def)
    next
      case (Some t)
      then have t: "in_reach ?tl ?L (fst t)" "wakes I st t" by (auto simp: find_Some_iff)
      then obtain d where d: "ready I st (fst t) = Some d" by (auto simp: wakes_def)
      obtain st2 where near: "one_thread_can_be_unblocked_in_the_near_future I ?tl next_event ?st1
          = Inr (Some (d, fst t), st2)" and st2: "now st2 = now st" "time_last_processed st2 = ?tl"
          "world st2 = world st"
        using r2 Some d by (auto simp: near_result_def)
      obtain st' where st': "swallow_eval_error (advance_now_to I (fst t) False st2) st2 = Inr st'" "now st' = fst t"
        by (rule swallowed_advance[where st = st2 and T = "fst t" and tol = False]) (use assms(6) st2 in auto)
      have "?tl < fst t" "\<not> (case next_event of None \<Rightarrow> False | Some n \<Rightarrow> \<not> fst t < etime n)"
        using t(1) by (auto simp: in_reach_def split: option.splits)
      then have "can_a_thread_be_unlocked I next_event st = Inr (Some d, st')" "fst t \<noteq> ?tl"
        using one near st' by (simp_all add: can_a_thread_be_unlocked_def)
      then show ?thesis using both None Some d st'(2) by simp
    qed
  qed
qed


text \<open>Witness: a thread waits for a condition that becomes true at 30; the resource changes at 25 and 30.\<close>

definition sleeping_interp :: "(nat, unit, unit, int) interpreter" where
  "sleeping_interp =
     \<lparr>enabled = \<lambda>c s. True, usage_enabled = \<lambda>u s. True, Execute = \<lambda>c s t sigs. Inr (s, []),
      call_usage_method = \<lambda>u s t sigs. Inr (s, []), initialize_value = \<lambda>s t. Inr (s, []),
      eval_expression = \<lambda>c s t. Inr (BOOL_TYPE (if TIME_BIT + 30 \<le> t then 1 else 0)),
      container_names = \<lambda>c. [Some 7], ptrs_to_containers_used_in_profile = \<lambda>k. [],
      next_instruction = Suc, theSection = \<lambda>c. MODELING, delete_old_events = \<lambda>t s. Inr s,
      hard_timing_errors = False, regcomp = \<lambda>p. True, regexec = \<lambda>p s. p = s, uninitialized = True\<rparr>"

definition sleeping :: "(nat, unit, unit, int) loop_state" where
  "sleeping =
     \<lparr>Events = empty_miterator, CurrentEvent = None, currentEventID = 4, SafeTime = TIME_BIT + 20,
      now = TIME_BIT + 20, time_last_processed = TIME_BIT + 20,
      potential_triggers = [(TIME_BIT + 25, 7), (TIME_BIT + 30, 7)], containersToWatchForWaitUntil = [7],
      signals = no_signals, actsOrResWaitingOnSignals = [], actsOrResWaitingOnCond = [4],
      where_to_go = [(4, \<lparr>Calls = 1, cond_is_a_reg_exp = False\<rparr>)], world = 0\<rparr>"

lemma earliest_true_condition_wakes_witness:
  "\<exists>st'. can_a_thread_be_unlocked sleeping_interp None sleeping = Inr (Some 1, st') \<and> now st' = TIME_BIT + 30"
proof -
  have "evaluable sleeping_interp sleeping" "sorted (map fst (potential_triggers sleeping))"
    "\<forall>t\<in>set (potential_triggers sleeping). TIME_BIT < fst t"
    "number_of_recent_signals (signals sleeping) = 0"
    "\<forall>n. (None :: (nat, unit) mEvent option) = Some n \<longrightarrow> time_last_processed sleeping < etime n"
    "\<forall>T. \<exists>w. delete_old_events sleeping_interp T (world sleeping) = Inr w"
    by (simp_all add: sleeping_def sleeping_interp_def evaluable_def number_of_recent_signals_def no_signals_def)
  note found = earliest_true_condition_wakes[OF this]
  have r: "ready sleeping_interp sleeping (TIME_BIT + 25) = None"
    "ready sleeping_interp sleeping (TIME_BIT + 30) = Some 1"
    by (auto simp: ready_def holds_at_def sleeping_def sleeping_interp_def)
  show ?thesis using found r by (simp add: wakes_def in_reach_def) (simp add: sleeping_def)
qed

end
