(* ===== verification/EventLoopProperties.thy ===== *)
theory EventLoopProperties
  imports EventLoopSteps
begin

text \<open>
  The modeling loop as a whole: from the registration of the queues to the end of \<open>doModel\<close>. Time
  never decreases, the only errors are evaluation errors of the model, the earliest true condition
  wakes its thread, and a model whose events lead to a bounded number of further events ends.
\<close>

section \<open>The start of the loop\<close>

text \<open>
  The queues at the start: the initialization queue holds one event, the initialization, and no
  other event is earlier; the identifications of all events are different. No thread waits.
\<close>

definition event_set :: "(nat \<Rightarrow> ('c, 'u) eventPLD tlist) \<Rightarrow> (nat \<times> ('c, 'u) mEvent) set" where
  "event_set L = (\<Union>q\<in>queues. Pair q ` set (node_list (L q)))"

definition queues_ok :: "(nat \<Rightarrow> ('c, 'u) eventPLD tlist) \<Rightarrow> ('c, 'u) mEvent \<Rightarrow> nat \<Rightarrow> bool" where
  "queues_ok L n0 last_id \<longleftrightarrow> (\<forall>q\<in>queues. list_ok (L q)) \<and> node_list (L initializationQueue) = [n0]
     \<and> payload n0 = init_eventPLD \<and> (\<forall>e\<in>event_set L. etime n0 \<le> etime (snd e))
     \<and> inj_on (\<lambda>e. event_id (snd e)) (event_set L) \<and> (\<forall>k\<in>event_ids (event_set L). k \<le> last_id)"

definition idle :: "('c, 'u, 'v, 's) loop_state \<Rightarrow> bool" where
  "idle st \<longleftrightarrow> actsOrResWaitingOnSignals st = [] \<and> actsOrResWaitingOnCond st = [] \<and> where_to_go st = []"

text \<open>The initialization of the resources only adds nodes to their histories.\<close>

definition quiet_init :: "('c, 'u, 'v, 's) interpreter \<Rightarrow> bool" where
  "quiet_init I \<longleftrightarrow> (\<forall>s t s' rs. initialize_value I s t = Inr (s', rs)
     \<longrightarrow> (\<forall>r\<in>set rs. \<exists>T k. r = HistoryNode T k))"

lemma add_thread_lists:
  "add_thread t L name prio M = Inr M' \<Longrightarrow> active_threads M' = active_threads M \<and> dead_threads M' = dead_threads M"
  by (auto simp: add_thread_def split: if_splits)

lemma add_queue:
  assumes "miter_ok M" and "active_threads M = []" and "threads M t = None" and "list_ok L"
  obtains M' where "add_thread t L name prio M = Inr M'" and "miter_ok M'" and "active_threads M' = []"
    and "threads M' = (threads M)(t \<mapsto>
      \<lparr>thread_list = L, iterNode = hd_opt (node_list L), priority = prio, thread_name = name\<rparr>)"
proof -
  obtain M' where m: "add_thread t L name prio M = Inr M'" "miter_ok M'"
    "threads M' = (threads M)(t \<mapsto>
      \<lparr>thread_list = L, iterNode = hd_opt (node_list L), priority = prio, thread_name = name\<rparr>)"
    using assms(1,3,4) by (rule add_thread_ok)
  with add_thread_lists[OF m(1)] assms(2) show ?thesis by (intro that[of M']) simp_all
qed

lemma register_queues_ok:
  assumes "\<forall>q\<in>queues. list_ok (L q)"
  obtains M where "register_queues L = Inr M" and "miter_ok M" and "active_threads M = []"
    and "dom (threads M) = queues"
    and "\<And>q th. threads M q = Some th \<Longrightarrow> thread_list th = L q \<and> priority th = q"
proof -
  have l: "list_ok (L initializationQueue)" "list_ok (L eventQueue)" "list_ok (L currentQueue)"
    "list_ok (L expansionQueue)" "list_ok (L schedulingQueue)"
    using assms by (simp_all add: queues_def)
  have e: "miter_ok empty_miterator" "active_threads empty_miterator = []" "threads empty_miterator q = None" for q
    using startedD(1)[OF empty_miterator_ok] by (simp_all add: empty_miterator_def)
  obtain M0 where m0: "add_thread initializationQueue (L initializationQueue) ''initialization events'' 0
      (empty_miterator :: ('a, 'b) eventPLD miterator) = Inr M0" "miter_ok M0" "active_threads M0 = []"
    "threads M0 = (threads empty_miterator)(initializationQueue \<mapsto> \<lparr>thread_list = L initializationQueue,
      iterNode = hd_opt (node_list (L initializationQueue)), priority = 0, thread_name = ''initialization events''\<rparr>)"
    using e l(1) by (rule add_queue)
  have n0: "threads M0 eventQueue = None" by (simp add: m0(4) e(3) queue_defs)
  obtain M1 where m1: "add_thread eventQueue (L eventQueue) ''regular events'' 1 M0 = Inr M1" "miter_ok M1"
    "active_threads M1 = []" "threads M1 = (threads M0)(eventQueue \<mapsto> \<lparr>thread_list = L eventQueue,
      iterNode = hd_opt (node_list (L eventQueue)), priority = 1, thread_name = ''regular events''\<rparr>)"
    using m0(2,3) n0 l(2) by (rule add_queue)
  have n1: "threads M1 currentQueue = None" by (simp add: m0(4) m1(4) e(3) queue_defs)
  obtain M2 where m2: "add_thread currentQueue (L currentQueue) ''current events'' 2 M1 = Inr M2" "miter_ok M2"
    "active_threads M2 = []" "threads M2 = (threads M1)(currentQueue \<mapsto> \<lparr>thread_list = L currentQueue,
      iterNode = hd_opt (node_list (L currentQueue)), priority = 2, thread_name = ''current events''\<rparr>)"
    using m1(2,3) n1 l(3) by (rule add_queue)
  have n2: "threads M2 expansionQueue = None" by (simp add: m0(4) m1(4) m2(4) e(3) queue_defs)
  obtain M3 where m3: "add_thread expansionQueue (L expansionQueue) ''expansion events'' 3 M2 = Inr M3" "miter_ok M3"
    "active_threads M3 = []" "threads M3 = (threads M2)(expansionQueue \<mapsto> \<lparr>thread_list = L expansionQueue,
      iterNode = hd_opt (node_list (L expansionQueue)), priority = 3, thread_name = ''expansion events''\<rparr>)"
    using m2(2,3) n2 l(4) by (rule add_queue)
  have n3: "threads M3 schedulingQueue = None" by (simp add: m0(4) m1(4) m2(4) m3(4) e(3) queue_defs)
  obtain M4 where m4: "add_thread schedulingQueue (L schedulingQueue) ''scheduling events'' 4 M3 = Inr M4" "miter_ok M4"
    "active_threads M4 = []" "threads M4 = (threads M3)(schedulingQueue \<mapsto> \<lparr>thread_list = L schedulingQueue,
      iterNode = hd_opt (node_list (L schedulingQueue)), priority = 4, thread_name = ''scheduling events''\<rparr>)"
    using m3(2,3) n3 l(5) by (rule add_queue)
  note th = m4(4)[unfolded m3(4) m2(4) m1(4) m0(4)]
  show ?thesis
  proof (rule that[OF _ m4(2,3)])
    show "register_queues L = Inr M4"
      unfolding register_queues_def m0(1) m1(1) m2(1) m3(1) m4(1) bind_result_Inr ..
    show "dom (threads M4) = queues" by (auto simp: th e(3) queues_def empty_miterator_def)
    show "threads M4 q = Some th \<Longrightarrow> thread_list th = L q \<and> priority th = q" for q th
      by (auto simp: th e(3) queue_defs split: if_splits)
  qed
qed


text \<open>The iterator over the queues starts with the initialization.\<close>

lemma registered_first:
  assumes L: "queues_ok L n0 last_id" and M: "miter_ok M" "dom (threads M) = queues"
    "\<And>q th. threads M q = Some th \<Longrightarrow> thread_list th = L q \<and> priority th = q"
  shows "pending (miter_first M) = event_set L"
    and "miter_front (miter_first M) = Some (initializationQueue, n0)"
proof -
  note f = miter_first_ok[OF M(1)]
  show pend: "pending (miter_first M) = event_set L"
  proof (rule set_eqI)
    fix p :: "nat \<times> ('a, 'b) eventPLD tnode"
    obtain q n where p: "p = (q, n)" by (cases p)
    have "q \<in> queues \<longleftrightarrow> (\<exists>th. threads M q = Some th)" using M(2) by (auto simp: dom_def set_eq_iff)
    moreover have "p \<in> event_set L \<longleftrightarrow> q \<in> queues \<and> n \<in> set (node_list (L q))"
      by (auto simp: event_set_def p)
    ultimately show "p \<in> pending (miter_first M) \<longleftrightarrow> p \<in> event_set L"
      using M(3)[of q] by (fastforce simp: f(2) p)
  qed
  have prio: "prio_of (miter_first M) q = q" if q: "q \<in> queues" for q
  proof -
    obtain th where th: "threads M q = Some th" using q M(2) by (auto simp: dom_def set_eq_iff)
    have "map_option priority (threads (miter_first M) q) = Some q"
      using fun_cong[OF f(4), of q] th M(3)[OF th] by simp
    then show ?thesis by (auto simp: prio_of_def split: option.splits)
  qed
  have n0: "(initializationQueue, n0) \<in> event_set L" "\<forall>e\<in>event_set L. etime n0 \<le> etime (snd e)"
    and single: "node_list (L initializationQueue) = [n0]"
    using L by (auto simp: queues_ok_def event_set_def queues_def)
  have "pending (miter_first M) \<noteq> {}" using n0(1) pend by auto
  then obtain t n where fr: "miter_front (miter_first M) = Some (t, n)"
    using miter.front_empty[OF f(1)] by (cases "miter_front (miter_first M)") auto
  note g = miter_front_Some[OF f(1) fr]
  have t: "t \<in> queues" "(t, n) \<in> event_set L" using g(3) pend by (auto simp: event_set_def)
  have "comes_before (miter_first M) (t, n) (initializationQueue, n0)" using g(7) n0(1) pend by auto
  moreover have "etime n0 \<le> etime n" using n0(2) t(2) by auto
  moreover have "initializationQueue \<in> queues" by (simp add: queues_def)
  ultimately have "t = initializationQueue"
    using prio t(1) by (auto simp: comes_before_def initializationQueue_def split: if_splits)
  moreover from this have "n = n0" using t(2) single by (auto simp: event_set_def)
  ultimately show "miter_front (miter_first M) = Some (initializationQueue, n0)" using fr by simp
qed

lemma do_history:
  assumes "\<forall>r\<in>set rs. \<exists>T k. r = HistoryNode T k"
  obtains ts where "do_requests I rs st = Inr (st\<lparr>potential_triggers := ts\<rparr>)"
proof -
  have "\<exists>ts. do_requests I rs st = Inr (st\<lparr>potential_triggers := ts\<rparr>)"
    using assms
  proof (induction rs arbitrary: st)
    case Nil
    have "st = st\<lparr>potential_triggers := potential_triggers st\<rparr>" by simp
    then show ?case by (intro exI[of _ "potential_triggers st"]) simp
  next
    case (Cons r rs)
    obtain T k where r: "r = HistoryNode T k" using Cons.prems by auto
    obtain ts where "do_requests I rs (st\<lparr>potential_triggers := insert_trigger (T, k) (potential_triggers st)\<rparr>)
        = Inr (st\<lparr>potential_triggers := insert_trigger (T, k) (potential_triggers st)\<rparr>\<lparr>potential_triggers := ts\<rparr>)"
      using Cons by fastforce
    then show ?case by (auto simp: r)
  qed
  then show ?thesis using that by blast
qed

lemma first_event_ok:
  assumes I: "interp_ok I E" and quiet: "quiet_init I" and L: "queues_ok L n0 (currentEventID st)"
    and M: "register_queues L = Inr (Events st)" and idle: "idle st" and sig: "sig_ok I E st"
  shows "yields E (\<lambda>st'. run_ok I E st' \<and> time_last_processed st' = etime n0
      \<and> (\<forall>w. work_left w I st' + w init_eventPLD = (\<Sum>e\<in>event_set L. w (payload (snd e)))))
    (first_event I st)"
proof -
  obtain M where m: "register_queues L = Inr M" "miter_ok M" "active_threads M = []"
    "dom (threads M) = queues" "\<And>q th. threads M q = Some th \<Longrightarrow> thread_list th = L q \<and> priority th = q"
    by (rule register_queues_ok[of L]) (use L in \<open>auto simp: queues_ok_def\<close>)
  have ev: "Events st = M" using m(1) M by simp
  note fr = registered_first[OF L m(2,4,5)] note mf = miter_first_ok[OF m(2)]
  note pp = miter_front_Some[OF mf(1) fr(2)]
  let ?e = "(initializationQueue, n0)" and ?P = "miter_pop (miter_first M)"
  let ?st = "\<lambda>ts w w'. st\<lparr>Events := ?P, CurrentEvent := Some ?e, potential_triggers := ts, world := w',
      time_last_processed := etime n0, SafeTime := etime n0, now := etime n0\<rparr>"
  have par: "parked (?st ts w w') = {}" for ts w w' using idle by (simp add: parked_def idle_def)
  have lok: "loop_ok (?st ts w w')" for ts w w'
  proof -
    have "parked_ok (?st ts w w')" using idle par by (simp add: parked_ok_def idle_def)
    moreover have "live (?st ts w w') = event_set L"
      using pp(3-5) fr(1) mf(3) by (auto simp: live_def)
    moreover have "dom (threads ?P) = queues"
      using pp(6) mf(4) m(4) by (metis dom_map_option_comp)
    ultimately show ?thesis
      using L pp(2,4,5) fr(1) mf(3) by (auto simp: loop_ok_def queues_ok_def)
  qed
  have rok: "run_ok I E (?st ts w w')" for ts w w'
    using lok sig idle by (simp add: run_ok_def sig_ok_def waits_ok_def idle_def)
  have wk: "work_left g I (?st ts w w') + g init_eventPLD = (\<Sum>e\<in>event_set L. g (payload (snd e)))"
    for g ts w w'
  proof -
    have fin: "finite (event_set L)" using finite_pending[OF startedD(1)[OF mf(1)]] fr(1) by simp
    have "?e \<in> event_set L" using pp(3) fr(1) by simp
    moreover have "payload n0 = init_eventPLD" using L by (simp add: queues_ok_def)
    ultimately show ?thesis
      using sum.remove[OF fin, of ?e "\<lambda>e. g (payload (snd e))"] pp(4) fr(1) idle
      by (simp add: work_left_def queue_weight_def wait_weight_def idle_def)
  qed
  let ?begun = "st\<lparr>Events := ?P, CurrentEvent := Some ?e\<rparr>"
  have nx: "miter_next (Events st) = (None, miter_first M)"
    using m(3) by (simp add: ev miter_next_def)
  have fe: "first_event I st = bind_result (do_model I init_eventPLD ?begun)
      (\<lambda>st1. advance_now_to I (etime n0) True (st1\<lparr>time_last_processed := etime n0, SafeTime := etime n0\<rparr>))"
    using nx fr(2) idle L by (simp add: first_event_def idle_def queues_ok_def)
  show ?thesis
  proof (cases "initialize_value I (world st) (now st)")
    case (Inl e)
    then show ?thesis using interp_okD(4)[OF I, of "world st" "now st"] by (simp add: fe perform_def)
  next
    case (Inr p)
    obtain w rs where p: "p = (w, rs)" by (cases p)
    have "\<forall>r\<in>set rs. \<exists>T k. r = HistoryNode T k"
      using quiet Inr p unfolding quiet_init_def by blast
    then obtain ts where ts: "do_requests I rs (?begun\<lparr>potential_triggers := [], world := w\<rparr>)
        = Inr (?begun\<lparr>potential_triggers := [], world := w\<rparr>\<lparr>potential_triggers := ts\<rparr>)"
      by (rule do_history)
    show ?thesis
    proof (cases "delete_old_events I (etime n0) w")
      case (Inl e)
      then show ?thesis using interp_okD(6)[OF I, of "etime n0" w] ts
        by (simp add: fe perform_def Inr p advance_now_to_def)
    next
      case del: (Inr w')
      have "first_event I st = Inr (?st ts w w')"
        using ts del by (simp add: fe perform_def Inr p advance_now_to_def)
      then show ?thesis by (simp add: rok wk)
    qed
  qed
qed


section \<open>The rounds of the loop\<close>

text \<open>\<open>rounds I st st'\<close>: the loop gets from \<open>st\<close> to \<open>st'\<close> and goes on there.\<close>

inductive rounds ::
  "('c, 'u, 'v, 's) interpreter \<Rightarrow> ('c, 'u, 'v, 's) loop_state \<Rightarrow> ('c, 'u, 'v, 's) loop_state \<Rightarrow> bool"
  for I where
  rounds_refl: "rounds I st st"
| rounds_step: "rounds I st st1 \<Longrightarrow> loop_body I st1 = Inr (True, st2) \<Longrightarrow> rounds I st st2"

lemma rounds_ok:
  assumes "rounds I st st'" and "run_ok I E st" and env: "env_ok I E"
  shows "run_ok I E st' \<and> time_last_processed st \<le> time_last_processed st'"
  using assms(1,2)
proof (induction rule: rounds.induct)
  case (rounds_step st st1 st2)
  then have "run_ok I E st1" by simp
  then have "yields E (\<lambda>(goes_on, st'). round_post I E st1 goes_on st') (loop_body I st1)"
    using env by (rule loop_body_ok)
  then have "round_post I E st1 True st2" using rounds_step.hyps(2) by simp
  then show ?case using rounds_step by (auto simp: round_post_def)
qed simp

lemma yields_any: "yields (\<lambda>_. True) (\<lambda>_. True) r"
  by (cases r) simp_all

lemma any_error: "env_ok I (\<lambda>_. True)" "sig_ok I (\<lambda>_. True) st" "interp_ok I (\<lambda>_. True)"
proof -
  show "interp_ok I (\<lambda>_. True)" by (simp add: interp_ok_def yields_any)
  then show "env_ok I (\<lambda>_. True)" by (simp add: env_ok_def)
qed (simp add: sig_ok_def)

lemma bind_to_Inl: "bind_result r (\<lambda>a. Inr (f a)) = Inl e \<Longrightarrow> r = Inl e"
  by (cases r) simp_all

lemma model_done_idle:
  "idle (model_done last_request st)" "CurrentEvent (model_done last_request st) = None"
  "signals (model_done last_request st) = signals st"
  by (simp_all add: model_done_def idle_def PurgeSchedulingEvents_def Let_def split: option.split)

lemma event_loop_ok:
  assumes env: "env_ok I E" and ok: "run_ok I E st"
  shows "event_loop fuel I st = Some r \<Longrightarrow> yields E (\<lambda>_. True) r"
  using ok
proof (induction fuel arbitrary: st)
  case (Suc fuel)
  note body = loop_body_ok[OF Suc.prems(2) env]
  show ?case
  proof (cases "loop_body I st")
    case (Inl e)
    then show ?thesis using body Suc.prems(1) by auto
  next
    case (Inr p)
    obtain g st1 where p: "p = (g, st1)" by (cases p)
    then have "run_ok I E st1" using body Inr by (simp add: round_post_def)
    then show ?thesis using Suc Inr p by (cases g) auto
  qed
qed simp

lemma event_loop_returns:
  assumes w: "bounded_work I w" and ok: "run_ok I (\<lambda>_. True) st" and "work_left w I st < fuel"
  shows "\<exists>r. event_loop fuel I st = Some r"
  using ok assms(3)
proof (induction fuel arbitrary: st)
  case (Suc fuel)
  note body = loop_body_ok[OF Suc.prems(1) any_error(1)]
  show ?case
  proof (cases "loop_body I st")
    case (Inr p)
    obtain g st1 where p: "p = (g, st1)" by (cases p)
    then have "round_post I (\<lambda>_. True) st g st1" using body Inr by simp
    then have "run_ok I (\<lambda>_. True) st1" and "g \<Longrightarrow> work_left w I st1 < work_left w I st"
      using w by (auto simp: round_post_def)
    then show ?thesis using Suc.IH[of st1] Suc.prems(2) Inr p by (cases g) auto
  qed simp
qed simp

section \<open>Properties\<close>

text \<open>C2: Time never decreases: whatever the model does, in every round of the loop the time of the
  events processed is at least the one of all rounds before it and of the initialization, the current
  time is not before it, and no event left in the queues is before it.\<close>

theorem time_never_decreases:
  assumes "quiet_init I" and "queues_ok L n0 (currentEventID st)"
    and "register_queues L = Inr (Events st)" and "idle st" and "first_event I st = Inr st0"
    and "rounds I st0 st1" and "rounds I st1 st2"
  shows "etime n0 \<le> time_last_processed st1 \<and> time_last_processed st1 \<le> time_last_processed st2
    \<and> time_last_processed st2 \<le> now st2
    \<and> (\<forall>e\<in>pending (Events st2). time_last_processed st2 \<le> etime (snd e))"
proof -
  have "run_ok I (\<lambda>_. True) st0 \<and> time_last_processed st0 = etime n0"
    using first_event_ok[OF any_error(3) assms(1-4) any_error(2)] assms(5) by simp
  moreover from this have s1: "run_ok I (\<lambda>_. True) st1 \<and> time_last_processed st0 \<le> time_last_processed st1"
    using rounds_ok[OF assms(6) _ any_error(1)] by blast
  moreover from this have s2: "run_ok I (\<lambda>_. True) st2 \<and> time_last_processed st1 \<le> time_last_processed st2"
    using rounds_ok[OF assms(7) _ any_error(1)] by blast
  moreover from this have "loop_ok st2" by (simp add: run_ok_def)
  ultimately show ?thesis by (auto elim: loop_okD)
qed

text \<open>C1: No waiting thread is lost or resumed twice: in every round each of them has exactly one
  entry with its point of resumption, is in exactly one of the lists for signals and for conditions,
  and the event under whose identification it waits is in no queue any more.\<close>

theorem waiting_threads_consistent:
  assumes "quiet_init I" and "queues_ok L n0 (currentEventID st)"
    and "register_queues L = Inr (Events st)" and "idle st" and "first_event I st = Inr st0"
    and "rounds I st0 st1"
  shows "distinct (map fst (where_to_go st1))
    \<and> distinct (actsOrResWaitingOnSignals st1 @ actsOrResWaitingOnCond st1)
    \<and> fst ` set (where_to_go st1) = set (actsOrResWaitingOnSignals st1 @ actsOrResWaitingOnCond st1)
    \<and> fst ` set (where_to_go st1) \<inter> event_ids (pending (Events st1)) = {}"
proof -
  have "run_ok I (\<lambda>_. True) st0"
    using first_event_ok[OF any_error(3) assms(1-4) any_error(2)] assms(5) by simp
  then have "run_ok I (\<lambda>_. True) st1" using rounds_ok[OF assms(6) _ any_error(1)] by blast
  then have "parked_ok st1" unfolding run_ok_def by (auto elim: loop_okD)
  then show ?thesis unfolding parked_ok_def parked_def set_append by blast
qed

text \<open>C5: The loop itself does not go wrong: when the interpreter ends with evaluation errors only
  and every condition of a wait keeps its type, every error that ends the modeling is an evaluation
  error of the model, never a failed assertion, a null pointer, a missing point of resumption, an event
  in the past or a clash in a queue.\<close>

theorem modeling_errors:
  assumes "interp_ok I (\<lambda>e. \<exists>m. e = EvalError m \<and> \<not> internal_message m)" and "conditions_typed I"
    and "quiet_init I" and "queues_ok L n0 (currentEventID st)" and "idle st"
    and "store_ok (regcomp I) (regexec I) (signals st)"
    and "doModel fuel I L last_request st = Some (Inl e)"
  shows "\<exists>m. e = EvalError m \<and> \<not> internal_message m"
proof -
  let ?E = "\<lambda>e. \<exists>m. e = EvalError m \<and> \<not> internal_message m"
  have env: "env_ok I ?E" using assms(1,2) by (simp add: env_ok_def)
  have "\<forall>q\<in>queues. list_ok (L q)" using assms(4) by (simp add: queues_ok_def)
  then obtain M where M: "register_queues L = Inr M" by (rule register_queues_ok)
  let ?st = "st\<lparr>Events := M\<rparr>"
  have "idle ?st" "sig_ok I ?E ?st" "queues_ok L n0 (currentEventID ?st)" "register_queues L = Inr (Events ?st)"
    using assms(4-6) M by (simp_all add: sig_ok_def idle_def)
  note first = first_event_ok[OF assms(1,3) this(3,4,1,2)]
  obtain r where r: "ProcessEvents fuel I ?st = Some r" and e: "r = Inl e"
    using assms(7) M bind_to_Inl by (fastforce simp: doModel_def)
  show ?thesis
  proof (cases "first_event I ?st")
    case (Inl e')
    then show ?thesis using first r e by (simp add: ProcessEvents_def)
  next
    case (Inr st0)
    then obtain r' where "event_loop fuel I st0 = Some r'" "r' = Inl e"
      using r e bind_to_Inl by (fastforce simp: ProcessEvents_def)
    then show ?thesis using event_loop_ok[OF env, of st0 fuel] first Inr by auto
  qed
qed

text \<open>C4: Modeling ends: when every event outweighs the events that its processing can lead to,
  directly or after a wait, the loop ends after at most as many rounds as the events at the start
  weigh together, and when no error occurs it leaves no event, waiting thread, signal or pattern.\<close>

theorem modeling_terminates:
  assumes "bounded_work I w" and "quiet_init I" and "queues_ok L n0 (currentEventID st)" and "idle st"
    and "(\<Sum>e\<in>event_set L. w (payload (snd e))) \<le> fuel"
  shows "\<exists>r. doModel fuel I L last_request st = Some r
    \<and> (case r of Inl e \<Rightarrow> True
       | Inr st' \<Rightarrow> idle st' \<and> CurrentEvent st' = None \<and> signals st' = no_signals)"
proof -
  have "\<forall>q\<in>queues. list_ok (L q)" using assms(3) by (simp add: queues_ok_def)
  then obtain M where M: "register_queues L = Inr M" by (rule register_queues_ok)
  let ?st = "st\<lparr>Events := M\<rparr>"
  have "idle ?st" "queues_ok L n0 (currentEventID ?st)" "register_queues L = Inr (Events ?st)"
    using assms(3,4) M by (simp_all add: idle_def)
  note first = first_event_ok[OF any_error(3) assms(2) this(2,3,1) any_error(2)]
  have "\<exists>r. ProcessEvents fuel I ?st = Some r
      \<and> (\<forall>st'. r = Inr st' \<longrightarrow> signals st' = no_signals)"
  proof (cases "first_event I ?st")
    case (Inr st0)
    then have ok: "run_ok I (\<lambda>_. True) st0"
      and "work_left w I st0 + w init_eventPLD = (\<Sum>e\<in>event_set L. w (payload (snd e)))"
      using first by auto
    then have "work_left w I st0 < fuel" using assms(5) bounded_workD(1)[OF assms(1), of init_eventPLD] by simp
    with ok obtain r where "event_loop fuel I st0 = Some r" using event_loop_returns[OF assms(1)] by blast
    then show ?thesis using Inr
      by (cases r) (auto simp: ProcessEvents_def clear_signals_def clear_patterns_def no_signals_def)
  qed (simp add: ProcessEvents_def)
  then obtain r where "ProcessEvents fuel I ?st = Some r" "\<forall>st'. r = Inr st' \<longrightarrow> signals st' = no_signals"
    by blast
  then show ?thesis using M by (cases r) (simp_all add: doModel_def model_done_idle)
qed


section \<open>A concrete model\<close>

text \<open>
  A thread resumed at 20 executes \<open>WAIT UNTIL\<close> a resource is positive; a usage event at 30 sets the
  resource.
\<close>

definition sample_interp :: "(nat, unit, unit, int) interpreter" where
  "sample_interp =
     \<lparr>enabled = \<lambda>c s. True, usage_enabled = \<lambda>u s. True,
      Execute = \<lambda>c s t sigs. Inr (s, if c = 0 then [WaitUntil 1] else []),
      call_usage_method = \<lambda>u s t sigs. Inr (1, [HistoryNode t 7]),
      initialize_value = \<lambda>s t. Inr (0, [HistoryNode t 7]),
      eval_expression = \<lambda>c s t. Inr (BOOL_TYPE (if 0 < s then 1 else 0)),
      container_names = \<lambda>c. [Some 7], ptrs_to_containers_used_in_profile = \<lambda>k. [],
      next_instruction = Suc, theSection = \<lambda>c. MODELING, delete_old_events = \<lambda>t s. Inr s,
      hard_timing_errors = False, regcomp = \<lambda>p. True, regexec = \<lambda>p s. p = s, uninitialized = True\<rparr>"

definition sample_event :: "int \<Rightarrow> nat \<Rightarrow> (nat, unit) eventPLD \<Rightarrow> (nat, unit) mEvent" where
  "sample_event T i pl = \<lparr>etime = T, secondaryKey = 0, event_id = i, payload = pl\<rparr>"

definition sample_queues :: "nat \<Rightarrow> (nat, unit) eventPLD tlist" where
  "sample_queues q = \<lparr>node_list =
     (if q = 0 then [sample_event 10 1 init_eventPLD]
      else if q = 1 then [sample_event 30 3 (usage_event ())]
      else if q = 3 then [sample_event 20 2 (resume_event 0)] else []), ambiguityCount = 0\<rparr>"

definition sample_start :: "(nat, unit, unit, int) loop_state" where
  "sample_start =
     \<lparr>Events = (case register_queues sample_queues of Inl e \<Rightarrow> empty_miterator | Inr M \<Rightarrow> M),
      CurrentEvent = None, currentEventID = 3, SafeTime = 10, now = 10, time_last_processed = 10,
      potential_triggers = [], containersToWatchForWaitUntil = [], signals = no_signals,
      actsOrResWaitingOnSignals = [], actsOrResWaitingOnCond = [], where_to_go = [], world = 0\<rparr>"

lemma sample_quiet: "quiet_init sample_interp"
  by (simp add: quiet_init_def sample_interp_def)

lemma sample_event_set:
  "event_set sample_queues = {(0, sample_event 10 1 init_eventPLD), (1, sample_event 30 3 (usage_event ())),
     (3, sample_event 20 2 (resume_event 0))}"
  by (auto simp: event_set_def queues_def queue_defs sample_queues_def)

lemma sample_queues_ok: "queues_ok sample_queues (sample_event 10 1 init_eventPLD) 3"
  by (simp add: queues_ok_def sample_event_set)
    (auto simp: list_ok_def sample_queues_def queue_defs sample_event_def inj_on_def)

lemma sample_registered: "register_queues sample_queues = Inr (Events sample_start)"
proof -
  have "\<forall>q\<in>queues. list_ok (sample_queues q)" using sample_queues_ok by (simp add: queues_ok_def)
  then obtain M where "register_queues sample_queues = Inr M" by (rule register_queues_ok)
  then show ?thesis by (simp add: sample_start_def)
qed

lemma sample_idle: "idle sample_start"
  by (simp add: idle_def sample_start_def)

definition sample_round :: "nat \<Rightarrow> (nat, unit, unit, int) loop_state" where
  "sample_round k = ((\<lambda>st. case loop_body sample_interp st of Inl e \<Rightarrow> st | Inr (b, st') \<Rightarrow> st') ^^ k)
     (case first_event sample_interp sample_start of Inl e \<Rightarrow> sample_start | Inr st \<Rightarrow> st)"

definition loops :: "(nat, unit, unit, int) loop_state \<Rightarrow> bool" where
  "loops st = (case loop_body sample_interp st of Inl e \<Rightarrow> False | Inr (b, st') \<Rightarrow> b)"

lemma sample_starts: "first_event sample_interp sample_start = Inr (sample_round 0)"
proof -
  have "case first_event sample_interp sample_start of Inl e \<Rightarrow> False | Inr st \<Rightarrow> True" by code_simp
  then show ?thesis by (simp add: sample_round_def split: sum.splits)
qed

lemma sample_step:
  "loops (sample_round k) \<Longrightarrow> loop_body sample_interp (sample_round k) = Inr (True, sample_round (Suc k))"
  by (simp add: loops_def sample_round_def split: sum.splits prod.splits)

lemma sample_rounds:
  "rounds sample_interp (sample_round 0) (sample_round 1)"
  "rounds sample_interp (sample_round 1) (sample_round 2)"
  "rounds sample_interp (sample_round 0) (sample_round 2)"
proof -
  have "loops (sample_round 0)" "loops (sample_round 1)" by code_simp+
  note step = this[THEN sample_step, folded numeral_2_eq_2 One_nat_def]
  show one: "rounds sample_interp (sample_round 0) (sample_round 1)"
    by (rule rounds_step[OF rounds_refl step(1)])
  show "rounds sample_interp (sample_round 1) (sample_round 2)"
    by (rule rounds_step[OF rounds_refl]) (use step(2) in \<open>simp add: numeral_2_eq_2\<close>)
  show "rounds sample_interp (sample_round 0) (sample_round 2)"
    by (rule rounds_step[OF one]) (use step(2) in \<open>simp add: numeral_2_eq_2\<close>)
qed

lemma time_never_decreases_witness:
  "10 \<le> time_last_processed (sample_round 1)
    \<and> time_last_processed (sample_round 1) \<le> time_last_processed (sample_round 2)
    \<and> time_last_processed (sample_round 2) \<le> now (sample_round 2)
    \<and> time_last_processed (sample_round 2) = 20"
proof -
  have id: "currentEventID sample_start = 3" by (simp add: sample_start_def)
  have "time_last_processed (sample_round 2) = 20" by code_simp
  then show ?thesis
    using time_never_decreases[OF sample_quiet sample_queues_ok[folded id] sample_registered sample_idle
        sample_starts sample_rounds(1,2)]
    by (simp add: sample_event_def)
qed

lemma waiting_threads_consistent_witness:
  "map fst (where_to_go (sample_round 2)) = [4] \<and> distinct (map fst (where_to_go (sample_round 2)))
    \<and> fst ` set (where_to_go (sample_round 2)) =
        set (actsOrResWaitingOnSignals (sample_round 2) @ actsOrResWaitingOnCond (sample_round 2))"
proof -
  have id: "currentEventID sample_start = 3" by (simp add: sample_start_def)
  have "map fst (where_to_go (sample_round 2)) = [4]" by code_simp
  then show ?thesis
    using waiting_threads_consistent[OF sample_quiet sample_queues_ok[folded id] sample_registered
        sample_idle sample_starts sample_rounds(3)]
    by blast
qed

text \<open>For the error paths: the usage fails.\<close>

definition failing_interp :: "(nat, unit, unit, int) interpreter" where
  "failing_interp = sample_interp
     \<lparr>call_usage_method := \<lambda>u s t sigs. Inl (EvalError ''division by zero'')\<rparr>"

lemma modeling_errors_witness:
  "doModel 10 failing_interp sample_queues None sample_start = Some (Inl (EvalError ''division by zero''))
    \<and> (\<exists>m. EvalError ''division by zero'' = EvalError m \<and> \<not> internal_message m)"
proof -
  have run: "doModel 10 failing_interp sample_queues None sample_start
      = Some (Inl (EvalError ''division by zero''))"
  proof -
    have "case doModel 10 failing_interp sample_queues None sample_start of
        Some (Inl (EvalError m)) \<Rightarrow> m = ''division by zero'' | _ \<Rightarrow> False" by code_simp
    then show ?thesis by (simp split: option.splits sum.splits ap_error.splits)
  qed
  have "interp_ok failing_interp (\<lambda>e. \<exists>m. e = EvalError m \<and> \<not> internal_message m)"
    by (simp add: interp_ok_def failing_interp_def sample_interp_def internal_message_def)
  moreover have "conditions_typed failing_interp"
    by (simp add: conditions_typed_def bool_wait_def failing_interp_def sample_interp_def)
  moreover have "quiet_init failing_interp"
    by (simp add: quiet_init_def failing_interp_def sample_interp_def)
  moreover have "queues_ok sample_queues (sample_event 10 1 init_eventPLD) (currentEventID sample_start)"
    using sample_queues_ok by (simp add: sample_start_def)
  moreover have "store_ok (regcomp failing_interp) (regexec failing_interp) (signals sample_start)"
    by (simp add: sample_start_def store_ok_def no_signals_def)
  ultimately show ?thesis using run modeling_errors[OF _ _ _ _ sample_idle _ run] by blast
qed

definition sample_weight :: "(nat, unit) eventPLD \<Rightarrow> nat" where
  "sample_weight pl =
     (case pl of wait_until_event c \<Rightarrow> 3 | wait_regexp_event c \<Rightarrow> 3
      | resume_event c \<Rightarrow> if c = 0 then 4 else 1 | _ \<Rightarrow> 1)"

lemma modeling_terminates_witness:
  "\<exists>r. doModel 6 sample_interp sample_queues None sample_start = Some r
    \<and> (case r of Inl e \<Rightarrow> True
       | Inr st' \<Rightarrow> idle st' \<and> CurrentEvent st' = None \<and> signals st' = no_signals)"
proof (rule modeling_terminates[OF _ sample_quiet _ sample_idle])
  show "bounded_work sample_interp sample_weight"
    by (auto simp: bounded_work_def sample_interp_def sample_weight_def split: eventPLD.split if_splits)
  show "queues_ok sample_queues (sample_event 10 1 init_eventPLD) (currentEventID sample_start)"
    using sample_queues_ok by (simp add: sample_start_def)
  show "(\<Sum>e\<in>event_set sample_queues. sample_weight (payload (snd e))) \<le> 6"
    by (simp add: sample_event_set sample_event_def sample_weight_def)
qed

end
