(* ===== verification/Activities.thy ===== *)
theory Activities
  imports ApPrelude
begin

text \<open>
  The instances of activities and what they keep of their hierarchy
  (\<open>src/apgenlib/ActivityInstance.H\<close>, \<open>src/apcore/activities/ACT_helpers.C\<close>,
  \<open>src/apcore/activities/ActivityInstance.C\<close>): the links between parents and children, the list
  an instance lies in, the selection, and the operations that read or change them one at a
  time. The transitions of an instance between its states are in the theory \<open>StateChanger\<close>.

  An instance is named by a number, its address, and the live instances are a map from
  addresses to their members. The lists of smart pointers (\<open>superactivities\<close>,
  \<open>subactivities\<close>, the selection) are lists of addresses, in the order of the linked list,
  which is the order of insertion. The list that holds an instance is the \<open>list\<close> pointer of
  its node; the order of the instances in that list, which is by time, is the subject of the
  theories on \<open>clist\<close> and is left out here.
\<close>

section \<open>The enumerations\<close>

datatype method_type =
    METHOD_ATTRIBUTES | CONCUREXP | METHOD_CREATION | DECOMPOSITION | METHOD_DESTRUCTION
  | METHOD_FUNCTION | METHOD_MODELING | METHOD_NONE | NONEXCLDECOMP | METHOD_PARAMETERS
  | METHOD_PROFILE | METHOD_RESUSAGE | METHOD_STATES | METHOD_USAGE

datatype act_visibility_state =
    VISIBILITY_REGULAR | VISIBILITY_DECOMPOSED | VISIBILITY_ABSTRACTED | VISIBILITY_BRAND_NEW
  | VISIBILITY_NEWCHILDREN | VISIBILITY_ON_CLIPBOARD

text \<open>The lists of \<open>act_lists\<close>.\<close>

datatype act_list =
    someActiveInstances | someBrandNewActivities | someDecomposedActivities
  | someAbstractedActivities | somePendingActivities

section \<open>The state\<close>

text \<open>
  The members of an \<open>ActivityInstance\<close> and of its \<open>hierarchy_member\<close>. \<open>parent_attribute\<close> is
  the value of the attribute \<open>PARENT\<close> of its object, \<open>scheduled\<close> that of \<open>STATUS\<close>,
  \<open>decompose_task\<close> the section of origin of the task \<open>decompose\<close> of its type, when the type has
  one. \<open>has_derived_data\<close> says that \<open>dataForDerivedClasses\<close> is there, the object through which a
  client such as the display follows the instance.
\<close>

record activity =
  superactivities :: "nat list"
  subactivities :: "nat list"
  up_accelerator :: "nat option"
  parent_attribute :: "nat option"
  in_act_list :: "act_list option"
  scheduled :: bool
  EpochIfApplicable :: string
  act_start :: int
  act_span :: int
  act_finish :: int
  decompose_task :: "method_type option"
  has_derived_data :: bool

text \<open>
  What an operation asks of code outside of the hierarchy: the programs of the adaptation
  (creation, destruction, decomposition) and the callbacks of the client. The state keeps
  them in the order in which they are made.
\<close>

datatype act_call =
    Create nat | Destroy nat | Decompose nat
  | Handle_instantiation nat bool | Handle_selection nat bool

record act_state =
  acts :: "nat \<Rightarrow> activity option"
  sel_list :: "nat list"
  act_calls :: "act_call list"
  next_act :: nat

text \<open>
  The ways an operation ends: it returns, it leaves by an exit of the prelude, or it uses up
  the bound on the depth of its calls. C++ keeps the changes made before a throw, so a throw
  carries the state too.
\<close>

datatype act_outcome =
    Returns act_state
  | Throws ap_error act_state
  | Runs_on

primrec and_then :: "act_outcome \<Rightarrow> (act_state \<Rightarrow> act_outcome) \<Rightarrow> act_outcome" where
  "and_then (Returns s) f = f s"
| "and_then (Throws e s) f = Throws e s"
| "and_then Runs_on f = Runs_on"

text \<open>A loop over the pointers of a list.\<close>

primrec for_each :: "(nat \<Rightarrow> act_state \<Rightarrow> act_outcome) \<Rightarrow> nat list \<Rightarrow> act_state \<Rightarrow> act_outcome"
where
  "for_each f [] s = Returns s"
| "for_each f (b # bs) s = and_then (f b s) (for_each f bs)"

text \<open>A \<open>catch\<close> of \<open>eval_error\<close> and \<open>decomp_error\<close> that throws again with more text.\<close>

definition rethrow :: "string \<Rightarrow> act_outcome \<Rightarrow> act_outcome" where
  "rethrow msg r = (case r of
     Throws (EvalError m) s \<Rightarrow> Throws (EvalError (msg @ m)) s
   | Throws (DecompError m) s \<Rightarrow> Throws (DecompError (msg @ m)) s
   | _ \<Rightarrow> r)"

text \<open>The same, when what is thrown again is an \<open>eval_error\<close> in both cases.\<close>

definition rethrow_as_eval_error :: "string \<Rightarrow> act_outcome \<Rightarrow> act_outcome" where
  "rethrow_as_eval_error msg r = (case r of
     Throws (EvalError m) s \<Rightarrow> Throws (EvalError (msg @ m)) s
   | Throws (DecompError m) s \<Rightarrow> Throws (EvalError (msg @ m)) s
   | _ \<Rightarrow> r)"

section \<open>Reading and writing an instance\<close>

definition with_act :: "nat \<Rightarrow> (activity \<Rightarrow> activity) \<Rightarrow> act_state \<Rightarrow> act_state" where
  "with_act a f s = s\<lparr>acts := (acts s)(a := map_option f (acts s a))\<rparr>"

definition act_call :: "act_call \<Rightarrow> act_state \<Rightarrow> act_state" where
  "act_call c s = s\<lparr>act_calls := act_calls s @ [c]\<rparr>"

definition children :: "act_state \<Rightarrow> nat \<Rightarrow> nat list" where
  "children s a = (case acts s a of None \<Rightarrow> [] | Some x \<Rightarrow> subactivities x)"

definition get_parent :: "act_state \<Rightarrow> nat \<Rightarrow> nat option" where
  "get_parent s a = (case acts s a of None \<Rightarrow> None | Some x \<Rightarrow> hd_opt (superactivities x))"

definition children_count :: "act_state \<Rightarrow> nat \<Rightarrow> nat" where
  "children_count s a = length (children s a)"

definition has_decomp_method :: "act_state \<Rightarrow> nat \<Rightarrow> method_type option" where
  "has_decomp_method s a = (case acts s a of None \<Rightarrow> None | Some x \<Rightarrow> decompose_task x)"

definition is_unscheduled :: "act_state \<Rightarrow> nat \<Rightarrow> bool" where
  "is_unscheduled s a = (case acts s a of None \<Rightarrow> True | Some x \<Rightarrow> \<not> scheduled x)"

definition derived_data :: "act_state \<Rightarrow> nat \<Rightarrow> bool" where
  "derived_data s a = (case acts s a of None \<Rightarrow> False | Some x \<Rightarrow> has_derived_data x)"

text \<open>Constant methods: every instance has a type, and none is a request any more.\<close>

definition hasType :: "act_state \<Rightarrow> nat \<Rightarrow> bool" where
  "hasType s a = True"

definition is_a_request :: "act_state \<Rightarrow> nat \<Rightarrow> bool" where
  "is_a_request s a = False"

definition set_scheduled :: "bool \<Rightarrow> nat \<Rightarrow> act_state \<Rightarrow> act_state" where
  "set_scheduled b a = with_act a (\<lambda>x. x\<lparr>scheduled := b\<rparr>)"

section \<open>The list of an instance (\<open>PR_manager\<close>)\<close>

definition is_in_list :: "act_list \<Rightarrow> act_state \<Rightarrow> nat \<Rightarrow> bool" where
  "is_in_list l s a = (case acts s a of None \<Rightarrow> False | Some x \<Rightarrow> in_act_list x = Some l)"

definition is_brand_new :: "act_state \<Rightarrow> nat \<Rightarrow> bool" where
  "is_brand_new = is_in_list someBrandNewActivities"

definition is_active :: "act_state \<Rightarrow> nat \<Rightarrow> bool" where
  "is_active = is_in_list someActiveInstances"

definition is_decomposed :: "act_state \<Rightarrow> nat \<Rightarrow> bool" where
  "is_decomposed = is_in_list someDecomposedActivities"

definition is_abstracted :: "act_state \<Rightarrow> nat \<Rightarrow> bool" where
  "is_abstracted = is_in_list someAbstractedActivities"

definition is_on_clipboard :: "act_state \<Rightarrow> nat \<Rightarrow> bool" where
  "is_on_clipboard = is_in_list somePendingActivities"

text \<open>
  \<open>OwnedCList::insert_node\<close> takes the node out of the list that holds it before it inserts it.
\<close>

definition insert_act :: "act_list \<Rightarrow> nat \<Rightarrow> act_state \<Rightarrow> act_state" where
  "insert_act l a = with_act a (\<lambda>x. x\<lparr>in_act_list := Some l\<rparr>)"

text \<open>
  An instance is weakly active when it is displayed, or when nonexclusive decompositions link
  it to one that is. The two loops follow the links up from an abstracted instance, and down
  along the first children from a decomposed one; \<open>None\<close> is a loop longer than the bound.
\<close>

primrec active_above :: "nat \<Rightarrow> act_state \<Rightarrow> nat option \<Rightarrow> bool option" where
  "active_above 0 s P = None"
| "active_above (Suc n) s P = (case P of
     None \<Rightarrow> Some False
   | Some p \<Rightarrow>
       if has_decomp_method s p = Some NONEXCLDECOMP
       then if is_active s p then Some True else active_above n s (get_parent s p)
       else Some False)"

primrec active_below :: "nat \<Rightarrow> act_state \<Rightarrow> nat \<Rightarrow> bool option" where
  "active_below 0 s p = None"
| "active_below (Suc n) s p =
    (if has_decomp_method s p = Some NONEXCLDECOMP
     then case children s p of
            [] \<Rightarrow> Some True
          | c # _ \<Rightarrow> if is_active s c then Some True else active_below n s c
     else Some False)"

definition is_weakly_active :: "nat \<Rightarrow> act_state \<Rightarrow> nat \<Rightarrow> bool option" where
  "is_weakly_active n s a =
    (if is_active s a then Some True
     else if is_abstracted s a then active_above n s (get_parent s a)
     else if is_decomposed s a then active_below n s a
     else Some False)"

section \<open>The selection (\<open>Dsource\<close>)\<close>

definition handle_selection :: "bool \<Rightarrow> nat \<Rightarrow> act_state \<Rightarrow> act_state" where
  "handle_selection b a s = (if derived_data s a then act_call (Handle_selection a b) s else s)"

definition select :: "nat \<Rightarrow> act_state \<Rightarrow> act_state" where
  "select a s = (if a \<in> set (sel_list s) then s
     else handle_selection True a (s\<lparr>sel_list := sel_list s @ [a]\<rparr>))"

definition unselect :: "nat \<Rightarrow> act_state \<Rightarrow> act_state" where
  "unselect a s = (if a \<in> set (sel_list s)
     then handle_selection False a (s\<lparr>sel_list := remove1 a (sel_list s)\<rparr>) else s)"

definition handle_instantiation :: "bool \<Rightarrow> nat \<Rightarrow> act_state \<Rightarrow> act_state" where
  "handle_instantiation b a s =
    (if derived_data s a then act_call (Handle_instantiation a b) s else s)"

definition move_to_decomposed_list :: "nat \<Rightarrow> act_state \<Rightarrow> act_state" where
  "move_to_decomposed_list a s =
    (if is_decomposed s a then s else insert_act someDecomposedActivities a (unselect a s))"

definition move_to_abstracted_list :: "nat \<Rightarrow> act_state \<Rightarrow> act_state" where
  "move_to_abstracted_list a s =
    (if is_abstracted s a then s else insert_act someAbstractedActivities a (unselect a s))"

definition move_to_active_list :: "nat \<Rightarrow> act_state \<Rightarrow> act_state" where
  "move_to_active_list a s = (if is_active s a then s else insert_act someActiveInstances a s)"

definition move_to_brand_new_list :: "nat \<Rightarrow> act_state \<Rightarrow> act_state" where
  "move_to_brand_new_list a s =
    (if is_brand_new s a then s else insert_act someBrandNewActivities a s)"

section \<open>The links of the hierarchy (\<open>hierarchy_member\<close>)\<close>

text \<open>
  The recursion goes down the children. With \<open>Select\<close> it selects them and leaves the
  accelerators alone.
\<close>

primrec update_up_accelerator ::
  "nat \<Rightarrow> nat option \<Rightarrow> bool \<Rightarrow> nat \<Rightarrow> act_state \<Rightarrow> act_outcome"
where
  "update_up_accelerator 0 r Sel a s = Runs_on"
| "update_up_accelerator (Suc n) r Sel a s =
    (if Sel then for_each (update_up_accelerator n r True) (children s a) (select a s)
     else for_each (update_up_accelerator n r False) (children s a)
            (with_act a (\<lambda>x. x\<lparr>up_accelerator := r\<rparr>) s))"

definition select_hierarchy :: "nat \<Rightarrow> bool \<Rightarrow> nat \<Rightarrow> act_state \<Rightarrow> act_outcome" where
  "select_hierarchy n down_only a s =
    (if down_only then update_up_accelerator n None True a s
     else case acts s a of
            None \<Rightarrow> Throws NullAccess s
          | Some x \<Rightarrow> (case up_accelerator x of
              None \<Rightarrow> Throws NullAccess s
            | Some r \<Rightarrow> update_up_accelerator n None True r s))"

text \<open>
  \<open>attach_to_parent\<close> does nothing for an instance that has a parent or is a child already. A
  parent that is not a live instance any more is a read of freed memory, \<open>NullAccess\<close>.
\<close>

definition attach_to_parent :: "nat \<Rightarrow> nat \<Rightarrow> nat \<Rightarrow> act_state \<Rightarrow> act_outcome" where
  "attach_to_parent n a p s =
    (case (acts s a, acts s p) of
       (Some x, Some y) \<Rightarrow>
         if superactivities x \<noteq> [] \<or> a \<in> set (subactivities y) then Returns s
         else if p = a then Throws AssertFailed s
         else update_up_accelerator n (up_accelerator y) False a
                (with_act p (\<lambda>y. y\<lparr>subactivities := subactivities y @ [a]\<rparr>)
                  (with_act a (\<lambda>x. x\<lparr>superactivities := superactivities x @ [p],
                                    parent_attribute := Some p\<rparr>) s))
     | _ \<Rightarrow> Throws NullAccess s)"

definition can_be_decomposed_without_errors :: "act_state \<Rightarrow> nat \<Rightarrow> bool \<Rightarrow> bool" where
  "can_be_decomposed_without_errors s a redetail =
    (if \<not> redetail \<and> children_count s a \<noteq> 0 then True
     else case has_decomp_method s a of
            None \<Rightarrow> False
          | Some mt \<Rightarrow> \<not> (mt = METHOD_NONE \<or> mt = CONCUREXP))"

primrec recursively_get_ptrs_to_all_descendants ::
  "nat \<Rightarrow> act_state \<Rightarrow> nat \<Rightarrow> nat list \<Rightarrow> nat list option"
where
  "recursively_get_ptrs_to_all_descendants 0 s a l = None"
| "recursively_get_ptrs_to_all_descendants (Suc n) s a l =
    fold (\<lambda>b acc. case acc of None \<Rightarrow> None
           | Some l \<Rightarrow> recursively_get_ptrs_to_all_descendants n s b
                         (if b \<in> set l then l else l @ [b]))
      (children s a) (Some l)"

text \<open>\<open>setetime\<close> and \<open>move_starttime\<close> without dragging the children, then the whole subtree.\<close>

definition setetime :: "int \<Rightarrow> nat \<Rightarrow> act_state \<Rightarrow> act_state" where
  "setetime t a = with_act a (\<lambda>x. x\<lparr>act_start := t, act_finish := t + act_span x\<rparr>)"

definition shift_start :: "int \<Rightarrow> nat \<Rightarrow> act_state \<Rightarrow> act_state" where
  "shift_start delta a s =
    (if delta = 0 then s
     else case acts s a of None \<Rightarrow> s | Some x \<Rightarrow> setetime (act_start x + delta) a s)"

primrec move_all_descendants_by :: "nat \<Rightarrow> int \<Rightarrow> nat \<Rightarrow> act_state \<Rightarrow> act_outcome" where
  "move_all_descendants_by 0 delta a s = Runs_on"
| "move_all_descendants_by (Suc n) delta a s =
    for_each (\<lambda>c s. move_all_descendants_by n delta c (shift_start delta c s)) (children s a) s"

definition move_starttime :: "nat \<Rightarrow> int \<Rightarrow> bool \<Rightarrow> nat \<Rightarrow> act_state \<Rightarrow> act_outcome" where
  "move_starttime n delta drag_children a s =
    (if delta = 0 then Returns s
     else let s = shift_start delta a s in
       if drag_children \<and> children_count s a \<noteq> 0 then move_all_descendants_by n delta a s
       else Returns s)"

section \<open>New instances and deleted ones\<close>

text \<open>What the constructor takes from the object and the type of the new instance.\<close>

record new_instance =
  new_epoch :: string
  new_start :: int
  new_span :: int
  new_decompose_task :: "method_type option"
  new_derived_data :: bool

definition construct_instance :: "new_instance \<Rightarrow> act_state \<Rightarrow> act_state" where
  "construct_instance k s =
    move_to_brand_new_list (next_act s)
      (s\<lparr>acts := (acts s)(next_act s \<mapsto>
           \<lparr>superactivities = [], subactivities = [], up_accelerator = Some (next_act s),
            parent_attribute = None, in_act_list = None, scheduled = True,
            EpochIfApplicable = new_epoch k, act_start = new_start k, act_span = new_span k,
            act_finish = new_start k + new_span k, decompose_task = new_decompose_task k,
            has_derived_data = new_derived_data k\<rparr>),
         next_act := Suc (next_act s)\<rparr>)"

text \<open>
  The destructor deletes the smart pointers to the instance, which takes them out of the lists
  of its parent, of its children and of the selection.
\<close>

definition forget_act :: "nat \<Rightarrow> activity \<Rightarrow> activity" where
  "forget_act a x = x\<lparr>superactivities := removeAll a (superactivities x),
                      subactivities := removeAll a (subactivities x)\<rparr>"

definition destroy_an_act_req :: "nat \<Rightarrow> act_state \<Rightarrow> act_state" where
  "destroy_an_act_req a s =
    s\<lparr>acts := (\<lambda>b. if b = a then None else map_option (forget_act a) (acts s b)),
      sel_list := removeAll a (sel_list s)\<rparr>"

end
