(* ===== verification/StateChanger.thy ===== *)
theory StateChanger
  imports Activities
begin

text \<open>
  The transitions of an activity instance (\<open>src/apcore/activities/instance_state_changer.C\<close>):
  the class \<open>instance_state_changer\<close>, which records the state an instance is in and the state
  that is asked for, and \<open>do_it\<close>, which brings the instance, its parent and its children there;
  the statement of a decomposition program that makes one child (\<open>Decomp::execute_one_decomp\<close>
  of \<open>src/apcore/modeler/Decomp.C\<close>); and the copy to the clipboard.

  \<open>do_it\<close> calls itself on parents and children, from several of the other methods. These take
  the recursive call as their argument \<open>rec\<close>, and \<open>do_it\<close> closes the recursion with a bound on
  its depth. The same bound limits the loops along the hierarchy; the lemmas that show that
  a transition takes place give a bound that is enough.

  The programs of the adaptation are arguments. A creation or destruction program acts on
  resources and on the variables of its instance, which are not part of this state: it
  returns, or throws an error with a text. A decomposition program is the list of the
  decomposition statements it executes, the end of which may be a throw.
\<close>

section \<open>Programs of the adaptation\<close>

datatype decomp_step = Decompose_into new_instance | Raise_error string

record adaptation =
  creation_program :: "nat \<Rightarrow> act_state \<Rightarrow> string option"
  destruction_program :: "nat \<Rightarrow> act_state \<Rightarrow> string option"
  decomposition_program :: "nat \<Rightarrow> act_state \<Rightarrow> decomp_step list"
  in_modeling_pass :: bool

definition create :: "adaptation \<Rightarrow> nat \<Rightarrow> act_state \<Rightarrow> act_outcome" where
  "create A a s = (let s' = act_call (Create a) s in
     case creation_program A a s of None \<Rightarrow> Returns s' | Some m \<Rightarrow> Throws (EvalError m) s')"

definition destroy :: "adaptation \<Rightarrow> nat \<Rightarrow> act_state \<Rightarrow> act_outcome" where
  "destroy A a s = (let s' = act_call (Destroy a) s in
     case destruction_program A a s of None \<Rightarrow> Returns s' | Some m \<Rightarrow> Throws (EvalError m) s')"

section \<open>Actual and desired states\<close>

record act_instance_state =
  invisibility :: act_visibility_state
  parent_state :: "nat option"
  child_state :: "nat option"
  has_offspring :: bool

record state_changer =
  current_state :: act_instance_state
  desired_state :: act_instance_state
  ACT_req_changing :: nat

definition act_instance_state_of :: "act_state \<Rightarrow> nat \<Rightarrow> act_instance_state" where
  "act_instance_state_of s a =
    \<lparr>invisibility =
       (if is_decomposed s a then VISIBILITY_DECOMPOSED
        else if is_abstracted s a then VISIBILITY_ABSTRACTED
        else if is_on_clipboard s a then VISIBILITY_ON_CLIPBOARD
        else if is_brand_new s a then VISIBILITY_BRAND_NEW
        else VISIBILITY_REGULAR),
     parent_state = get_parent s a, child_state = None,
     has_offspring = children_count s a > 0\<rparr>"

definition instance_state_changer :: "act_state \<Rightarrow> nat \<Rightarrow> state_changer" where
  "instance_state_changer s a = \<lparr>current_state = act_instance_state_of s a,
     desired_state = act_instance_state_of s a, ACT_req_changing = a\<rparr>"

definition set_desired_visibility_to :: "act_visibility_state \<Rightarrow> state_changer \<Rightarrow> state_changer" where
  "set_desired_visibility_to v isc =
     isc\<lparr>desired_state := (desired_state isc)\<lparr>invisibility := v\<rparr>\<rparr>"

definition set_desired_parent_to :: "nat option \<Rightarrow> state_changer \<Rightarrow> state_changer" where
  "set_desired_parent_to p isc =
     isc\<lparr>desired_state := (desired_state isc)\<lparr>parent_state := p\<rparr>\<rparr>"

definition set_desired_offspring_to :: "bool \<Rightarrow> state_changer \<Rightarrow> state_changer" where
  "set_desired_offspring_to b isc =
     isc\<lparr>desired_state := (desired_state isc)\<lparr>has_offspring := b\<rparr>\<rparr>"

definition set_desired_child_to :: "nat \<Rightarrow> state_changer \<Rightarrow> state_changer" where
  "set_desired_child_to c isc =
     isc\<lparr>desired_state := (desired_state isc)\<lparr>has_offspring := True, child_state := Some c\<rparr>\<rparr>"

lemmas changer_defs = instance_state_changer_def act_instance_state_of_def
  set_desired_visibility_to_def set_desired_parent_to_def set_desired_offspring_to_def
  set_desired_child_to_def

text \<open>Making a changer on the spot and running it, as the callers do.\<close>

type_synonym do_it_call = "state_changer \<Rightarrow> act_state \<Rightarrow> act_outcome"

definition make_visible :: "do_it_call \<Rightarrow> act_visibility_state \<Rightarrow> nat \<Rightarrow> act_state \<Rightarrow> act_outcome" where
  "make_visible rec v a s = rec (set_desired_visibility_to v (instance_state_changer s a)) s"

section \<open>Leaving the display, leaving the parent, adopting a child\<close>

text \<open>
  \<open>undisplay_hierarchy\<close>: the children and, below the decomposed ones, their descendants go to
  the abstracted list.
\<close>

primrec undisplay_hierarchy :: "nat \<Rightarrow> adaptation \<Rightarrow> nat \<Rightarrow> act_state \<Rightarrow> act_outcome" where
  "undisplay_hierarchy 0 A a s = Runs_on"
| "undisplay_hierarchy (Suc n) A a s =
    for_each (\<lambda>c s. let s = unselect c s in
      and_then
        (if is_decomposed s c then undisplay_hierarchy n A c s
         else and_then
           (case has_decomp_method s a of
              None \<Rightarrow> Returns s
            | Some mt \<Rightarrow> if mt \<noteq> NONEXCLDECOMP then destroy A c s else Returns s)
           (\<lambda>s. Returns (handle_instantiation False c s)))
        (\<lambda>s. Returns (move_to_abstracted_list c s)))
      (children s a) s"

definition sever_from_parent :: "nat \<Rightarrow> do_it_call \<Rightarrow> nat \<Rightarrow> act_state \<Rightarrow> act_outcome" where
  "sever_from_parent n rec a s =
    (case get_parent s a of
       None \<Rightarrow> Returns s
     | Some p \<Rightarrow>
         if a \<notin> set (children s p) then Throws (DecompError ''sever_from_parent'') s
         else let s = with_act p (\<lambda>x. x\<lparr>subactivities := removeAll a (subactivities x)\<rparr>) s in
           and_then
             (if is_decomposed s p \<and> children s p = []
              then rethrow ''childless parent: '' (make_visible rec VISIBILITY_REGULAR p s)
              else Returns s)
             (\<lambda>s. update_up_accelerator n (Some a) False a
                (with_act a (\<lambda>x. x\<lparr>superactivities := [], parent_attribute := None\<rparr>) s)))"

definition adopt_settings :: "nat \<Rightarrow> nat \<Rightarrow> act_state \<Rightarrow> act_state" where
  "adopt_settings a c s =
    (case acts s a of
       None \<Rightarrow> s
     | Some x \<Rightarrow> with_act c (\<lambda>y. y\<lparr>
         EpochIfApplicable := (if EpochIfApplicable x \<noteq> '''' \<and> EpochIfApplicable y = ''''
                               then EpochIfApplicable x else EpochIfApplicable y),
         scheduled := scheduled x\<rparr>) s)"

definition add_a_child ::
  "nat \<Rightarrow> adaptation \<Rightarrow> do_it_call \<Rightarrow> nat \<Rightarrow> nat \<Rightarrow> act_state \<Rightarrow> act_outcome"
where
  "add_a_child n A rec a c s0 =
    (let existing_parent = get_parent s0 c; s = adopt_settings a c s0 in
     if existing_parent = Some a then Returns s
     else and_then
       (if existing_parent \<noteq> None
        then rethrow ''creating children: ''
               (rec (set_desired_parent_to None (instance_state_changer s c)) s)
        else Returns s)
       (\<lambda>s. and_then (attach_to_parent n c a s)
         (\<lambda>s. if is_active s c \<or> is_decomposed s c
              then and_then (undisplay_hierarchy n A c s)
                (\<lambda>s. Returns (move_to_abstracted_list c
                   (if is_active s c then handle_instantiation False c s else s)))
              else Returns s)))"

section \<open>The decomposition program\<close>

text \<open>
  One decomposition statement: the new child is adopted, the parent leaves the display, and
  the child takes its place. A nonexclusive child decomposes at once.
\<close>

definition execute_one_decomp ::
  "nat \<Rightarrow> adaptation \<Rightarrow> do_it_call \<Rightarrow> (nat \<Rightarrow> act_state \<Rightarrow> act_outcome) \<Rightarrow> nat \<Rightarrow> new_instance
    \<Rightarrow> act_state \<Rightarrow> act_outcome"
where
  "execute_one_decomp n A rec decomp a k s =
    (let c = next_act s in
     and_then (add_a_child n A rec a c (construct_instance k s)) (\<lambda>s.
     and_then
       (if \<not> is_decomposed s a
        then let s = move_to_decomposed_list a (handle_instantiation False a (unselect a s)) in
             if has_decomp_method s a \<noteq> Some NONEXCLDECOMP then destroy A a s else Returns s
        else Returns s) (\<lambda>s.
     and_then (rethrow_as_eval_error ''decomposition: ''
       (and_then (attach_to_parent n c a s) (\<lambda>s.
        and_then (create A c (handle_instantiation True c (move_to_active_list c s))) (\<lambda>s.
        if has_decomp_method s c = Some NONEXCLDECOMP
        then and_then (decomp c s) (\<lambda>s. Returns (select c s))
        else Returns s)))) (\<lambda>s.
     if in_modeling_pass A then Throws (EvalError ''decomposition in a modeling section'') s
     else Returns s))))"

primrec decomp_steps ::
  "(new_instance \<Rightarrow> act_state \<Rightarrow> act_outcome) \<Rightarrow> decomp_step list \<Rightarrow> act_state \<Rightarrow> act_outcome"
where
  "decomp_steps f [] s = Returns s"
| "decomp_steps f (d # ds) s = (case d of
     Decompose_into k \<Rightarrow> and_then (f k s) (decomp_steps f ds)
   | Raise_error m \<Rightarrow> Throws (EvalError m) s)"

primrec exercise_decomposition ::
  "nat \<Rightarrow> adaptation \<Rightarrow> do_it_call \<Rightarrow> nat \<Rightarrow> act_state \<Rightarrow> act_outcome"
where
  "exercise_decomposition 0 A rec a s = Runs_on"
| "exercise_decomposition (Suc n) A rec a s =
    (if has_decomp_method s a = None then Returns s
     else decomp_steps (execute_one_decomp n A rec (exercise_decomposition n A rec) a)
            (decomposition_program A a s) (act_call (Decompose a) s))"

definition create_and_decompose :: "nat \<Rightarrow> adaptation \<Rightarrow> do_it_call \<Rightarrow> nat \<Rightarrow> act_state \<Rightarrow> act_outcome" where
  "create_and_decompose n A rec a s = and_then (create A a s) (exercise_decomposition n A rec a)"

section \<open>Brand new instances\<close>

definition create_missing_nonexcl_children ::
  "nat \<Rightarrow> adaptation \<Rightarrow> do_it_call \<Rightarrow> nat \<Rightarrow> act_state \<Rightarrow> act_outcome"
where
  "create_missing_nonexcl_children n A rec a s =
    (if hasType s a \<and> children_count s a = 0 \<and> has_decomp_method s a = Some NONEXCLDECOMP
     then create_and_decompose n A rec a s
     else create A a s)"

definition instantiate_new_act :: "state_changer \<Rightarrow> act_state \<Rightarrow> act_outcome" where
  "instantiate_new_act isc s = (let a = ACT_req_changing isc in
    (if \<not> is_brand_new s a then Throws AssertFailed s
     else case invisibility (desired_state isc) of
       VISIBILITY_ON_CLIPBOARD \<Rightarrow> Throws AssertFailed s
     | VISIBILITY_NEWCHILDREN \<Rightarrow> Throws AssertFailed s
     | VISIBILITY_DECOMPOSED \<Rightarrow> Returns (insert_act someDecomposedActivities a s)
     | VISIBILITY_ABSTRACTED \<Rightarrow> Returns (insert_act someAbstractedActivities a s)
     | VISIBILITY_REGULAR \<Rightarrow>
         let s = insert_act someActiveInstances a s in
         Returns (if is_active s a then handle_instantiation True a s else s)
     | VISIBILITY_BRAND_NEW \<Rightarrow> Returns s))"

section \<open>The parts of \<open>do_it\<close>\<close>

text \<open>Section 1: the loop that deletes the children, each after its own children.\<close>

primrec destroy_children ::
  "nat \<Rightarrow> adaptation \<Rightarrow> do_it_call \<Rightarrow> nat \<Rightarrow> act_state \<Rightarrow> act_outcome"
where
  "destroy_children 0 A rec a s = Runs_on"
| "destroy_children (Suc n) A rec a s =
    (case children s a of
       [] \<Rightarrow> Returns s
     | c # _ \<Rightarrow>
         and_then (rec (set_desired_offspring_to False (instance_state_changer s c)) s) (\<lambda>s.
         and_then (if is_active s c \<or> has_decomp_method s a = Some NONEXCLDECOMP
                   then destroy A c s else Returns s) (\<lambda>s.
         destroy_children n A rec a (destroy_an_act_req c s))))"

definition section_one ::
  "nat \<Rightarrow> adaptation \<Rightarrow> do_it_call \<Rightarrow> act_instance_state \<Rightarrow> nat \<Rightarrow> act_state \<Rightarrow> act_outcome"
where
  "section_one n A rec d a s =
    (if children_count s a \<noteq> 0 \<and> (\<not> has_offspring d \<or> invisibility d = VISIBILITY_NEWCHILDREN)
     then if (invisibility d = VISIBILITY_DECOMPOSED \<or> invisibility d = VISIBILITY_NEWCHILDREN)
             \<and> (\<not> hasType s a \<or> has_decomp_method s a = None
                \<or> has_decomp_method s a = Some CONCUREXP)
          then Throws (DecompError ''cannot be redetailed'') s
          else destroy_children n A rec a s
     else Returns s)"

text \<open>Section 4: the constructor or the destructor, by the change of the weakly active status.\<close>

definition when_weakly_active ::
  "nat \<Rightarrow> nat \<Rightarrow> (bool \<Rightarrow> act_state \<Rightarrow> act_outcome) \<Rightarrow> act_state \<Rightarrow> act_outcome"
where
  "when_weakly_active n a f s =
    (case is_weakly_active n s a of None \<Rightarrow> Runs_on | Some w \<Rightarrow> f w s)"

definition final_adjustments ::
  "nat \<Rightarrow> adaptation \<Rightarrow> bool \<Rightarrow> bool \<Rightarrow> nat \<Rightarrow> bool \<Rightarrow> act_state \<Rightarrow> act_outcome"
where
  "final_adjustments n A exercise_constructors was a handled s =
    (if was
     then when_weakly_active n a (\<lambda>w s. if \<not> w then destroy A a s else Returns s) s
     else if exercise_constructors
     then when_weakly_active n a (\<lambda>w s. if w \<and> \<not> handled then create A a s else Returns s) s
     else Returns s)"

text \<open>
  Section 3 for an instance on the clipboard. A visibility that the switch does not name goes
  through to the final test.
\<close>

definition leave_clipboard ::
  "nat \<Rightarrow> adaptation \<Rightarrow> do_it_call \<Rightarrow> act_visibility_state \<Rightarrow> bool \<Rightarrow> bool \<Rightarrow> nat \<Rightarrow> act_state
    \<Rightarrow> act_outcome"
where
  "leave_clipboard n A rec v exercise_constructors was a s =
    (let nonexcl = (\<lambda>s. children_count s a = 0 \<and> has_decomp_method s a = Some NONEXCLDECOMP);
         abstract_children = (\<lambda>s. for_each (make_visible rec VISIBILITY_ABSTRACTED) (children s a) s);
         constructed = (\<lambda>handled s.
           if exercise_constructors \<and> \<not> was
           then when_weakly_active n a
                  (\<lambda>w s. if w \<and> \<not> handled then create A a s else Returns s) s
           else Returns s)
     in case v of
       VISIBILITY_NEWCHILDREN \<Rightarrow>
         Throws (DecompError ''on clipboard; cannot regenerate children'') s
     | VISIBILITY_DECOMPOSED \<Rightarrow> Throws (DecompError ''on clipboard; cannot decompose'') s
     | VISIBILITY_ABSTRACTED \<Rightarrow>
         let s = insert_act someAbstractedActivities a s; handled = hasType s a \<and> nonexcl s in
         and_then (if handled then create_and_decompose n A rec a s else Returns s) (\<lambda>s.
         and_then (abstract_children s) (constructed handled))
     | VISIBILITY_REGULAR \<Rightarrow>
         let handled = hasType s a \<and> nonexcl s; s = insert_act someActiveInstances a s in
         and_then
           (if handled
            then and_then (create_and_decompose n A rec a s) (\<lambda>s. Returns
                   (if children_count s a = 0 \<and> is_decomposed s a
                    then insert_act someActiveInstances a s else s))
            else Returns s) (\<lambda>s.
         and_then (abstract_children s) (\<lambda>s.
         constructed handled (if is_active s a then handle_instantiation True a s else s)))
     | _ \<Rightarrow> constructed False s)"

text \<open>Section 3 for an instance that is part of a hierarchy, one definition per visibility.\<close>

definition to_clipboard ::
  "nat \<Rightarrow> adaptation \<Rightarrow> do_it_call \<Rightarrow> act_instance_state \<Rightarrow> bool \<Rightarrow> nat \<Rightarrow> act_state \<Rightarrow> act_outcome"
where
  "to_clipboard n A rec d was a s =
    and_then (for_each (make_visible rec VISIBILITY_ON_CLIPBOARD) (children s a) s) (\<lambda>s.
    and_then (if get_parent s a \<noteq> None \<and> parent_state d = None
              then sever_from_parent n rec a s else Returns s) (\<lambda>s.
    and_then (if was then destroy A a s else Returns s) (\<lambda>s.
    Returns (set_scheduled False a (insert_act somePendingActivities a (unselect a s))))))"

definition show_child :: "do_it_call \<Rightarrow> nat \<Rightarrow> act_state \<Rightarrow> act_outcome" where
  "show_child rec c s =
    and_then (if is_abstracted s c \<or> is_brand_new s c
              then make_visible rec VISIBILITY_REGULAR c s else Returns s)
      (\<lambda>s. Returns (select c s))"

definition show_children :: "do_it_call \<Rightarrow> nat \<Rightarrow> act_state \<Rightarrow> act_outcome" where
  "show_children rec a s =
    (let s = handle_instantiation False a (unselect a s) in
     and_then (for_each (show_child rec) (children s a) s)
       (\<lambda>s. Returns (insert_act someDecomposedActivities a s)))"

definition decompose_now ::
  "nat \<Rightarrow> adaptation \<Rightarrow> do_it_call \<Rightarrow> act_visibility_state \<Rightarrow> nat \<Rightarrow> act_state \<Rightarrow> act_outcome"
where
  "decompose_now n A rec v a s =
    (if is_a_request s a then Throws (DecompError ''is a request and does not re-decompose'') s
     else and_then
       (create_and_decompose n A rec a
          (if v = VISIBILITY_DECOMPOSED then move_to_decomposed_list a s else s)) (\<lambda>s.
       let s = (if v = VISIBILITY_DECOMPOSED \<and> children_count s a = 0
                then move_to_active_list a s else s) in
       Returns (if v = VISIBILITY_DECOMPOSED then fold select (children s a) s else s)))"

definition to_decomposed ::
  "nat \<Rightarrow> adaptation \<Rightarrow> do_it_call \<Rightarrow> act_visibility_state
    \<Rightarrow> (bool \<Rightarrow> act_state \<Rightarrow> act_outcome) \<Rightarrow> nat \<Rightarrow> act_state \<Rightarrow> act_outcome"
where
  "to_decomposed n A rec v final a s =
    (let demote = (\<lambda>s. and_then (if v = VISIBILITY_DECOMPOSED then show_children rec a s
                                else Returns s) (final False));
         decomp_or_demote = (\<lambda>s. if children_count s a \<noteq> 0 then demote s
                                 else and_then (decompose_now n A rec v a s) (final True))
     in if \<not> hasType s a
        then if children_count s a \<noteq> 0 then demote s
             else Throws (DecompError ''cannot be detailed'') s
        else case has_decomp_method s a of
          None \<Rightarrow> final False s
        | Some mt \<Rightarrow>
            if mt = CONCUREXP \<or> mt = METHOD_NONE
            then if children_count s a = 0
                 then Throws (DecompError ''is of a type that cannot be detailed'') s
                 else decomp_or_demote s
            else if mt = DECOMPOSITION \<or> mt = NONEXCLDECOMP then decomp_or_demote s
            else Throws (DecompError ''has unknown downtype'') s)"

definition to_abstracted ::
  "nat \<Rightarrow> adaptation \<Rightarrow> do_it_call \<Rightarrow> (bool \<Rightarrow> act_state \<Rightarrow> act_outcome) \<Rightarrow> nat \<Rightarrow> act_state
    \<Rightarrow> act_outcome"
where
  "to_abstracted n A rec final a s =
    (case get_parent s a of
       None \<Rightarrow> Throws (DecompError ''does not abstract'') s
     | Some p \<Rightarrow>
         if is_decomposed s p
         then and_then (make_visible rec VISIBILITY_REGULAR p s) (\<lambda>s. Returns (select p s))
         else and_then
           (if is_decomposed s a then undisplay_hierarchy n A a s
            else Returns (handle_instantiation False a s))
           (\<lambda>s. final False (move_to_abstracted_list a (unselect a s))))"

definition abstract_child :: "do_it_call \<Rightarrow> nat \<Rightarrow> act_state \<Rightarrow> act_outcome" where
  "abstract_child rec c s = (if is_abstracted s c then Returns s
                             else make_visible rec VISIBILITY_ABSTRACTED c s)"

definition to_regular ::
  "nat \<Rightarrow> adaptation \<Rightarrow> do_it_call \<Rightarrow> (bool \<Rightarrow> act_state \<Rightarrow> act_outcome) \<Rightarrow> nat \<Rightarrow> act_state
    \<Rightarrow> act_outcome"
where
  "to_regular n A rec final a s =
    (let s = handle_instantiation True a (insert_act someActiveInstances a s) in
     if children_count s a = 0
     then if has_decomp_method s a = Some NONEXCLDECOMP
          then if is_a_request s a
               then Throws (DecompError ''is a request and does not re-decompose'') s
               else and_then (create_and_decompose n A rec a s) (final True)
          else final False s
     else and_then (for_each (abstract_child rec) (children s a) s) (final False))"

section \<open>\<open>do_it\<close>\<close>

definition change_visibility ::
  "nat \<Rightarrow> adaptation \<Rightarrow> do_it_call \<Rightarrow> bool \<Rightarrow> bool \<Rightarrow> state_changer \<Rightarrow> act_state \<Rightarrow> act_outcome"
where
  "change_visibility n A rec exercise_constructors was isc s =
    (let a = ACT_req_changing isc; d = desired_state isc; v = invisibility d;
         final = final_adjustments n A exercise_constructors was a
     in if v = invisibility (current_state isc) then Returns s
        else if is_on_clipboard s a
        then leave_clipboard n A rec v exercise_constructors was a s
        else case v of
          VISIBILITY_ON_CLIPBOARD \<Rightarrow> to_clipboard n A rec d was a s
        | VISIBILITY_DECOMPOSED \<Rightarrow> to_decomposed n A rec v final a s
        | VISIBILITY_NEWCHILDREN \<Rightarrow> to_decomposed n A rec v final a s
        | VISIBILITY_ABSTRACTED \<Rightarrow> to_abstracted n A rec final a s
        | VISIBILITY_REGULAR \<Rightarrow> to_regular n A rec final a s
        | VISIBILITY_BRAND_NEW \<Rightarrow> final False s)"

definition change_links ::
  "nat \<Rightarrow> adaptation \<Rightarrow> do_it_call \<Rightarrow> act_instance_state \<Rightarrow> nat \<Rightarrow> act_state \<Rightarrow> act_outcome"
where
  "change_links n A rec d a s =
    and_then (if invisibility d \<noteq> VISIBILITY_ON_CLIPBOARD \<and> get_parent s a \<noteq> None
                \<and> parent_state d = None
              then sever_from_parent n rec a s else Returns s) (\<lambda>s.
    and_then (section_one n A rec d a s) (\<lambda>s.
    and_then (case child_state d of None \<Rightarrow> Returns s
              | Some c \<Rightarrow> add_a_child n A rec a c s) (\<lambda>s.
    case parent_state d of
      None \<Rightarrow> Returns s
    | Some p \<Rightarrow> if p = a then Throws AssertFailed s else attach_to_parent n a p s)))"

definition do_it_body :: "nat \<Rightarrow> adaptation \<Rightarrow> do_it_call \<Rightarrow> do_it_call" where
  "do_it_body n A rec isc s =
    (let a = ACT_req_changing isc; exercise_constructors = \<not> is_unscheduled s a in
     if is_brand_new s a
     then and_then (instantiate_new_act isc s) (create_missing_nonexcl_children n A rec a)
     else when_weakly_active n a (\<lambda>was s.
       and_then (change_links n A rec (desired_state isc) a s)
         (change_visibility n A rec exercise_constructors was isc)) s)"

primrec do_it :: "nat \<Rightarrow> adaptation \<Rightarrow> do_it_call" where
  "do_it 0 A isc s = Runs_on"
| "do_it (Suc n) A isc s = do_it_body n A (do_it n A) isc s"

section \<open>Copies on the clipboard\<close>

definition copied_instance :: "activity \<Rightarrow> new_instance" where
  "copied_instance x = \<lparr>new_epoch = '''', new_start = act_start x, new_span = act_span x,
     new_decompose_task = decompose_task x, new_derived_data = has_derived_data x\<rparr>"

text \<open>
  The copy \<open>c\<close> of an instance, then the copies \<open>b\<close> of its children, each given to \<open>c\<close> as a
  child. The copy constructor gives the new instance no links. The second component of the
  result is the address of the copy.
\<close>

primrec put_a_copy_of_me_into_clipboard ::
  "nat \<Rightarrow> adaptation \<Rightarrow> nat \<Rightarrow> act_state \<Rightarrow> act_outcome"
where
  "put_a_copy_of_me_into_clipboard 0 A a s = Runs_on"
| "put_a_copy_of_me_into_clipboard (Suc n) A a s =
    (case acts s a of
       None \<Rightarrow> Throws NullAccess s
     | Some x \<Rightarrow>
         let c = next_act s; s = set_scheduled False c (construct_instance (copied_instance x) s) in
         and_then
           (for_each (\<lambda>k s. let b = next_act s; isc = instance_state_changer s c in
               and_then (put_a_copy_of_me_into_clipboard n A k s)
                 (\<lambda>s. do_it n A (set_desired_child_to b isc) s))
             (subactivities x) s)
           (\<lambda>s. Returns (insert_act somePendingActivities c s)))"

end
