(* ===== verification/ActivityLinks.thy ===== *)
theory ActivityLinks
  imports StateChanger
begin

text \<open>
  The invariant of the activity hierarchy and its preservation by every operation of
  \<open>Activities\<close> and \<open>StateChanger\<close>, \<open>do_it\<close> included: the links between parents and children
  agree in both directions, an instance has at most one parent, and it lies in one list. The
  statements cover every way in which an operation ends; after a throw the links may have been
  left half cut.
\<close>

section \<open>Statements on all outcomes\<close>

text \<open>\<open>holds P E r\<close>: a return is to a state with \<open>P\<close>, a throw leaves one with \<open>E\<close>.\<close>

primrec holds :: "(act_state \<Rightarrow> bool) \<Rightarrow> (act_state \<Rightarrow> bool) \<Rightarrow> act_outcome \<Rightarrow> bool" where
  "holds P E (Returns s) = P s"
| "holds P E (Throws e s) = E s"
| "holds P E Runs_on = True"

named_theorems outcome_intros "how the parts of an operation keep a statement"

lemma holds_and_then [outcome_intros]:
  "holds P E r \<Longrightarrow> (\<And>s. P s \<Longrightarrow> holds P E (f s)) \<Longrightarrow> holds P E (and_then r f)"
  by (cases r) simp_all

lemma holds_then:
  "holds P E r \<Longrightarrow> (\<And>s. P s \<Longrightarrow> holds Q E (f s)) \<Longrightarrow> holds Q E (and_then r f)"
  by (cases r) simp_all

lemma holds_for_each [outcome_intros]:
  "P s \<Longrightarrow> (\<And>b s. P s \<Longrightarrow> holds P E (f b s)) \<Longrightarrow> holds P E (for_each f bs s)"
  by (induction bs arbitrary: s) (auto intro: holds_and_then)

lemma holds_rethrow [simp]: "holds P E (rethrow m r) = holds P E r"
  "holds P E (rethrow_as_eval_error m r) = holds P E r"
  by (cases r; simp add: rethrow_def rethrow_as_eval_error_def split: ap_error.split)+

lemma holds_Returns: "P s \<Longrightarrow> holds P E (Returns s)"
  by simp

lemma holds_Throws: "E s \<Longrightarrow> holds P E (Throws e s)"
  by simp

lemma holds_if: "(c \<Longrightarrow> holds P E r) \<Longrightarrow> (\<not> c \<Longrightarrow> holds P E r') \<Longrightarrow> holds P E (if c then r else r')"
  by simp

lemma holds_case_option: "(x = None \<Longrightarrow> holds P E r) \<Longrightarrow> (\<And>y. x = Some y \<Longrightarrow> holds P E (f y))
    \<Longrightarrow> holds P E (case x of None \<Rightarrow> r | Some y \<Rightarrow> f y)"
  by (cases x) simp_all

lemmas holds_branches = holds_if holds_case_option

lemma holds_when_weakly_active [outcome_intros]:
  "(\<And>w. holds P E (f w s)) \<Longrightarrow> holds P E (when_weakly_active n a f s)"
  by (simp add: when_weakly_active_def split: option.split)

section \<open>The invariant\<close>

text \<open>
  \<open>X\<close> holds the instances whose parent has forgotten them while they still know the parent: it
  is empty except inside \<open>sever_from_parent\<close>.
\<close>

definition linked_but :: "nat set \<Rightarrow> act_state \<Rightarrow> bool" where
  "linked_but X s \<longleftrightarrow>
     (\<forall>a x. acts s a = Some x \<longrightarrow> a < next_act s \<and> in_act_list x \<noteq> None
        \<and> distinct (subactivities x) \<and> length (superactivities x) \<le> 1
        \<and> a \<notin> set (superactivities x))
   \<and> (\<forall>a x b. acts s a = Some x \<and> b \<in> set (subactivities x) \<longrightarrow>
        b \<notin> X \<and> (\<exists>y. acts s b = Some y \<and> superactivities y = [a]))
   \<and> (\<forall>b y p. acts s b = Some y \<and> superactivities y = [p] \<longrightarrow>
        (\<exists>x. acts s p = Some x \<and> (b \<in> X \<or> b \<in> set (subactivities x))))
   \<and> (\<forall>b\<in>X. \<exists>y p. acts s b = Some y \<and> superactivities y = [p])
   \<and> distinct (sel_list s)"

definition linked :: "act_state \<Rightarrow> bool" where
  "linked s = linked_but {} s"

text \<open>
  A throw out of \<open>sever_from_parent\<close> can leave the instance it was to sever in that situation.
\<close>

definition half_linked :: "act_state \<Rightarrow> bool" where
  "half_linked s \<longleftrightarrow> (\<exists>X. linked_but X s)"

abbreviation keeps :: "nat set \<Rightarrow> act_outcome \<Rightarrow> bool" where
  "keeps X r \<equiv> holds (linked_but X) half_linked r"

lemma half_linkedI: "linked_but X s \<Longrightarrow> half_linked s"
  unfolding half_linked_def by blast

lemma linked_butI:
  assumes "\<And>a x. acts s a = Some x \<Longrightarrow> a < next_act s \<and> in_act_list x \<noteq> None
      \<and> distinct (subactivities x) \<and> length (superactivities x) \<le> 1
        \<and> a \<notin> set (superactivities x)"
    and "\<And>a x b. acts s a = Some x \<Longrightarrow> b \<in> set (subactivities x) \<Longrightarrow>
      b \<notin> X \<and> (\<exists>y. acts s b = Some y \<and> superactivities y = [a])"
    and "\<And>b y p. acts s b = Some y \<Longrightarrow> superactivities y = [p] \<Longrightarrow>
      \<exists>x. acts s p = Some x \<and> (b \<in> X \<or> b \<in> set (subactivities x))"
    and "\<And>b. b \<in> X \<Longrightarrow> \<exists>y p. acts s b = Some y \<and> superactivities y = [p]"
    and "distinct (sel_list s)"
  shows "linked_but X s"
  using assms unfolding linked_but_def by blast

lemma linked_butD:
  assumes "linked_but X s"
  shows "acts s a = Some x \<Longrightarrow> a < next_act s \<and> in_act_list x \<noteq> None
      \<and> distinct (subactivities x) \<and> length (superactivities x) \<le> 1
        \<and> a \<notin> set (superactivities x)"
    and "acts s a = Some x \<Longrightarrow> b \<in> set (subactivities x) \<Longrightarrow>
      b \<notin> X \<and> (\<exists>y. acts s b = Some y \<and> superactivities y = [a])"
    and "acts s b = Some y \<Longrightarrow> superactivities y = [p] \<Longrightarrow>
      \<exists>x. acts s p = Some x \<and> (b \<in> X \<or> b \<in> set (subactivities x))"
    and "b \<in> X \<Longrightarrow> \<exists>y p. acts s b = Some y \<and> superactivities y = [p]"
    and "distinct (sel_list s)"
  using assms unfolding linked_but_def by blast+

lemma linked_sel: "linked_but X s \<Longrightarrow> distinct (sel_list s)"
  by (simp add: linked_but_def)

lemma linked_if [outcome_intros]:
  "linked_but X s \<Longrightarrow> linked_but X s' \<Longrightarrow> linked_but X (if c then s else s')"
  by simp

section \<open>Operations that leave the links alone\<close>

definition keeps_links :: "(activity \<Rightarrow> activity) \<Rightarrow> bool" where
  "keeps_links f \<longleftrightarrow> (\<forall>x. superactivities (f x) = superactivities x
     \<and> subactivities (f x) = subactivities x
     \<and> (in_act_list x \<noteq> None \<longrightarrow> in_act_list (f x) \<noteq> None))"

lemma with_act_acts: "acts (with_act a f s) b = (if b = a then map_option f (acts s a) else acts s b)"
  by (simp add: with_act_def)

lemma with_act_rest [simp]: "sel_list (with_act a f s) = sel_list s"
  "next_act (with_act a f s) = next_act s" "act_calls (with_act a f s) = act_calls s"
  by (simp_all add: with_act_def)

lemma linked_cong:
  assumes "linked_but X s" and "next_act s' = next_act s" and "distinct (sel_list s')"
    and links: "\<And>a. rel_option (\<lambda>x y. superactivities y = superactivities x
      \<and> subactivities y = subactivities x \<and> (in_act_list x \<noteq> None \<longrightarrow> in_act_list y \<noteq> None))
      (acts s a) (acts s' a)"
  shows "linked_but X s'"
proof -
  have before: "\<exists>x. acts s a = Some x \<and> superactivities y = superactivities x
      \<and> subactivities y = subactivities x \<and> (in_act_list x \<noteq> None \<longrightarrow> in_act_list y \<noteq> None)"
    if "acts s' a = Some y" for a y
    using links[of a] that by (cases "acts s a") auto
  have after: "\<exists>y. acts s' a = Some y \<and> superactivities y = superactivities x
      \<and> subactivities y = subactivities x"
    if "acts s a = Some x" for a x
    using links[of a] that by (cases "acts s' a") auto
  note D = linked_butD[OF assms(1)]
  show ?thesis
  proof (rule linked_butI)
    fix a x assume "acts s' a = Some x"
    with before obtain x' where "acts s a = Some x'" "superactivities x = superactivities x'"
      "subactivities x = subactivities x'" "in_act_list x' \<noteq> None \<longrightarrow> in_act_list x \<noteq> None"
      by blast
    then show "a < next_act s' \<and> in_act_list x \<noteq> None \<and> distinct (subactivities x)
        \<and> length (superactivities x) \<le> 1 \<and> a \<notin> set (superactivities x)"
      using D(1) assms(2) by auto
  next
    fix a x b assume "acts s' a = Some x" and "b \<in> set (subactivities x)"
    then show "b \<notin> X \<and> (\<exists>y. acts s' b = Some y \<and> superactivities y = [a])"
      using before after D(2) by metis
  next
    fix b y p assume "acts s' b = Some y" and "superactivities y = [p]"
    then show "\<exists>x. acts s' p = Some x \<and> (b \<in> X \<or> b \<in> set (subactivities x))"
      using before after D(3) by metis
  next
    fix b assume "b \<in> X"
    then show "\<exists>y p. acts s' b = Some y \<and> superactivities y = [p]" using D(4) after by metis
  qed (rule assms(3))
qed

lemma linked_with_act:
  assumes "linked_but X s" and "keeps_links f" shows "linked_but X (with_act a f s)"
proof (rule linked_cong[OF assms(1)])
  show "distinct (sel_list (with_act a f s))" using linked_butD(5)[OF assms(1)] by simp
  fix b show "rel_option (\<lambda>x y. superactivities y = superactivities x
      \<and> subactivities y = subactivities x \<and> (in_act_list x \<noteq> None \<longrightarrow> in_act_list y \<noteq> None))
      (acts s b) (acts (with_act a f s) b)"
    using assms(2)
    by (cases "acts s b"; cases "b = a") (auto simp: with_act_acts keeps_links_def)
qed simp

lemma linked_same_acts:
  "linked_but X s \<Longrightarrow> acts s' = acts s \<Longrightarrow> next_act s' = next_act s \<Longrightarrow> distinct (sel_list s')
    \<Longrightarrow> linked_but X s'"
  by (erule linked_cong) (simp_all add: option.rel_refl)

lemma linked_act_call [outcome_intros]: "linked_but X s \<Longrightarrow> linked_but X (act_call c s)"
  by (rule linked_same_acts[of X s]) (simp_all add: act_call_def linked_sel)

lemma linked_handle_instantiation [outcome_intros]:
  "linked_but X s \<Longrightarrow> linked_but X (handle_instantiation b a s)"
  by (simp add: handle_instantiation_def linked_act_call)

lemma linked_select [outcome_intros]: "linked_but X s \<Longrightarrow> linked_but X (select a s)"
  by (rule linked_same_acts[of X s])
    (simp_all add: select_def handle_selection_def act_call_def linked_sel)

lemma linked_unselect [outcome_intros]: "linked_but X s \<Longrightarrow> linked_but X (unselect a s)"
  by (rule linked_same_acts[of X s])
    (simp_all add: unselect_def handle_selection_def act_call_def linked_sel)

lemma linked_fold_select [outcome_intros]:
  "linked_but X s \<Longrightarrow> linked_but X (fold select bs s)"
  by (induction bs arbitrary: s) (auto intro: linked_select)

lemma linked_insert_act [outcome_intros]: "linked_but X s \<Longrightarrow> linked_but X (insert_act l a s)"
  unfolding insert_act_def by (rule linked_with_act) (simp_all add: keeps_links_def)

lemma linked_moves [outcome_intros]:
  assumes "linked_but X s"
  shows "linked_but X (move_to_abstracted_list a s)" "linked_but X (move_to_decomposed_list a s)"
    "linked_but X (move_to_active_list a s)"
  using assms linked_insert_act linked_unselect
  by (simp_all add: move_to_abstracted_list_def move_to_decomposed_list_def move_to_active_list_def)

lemma linked_set_scheduled [outcome_intros]:
  "linked_but X s \<Longrightarrow> linked_but X (set_scheduled b a s)"
  unfolding set_scheduled_def by (rule linked_with_act) (simp_all add: keeps_links_def)

lemma linked_adopt_settings [outcome_intros]:
  "linked_but X s \<Longrightarrow> linked_but X (adopt_settings a c s)"
  unfolding adopt_settings_def
  by (auto split: option.split intro!: linked_with_act simp: keeps_links_def)

lemma linked_create [outcome_intros]:
  "linked_but X s \<Longrightarrow> keeps X (create A a s)"
  "linked_but X s \<Longrightarrow> keeps X (destroy A a s)"
  by (auto simp: create_def destroy_def Let_def linked_act_call split: option.split
    intro!: half_linkedI linked_act_call)

lemma linked_update_up_accelerator [outcome_intros]:
  "linked_but X s \<Longrightarrow> keeps X (update_up_accelerator n r Sel a s)"
proof (induction n arbitrary: a s)
  case (Suc n)
  have "linked_but X (with_act a (\<lambda>x. x\<lparr>up_accelerator := r\<rparr>) s)"
    using Suc.prems by (rule linked_with_act) (simp add: keeps_links_def)
  then show ?case using Suc by (auto intro!: holds_for_each linked_select)
qed simp

lemma linked_undisplay_hierarchy [outcome_intros]:
  "linked_but X s \<Longrightarrow> keeps X (undisplay_hierarchy n A a s)"
  by (induction n arbitrary: a s)
    (auto intro!: outcome_intros holds_branches holds_Returns simp: Let_def)

section \<open>Operations that change the links\<close>

lemma linked_attach_to_parent [outcome_intros]:
  assumes s: "linked_but X s" shows "keeps X (attach_to_parent n a p s)"
proof (cases "acts s a")
  case (Some x)
  show ?thesis
  proof (cases "acts s p")
    case p: (Some y)
    let ?s = "with_act p (\<lambda>y. y\<lparr>subactivities := subactivities y @ [a]\<rparr>)
      (with_act a (\<lambda>x. x\<lparr>superactivities := superactivities x @ [p],
        parent_attribute := Some p\<rparr>) s)"
    note D = linked_butD[OF s]
    have "linked_but X ?s"
      if orphan: "superactivities x = []" and new: "a \<notin> set (subactivities y)" and ne: "p \<noteq> a"
    proof -
      have no_child: "a \<notin> set (subactivities z)" if "acts s b = Some z" for b z
        using D(2)[OF that, of a] Some orphan by auto
      have "a \<notin> X" using D(4)[of a] Some orphan by auto
      show ?thesis
      proof (rule linked_butI)
        fix b z assume "acts ?s b = Some z"
        then show "b < next_act ?s \<and> in_act_list z \<noteq> None \<and> distinct (subactivities z)
            \<and> length (superactivities z) \<le> 1 \<and> b \<notin> set (superactivities z)"
          using D(1)[of b] D(1)[OF p] D(1)[OF Some] orphan new ne Some p
          by (auto simp: with_act_acts split: if_splits)
      next
        fix b z c assume "acts ?s b = Some z" and "c \<in> set (subactivities z)"
        then consider "b = p" "c = a" | w where "acts s b = Some w" "c \<in> set (subactivities w)"
          using Some p ne by (auto simp: with_act_acts split: if_splits)
        then show "c \<notin> X \<and> (\<exists>y. acts ?s c = Some y \<and> superactivities y = [b])"
        proof cases
          case 1
          then show ?thesis using \<open>a \<notin> X\<close> Some p ne orphan by (auto simp: with_act_acts)
        next
          case 2
          moreover have "c \<noteq> a" using no_child 2 by blast
          ultimately show ?thesis using D(2)[OF 2] p by (auto simp: with_act_acts)
        qed
      next
        fix b z q assume "acts ?s b = Some z" and "superactivities z = [q]"
        then consider "b = a" "q = p" | w where "acts s b = Some w" "superactivities w = [q]"
          using Some p ne orphan by (auto simp: with_act_acts split: if_splits)
        then show "\<exists>x. acts ?s q = Some x \<and> (b \<in> X \<or> b \<in> set (subactivities x))"
        proof cases
          case 1
          then show ?thesis using p ne by (auto simp: with_act_acts)
        next
          case 2
          then show ?thesis using D(3)[OF 2] Some p ne by (auto simp: with_act_acts)
        qed
      next
        fix b assume "b \<in> X"
        then obtain z q where "acts s b = Some z" "superactivities z = [q]" using D(4) by blast
        then show "\<exists>y p. acts ?s b = Some y \<and> superactivities y = [p]"
          using \<open>a \<notin> X\<close> \<open>b \<in> X\<close> by (cases "b = p") (auto simp: with_act_acts)
      qed (use D(5) in simp)
    qed
    then show ?thesis using Some p s
      by (auto simp: attach_to_parent_def intro!: linked_update_up_accelerator half_linkedI)
  qed (use s Some half_linkedI in \<open>simp add: attach_to_parent_def\<close>)
qed (use s half_linkedI in \<open>simp add: attach_to_parent_def\<close>)

lemma linked_construct_instance [outcome_intros]:
  assumes s: "linked_but X s" shows "linked_but X (construct_instance k s)"
proof -
  note D = linked_butD[OF s]
  have fresh: "acts s (next_act s) = None"
    using D(1)[of "next_act s"] by (cases "acts s (next_act s)") auto
  obtain x where x: "acts (construct_instance k s) = (acts s)(next_act s \<mapsto> x)"
    "superactivities x = []" "subactivities x = []" "in_act_list x \<noteq> None"
    by (auto simp: construct_instance_def move_to_brand_new_list_def is_brand_new_def
      is_in_list_def insert_act_def with_act_def)
  have rest: "next_act (construct_instance k s) = Suc (next_act s)"
    "sel_list (construct_instance k s) = sel_list s"
    by (simp_all add: construct_instance_def move_to_brand_new_list_def insert_act_def)
  show ?thesis
  proof (rule linked_butI)
    fix a y assume "acts (construct_instance k s) a = Some y"
    then show "a < next_act (construct_instance k s) \<and> in_act_list y \<noteq> None
        \<and> distinct (subactivities y) \<and> length (superactivities y) \<le> 1 \<and> a \<notin> set (superactivities y)"
      using D(1)[of a y] x by (auto simp: rest split: if_splits)
  next
    fix a y b assume "acts (construct_instance k s) a = Some y" "b \<in> set (subactivities y)"
    then show "b \<notin> X \<and> (\<exists>y. acts (construct_instance k s) b = Some y \<and> superactivities y = [a])"
      using D(2)[of a y b] x fresh by (auto split: if_splits)
  next
    fix b y p assume "acts (construct_instance k s) b = Some y" "superactivities y = [p]"
    then show "\<exists>x. acts (construct_instance k s) p = Some x \<and> (b \<in> X \<or> b \<in> set (subactivities x))"
      using D(3)[of b y p] x fresh by (auto split: if_splits)
  next
    fix b assume "b \<in> X"
    then show "\<exists>y p. acts (construct_instance k s) b = Some y \<and> superactivities y = [p]"
      using D(4)[of b] x fresh by (auto split: if_splits)
  qed (use D(5) rest in simp)
qed

lemma linked_destroy_an_act_req [outcome_intros]:
  assumes s: "linked_but {} s" shows "linked_but {} (destroy_an_act_req a s)"
proof -
  note D = linked_butD[OF s]
  let ?s = "destroy_an_act_req a s"
  have acts: "acts ?s b = (if b = a then None else map_option (forget_act a) (acts s b))" for b
    by (simp add: destroy_an_act_req_def)
  have supers: "superactivities (forget_act a z) = [q]
      \<longleftrightarrow> superactivities z = [q] \<and> q \<noteq> a" if "acts s b = Some z" for b z q
    using D(1)[OF that] by (cases "superactivities z") (auto simp: forget_act_def)
  show ?thesis
  proof (rule linked_butI)
    fix b z assume "acts ?s b = Some z"
    then obtain w where w: "acts s b = Some w" "z = forget_act a w"
      by (auto simp: acts split: if_splits)
    have "length (removeAll a (superactivities w)) \<le> length (superactivities w)"
      unfolding removeAll_filter_not_eq by (rule length_filter_le)
    then have "length (removeAll a (superactivities w)) \<le> 1"
      using D(1)[OF w(1)] by linarith
    then show "b < next_act ?s \<and> in_act_list z \<noteq> None \<and> distinct (subactivities z)
        \<and> length (superactivities z) \<le> 1 \<and> b \<notin> set (superactivities z)"
      using D(1)[OF w(1)]
      by (simp add: w(2) forget_act_def destroy_an_act_req_def distinct_removeAll)
  next
    fix b z c assume "acts ?s b = Some z" "c \<in> set (subactivities z)"
    then obtain w where w: "acts s b = Some w" "c \<in> set (subactivities w)" "c \<noteq> a" "b \<noteq> a"
      by (auto simp: acts forget_act_def split: if_splits)
    then show "c \<notin> {} \<and> (\<exists>y. acts ?s c = Some y \<and> superactivities y = [b])"
      using D(2)[OF w(1,2)] supers by (auto simp: acts)
  next
    fix b z q assume "acts ?s b = Some z" "superactivities z = [q]"
    then obtain w where w: "acts s b = Some w" "superactivities w = [q]" "q \<noteq> a" "b \<noteq> a"
      using supers by (auto simp: acts split: if_splits)
    then show "\<exists>x. acts ?s q = Some x \<and> (b \<in> {} \<or> b \<in> set (subactivities x))"
      using D(3)[OF w(1,2)] by (auto simp: acts forget_act_def)
  qed (use D(5) in \<open>simp_all add: destroy_an_act_req_def distinct_removeAll\<close>)
qed

section \<open>The decomposition program\<close>

text \<open>
  A new instance has no parent, so its adoption severs nothing and makes no recursive call.
\<close>

lemma get_parent_construct: "get_parent (construct_instance k s) (next_act s) = None"
  by (simp add: get_parent_def construct_instance_def move_to_brand_new_list_def is_brand_new_def
    is_in_list_def insert_act_def with_act_def)

lemma linked_add_new_child [outcome_intros]:
  assumes "linked_but X s"
  shows "keeps X (add_a_child n A rec a (next_act s) (construct_instance k s))"
  using assms unfolding add_a_child_def get_parent_construct
  by (auto intro!: outcome_intros holds_branches holds_Returns simp: Let_def)

lemma linked_execute_one_decomp [outcome_intros]:
  assumes "linked_but X s" and "\<And>c s. linked_but X s \<Longrightarrow> keeps X (decomp c s)"
  shows "keeps X (execute_one_decomp n A rec decomp a k s)"
  using assms unfolding execute_one_decomp_def Let_def
  by (auto intro!: outcome_intros holds_branches holds_Returns holds_Throws half_linkedI)

lemma linked_decomp_steps:
  assumes "linked_but X s" and "\<And>k s. linked_but X s \<Longrightarrow> keeps X (f k s)"
  shows "keeps X (decomp_steps f ds s)"
  using assms(1)
  by (induction ds arbitrary: s) (auto intro!: holds_and_then assms(2) half_linkedI split: decomp_step.split)

lemma linked_exercise_decomposition [outcome_intros]:
  "linked_but X s \<Longrightarrow> keeps X (exercise_decomposition n A rec a s)"
  by (induction n arbitrary: a s)
    (auto intro!: linked_decomp_steps linked_execute_one_decomp linked_act_call holds_Returns)

lemma linked_create_and_decompose [outcome_intros]:
  "linked_but X s \<Longrightarrow> keeps X (create_and_decompose n A rec a s)"
  unfolding create_and_decompose_def by (auto intro!: outcome_intros)

lemma linked_final_adjustments [outcome_intros]:
  "linked_but X s \<Longrightarrow> keeps X (final_adjustments n A ec was a h s)"
  unfolding final_adjustments_def
  by (auto intro!: outcome_intros holds_branches holds_Returns)

end
