(* ===== verification/ActivityInvariant.thy ===== *)
theory ActivityInvariant
  imports ActivityLinks
begin

text \<open>
  \<open>do_it\<close> keeps the links of the hierarchy, for every request and whatever the programs of the
  adaptation do. The delicate part is \<open>sever_from_parent\<close>: between the deletion of the
  parent's pointer and that of the child's, it runs \<open>do_it\<close> on the parent when the parent has
  lost its last child.
\<close>

definition call_ok :: "do_it_call \<Rightarrow> bool" where
  "call_ok rec \<longleftrightarrow> (\<forall>isc s. linked_but {} s \<longrightarrow> keeps {} (rec isc s))
     \<and> (\<forall>p s X. linked_but X s \<and> is_decomposed s p \<and> children s p = [] \<longrightarrow>
          keeps X (make_visible rec VISIBILITY_REGULAR p s))"

lemma call_ok_any: "call_ok rec \<Longrightarrow> linked_but {} s \<Longrightarrow> keeps {} (rec isc s)"
  by (simp add: call_ok_def)

lemma call_ok_make_visible [outcome_intros]:
  "call_ok rec \<Longrightarrow> linked_but {} s \<Longrightarrow> keeps {} (make_visible rec v a s)"
  by (simp add: make_visible_def call_ok_def)

lemma call_ok_childless:
  "call_ok rec \<Longrightarrow> linked_but X s \<Longrightarrow> is_decomposed s p \<Longrightarrow> children s p = []
    \<Longrightarrow> keeps X (make_visible rec VISIBILITY_REGULAR p s)"
  by (simp add: call_ok_def)

section \<open>Severing a link\<close>

lemma linked_drop_child:
  assumes s: "linked_but {} s" and a: "get_parent s a = Some p"
  shows "linked_but {a} (with_act p (\<lambda>x. x\<lparr>subactivities := removeAll a (subactivities x)\<rparr>) s)"
    (is "linked_but {a} ?s")
proof -
  note D = linked_butD[OF s]
  obtain z where z: "acts s a = Some z" "superactivities z = [p]"
    using a D(1) by (fastforce simp: get_parent_def hd_opt_def split: option.splits list.splits)
  have only: "c = a \<Longrightarrow> b = p" if "acts s b = Some y" "c \<in> set (subactivities y)" for b y c
    using D(2)[OF that] z by auto
  show ?thesis
  proof (rule linked_butI)
    fix b y assume "acts ?s b = Some y"
    then show "b < next_act ?s \<and> in_act_list y \<noteq> None \<and> distinct (subactivities y)
        \<and> length (superactivities y) \<le> 1 \<and> b \<notin> set (superactivities y)"
      using D(1)[of b] by (auto simp: with_act_acts distinct_removeAll split: if_splits)
  next
    fix b y c assume y: "acts ?s b = Some y" "c \<in> set (subactivities y)"
    then have "c \<noteq> a" using only by (auto simp: with_act_acts split: if_splits)
    moreover have "\<exists>w. acts s b = Some w \<and> c \<in> set (subactivities w)"
      using y by (auto simp: with_act_acts split: if_splits)
    ultimately show "c \<notin> {a} \<and> (\<exists>y. acts ?s c = Some y \<and> superactivities y = [b])"
      using D(2) by (fastforce simp: with_act_acts)
  next
    fix b y q assume "acts ?s b = Some y" "superactivities y = [q]"
    then obtain w where "acts s b = Some w" "superactivities w = [q]"
      by (auto simp: with_act_acts split: if_splits)
    then show "\<exists>x. acts ?s q = Some x \<and> (b \<in> {a} \<or> b \<in> set (subactivities x))"
      using D(3) by (fastforce simp: with_act_acts)
  next
    fix b assume "b \<in> {a}"
    then show "\<exists>y q. acts ?s b = Some y \<and> superactivities y = [q]"
      using z by (auto simp: with_act_acts)
  qed (use D(5) in simp)
qed

lemma linked_clear_parent:
  assumes s: "linked_but {a} s"
  shows "linked_but {} (with_act a (\<lambda>x. x\<lparr>superactivities := [], parent_attribute := None\<rparr>) s)"
    (is "linked_but {} ?s")
proof -
  note D = linked_butD[OF s]
  show ?thesis
  proof (rule linked_butI)
    fix b y assume "acts ?s b = Some y"
    then show "b < next_act ?s \<and> in_act_list y \<noteq> None \<and> distinct (subactivities y)
        \<and> length (superactivities y) \<le> 1 \<and> b \<notin> set (superactivities y)"
      using D(1)[of b] by (auto simp: with_act_acts split: if_splits)
  next
    fix b y c assume "acts ?s b = Some y" "c \<in> set (subactivities y)"
    then have "\<exists>w. acts s b = Some w \<and> c \<in> set (subactivities w)"
      by (auto simp: with_act_acts split: if_splits)
    then show "c \<notin> {} \<and> (\<exists>y. acts ?s c = Some y \<and> superactivities y = [b])"
      using D(2) by (fastforce simp: with_act_acts)
  next
    fix b y q assume "acts ?s b = Some y" "superactivities y = [q]"
    then have "acts s b = Some y \<and> b \<noteq> a" by (auto simp: with_act_acts split: if_splits)
    with \<open>superactivities y = [q]\<close> show "\<exists>x. acts ?s q = Some x \<and> (b \<in> {} \<or> b \<in> set (subactivities x))"
      using D(3) by (fastforce simp: with_act_acts)
  qed (use D(5) in simp_all)
qed

lemma linked_sever_from_parent [outcome_intros]:
  assumes rec: "call_ok rec" and s: "linked_but {} s"
  shows "keeps {} (sever_from_parent n rec a s)"
proof (cases "get_parent s a")
  case (Some p)
  let ?s = "with_act p (\<lambda>x. x\<lparr>subactivities := removeAll a (subactivities x)\<rparr>) s"
  have sev: "linked_but {a} ?s" using s Some by (rule linked_drop_child)
  have "keeps {a} (if is_decomposed ?s p \<and> children ?s p = []
      then rethrow ''childless parent: '' (make_visible rec VISIBILITY_REGULAR p ?s)
      else Returns ?s)"
    using sev call_ok_childless[OF rec] by simp
  then have "keeps {} (and_then (if is_decomposed ?s p \<and> children ?s p = []
      then rethrow ''childless parent: '' (make_visible rec VISIBILITY_REGULAR p ?s)
      else Returns ?s) (\<lambda>s. update_up_accelerator n (Some a) False a
        (with_act a (\<lambda>x. x\<lparr>superactivities := [], parent_attribute := None\<rparr>) s)))"
    by (rule holds_then) (intro linked_update_up_accelerator linked_clear_parent)
  then show ?thesis using s Some half_linkedI[OF s] by (simp add: sever_from_parent_def Let_def)
qed (use s in \<open>simp add: sever_from_parent_def\<close>)

section \<open>The parts of \<open>do_it\<close>\<close>

lemma linked_add_a_child [outcome_intros]:
  assumes "call_ok rec" and "linked_but {} s"
  shows "keeps {} (add_a_child n A rec a c s)"
  using assms unfolding add_a_child_def
  by (auto intro!: outcome_intros holds_branches holds_Returns call_ok_any[OF assms(1)]
      simp: Let_def)

lemma linked_destroy_children [outcome_intros]:
  assumes "call_ok rec" and "linked_but {} s"
  shows "keeps {} (destroy_children n A rec a s)"
  using assms(2)
  by (induction n arbitrary: s)
    (auto intro!: outcome_intros holds_branches holds_Returns call_ok_any[OF assms(1)]
      split: list.split)

lemma linked_section_one [outcome_intros]:
  assumes "call_ok rec" and "linked_but {} s"
  shows "keeps {} (section_one n A rec d a s)"
  using assms unfolding section_one_def
  by (auto intro!: outcome_intros holds_branches holds_Returns holds_Throws half_linkedI)

lemma linked_change_links [outcome_intros]:
  assumes "call_ok rec" and "linked_but {} s"
  shows "keeps {} (change_links n A rec d a s)"
  using assms unfolding change_links_def
  by (auto intro!: outcome_intros holds_branches holds_Returns holds_Throws half_linkedI)

lemma linked_instantiate_new_act [outcome_intros]:
  "linked_but X s \<Longrightarrow> keeps X (instantiate_new_act isc s)"
  unfolding instantiate_new_act_def Let_def
  by (auto split: act_visibility_state.split intro!: outcome_intros half_linkedI)

lemma linked_create_missing [outcome_intros]:
  "linked_but X s \<Longrightarrow> keeps X (create_missing_nonexcl_children n A rec a s)"
  unfolding create_missing_nonexcl_children_def
  by (auto intro!: outcome_intros holds_branches)

lemma linked_leave_clipboard [outcome_intros]:
  assumes "call_ok rec" and "linked_but {} s"
  shows "keeps {} (leave_clipboard n A rec v ec was a s)"
  using assms unfolding leave_clipboard_def Let_def
  by (cases v) (auto intro!: outcome_intros holds_branches holds_Returns holds_Throws half_linkedI)

lemma linked_to_clipboard [outcome_intros]:
  assumes "call_ok rec" and "linked_but {} s"
  shows "keeps {} (to_clipboard n A rec d was a s)"
  using assms unfolding to_clipboard_def
  by (auto intro!: outcome_intros holds_branches holds_Returns)

lemma linked_show_children [outcome_intros]:
  assumes "call_ok rec" and "linked_but {} s"
  shows "keeps {} (show_children rec a s)"
  using assms unfolding show_children_def show_child_def Let_def
  by (auto intro!: outcome_intros holds_branches holds_Returns)

lemma linked_decompose_now [outcome_intros]:
  "linked_but X s \<Longrightarrow> keeps X (decompose_now n A rec v a s)"
  unfolding decompose_now_def Let_def
  by (auto intro!: outcome_intros holds_branches holds_Returns holds_Throws half_linkedI)

lemma linked_to_decomposed [outcome_intros]:
  assumes "call_ok rec" and "linked_but {} s"
    and "\<And>h s. linked_but {} s \<Longrightarrow> keeps {} (final h s)"
  shows "keeps {} (to_decomposed n A rec v final a s)"
  using assms(1,2) unfolding to_decomposed_def Let_def
  by (auto intro!: outcome_intros holds_branches holds_Returns holds_Throws half_linkedI
    assms(3))

lemma linked_to_abstracted [outcome_intros]:
  assumes "call_ok rec" and "linked_but {} s"
    and "\<And>h s. linked_but {} s \<Longrightarrow> keeps {} (final h s)"
  shows "keeps {} (to_abstracted n A rec final a s)"
  using assms(1,2) unfolding to_abstracted_def
  by (auto intro!: outcome_intros holds_branches holds_Returns holds_Throws half_linkedI
    assms(3))

lemma linked_to_regular [outcome_intros]:
  assumes "call_ok rec" and "linked_but {} s"
    and "\<And>h s. linked_but {} s \<Longrightarrow> keeps {} (final h s)"
  shows "keeps {} (to_regular n A rec final a s)"
  using assms(1,2) unfolding to_regular_def abstract_child_def Let_def
  by (auto intro!: outcome_intros holds_branches holds_Returns holds_Throws half_linkedI
    assms(3))

lemma linked_change_visibility [outcome_intros]:
  assumes "call_ok rec" and "linked_but {} s"
  shows "keeps {} (change_visibility n A rec ec was isc s)"
  using assms unfolding change_visibility_def Let_def
  by (auto intro!: outcome_intros holds_branches holds_Returns
      split: act_visibility_state.split)

lemma linked_do_it_body:
  assumes "call_ok rec" and "linked_but {} s"
  shows "keeps {} (do_it_body n A rec isc s)"
  using assms unfolding do_it_body_def Let_def
  by (auto intro!: outcome_intros holds_branches)

text \<open>The call that \<open>sever_from_parent\<close> makes for a parent without children.\<close>

lemma children_upd [simp]:
  "children (insert_act l a s) b = children s b"
  "children (act_call c s) b = children s b"
  "children (handle_instantiation h a s) b = children s b"
  by (auto simp: children_def insert_act_def with_act_acts act_call_def handle_instantiation_def
    split: option.split)

lemma linked_childless_regular:
  assumes s: "linked_but X s" and p: "is_decomposed s p" and nil: "children s p = []"
  shows "keeps X (make_visible (do_it_body n A rec) VISIBILITY_REGULAR p s)"
proof -
  obtain x where x: "acts s p = Some x" "in_act_list x = Some someDecomposedActivities"
    using p by (auto simp: is_decomposed_def is_in_list_def split: option.splits)
  let ?isc = "set_desired_visibility_to VISIBILITY_REGULAR (instance_state_changer s p)"
  have "keeps X (change_links n A rec (desired_state ?isc) p s)"
    using nil linked_attach_to_parent[OF s] half_linkedI[OF s] s
    by (auto simp: change_links_def changer_defs section_one_def children_count_def
      split: option.split)
  moreover have "change_links n A rec (desired_state ?isc) p s = Returns s
      \<or> (\<exists>e. change_links n A rec (desired_state ?isc) p s = Throws e s)"
    using nil x(1)
    by (auto simp: change_links_def changer_defs section_one_def children_count_def
      attach_to_parent_def get_parent_def hd_opt_def split: option.split list.split)
  moreover have "keeps X (change_visibility n A rec ec was ?isc s)" for ec was
  proof -
    have "change_visibility n A rec ec was ?isc s
        = to_regular n A rec (final_adjustments n A ec was p) p s"
      using x by (simp add: change_visibility_def changer_defs is_decomposed_def is_in_list_def
        is_on_clipboard_def Let_def)
    moreover have "keeps X \<dots>"
      using s nil unfolding to_regular_def Let_def children_count_def
      by (auto intro!: outcome_intros holds_branches holds_Throws half_linkedI)
    ultimately show ?thesis by simp
  qed
  ultimately have "keeps X (and_then (change_links n A rec (desired_state ?isc) p s)
      (change_visibility n A rec ec was ?isc))" for ec was
    by fastforce
  moreover have "ACT_req_changing ?isc = p" by (simp add: changer_defs)
  moreover have "\<not> is_brand_new s p" using x by (simp add: is_brand_new_def is_in_list_def)
  ultimately show ?thesis
    unfolding make_visible_def do_it_body_def Let_def
    by (auto intro!: holds_when_weakly_active)
qed

theorem do_it_call_ok: "call_ok (do_it n A)"
proof (induction n)
  case 0
  show ?case by (simp add: call_ok_def make_visible_def)
next
  case (Suc n)
  have "do_it (Suc n) A = do_it_body n A (do_it n A)" by (intro ext) simp
  then show ?case
    using linked_do_it_body[OF Suc] linked_childless_regular unfolding call_ok_def by metis
qed

end
