(* ===== verification/ActivityTransitions.thy ===== *)
theory ActivityTransitions
  imports ActivityInvariant
begin

text \<open>
  What the transitions between the displayed, the decomposed and the abstracted state do. An
  instance is looked at through its shape, which is all of it but the list it lies in, and that
  list: the transitions of this theory keep the shape of every instance.
\<close>

declare do_it.simps(2) [simp del]

section \<open>Shape, list and lifecycle\<close>

definition shape :: "act_state \<Rightarrow> nat \<Rightarrow> activity option" where
  "shape s a = map_option (\<lambda>x. x\<lparr>in_act_list := None\<rparr>) (acts s a)"

definition list_of :: "act_state \<Rightarrow> nat \<Rightarrow> act_list option" where
  "list_of s a = (case acts s a of None \<Rightarrow> None | Some x \<Rightarrow> in_act_list x)"

definition is_lifecycle :: "act_call \<Rightarrow> bool" where
  "is_lifecycle c = (case c of Create _ \<Rightarrow> True | Destroy _ \<Rightarrow> True | _ \<Rightarrow> False)"

text \<open>The runs of the creation and destruction programs, in their order.\<close>

definition lifecycle :: "act_state \<Rightarrow> act_call list" where
  "lifecycle s = List.filter is_lifecycle (act_calls s)"

named_theorems view_simps "shape, list and lifecycle after an operation"

lemma is_in_list_iff [view_simps]: "is_in_list l s a \<longleftrightarrow> list_of s a = Some l"
  by (simp add: is_in_list_def list_of_def split: option.split)

lemmas in_list_iffs [view_simps] = is_brand_new_def is_active_def is_decomposed_def
  is_abstracted_def is_on_clipboard_def

lemma live_iff_shape: "acts s a = None \<longleftrightarrow> shape s a = None"
  by (simp add: shape_def)

lemma list_of_live: "list_of s a = Some l \<Longrightarrow> acts s a \<noteq> None"
  by (auto simp: list_of_def split: option.splits)

lemma same_shape:
  assumes "x\<lparr>in_act_list := None\<rparr> = y\<lparr>in_act_list := None\<rparr>"
  shows "superactivities x = superactivities y" "subactivities x = subactivities y"
    "scheduled x = scheduled y" "decompose_task x = decompose_task y"
    "has_derived_data x = has_derived_data y" "in_act_list x = in_act_list y \<Longrightarrow> x = y"
  using assms by (cases x; cases y; simp)+

lemma acts_by_view: "shape s = shape s' \<Longrightarrow> list_of s = list_of s' \<Longrightarrow> acts s = acts s'"
proof (rule ext)
  fix a assume "shape s = shape s'" and "list_of s = list_of s'"
  then have "shape s a = shape s' a" and "list_of s a = list_of s' a" by simp_all
  then show "acts s a = acts s' a"
    by (cases "acts s a"; cases "acts s' a") (auto simp: shape_def list_of_def intro: same_shape(6))
qed

lemma by_shape:
  assumes "shape s' = shape s"
  shows "children s' a = children s a" "get_parent s' a = get_parent s a"
    "has_decomp_method s' a = has_decomp_method s a" "is_unscheduled s' a = is_unscheduled s a"
    "derived_data s' a = derived_data s a" "children_count s' a = children_count s a"
    "acts s' a = None \<longleftrightarrow> acts s a = None"
proof -
  have "shape s' a = shape s a" using assms by simp
  then consider "acts s' a = None" "acts s a = None"
    | x y where "acts s' a = Some x" "acts s a = Some y"
        "superactivities x = superactivities y" "subactivities x = subactivities y"
        "scheduled x = scheduled y" "decompose_task x = decompose_task y"
        "has_derived_data x = has_derived_data y"
    by (cases "acts s a"; cases "acts s' a"; simp add: shape_def) (metis same_shape(1-5))
  then show "children s' a = children s a" "get_parent s' a = get_parent s a"
    "has_decomp_method s' a = has_decomp_method s a" "is_unscheduled s' a = is_unscheduled s a"
    "derived_data s' a = derived_data s a" "children_count s' a = children_count s a"
    "acts s' a = None \<longleftrightarrow> acts s a = None"
    by (cases; simp add: children_def get_parent_def has_decomp_method_def
          is_unscheduled_def derived_data_def children_count_def)+
qed

lemma view_act_call [view_simps]:
  "shape (act_call c s) = shape s" "list_of (act_call c s) = list_of s"
  "sel_list (act_call c s) = sel_list s"
  "lifecycle (act_call c s) = lifecycle s @ (if is_lifecycle c then [c] else [])"
  by (auto simp: act_call_def shape_def list_of_def lifecycle_def fun_eq_iff)

lemma view_handle_instantiation [view_simps]:
  "shape (handle_instantiation b a s) = shape s" "list_of (handle_instantiation b a s) = list_of s"
  "sel_list (handle_instantiation b a s) = sel_list s"
  "lifecycle (handle_instantiation b a s) = lifecycle s"
  by (simp_all add: handle_instantiation_def view_act_call is_lifecycle_def)

lemma view_sel_list [view_simps]:
  "shape (s\<lparr>sel_list := l\<rparr>) = shape s" "list_of (s\<lparr>sel_list := l\<rparr>) = list_of s"
  "lifecycle (s\<lparr>sel_list := l\<rparr>) = lifecycle s"
  by (simp_all add: shape_def list_of_def lifecycle_def fun_eq_iff)

lemma view_select [view_simps]:
  "shape (select a s) = shape s" "list_of (select a s) = list_of s"
  "lifecycle (select a s) = lifecycle s" "set (sel_list (select a s)) = insert a (set (sel_list s))"
  by (auto simp: select_def handle_selection_def view_act_call view_sel_list is_lifecycle_def)

lemma view_unselect [view_simps]:
  "shape (unselect a s) = shape s" "list_of (unselect a s) = list_of s"
  "lifecycle (unselect a s) = lifecycle s" "sel_list (unselect a s) = remove1 a (sel_list s)"
  by (auto simp: unselect_def handle_selection_def view_act_call view_sel_list is_lifecycle_def
    remove1_idem)

lemma view_insert_act [view_simps]:
  "shape (insert_act l a s) = shape s"
  "acts s a \<noteq> None \<Longrightarrow> list_of (insert_act l a s) = (list_of s)(a := Some l)"
  "sel_list (insert_act l a s) = sel_list s" "lifecycle (insert_act l a s) = lifecycle s"
proof -
  show "shape (insert_act l a s) = shape s"
    by (rule ext) (simp add: insert_act_def with_act_def shape_def option.map_comp comp_def)
  show "list_of (insert_act l a s) = (list_of s)(a := Some l)" if "acts s a \<noteq> None"
    using that by (intro ext) (auto simp: insert_act_def with_act_def list_of_def)
qed (simp_all add: insert_act_def lifecycle_def)

lemma view_move_to_abstracted_list [view_simps]:
  assumes live: "acts s a \<noteq> None"
  shows "shape (move_to_abstracted_list a s) = shape s"
    "list_of (move_to_abstracted_list a s) = (list_of s)(a := Some someAbstractedActivities)"
    "lifecycle (move_to_abstracted_list a s) = lifecycle s"
proof -
  have "acts (unselect a s) a \<noteq> None"
    using live by_shape(7)[OF view_unselect(1)] by simp
  then show "shape (move_to_abstracted_list a s) = shape s"
    "list_of (move_to_abstracted_list a s) = (list_of s)(a := Some someAbstractedActivities)"
    "lifecycle (move_to_abstracted_list a s) = lifecycle s"
    by (simp_all add: move_to_abstracted_list_def view_simps fun_upd_idem)
qed

section \<open>Programs without errors\<close>

definition quiet :: "adaptation \<Rightarrow> bool" where
  "quiet A \<longleftrightarrow> (\<forall>a s. creation_program A a s = None) \<and> (\<forall>a s. destruction_program A a s = None)"

lemma quiet_runs:
  "quiet A \<Longrightarrow> create A a s = Returns (act_call (Create a) s)"
  "quiet A \<Longrightarrow> destroy A a s = Returns (act_call (Destroy a) s)"
  by (simp_all add: create_def destroy_def quiet_def)

section \<open>One step of \<open>do_it\<close>\<close>

text \<open>A request for another visibility that leaves the links of the instance alone.\<close>

definition parent_fine :: "act_state \<Rightarrow> nat \<Rightarrow> bool" where
  "parent_fine s a \<longleftrightarrow> (\<forall>p. get_parent s a = Some p \<longrightarrow> p \<noteq> a \<and> acts s p \<noteq> None)"

lemma parent_fine_shape: "shape s' = shape s \<Longrightarrow> parent_fine s' a = parent_fine s a"
  unfolding parent_fine_def using by_shape(2,7)[of s' s] by metis

lemma linked_parent_fine: "linked_but X s \<Longrightarrow> parent_fine s a"
  unfolding parent_fine_def
proof (intro allI impI)
  fix p assume s: "linked_but X s" and "get_parent s a = Some p"
  then obtain x where x: "acts s a = Some x" "p \<in> set (superactivities x)"
    by (auto simp: get_parent_def hd_opt_def split: option.splits list.splits)
  note D = linked_butD[OF s]
  have "superactivities x = [p]"
    using D(1)[OF x(1)] x(2) by (cases "superactivities x") auto
  then show "p \<noteq> a \<and> acts s p \<noteq> None" using D(1)[OF x(1)] D(3)[OF x(1)] x(2) by auto
qed

lemma attach_to_parent_idle:
  assumes "get_parent s a = Some p" and "acts s p \<noteq> None"
  shows "attach_to_parent n a p s = Returns s"
  using assms by (auto simp: attach_to_parent_def get_parent_def split: option.splits)

lemma make_visible_step:
  assumes fine: "parent_fine s a" and old: "\<not> is_brand_new s a"
    and v: "v \<noteq> VISIBILITY_NEWCHILDREN"
    and w: "is_weakly_active n s a = Some w"
  shows "make_visible (do_it (Suc n) A) v a s
    = change_visibility n A (do_it n A) (\<not> is_unscheduled s a) w
        (set_desired_visibility_to v (instance_state_changer s a)) s"
proof -
  have "change_links n A (do_it n A)
      (desired_state (set_desired_visibility_to v (instance_state_changer s a))) a s = Returns s"
    using fine v
    by (cases "get_parent s a")
      (auto simp: change_links_def changer_defs section_one_def parent_fine_def
        attach_to_parent_idle)
  moreover have "ACT_req_changing (set_desired_visibility_to v (instance_state_changer s a)) = a"
    by (simp add: changer_defs)
  ultimately show ?thesis
    using old w by (simp add: make_visible_def do_it.simps(2) do_it_body_def when_weakly_active_def)
qed

lemma weakly_active_displayed: "list_of s a = Some someActiveInstances
    \<Longrightarrow> is_weakly_active n s a = Some True"
  by (simp add: is_weakly_active_def view_simps)

lemma weakly_active_hidden:
  assumes "list_of s a = Some someAbstractedActivities" and "get_parent s a = Some p"
    and "has_decomp_method s p \<noteq> Some NONEXCLDECOMP"
  shows "is_weakly_active (Suc n) s a = Some False"
  using assms by (simp add: is_weakly_active_def view_simps)

lemma weakly_active_detailed:
  assumes "list_of s a = Some someDecomposedActivities"
    and "has_decomp_method s a \<noteq> Some NONEXCLDECOMP"
  shows "is_weakly_active (Suc n) s a = Some False"
  using assms by (simp add: is_weakly_active_def view_simps)

lemma change_visibility_changer:
  assumes "a = ACT_req_changing isc" "isc = set_desired_visibility_to v (instance_state_changer s a)"
    and "v \<noteq> invisibility (act_instance_state_of s a)" "\<not> is_on_clipboard s a"
  shows "change_visibility n A rec ec was isc s
    = (let final = final_adjustments n A ec was a in case v of
         VISIBILITY_ON_CLIPBOARD \<Rightarrow> to_clipboard n A rec (desired_state isc) was a s
       | VISIBILITY_DECOMPOSED \<Rightarrow> to_decomposed n A rec v final a s
       | VISIBILITY_NEWCHILDREN \<Rightarrow> to_decomposed n A rec v final a s
       | VISIBILITY_ABSTRACTED \<Rightarrow> to_abstracted n A rec final a s
       | VISIBILITY_REGULAR \<Rightarrow> to_regular n A rec final a s
       | VISIBILITY_BRAND_NEW \<Rightarrow> final False s)"
proof -
  have "invisibility (desired_state isc) = v"
    "invisibility (current_state isc) = invisibility (act_instance_state_of s a)"
    using assms(2) by (simp_all add: set_desired_visibility_to_def instance_state_changer_def)
  then show ?thesis using assms(1)[symmetric] assms(3,4)
    by (cases v) (simp_all add: change_visibility_def Let_def)
qed

lemma make_visible_to:
  assumes "parent_fine s a" and "\<not> is_brand_new s a" and "\<not> is_on_clipboard s a"
    and "is_weakly_active n s a = Some w" and "v \<noteq> invisibility (act_instance_state_of s a)"
  shows "v = VISIBILITY_REGULAR \<Longrightarrow> make_visible (do_it (Suc n) A) v a s
      = to_regular n A (do_it n A) (final_adjustments n A (\<not> is_unscheduled s a) w a) a s"
    and "v = VISIBILITY_ABSTRACTED \<Longrightarrow> make_visible (do_it (Suc n) A) v a s
      = to_abstracted n A (do_it n A) (final_adjustments n A (\<not> is_unscheduled s a) w a) a s"
    and "v = VISIBILITY_DECOMPOSED \<Longrightarrow> make_visible (do_it (Suc n) A) v a s
      = to_decomposed n A (do_it n A) v (final_adjustments n A (\<not> is_unscheduled s a) w a) a s"
proof -
  let ?isc = "set_desired_visibility_to v (instance_state_changer s a)"
  have a: "a = ACT_req_changing ?isc" by (simp add: changer_defs)
  note cv = change_visibility_changer[OF a refl assms(5,3)]
  note st = make_visible_step[OF assms(1,2) _ assms(4)]
  show "v = VISIBILITY_REGULAR \<Longrightarrow> make_visible (do_it (Suc n) A) v a s
      = to_regular n A (do_it n A) (final_adjustments n A (\<not> is_unscheduled s a) w a) a s"
    using st[of v A] cv by simp
  show "v = VISIBILITY_ABSTRACTED \<Longrightarrow> make_visible (do_it (Suc n) A) v a s
      = to_abstracted n A (do_it n A) (final_adjustments n A (\<not> is_unscheduled s a) w a) a s"
    using st[of v A] cv by simp
  show "v = VISIBILITY_DECOMPOSED \<Longrightarrow> make_visible (do_it (Suc n) A) v a s
      = to_decomposed n A (do_it n A) v (final_adjustments n A (\<not> is_unscheduled s a) w a) a s"
    using st[of v A] cv by simp
qed

section \<open>The children appear, the children disappear\<close>

text \<open>
  \<open>moved s s' B l cs\<close>: from \<open>s\<close> to \<open>s'\<close> the instances of \<open>B\<close> went to the list \<open>l\<close>, nothing else
  about the instances changed, and the programs \<open>cs\<close> ran.
\<close>

definition moved :: "act_state \<Rightarrow> act_state \<Rightarrow> nat set \<Rightarrow> act_list \<Rightarrow> act_call list \<Rightarrow> bool" where
  "moved s s' B l cs \<longleftrightarrow> shape s' = shape s
     \<and> list_of s' = (\<lambda>c. if c \<in> B then Some l else list_of s c)
     \<and> lifecycle s' = lifecycle s @ cs"

lemma moved_none: "moved s s {} l []"
  by (simp add: moved_def)

lemma moved_trans: "moved s t B l cs \<Longrightarrow> moved t u C l ds \<Longrightarrow> moved s u (B \<union> C) l (cs @ ds)"
  by (auto simp: moved_def fun_eq_iff)

lemma not_requested [simp]: "\<not> is_a_request s a"
  by (simp add: is_a_request_def)

text \<open>An abstracted child of a displayed parent that decomposes exclusively is displayed.\<close>

definition hidden_child :: "nat \<Rightarrow> nat \<Rightarrow> act_state \<Rightarrow> bool" where
  "hidden_child a b s \<longleftrightarrow> list_of s b = Some someAbstractedActivities \<and> get_parent s b = Some a
     \<and> has_decomp_method s b \<noteq> Some NONEXCLDECOMP
     \<and> (\<forall>k\<in>set (children s b). list_of s k = Some someAbstractedActivities)"

lemma for_each_abstracted:
  assumes "\<forall>k\<in>set ks. list_of s k = Some someAbstractedActivities"
  shows "for_each (abstract_child rec) ks s = Returns s"
  using assms by (induction ks) (simp_all add: abstract_child_def view_simps)

lemma show_one_child:
  assumes A: "quiet A" and b: "hidden_child a b s" and fine: "parent_fine s b"
    and self: "b \<notin> set (children s b)"
    and a: "list_of s a = Some someActiveInstances" "has_decomp_method s a \<noteq> Some NONEXCLDECOMP"
  shows "\<exists>s'. show_child (do_it (Suc (Suc m)) A) b s = Returns s'
    \<and> moved s s' {b} someActiveInstances (if is_unscheduled s b then [] else [Create b])
    \<and> set (sel_list s') = insert b (set (sel_list s))"
proof -
  let ?s = "handle_instantiation True b (insert_act someActiveInstances b s)"
  have live: "acts s b \<noteq> None" using b by (auto simp: hidden_child_def dest: list_of_live)
  have sh: "shape ?s = shape s" "list_of ?s = (list_of s)(b := Some someActiveInstances)"
    "lifecycle ?s = lifecycle s" "sel_list ?s = sel_list s"
    using live by (simp_all add: view_simps)
  have w: "is_weakly_active (Suc m) s b = Some False"
    using b a(2) weakly_active_hidden by (auto simp: hidden_child_def)
  have "make_visible (do_it (Suc (Suc m)) A) VISIBILITY_REGULAR b s
      = to_regular (Suc m) A (do_it (Suc m) A)
          (final_adjustments (Suc m) A (\<not> is_unscheduled s b) False b) b s"
    using b by (intro make_visible_to(1)[OF fine _ _ w])
      (auto simp: hidden_child_def view_simps act_instance_state_of_def)
  also have "\<dots> = final_adjustments (Suc m) A (\<not> is_unscheduled s b) False b False ?s"
  proof (cases "children s b = []")
    case True
    then show ?thesis
      using b by_shape(3,6)[OF sh(1)] by (simp add: to_regular_def hidden_child_def children_count_def)
  next
    case False
    have "for_each (abstract_child (do_it (Suc m) A)) (children s b) ?s = Returns ?s"
      using b self by (intro for_each_abstracted) (auto simp: hidden_child_def sh(2))
    then show ?thesis
      using False by_shape(1,6)[OF sh(1)] by (simp add: to_regular_def children_count_def)
  qed
  also have "\<dots> = Returns (if is_unscheduled s b then ?s else act_call (Create b) ?s)"
    using weakly_active_displayed[of ?s b] sh(2) A
    by (simp add: final_adjustments_def when_weakly_active_def quiet_runs)
  finally have eq: "show_child (do_it (Suc (Suc m)) A) b s
      = Returns (select b (if is_unscheduled s b then ?s else act_call (Create b) ?s))"
    using b by (simp add: show_child_def hidden_child_def view_simps)
  show ?thesis unfolding eq
    using sh by (auto simp: moved_def view_simps is_lifecycle_def fun_eq_iff)
qed

lemma hidden_child_moved:
  assumes "hidden_child a b s" and "moved s s' B l cs" and "b \<notin> B"
    and "B \<inter> set (children s b) = {}"
  shows "hidden_child a b s'"
proof -
  have sh: "shape s' = shape s" and li: "list_of s' = (\<lambda>c. if c \<in> B then Some l else list_of s c)"
    using assms(2) by (simp_all add: moved_def)
  show ?thesis
    using assms(1,3,4) unfolding hidden_child_def by_shape[OF sh] li by auto
qed

definition creations :: "act_state \<Rightarrow> nat list \<Rightarrow> act_call list" where
  "creations s bs = map Create (List.filter (\<lambda>b. \<not> is_unscheduled s b) bs)"

lemma show_all_children:
  assumes A: "quiet A" and "distinct bs"
    and "\<And>b. b \<in> set bs \<Longrightarrow> hidden_child a b s \<and> parent_fine s b
          \<and> set bs \<inter> set (children s b) = {}"
    and a: "a \<notin> set bs" "list_of s a = Some someActiveInstances"
      "has_decomp_method s a \<noteq> Some NONEXCLDECOMP"
  shows "\<exists>s'. for_each (show_child (do_it (Suc (Suc m)) A)) bs s = Returns s'
    \<and> moved s s' (set bs) someActiveInstances (creations s bs)
    \<and> set (sel_list s') = set bs \<union> set (sel_list s)"
  using assms(2-)
proof (induction bs arbitrary: s)
  case Nil
  show ?case by (simp add: moved_none creations_def)
next
  case (Cons b bs)
  have b: "hidden_child a b s" "parent_fine s b" "b \<notin> set (children s b)"
    using Cons.prems(2)[of b] by auto
  obtain t where t: "show_child (do_it (Suc (Suc m)) A) b s = Returns t"
    "moved s t {b} someActiveInstances (if is_unscheduled s b then [] else [Create b])"
    "set (sel_list t) = insert b (set (sel_list s))"
    using show_one_child[OF A b Cons.prems(4,5)] by blast
  have sh: "shape t = shape s" and at: "list_of t a = Some someActiveInstances"
    using t(2) Cons.prems(3,4) by (auto simp: moved_def)
  have "hidden_child a c t \<and> parent_fine t c \<and> set bs \<inter> set (children t c) = {}"
    if "c \<in> set bs" for c
    using Cons.prems(1) Cons.prems(2)[of c] that hidden_child_moved[OF _ t(2)]
      parent_fine_shape[OF sh] by_shape(1)[OF sh]
    by auto
  moreover have "distinct bs" "a \<notin> set bs" using Cons.prems(1,3) by auto
  ultimately obtain u where u: "for_each (show_child (do_it (Suc (Suc m)) A)) bs t = Returns u"
    "moved t u (set bs) someActiveInstances (creations t bs)"
    "set (sel_list u) = set bs \<union> set (sel_list t)"
    using Cons.IH[of t] at Cons.prems(5) by_shape(3)[OF sh] by auto
  have "creations t bs = creations s bs" by (simp add: creations_def by_shape(4)[OF sh])
  then have "moved s u (set (b # bs)) someActiveInstances (creations s (b # bs))"
    using moved_trans[OF t(2) u(2)] by (cases "is_unscheduled s b") (simp_all add: creations_def)
  then show ?case using t(1,3) u(1,3) by auto
qed

text \<open>The other way: a displayed child of a displayed parent is abstracted.\<close>

definition shown_child :: "nat \<Rightarrow> nat \<Rightarrow> act_state \<Rightarrow> bool" where
  "shown_child a b s \<longleftrightarrow> list_of s b = Some someActiveInstances \<and> get_parent s b = Some a"

lemma hide_one_child:
  assumes A: "quiet A" and b: "shown_child a b s" and fine: "parent_fine s b"
    and sel: "distinct (sel_list s)"
    and a: "list_of s a = Some someActiveInstances" "has_decomp_method s a \<noteq> Some NONEXCLDECOMP"
  shows "\<exists>s'. abstract_child (do_it (Suc (Suc m)) A) b s = Returns s'
    \<and> moved s s' {b} someAbstractedActivities [Destroy b]
    \<and> sel_list s' = remove1 b (sel_list s)"
proof -
  have "a \<noteq> b" using b fine by (auto simp: shown_child_def parent_fine_def)
  let ?t = "unselect b (handle_instantiation False b s)"
  let ?s = "move_to_abstracted_list b ?t"
  have tv: "shape ?t = shape s" "list_of ?t = list_of s" "lifecycle ?t = lifecycle s"
    "sel_list ?t = remove1 b (sel_list s)"
    by (simp_all add: view_simps)
  have live: "acts ?t b \<noteq> None"
    using b tv(2) list_of_live[of ?t b] by (simp add: shown_child_def)
  have sh: "shape ?s = shape s" "list_of ?s = (list_of s)(b := Some someAbstractedActivities)"
    "lifecycle ?s = lifecycle s"
    using live tv by (simp_all add: view_simps)
  have "b \<notin> set (sel_list ?t)" using sel by (simp add: tv(4))
  then have se: "sel_list ?s = remove1 b (sel_list s)"
    using tv(4) by (simp add: move_to_abstracted_list_def view_simps remove1_idem)
  have "make_visible (do_it (Suc (Suc m)) A) VISIBILITY_ABSTRACTED b s
      = to_abstracted (Suc m) A (do_it (Suc m) A)
          (final_adjustments (Suc m) A (\<not> is_unscheduled s b) True b) b s"
    using b by (intro make_visible_to(2)[OF fine _ _ weakly_active_displayed])
      (auto simp: shown_child_def view_simps act_instance_state_of_def)
  also have "\<dots> = final_adjustments (Suc m) A (\<not> is_unscheduled s b) True b False ?s"
    using b a by (simp add: to_abstracted_def shown_child_def view_simps)
  also have "\<dots> = Returns (act_call (Destroy b) ?s)"
    using weakly_active_hidden[of ?s b a m] b a(2) sh(2) by_shape(2,3)[OF sh(1)] A
    by (simp add: final_adjustments_def when_weakly_active_def quiet_runs shown_child_def)
  finally have eq: "abstract_child (do_it (Suc (Suc m)) A) b s = Returns (act_call (Destroy b) ?s)"
    using b by (simp add: abstract_child_def shown_child_def view_simps)
  show ?thesis unfolding eq
    using sh se by (auto simp: moved_def view_simps is_lifecycle_def fun_eq_iff)
qed

lemma hide_all_children:
  assumes A: "quiet A" and "distinct bs" and "distinct (sel_list s)"
    and "\<And>b. b \<in> set bs \<Longrightarrow> shown_child a b s \<and> parent_fine s b"
    and a: "a \<notin> set bs" "list_of s a = Some someActiveInstances"
      "has_decomp_method s a \<noteq> Some NONEXCLDECOMP"
  shows "\<exists>s'. for_each (abstract_child (do_it (Suc (Suc m)) A)) bs s = Returns s'
    \<and> moved s s' (set bs) someAbstractedActivities (map Destroy bs)
    \<and> set (sel_list s') = set (sel_list s) - set bs"
  using assms(2-)
proof (induction bs arbitrary: s)
  case Nil
  show ?case by (simp add: moved_none)
next
  case (Cons b bs)
  obtain t where t: "abstract_child (do_it (Suc (Suc m)) A) b s = Returns t"
    "moved s t {b} someAbstractedActivities [Destroy b]" "sel_list t = remove1 b (sel_list s)"
    using hide_one_child[OF A, of a b s] Cons.prems by auto
  have sh: "shape t = shape s" and li: "list_of t = (\<lambda>c. if c \<in> {b} then
      Some someAbstractedActivities else list_of s c)"
    using t(2) by (simp_all add: moved_def)
  have "shown_child a c t \<and> parent_fine t c" if "c \<in> set bs" for c
    using Cons.prems(1) Cons.prems(3)[of c] that
    unfolding shown_child_def li by_shape[OF sh] parent_fine_shape[OF sh] by auto
  moreover have "distinct bs" "a \<notin> set bs" "distinct (sel_list t)"
    "list_of t a = Some someActiveInstances" "has_decomp_method t a \<noteq> Some NONEXCLDECOMP"
    using Cons.prems unfolding t(3) li by_shape[OF sh] by auto
  ultimately obtain u where u: "for_each (abstract_child (do_it (Suc (Suc m)) A)) bs t = Returns u"
    "moved t u (set bs) someAbstractedActivities (map Destroy bs)"
    "set (sel_list u) = set (sel_list t) - set bs"
    using Cons.IH[of t] by blast
  have "set (sel_list u) = set (sel_list s) - set (b # bs)"
    using u(3) t(3) Cons.prems(2) by (auto simp: set_remove1_eq)
  then show ?case using t(1) u(1) moved_trans[OF t(2) u(2)] by auto
qed

section \<open>Detailing an instance and abstracting it\<close>

text \<open>
  A displayed instance that decomposes exclusively and whose children are there, abstracted,
  and the state in which the children are displayed in its place.
\<close>

definition exclusive :: "act_state \<Rightarrow> nat \<Rightarrow> bool" where
  "exclusive s a \<longleftrightarrow> has_decomp_method s a \<in> {Some DECOMPOSITION, Some CONCUREXP}"

definition folded :: "act_state \<Rightarrow> nat \<Rightarrow> bool" where
  "folded s a \<longleftrightarrow> list_of s a = Some someActiveInstances \<and> exclusive s a \<and> children s a \<noteq> []
     \<and> (\<forall>b\<in>set (children s a). list_of s b = Some someAbstractedActivities
          \<and> has_decomp_method s b \<noteq> Some NONEXCLDECOMP
          \<and> (\<forall>k\<in>set (children s b). list_of s k = Some someAbstractedActivities))"

definition unfolded :: "act_state \<Rightarrow> nat \<Rightarrow> bool" where
  "unfolded s a \<longleftrightarrow> list_of s a = Some someDecomposedActivities \<and> exclusive s a
     \<and> (\<forall>b\<in>set (children s a). list_of s b = Some someActiveInstances)"

definition family_lists :: "act_state \<Rightarrow> nat \<Rightarrow> act_list \<Rightarrow> act_list \<Rightarrow> nat \<Rightarrow> act_list option" where
  "family_lists s a l lc = (\<lambda>c. if c = a then Some l else if c \<in> set (children s a) then Some lc
     else list_of s c)"

lemma exclusive_method: "exclusive s a \<Longrightarrow> has_decomp_method s a \<noteq> Some NONEXCLDECOMP"
  by (auto simp: exclusive_def)

lemma linked_distinct_children: "linked s \<Longrightarrow> distinct (children s a)"
  unfolding linked_def using linked_butD(1)[of "{}" s a]
  by (auto simp: children_def split: option.split)

lemma linked_children:
  assumes s: "linked s" and b: "b \<in> set (children s a)"
  shows "get_parent s b = Some a" "b \<noteq> a" "set (children s a) \<inter> set (children s b) = {}"
    "distinct (children s a)" "a \<notin> set (children s a)"
proof -
  note D = linked_butD[OF s[unfolded linked_def]]
  have par: "get_parent s c = Some d" if c: "c \<in> set (children s d)" for c d
  proof -
    obtain x where x: "acts s d = Some x" "c \<in> set (subactivities x)"
      using c by (cases "acts s d") (auto simp: children_def)
    then show ?thesis using D(2)[OF x] by (auto simp: get_parent_def)
  qed
  have self: "c \<noteq> d" if "c \<in> set (children s d)" for c d
    using par[OF that] linked_parent_fine[OF s[unfolded linked_def], of c]
    by (auto simp: parent_fine_def)
  show "get_parent s b = Some a" "b \<noteq> a" using par self b by auto
  show "set (children s a) \<inter> set (children s b) = {}"
  proof (rule equals0I)
    fix c assume "c \<in> set (children s a) \<inter> set (children s b)"
    then show False using par[of c a] par[of c b] self[OF b] by auto
  qed
  show "distinct (children s a)" using s by (rule linked_distinct_children)
  show "a \<notin> set (children s a)" using self by blast
qed

lemma detail_instance:
  assumes s: "linked s" and A: "quiet A" and f: "folded s a"
  shows "\<exists>s'. make_visible (do_it (Suc (Suc (Suc m))) A) VISIBILITY_DECOMPOSED a s = Returns s'
    \<and> shape s' = shape s
    \<and> list_of s' = family_lists s a someDecomposedActivities someActiveInstances
    \<and> lifecycle s' = lifecycle s @ creations s (children s a) @ [Destroy a]
    \<and> set (sel_list s') = set (children s a) \<union> (set (sel_list s) - {a})"
proof -
  note s' = s[unfolded linked_def]
  obtain b0 where b0: "b0 \<in> set (children s a)"
    using f by (cases "children s a") (auto simp: folded_def)
  note fam = linked_children[OF s]
  have a: "list_of s a = Some someActiveInstances" "exclusive s a" "children s a \<noteq> []"
    using f by (auto simp: folded_def)
  let ?final = "final_adjustments (Suc (Suc m)) A (\<not> is_unscheduled s a) True a"
  let ?rec = "do_it (Suc (Suc m)) A"
  let ?t = "handle_instantiation False a (unselect a s)"
  have t: "shape ?t = shape s" "list_of ?t = list_of s" "lifecycle ?t = lifecycle s"
    "sel_list ?t = remove1 a (sel_list s)" by (simp_all add: view_simps)
  have "hidden_child a b ?t \<and> parent_fine ?t b \<and> set (children s a) \<inter> set (children ?t b) = {}"
    if "b \<in> set (children s a)" for b
    using f fam(1,3)[OF that] that linked_parent_fine[OF s']
    unfolding hidden_child_def t(2) by_shape[OF t(1)] parent_fine_shape[OF t(1)] folded_def by auto
  moreover have "list_of ?t a = Some someActiveInstances" "has_decomp_method ?t a \<noteq> Some NONEXCLDECOMP"
    using a exclusive_method unfolding t(2) by_shape[OF t(1)] by auto
  ultimately obtain u where u: "for_each (show_child ?rec) (children s a) ?t = Returns u"
    "moved ?t u (set (children s a)) someActiveInstances (creations ?t (children s a))"
    "set (sel_list u) = set (children s a) \<union> set (sel_list ?t)"
    using show_all_children[OF A fam(4)[OF b0], of a ?t m] fam(5)[OF b0] by blast
  have sh: "shape u = shape s" using u(2) t(1) by (simp add: moved_def)
  let ?u = "insert_act someDecomposedActivities a u"
  have "acts u a \<noteq> None" using by_shape(7)[OF sh, of a] list_of_live[OF a(1)] by simp
  then have v: "shape ?u = shape s"
    "list_of ?u = family_lists s a someDecomposedActivities someActiveInstances"
    "lifecycle ?u = lifecycle s @ creations s (children s a)" "sel_list ?u = sel_list u"
    using u(2) sh t by (auto simp: view_simps moved_def family_lists_def fun_eq_iff creations_def
        by_shape(4)[OF t(1)])
  have "make_visible (do_it (Suc (Suc (Suc m))) A) VISIBILITY_DECOMPOSED a s
      = to_decomposed (Suc (Suc m)) A ?rec VISIBILITY_DECOMPOSED ?final a s"
    using a(1) by (intro make_visible_to(3)[OF linked_parent_fine[OF s'] _ _
        weakly_active_displayed]) (auto simp: view_simps act_instance_state_of_def)
  also have "\<dots> = and_then (show_children ?rec a s) (?final False)"
    using a(2,3) by (auto simp: to_decomposed_def hasType_def exclusive_def children_count_def)
  also have "\<dots> = ?final False ?u"
    using u(1) by (simp add: show_children_def Let_def by_shape(1)[OF view_unselect(1)])
  also have "\<dots> = Returns (act_call (Destroy a) ?u)"
    using weakly_active_detailed[of ?u a "Suc m"] v(2) exclusive_method[OF a(2)] A
      by_shape(3)[OF v(1)]
    by (simp add: final_adjustments_def when_weakly_active_def quiet_runs family_lists_def)
  finally show ?thesis
    using v u(3) t(4) linked_sel[OF s'] by (auto simp: view_simps is_lifecycle_def)
qed

lemma abstract_instance:
  assumes s: "linked s" and A: "quiet A" and f: "unfolded s a" and b: "b \<in> set (children s a)"
  shows "\<exists>s'. make_visible (do_it (Suc (Suc (Suc (Suc m)))) A) VISIBILITY_ABSTRACTED b s = Returns s'
    \<and> shape s' = shape s
    \<and> list_of s' = family_lists s a someActiveInstances someAbstractedActivities
    \<and> lifecycle s' = lifecycle s @ map Destroy (children s a)
        @ (if is_unscheduled s a then [] else [Create a])
    \<and> set (sel_list s') = insert a (set (sel_list s) - set (children s a))"
proof -
  note s' = s[unfolded linked_def]
  note fam = linked_children[OF s]
  have a: "list_of s a = Some someDecomposedActivities" "exclusive s a"
    using f by (auto simp: unfolded_def)
  let ?final = "final_adjustments (Suc (Suc m)) A (\<not> is_unscheduled s a) False a"
  let ?rec = "do_it (Suc (Suc m)) A"
  let ?t = "handle_instantiation True a (insert_act someActiveInstances a s)"
  have t: "shape ?t = shape s" "list_of ?t = (list_of s)(a := Some someActiveInstances)"
    "lifecycle ?t = lifecycle s" "sel_list ?t = sel_list s"
    using list_of_live[OF a(1)] by (simp_all add: view_simps)
  have "shown_child a c ?t \<and> parent_fine ?t c" if "c \<in> set (children s a)" for c
    using f fam(1,2)[OF that] that linked_parent_fine[OF s']
    unfolding shown_child_def t(2) by_shape[OF t(1)] parent_fine_shape[OF t(1)] unfolded_def by auto
  moreover have "list_of ?t a = Some someActiveInstances" "has_decomp_method ?t a \<noteq> Some NONEXCLDECOMP"
    using a exclusive_method unfolding t(2) by_shape[OF t(1)] by auto
  moreover have "distinct (sel_list ?t)" using linked_sel[OF s'] t(4) by simp
  ultimately obtain u where u: "for_each (abstract_child ?rec) (children s a) ?t = Returns u"
    "moved ?t u (set (children s a)) someAbstractedActivities (map Destroy (children s a))"
    "set (sel_list u) = set (sel_list ?t) - set (children s a)"
    using hide_all_children[OF A fam(4)[OF b], of ?t a m] fam(5)[OF b] by blast
  have v: "shape u = shape s"
    "list_of u = family_lists s a someActiveInstances someAbstractedActivities"
    "lifecycle u = lifecycle s @ map Destroy (children s a)"
    using u(2) t fam(5)[OF b] by (auto simp: moved_def family_lists_def fun_eq_iff)
  have "make_visible (do_it (Suc (Suc (Suc m))) A) VISIBILITY_REGULAR a s
      = to_regular (Suc (Suc m)) A ?rec ?final a s"
    using a(1) by (intro make_visible_to(1)[OF linked_parent_fine[OF s'] _ _
        weakly_active_detailed[OF a(1) exclusive_method[OF a(2)]]])
      (auto simp: view_simps act_instance_state_of_def)
  also have "\<dots> = ?final False u"
    using u(1) b by (auto simp: to_regular_def Let_def by_shape[OF t(1)] children_count_def)
  also have "\<dots> = Returns (if is_unscheduled s a then u else act_call (Create a) u)" (is "_ = Returns ?v")
    using weakly_active_displayed[of u a] v(2) A
    by (simp add: final_adjustments_def when_weakly_active_def quiet_runs family_lists_def)
  finally have up: "make_visible (do_it (Suc (Suc (Suc m))) A) VISIBILITY_REGULAR a s = Returns ?v" .
  have lb: "list_of s b = Some someActiveInstances" using f b by (simp add: unfolded_def)
  have "make_visible (do_it (Suc (Suc (Suc (Suc m)))) A) VISIBILITY_ABSTRACTED b s
      = to_abstracted (Suc (Suc (Suc m))) A (do_it (Suc (Suc (Suc m))) A)
          (final_adjustments (Suc (Suc (Suc m))) A (\<not> is_unscheduled s b) True b) b s"
    using lb by (intro make_visible_to(2)[OF linked_parent_fine[OF s'] _ _
        weakly_active_displayed[OF lb]]) (auto simp: view_simps act_instance_state_of_def)
  also have "\<dots> = Returns (select a ?v)"
    using fam(1)[OF b] a(1) up by (simp add: to_abstracted_def view_simps)
  finally show ?thesis
    using v u(3) t(4) by (auto simp: view_simps is_lifecycle_def)
qed

end
