(* ===== verification/ActivityForest.thy ===== *)
theory ActivityForest
  imports ActivityTransitions
begin

text \<open>
  The activity hierarchy as a forest: the recursions of \<open>hierarchy_member\<close> reach every
  descendant, and the accelerator of an instance is the top of its tree.
\<close>

section \<open>Descendants\<close>

definition child_rel :: "act_state \<Rightarrow> (nat \<times> nat) set" where
  "child_rel s = {(a, b). b \<in> set (children s a)}"

definition descendants :: "act_state \<Rightarrow> nat \<Rightarrow> nat set" where
  "descendants s a = {b. (a, b) \<in> (child_rel s)\<^sup>*}"

text \<open>The tree below \<open>a\<close> has fewer than \<open>n\<close> generations below it.\<close>

primrec shallow :: "nat \<Rightarrow> act_state \<Rightarrow> nat \<Rightarrow> bool" where
  "shallow 0 s a = False"
| "shallow (Suc n) s a = (\<forall>b\<in>set (children s a). shallow n s b)"

lemma descendants_self [simp]: "a \<in> descendants s a"
  by (simp add: descendants_def)

lemma descendants_child:
  "b \<in> set (children s a) \<Longrightarrow> c \<in> descendants s b \<Longrightarrow> c \<in> descendants s a"
  by (auto simp: descendants_def child_rel_def intro: converse_rtrancl_into_rtrancl)

lemma descendants_trans: "b \<in> descendants s a \<Longrightarrow> c \<in> descendants s b \<Longrightarrow> c \<in> descendants s a"
  by (simp add: descendants_def)

lemma descendants_unfold:
  "descendants s a = insert a (\<Union>b\<in>set (children s a). descendants s b)"
  by (auto simp: descendants_def child_rel_def elim: converse_rtranclE
    intro: converse_rtrancl_into_rtrancl)

lemma descendants_cong: "children s' = children s \<Longrightarrow> descendants s' = descendants s"
  by (simp add: descendants_def child_rel_def fun_eq_iff)

lemma shallow_cong: "children s' = children s \<Longrightarrow> shallow n s' a = shallow n s a"
  by (induction n arbitrary: a) simp_all

lemma shallow_descend:
  assumes "(a, b) \<in> (child_rel s)\<^sup>+" and "shallow n s a"
  shows "\<exists>m<n. shallow m s b"
  using assms
proof (induction arbitrary: n rule: converse_trancl_induct)
  case (base a)
  then show ?case by (cases n) (auto simp: child_rel_def)
next
  case (step a c)
  then obtain k where "n = Suc k" "shallow k s c" by (cases n) (auto simp: child_rel_def)
  then show ?case using step.IH[of k] less_SucI by blast
qed

lemma shallow_acyclic: "shallow n s a \<Longrightarrow> (a, a) \<notin> (child_rel s)\<^sup>+"
  by (induction n rule: less_induct) (blast dest: shallow_descend)

lemma child_rel_single_valued: "linked s \<Longrightarrow> single_valued ((child_rel s)\<inverse>)"
proof (rule single_valuedI)
  fix c a b assume "linked s" and "(c, a) \<in> (child_rel s)\<inverse>" and "(c, b) \<in> (child_rel s)\<inverse>"
  then show "a = b"
    using linked_children(1)[of s c a] linked_children(1)[of s c b] by (simp add: child_rel_def)
qed

lemma siblings_disjoint:
  assumes s: "linked s" and sh: "shallow n s a"
    and c: "c \<in> set (children s a)" and d: "d \<in> set (children s a)" "c \<noteq> d"
  shows "descendants s c \<inter> descendants s d = {}"
proof (rule equals0I)
  fix x assume "x \<in> descendants s c \<inter> descendants s d"
  then have "(x, c) \<in> ((child_rel s)\<inverse>)\<^sup>*" "(x, d) \<in> ((child_rel s)\<inverse>)\<^sup>*"
    by (simp_all add: descendants_def rtrancl_converse)
  then have "(c, d) \<in> ((child_rel s)\<inverse>)\<^sup>* \<or> (d, c) \<in> ((child_rel s)\<inverse>)\<^sup>*"
    by (rule single_valued_confluent[OF child_rel_single_valued[OF s]])
  moreover have "False" if e: "e \<in> set (children s a)" and "(e, f) \<in> (child_rel s)\<^sup>+"
    and f: "f \<in> set (children s a)" for e f
  proof -
    obtain g where g: "(e, g) \<in> (child_rel s)\<^sup>*" "(g, f) \<in> child_rel s"
      using \<open>(e, f) \<in> (child_rel s)\<^sup>+\<close> by (blast dest: tranclD2)
    have "(a, f) \<in> child_rel s" using f by (simp add: child_rel_def)
    then have "g = a" using g(2) child_rel_single_valued[OF s] by (auto dest: single_valuedD)
    moreover have "(a, e) \<in> child_rel s" using e by (simp add: child_rel_def)
    ultimately have "(a, a) \<in> (child_rel s)\<^sup>+" using g(1) by auto
    then show False using shallow_acyclic[OF sh] by blast
  qed
  ultimately show False
    using c d by (auto simp: rtrancl_converse dest!: rtranclD)
qed

section \<open>The recursions\<close>

text \<open>
  Each of them does one thing to every instance of a set: \<open>change f D\<close> applies \<open>f\<close> to the
  instances of \<open>D\<close>.
\<close>

definition change :: "(activity \<Rightarrow> activity) \<Rightarrow> nat set \<Rightarrow> act_state \<Rightarrow> act_state" where
  "change f D s = s\<lparr>acts := (\<lambda>b. if b \<in> D then map_option f (acts s b) else acts s b)\<rparr>"

definition keeps_family :: "(activity \<Rightarrow> activity) \<Rightarrow> bool" where
  "keeps_family f \<longleftrightarrow> (\<forall>x. superactivities (f x) = superactivities x
     \<and> subactivities (f x) = subactivities x)"

lemma change_children:
  "keeps_family f \<Longrightarrow> children (change f D s) = children s"
  "keeps_family f \<Longrightarrow> get_parent (change f D s) = get_parent s"
  by (auto simp: change_def keeps_family_def children_def get_parent_def fun_eq_iff
    split: option.split)

lemma change_none: "change f {} s = s"
  by (simp add: change_def)

lemma change_change:
  assumes "D \<inter> E = {} \<or> (\<forall>x. f (f x) = f x)"
  shows "change f E (change f D s) = change f (D \<union> E) s"
  using assms
  by (intro act_state.equality ext) (auto simp: change_def option.map_comp comp_def)

lemma with_act_change: "with_act a f s = change f {a} s"
  by (simp add: with_act_def change_def fun_eq_iff)

lemma for_each_change:
  assumes "keeps_family f"
    and "\<And>b t. b \<in> set bs \<Longrightarrow> children t = children s \<Longrightarrow> g b t = Returns (change f (G b) t)"
    and "children t = children s"
    and "(\<forall>x. f (f x) = f x) \<or> (distinct bs \<and> (\<forall>b\<in>set bs. \<forall>c\<in>set bs. b \<noteq> c \<longrightarrow> G b \<inter> G c = {}))"
  shows "for_each g bs t = Returns (change f (\<Union>b\<in>set bs. G b) t)"
  using assms(2-)
proof (induction bs arbitrary: t)
  case Nil
  then show ?case by (simp add: change_none)
next
  case (Cons b bs)
  have "children (change f (G b) t) = children s"
    using Cons.prems(2) change_children(1)[OF assms(1)] by simp
  then have "for_each g bs (change f (G b) t)
      = Returns (change f (\<Union>c\<in>set bs. G c) (change f (G b) t))"
  proof (intro Cons.IH)
    show "(\<forall>x. f (f x) = f x)
        \<or> (distinct bs \<and> (\<forall>b\<in>set bs. \<forall>c\<in>set bs. b \<noteq> c \<longrightarrow> G b \<inter> G c = {}))"
      using Cons.prems(3) by (meson distinct.simps(2) list.set_intros(2))
  qed (use Cons.prems(1) in auto)
  moreover have "G b \<inter> (\<Union>c\<in>set bs. G c) = {} \<or> (\<forall>x. f (f x) = f x)"
    using Cons.prems(3) by fastforce
  ultimately show ?case
    using Cons.prems(1)[of b t] Cons.prems(2) by (simp add: change_change)
qed

definition set_accelerator :: "nat option \<Rightarrow> activity \<Rightarrow> activity" where
  "set_accelerator r x = x\<lparr>up_accelerator := r\<rparr>"

lemma set_accelerator_simps [simp]:
  "keeps_family (set_accelerator r)" "set_accelerator r (set_accelerator r x) = set_accelerator r x"
  by (simp_all add: keeps_family_def set_accelerator_def)

lemma update_up_accelerator_returns:
  "shallow n s a \<Longrightarrow> update_up_accelerator n r False a s
     = Returns (change (set_accelerator r) (descendants s a) s)"
proof (induction n arbitrary: a s)
  case (Suc n)
  let ?t = "change (set_accelerator r) {a} s"
  have "for_each (update_up_accelerator n r False) (children s a) ?t
      = Returns (change (set_accelerator r) (\<Union>b\<in>set (children s a). descendants s b) ?t)"
  proof (rule for_each_change[where s = s])
    fix b t assume "b \<in> set (children s a)" and t: "children t = children s"
    then have "shallow n t b" using Suc.prems shallow_cong[OF t] by simp
    from Suc.IH[OF this] show "update_up_accelerator n r False b t
        = Returns (change (set_accelerator r) (descendants s b) t)"
      by (simp add: descendants_cong[OF t])
  qed (simp_all add: change_children)
  moreover have "change (set_accelerator r) (\<Union>b\<in>set (children s a). descendants s b) ?t
      = change (set_accelerator r) (descendants s a) s"
    by (simp add: change_change descendants_unfold[of s a])
  moreover have "with_act a (\<lambda>x. x\<lparr>up_accelerator := r\<rparr>) s = ?t"
    by (simp add: with_act_change set_accelerator_def[abs_def])
  ultimately show ?case by simp
qed simp

text \<open>The start times.\<close>

definition later_by :: "int \<Rightarrow> activity \<Rightarrow> activity" where
  "later_by delta x = x\<lparr>act_start := act_start x + delta, act_finish := act_start x + delta + act_span x\<rparr>"

lemma later_by_keeps [simp]: "keeps_family (later_by delta)"
  by (simp add: keeps_family_def later_by_def)

lemma shift_start_change: "delta \<noteq> 0 \<Longrightarrow> shift_start delta a s = change (later_by delta) {a} s"
  by (auto simp: shift_start_def setetime_def with_act_change change_def later_by_def fun_eq_iff
    split: option.split)

lemma move_all_descendants_by_returns:
  assumes "delta \<noteq> 0" and "linked s"
  shows "shallow n s a \<Longrightarrow> children t = children s \<Longrightarrow> move_all_descendants_by n delta a t
     = Returns (change (later_by delta) (descendants s a - {a}) t)"
proof (induction n arbitrary: a t)
  case (Suc n)
  let ?f = "later_by delta"
  have step: "move_all_descendants_by n delta b (shift_start delta b t)
      = Returns (change ?f (descendants s b) t)"
    if b: "b \<in> set (children s a)" and t: "children t = children s" for b t
  proof -
    have "shallow n s b" using Suc.prems(1) b by simp
    then have "move_all_descendants_by n delta b (shift_start delta b t)
        = Returns (change ?f (descendants s b - {b}) (change ?f {b} t))"
      using t by (simp add: shift_start_change[OF assms(1)] Suc.IH change_children)
    also have "change ?f (descendants s b - {b}) (change ?f {b} t)
        = change ?f ({b} \<union> (descendants s b - {b})) t"
      by (rule change_change) simp
    finally show ?thesis by (simp add: insert_absorb)
  qed
  have "for_each (\<lambda>c s. move_all_descendants_by n delta c (shift_start delta c s)) (children s a) t
      = Returns (change ?f (\<Union>b\<in>set (children s a). descendants s b) t)"
  proof (rule for_each_change[where s = s])
    have "distinct (children s a)"
      by (rule linked_distinct_children[OF assms(2)])
    then show "(\<forall>x. ?f (?f x) = ?f x) \<or> (distinct (children s a) \<and> (\<forall>b\<in>set (children s a).
        \<forall>c\<in>set (children s a). b \<noteq> c \<longrightarrow> descendants s b \<inter> descendants s c = {}))"
      using siblings_disjoint[OF assms(2) Suc.prems(1)] by blast
  qed (use step Suc.prems(2) in simp_all)
  moreover have "(\<Union>b\<in>set (children s a). descendants s b) = descendants s a - {a}"
  proof -
    have "a \<notin> descendants s b" if "b \<in> set (children s a)" for b
      using that shallow_acyclic[OF Suc.prems(1)] rtrancl_into_trancl2[of a b]
      by (auto simp: descendants_def child_rel_def)
    then show ?thesis using descendants_unfold[of s a] by blast
  qed
  ultimately show ?case using Suc.prems(2) by simp
qed simp

text \<open>The selection of a tree.\<close>

lemma acts_select [simp]: "acts (select a s) = acts s"
  by (simp add: select_def handle_selection_def act_call_def)

lemma children_acts: "acts s' = acts s \<Longrightarrow> children s' = children s"
  by (simp add: children_def fun_eq_iff)

lemma update_up_accelerator_selects:
  "shallow n s a \<Longrightarrow> acts t = acts s \<Longrightarrow> \<exists>t'. update_up_accelerator n r True a t = Returns t'
     \<and> acts t' = acts s \<and> set (sel_list t') = set (sel_list t) \<union> descendants s a"
proof (induction n arbitrary: a t)
  case (Suc n)
  have loop: "\<exists>u'. for_each (update_up_accelerator n r True) bs u = Returns u' \<and> acts u' = acts s
      \<and> set (sel_list u') = set (sel_list u) \<union> (\<Union>b\<in>set bs. descendants s b)"
    if "set bs \<subseteq> set (children s a)" and "acts u = acts s" for bs u
    using that
  proof (induction bs arbitrary: u)
    case (Cons b bs)
    have "shallow n s b" using Cons.prems(1) Suc.prems(1) by auto
    from Suc.IH[OF this Cons.prems(2)] obtain v where v: "update_up_accelerator n r True b u = Returns v"
      "acts v = acts s" "set (sel_list v) = set (sel_list u) \<union> descendants s b" by blast
    have "set bs \<subseteq> set (children s a)" using Cons.prems(1) by simp
    from Cons.IH[OF this v(2)] v show ?case by (auto simp: Un_assoc)
  qed simp
  have "acts (select a t) = acts s" using Suc.prems(2) by simp
  from loop[OF subset_refl this] obtain u where u: "for_each (update_up_accelerator n r True)
      (children s a) (select a t) = Returns u" "acts u = acts s"
    "set (sel_list u) = insert a (set (sel_list t)) \<union> (\<Union>b\<in>set (children s a). descendants s b)"
    by (auto simp: view_select)
  have "update_up_accelerator (Suc n) r True a t = Returns u"
    using u(1) children_acts[OF Suc.prems(2)] by simp
  moreover have "set (sel_list u) = set (sel_list t) \<union> descendants s a"
    unfolding u(3) descendants_unfold[of s a] by blast
  ultimately show ?case using u(2) by blast
qed simp

section \<open>The accelerators\<close>

text \<open>The accelerator of an instance is the instance without a parent from which it descends.\<close>

definition tops :: "act_state \<Rightarrow> bool" where
  "tops s \<longleftrightarrow> (\<forall>a x. acts s a = Some x \<longrightarrow>
     (\<exists>r. up_accelerator x = Some r \<and> a \<in> descendants s r \<and> get_parent s r = None))"

definition accelerator :: "act_state \<Rightarrow> nat \<Rightarrow> nat option" where
  "accelerator s a = (case acts s a of None \<Rightarrow> None | Some x \<Rightarrow> up_accelerator x)"

lemma tops_iff: "tops s \<longleftrightarrow> (\<forall>a. acts s a \<noteq> None \<longrightarrow>
     (\<exists>r. accelerator s a = Some r \<and> a \<in> descendants s r \<and> get_parent s r = None))"
  by (auto simp: tops_def accelerator_def)

lemma accelerator_change: "acts s a \<noteq> None \<Longrightarrow> accelerator (change (set_accelerator r) D s) a
    = (if a \<in> D then r else accelerator s a)"
  by (auto simp: accelerator_def change_def set_accelerator_def)

lemma live_change: "acts (change f D s) a = None \<longleftrightarrow> acts s a = None"
  by (simp add: change_def)

text \<open>A path that does not come through \<open>c\<close> stays when the link from \<open>p\<close> to \<open>c\<close> comes or goes.\<close>

lemma descendants_other:
  assumes "b \<in> descendants s r" and "b \<notin> descendants s c"
    and "\<And>q d. d \<in> set (children s q) \<Longrightarrow> d \<noteq> c \<Longrightarrow> d \<in> set (children s' q)"
  shows "b \<in> descendants s' r"
  using assms(1,2) unfolding descendants_def mem_Collect_eq
proof (induction rule: converse_rtrancl_induct)
  case (step q d)
  have "d \<noteq> c" using step.hyps(2) step.prems by auto
  then have "d \<in> set (children s' q)" using assms(3) step.hyps(1) by (simp add: child_rel_def)
  then show ?case
    using step.IH[OF step.prems] by (auto simp: child_rel_def intro: converse_rtrancl_into_rtrancl)
qed simp

lemma descendants_inside:
  assumes "b \<in> descendants s c" and "\<And>q. q \<in> descendants s c \<Longrightarrow> set (children s q) \<subseteq> set (children s' q)"
  shows "b \<in> descendants s' c"
  using assms(1) unfolding descendants_def mem_Collect_eq
proof (induction rule: rtrancl_induct)
  case (step q d)
  then have "d \<in> set (children s' q)"
    using assms(2)[of q] by (auto simp: descendants_def child_rel_def)
  then show ?case using step.IH by (auto simp: child_rel_def intro: rtrancl_into_rtrancl)
qed simp

lemma attach_to_parent_returns:
  assumes s: "linked s" and t: "tops s" and x: "acts s c = Some x" and y: "acts s p = Some y"
    and orphan: "superactivities x = []" and no_cycle: "p \<notin> descendants s c"
    and sh: "shallow n s c"
  shows "\<exists>s'. attach_to_parent n c p s = Returns s'
    \<and> children s' = (children s)(p := children s p @ [c])
    \<and> get_parent s' = (get_parent s)(c := Some p) \<and> tops s'"
proof -
  note D = linked_butD[OF s[unfolded linked_def]]
  have ne: "p \<noteq> c" using no_cycle by auto
  have "c \<notin> set (subactivities y)" using D(2)[OF y, of c] x orphan by auto
  let ?t = "with_act p (\<lambda>y. y\<lparr>subactivities := subactivities y @ [c]\<rparr>)
    (with_act c (\<lambda>x. x\<lparr>superactivities := superactivities x @ [p], parent_attribute := Some p\<rparr>) s)"
  have ch: "children ?t = (children s)(p := children s p @ [c])"
    "get_parent ?t = (get_parent s)(c := Some p)"
    "accelerator ?t = accelerator s" "\<And>a. acts ?t a = None \<longleftrightarrow> acts s a = None"
    using x y ne orphan
    by (auto simp: children_def get_parent_def accelerator_def with_act_acts fun_eq_iff
      split: option.split)
  have inside: "descendants ?t c = descendants s c"
  proof (intro set_eqI iffI)
    fix b assume "b \<in> descendants s c"
    then show "b \<in> descendants ?t c" by (rule descendants_inside) (auto simp: ch(1))
  next
    fix b assume "b \<in> descendants ?t c"
    then show "b \<in> descendants s c"
      unfolding descendants_def mem_Collect_eq
    proof (induction rule: rtrancl_induct)
      case (step q d)
      then have "q \<noteq> p" using no_cycle by (auto simp: descendants_def)
      then show ?case using step ch(1) by (auto simp: child_rel_def intro: rtrancl_into_rtrancl)
    qed simp
  qed
  have "shallow m s b \<Longrightarrow> b \<in> descendants s c \<Longrightarrow> shallow m ?t b" for m b
  proof (induction m arbitrary: b)
    case (Suc m)
    have "b \<noteq> p" using Suc.prems(2) no_cycle by auto
    then have "children ?t b = children s b" using ch(1) by simp
    moreover have "d \<in> descendants s c" if "d \<in> set (children s b)" for d
      by (rule descendants_trans[OF Suc.prems(2) descendants_child[OF that descendants_self]])
    ultimately show ?case using Suc by simp
  qed simp
  then have "shallow n ?t c" using sh by simp
  let ?s = "change (set_accelerator (up_accelerator y)) (descendants s c) ?t"
  have at: "attach_to_parent n c p s = Returns ?s"
    using update_up_accelerator_returns[OF \<open>shallow n ?t c\<close>, of "up_accelerator y"]
      x y orphan ne \<open>c \<notin> set (subactivities y)\<close>
    by (simp add: attach_to_parent_def inside)
  obtain r where r: "accelerator s p = Some r" "p \<in> descendants s r" "get_parent s r = None"
    using t y unfolding tops_iff by auto
  have acc_y: "up_accelerator y = Some r" using r(1) y by (simp add: accelerator_def)
  have rc: "r \<noteq> c" using r(2) no_cycle by auto
  have up: "b \<in> descendants ?t q" if "b \<in> descendants s q" "b \<notin> descendants s c" for b q
    by (rule descendants_other[OF that]) (auto simp: ch(1))
  have "tops ?s" unfolding tops_iff
  proof (intro allI impI)
    fix b assume "acts ?s b \<noteq> None"
    then have live: "acts ?t b \<noteq> None" "acts s b \<noteq> None" using ch(4) by (auto simp: live_change)
    have views: "accelerator ?s b = (if b \<in> descendants s c then Some r else accelerator s b)"
      "get_parent ?s = (get_parent s)(c := Some p)" "descendants ?s = descendants ?t"
      by (simp_all only: accelerator_change[OF live(1)] ch(2,3) acc_y
        change_children[OF set_accelerator_simps(1)]
        descendants_cong[OF change_children(1)[OF set_accelerator_simps(1)]])
    show "\<exists>q. accelerator ?s b = Some q \<and> b \<in> descendants ?s q \<and> get_parent ?s q = None"
    proof (cases "b \<in> descendants s c")
      case True
      have "p \<in> descendants ?t r" using up[OF r(2) no_cycle] .
      moreover have "c \<in> set (children ?t p)" by (simp add: ch(1))
      ultimately have "b \<in> descendants ?t r"
        using descendants_trans[of p ?t r b] descendants_child[of c ?t p b] True inside by blast
      moreover have "((get_parent s)(c := Some p)) r = None" using r(3) rc by simp
      ultimately show ?thesis using True unfolding views by (intro exI[of _ r]) simp
    next
      case False
      obtain q where q: "accelerator s b = Some q" "b \<in> descendants s q" "get_parent s q = None"
        using t live(2) unfolding tops_iff by auto
      then have "q \<noteq> c" "b \<in> descendants ?t q" using False up by auto
      moreover have "((get_parent s)(c := Some p)) q = None" if "q \<noteq> c" using q(3) that by simp
      ultimately show ?thesis using False q(1) unfolding views by (intro exI[of _ q]) simp
    qed
  qed
  moreover have "children ?s = children ?t" "get_parent ?s = get_parent ?t"
    by (simp_all add: change_children)
  ultimately show ?thesis using at ch(1,2) by auto
qed

lemma shallow_mono:
  assumes "\<And>q. set (children s' q) \<subseteq> set (children s q)"
  shows "shallow n s a \<Longrightarrow> shallow n s' a"
proof (induction n arbitrary: a)
  case (Suc n)
  then show ?case using assms by auto
qed simp

lemma sever_from_parent_returns:
  assumes s: "linked s" and t: "tops s" and par: "get_parent s a = Some p"
    and siblings: "is_decomposed s p \<longrightarrow> children s p \<noteq> [a]" and sh: "shallow n s a"
  shows "\<exists>s'. sever_from_parent n rec a s = Returns s'
    \<and> children s' = (children s)(p := removeAll a (children s p))
    \<and> get_parent s' = (get_parent s)(a := None) \<and> tops s'"
proof -
  note D = linked_butD[OF s[unfolded linked_def]]
  obtain x where x: "acts s a = Some x" "superactivities x = [p]"
    using par D(1) by (cases "acts s a")
      (fastforce simp: get_parent_def hd_opt_def split: list.splits)+
  obtain y where y: "acts s p = Some y" "a \<in> set (subactivities y)" using D(3)[OF x] by auto
  have ne: "p \<noteq> a" using D(1)[OF x(1)] x(2) by auto
  have "(p, a) \<in> child_rel s" using y by (simp add: child_rel_def children_def)
  then have no_cycle: "p \<notin> descendants s a"
    using shallow_acyclic[OF sh] by (auto simp: descendants_def dest: rtrancl_into_trancl1)
  let ?u = "with_act p (\<lambda>x. x\<lparr>subactivities := removeAll a (subactivities x)\<rparr>) s"
  let ?t = "with_act a (\<lambda>x. x\<lparr>superactivities := [], parent_attribute := None\<rparr>) ?u"
  have u: "children ?u = (children s)(p := removeAll a (children s p))"
    "is_decomposed ?u p = is_decomposed s p"
    using y by (auto simp: children_def with_act_acts fun_eq_iff is_decomposed_def is_in_list_def
      split: option.split)
  have ch: "children ?t = (children s)(p := removeAll a (children s p))"
    "get_parent ?t = (get_parent s)(a := None)"
    "accelerator ?t = accelerator s" "\<And>b. acts ?t b = None \<longleftrightarrow> acts s b = None"
    using x y ne
    by (auto simp: children_def get_parent_def accelerator_def with_act_acts fun_eq_iff
      split: option.split)
  have sub: "set (children ?t q) \<subseteq> set (children s q)" for q by (auto simp: ch(1))
  have inside: "descendants ?t a = descendants s a"
  proof (intro set_eqI iffI)
    fix b assume "b \<in> descendants s a"
    then show "b \<in> descendants ?t a"
      by (rule descendants_inside) (use no_cycle ch(1) in auto)
  next
    fix b assume "b \<in> descendants ?t a"
    then show "b \<in> descendants s a" by (rule descendants_inside) (rule sub)
  qed
  have "removeAll a (children s p) \<noteq> []" if "is_decomposed s p"
  proof
    assume "removeAll a (children s p) = []"
    then have "set (children s p) \<subseteq> {a}" by (auto simp: removeAll_filter_not_eq filter_empty_conv)
    then have "children s p = [a]"
      using linked_distinct_children[OF s, of p] y
      by (cases "children s p") (auto simp: children_def dest: subset_singletonD)
    then show False using siblings that by simp
  qed
  then have skip: "\<not> (is_decomposed ?u p \<and> children ?u p = [])" using u by auto
  let ?s = "change (set_accelerator (Some a)) (descendants s a) ?t"
  have sev: "sever_from_parent n rec a s = Returns ?s"
    unfolding sever_from_parent_def par option.case Let_def if_not_P[OF skip]
    using update_up_accelerator_returns[OF shallow_mono[OF sub sh], of "Some a"] y
    by (simp add: children_def[of s] inside)
  have "tops ?s" unfolding tops_iff
  proof (intro allI impI)
    fix b assume "acts ?s b \<noteq> None"
    then have live: "acts ?t b \<noteq> None" "acts s b \<noteq> None" using ch(4) by (auto simp: live_change)
    have views: "accelerator ?s b = (if b \<in> descendants s a then Some a else accelerator s b)"
      "get_parent ?s = (get_parent s)(a := None)" "descendants ?s = descendants ?t"
      by (simp_all only: accelerator_change[OF live(1)] ch(2,3)
        change_children[OF set_accelerator_simps(1)]
        descendants_cong[OF change_children(1)[OF set_accelerator_simps(1)]])
    show "\<exists>q. accelerator ?s b = Some q \<and> b \<in> descendants ?s q \<and> get_parent ?s q = None"
    proof (cases "b \<in> descendants s a")
      case True
      then show ?thesis using inside unfolding views by (intro exI[of _ a]) simp
    next
      case False
      obtain q where q: "accelerator s b = Some q" "b \<in> descendants s q" "get_parent s q = None"
        using t live(2) unfolding tops_iff by auto
      have "b \<in> descendants ?t q"
        by (rule descendants_other[OF q(2) False]) (auto simp: ch(1))
      then show ?thesis using False q(1,3) unfolding views by (intro exI[of _ q]) simp
    qed
  qed
  moreover have "children ?s = children ?t" "get_parent ?s = get_parent ?t"
    by (simp_all add: change_children)
  ultimately show ?thesis using sev ch(1,2) by auto
qed

section \<open>Pointers to all descendants\<close>

lemma pointers_to_descendants:
  "shallow n s a \<Longrightarrow> \<exists>l'. recursively_get_ptrs_to_all_descendants n s a l = Some l'
     \<and> set l' = set l \<union> (\<Union>b\<in>set (children s a). descendants s b) \<and> (distinct l \<longrightarrow> distinct l')"
proof (induction n arbitrary: a l)
  case (Suc n)
  let ?g = "\<lambda>b acc. case acc of None \<Rightarrow> None | Some l \<Rightarrow>
    recursively_get_ptrs_to_all_descendants n s b (if b \<in> set l then l else l @ [b])"
  have "\<exists>l'. fold ?g bs (Some l) = Some l'
      \<and> set l' = set l \<union> (\<Union>b\<in>set bs. descendants s b) \<and> (distinct l \<longrightarrow> distinct l')"
    if "set bs \<subseteq> set (children s a)" for bs l
    using that
  proof (induction bs arbitrary: l)
    case (Cons b bs)
    let ?l = "if b \<in> set l then l else l @ [b]"
    have "shallow n s b" using Cons.prems Suc.prems by auto
    from Suc.IH[OF this, of ?l] obtain k where
      k: "recursively_get_ptrs_to_all_descendants n s b ?l = Some k"
      "set k = set ?l \<union> (\<Union>c\<in>set (children s b). descendants s c)" "distinct ?l \<longrightarrow> distinct k"
      by blast
    have "set k = set l \<union> descendants s b"
      unfolding k(2) descendants_unfold[of s b] by auto
    moreover have "set bs \<subseteq> set (children s a)" using Cons.prems by simp
    ultimately show ?case using Cons.IH[of k] k(1,3) by (auto simp: Un_assoc split: if_splits)
  qed simp
  from this[OF subset_refl] show ?case by simp
qed simp

section \<open>Copies\<close>

text \<open>
  \<open>copied s t\<close>: from \<open>s\<close> to \<open>t\<close> only new instances came, and each lies on the clipboard without
  a parent and without children.
\<close>

definition copied :: "act_state \<Rightarrow> act_state \<Rightarrow> bool" where
  "copied s t \<longleftrightarrow> next_act s \<le> next_act t \<and> (\<forall>b<next_act s. acts t b = acts s b)
     \<and> (\<forall>b. next_act s \<le> b \<and> b < next_act t \<longrightarrow> (\<exists>y. acts t b = Some y
          \<and> superactivities y = [] \<and> subactivities y = []
          \<and> in_act_list y = Some somePendingActivities))
     \<and> (\<forall>b\<ge>next_act t. acts t b = None)"

lemma copied_trans: "copied s t \<Longrightarrow> copied t u \<Longrightarrow> copied s u"
  unfolding copied_def
proof (elim conjE, intro conjI allI impI)
  fix b assume le: "next_act s \<le> next_act t" "next_act t \<le> next_act u"
    and st: "\<forall>b<next_act s. acts t b = acts s b" and tu: "\<forall>b<next_act t. acts u b = acts t b"
    and s: "\<forall>b. next_act s \<le> b \<and> b < next_act t \<longrightarrow> (\<exists>y. acts t b = Some y \<and> superactivities y = []
      \<and> subactivities y = [] \<and> in_act_list y = Some somePendingActivities)"
    and t: "\<forall>b. next_act t \<le> b \<and> b < next_act u \<longrightarrow> (\<exists>y. acts u b = Some y \<and> superactivities y = []
      \<and> subactivities y = [] \<and> in_act_list y = Some somePendingActivities)"
  show "acts u b = acts s b" if "b < next_act s" using that st tu le by simp
  show "\<exists>y. acts u b = Some y \<and> superactivities y = [] \<and> subactivities y = []
      \<and> in_act_list y = Some somePendingActivities" if "next_act s \<le> b \<and> b < next_act u"
    using that s t tu by (cases "b < next_act t") auto
qed auto

text \<open>The run of \<open>do_it\<close> that is to give the copy a child: it finds a brand new instance.\<close>

lemma do_it_brand_new:
  assumes "quiet A" and "acts t c = Some y" and "in_act_list y = Some someBrandNewActivities"
    and "subactivities y = []" and "decompose_task y \<noteq> Some NONEXCLDECOMP"
    and "is_brand_new s c"
  shows "do_it (Suc n) A (set_desired_child_to b (instance_state_changer s c)) t
    = Returns (act_call (Create c) t)"
proof -
  have "list_of s c = Some someBrandNewActivities" using assms(6) by (simp add: view_simps)
  then have "invisibility (act_instance_state_of s c) = VISIBILITY_BRAND_NEW"
    by (simp add: act_instance_state_of_def view_simps)
  moreover have "is_brand_new t c" using assms(2,3) by (simp add: is_brand_new_def is_in_list_def)
  ultimately have "instantiate_new_act (set_desired_child_to b (instance_state_changer s c)) t
      = Returns t"
    by (simp add: instantiate_new_act_def set_desired_child_to_def instance_state_changer_def)
  moreover have "create_missing_nonexcl_children n A rec c t = Returns (act_call (Create c) t)" for rec
    using assms(1,2,4,5) by (simp add: create_missing_nonexcl_children_def has_decomp_method_def
      quiet_runs)
  ultimately show ?thesis
    using \<open>is_brand_new t c\<close>
    by (simp add: do_it.simps(2) do_it_body_def set_desired_child_to_def instance_state_changer_def)
qed

text \<open>
  While the children are copied, the copy \<open>c\<close> of the parent is a brand new instance without
  links; \<open>copied\<close> is about the others.
\<close>

definition copying :: "nat \<Rightarrow> activity \<Rightarrow> act_state \<Rightarrow> act_state \<Rightarrow> bool" where
  "copying c y s t \<longleftrightarrow> next_act s = c \<and> acts t c = Some y \<and> c < next_act t
     \<and> (\<forall>b<c. acts t b = acts s b)
     \<and> (\<forall>b. c < b \<and> b < next_act t \<longrightarrow> (\<exists>y. acts t b = Some y
          \<and> superactivities y = [] \<and> subactivities y = []
          \<and> in_act_list y = Some somePendingActivities))
     \<and> (\<forall>b\<ge>next_act t. acts t b = None)"

lemma copying_copied: "copying c y s t \<Longrightarrow> copied t u \<Longrightarrow> copying c y s u"
  unfolding copying_def copied_def
proof (elim conjE, intro conjI allI impI)
  fix b assume le: "next_act t \<le> next_act u" "c < next_act t"
    and st: "\<forall>b<c. acts t b = acts s b" and tu: "\<forall>b<next_act t. acts u b = acts t b"
    and s: "\<forall>b. c < b \<and> b < next_act t \<longrightarrow> (\<exists>y. acts t b = Some y \<and> superactivities y = []
      \<and> subactivities y = [] \<and> in_act_list y = Some somePendingActivities)"
    and t: "\<forall>b. next_act t \<le> b \<and> b < next_act u \<longrightarrow> (\<exists>y. acts u b = Some y \<and> superactivities y = []
      \<and> subactivities y = [] \<and> in_act_list y = Some somePendingActivities)"
  show "acts u b = acts s b" if "b < c" using that st tu le by simp
  show "\<exists>y. acts u b = Some y \<and> superactivities y = [] \<and> subactivities y = []
      \<and> in_act_list y = Some somePendingActivities" if "c < b \<and> b < next_act u"
    using that s t tu by (cases "b < next_act t") auto
qed auto

lemma copying_call: "copying c y s (act_call x t) = copying c y s t"
  by (simp add: copying_def act_call_def)

lemma put_a_copy_returns:
  assumes A: "quiet A" and live: "\<And>b x k. acts s b = Some x \<Longrightarrow> k \<in> set (subactivities x) \<Longrightarrow> acts s k \<noteq> None"
    and old: "\<And>b. acts s b \<noteq> None \<Longrightarrow> b < N"
  shows "shallow n s a \<Longrightarrow> acts s a \<noteq> None
    \<Longrightarrow> (\<And>b. b \<in> descendants s a \<Longrightarrow> has_decomp_method s b \<noteq> Some NONEXCLDECOMP)
    \<Longrightarrow> (\<And>b. b < N \<Longrightarrow> acts t b = acts s b) \<Longrightarrow> N \<le> next_act t \<Longrightarrow> (\<And>b. next_act t \<le> b \<Longrightarrow> acts t b = None)
    \<Longrightarrow> \<exists>u. put_a_copy_of_me_into_clipboard n A a t = Returns u \<and> copied t u \<and> next_act t < next_act u"
proof (induction n arbitrary: a t)
  case (Suc n)
  obtain x where x: "acts s a = Some x" using Suc.prems(2) by auto
  then have xt: "acts t a = Some x" using old Suc.prems(4)[of a] by simp
  let ?c = "next_act t"
  let ?t = "set_scheduled False ?c (construct_instance (copied_instance x) t)"
  obtain y where y: "copying ?c y t ?t" "in_act_list y = Some someBrandNewActivities"
    "superactivities y = []" "subactivities y = []" "decompose_task y = decompose_task x"
    using Suc.prems(6)
    by (auto simp: copying_def construct_instance_def move_to_brand_new_list_def is_brand_new_def
      is_in_list_def insert_act_def with_act_def set_scheduled_def copied_instance_def)
  have mt: "decompose_task y \<noteq> Some NONEXCLDECOMP"
    using Suc.prems(3)[of a] x y(5) by (simp add: has_decomp_method_def)
  have "a < ?c" using old Suc.prems(5) x by fastforce
  have loop: "\<exists>v. for_each (\<lambda>k s. let b = next_act s; isc = instance_state_changer s ?c in
        and_then (put_a_copy_of_me_into_clipboard n A k s)
          (\<lambda>s. do_it n A (set_desired_child_to b isc) s)) ks u = Returns v \<and> copying ?c y t v"
    if "set ks \<subseteq> set (subactivities x)" and "copying ?c y t u" for ks u
    using that
  proof (induction ks arbitrary: u)
    case (Cons k ks)
    have k: "k \<in> set (children s a)" using Cons.prems(1) x by (simp add: children_def)
    then obtain m where n: "n = Suc m" and "shallow n s k"
      using Suc.prems(1) by (cases n) auto
    moreover have "acts s k \<noteq> None" using live[OF x] Cons.prems(1) by auto
    moreover have "has_decomp_method s b \<noteq> Some NONEXCLDECOMP" if "b \<in> descendants s k" for b
      using Suc.prems(3)[OF descendants_child[OF k that]] .
    moreover have "acts u b = acts s b" if "b < N" for b
      using Cons.prems(2) Suc.prems(4)[OF that] Suc.prems(5) that by (simp add: copying_def)
    moreover have "N \<le> next_act u" "\<And>b. next_act u \<le> b \<Longrightarrow> acts u b = None"
      using Cons.prems(2) Suc.prems(5) by (auto simp: copying_def)
    ultimately obtain v where v: "put_a_copy_of_me_into_clipboard n A k u = Returns v" "copied u v"
      using Suc.IH[of k u] by blast
    have cv: "copying ?c y t v" using copying_copied[OF Cons.prems(2) v(2)] .
    have "is_brand_new u ?c"
      using Cons.prems(2) y(2) by (simp add: copying_def is_brand_new_def is_in_list_def)
    then have "do_it n A (set_desired_child_to (next_act u) (instance_state_changer u ?c)) v
        = Returns (act_call (Create ?c) v)"
      unfolding n using cv y(2,4) mt by (intro do_it_brand_new[OF A]) (auto simp: copying_def)
    then show ?case
      using Cons.IH[of "act_call (Create ?c) v"] Cons.prems(1) v(1) cv
      by (simp add: Let_def copying_call)
  qed simp
  obtain v where v: "put_a_copy_of_me_into_clipboard (Suc n) A a t
      = Returns (insert_act somePendingActivities ?c v)" "copying ?c y t v"
    using loop[OF subset_refl y(1)] xt by (auto simp: Let_def)
  have "copied t (insert_act somePendingActivities ?c v)"
    unfolding copied_def
  proof (intro conjI allI impI)
    fix b assume "?c \<le> b \<and> b < next_act (insert_act somePendingActivities ?c v)"
    then show "\<exists>z. acts (insert_act somePendingActivities ?c v) b = Some z \<and> superactivities z = []
        \<and> subactivities z = [] \<and> in_act_list z = Some somePendingActivities"
      using v(2) y(3,4) by (cases "b = ?c") (auto simp: copying_def insert_act_def with_act_def)
  qed (use v(2) in \<open>auto simp: copying_def insert_act_def with_act_def\<close>)
  moreover have "next_act t < next_act (insert_act somePendingActivities ?c v)"
    using v(2) by (simp add: copying_def insert_act_def)
  ultimately show ?case using v(1) by blast
qed simp

end
