(* ===== verification/ActivityProperties.thy ===== *)
theory ActivityProperties
  imports ActivityForest
begin

text \<open>
  The properties of the activity hierarchy: the invariant of \<open>do_it\<close>, the transitions between
  the displayed, the decomposed and the abstracted state, the accelerators, the refused
  requests, and what goes wrong with copies and with groups.
\<close>

section \<open>A plan to apply them to\<close>

text \<open>
  Instance 10 decomposes exclusively into 11 and 12, which are abstracted; 13 is an instance of
  its own whose type has no decomposition section.
\<close>

definition demo_act ::
  "nat list \<Rightarrow> nat list \<Rightarrow> nat \<Rightarrow> act_list \<Rightarrow> method_type option \<Rightarrow> activity"
where
  "demo_act up down r l mt = \<lparr>superactivities = up, subactivities = down,
     up_accelerator = Some r, parent_attribute = hd_opt up, in_act_list = Some l,
     scheduled = True, EpochIfApplicable = '''', act_start = 100, act_span = 10, act_finish = 110,
     decompose_task = mt, has_derived_data = True\<rparr>"

definition demo_plan :: act_state where
  "demo_plan = \<lparr>acts = [10 \<mapsto> demo_act [] [11, 12] 10 someActiveInstances (Some DECOMPOSITION),
     11 \<mapsto> demo_act [10] [] 10 someAbstractedActivities None,
     12 \<mapsto> demo_act [10] [] 10 someAbstractedActivities None,
     13 \<mapsto> demo_act [] [] 13 someActiveInstances None],
   sel_list = [10], act_calls = [], next_act = 14\<rparr>"

definition demo_adaptation :: adaptation where
  "demo_adaptation = \<lparr>creation_program = (\<lambda>_ _. None), destruction_program = (\<lambda>_ _. None),
     decomposition_program = (\<lambda>_ _. []), in_modeling_pass = False\<rparr>"

lemma demo_linked: "linked demo_plan"
  by (auto simp: linked_def linked_but_def demo_plan_def demo_act_def split: if_splits)

lemma demo_quiet: "quiet demo_adaptation"
  by (simp add: quiet_def demo_adaptation_def)

lemma demo_children: "children demo_plan a = (if a = 10 then [11, 12] else [])"
  by (simp add: children_def demo_plan_def demo_act_def)

lemma demo_parent: "get_parent demo_plan a = (if a = 11 \<or> a = 12 then Some 10 else None)"
  by (simp add: get_parent_def demo_plan_def demo_act_def)

lemma demo_lists: "list_of demo_plan 10 = Some someActiveInstances"
  "list_of demo_plan 11 = Some someAbstractedActivities"
  "list_of demo_plan 12 = Some someAbstractedActivities"
  "list_of demo_plan 13 = Some someActiveInstances"
  by (simp_all add: list_of_def demo_plan_def demo_act_def)

lemma demo_method: "has_decomp_method demo_plan a = (if a = 10 then Some DECOMPOSITION else None)"
  by (simp add: has_decomp_method_def demo_plan_def demo_act_def)

lemma demo_live: "acts demo_plan a \<noteq> None \<longleftrightarrow> a \<in> {10, 11, 12, 13}"
  by (simp add: demo_plan_def)

lemma demo_scheduled: "is_unscheduled demo_plan a \<longleftrightarrow> a \<notin> {10, 11, 12, 13}"
  by (simp add: is_unscheduled_def demo_plan_def demo_act_def)

lemma demo_lifecycle: "lifecycle demo_plan = []"
  by (simp add: lifecycle_def demo_plan_def)

lemma demo_folded: "folded demo_plan 10"
  by (simp add: folded_def exclusive_def demo_children demo_lists demo_method)

lemma leaf_descendants: "children s a = [] \<Longrightarrow> descendants s a = {a}"
  by (simp add: descendants_unfold[of s a])

lemma demo_descendants: "descendants demo_plan a = (if a = 10 then {10, 11, 12} else {a})"
  by (cases "a = 10")
    (auto simp: descendants_unfold[of demo_plan 10] leaf_descendants demo_children)

lemma demo_tops: "tops demo_plan"
  unfolding tops_def demo_descendants demo_parent
  by (auto simp: demo_plan_def demo_act_def split: if_splits)

lemma demo_shallow: "shallow 2 demo_plan a"
  by (simp add: numeral_2_eq_2 demo_children)

lemma bounds_as_Suc: "(1::nat) = Suc 0" "(3::nat) = Suc (Suc (Suc 0))"
  "(4::nat) = Suc (Suc (Suc (Suc 0)))"
  by simp_all

section \<open>The invariant\<close>

text \<open>C6: Whatever change of state is asked of an activity instance, and whatever its programs
  do, \<open>do_it\<close> leaves every parent and child knowing each other, every instance with at most one
  parent, never itself, and in a list. Only after a throw may one side of a link be missing.\<close>

theorem do_it_keeps_links:
  assumes "linked s"
  shows "holds linked half_linked (do_it n A isc s)"
proof -
  have "linked = linked_but {}" by (intro ext) (simp add: linked_def)
  then show ?thesis using call_ok_any[OF do_it_call_ok assms[unfolded linked_def]] by simp
qed

lemma do_it_keeps_links_witness:
  "holds linked half_linked (do_it 5 demo_adaptation
     (set_desired_parent_to None (instance_state_changer demo_plan 11)) demo_plan)"
  by (rule do_it_keeps_links) (rule demo_linked)

section \<open>Detailing and abstracting\<close>

text \<open>C11: For a displayed instance that decomposes exclusively, whose children and their children are
  there and abstracted, no child decomposing nonexclusively, and when the creation and destruction
  programs do not throw: detailing it displays and selects the children in its place. The creation programs of the scheduled children run, in the
  order of the children, then the destruction program of the instance; nothing else changes.\<close>

theorem detail_shows_children:
  assumes "linked s" and "quiet A" and "folded s a"
  shows "\<exists>s'. make_visible (do_it (Suc (Suc (Suc m))) A) VISIBILITY_DECOMPOSED a s = Returns s'
    \<and> shape s' = shape s
    \<and> list_of s' = family_lists s a someDecomposedActivities someActiveInstances
    \<and> lifecycle s' = lifecycle s @ creations s (children s a) @ [Destroy a]
    \<and> set (sel_list s') = set (children s a) \<union> (set (sel_list s) - {a})"
  using assms by (rule detail_instance)

lemma detail_shows_children_witness:
  "\<exists>s'. make_visible (do_it 3 demo_adaptation) VISIBILITY_DECOMPOSED 10 demo_plan = Returns s'
     \<and> lifecycle s' = [Create 11, Create 12, Destroy 10]"
proof -
  have "lifecycle demo_plan @ creations demo_plan (children demo_plan 10) @ [Destroy 10]
      = [Create 11, Create 12, Destroy 10]"
    by (simp add: demo_children creations_def demo_scheduled demo_lifecycle)
  then show ?thesis
    unfolding bounds_as_Suc
    using detail_shows_children[OF demo_linked demo_quiet demo_folded, of 0] by auto
qed

text \<open>C9: For a displayed instance that decomposes exclusively, whose children and their children are
  there and abstracted, no child decomposing nonexclusively, and when the creation and destruction
  programs do not throw: abstracting any child of the instance that was just detailed undoes the
  detailing. Every instance is as it was before, the parent is selected again, and the programs that ran are the creations of the
  children, the destruction of the parent, the destructions of the children, the creation of the
  parent.\<close>

theorem detail_then_abstract:
  assumes s: "linked s" and A: "quiet A" and f: "folded s a" and b: "b \<in> set (children s a)"
  shows "\<exists>s' s''.
      make_visible (do_it (Suc (Suc (Suc m))) A) VISIBILITY_DECOMPOSED a s = Returns s'
    \<and> make_visible (do_it (Suc (Suc (Suc (Suc m)))) A) VISIBILITY_ABSTRACTED b s' = Returns s''
    \<and> acts s'' = acts s
    \<and> lifecycle s'' = lifecycle s @ creations s (children s a) @ [Destroy a]
        @ map Destroy (children s a) @ (if is_unscheduled s a then [] else [Create a])
    \<and> set (sel_list s'') = insert a (set (sel_list s) - set (children s a))"
proof -
  obtain s' where s': "make_visible (do_it (Suc (Suc (Suc m))) A) VISIBILITY_DECOMPOSED a s = Returns s'"
    "shape s' = shape s" "list_of s' = family_lists s a someDecomposedActivities someActiveInstances"
    "lifecycle s' = lifecycle s @ creations s (children s a) @ [Destroy a]"
    "set (sel_list s') = set (children s a) \<union> (set (sel_list s) - {a})"
    using detail_instance[OF s A f, of m] by blast
  have "linked s'"
    using call_ok_make_visible[OF do_it_call_ok s[unfolded linked_def], of "Suc (Suc (Suc m))" A
        VISIBILITY_DECOMPOSED a] s'(1) by (simp add: linked_def)
  moreover have "unfolded s' a"
    using f linked_children(5)[OF s b]
    unfolding unfolded_def exclusive_def by_shape[OF s'(2)] s'(3) family_lists_def folded_def by auto
  moreover have "b \<in> set (children s' a)" using b by_shape(1)[OF s'(2)] by simp
  ultimately obtain s'' where
    s'': "make_visible (do_it (Suc (Suc (Suc (Suc m)))) A) VISIBILITY_ABSTRACTED b s' = Returns s''"
    "shape s'' = shape s'"
    "list_of s'' = family_lists s' a someActiveInstances someAbstractedActivities"
    "lifecycle s'' = lifecycle s' @ map Destroy (children s' a)
      @ (if is_unscheduled s' a then [] else [Create a])"
    "set (sel_list s'') = insert a (set (sel_list s') - set (children s' a))"
    using abstract_instance[OF _ A, of s' a b m] by blast
  have "list_of s'' = list_of s"
    using f unfolding s''(3) s'(3) family_lists_def by_shape[OF s'(2)] folded_def
    by (auto simp: fun_eq_iff)
  then have "acts s'' = acts s" using s''(2) s'(2) by (intro acts_by_view) simp_all
  moreover have "set (sel_list s'') = insert a (set (sel_list s) - set (children s a))"
    using s''(5) s'(5) by_shape(1)[OF s'(2)] by auto
  moreover have "lifecycle s'' = lifecycle s @ creations s (children s a) @ [Destroy a]
        @ map Destroy (children s a) @ (if is_unscheduled s a then [] else [Create a])"
    unfolding s''(4) s'(4) by_shape[OF s'(2)] by simp
  ultimately show ?thesis using s'(1) s''(1) by blast
qed

lemma detail_then_abstract_witness:
  "\<exists>s' s''. make_visible (do_it 3 demo_adaptation) VISIBILITY_DECOMPOSED 10 demo_plan = Returns s'
     \<and> make_visible (do_it 4 demo_adaptation) VISIBILITY_ABSTRACTED 12 s' = Returns s''
     \<and> acts s'' = acts demo_plan"
proof -
  have "12 \<in> set (children demo_plan 10)" by (simp add: demo_children)
  from detail_then_abstract[OF demo_linked demo_quiet demo_folded this, of 0]
  show ?thesis unfolding bounds_as_Suc by blast
qed

section \<open>The accelerators\<close>

text \<open>C12: Attaching an instance without a parent to an instance outside of its own tree makes it
  the last child, changes no other link, and leaves every instance with the top of its tree as
  its accelerator, the whole tree of the child included.\<close>

theorem attach_keeps_tops:
  assumes "linked s" and "tops s" and "acts s c = Some x" and "acts s p = Some y"
    and "superactivities x = []" and "p \<notin> descendants s c" and "shallow n s c"
  shows "\<exists>s'. attach_to_parent n c p s = Returns s'
    \<and> children s' = (children s)(p := children s p @ [c])
    \<and> get_parent s' = (get_parent s)(c := Some p) \<and> tops s'"
  using assms by (rule attach_to_parent_returns)

lemma attach_keeps_tops_witness:
  "\<exists>s'. attach_to_parent 2 13 10 demo_plan = Returns s' \<and> children s' 10 = [11, 12, 13]
     \<and> tops s'"
proof -
  have "acts demo_plan 13 = Some (demo_act [] [] 13 someActiveInstances None)"
    "acts demo_plan 10 = Some (demo_act [] [11, 12] 10 someActiveInstances (Some DECOMPOSITION))"
    by (simp_all add: demo_plan_def)
  from attach_keeps_tops[OF demo_linked demo_tops this _ _ demo_shallow] show ?thesis
    by (force simp: demo_descendants demo_children demo_act_def)
qed

text \<open>C13: Severing a child from a parent that keeps other children, or is not decomposed, takes
  away exactly that link, and again every accelerator is the top of the tree, now the child for
  its descendants.\<close>

theorem sever_keeps_tops:
  assumes "linked s" and "tops s" and "get_parent s a = Some p"
    and "is_decomposed s p \<longrightarrow> children s p \<noteq> [a]" and "shallow n s a"
  shows "\<exists>s'. sever_from_parent n rec a s = Returns s'
    \<and> children s' = (children s)(p := removeAll a (children s p))
    \<and> get_parent s' = (get_parent s)(a := None) \<and> tops s'"
  using assms by (rule sever_from_parent_returns)

lemma sever_keeps_tops_witness:
  "\<exists>s'. sever_from_parent 2 (do_it 5 demo_adaptation) 11 demo_plan = Returns s'
     \<and> children s' 10 = [12] \<and> tops s'"
  using sever_keeps_tops[OF demo_linked demo_tops, of 11 10 2 "do_it 5 demo_adaptation"] demo_shallow
  by (auto simp: demo_parent demo_children)

text \<open>C38: Dragging an instance with its children moves every descendant by the same duration,
  each exactly once, and no other instance.\<close>

theorem drag_moves_descendants_once:
  assumes "linked s" and "shallow n s a" and "delta \<noteq> 0"
  shows "move_all_descendants_by n delta a s
    = Returns (change (later_by delta) (descendants s a - {a}) s)"
  using move_all_descendants_by_returns[OF assms(3,1,2)] by simp

lemma drag_moves_descendants_once_witness:
  "move_all_descendants_by 2 60 10 demo_plan
     = Returns (change (later_by 60) {11, 12} demo_plan)"
  using drag_moves_descendants_once[OF demo_linked demo_shallow, of 60 10]
  by (simp add: demo_descendants insert_Diff_if)

lemma select_hierarchy_selects_tree:
  assumes "tops s" and "accelerator s a = Some r" and "shallow n s r"
  shows "\<exists>s'. select_hierarchy n False a s = Returns s'
    \<and> acts s' = acts s \<and> set (sel_list s') = set (sel_list s) \<union> descendants s r
    \<and> a \<in> descendants s r"
proof -
  have "acts s a \<noteq> None" using assms(2) by (auto simp: accelerator_def split: option.splits)
  then have "a \<in> descendants s r" using assms(1,2) unfolding tops_iff by auto
  then show ?thesis
    using update_up_accelerator_selects[OF assms(3) refl, of None] assms(2)
    by (cases "acts s a") (auto simp: select_hierarchy_def accelerator_def)
qed

section \<open>Refused requests\<close>

text \<open>A displayed instance without a parent is not abstracted, and an instance on the
  clipboard is not detailed: these requests throw and change nothing.\<close>

theorem refused_requests:
  assumes "linked s"
  shows "list_of s a = Some someActiveInstances \<and> get_parent s a = None \<longrightarrow>
      make_visible (do_it (Suc n) A) VISIBILITY_ABSTRACTED a s
        = Throws (DecompError ''does not abstract'') s"
    and "list_of s a = Some somePendingActivities \<longrightarrow>
      make_visible (do_it (Suc n) A) VISIBILITY_DECOMPOSED a s
        = Throws (DecompError ''on clipboard; cannot decompose'') s"
proof -
  note fine = linked_parent_fine[OF assms[unfolded linked_def]]
  show "list_of s a = Some someActiveInstances \<and> get_parent s a = None \<longrightarrow>
      make_visible (do_it (Suc n) A) VISIBILITY_ABSTRACTED a s
        = Throws (DecompError ''does not abstract'') s"
  proof
    assume a: "list_of s a = Some someActiveInstances \<and> get_parent s a = None"
    then show "make_visible (do_it (Suc n) A) VISIBILITY_ABSTRACTED a s
        = Throws (DecompError ''does not abstract'') s"
      using make_visible_to(2)[OF fine _ _ weakly_active_displayed]
      by (simp add: view_simps act_instance_state_of_def to_abstracted_def)
  qed
  show "list_of s a = Some somePendingActivities \<longrightarrow>
      make_visible (do_it (Suc n) A) VISIBILITY_DECOMPOSED a s
        = Throws (DecompError ''on clipboard; cannot decompose'') s"
  proof
    assume a: "list_of s a = Some somePendingActivities"
    then have "is_weakly_active n s a = Some False" by (simp add: is_weakly_active_def view_simps)
    from make_visible_step[OF fine _ _ this, of VISIBILITY_DECOMPOSED A] a
    show "make_visible (do_it (Suc n) A) VISIBILITY_DECOMPOSED a s
        = Throws (DecompError ''on clipboard; cannot decompose'') s"
      by (simp add: view_simps change_visibility_def changer_defs leave_clipboard_def Let_def)
  qed
qed

lemma refused_requests_witness:
  "make_visible (do_it 1 demo_adaptation) VISIBILITY_ABSTRACTED 13 demo_plan
     = Throws (DecompError ''does not abstract'') demo_plan"
  unfolding bounds_as_Suc
  by (rule refused_requests(1)[OF demo_linked, rule_format]) (simp add: demo_parent demo_lists)

text \<open>C40: A displayed group, whose type has no decomposition section, passes the test for being
  detailed without errors, but the request does nothing and reports no error.\<close>

theorem group_is_not_detailed:
  assumes "linked s" and "list_of s a = Some someActiveInstances"
    and "has_decomp_method s a = None" and "children s a \<noteq> []"
  shows "can_be_decomposed_without_errors s a False
    \<and> make_visible (do_it (Suc n) A) VISIBILITY_DECOMPOSED a s = Returns s"
proof -
  have "make_visible (do_it (Suc n) A) VISIBILITY_DECOMPOSED a s
      = final_adjustments n A (\<not> is_unscheduled s a) True a False s"
    using make_visible_to(3)[OF linked_parent_fine[OF assms(1)[unfolded linked_def]] _ _
        weakly_active_displayed[OF assms(2)], where v = VISIBILITY_DECOMPOSED and n = n and A = A]
      assms(2,3)
    by (simp add: view_simps act_instance_state_of_def to_decomposed_def hasType_def)
  then show ?thesis
    using assms(4) weakly_active_displayed[OF assms(2)]
    by (simp add: final_adjustments_def when_weakly_active_def can_be_decomposed_without_errors_def
      children_count_def)
qed

text \<open>The group of the witness: 13 has adopted another instance.\<close>

definition demo_group :: act_state where
  "demo_group = \<lparr>acts = [13 \<mapsto> demo_act [] [14] 13 someActiveInstances None,
     14 \<mapsto> demo_act [13] [] 13 someAbstractedActivities None],
   sel_list = [], act_calls = [], next_act = 15\<rparr>"

lemma group_is_not_detailed_witness:
  "make_visible (do_it 1 demo_adaptation) VISIBILITY_DECOMPOSED 13 demo_group = Returns demo_group"
proof -
  have "linked demo_group"
    by (auto simp: linked_def linked_but_def demo_group_def demo_act_def split: if_splits)
  moreover have "list_of demo_group 13 = Some someActiveInstances"
    "has_decomp_method demo_group 13 = None" "children demo_group 13 \<noteq> []"
    by (simp_all add: list_of_def has_decomp_method_def children_def demo_group_def demo_act_def)
  ultimately show ?thesis
    unfolding bounds_as_Suc using group_is_not_detailed by blast
qed

section \<open>Copies\<close>

text \<open>C39: Copying an instance with its descendants to the clipboard, when neither the instance nor a
  descendant decomposes nonexclusively and the creation and destruction programs do not throw,
  succeeds, leaves the instances of the plan as they were, and makes a copy without children: every
  copy that is made, of the instance or of a descendant, lies on the clipboard with neither parent
  nor children. (The copy of an instance that decomposes nonexclusively may get new children from
  its decomposition program; they are not copies of the old ones.)\<close>

theorem copies_have_no_links:
  assumes s: "linked s" and A: "quiet A" and sh: "shallow n s a" and live: "acts s a \<noteq> None"
    and excl: "\<forall>b\<in>descendants s a. has_decomp_method s b \<noteq> Some NONEXCLDECOMP"
  shows "\<exists>u. put_a_copy_of_me_into_clipboard n A a s = Returns u
    \<and> (\<forall>b<next_act s. acts u b = acts s b)
    \<and> next_act s < next_act u
    \<and> (\<forall>b. next_act s \<le> b \<and> b < next_act u \<longrightarrow>
         list_of u b = Some somePendingActivities \<and> children u b = [] \<and> get_parent u b = None)"
proof -
  note D = linked_butD[OF s[unfolded linked_def]]
  have "acts s k \<noteq> None" if "acts s b = Some x" "k \<in> set (subactivities x)" for b x k
    using D(2)[OF that] by auto
  moreover have old: "b < next_act s" if "acts s b \<noteq> None" for b using that D(1) by auto
  moreover have "acts s b = None" if "next_act s \<le> b" for b using old[of b] that by linarith
  ultimately obtain u where "put_a_copy_of_me_into_clipboard n A a s = Returns u" "copied s u"
    "next_act s < next_act u"
    using put_a_copy_returns[OF A, of s "next_act s" n a s] sh live excl by blast
  then show ?thesis
    by (fastforce simp: copied_def list_of_def children_def get_parent_def)
qed

lemma copies_have_no_links_witness:
  "\<exists>u. put_a_copy_of_me_into_clipboard 2 demo_adaptation 10 demo_plan = Returns u
     \<and> list_of u 14 = Some somePendingActivities \<and> children u 14 = []"
proof -
  have "acts demo_plan 10 \<noteq> None" by (simp only: demo_live) simp
  moreover have "\<forall>b\<in>descendants demo_plan 10. has_decomp_method demo_plan b \<noteq> Some NONEXCLDECOMP"
    by (simp add: demo_method)
  moreover have "next_act demo_plan = 14" by (simp add: demo_plan_def)
  ultimately show ?thesis
    using copies_have_no_links[OF demo_linked demo_quiet demo_shallow, of 10] by auto
qed

section \<open>A throw in the middle of severing\<close>

text \<open>
  Instance 10 decomposes nonexclusively and has one child, 11, which is to be severed. The
  decomposition program that \<open>do_it\<close> runs for the parent without children throws: 11 then
  has a parent that does not have it as a child.
\<close>

definition demo_nonexcl :: act_state where
  "demo_nonexcl = \<lparr>acts = [10 \<mapsto> demo_act [] [11] 10 someDecomposedActivities (Some NONEXCLDECOMP),
     11 \<mapsto> demo_act [10] [] 10 someActiveInstances None],
   sel_list = [], act_calls = [], next_act = 12\<rparr>"

definition failing_adaptation :: adaptation where
  "failing_adaptation = demo_adaptation\<lparr>decomposition_program := (\<lambda>_ _. [Raise_error ''stop''])\<rparr>"

lemma demo_nonexcl_linked: "linked demo_nonexcl"
  by (auto simp: linked_def linked_but_def demo_nonexcl_def demo_act_def split: if_splits)

lemma sever_not_exception_safe:
  "case sever_from_parent 3 (do_it 3 failing_adaptation) 11 demo_nonexcl of
     Throws e s \<Rightarrow> get_parent s 11 = Some 10 \<and> children s 10 = []
   | _ \<Rightarrow> False"
  by code_simp

end
