(* ===== verification/Spec2Isabelle.thy ===== *)
theory Spec2Isabelle
  imports ListProperties HistoryProperties ResHistoryProperties StateProperties PartialHistoryProperties TimeProperties ConstraintProperties WindowProperties
    MiteratorProperties EventLoopWaking EventLoopProperties ActivityProperties
begin

text \<open>
  Verification of the core of APGEN, the activity planner in \<open>src/src\<close>.

  \<^bold>\<open>The program.\<close> APGEN models the resources of a spacecraft. An adaptation, written in a
  language of its own, declares activity types and resources. A plan holds instances of the
  activities. Modeling a plan means to execute the programs of the instances in the order of
  time: they consume resources, set states, send signals, wait for a duration, for a signal or
  for a condition on resources, and start other programs. What they do to a resource is stored
  in the history of the resource, and from the histories the program evaluates the resources,
  checks constraints, searches windows of opportunity and writes its outputs. The parts that
  are modelled are, from the bottom up, the following.

    \<^item> Times and durations (\<open>CTime_base\<close>): one \<open>long\<close> that counts milliseconds.
    \<^item> Balanced lists, twice: the classes \<open>List\<close>, \<open>blist\<close> and \<open>clist\<close> over nodes with virtual
      methods, and the template \<open>tlist\<close> with its key classes and linkers. A list is a linked list
      and an AVL tree over the same nodes; the nodes of a history carry the sums of the increments
      below them, so that a consumption is found by climbing.
    \<^item> Resources: a usage adds nodes to the history of a resource, a value is computed from the
      profile and from the nodes up to a time.
    \<^item> The multi-list iterator (\<open>Miterator\<close>): visits the nodes of several lists in the order of
      time and is notified by the lists when they change.
    \<^item> Signals and the patterns that wait for them.
    \<^item> The modeling loop: takes the earliest event out of the queues through a \<open>Miterator\<close>,
      executes it, parks the threads that wait and resumes them.
    \<^item> The constraints, checked by a thread that trails behind the loop, and the search for windows
      of opportunity: both read the histories in the order of time.
    \<^item> The hierarchy of the activity instances: parents, children, and the transitions in which
      children take the place of their parent on the display and give it back.

  \<^bold>\<open>Theories and sources.\<close> Paths are relative to \<open>src/src\<close>. Definitions have the names of the
  functions and members they model, with a suffix or a prefix where a name is used twice.

    \<^item> \<open>ApPrelude\<close>: the exits of the C++ code as a datatype, the result type \<open>error + 'a\<close> with its
      \<open>bind\<close>, the collections of rewrite rules (\<open>ap_result\<close>, \<open>tree_simps\<close>, \<open>time_simps\<close>), and
      generic lemmas on lists and options.
    \<^item> \<open>TimeBase\<close>, \<open>TimeProperties\<close>: \<open>apcore/templates/UTL_time.C\<close>, \<open>apgenlib/UTL_time_base.H\<close>;
      representation, arithmetic, the parser \<open>to_pseudo_milliseconds\<close>, \<open>zone_time\<close> with its
      calendar, and the printers. \<open>Doubles\<close>: the rounding of IEEE 754 and the conversions between
      times and doubles of \<open>UTL_time.C\<close>.
    \<^item> \<open>NodeOrder\<close>: the comparison functions of \<open>apcore/templates/C_list.C\<close> as interpretations of
      the locale \<open>comparer\<close>, the contract that a tree needs of them.
    \<^item> \<open>AvlTree\<close>, \<open>AvlInsert\<close>, \<open>AvlRemove\<close>: the trees of \<open>apcore/templates/blist.C\<close>,
      \<open>apgenlib/C_list.H\<close> and \<open>treeDir.H\<close>; searches, \<open>insert_binary_node\<close>, \<open>remove_node\<close> and
      \<open>rotate\<close> with the path arrays as lists of frames.
    \<^item> \<open>BList\<close>, \<open>BListOps\<close>, \<open>ListProperties\<close>: \<open>List\<close>, \<open>blist\<close> and \<open>clist\<close> over a store of shared
      nodes and lists (\<open>world\<close>); insertion, removal, \<open>order\<close>, \<open>clear\<close>, \<open>synchronize_all\<close> and the
      searches by links.
    \<^item> \<open>TreeKeys\<close>: the key classes \<open>prio_time\<close> of \<open>apgenlib/alphatime.H\<close>, \<open>alpha_string\<close> and
      \<open>ualpha_string\<close> of \<open>alphastring.H\<close> as interpretations of the locale \<open>tree_key\<close>, through which
      the template calls its keys.
    \<^item> \<open>TList\<close>, \<open>TListShape\<close>, \<open>TListCons\<close>, \<open>TListCorrect\<close>, \<open>TListContract\<close>, \<open>TListSearch\<close>,
      \<open>HistoryProperties\<close>: the template \<open>tlist\<close> of \<open>apgenlib/templates.H\<close> with the integer linker
      of \<open>linkers.H\<close>. \<open>TListShape\<close> is a refinement: without its sums a \<open>tlist\<close> is the tree of a
      \<open>blist\<close>, and inherits balance and order. \<open>TListCons\<close> is about the sums.
    \<^item> \<open>ResHistory\<close>, \<open>ResHistoryProperties\<close>: consumable and nonconsumable resources of
      \<open>apcore/resources/ResourceValue.C\<close> and \<open>ResourceUsage.C\<close>, \<open>apgenlib/Rsource.H\<close>.
    \<^item> \<open>StateRes\<close> (the operations), \<open>StateUses\<close>, \<open>StateValues\<close>, \<open>StateAppend\<close>,
      \<open>StateOperations\<close>, \<open>StateQuery\<close>, \<open>StateProperties\<close>: state resources of the same files with
      the nodes of \<open>apcore/templates/ValueNode.C\<close>, the search of a history from an iterator, and
      the state that is written to the outputs.
    \<^item> \<open>SettableRes\<close>, \<open>SettableValues\<close>, \<open>SettableProperties\<close>: settable resources of the same files
      with the filter of their SETs, and the values of numeric and settable resources in the
      context of a thread, without a time given.
    \<^item> \<open>PartialHistory\<close>, \<open>PartialHistoryProperties\<close>: the history of a resource between two times,
      as programs of the adaptation ask for it, for settable, numeric and state resources.
    \<^item> \<open>Miterator\<close>, \<open>MiteratorInvariant\<close>, \<open>MiteratorProperties\<close>: \<open>apgenlib/multitemplate.H\<close>,
      \<open>timeptr.H\<close>, \<open>multilist.H\<close>, \<open>slist.H\<close>. The locale \<open>time_queue\<close> is what its clients use of it.
    \<^item> \<open>Signals\<close>: class \<open>eval_intfc\<close> of \<open>apcore/interpreter/AP_exp_eval.C\<close> and the functions on
      signals of \<open>BuiltInFunctions.C\<close>.
    \<^item> \<open>EventLoop\<close> (the operations), \<open>EventLoopInvariant\<close>, \<open>EventLoopSteps\<close>, \<open>EventLoopWaking\<close>,
      \<open>EventLoopProperties\<close>: \<open>apcore/modeler/Events.C\<close>, \<open>Execute.C\<close>, \<open>Wait.C\<close>, \<open>EventLoop.C\<close> and
      \<open>EventLoopUtil.C\<close>. The interpreter of the adaptation language is a record of functions, an
      argument of every operation that executes a program.
    \<^item> \<open>ConstraintCheck\<close>, \<open>ConstraintProperties\<close>: \<open>apcore/modeler/Constraint.C\<close>.
    \<^item> \<open>WindowFinder\<close>, \<open>WindowProperties\<close>: \<open>apcore/scheduler/Scheduler.C\<close>.
    \<^item> \<open>Activities\<close> (the instances and single operations on them: \<open>apcore/activities/ACT_helpers.C\<close>,
      \<open>ActivityInstance.C\<close>, \<open>apgenlib/ActivityInstance.H\<close>), \<open>StateChanger\<close> (\<open>do_it\<close> and its parts:
      \<open>apcore/activities/instance_state_changer.C\<close>; the decomposition statement of
      \<open>apcore/modeler/Decomp.C\<close>), \<open>ActivityLinks\<close>, \<open>ActivityInvariant\<close> (the invariant),
      \<open>ActivityTransitions\<close> (detailing and abstracting), \<open>ActivityForest\<close> (the recursions over
      trees, accelerators, copies), \<open>ActivityProperties\<close>. The programs of the adaptation are a record
      of functions.

  \<^bold>\<open>What the lemmas show.\<close>

    \<^item> The trees are balanced and sorted after every insertion, removal and rotation, and their
      in-order sequence is the old one with exactly the change that was asked for. The sums of the
      histories are those of their subtrees, so that the consumption at a node is what was added up
      to it. The linked list of a \<open>clist\<close> agrees with its tree through all operations on shared
      nodes, and the two kinds of search agree.
    \<^item> The value of a numeric resource is its profile less the amounts of the usages in force,
      whatever the order in which they were stored; for state resources the value is that of the
      usage that started last among those in force, else of the last SET, else the profile; what a
      settable resource reports differs from what was set last, and from what is set next if it
      was not set itself, by no more than half of the difference given for the resource.
      The ways to find a value (evaluation at a time, evaluation in the context of a thread by the
      search from its iterator, the state for the outputs, the history between two times) agree.
    \<^item> The multi-list iterator returns every node of its lists once, ordered by time, priority and
      place, also when nodes are added while it runs, unless they are added before a node that was
      passed already: then the addition fails.
    \<^item> In every reachable state of the modeling loop each thread that waits is stored exactly once
      and the queues and the iterator agree; time never decreases; the earliest change of a watched
      resource at which the condition of a waiting thread is true resumes that thread; the loop ends if
      the programs create a bounded amount of work; and it ends with no other errors than those of
      evaluating the model.
    \<^item> The constraint checker evaluates each constraint after every event time at which one of its
      resources has changed, except the last one; its two automata report the runs of their
      conditions. The windows found are the maximal runs of the criterion that are long enough.
    \<^item> Every operation on the activity hierarchy, \<open>do_it\<close> with all its recursive calls included, leaves
      parents and children knowing each other, each instance with at most one parent and in one
      list; for instances that decompose exclusively, and programs that do not throw, detailing
      and abstracting are inverse to each other and run the creation and destruction programs in a
      fixed order; the accelerators point to the tops of the trees.
    \<^item> What is printed for a time or a duration is read back as the same value; the calendar is right
      for the years 1970 to 2069.

  \<^bold>\<open>Interfaces.\<close> \<open>comparer\<close> (client: the trees of \<open>blist\<close>; providers: the comparison functions and
  the pairs of keys of a store), \<open>tree_key\<close> (client: \<open>tlist\<close>; providers: \<open>prio_time\<close>,
  \<open>alpha_string\<close>, \<open>ualpha_string\<close>), \<open>time_queue\<close> (client: the modeling loop; provider: the
  \<open>Miterator\<close>). Each property is stated over the definitions of the model; where it is a fact of a
  locale, it is proved by the interpretation.

  \<^bold>\<open>Conventions.\<close> Objects that the code shares through pointers are numbers, looked up in a store.
  A result of type \<open>error + 'a\<close> is \<open>Inl\<close> of the exit that is taken (an exception with the
  literal its message starts with, a failed assertion, a read through a NULL or an uninitialised
  pointer) or \<open>Inr\<close> of the value; the state that an exception leaves behind is not modelled unless
  a handler in the modelled code goes on with it, or, in the activity hierarchy, where every
  outcome carries the state. Times and durations are integers; the increments
  and sums of a history are 64-bit words, which wrap; conversions to narrower integers are written
  out. Counters that grow by one per node are natural numbers or integers. A \<open>double\<close> is the
  rational number it stands for, and every operation on doubles is rounded (\<open>to_double\<close>), to the
  nearest number and with subnormals; infinities and NaN are left out.

  \<^bold>\<open>Bounds and fuel.\<close> The functions on trees and lists are structurally recursive or come with a
  measure. Three groups of functions take fuel. \<open>do_it\<close> and the recursions over the activity
  hierarchy: the depth of the calls; the properties on transitions hold from a bound of three or
  four on, those on recursions for a bound above the height of the tree (\<open>shallow\<close>); the invariant
  holds for any bound. \<open>event_loop\<close>: the number of rounds; a property shows that the sum
  of the weights of the pending events and of the waiting threads is enough, for programs that create
  less work than they do (in the code the loop of a model that creates work forever does not end).
  \<open>following_until\<close>: the length of the chain of links plus one. The insertion uses arrays of \<open>MAXDEPTH\<close> entries for its paths; a
  property shows that fewer than 267914295 nodes never fill them.

  \<^bold>\<open>Deviations the model shows.\<close> Each of the following is described where it is modelled. The
  constraints of the last event are never checked. A first window is not cut off at the limit of the
  search. An exhausted \<open>Miterator\<close> accepts a node before those it has passed. A node that is inserted
  while it is in a history loses its increment. A usage without duration can hide a pending usage of
  a state resource from a later SET. The search of a history from an iterator returns the first node
  when all nodes are later than the time asked for. The filter of a settable resource counts an
  integer in force twice, fails for times and durations with a relative tolerance only, and forgets
  a SET in the future. A history between two times loses its first node when none is before the
  start, and that of a numeric resource the usages before the start until the first node of its
  own; it also reads integers as doubles, which changes those beyond 53 bits. A copy of an activity
  with children, none of which decomposes nonexclusively, has no children, a throw while an activity is severed
  from its parent leaves half of the link, a group without a decomposition section is never
  detailed, and unscheduled activities are destroyed without having been created.
  \<open>blist::find(int)\<close> never finds a node. Adding a
  negative duration to a time is not checked where subtracting one is.

  \<^bold>\<open>Not modelled.\<close> The interpreter of the adaptation language: its expressions and instructions
  are classes that a generator writes, one for each rule of a grammar; the programs, profiles,
  conditions and criteria are arguments of the model. The parser, which the build generates, and the
  consolidation of adaptations. Of the resources: numeric resources of type float (a linker of
  doubles with integrals), interpolation, limits, and the histories for the
  displays; the histories of the other resources reach the modeling loop, the constraints and the
  windows as arguments. The concurrency of the trailing threads, which follow the modeling thread
  through atomic flags: the modeling loop is modelled without them, the checker with the events in
  the order it receives them. In the modeling loop also the deletion of old histories in the second
  scheduling pass (a parameter) and the scheduling instructions. Of the activities: their
  identifiers, attributes and legends, the pointers of the display, the decomposition that goes on
  in the second scheduling pass by running the program of the child at once, the requests of the
  user and the reading of plan files. Input and output: files, sockets, remote
  procedure calls, the graphical user interface, stand-alone tools on time-ordered logs, and the
  adapters of vendored libraries.
\<close>

end
